(* ===== verification/Prelude.thy ===== *)
theory Prelude
  imports Main "HOL-Library.Word"
begin

text \<open>
  Shared vocabulary of the development.

  \<^item> JavaScript strings are \<^typ>\<open>string\<close>: a list of code units. The code under
    verification only compares code units, looks for ASCII characters and concatenates,
    and the tmux control stream is decoded as latin1 (one code unit per byte), so the
    256 values of \<^typ>\<open>char\<close> are the code units that occur there.
  \<^item> \<open>Uint8Array\<close> is a list of bytes.
  \<^item> A JavaScript \<open>Map\<close> whose iteration order matters is an association list in
    insertion order (\<open>omap_set\<close>, \<open>omap_del\<close>, lookup by \<^const>\<open>map_of\<close>);
    one that is only looked up is a partial function.
  \<^item> A thrown error is the left summand of a sum.
  \<^item> Two interfaces that several components share are stated here as locales: a machine
    whose steps keep an invariant, and a chunked byte consumer that refines a function on
    the unchunked input.
\<close>

type_synonym byte = "8 word"
type_synonym bytes = "byte list"

named_theorems js_string "facts about the modelled JavaScript string operations"
named_theorems omap_simps "lookup and key facts of insertion-ordered maps"

section \<open>Results that can be errors\<close>

fun bindR :: "'e + 'a \<Rightarrow> ('a \<Rightarrow> 'e + 'b) \<Rightarrow> 'e + 'b" where
  "bindR (Inl e) f = Inl e"
| "bindR (Inr x) f = f x"

lemma bindR_Inr_iff: "bindR r f = Inr y \<longleftrightarrow> (\<exists>x. r = Inr x \<and> f x = Inr y)"
  by (cases r) auto

lemma bindR_Inl_iff: "bindR r f = Inl e \<longleftrightarrow> r = Inl e \<or> (\<exists>x. r = Inr x \<and> f x = Inl e)"
  by (cases r) auto

section \<open>Strings\<close>

definition startsWith :: "'a list \<Rightarrow> 'a list \<Rightarrow> bool" where
  "startsWith s p \<longleftrightarrow> take (length p) s = p"

definition endsWith :: "'a list \<Rightarrow> 'a list \<Rightarrow> bool" where
  "endsWith s p \<longleftrightarrow> length p \<le> length s \<and> drop (length s - length p) s = p"

lemma startsWith_iff [js_string]: "startsWith s p \<longleftrightarrow> (\<exists>r. s = p @ r)"
  unfolding startsWith_def
  by (metis append_eq_conv_conj append_take_drop_id)

lemma startsWith_append [simp]: "startsWith (p @ r) p"
  by (simp add: startsWith_def)

lemma startsWith_Nil [simp]: "startsWith s []"
  by (simp add: startsWith_def)

lemma startsWith_Nil_left [simp]: "startsWith [] p \<longleftrightarrow> p = []"
  by (auto simp: startsWith_def)

lemma startsWith_Cons [simp]: "startsWith (x # s) (y # p) \<longleftrightarrow> x = y \<and> startsWith s p"
  by (auto simp: startsWith_def)

lemma endsWith_iff [js_string]: "endsWith s p \<longleftrightarrow> (\<exists>r. s = r @ p)"
  unfolding endsWith_def
  by (metis append_eq_conv_conj append_take_drop_id diff_add_inverse2 le_add2 length_append)

text \<open>\<open>s.indexOf(p)\<close>: the first position where \<open>p\<close> occurs; \<open>None\<close> stands for \<open>-1\<close>.\<close>

fun indexOf :: "'a list \<Rightarrow> 'a list \<Rightarrow> nat option" where
  "indexOf [] p = (if p = [] then Some 0 else None)"
| "indexOf (x # s) p =
     (if startsWith (x # s) p then Some 0 else map_option Suc (indexOf s p))"

definition includesStr :: "'a list \<Rightarrow> 'a list \<Rightarrow> bool" where
  "includesStr s p \<longleftrightarrow> indexOf s p \<noteq> None"

lemma indexOf_SomeD: "indexOf s p = Some i \<Longrightarrow> startsWith (drop i s) p \<and> i \<le> length s"
  by (induction s arbitrary: i) (auto split: if_splits)

lemma indexOf_least: "indexOf s p = Some i \<Longrightarrow> j < i \<Longrightarrow> \<not> startsWith (drop j s) p"
proof (induction s arbitrary: i j)
  case Nil
  then show ?case by (auto split: if_splits)
next
  case (Cons x s)
  then show ?case by (cases j) (auto split: if_splits)
qed

lemma indexOf_None_iff: "indexOf s p = None \<longleftrightarrow> (\<forall>j\<le>length s. \<not> startsWith (drop j s) p)"
proof (induction s)
  case Nil
  then show ?case by auto
next
  case (Cons x s)
  show ?case
  proof (cases "startsWith (x # s) p")
    case True
    then show ?thesis by (intro iffI) (auto dest: spec [of _ 0])
  next
    case False
    have "(\<forall>j\<le>length (x # s). \<not> startsWith (drop j (x # s)) p) \<longleftrightarrow>
        (\<forall>j\<le>length s. \<not> startsWith (drop j s) p)" (is "?L \<longleftrightarrow> ?R")
    proof
      assume ?L
      then show ?R by (metis Suc_le_mono drop_Suc_Cons length_Cons)
    next
      assume R: ?R
      show ?L
      proof (intro allI impI)
        fix j assume "j \<le> length (x # s)"
        with R False show "\<not> startsWith (drop j (x # s)) p" by (cases j) auto
      qed
    qed
    with False Cons show ?thesis by simp
  qed
qed

lemma indexOf_singleton: "indexOf s [c] = Some i \<Longrightarrow> i < length s \<and> s ! i = c \<and> c \<notin> set (take i s)"
proof (induction s arbitrary: i)
  case Nil
  then show ?case by simp
next
  case (Cons x s)
  then show ?case by (cases i) (auto split: if_splits)
qed

lemma indexOf_singleton_None [simp]: "indexOf s [c] = None \<longleftrightarrow> c \<notin> set s"
  by (induction s) auto

lemma indexOf_absent [simp]: "c \<notin> set s \<Longrightarrow> indexOf s [c] = None"
  by simp

lemma indexOf_singleton_append [simp]:
  "c \<notin> set a \<Longrightarrow> indexOf (a @ c # b) [c] = Some (length a)"
  by (induction a) auto

text \<open>\<open>s.split(c)\<close> for a one-character separator, and \<open>parts.join(c)\<close>.\<close>

fun splitOn :: "'a \<Rightarrow> 'a list \<Rightarrow> 'a list list" where
  "splitOn c [] = [[]]"
| "splitOn c (x # s) =
     (if x = c then [] # splitOn c s
      else (case splitOn c s of [] \<Rightarrow> [[x]] | p # ps \<Rightarrow> (x # p) # ps))"

fun joinWith :: "'a list \<Rightarrow> 'a list list \<Rightarrow> 'a list" where
  "joinWith sep [] = []"
| "joinWith sep [p] = p"
| "joinWith sep (p # q # ps) = p @ sep @ joinWith sep (q # ps)"

lemma splitOn_ne [simp]: "splitOn c s \<noteq> []"
  by (induction s) (auto split: list.splits)

lemma splitOn_no_sep: "p \<in> set (splitOn c s) \<Longrightarrow> c \<notin> set p"
  by (induction s arbitrary: p) (fastforce split: if_splits list.splits)+

lemma joinWith_Cons: "ps \<noteq> [] \<Longrightarrow> joinWith sep (p # ps) = p @ sep @ joinWith sep ps"
  by (cases ps) auto

lemma joinWith_head: "joinWith sep ((x # p) # ps) = x # joinWith sep (p # ps)"
  by (cases ps) auto

lemma join_split [simp]: "joinWith [c] (splitOn c s) = s"
proof (induction s)
  case Nil
  then show ?case by simp
next
  case (Cons x s)
  then show ?case
    by (auto simp: joinWith_Cons joinWith_head split: list.splits)
qed

lemma splitOn_id: "c \<notin> set s \<Longrightarrow> splitOn c s = [s]"
  by (induction s) auto

lemma splitOn_append: "c \<notin> set a \<Longrightarrow> splitOn c (a @ c # b) = a # splitOn c b"
  by (induction a) auto

lemma split_join:
  "ps \<noteq> [] \<Longrightarrow> (\<And>p. p \<in> set ps \<Longrightarrow> c \<notin> set p) \<Longrightarrow> splitOn c (joinWith [c] ps) = ps"
proof (induction ps)
  case Nil
  then show ?case by simp
next
  case (Cons p ps)
  show ?case
  proof (cases ps)
    case Nil
    with Cons.prems show ?thesis by (simp add: splitOn_id)
  next
    case (Cons q qs)
    with Cons.prems Cons.IH show ?thesis by (simp add: splitOn_append)
  qed
qed

text \<open>The decimal rendering of a natural number, \<open>String(n)\<close>, and its digits.\<close>

definition digit_char :: "nat \<Rightarrow> char" where
  "digit_char d = char_of (48 + d)"

definition is_digit :: "char \<Rightarrow> bool" where
  "is_digit c \<longleftrightarrow> 48 \<le> (of_char c :: nat) \<and> (of_char c :: nat) \<le> 57"

definition digit_val :: "char \<Rightarrow> nat" where
  "digit_val c = of_char c - 48"

fun showNat :: "nat \<Rightarrow> string" where
  "showNat n = (if n < 10 then [digit_char n] else showNat (n div 10) @ [digit_char (n mod 10)])"

declare showNat.simps [simp del]

definition readNat :: "string \<Rightarrow> nat" where
  "readNat s = foldl (\<lambda>a c. a * 10 + digit_val c) 0 s"

lemma is_digit_char [simp]: "d < 10 \<Longrightarrow> is_digit (digit_char d)"
  by (simp add: is_digit_def digit_char_def)

lemma digit_val_char [simp]: "d < 10 \<Longrightarrow> digit_val (digit_char d) = d"
  by (simp add: digit_val_def digit_char_def)

lemma showNat_unfold:
  "n < 10 \<Longrightarrow> showNat n = [digit_char n]"
  "\<not> n < 10 \<Longrightarrow> showNat n = showNat (n div 10) @ [digit_char (n mod 10)]"
  by (subst showNat.simps; simp)+

lemma digit_chars:
  "digit_char 0 = CHR ''0''" "digit_char 1 = CHR ''1''" "digit_char (Suc 0) = CHR ''1''"
  "digit_char 2 = CHR ''2''" "digit_char 3 = CHR ''3''" "digit_char 4 = CHR ''4''"
  "digit_char 5 = CHR ''5''" "digit_char 6 = CHR ''6''" "digit_char 7 = CHR ''7''"
  "digit_char 8 = CHR ''8''" "digit_char 9 = CHR ''9''"
  by (simp_all add: digit_char_def char_of_def) (code_simp+)?

lemma showNat_ne [simp]: "showNat n \<noteq> []"
  by (subst showNat.simps) simp

lemma showNat_digits: "c \<in> set (showNat n) \<Longrightarrow> is_digit c"
proof (induction n rule: showNat.induct)
  case (1 n)
  then show ?case
    by (subst (asm) (2) showNat.simps) (auto split: if_splits)
qed

lemma takeWhile_showNat [simp]: "takeWhile is_digit (showNat n) = showNat n"
  "dropWhile is_digit (showNat n) = []"
  using showNat_digits by auto

lemma digits_takeWhile:
  "r = [] \<or> \<not> is_digit (hd r) \<Longrightarrow>
     takeWhile is_digit (showNat n @ r) = showNat n \<and> dropWhile is_digit (showNat n @ r) = r"
proof -
  assume "r = [] \<or> \<not> is_digit (hd r)"
  then have "takeWhile is_digit r = [] \<and> dropWhile is_digit r = r" by (cases r) auto
  moreover have "\<forall>c\<in>set (showNat n). is_digit c" using showNat_digits by blast
  ultimately show ?thesis by simp
qed

lemma readNat_showNat [simp]: "readNat (showNat n) = n"
proof (induction n rule: showNat.induct)
  case (1 n)
  then show ?case
    by (subst showNat.simps) (auto simp: readNat_def)
qed

lemma showNat_inj: "showNat m = showNat n \<longleftrightarrow> m = n"
  by (metis readNat_showNat)

lemma is_digit_not_punct: "is_digit c \<Longrightarrow> c \<noteq> CHR '','' \<and> c \<noteq> CHR ''x'' \<and> c \<noteq> CHR '' ''
    \<and> c \<noteq> CHR ''}'' \<and> c \<noteq> CHR '']'' \<and> c \<noteq> CHR ''{'' \<and> c \<noteq> CHR ''['' \<and> c \<noteq> CHR '';''"
  by (auto simp: is_digit_def)

text \<open>
  White space as \<open>trim\<close> and the pattern \<open>\s\<close> see it (among the 256 code units: tab, the line
  breaks, space and no-break space), \<open>s.trim()\<close>, and \<open>s.split(/\s+/)\<close> for a trimmed
  non-empty \<open>s\<close>.
\<close>

definition is_ws :: "char \<Rightarrow> bool" where
  "is_ws c \<longleftrightarrow> (9 \<le> (of_char c :: nat) \<and> (of_char c :: nat) \<le> 13) \<or> of_char c = (32 :: nat) \<or> of_char c = (160 :: nat)"

definition trim :: "string \<Rightarrow> string" where
  "trim s = rev (dropWhile is_ws (rev (dropWhile is_ws s)))"

lemma length_dropWhile_less [termination_simp]: "length (dropWhile P s) < Suc (length s)"
  by (simp add: less_Suc_eq_le length_dropWhile_le)

fun words_ws :: "string \<Rightarrow> string list" where
  "words_ws [] = [[]]"
| "words_ws (c # s) =
     (if is_ws c then [] # words_ws (dropWhile is_ws s)
      else (case words_ws s of [] \<Rightarrow> [[c]] | w # ws \<Rightarrow> (c # w) # ws))"

lemma trim_id:
  assumes "s = [] \<or> (\<not> is_ws (hd s) \<and> \<not> is_ws (last s))"
  shows "trim s = s"
proof -
  from assms have "dropWhile is_ws s = s" and "dropWhile is_ws (rev s) = rev s"
    by (auto simp: dropWhile_eq_self_iff hd_rev)
  then show ?thesis by (simp add: trim_def)
qed

lemma is_ws_space [simp]: "is_ws CHR '' ''"
  by (simp add: is_ws_def)

lemma words_ws_ne [simp]: "words_ws s \<noteq> []"
  by (induction s rule: words_ws.induct) (auto split: list.splits)

lemma words_ws_append:
  "\<forall>c\<in>set w. \<not> is_ws c \<Longrightarrow> s \<noteq> [] \<Longrightarrow> \<not> is_ws (hd s) \<Longrightarrow>
     words_ws (w @ CHR '' '' # s) = w # words_ws s"
proof (induction w)
  case Nil
  then show ?case by (cases s) simp_all
next
  case (Cons c w)
  then show ?case by simp
qed

lemma words_ws_single: "\<forall>c\<in>set w. \<not> is_ws c \<Longrightarrow> words_ws w = [w]"
  by (induction w) auto

text \<open>\<open>TextEncoder.encode\<close> on code units below 256: one byte below 128, two from there on.\<close>

definition char_byte :: "char \<Rightarrow> byte" where
  "char_byte c = word_of_nat (of_char c)"

definition utf8_unit :: "char \<Rightarrow> bytes" where
  "utf8_unit c =
     (let n = (of_char c :: nat)
      in if n < 128 then [word_of_nat n] else [word_of_nat (192 + n div 64), word_of_nat (128 + n mod 64)])"

definition utf8Encode :: "string \<Rightarrow> bytes" where
  "utf8Encode s = concat (map utf8_unit s)"

section \<open>Insertion-ordered maps\<close>

definition omap_set :: "'k \<Rightarrow> 'v \<Rightarrow> ('k \<times> 'v) list \<Rightarrow> ('k \<times> 'v) list" where
  "omap_set k v m =
     (if k \<in> fst ` set m then map (\<lambda>(k', v'). if k' = k then (k, v) else (k', v')) m
      else m @ [(k, v)])"

definition omap_del :: "'k \<Rightarrow> ('k \<times> 'v) list \<Rightarrow> ('k \<times> 'v) list" where
  "omap_del k m = filter (\<lambda>(k', _). k' \<noteq> k) m"

lemma map_of_overwrite:
  "map_of (map (\<lambda>(k', v'). if k' = k then (k, v) else (k', v')) m) =
     (if k \<in> fst ` set m then (map_of m)(k \<mapsto> v) else map_of m)"
  by (induction m) (auto simp: fun_eq_iff)

lemma omap_get_set [omap_simps]: "map_of (omap_set k v m) = (map_of m)(k \<mapsto> v)"
proof (cases "k \<in> fst ` set m")
  case True
  then show ?thesis by (simp add: omap_set_def map_of_overwrite)
next
  case False
  then have "map_of m k = None" by (simp add: map_of_eq_None_iff)
  with False show ?thesis
    by (auto simp: omap_set_def map_add_def fun_eq_iff split: option.splits)
qed

lemma omap_get_del [omap_simps]: "map_of (omap_del k m) = (map_of m)(k := None)"
  by (induction m) (auto simp: omap_del_def fun_eq_iff)

lemma omap_keys_set [omap_simps]: "fst ` set (omap_set k v m) = insert k (fst ` set m)"
  by (auto simp: omap_set_def image_iff split: if_splits) (force+)?

lemma omap_keys_del [omap_simps]: "fst ` set (omap_del k m) = fst ` set m - {k}"
  by (auto simp: omap_del_def image_iff)

lemma omap_set_keys_order:
  "map fst (omap_set k v m) = (if k \<in> fst ` set m then map fst m else map fst m @ [k])"
  by (auto simp: omap_set_def)

lemma omap_set_member: "(k', v') \<in> set (omap_set k v m) \<Longrightarrow> (k' = k \<and> v' = v) \<or> (k' \<noteq> k \<and> (k', v') \<in> set m)"
  by (force simp: omap_set_def split: if_splits)

lemma omap_del_member: "x \<in> set (omap_del k m) \<longleftrightarrow> x \<in> set m \<and> fst x \<noteq> k"
  by (auto simp: omap_del_def)

lemma omap_distinct_set [omap_simps]: "distinct (map fst m) \<Longrightarrow> distinct (map fst (omap_set k v m))"
  by (auto simp: omap_set_keys_order)

lemma omap_distinct_del [omap_simps]: "distinct (map fst m) \<Longrightarrow> distinct (map fst (omap_del k m))"
  by (induction m) (auto simp: omap_del_def)

lemma omap_del_length: "length (omap_del k m) \<le> length m"
  by (simp add: omap_del_def)

text \<open>A JavaScript \<open>Set\<close> in insertion order.\<close>

definition oset_add :: "'a \<Rightarrow> 'a list \<Rightarrow> 'a list" where
  "oset_add x xs = (if x \<in> set xs then xs else xs @ [x])"

lemma set_oset_add [simp]: "set (oset_add x xs) = insert x (set xs)"
  by (auto simp: oset_add_def)

lemma distinct_oset_add [simp]: "distinct xs \<Longrightarrow> distinct (oset_add x xs)"
  by (auto simp: oset_add_def)

lemma distinct_concat_map:
  assumes "distinct xs" and "\<And>x. x \<in> set xs \<Longrightarrow> distinct (f x)"
    and "\<And>x y. x \<in> set xs \<Longrightarrow> y \<in> set xs \<Longrightarrow> x \<noteq> y \<Longrightarrow> set (f x) \<inter> set (f y) = {}"
  shows "distinct (concat (map f xs))"
  using assms by (induction xs) (simp_all, blast)

section \<open>Machines that keep an invariant\<close>

text \<open>
  A component whose every operation keeps its invariant keeps it over any sequence of
  operations. The client of the interface supplies the step function and the one-step
  law; runs, prefixes of runs and pointwise facts come from here.
\<close>

locale stepping =
  fixes step :: "'s \<Rightarrow> 'e \<Rightarrow> 's"
    and inv :: "'s \<Rightarrow> bool"
  assumes step_inv: "inv s \<Longrightarrow> inv (step s e)"
begin

lemma run_inv: "inv s \<Longrightarrow> inv (foldl step s es)"
  by (induction es arbitrary: s) (auto intro: step_inv)

lemma run_prefix_inv: "inv s \<Longrightarrow> inv (foldl step s (take n es))"
  by (rule run_inv)

lemma run_append_inv: "inv s \<Longrightarrow> inv (foldl step (foldl step s es) fs)"
  by (intro run_inv)

end

section \<open>Chunked consumers\<close>

text \<open>
  \<open>push\<close> consumes one chunk and either throws (\<open>None\<close>) or delivers outputs and a new
  state. \<open>flat\<close> is the same consumer on an abstract state, with the one law that makes
  chunk boundaries irrelevant: consuming \<open>a @ b\<close> is consuming \<open>a\<close>, then \<open>b\<close>. \<open>run_chunks\<close>
  describes only the runs that never throw: a run that throws is \<open>None\<close>, whatever the pushes
  before had delivered.
\<close>

fun run_chunks :: "('s \<Rightarrow> 'b list \<Rightarrow> ('o list \<times> 's) option) \<Rightarrow> 's \<Rightarrow> 'b list list
    \<Rightarrow> ('o list \<times> 's) option" where
  "run_chunks push s [] = Some ([], s)"
| "run_chunks push s (c # cs) =
     (case push s c of None \<Rightarrow> None
      | Some (o1, s1) \<Rightarrow>
          (case run_chunks push s1 cs of None \<Rightarrow> None
           | Some (o2, s2) \<Rightarrow> Some (o1 @ o2, s2)))"

locale chunk_consumer =
  fixes push :: "'s \<Rightarrow> 'b list \<Rightarrow> ('o list \<times> 's) option"
    and inv :: "'s \<Rightarrow> bool"
    and abs :: "'s \<Rightarrow> 'a"
    and flat :: "'a \<Rightarrow> 'b list \<Rightarrow> ('o list \<times> 'a) option"
  assumes push_inv: "inv s \<Longrightarrow> push s c = Some (os, s') \<Longrightarrow> inv s'"
    and push_flat: "inv s \<Longrightarrow> map_option (map_prod id abs) (push s c) = flat (abs s) c"
    and flat_Nil: "inv s \<Longrightarrow> flat (abs s) [] = Some ([], abs s)"
    and flat_append: "inv s \<Longrightarrow> flat (abs s) (a @ b) =
        (case flat (abs s) a of None \<Rightarrow> None
         | Some (o1, x1) \<Rightarrow>
             (case flat x1 b of None \<Rightarrow> None | Some (o2, x2) \<Rightarrow> Some (o1 @ o2, x2)))"
begin

lemma run_inv: "inv s \<Longrightarrow> run_chunks push s cs = Some (os, s') \<Longrightarrow> inv s'"
  by (induction cs arbitrary: s os)
    (auto split: option.splits prod.splits dest: push_inv)

lemma run_flat:
  "inv s \<Longrightarrow> map_option (map_prod id abs) (run_chunks push s cs) = flat (abs s) (concat cs)"
proof (induction cs arbitrary: s)
  case Nil
  then show ?case by (simp add: flat_Nil)
next
  case (Cons c cs)
  show ?case
  proof (cases "push s c")
    case None
    with push_flat [OF Cons.prems, of c] have "flat (abs s) c = None" by simp
    with None Cons.prems show ?thesis by (simp add: flat_append)
  next
    case (Some r)
    obtain o1 s1 where r: "r = (o1, s1)" by (cases r)
    with Some push_flat [OF Cons.prems, of c] have f: "flat (abs s) c = Some (o1, abs s1)" by simp
    from Some r Cons.prems have "inv s1" by (auto intro: push_inv)
    from Cons.IH [OF this] have
      "flat (abs s1) (concat cs) = map_option (map_prod id abs) (run_chunks push s1 cs)"
      by (rule sym)
    with Some r f Cons.prems show ?thesis
      by (auto simp: flat_append split: option.splits prod.splits)
  qed
qed

theorem chunking_irrelevant:
  assumes "inv s" and "concat cs = concat ds"
  shows "map_option (map_prod id abs) (run_chunks push s cs) =
         map_option (map_prod id abs) (run_chunks push s ds)"
  using assms by (simp add: run_flat)

lemma run_outputs_eq:
  assumes "inv s" and "concat cs = concat ds"
  shows "map_option fst (run_chunks push s cs) = map_option fst (run_chunks push s ds)"
proof -
  have "map_option fst (run_chunks push s xs) =
      map_option fst (map_option (map_prod id abs) (run_chunks push s xs))" for xs
    by (simp add: option.map_comp comp_def)
  with chunking_irrelevant [OF assms] show ?thesis by simp
qed

end

end
