(* ===== verification/WireFrame.thy ===== *)
theory WireFrame
  imports Prelude
begin

text \<open>
  The length-prefixed frame codec of \<open>src/shared/wire/frame.ts\<close>, used by the helper RPC
  stream and the terminal callback socket: a 4-byte big-endian body length, then that many
  bytes of UTF-8 JSON.

  \<^item> The decoder record has the fields of class \<open>FrameDecoder\<close>; the pending chunks are kept
    unconcatenated, as in the code.
  \<^item> \<open>parse\<close> stands for \<open>JSON.parse\<close> after \<open>TextDecoder.decode\<close>: a body either parses to a
    value or throws an error with a message. \<open>ser\<close> stands for \<open>TextEncoder.encode\<close> after
    \<open>JSON.stringify\<close>, with \<open>None\<close> for \<open>undefined\<close>. Both are arguments; nothing is
    assumed of them except, for the round trip, that parsing inverts serialising.
  \<^item> A \<open>push\<close> that throws delivers nothing and leaves the decoder poisoned.
  \<^item> The \<open>for(;;)\<close> loop of \<open>push\<close> gets one unit of fuel per buffered byte and one more;
    \<open>drain_flat\<close> shows that this always suffices.
\<close>

section \<open>Definitions\<close>

definition FRAME_HEADER_BYTES :: nat where
  "FRAME_HEADER_BYTES = 4"

datatype frame_error = TooLarge nat | Malformed string

record frame_decoder =
  chunks :: "bytes list"
  buffered :: nat
  frameBytes :: "nat option"
  failure :: "frame_error option"
  maxFrameBytes :: nat

definition new_FrameDecoder :: "nat \<Rightarrow> frame_decoder" where
  "new_FrameDecoder mx =
     \<lparr>chunks = [], buffered = 0, frameBytes = None, failure = None, maxFrameBytes = mx\<rparr>"

definition pendingBytes :: "frame_decoder \<Rightarrow> nat" where
  "pendingBytes d = buffered d"

text \<open>\<open>DataView.setUint32(0, n, false)\<close>: big-endian, modulo \<open>2^32\<close>.\<close>

definition setUint32 :: "nat \<Rightarrow> bytes" where
  "setUint32 n =
     [word_of_nat (n div 16777216), word_of_nat (n div 65536),
      word_of_nat (n div 256), word_of_nat n]"

definition encodeFrame :: "('v \<Rightarrow> bytes option) \<Rightarrow> 'v \<Rightarrow> nat \<Rightarrow> frame_error + bytes" where
  "encodeFrame ser payload mx =
     (case ser payload of
        None \<Rightarrow> Inl (Malformed ''payload is not JSON-serializable'')
      | Some body \<Rightarrow>
          (if length body > mx then Inl (TooLarge (length body))
           else Inr (setUint32 (length body) @ body)))"

text \<open>
  The inner loop reads bytes of one chunk while fewer than four were read; the outer loop
  stops once four were read.
\<close>

fun declaredLength_chunk :: "bytes \<Rightarrow> nat \<Rightarrow> nat \<Rightarrow> nat \<times> nat" where
  "declaredLength_chunk [] len rd = (len, rd)"
| "declaredLength_chunk (b # c) len rd =
     (if rd < FRAME_HEADER_BYTES then declaredLength_chunk c (len * 256 + unat b) (Suc rd)
      else (len, rd))"

fun declaredLength_loop :: "bytes list \<Rightarrow> nat \<Rightarrow> nat \<Rightarrow> nat" where
  "declaredLength_loop [] len rd = len"
| "declaredLength_loop (c # cs) len rd =
     (let (len', rd') = declaredLength_chunk c len rd
      in if rd' = FRAME_HEADER_BYTES then len' else declaredLength_loop cs len' rd')"

definition declaredLength :: "bytes list \<Rightarrow> nat" where
  "declaredLength cs = declaredLength_loop cs 0 0"

text \<open>
  \<open>take(n)\<close>: when the first chunk holds the whole frame it is split in place; otherwise
  chunks are copied until \<open>n\<close> bytes are gathered. \<open>None\<close> is the read of \<open>chunks[0]\<close> on
  an empty list, which the decoder's invariant excludes (\<open>take_bytes_flat\<close>).
\<close>

fun take_loop :: "nat \<Rightarrow> bytes list \<Rightarrow> bytes \<Rightarrow> (bytes \<times> bytes list) option" where
  "take_loop need [] out = (if need = 0 then Some (out, []) else None)"
| "take_loop need (c # cs) out =
     (if need = 0 then Some (out, c # cs)
      else if length c \<le> need then take_loop (need - length c) cs (out @ c)
      else Some (out @ take need c, drop need c # cs))"

definition take_bytes :: "nat \<Rightarrow> bytes list \<Rightarrow> (bytes \<times> bytes list) option" where
  "take_bytes n cs =
     (case cs of
        [] \<Rightarrow> None
      | first # rest \<Rightarrow>
          (if length first \<ge> n
           then Some (take n first,
                      (if length (drop n first) > 0 then drop n first # rest else rest))
           else take_loop n cs []))"

text \<open>
  One turn of the loop of \<open>push\<close>; \<open>Crash\<close> is the unreachable \<open>TypeError\<close> above. A result
  \<open>None\<close> of \<open>drain\<close> is that crash or missing fuel; \<open>push_total\<close> excludes both.
\<close>

datatype 'v turn =
    Break frame_decoder
  | Throw frame_error frame_decoder
  | Emit 'v frame_decoder
  | Crash

definition fail :: "frame_decoder \<Rightarrow> frame_error \<Rightarrow> 'v turn" where
  "fail d e = Throw e (d\<lparr>failure := Some e\<rparr>)"

definition deliver :: "(bytes \<Rightarrow> string + 'v) \<Rightarrow> frame_decoder \<Rightarrow> nat \<Rightarrow> 'v turn" where
  "deliver parse d n =
     (if buffered d < n then Break d
      else case take_bytes n (chunks d) of
        None \<Rightarrow> Crash
      | Some (frame, cs) \<Rightarrow>
          (let d' = d\<lparr>chunks := cs, buffered := buffered d - n, frameBytes := None\<rparr>
           in case parse (drop FRAME_HEADER_BYTES frame) of
                Inr v \<Rightarrow> Emit v d'
              | Inl msg \<Rightarrow> fail d' (Malformed msg)))"

definition push_turn :: "(bytes \<Rightarrow> string + 'v) \<Rightarrow> frame_decoder \<Rightarrow> 'v turn" where
  "push_turn parse d =
     (case frameBytes d of
        None \<Rightarrow>
          (if buffered d < FRAME_HEADER_BYTES then Break d
           else let len = declaredLength (chunks d)
                in if len > maxFrameBytes d then fail d (TooLarge len)
                   else deliver parse (d\<lparr>frameBytes := Some (FRAME_HEADER_BYTES + len)\<rparr>)
                          (FRAME_HEADER_BYTES + len))
      | Some n \<Rightarrow> deliver parse d n)"

fun drain :: "(bytes \<Rightarrow> string + 'v) \<Rightarrow> nat \<Rightarrow> frame_decoder
    \<Rightarrow> ((frame_error + 'v list) \<times> frame_decoder) option" where
  "drain parse 0 d = None"
| "drain parse (Suc fuel) d =
     (case push_turn parse d of
        Crash \<Rightarrow> None
      | Break d' \<Rightarrow> Some (Inr [], d')
      | Throw e d' \<Rightarrow> Some (Inl e, d')
      | Emit v d' \<Rightarrow>
          (case drain parse fuel d' of
             None \<Rightarrow> None
           | Some (Inl e, d'') \<Rightarrow> Some (Inl e, d'')
           | Some (Inr vs, d'') \<Rightarrow> Some (Inr (v # vs), d'')))"

definition push :: "(bytes \<Rightarrow> string + 'v) \<Rightarrow> frame_decoder \<Rightarrow> bytes
    \<Rightarrow> ((frame_error + 'v list) \<times> frame_decoder) option" where
  "push parse d chunk =
     (case failure d of
        Some e \<Rightarrow> Some (Inl e, d)
      | None \<Rightarrow>
          (if chunk = [] then Some (Inr [], d)
           else let d' = d\<lparr>chunks := chunks d @ [chunk], buffered := buffered d + length chunk\<rparr>
                in drain parse (Suc (buffered d')) d'))"

text \<open>A caller that drops the stream at the first error: \<open>None\<close> once \<open>push\<close> throws.\<close>

definition push_ok :: "(bytes \<Rightarrow> string + 'v) \<Rightarrow> frame_decoder \<Rightarrow> bytes
    \<Rightarrow> ('v list \<times> frame_decoder) option" where
  "push_ok parse d chunk =
     (case push parse d chunk of Some (Inr vs, d') \<Rightarrow> Some (vs, d') | _ \<Rightarrow> None)"

section \<open>The specification: decoding an unchunked byte string\<close>

text \<open>
  \<open>decode_flat\<close> reads complete frames off the front of a byte string, and returns the
  payloads with the incomplete rest.
\<close>

definition be32 :: "bytes \<Rightarrow> nat" where
  "be32 bs = foldl (\<lambda>a b. a * 256 + unat b) 0 (take 4 bs)"

function decode_flat :: "(bytes \<Rightarrow> string + 'v) \<Rightarrow> nat \<Rightarrow> bytes \<Rightarrow> (frame_error + 'v list \<times> bytes)" where
  "decode_flat parse mx bs =
     (if length bs < 4 then Inr ([], bs)
      else if be32 bs > mx then Inl (TooLarge (be32 bs))
      else if length bs < 4 + be32 bs then Inr ([], bs)
      else case parse (take (be32 bs) (drop 4 bs)) of
             Inl msg \<Rightarrow> Inl (Malformed msg)
           | Inr v \<Rightarrow>
               (case decode_flat parse mx (drop (4 + be32 bs) bs) of
                  Inl e \<Rightarrow> Inl e
                | Inr (vs, r) \<Rightarrow> Inr (v # vs, r)))"
  by pat_completeness auto
termination
  by (relation "measure (\<lambda>(p, mx, bs). length bs)") auto

declare decode_flat.simps [simp del]

text \<open>
  The whole stream, faults included: the payloads of the frames before the first faulty one,
  and the fault (\<open>None\<close> when the bytes hold none).
\<close>

function stream :: "(bytes \<Rightarrow> string + 'v) \<Rightarrow> nat \<Rightarrow> bytes \<Rightarrow> 'v list \<times> frame_error option" where
  "stream parse mx bs =
     (if length bs < 4 then ([], None)
      else if be32 bs > mx then ([], Some (TooLarge (be32 bs)))
      else if length bs < 4 + be32 bs then ([], None)
      else case parse (take (be32 bs) (drop 4 bs)) of
             Inl msg \<Rightarrow> ([], Some (Malformed msg))
           | Inr v \<Rightarrow>
               (let (vs, e) = stream parse mx (drop (4 + be32 bs) bs) in (v # vs, e)))"
  by pat_completeness auto
termination
  by (relation "measure (\<lambda>(p, mx, bs). length bs)") auto

declare stream.simps [simp del]

text \<open>
  The results of a row of \<open>push\<close> calls on one decoder, each an error or a list of payloads;
  the caller goes on after an error, as a caller that catches it may.
\<close>

fun push_results :: "(bytes \<Rightarrow> string + 'v) \<Rightarrow> frame_decoder \<Rightarrow> bytes list
    \<Rightarrow> (frame_error + 'v list) option list" where
  "push_results parse d [] = []"
| "push_results parse d (c # cs) =
     (case push parse d c of
        None \<Rightarrow> [None]
      | Some (r, d') \<Rightarrow> Some r # push_results parse d' cs)"

text \<open>What a call reports when \<open>seen\<close> came before and \<open>c\<close> is its chunk.\<close>

definition report :: "(bytes \<Rightarrow> string + 'v) \<Rightarrow> nat \<Rightarrow> bytes \<Rightarrow> bytes \<Rightarrow> frame_error + 'v list" where
  "report parse mx seen c =
     (case snd (stream parse mx (seen @ c)) of
        Some e \<Rightarrow> Inl e
      | None \<Rightarrow> Inr (drop (length (fst (stream parse mx seen))) (fst (stream parse mx (seen @ c)))))"

fun reported :: "(bytes \<Rightarrow> string + 'v) \<Rightarrow> nat \<Rightarrow> bytes \<Rightarrow> bytes list
    \<Rightarrow> (frame_error + 'v list) option list" where
  "reported parse mx seen [] = []"
| "reported parse mx seen (c # cs) =
     Some (report parse mx seen c) # reported parse mx (seen @ c) cs"

section \<open>Lemmas\<close>

lemma declaredLength_chunk_eq:
  "rd \<le> 4 \<Longrightarrow> declaredLength_chunk c len rd =
     (foldl (\<lambda>a b. a * 256 + unat b) len (take (4 - rd) c), rd + min (4 - rd) (length c))"
proof (induction c arbitrary: len rd)
  case Nil
  then show ?case by simp
next
  case (Cons b c)
  show ?case
  proof (cases "rd < 4")
    case True
    then have "Suc rd \<le> 4" by simp
    from True obtain k where k: "4 = Suc rd + k" using less_iff_Suc_add by auto
    show ?thesis
      using Cons.IH [OF \<open>Suc rd \<le> 4\<close>, of "len * 256 + unat b"]
      unfolding k by (simp add: FRAME_HEADER_BYTES_def True)
  next
    case False
    with Cons.prems show ?thesis by (simp add: FRAME_HEADER_BYTES_def)
  qed
qed

lemma declaredLength_loop_eq:
  "rd < 4 \<Longrightarrow> declaredLength_loop cs len rd =
     foldl (\<lambda>a b. a * 256 + unat b) len (take (4 - rd) (concat cs))"
proof (induction cs arbitrary: len rd)
  case Nil
  then show ?case by simp
next
  case (Cons c cs)
  show ?case
  proof (cases "rd + length c < 4")
    case True
    then have "min (4 - rd) (length c) = length c" by simp
    with True Cons show ?thesis
      by (simp add: declaredLength_chunk_eq FRAME_HEADER_BYTES_def)
  next
    case False
    with Cons.prems show ?thesis
      by (simp add: declaredLength_chunk_eq FRAME_HEADER_BYTES_def)
  qed
qed

lemma declaredLength_be32: "declaredLength cs = be32 (concat cs)"
  by (simp add: declaredLength_def be32_def declaredLength_loop_eq)

lemma be32_take: "4 \<le> length a \<Longrightarrow> be32 (a @ b) = be32 a"
  by (simp add: be32_def)

lemma take_loop_flat:
  "need \<le> length (concat cs) \<Longrightarrow> \<forall>c\<in>set cs. c \<noteq> [] \<Longrightarrow>
     \<exists>cs'. take_loop need cs out = Some (out @ take need (concat cs), cs')
       \<and> concat cs' = drop need (concat cs) \<and> (\<forall>c\<in>set cs'. c \<noteq> [])"
proof (induction cs arbitrary: need out)
  case Nil
  then show ?case by simp
next
  case (Cons c cs)
  consider "need = 0" | "0 < need" "length c \<le> need" | "0 < need" "need < length c" by linarith
  then show ?case
  proof cases
    case 1
    with Cons.prems show ?thesis by simp
  next
    case 2
    from Cons.prems have "need - length c \<le> length (concat cs)" "\<forall>c\<in>set cs. c \<noteq> []" by auto
    from Cons.IH [OF this, of "out @ c"] 2 show ?thesis by simp
  next
    case 3
    with Cons.prems show ?thesis by simp
  qed
qed

lemma take_bytes_flat:
  assumes "n \<le> length (concat cs)" and "0 < n" and "\<forall>c\<in>set cs. c \<noteq> []"
  shows "\<exists>cs'. take_bytes n cs = Some (take n (concat cs), cs')
       \<and> concat cs' = drop n (concat cs) \<and> (\<forall>c\<in>set cs'. c \<noteq> [])"
proof (cases cs)
  case Nil
  with assms show ?thesis by simp
next
  case (Cons c rest)
  show ?thesis
  proof (cases "length c \<ge> n")
    case True
    with Cons assms show ?thesis by (auto simp: take_bytes_def)
  next
    case False
    with Cons take_loop_flat [OF assms(1,3), of "[]"] show ?thesis by (simp add: take_bytes_def)
  qed
qed

text \<open>
  The invariant between the turns of the loop, and the stronger one between pushes: no
  complete frame is left in the buffer.
\<close>

definition mid_inv :: "nat \<Rightarrow> frame_decoder \<Rightarrow> bool" where
  "mid_inv mx d \<longleftrightarrow>
     maxFrameBytes d = mx \<and> failure d = None \<and>
     buffered d = length (concat (chunks d)) \<and> (\<forall>c\<in>set (chunks d). c \<noteq> []) \<and>
     (\<forall>n. frameBytes d = Some n \<longrightarrow>
        4 \<le> buffered d \<and> n = 4 + be32 (concat (chunks d)) \<and> n \<le> 4 + mx)"

definition rest_inv :: "nat \<Rightarrow> frame_decoder \<Rightarrow> bool" where
  "rest_inv mx d \<longleftrightarrow> mid_inv mx d \<and>
     (case frameBytes d of None \<Rightarrow> buffered d < 4 | Some n \<Rightarrow> buffered d < n)"

lemma rest_inv_new: "rest_inv mx (new_FrameDecoder mx)"
  by (simp add: rest_inv_def mid_inv_def new_FrameDecoder_def)

lemma rest_inv_decode_flat: "rest_inv mx d \<Longrightarrow>
    decode_flat parse mx (concat (chunks d)) = Inr ([], concat (chunks d))"
  by (subst decode_flat.simps) (auto simp: rest_inv_def mid_inv_def split: option.splits)

lemma turn_flat:
  assumes "mid_inv mx d"
  shows "case push_turn parse d of
      Crash \<Rightarrow> False
    | Break d' \<Rightarrow> rest_inv mx d' \<and> chunks d' = chunks d
    | Throw e d' \<Rightarrow> decode_flat parse mx (concat (chunks d)) = Inl e \<and> failure d' = Some e
    | Emit v d' \<Rightarrow> mid_inv mx d' \<and> buffered d' < buffered d \<and>
        decode_flat parse mx (concat (chunks d)) =
          (case decode_flat parse mx (concat (chunks d')) of
             Inl e \<Rightarrow> Inl e | Inr (vs, r) \<Rightarrow> Inr (v # vs, r))"
proof -
  let ?bs = "concat (chunks d)"
  have len: "length ?bs = buffered d" and ne: "\<forall>c\<in>set (chunks d). c \<noteq> []"
    using assms by (auto simp: mid_inv_def)
  have body: "case deliver parse e (4 + be32 ?bs) of
      Crash \<Rightarrow> False
    | Break d' \<Rightarrow> rest_inv mx d' \<and> chunks d' = chunks d
    | Throw e' d' \<Rightarrow> decode_flat parse mx ?bs = Inl e' \<and> failure d' = Some e'
    | Emit v d' \<Rightarrow> mid_inv mx d' \<and> buffered d' < buffered d \<and>
        decode_flat parse mx ?bs =
          (case decode_flat parse mx (concat (chunks d')) of
             Inl e \<Rightarrow> Inl e | Inr (vs, r) \<Rightarrow> Inr (v # vs, r))"
    if e: "mid_inv mx e" "chunks e = chunks d" "buffered e = buffered d"
      "frameBytes e = Some (4 + be32 ?bs)" for e
  proof (cases "buffered d < 4 + be32 ?bs")
    case True
    with e show ?thesis by (simp add: deliver_def rest_inv_def)
  next
    case False
    with len ne take_bytes_flat [of "4 + be32 ?bs" "chunks d"] obtain cs' where
      cs: "take_bytes (4 + be32 ?bs) (chunks d) = Some (take (4 + be32 ?bs) ?bs, cs')"
      "concat cs' = drop (4 + be32 ?bs) ?bs" "\<forall>c\<in>set cs'. c \<noteq> []" by auto
    have le: "be32 ?bs \<le> mx" "4 \<le> length ?bs" using e len by (auto simp: mid_inv_def)
    have fr: "drop 4 (take (4 + be32 ?bs) ?bs) = take (be32 ?bs) (drop 4 ?bs)"
      by (simp add: drop_take)
    show ?thesis
    proof (cases "parse (take (be32 ?bs) (drop 4 ?bs))")
      case (Inl msg)
      with False cs le fr len e show ?thesis
        by (subst decode_flat.simps) (simp add: deliver_def fail_def FRAME_HEADER_BYTES_def)
    next
      case (Inr v)
      with False cs le fr len e show ?thesis
        by (subst (1) decode_flat.simps)
          (simp add: deliver_def FRAME_HEADER_BYTES_def mid_inv_def)
    qed
  qed
  show ?thesis
  proof (cases "frameBytes d")
    case (Some n)
    with assms have "n = 4 + be32 ?bs" by (simp add: mid_inv_def)
    with Some assms body [of d] show ?thesis by (simp add: push_turn_def)
  next
    case None
    show ?thesis
    proof (cases "buffered d < 4 \<or> be32 ?bs > mx")
      case True
      show ?thesis
      proof (cases "buffered d < 4")
        case True
        with None assms show ?thesis
          by (simp add: push_turn_def FRAME_HEADER_BYTES_def rest_inv_def)
      next
        case False
        with True None assms len show ?thesis
          by (subst decode_flat.simps)
            (simp add: push_turn_def FRAME_HEADER_BYTES_def declaredLength_be32 fail_def mid_inv_def Let_def)
      qed
    next
      case False
      let ?e = "d\<lparr>frameBytes := Some (4 + be32 ?bs)\<rparr>"
      from False None assms have "push_turn parse d = deliver parse ?e (4 + be32 ?bs)"
        by (simp add: push_turn_def FRAME_HEADER_BYTES_def declaredLength_be32 mid_inv_def Let_def)
      moreover from False assms have "mid_inv mx ?e" by (simp add: mid_inv_def)
      ultimately show ?thesis using body [of ?e] by simp
    qed
  qed
qed

lemma drain_flat:
  assumes "mid_inv mx d" and "buffered d < fuel"
  shows "\<exists>d'. (case decode_flat parse mx (concat (chunks d)) of
      Inl e \<Rightarrow> drain parse fuel d = Some (Inl e, d') \<and> failure d' = Some e
    | Inr (vs, r) \<Rightarrow> drain parse fuel d = Some (Inr vs, d') \<and> rest_inv mx d'
        \<and> concat (chunks d') = r)"
  using assms
proof (induction fuel arbitrary: d)
  case 0
  then show ?case by simp
next
  case (Suc fuel)
  note t = turn_flat [OF Suc.prems(1), of parse]
  show ?case
  proof (cases "push_turn parse d")
    case (Break d')
    with t have "rest_inv mx d'" "chunks d' = chunks d" by auto
    with Break rest_inv_decode_flat [of mx d' parse] show ?thesis by simp
  next
    case (Throw e d')
    with t show ?thesis by auto
  next
    case (Emit v d')
    with t have i: "mid_inv mx d'" "buffered d' < buffered d" by auto
    with Suc.prems have "buffered d' < fuel" by simp
    from Suc.IH [OF i(1) this] Emit t show ?thesis
      by (auto split: sum.splits prod.splits)
  next
    case Crash
    with t show ?thesis by simp
  qed
qed

lemma push_flat_spec:
  assumes "rest_inv mx d"
  shows "case decode_flat parse mx (concat (chunks d) @ c) of
      Inl e \<Rightarrow> (\<exists>d'. push parse d c = Some (Inl e, d') \<and> failure d' = Some e)
    | Inr (vs, r) \<Rightarrow> (\<exists>d'. push parse d c = Some (Inr vs, d') \<and> rest_inv mx d' \<and> concat (chunks d') = r)"
proof (cases "c = []")
  case True
  from assms have "failure d = None" by (simp add: rest_inv_def mid_inv_def)
  with True assms show ?thesis by (simp add: push_def rest_inv_decode_flat)
next
  case False
  let ?d = "d\<lparr>chunks := chunks d @ [c], buffered := buffered d + length c\<rparr>"
  have "mid_inv mx ?d"
    using assms False by (auto simp: rest_inv_def mid_inv_def be32_take)
  moreover from assms False have "push parse d c = drain parse (Suc (buffered ?d)) ?d"
    by (simp add: push_def rest_inv_def mid_inv_def Let_def del: drain.simps)
  ultimately show ?thesis
    using drain_flat [of mx ?d "Suc (buffered ?d)" parse]
    by (auto simp del: drain.simps split: sum.splits prod.splits)
qed

lemma decode_flat_append:
  "decode_flat parse mx (a @ b) =
     (case decode_flat parse mx a of
        Inl e \<Rightarrow> Inl e
      | Inr (vs, r) \<Rightarrow>
          (case decode_flat parse mx (r @ b) of
             Inl e \<Rightarrow> Inl e
           | Inr (ws, r') \<Rightarrow> Inr (vs @ ws, r')))"
proof (induction parse mx a rule: decode_flat.induct)
  case (1 parse mx a)
  show ?case
  proof (cases "length a < 4 \<or> be32 a > mx \<or> length a < 4 + be32 a")
    case True
    show ?thesis
    proof (cases "4 \<le> length a \<and> be32 a > mx")
      case True
      then show ?thesis by (simp add: decode_flat.simps [of _ _ a] decode_flat.simps [of _ _ "a @ b"] be32_take)
    next
      case False
      with True have "decode_flat parse mx a = Inr ([], a)"
        by (subst decode_flat.simps) auto
      then show ?thesis by (simp split: sum.splits prod.splits)
    qed
  next
    case False
    let ?n = "be32 a"
    from False have n32: "be32 (a @ b) = ?n" by (simp add: be32_take)
    from False have t: "take ?n (drop 4 (a @ b)) = take ?n (drop 4 a)"
      and d: "drop (4 + ?n) (a @ b) = drop (4 + ?n) a @ b" by auto
    from False have ab: "decode_flat parse mx (a @ b) =
        (case parse (take ?n (drop 4 a)) of
             Inl msg \<Rightarrow> Inl (Malformed msg)
           | Inr v \<Rightarrow>
               (case decode_flat parse mx (drop (4 + ?n) a @ b) of
                  Inl e \<Rightarrow> Inl e
                | Inr (vs, r) \<Rightarrow> Inr (v # vs, r)))"
      unfolding decode_flat.simps [of parse mx "a @ b"] n32 t d by simp
    show ?thesis
    proof (cases "parse (take ?n (drop 4 a))")
      case (Inl msg)
      with False ab show ?thesis by (simp add: decode_flat.simps [of parse mx a])
    next
      case (Inr v)
      with False 1 have IH: "decode_flat parse mx (drop (4 + ?n) a @ b) =
          (case decode_flat parse mx (drop (4 + ?n) a) of
            Inl e \<Rightarrow> Inl e
          | Inr (vs, r) \<Rightarrow>
              (case decode_flat parse mx (r @ b) of
                 Inl e \<Rightarrow> Inl e
               | Inr (ws, r') \<Rightarrow> Inr (vs @ ws, r')))" by simp
      from False Inr ab show ?thesis
        unfolding decode_flat.simps [of parse mx a]
        by (simp add: IH split: sum.splits prod.splits)
    qed
  qed
qed

text \<open>
  The decoder refines \<open>decode_flat\<close> on the runs that never throw; \<open>pushes_report_the_stream\<close>
  below says what every call returns, throwing ones included.
\<close>

definition flat_consume :: "(bytes \<Rightarrow> string + 'v) \<Rightarrow> nat \<Rightarrow> bytes \<Rightarrow> bytes \<Rightarrow> ('v list \<times> bytes) option" where
  "flat_consume parse mx r c =
     (case decode_flat parse mx (r @ c) of Inl e \<Rightarrow> None | Inr x \<Rightarrow> Some x)"

interpretation frames: chunk_consumer "push_ok parse" "rest_inv mx" "\<lambda>d. concat (chunks d)"
  "flat_consume parse mx" for parse mx
proof
  show "rest_inv mx s \<Longrightarrow> push_ok parse s c = Some (os, s') \<Longrightarrow> rest_inv mx s'" for s c os s'
    using push_flat_spec [of mx s parse c] by (auto simp: push_ok_def split: sum.splits)
  show "rest_inv mx s \<Longrightarrow> map_option (map_prod id (\<lambda>d. concat (chunks d))) (push_ok parse s c)
      = flat_consume parse mx (concat (chunks s)) c" for s c
    using push_flat_spec [of mx s parse c]
    by (auto simp: push_ok_def flat_consume_def split: sum.splits)
  show "rest_inv mx s \<Longrightarrow> flat_consume parse mx (concat (chunks s)) [] = Some ([], concat (chunks s))" for s
    by (simp add: flat_consume_def rest_inv_decode_flat)
  show "rest_inv mx s \<Longrightarrow> flat_consume parse mx (concat (chunks s)) (a @ b) =
        (case flat_consume parse mx (concat (chunks s)) a of None \<Rightarrow> None
         | Some (o1, x1) \<Rightarrow>
             (case flat_consume parse mx x1 b of None \<Rightarrow> None | Some (o2, x2) \<Rightarrow> Some (o1 @ o2, x2)))" for s a b
    using decode_flat_append [of parse mx "concat (chunks s) @ a" b]
    by (simp add: flat_consume_def split: sum.splits prod.splits)
qed

text \<open>Any sequence of pushes, failed ones included.\<close>

definition push_state :: "(bytes \<Rightarrow> string + 'v) \<Rightarrow> frame_decoder \<Rightarrow> bytes \<Rightarrow> frame_decoder" where
  "push_state parse d c = (case push parse d c of Some (_, d') \<Rightarrow> d' | None \<Rightarrow> d)"

definition decoder_inv :: "nat \<Rightarrow> frame_decoder \<Rightarrow> bool" where
  "decoder_inv mx d \<longleftrightarrow> failure d \<noteq> None \<or> rest_inv mx d"

lemma push_poisoned: "failure d = Some e \<Longrightarrow> push parse d c = Some (Inl e, d)"
  by (simp add: push_def)

interpretation decoder: stepping "push_state parse" "decoder_inv mx" for parse mx
proof
  fix d c
  assume inv: "decoder_inv mx d"
  show "decoder_inv mx (push_state parse d c)"
  proof (cases "failure d")
    case (Some e)
    then show ?thesis by (simp add: push_state_def push_poisoned decoder_inv_def)
  next
    case None
    with inv push_flat_spec [of mx d parse c] show ?thesis
      by (auto simp: push_state_def decoder_inv_def split: sum.splits)
  qed
qed

lemma push_total: "decoder_inv mx d \<Longrightarrow> \<exists>r d'. push parse d c = Some (r, d')"
  using push_flat_spec [of mx d parse c] push_poisoned [of d _ parse c]
  by (cases "failure d") (auto simp: decoder_inv_def split: sum.splits)

lemma rest_inv_pending: "rest_inv mx d \<Longrightarrow> pendingBytes d < 4 + mx"
  by (auto simp: rest_inv_def mid_inv_def pendingBytes_def split: option.splits)

lemma length_setUint32 [simp]: "length (setUint32 n) = 4"
  by (simp add: setUint32_def)

lemma be32_setUint32:
  assumes "n < 2 ^ 32"
  shows "be32 (setUint32 n @ r) = n"
proof -
  define q1 where "q1 = n div 256"
  define q2 where "q2 = q1 div 256"
  define q3 where "q3 = q2 div 256"
  have q: "n div 65536 = q2" "n div 16777216 = q3"
    by (simp_all add: q1_def q2_def q3_def flip: div_mult2_eq)
  from assms have "q3 < 256" by (simp add: q3_def q2_def q1_def flip: div_mult2_eq)
  then have "q3 mod 256 * 256 + q2 mod 256 = q2" by (simp add: q3_def)
  moreover have "q2 * 256 + q1 mod 256 = q1" by (simp add: q2_def)
  moreover have "q1 * 256 + n mod 256 = n" by (simp add: q1_def)
  ultimately show ?thesis
    by (simp add: be32_def setUint32_def unat_of_nat q flip: q1_def)
qed

lemma decode_flat_frame:
  assumes "encodeFrame ser v mx = Inr f" and "mx < 2 ^ 32"
    and "\<And>b. ser v = Some b \<Longrightarrow> parse b = Inr v"
  shows "decode_flat parse mx (f @ r) =
     (case decode_flat parse mx r of Inl e \<Rightarrow> Inl e | Inr (vs, r') \<Rightarrow> Inr (v # vs, r'))"
proof -
  from assms(1) obtain body where body: "ser v = Some body" "length body \<le> mx"
    "f = setUint32 (length body) @ body"
    by (auto simp: encodeFrame_def split: option.splits if_splits)
  with assms(2) have "be32 (f @ r) = length body" by (simp add: be32_setUint32)
  with body assms(3) show ?thesis
    by (subst decode_flat.simps) simp
qed

lemma decode_flat_frames:
  assumes "list_all2 (\<lambda>v f. encodeFrame ser v mx = Inr f) vs fs" and "mx < 2 ^ 32"
    and "\<And>v b. v \<in> set vs \<Longrightarrow> ser v = Some b \<Longrightarrow> parse b = Inr v"
  shows "decode_flat parse mx (concat fs) = Inr (vs, [])"
  using assms
proof (induction rule: list_all2_induct)
  case Nil
  then show ?case by (subst decode_flat.simps) simp
next
  case (Cons v vs f fs)
  then show ?case by (simp add: decode_flat_frame [of ser v mx f parse])
qed

text \<open>\<open>stream\<close> against \<open>decode_flat\<close>.\<close>

lemma stream_decode_flat:
  "case decode_flat parse mx bs of
     Inl e \<Rightarrow> snd (stream parse mx bs) = Some e
   | Inr (vs, r) \<Rightarrow> stream parse mx bs = (vs, None)"
proof (induction parse mx bs rule: decode_flat.induct)
  case (1 parse mx bs)
  then show ?case
    by (subst decode_flat.simps, subst (1 2) stream.simps)
      (auto split: sum.splits prod.splits if_splits)
qed

lemma stream_append:
  "decode_flat parse mx a = Inr (vs, r) \<Longrightarrow>
     stream parse mx (a @ b) = map_prod ((@) vs) id (stream parse mx (r @ b))"
proof (induction parse mx a arbitrary: vs r rule: decode_flat.induct)
  case (1 parse mx a)
  show ?case
  proof (cases "length a < 4 \<or> length a < 4 + be32 a")
    case True
    with "1.prems" have "vs = []" "r = a"
      by (auto simp: decode_flat.simps [of parse mx a] split: if_splits)
    then show ?thesis by (simp add: prod.map_ident)
  next
    case False
    with "1.prems" have le: "be32 a \<le> mx"
      by (auto simp: decode_flat.simps [of parse mx a] split: if_splits)
    from False "1.prems" le obtain v ws where v: "parse (take (be32 a) (drop 4 a)) = Inr v"
      "decode_flat parse mx (drop (4 + be32 a) a) = Inr (ws, r)" "vs = v # ws"
      by (auto simp: decode_flat.simps [of parse mx a] split: sum.splits)
    from "1.IH" [OF _ _ _ v(1,2)] False le
    have IH: "stream parse mx (drop (4 + be32 a) a @ b)
        = map_prod ((@) ws) id (stream parse mx (r @ b))" by (simp add: id_def)
    from False have n: "be32 (a @ b) = be32 a"
      and t: "take (be32 a) (drop 4 (a @ b)) = take (be32 a) (drop 4 a)"
      and d: "drop (4 + be32 a) (a @ b) = drop (4 + be32 a) a @ b"
      by (auto simp: be32_take)
    show ?thesis
      by (subst stream.simps, unfold n t d IH)
        (use False le v in \<open>simp add: case_prod_beta map_prod_def id_def\<close>)
  qed
qed

lemma stream_fault_append:
  "snd (stream parse mx a) = Some e \<Longrightarrow> snd (stream parse mx (a @ b)) = Some e"
  using stream_decode_flat [of parse mx a] stream_decode_flat [of parse mx "a @ b"]
    decode_flat_append [of parse mx a b]
  by (auto split: sum.splits prod.splits)

text \<open>One push, against the stream read before it.\<close>

definition reads :: "(bytes \<Rightarrow> string + 'v) \<Rightarrow> nat \<Rightarrow> bytes \<Rightarrow> frame_decoder \<Rightarrow> bool" where
  "reads parse mx seen d \<longleftrightarrow>
     (case failure d of
        Some e \<Rightarrow> snd (stream parse mx seen) = Some e
      | None \<Rightarrow> rest_inv mx d \<and> (\<exists>vs. decode_flat parse mx seen = Inr (vs, concat (chunks d))))"

lemma push_reports:
  assumes "reads parse mx seen d"
  shows "\<exists>d'. push parse d c = Some (report parse mx seen c, d') \<and> reads parse mx (seen @ c) d'"
proof (cases "failure d")
  case (Some e)
  with assms have "snd (stream parse mx seen) = Some e" by (simp add: reads_def)
  then have "snd (stream parse mx (seen @ c)) = Some e" by (rule stream_fault_append)
  with Some show ?thesis by (simp add: push_def report_def reads_def)
next
  case None
  with assms obtain vs where inv: "rest_inv mx d"
    and vs: "decode_flat parse mx seen = Inr (vs, concat (chunks d))" by (auto simp: reads_def)
  have seen: "stream parse mx seen = (vs, None)"
    using stream_decode_flat [of parse mx seen] vs by simp
  note all = stream_append [OF vs, of c] decode_flat_append [of parse mx seen c, unfolded vs]
  show ?thesis
  proof (cases "decode_flat parse mx (concat (chunks d) @ c)")
    case (Inl e)
    with push_flat_spec [OF inv, of parse c] obtain d' where
      d': "push parse d c = Some (Inl e, d')" "failure d' = Some e" by auto
    from Inl stream_decode_flat [of parse mx "concat (chunks d) @ c"] all
    have "snd (stream parse mx (seen @ c)) = Some e" by simp
    with d' show ?thesis by (simp add: report_def reads_def)
  next
    case (Inr p)
    obtain ws r where p: "p = (ws, r)" by (cases p)
    from Inr p push_flat_spec [OF inv, of parse c] obtain d' where
      d': "push parse d c = Some (Inr ws, d')" "rest_inv mx d'" "concat (chunks d') = r" by auto
    from Inr p stream_decode_flat [of parse mx "concat (chunks d) @ c"] all
    have "stream parse mx (seen @ c) = (vs @ ws, None)"
      "decode_flat parse mx (seen @ c) = Inr (vs @ ws, r)" by simp_all
    moreover from d'(2) have "failure d' = None" by (simp add: rest_inv_def mid_inv_def)
    ultimately show ?thesis using d' seen by (simp add: report_def reads_def)
  qed
qed

lemma push_results_reported:
  "reads parse mx seen d \<Longrightarrow> push_results parse d cs = reported parse mx seen cs"
proof (induction cs arbitrary: seen d)
  case Nil
  then show ?case by simp
next
  case (Cons c cs)
  from push_reports [OF Cons.prems, of c] obtain d' where
    "push parse d c = Some (report parse mx seen c, d')" "reads parse mx (seen @ c) d'" by auto
  with Cons.IH [of "seen @ c" d'] show ?case by simp
qed

lemma push_results_new:
  "push_results parse (new_FrameDecoder mx) cs = reported parse mx [] cs"
proof (rule push_results_reported)
  have "decode_flat parse mx [] = Inr ([], [])" by (subst decode_flat.simps) simp
  with rest_inv_new [of mx] show "reads parse mx [] (new_FrameDecoder mx)"
    by (simp add: reads_def new_FrameDecoder_def)
qed

lemma reported_map:
  "reported parse mx seen cs =
     map (\<lambda>i. Some (report parse mx (seen @ concat (take i cs)) (cs ! i))) [0..<length cs]"
proof (induction cs arbitrary: seen)
  case Nil
  then show ?case by simp
next
  case (Cons c cs)
  show ?case
    by (simp add: Cons.IH map_upt_Suc del: upt_Suc)
qed

section \<open>Properties\<close>

text \<open>
  C1. Exactly what each \<open>push\<close> returns. Feed the chunks \<open>cs\<close> to a new decoder and let
  \<open>stream\<close> read the concatenated bytes: the payloads of the frames before the first faulty
  one, and that fault. Call \<open>i\<close> throws the fault as soon as the bytes of the chunks up to and
  with its own hold it, and every later call throws it again; otherwise it returns the
  payloads which its chunk completed, those of the bytes so far less those of the bytes
  before. So chunk boundaries decide only which call reports a payload and, since a throwing
  call returns nothing, that the payloads completed by the faulty frame's own chunk are lost;
  the calls before it have returned theirs.
\<close>

theorem pushes_report_the_stream:
  "push_results parse (new_FrameDecoder mx) cs =
     map (\<lambda>i. Some (case snd (stream parse mx (concat (take (Suc i) cs))) of
                Some e \<Rightarrow> Inl e
              | None \<Rightarrow> Inr (drop (length (fst (stream parse mx (concat (take i cs)))))
                              (fst (stream parse mx (concat (take (Suc i) cs)))))))
       [0..<length cs]"
  unfolding push_results_new reported_map report_def
  by (rule map_cong [OF refl]) (simp add: take_Suc_conv_app_nth split: option.split)

text \<open>
  Round trip: the frames that \<open>encodeFrame\<close> makes of a list of payloads, concatenated and
  cut into chunks in any way, decode to exactly those payloads in order, with nothing left
  pending.
\<close>

theorem frame_roundtrip:
  assumes "list_all2 (\<lambda>v f. encodeFrame ser v mx = Inr f) vs fs"
    and "mx < 2 ^ 32"
    and "\<And>v b. v \<in> set vs \<Longrightarrow> ser v = Some b \<Longrightarrow> parse b = Inr v"
    and "concat cs = concat fs"
  shows "\<exists>d. run_chunks (push_ok parse) (new_FrameDecoder mx) cs = Some (vs, d) \<and> pendingBytes d = 0"
proof -
  have "decode_flat parse mx (concat fs) = Inr (vs, [])"
    using assms(1-3) by (rule decode_flat_frames)
  with frames.run_flat [OF rest_inv_new, of parse mx cs] assms(4)
  obtain d where d: "run_chunks (push_ok parse) (new_FrameDecoder mx) cs = Some (vs, d)"
    "concat (chunks d) = []"
    by (auto simp: flat_consume_def new_FrameDecoder_def)
  from frames.run_inv [OF rest_inv_new d(1)] d(2) have "pendingBytes d = 0"
    by (simp add: pendingBytes_def rest_inv_def mid_inv_def)
  with d show ?thesis by blast
qed

theorem frame_roundtrip_witness:
  "\<exists>d. run_chunks (push_ok (\<lambda>b. Inr b)) (new_FrameDecoder 65536) [[0, 0, 0], [2, 104, 105, 0], [0, 0, 0]]
       = Some ([[104, 105], []], d) \<and> pendingBytes d = 0"
  by (rule frame_roundtrip [where ser = Some and fs = "[[0, 0, 0, 2, 104, 105], [0, 0, 0, 0]]"])
    (simp_all add: encodeFrame_def setUint32_def)

text \<open>
  Hostile peers: after any sequence of pushes the next push is defined (the fuel suffices and
  no read is out of range), fewer than \<open>4 + maxFrameBytes\<close> bytes are ever held, a header
  announcing a larger body is rejected at once, and a decoder that threw rethrows the same
  error forever.
\<close>

theorem frame_decoder_safe:
  assumes "d = foldl (push_state parse) (new_FrameDecoder mx) cs"
  shows "(\<exists>r d'. push parse d c = Some (r, d'))
    \<and> (failure d = None \<longrightarrow> pendingBytes d < 4 + mx)
    \<and> (failure d = None \<longrightarrow> 4 \<le> length (concat (chunks d) @ c) \<longrightarrow>
         be32 (concat (chunks d) @ c) > mx \<longrightarrow>
         (\<exists>d'. push parse d c = Some (Inl (TooLarge (be32 (concat (chunks d) @ c))), d')))
    \<and> (\<forall>e. failure d = Some e \<longrightarrow> push parse d c = Some (Inl e, d))"
proof -
  have inv: "decoder_inv mx d"
    unfolding assms by (rule decoder.run_inv) (simp add: decoder_inv_def rest_inv_new)
  let ?bs = "concat (chunks d) @ c"
  have big: "\<exists>d'. push parse d c = Some (Inl (TooLarge (be32 ?bs)), d')"
    if "failure d = None" "4 \<le> length ?bs" "be32 ?bs > mx"
  proof -
    from that have "decode_flat parse mx ?bs = Inl (TooLarge (be32 ?bs))"
      by (subst decode_flat.simps) simp
    with that inv push_flat_spec [of mx d parse c] show ?thesis by (auto simp: decoder_inv_def)
  qed
  from inv rest_inv_pending [of mx d] show ?thesis
    by (auto simp: push_total [OF inv] push_poisoned decoder_inv_def intro: big)
qed

theorem frame_decoder_safe_witness:
  "\<exists>r d'. push (\<lambda>b. Inr b)
     (foldl (push_state (\<lambda>b. Inr b)) (new_FrameDecoder 8) [[0, 0], [0, 1, 7]]) [5] = Some (r :: frame_error + bytes list, d')"
  using frame_decoder_safe [OF refl, of "\<lambda>b. Inr b" 8 "[[0, 0], [0, 1, 7]]" "[5]"] by blast

end
