(* ===== verification/TmuxCodec.thy ===== *)
theory TmuxCodec
  imports Prelude
begin

text \<open>
  The byte codecs of the tmux control protocol, \<open>src/shared/tmux/codec.ts\<close>: the decoder of
  the octal-escaped \<open>%output\<close> payloads, the hex pairs of \<open>send-keys -H\<close>, and the splitting of
  pane input into chunks. Index loops over a string or array are recursions on the rest of it;
  the chunking loop, which does not return for a chunk size of zero, is a partial function.
\<close>

section \<open>Decoding \<open>%output\<close>\<close>

definition isOctalDigit :: "char \<Rightarrow> bool" where
  "isOctalDigit c \<longleftrightarrow> 48 \<le> (of_char c :: nat) \<and> (of_char c :: nat) \<le> 55"

definition BACKSLASH :: char where
  "BACKSLASH = CHR 0x5C"

text \<open>The digits of an octal escape: at most three.\<close>

definition octal_run :: "string \<Rightarrow> string" where
  "octal_run s = takeWhile isOctalDigit (take 3 s)"

definition octal_value :: "string \<Rightarrow> nat" where
  "octal_value ds = foldl (\<lambda>v c. v * 8 + digit_val c) 0 ds"

lemma length_octal_run: "length (octal_run s) \<le> length s"
  using length_takeWhile_le [of isOctalDigit "take 3 s"] by (simp add: octal_run_def)

function decodeOutput :: "string \<Rightarrow> bytes" where
  "decodeOutput [] = []"
| "decodeOutput (c # s) =
     (if c \<noteq> BACKSLASH then char_byte c # decodeOutput s
      else case s of
        [] \<Rightarrow> char_byte BACKSLASH # decodeOutput s
      | d # s' \<Rightarrow>
          (if d = BACKSLASH then char_byte BACKSLASH # decodeOutput s'
           else if isOctalDigit d
             then word_of_nat (octal_value (octal_run s)) # decodeOutput (drop (length (octal_run s)) s)
           else char_byte BACKSLASH # decodeOutput s))"
  by pat_completeness auto
termination
  by (relation "measure length") auto

section \<open>Hex pairs\<close>

definition hex_char :: "nat \<Rightarrow> char" where
  "hex_char d = (if d < 10 then char_of (48 + d) else char_of (87 + d))"

definition hex_pair :: "byte \<Rightarrow> string" where
  "hex_pair b = [hex_char (unat b div 16), hex_char (unat b mod 16)]"

definition toHex_bytes :: "bytes \<Rightarrow> string" where
  "toHex_bytes bs = joinWith '' '' (map hex_pair bs)"

definition is_hex_digit :: "char \<Rightarrow> bool" where
  "is_hex_digit c \<longleftrightarrow>
     (let n = (of_char c :: nat)
      in (48 \<le> n \<and> n \<le> 57) \<or> (65 \<le> n \<and> n \<le> 70) \<or> (97 \<le> n \<and> n \<le> 102))"

definition hex_val :: "char \<Rightarrow> nat" where
  "hex_val c =
     (let n = (of_char c :: nat) in if n \<le> 57 then n - 48 else if n \<le> 70 then n - 55 else n - 87)"

text \<open>
  \<open>Number.parseInt(part, 16) & 0xff\<close>: an optional sign and \<open>0x\<close>, then the longest prefix
  of hex digits, \<open>NaN & 0xff = 0\<close> when there is none. The parts that occur have two digits;
  above \<open>2^53\<close> the code's numbers would round.
\<close>

definition parseInt16_byte :: "string \<Rightarrow> byte" where
  "parseInt16_byte s =
     (let neg = startsWith s ''-'';
          s1 = (if startsWith s ''-'' \<or> startsWith s ''+'' then tl s else s);
          s2 = (if startsWith s1 ''0x'' \<or> startsWith s1 ''0X'' then drop 2 s1 else s1);
          v = foldl (\<lambda>a c. a * 16 + int (hex_val c)) 0 (takeWhile is_hex_digit s2)
      in word_of_int (if neg then - v else v))"

definition fromHex :: "string \<Rightarrow> bytes" where
  "fromHex hex =
     (let trimmed = trim hex
      in if trimmed = [] then [] else map parseInt16_byte (words_ws trimmed))"

section \<open>Chunks of pane input\<close>

definition MAX_SEND_KEYS_CHUNK_BYTES :: nat where
  "MAX_SEND_KEYS_CHUNK_BYTES = 256"

definition isUtf8Continuation :: "byte \<Rightarrow> bool" where
  "isUtf8Continuation b \<longleftrightarrow> unat b div 64 = 2"

text \<open>The inner loop: move the end of the chunk left off continuation bytes, but keep one byte.\<close>

fun back_up :: "bytes \<Rightarrow> nat \<Rightarrow> nat" where
  "back_up rest e =
     (if e < length rest \<and> e > 1 \<and> isUtf8Continuation (rest ! e) then back_up rest (e - 1) else e)"

declare back_up.simps [simp del]

partial_function (option) chunk_loop :: "nat \<Rightarrow> bytes \<Rightarrow> bytes list option" where
  "chunk_loop mx rest =
     (if rest = [] then Some []
      else let e = back_up rest (min mx (length rest))
           in Option.bind (chunk_loop mx (drop e rest)) (\<lambda>cs. Some (take e rest # cs)))"

definition chunkBytesForSendKeys :: "bytes \<Rightarrow> nat \<Rightarrow> bytes list option" where
  "chunkBytesForSendKeys bytes mx =
     (if bytes = [] then Some []
      else if length bytes \<le> mx then Some [bytes]
      else chunk_loop mx bytes)"

section \<open>Lemmas\<close>

text \<open>
  How tmux spells a byte in \<open>%output\<close>: as itself, as three octal digits, or, for the backslash,
  doubled. A backslash is never spelled as itself.
\<close>

datatype spelling = Raw | Octal | Doubled

definition spelling_ok :: "byte \<times> spelling \<Rightarrow> bool" where
  "spelling_ok u \<longleftrightarrow>
     (snd u = Raw \<longrightarrow> fst u \<noteq> char_byte BACKSLASH) \<and> (snd u = Doubled \<longrightarrow> fst u = char_byte BACKSLASH)"

definition byte_char :: "byte \<Rightarrow> char" where
  "byte_char b = char_of (unat b)"

fun spell :: "byte \<times> spelling \<Rightarrow> string" where
  "spell (b, Raw) = [byte_char b]"
| "spell (b, Octal) =
     [BACKSLASH, digit_char (unat b div 64), digit_char (unat b div 8 mod 8), digit_char (unat b mod 8)]"
| "spell (b, Doubled) = [BACKSLASH, BACKSLASH]"

lemma unat_byte: "unat (b :: byte) < 256"
  using unsigned_less [of b] by simp

lemma char_byte_char [simp]: "char_byte (byte_char b) = b"
  by (simp add: char_byte_def byte_char_def unat_byte)

lemma byte_char_byte [simp]: "byte_char (char_byte c) = c"
  by (simp add: char_byte_def byte_char_def unat_of_nat)

lemma isOctalDigit_digit [simp]: "d < 8 \<Longrightarrow> isOctalDigit (digit_char d)"
  by (simp add: isOctalDigit_def digit_char_def)

lemma digit_not_backslash [simp]: "d < 10 \<Longrightarrow> digit_char d \<noteq> BACKSLASH"
proof
  assume "d < 10" and "digit_char d = BACKSLASH"
  then have "(of_char (digit_char d) :: nat) = of_char BACKSLASH" by simp
  with \<open>d < 10\<close> show False by (simp add: digit_char_def BACKSLASH_def)
qed

lemma decode_octal:
  assumes "a < 4" "b < 8" "c < 8"
  shows "decodeOutput (BACKSLASH # digit_char a # digit_char b # digit_char c # s) =
     word_of_nat (a * 64 + b * 8 + c) # decodeOutput s"
  using assms by (simp add: octal_run_def octal_value_def algebra_simps)

lemma octal_digits: "n div 64 * 64 + n div 8 mod 8 * 8 + n mod 8 = (n :: nat)"
proof -
  have "n div 64 = n div 8 div 8" by (simp flip: div_mult2_eq)
  moreover have "n div 8 div 8 * 8 + n div 8 mod 8 = n div 8" by simp
  moreover have "n div 8 * 8 + n mod 8 = n" by simp
  ultimately show ?thesis by linarith
qed

lemma decode_spell:
  assumes "spelling_ok u"
  shows "decodeOutput (spell u @ s) = fst u # decodeOutput s"
proof (cases u)
  case (Pair b f)
  show ?thesis
  proof (cases f)
    case Raw
    with Pair assms have "b \<noteq> char_byte BACKSLASH" by (simp add: spelling_ok_def)
    then have "byte_char b \<noteq> BACKSLASH" by (metis char_byte_char)
    with Raw Pair show ?thesis by simp
  next
    case Doubled
    with Pair assms show ?thesis by (simp add: spelling_ok_def)
  next
    case Octal
    have "unat b div 64 < 4" using unat_byte [of b] by (simp add: less_mult_imp_div_less)
    moreover have "unat b div 64 * 64 + unat b div 8 mod 8 * 8 + unat b mod 8 = unat b"
      by (rule octal_digits)
    ultimately have "decodeOutput (spell (b, Octal) @ s) = word_of_nat (unat b) # decodeOutput s"
      using decode_octal [of "unat b div 64" "unat b div 8 mod 8" "unat b mod 8" s]
      by (simp del: decodeOutput.simps)
    with Octal Pair show ?thesis by simp
  qed
qed

lemma hex_char_digit [simp]: "d < 16 \<Longrightarrow> is_hex_digit (hex_char d)"
  by (auto simp: is_hex_digit_def hex_char_def)

lemma hex_val_char [simp]: "d < 16 \<Longrightarrow> hex_val (hex_char d) = d"
  by (auto simp: hex_val_def hex_char_def)

lemma hex_digit_cases: "is_hex_digit c \<Longrightarrow> \<not> is_ws c \<and> c \<noteq> CHR ''-'' \<and> c \<noteq> CHR ''+'' \<and> c \<noteq> CHR ''x'' \<and> c \<noteq> CHR ''X''"
  by (auto simp: is_hex_digit_def is_ws_def Let_def)

lemma hex_char_facts [simp]:
  assumes "d < 16"
  shows "\<not> is_ws (hex_char d)" "hex_char d \<noteq> CHR ''-''" "hex_char d \<noteq> CHR ''+''"
    "hex_char d \<noteq> CHR ''x''" "hex_char d \<noteq> CHR ''X''"
  using hex_digit_cases [OF hex_char_digit [OF assms]] by auto

lemma hex_nibbles: "unat (b :: byte) div 16 < 16"
  using unat_byte [of b] by (simp add: less_mult_imp_div_less)

lemma parse_hex_pair [simp]: "parseInt16_byte (hex_pair b) = b"
proof -
  have "int (unat b div 16) * 16 + int (unat b mod 16) = int (unat b)"
    by (metis div_mult_mod_eq of_nat_add of_nat_mult of_nat_numeral)
  moreover have "(word_of_int (int (unat b)) :: byte) = b" by simp
  ultimately show ?thesis
    using hex_nibbles [of b] by (simp add: parseInt16_byte_def hex_pair_def Let_def del: of_nat_unat)
qed

lemma hex_pair_no_ws: "\<forall>c\<in>set (hex_pair b). \<not> is_ws c"
  using hex_nibbles [of b] by (simp add: hex_pair_def)

lemma words_hex: "bs \<noteq> [] \<Longrightarrow> words_ws (toHex_bytes bs) = map hex_pair bs"
proof (induction bs)
  case Nil
  then show ?case by simp
next
  case (Cons b bs)
  show ?case
  proof (cases bs)
    case Nil
    then show ?thesis by (simp add: toHex_bytes_def words_ws_single hex_pair_no_ws)
  next
    case (Cons b' bs')
    have "toHex_bytes bs \<noteq> []" and "\<not> is_ws (hd (toHex_bytes bs))"
      using Cons hex_pair_no_ws [of b'] by (cases bs'; simp add: toHex_bytes_def hex_pair_def)+
    with Cons Cons.IH show ?thesis
      by (simp add: toHex_bytes_def words_ws_append hex_pair_no_ws)
  qed
qed

lemma trim_hex: "trim (toHex_bytes bs) = toHex_bytes bs"
proof (rule trim_id)
  have "bs \<noteq> [] \<Longrightarrow> toHex_bytes bs \<noteq> [] \<and> \<not> is_ws (last (toHex_bytes bs))"
  proof (induction bs)
    case (Cons b bs)
    then show ?case
      using hex_pair_no_ws [of b]
      by (cases bs) (auto simp: toHex_bytes_def hex_pair_def)
  qed simp
  moreover have "bs \<noteq> [] \<Longrightarrow> \<not> is_ws (hd (toHex_bytes bs))"
    using hex_pair_no_ws [of "hd bs"]
    by (cases bs; cases "tl bs") (auto simp: toHex_bytes_def hex_pair_def)
  ultimately show "toHex_bytes bs = [] \<or> \<not> is_ws (hd (toHex_bytes bs)) \<and> \<not> is_ws (last (toHex_bytes bs))"
    by (cases "bs = []") (auto simp: toHex_bytes_def)
qed

lemma fromHex_toHex: "fromHex (toHex_bytes bs) = bs"
proof (cases "bs = []")
  case True
  then show ?thesis by (simp add: fromHex_def toHex_bytes_def trim_def)
next
  case False
  then have "toHex_bytes bs \<noteq> []" by (cases bs; cases "tl bs") (auto simp: toHex_bytes_def hex_pair_def)
  with False show ?thesis by (simp add: fromHex_def trim_hex words_hex comp_def)
qed

text \<open>The chunking loop, for a positive chunk size.\<close>

lemma back_up_bounds: "1 \<le> e \<Longrightarrow> 1 \<le> back_up rest e \<and> back_up rest e \<le> e"
proof (induction rest e rule: back_up.induct)
  case (1 rest e)
  show ?case
  proof (cases "e < length rest \<and> e > 1 \<and> isUtf8Continuation (rest ! e)")
    case True
    then have "1 \<le> e - 1" by arith
    with 1 True have "1 \<le> back_up rest (e - 1) \<and> back_up rest (e - 1) \<le> e - 1" by blast
    moreover from True have "back_up rest e = back_up rest (e - 1)" by (simp add: back_up.simps [of rest e])
    ultimately show ?thesis by linarith
  next
    case False
    then have "back_up rest e = e" by (subst back_up.simps) auto
    with 1 show ?thesis by simp
  qed
qed

lemma back_up_boundary:
  assumes "e - k \<ge> 1" and "k \<le> e"
    and "e < length rest \<Longrightarrow> \<not> isUtf8Continuation (rest ! (e - k))"
  shows "back_up rest e < length rest \<Longrightarrow> \<not> isUtf8Continuation (rest ! back_up rest e)"
  using assms
proof (induction k arbitrary: e)
  case 0
  then have "back_up rest e = e" by (auto simp: back_up.simps [of rest e])
  with 0 show ?case by simp
next
  case (Suc k)
  show ?case
  proof (cases "e < length rest \<and> e > 1 \<and> isUtf8Continuation (rest ! e)")
    case True
    with Suc.prems have "back_up rest e = back_up rest (e - 1)" by (simp add: back_up.simps [of rest e])
    moreover from True Suc.prems have "e - 1 - k = e - Suc k" by simp
    ultimately show ?thesis using Suc.IH [of "e - 1"] Suc.prems True by auto
  next
    case False
    then have "back_up rest e = e" by (subst back_up.simps) auto
    with False Suc.prems show ?thesis by auto
  qed
qed

lemma chunk_loop_total:
  "0 < mx \<Longrightarrow> \<exists>cs. chunk_loop mx rest = Some cs \<and> concat cs = rest
     \<and> (\<forall>c\<in>set cs. c \<noteq> [] \<and> length c \<le> mx)"
proof (induction rest rule: length_induct)
  case (1 rest)
  show ?case
  proof (cases "rest = []")
    case True
    then show ?thesis by (simp add: chunk_loop.simps)
  next
    case False
    let ?e = "back_up rest (min mx (length rest))"
    from False 1 have "1 \<le> min mx (length rest)" by (cases rest) auto
    from back_up_bounds [OF this] have e: "1 \<le> ?e" "?e \<le> mx" "?e \<le> length rest" by auto
    with False have "length (drop ?e rest) < length rest" by simp
    with 1 obtain cs where "chunk_loop mx (drop ?e rest) = Some cs" "concat cs = drop ?e rest"
      "\<forall>c\<in>set cs. c \<noteq> [] \<and> length c \<le> mx" by blast
    with e False show ?thesis
      by (subst chunk_loop.simps) (auto simp: Let_def)
  qed
qed

text \<open>
  UTF-8 text as a list of encoded code points: a byte that is not a continuation byte, and up
  to three that are.
\<close>

definition code_point :: "bytes \<Rightarrow> bool" where
  "code_point p \<longleftrightarrow> p \<noteq> [] \<and> length p \<le> 4 \<and> \<not> isUtf8Continuation (hd p)
     \<and> (\<forall>b\<in>set (tl p). isUtf8Continuation b)"

lemma split_at_code_point:
  assumes "\<forall>p\<in>set ps. code_point p" and "concat ps = a @ b"
    and "b = [] \<or> \<not> isUtf8Continuation (hd b)"
  shows "\<exists>xs ys. ps = xs @ ys \<and> a = concat xs \<and> b = concat ys"
  using assms
proof (induction ps arbitrary: a)
  case Nil
  then show ?case by simp
next
  case (Cons p ps)
  show ?case
  proof (cases "a = []")
    case True
    with Cons.prems show ?thesis by (intro exI [of _ "[]"] exI [of _ "p # ps"]) simp
  next
    case False
    from Cons.prems(2) consider us where "p = a @ us" "us @ concat ps = b"
      | a' where "a = p @ a'" "concat ps = a' @ b"
      by (auto simp: append_eq_append_conv2)
    then show ?thesis
    proof cases
      case 1
      have "us = []"
      proof (rule ccontr)
        assume "us \<noteq> []"
        with 1 False have "hd b \<in> set (tl p)" and "b \<noteq> []" by (cases us; cases a; auto)+
        with Cons.prems(1,3) show False by (auto simp: code_point_def)
      qed
      with 1 show ?thesis by (intro exI [of _ "[p]"] exI [of _ ps]) simp
    next
      case 2
      with Cons.IH [of a'] Cons.prems obtain xs ys where "ps = xs @ ys" "a' = concat xs" "b = concat ys"
        by auto
      with 2 show ?thesis by (intro exI [of _ "p # xs"] exI [of _ ys]) simp
    qed
  qed
qed

lemma lead_within:
  assumes "\<forall>p\<in>set ps. code_point p" and "m < length (concat ps)"
  shows "\<exists>k\<le>3. k \<le> m \<and> \<not> isUtf8Continuation (concat ps ! (m - k))"
  using assms
proof (induction ps arbitrary: m)
  case Nil
  then show ?case by simp
next
  case (Cons p ps)
  show ?case
  proof (cases "m < length p")
    case True
    with Cons.prems have "m \<le> 3" and "\<not> isUtf8Continuation ((p @ concat ps) ! 0)"
      by (auto simp: code_point_def hd_conv_nth nth_append)
    then show ?thesis by (intro exI [of _ m]) simp
  next
    case False
    with Cons.prems have "\<forall>p\<in>set ps. code_point p" "m - length p < length (concat ps)" by auto
    from Cons.IH [OF this] obtain k where
      k: "k \<le> 3" "k \<le> m - length p" "\<not> isUtf8Continuation (concat ps ! (m - length p - k))" by blast
    moreover from False k have "m - k - length p = m - length p - k" "\<not> m - k < length p" by arith+
    ultimately show ?thesis by (intro exI [of _ k]) (simp add: nth_append)
  qed
qed

lemma chunk_loop_code_points:
  assumes "4 \<le> mx" and "\<forall>p\<in>set ps. code_point p" and "chunk_loop mx (concat ps) = Some cs"
  shows "\<exists>groups. concat groups = ps \<and> cs = map concat groups"
  using assms(2,3)
proof (induction "length (concat ps)" arbitrary: ps cs rule: less_induct)
  case less
  let ?r = "concat ps"
  show ?case
  proof (cases "?r = []")
    case True
    with less.prems have "ps = []" by (cases ps) (auto simp: code_point_def)
    with less.prems show ?thesis by (intro exI [of _ "[]"]) (simp add: chunk_loop.simps)
  next
    case False
    let ?m = "min mx (length ?r)" and ?e = "back_up ?r (min mx (length ?r))"
    from False assms(1) have m: "1 \<le> ?m" by (cases ?r) auto
    from back_up_bounds [OF m] have e: "1 \<le> ?e" "?e \<le> length ?r" by auto
    have bd: "drop ?e ?r = [] \<or> \<not> isUtf8Continuation (hd (drop ?e ?r))"
    proof (cases "?m < length ?r")
      case True
      then have m4: "?m = mx" by simp
      from lead_within [OF less.prems(1), of ?m] True m4 assms(1) obtain k where
        "k \<le> 3" "k \<le> ?m" "\<not> isUtf8Continuation (?r ! (?m - k))" by auto
      with back_up_boundary [of ?m k ?r] m4 assms(1) show ?thesis
        by (cases "?e < length ?r") (auto simp: hd_drop_conv_nth)
    next
      case False
      then have "?m = length ?r" by simp
      then have "?e = length ?r" by (simp add: back_up.simps)
      then show ?thesis by simp
    qed
    from less.prems(2) obtain cs' where
      cs': "chunk_loop mx (drop ?e ?r) = Some cs'" "cs = take ?e ?r # cs'"
      unfolding chunk_loop.simps [of mx ?r] if_not_P [OF False] Let_def bind_eq_Some_conv by blast
    from split_at_code_point [OF less.prems(1) _ bd, of "take ?e ?r"] obtain xs ys where
      xy: "ps = xs @ ys" "take ?e ?r = concat xs" "drop ?e ?r = concat ys" by auto
    from e False have "length (drop ?e ?r) < length ?r" by simp
    with xy less.prems(1) cs' less.hyps [of ys cs'] obtain groups where
      "concat groups = ys" "cs' = map concat groups" by auto
    with xy cs' show ?thesis by (intro exI [of _ "xs # groups"]) simp
  qed
qed

section \<open>Properties\<close>

lemma decode_spelled:
  "list_all spelling_ok us \<Longrightarrow> decodeOutput (concat (map spell us)) = map fst us"
  by (induction us) (simp_all add: decode_spell del: decodeOutput.simps(2))

text \<open>
  C2. \<open>%output\<close> decoding: however tmux spells each byte (raw, as three octal digits, or a doubled
  backslash), decoding the payload gives back exactly the bytes of the pane.
\<close>

theorem decodeOutput_spelled:
  assumes "list_all spelling_ok us"
  shows "decodeOutput (concat (map spell us)) = map fst us"
  using assms by (rule decode_spelled)

theorem decodeOutput_spelled_witness:
  "decodeOutput ([CHR ''h''] @ [BACKSLASH, CHR ''0'', CHR ''3'', CHR ''3''] @ [BACKSLASH, BACKSLASH])
     = [104, 27, 92]"
proof -
  have "list_all spelling_ok [(104, Raw), (27, Octal), (92, Doubled)]" by code_simp
  moreover have "concat (map spell [(104, Raw), (27, Octal), (92, Doubled)]) =
      [CHR ''h''] @ [BACKSLASH, CHR ''0'', CHR ''3'', CHR ''3''] @ [BACKSLASH, BACKSLASH]" by code_simp
  ultimately show ?thesis
    using decodeOutput_spelled [of "[(104, Raw), (27, Octal), (92, Doubled)]"]
    by (simp del: decodeOutput.simps)
qed

text \<open>
  Splitting pane input for \<open>send-keys\<close>: with a positive chunk size the loop returns; the
  chunks are non-empty, no longer than the size, and concatenate to the input; and when the
  input is UTF-8 text and the size is at least four, no code point is split: the chunks are
  the concatenations of consecutive groups of whole code points.
\<close>

theorem chunkBytes_correct:
  assumes "0 < mx"
  shows "\<exists>cs. chunkBytesForSendKeys bs mx = Some cs \<and> concat cs = bs
    \<and> (\<forall>c\<in>set cs. c \<noteq> [] \<and> length c \<le> mx)
    \<and> (\<forall>ps. 4 \<le> mx \<longrightarrow> list_all code_point ps \<longrightarrow> bs = concat ps \<longrightarrow>
          (\<exists>groups. concat groups = ps \<and> cs = map concat groups))"
proof (cases "bs = [] \<or> length bs \<le> mx")
  case True
  show ?thesis
  proof (cases "bs = []")
    case True
    have "ps = []" if "list_all code_point ps" "concat ps = []" for ps
      using that by (cases ps) (auto simp: code_point_def)
    with True show ?thesis by (auto simp: chunkBytesForSendKeys_def intro: exI [of _ "[]"])
  next
    case False
    with True show ?thesis
      by (intro exI [of _ "[bs]"] conjI allI impI)
        (auto simp: chunkBytesForSendKeys_def intro: exI [of _ "[ps]" for ps])
  qed
next
  case False
  then have eq: "chunkBytesForSendKeys bs mx = chunk_loop mx bs" by (simp add: chunkBytesForSendKeys_def)
  from chunk_loop_total [OF assms, of bs] obtain cs where cs: "chunk_loop mx bs = Some cs"
    "concat cs = bs" "\<forall>c\<in>set cs. c \<noteq> [] \<and> length c \<le> mx" by blast
  then show ?thesis
    unfolding eq by (auto simp: list_all_iff intro: chunk_loop_code_points)
qed

theorem chunkBytes_correct_witness:
  "\<exists>cs. chunkBytesForSendKeys [65, 0xC3, 0xA9, 0xC3, 0xA9, 66] 4 = Some cs
     \<and> (\<exists>groups. concat groups = [[65], [0xC3, 0xA9], [0xC3, 0xA9], [66]] \<and> cs = map concat groups)"
proof -
  have "list_all code_point [[65], [0xC3, 0xA9], [0xC3, 0xA9], [66]]"
    by (simp add: code_point_def isUtf8Continuation_def)
  with chunkBytes_correct [of 4 "[65, 0xC3, 0xA9, 0xC3, 0xA9, 66]"] show ?thesis by fastforce
qed

end
