(* ===== verification/TmuxLayout.thy ===== *)
theory TmuxLayout
  imports Prelude
begin

text \<open>
  The window-layout strings of tmux and their parser, \<open>src/shared/tmux/layout.ts\<close>, with the
  layout tree of \<open>src/shared/tmux/types.ts\<close>.

  The cursor \<open>{ s, i }\<close> is the rest of the string from \<open>i\<close>; an error carries its message and
  the length of the rest, from which \<open>i\<close> follows. \<open>parseCell\<close> and the loop over its children
  get fuel: one unit per call, and \<open>parseLayout\<close> supplies one more than the string is long.
  \<open>NoFuel\<close> is never returned (\<open>parseLayout_total\<close>).
\<close>

section \<open>The layout tree\<close>

datatype LayoutDir = LR | TB

datatype LayoutNode =
    Leaf (leafPaneId: string) (nodeW: nat) (nodeH: nat) (nodeX: nat) (nodeY: nat)
  | Split (splitDir: LayoutDir) (nodeW: nat) (nodeH: nat) (nodeX: nat) (nodeY: nat)
      (splitChildren: "LayoutNode list")

record WindowLayout =
  checksum :: string
  root :: LayoutNode

section \<open>The parser\<close>

datatype layout_error = PErr string nat | NoFuel

definition expect_ch :: "string \<Rightarrow> char \<Rightarrow> layout_error + string" where
  "expect_ch s ch =
     (case s of
        [] \<Rightarrow> Inl (PErr (''expected '' @ [ch]) 0)
      | c # s' \<Rightarrow> if c = ch then Inr s' else Inl (PErr (''expected '' @ [ch]) (length s)))"

text \<open>
  A run of digits. The source turns it into a double; here it stays exact, which is the same for
  every number below 2 to the power 53.
\<close>

definition readUint :: "string \<Rightarrow> layout_error + nat \<times> string" where
  "readUint s =
     (let ds = takeWhile is_digit s
      in if ds = [] then Inl (PErr ''expected a number'' (length s))
         else Inr (readNat ds, dropWhile is_digit s))"

text \<open>The part \<open>WxH,x,y\<close> that every cell starts with.\<close>

definition readGeometry :: "string \<Rightarrow> layout_error + (nat \<times> nat \<times> nat \<times> nat) \<times> string" where
  "readGeometry s =
     bindR (readUint s) (\<lambda>(w, s).
     bindR (expect_ch s (CHR ''x'')) (\<lambda>s.
     bindR (readUint s) (\<lambda>(h, s).
     bindR (expect_ch s (CHR '','')) (\<lambda>s.
     bindR (readUint s) (\<lambda>(x, s).
     bindR (expect_ch s (CHR '','')) (\<lambda>s.
     bindR (readUint s) (\<lambda>(y, s). Inr ((w, h, x, y), s))))))))"

definition peek :: "string \<Rightarrow> char option" where
  "peek s = (case s of [] \<Rightarrow> None | c # _ \<Rightarrow> Some c)"

fun parseCell :: "nat \<Rightarrow> string \<Rightarrow> layout_error + LayoutNode \<times> string"
  and parseCells :: "nat \<Rightarrow> string \<Rightarrow> layout_error + LayoutNode list \<times> string" where
  "parseCell 0 s = Inl NoFuel"
| "parseCell (Suc n) s =
     bindR (readGeometry s) (\<lambda>((w, h, x, y), s).
       if peek s = Some (CHR ''{'') \<or> peek s = Some (CHR ''['')
       then
         let dir = (if peek s = Some (CHR ''{'') then LR else TB);
             close = (if peek s = Some (CHR ''{'') then CHR ''}'' else CHR '']'')
         in bindR (parseCell n (tl s)) (\<lambda>(c, s).
            bindR (parseCells n s) (\<lambda>(cs, s).
            bindR (expect_ch s close) (\<lambda>s.
              Inr (Split dir w h x y (c # cs), s))))
       else if peek s = Some (CHR '','')
       then bindR (readUint (tl s)) (\<lambda>(p, s). Inr (Leaf (CHR ''%'' # showNat p) w h x y, s))
       else Inr (Leaf [] w h x y, s))"
| "parseCells 0 s = Inl NoFuel"
| "parseCells (Suc n) s =
     (if peek s = Some (CHR '','')
      then bindR (parseCell n (tl s)) (\<lambda>(c, s).
           bindR (parseCells n s) (\<lambda>(cs, s). Inr (c # cs, s)))
      else Inr ([], s))"

definition parseLayout :: "string \<Rightarrow> layout_error + WindowLayout" where
  "parseLayout layout =
     (let sum = takeWhile (\<lambda>c. c \<noteq> CHR '','') layout;
          s = dropWhile (\<lambda>c. c \<noteq> CHR '','') layout
      in if sum = [] then Inl (PErr ''missing checksum'' (length s))
         else bindR (expect_ch s (CHR '','')) (\<lambda>s.
              bindR (parseCell (Suc (length layout)) s) (\<lambda>(r, s).
              if s \<noteq> [] then Inl (PErr ''trailing characters after layout'' (length s))
              else Inr \<lparr>checksum = sum, root = r\<rparr>)))"

definition tryParseLayout :: "string \<Rightarrow> WindowLayout option" where
  "tryParseLayout layout = (case parseLayout layout of Inl _ \<Rightarrow> None | Inr l \<Rightarrow> Some l)"

section \<open>The grammar, as a printer\<close>

text \<open>
  What tmux writes: \<open>WxH,x,y\<close> and then the pane number of a leaf, or the children in braces
  (left/right) or brackets (top/bottom).
\<close>

definition showGeometry :: "nat \<Rightarrow> nat \<Rightarrow> nat \<Rightarrow> nat \<Rightarrow> string" where
  "showGeometry w h x y =
     showNat w @ ''x'' @ showNat h @ '','' @ showNat x @ '','' @ showNat y"

fun showCell :: "LayoutNode \<Rightarrow> string" where
  "showCell (Leaf p w h x y) = showGeometry w h x y @ '','' @ tl p"
| "showCell (Split d w h x y cs) =
     showGeometry w h x y
     @ (case d of LR \<Rightarrow> ''{'' | TB \<Rightarrow> ''['') @ joinWith '','' (map showCell cs)
     @ (case d of LR \<Rightarrow> ''}'' | TB \<Rightarrow> '']'')"

definition showLayout :: "WindowLayout \<Rightarrow> string" where
  "showLayout l = checksum l @ '','' @ showCell (root l)"

text \<open>A pane id: the percent sign and a decimal number without leading zeros.\<close>

definition pane_ref :: "string \<Rightarrow> bool" where
  "pane_ref p \<longleftrightarrow> p = CHR ''%'' # showNat (readNat (tl p))"

lemma pane_ref_iff [simp]: "pane_ref p \<longleftrightarrow> (\<exists>n. p = CHR ''%'' # showNat n)"
  by (auto simp: pane_ref_def)

fun node_ok :: "LayoutNode \<Rightarrow> bool" where
  "node_ok (Leaf p w h x y) \<longleftrightarrow> pane_ref p"
| "node_ok (Split d w h x y cs) \<longleftrightarrow> cs \<noteq> [] \<and> (\<forall>c\<in>set cs. node_ok c)"

definition layout_ok :: "WindowLayout \<Rightarrow> bool" where
  "layout_ok l \<longleftrightarrow> checksum l \<noteq> [] \<and> CHR '','' \<notin> set (checksum l) \<and> node_ok (root l)"

section \<open>Lemmas\<close>

lemma expect_ch_Cons [simp]: "expect_ch (c # s) c = Inr s"
  by (simp add: expect_ch_def)

lemma expect_ch_InrD: "expect_ch s c = Inr s' \<Longrightarrow> s = c # s'"
  by (auto simp: expect_ch_def split: list.splits if_splits)

lemma readUint_InrD: "readUint s = Inr (n, s') \<Longrightarrow> length s' < length s"
proof -
  assume a: "readUint s = Inr (n, s')"
  then have "takeWhile is_digit s \<noteq> []" and "s' = dropWhile is_digit s"
    by (auto simp: readUint_def Let_def split: if_splits)
  moreover have "length s = length (takeWhile is_digit s) + length (dropWhile is_digit s)"
    by (metis length_append takeWhile_dropWhile_id)
  ultimately show ?thesis by simp
qed

lemma readGeometry_InrD: "readGeometry s = Inr (g, s') \<Longrightarrow> length s' < length s"
  unfolding readGeometry_def
  by (fastforce simp: bindR_Inr_iff dest!: readUint_InrD expect_ch_InrD)

lemma readUint_not_NoFuel [simp]: "readUint s \<noteq> Inl NoFuel"
  by (simp add: readUint_def Let_def)

lemma expect_ch_not_NoFuel [simp]: "expect_ch s c \<noteq> Inl NoFuel"
  by (simp add: expect_ch_def split: list.splits)

lemma readGeometry_not_NoFuel [simp]: "readGeometry s \<noteq> Inl NoFuel"
  unfolding readGeometry_def by (simp add: bindR_Inl_iff split: prod.splits)

lemma peek_Some: "peek s = Some c \<longleftrightarrow> (\<exists>s'. s = c # s')"
  by (cases s) (auto simp: peek_def)

lemma parse_shorter:
  "parseCell n s = Inr (c, s') \<Longrightarrow> length s' < length s"
  "parseCells n s = Inr (cs, s'') \<Longrightarrow> length s'' \<le> length s"
proof (induction n s and n s arbitrary: c s' and cs s'' rule: parseCell_parseCells.induct)
  case (2 n s)
  from "2.prems" obtain w h x y r where g: "readGeometry s = Inr ((w, h, x, y), r)"
    by (auto simp: bindR_Inr_iff)
  from readGeometry_InrD [OF g] have lt: "length r < length s" .
  show ?case
  proof (cases "peek r = Some (CHR ''{'') \<or> peek r = Some (CHR ''['')")
    case True
    with "2.prems" g obtain c1 s1 cs1 s2 ch where
      "parseCell n (tl r) = Inr (c1, s1)" "parseCells n s1 = Inr (cs1, s2)" "expect_ch s2 ch = Inr s'"
      by (auto simp: bindR_Inr_iff Let_def)
    with "2.IH" g True lt show ?thesis
      by (fastforce simp: dest: expect_ch_InrD)
  next
    case False
    with "2.prems" g lt show ?thesis
      by (auto simp: bindR_Inr_iff peek_Some dest!: readUint_InrD split: if_splits)
  qed
next
  case (4 n s)
  show ?case
  proof (cases "peek s = Some (CHR '','')")
    case True
    with "4.prems" obtain c1 s1 cs1 where
      "parseCell n (tl s) = Inr (c1, s1)" "parseCells n s1 = Inr (cs1, s'')"
      by (auto simp: bindR_Inr_iff)
    with "4.IH" True show ?thesis by fastforce
  next
    case False
    with "4.prems" show ?thesis by simp
  qed
qed simp_all

lemma parse_has_fuel:
  "length s < n \<Longrightarrow> parseCell n s \<noteq> Inl NoFuel"
  "length s < n \<Longrightarrow> parseCells n s \<noteq> Inl NoFuel"
proof (induction n s and n s rule: parseCell_parseCells.induct)
  case (2 n s)
  show ?case
  proof (cases "readGeometry s")
    case (Inl e)
    with readGeometry_not_NoFuel [of s] show ?thesis by auto
  next
    case (Inr g)
    obtain w h x y r where g: "g = ((w, h, x, y), r)" by (metis prod.exhaust)
    with Inr readGeometry_InrD have lt: "length r < length s" by blast
    show ?thesis
    proof (cases "peek r = Some (CHR ''{'') \<or> peek r = Some (CHR ''['')")
      case True
      with lt "2.prems" have "length (tl r) < n" by auto
      moreover from this parse_shorter(1) have
        "parseCell n (tl r) = Inr (c1, s1) \<Longrightarrow> length s1 < n" for c1 s1
        by (meson order.strict_trans)
      ultimately show ?thesis
        using True Inr g "2.IH" by (fastforce simp: bindR_Inl_iff Let_def)
    next
      case False
      with Inr g show ?thesis by (auto simp: bindR_Inl_iff)
    qed
  qed
next
  case (4 n s)
  show ?case
  proof (cases "peek s = Some (CHR '','')")
    case True
    with "4.prems" have "length (tl s) < n" by (auto simp: peek_Some)
    moreover from this parse_shorter(1) have
      "parseCell n (tl s) = Inr (c1, s1) \<Longrightarrow> length s1 < n" for c1 s1
      by (meson order.strict_trans)
    ultimately show ?thesis
      using True "4.IH" by (fastforce simp: bindR_Inl_iff)
  next
    case False
    then show ?thesis by simp
  qed
qed simp_all

lemma parseLayout_total: "parseLayout s \<noteq> Inl NoFuel"
proof -
  have "length r \<le> length s" if "expect_ch (dropWhile (\<lambda>c. c \<noteq> CHR '','') s) (CHR '','') = Inr r" for r
    using expect_ch_InrD [OF that] length_dropWhile_le [of "\<lambda>c. c \<noteq> CHR '',''" s]
    by simp
  then have "length r < Suc (length s)"
    if "expect_ch (dropWhile (\<lambda>c. c \<noteq> CHR '','') s) (CHR '','') = Inr r" for r
    using that by (simp add: less_Suc_eq_le)
  with parse_has_fuel(1) show ?thesis
    by (auto simp: parseLayout_def Let_def bindR_Inl_iff simp del: parseCell.simps)
qed

subsection \<open>Reading back what the printer wrote\<close>

definition no_digit :: "string \<Rightarrow> bool" where
  "no_digit s \<longleftrightarrow> (\<forall>c. peek s = Some c \<longrightarrow> \<not> is_digit c)"

lemma no_digit_simps [simp]: "no_digit []" "no_digit (c # s) \<longleftrightarrow> \<not> is_digit c"
  by (auto simp: no_digit_def peek_def)

lemma punct_not_digit [simp]:
  "\<not> is_digit CHR '',''" "\<not> is_digit CHR ''x''" "\<not> is_digit CHR ''{''" "\<not> is_digit CHR ''}''"
  "\<not> is_digit CHR ''[''" "\<not> is_digit CHR '']''"
  by (auto dest: is_digit_not_punct)

lemma readUint_show: "no_digit r \<Longrightarrow> readUint (showNat n @ r) = Inr (n, r)"
proof -
  assume "no_digit r"
  then have "takeWhile is_digit r = []" and "dropWhile is_digit r = r"
    by (cases r; simp)+
  moreover have "\<forall>c\<in>set (showNat n). is_digit c" using showNat_digits by blast
  ultimately show ?thesis
    by (simp add: readUint_def)
qed

lemma readGeometry_show:
  "no_digit r \<Longrightarrow> readGeometry (showGeometry w h x y @ r) = Inr ((w, h, x, y), r)"
  by (simp add: readGeometry_def showGeometry_def readUint_show)

lemma peek_Cons [simp]: "peek (c # s) = Some c" "peek [] = None"
  by (simp_all add: peek_def)

text \<open>The tail of a list of children, as the loop reads it.\<close>

definition showTail :: "LayoutNode list \<Rightarrow> string" where
  "showTail cs = concat (map (\<lambda>c. CHR '','' # showCell c) cs)"

lemma joinWith_showTail: "joinWith '','' (map showCell (c # cs)) = showCell c @ showTail cs"
  by (induction cs arbitrary: c) (simp_all add: showTail_def)

definition opener :: "LayoutDir \<Rightarrow> char" where
  "opener d = (case d of LR \<Rightarrow> CHR ''{'' | TB \<Rightarrow> CHR ''['')"

definition closer :: "LayoutDir \<Rightarrow> char" where
  "closer d = (case d of LR \<Rightarrow> CHR ''}'' | TB \<Rightarrow> CHR '']'')"

lemma showCell_Split:
  "showCell (Split d w h x y (c # cs)) =
     showGeometry w h x y @ opener d # showCell c @ showTail cs @ [closer d]"
  unfolding showCell.simps joinWith_showTail
  by (cases d) (simp_all add: opener_def closer_def)

lemma parseCell_Split:
  assumes "parseCell n s = Inr (c, s1)" and "parseCells n s1 = Inr (cs, closer d # r)"
  shows "parseCell (Suc n) (showGeometry w h x y @ opener d # s) = Inr (Split d w h x y (c # cs), r)"
  using assms by (cases d) (simp_all add: readGeometry_show opener_def closer_def)

lemma parse_show:
  "\<lbrakk>node_ok t; length (showCell t) \<le> n; no_digit r\<rbrakk> \<Longrightarrow> parseCell (Suc n) (showCell t @ r) = Inr (t, r)"
proof (induction t arbitrary: n r)
  case (Leaf p w h x y)
  then obtain k where "p = CHR ''%'' # showNat k" by auto
  with Leaf.prems show ?case by (simp add: readGeometry_show readUint_show)
next
  case (Split d w h x y ts)
  then obtain c cs where ts: "ts = c # cs" by (cases ts) auto
  have tail: "parseCells m (showTail us @ closer d # r) = Inr (us, closer d # r)"
    if "set us \<subseteq> set ts" and "length (showTail us) < m" for m us
    using that
  proof (induction us arbitrary: m)
    case Nil
    then obtain k where "m = Suc k" by (cases m) auto
    then show ?case by (cases d) (simp_all add: showTail_def closer_def)
  next
    case (Cons u us)
    then obtain k where m: "m = Suc k" by (cases m) auto
    from Cons.prems m obtain l where k: "k = Suc l"
      by (cases k) (auto simp: showTail_def)
    from Cons.prems m k have len: "length (showCell u) \<le> l" "length (showTail us) < k"
      by (auto simp: showTail_def)
    have nd: "no_digit (showTail us @ closer d # r)"
      by (cases us; cases d) (simp_all add: showTail_def closer_def)
    from Cons.prems Split.prems(1) have "u \<in> set ts" "node_ok u" by auto
    from Split.IH [OF this len(1) nd] k have
      "parseCell k (showCell u @ showTail us @ closer d # r) = Inr (u, showTail us @ closer d # r)"
      by simp
    moreover from Cons.IH [OF _ len(2)] Cons.prems(1) have
      "parseCells k (showTail us @ closer d # r) = Inr (us, closer d # r)" by simp
    ultimately show ?case using m by (simp add: showTail_def)
  qed
  from Split.prems(2) ts obtain l where n: "n = Suc l"
    by (cases n) (auto simp: showCell_Split simp del: showCell.simps)
  from Split.prems(2) have len: "length (showCell c) \<le> l" "length (showTail cs) < n"
    unfolding ts showCell_Split n by auto
  have nd: "no_digit (showTail cs @ closer d # r)"
    by (cases cs; cases d) (simp_all add: showTail_def closer_def)
  from Split.prems(1) ts have "c \<in> set ts" "node_ok c" by auto
  from Split.IH [OF this len(1) nd] n have
    "parseCell n (showCell c @ showTail cs @ closer d # r) = Inr (c, showTail cs @ closer d # r)"
    by simp
  moreover from ts len(2) have "parseCells n (showTail cs @ closer d # r) = Inr (cs, closer d # r)"
    by (intro tail) auto
  ultimately have "parseCell (Suc n) (showGeometry w h x y @ opener d # (showCell c @ showTail cs @ closer d # r))
      = Inr (Split d w h x y (c # cs), r)"
    by (rule parseCell_Split)
  then show ?case unfolding ts showCell_Split by simp
qed

subsection \<open>What a parsed tree looks like\<close>

fun parsed_ok :: "LayoutNode \<Rightarrow> bool" where
  "parsed_ok (Leaf p w h x y) \<longleftrightarrow> p = [] \<or> pane_ref p"
| "parsed_ok (Split d w h x y cs) \<longleftrightarrow> cs \<noteq> [] \<and> (\<forall>c\<in>set cs. parsed_ok c)"

lemma parse_parsed_ok:
  "parseCell n s = Inr (c, s') \<Longrightarrow> parsed_ok c"
  "parseCells n s = Inr (cs, s'') \<Longrightarrow> \<forall>c\<in>set cs. parsed_ok c"
proof (induction n s and n s arbitrary: c s' and cs s'' rule: parseCell_parseCells.induct)
  case (2 n s)
  from "2.prems" obtain w h x y r where g: "readGeometry s = Inr ((w, h, x, y), r)"
    by (auto simp: bindR_Inr_iff)
  show ?case
  proof (cases "peek r = Some (CHR ''{'') \<or> peek r = Some (CHR ''['')")
    case True
    with "2.prems" g obtain c1 s1 cs1 s2 d where "parseCell n (tl r) = Inr (c1, s1)"
      "parseCells n s1 = Inr (cs1, s2)" "c = Split d w h x y (c1 # cs1)"
      by (auto simp: bindR_Inr_iff Let_def)
    with "2.IH" g True show ?thesis by fastforce
  next
    case False
    with "2.prems" g show ?thesis by (auto simp: bindR_Inr_iff split: if_splits)
  qed
next
  case (4 n s)
  show ?case
  proof (cases "peek s = Some (CHR '','')")
    case True
    with "4.prems" obtain c1 s1 cs1 where
      "parseCell n (tl s) = Inr (c1, s1)" "parseCells n s1 = Inr (cs1, s'')" "cs = c1 # cs1"
      by (auto simp: bindR_Inr_iff)
    with "4.IH" True show ?thesis by fastforce
  next
    case False
    with "4.prems" show ?thesis by simp
  qed
qed simp_all

lemma parseLayout_InrD:
  assumes "parseLayout s = Inr l"
  shows "checksum l \<noteq> [] \<and> CHR '','' \<notin> set (checksum l) \<and>
         (\<exists>r. s = checksum l @ '','' @ r \<and> parseCell (Suc (length s)) r = Inr (root l, []))"
proof -
  let ?P = "\<lambda>c. c \<noteq> CHR '',''"
  from assms obtain r where r: "expect_ch (dropWhile ?P s) (CHR '','') = Inr r"
    and c: "parseCell (Suc (length s)) r = Inr (root l, [])"
    and ck: "checksum l = takeWhile ?P s" "takeWhile ?P s \<noteq> []"
    by (auto simp: parseLayout_def Let_def bindR_Inr_iff simp del: parseCell.simps split: if_splits)
  from expect_ch_InrD [OF r] have "s = takeWhile ?P s @ '','' @ r"
    by (metis append_Cons append_Nil takeWhile_dropWhile_id)
  with c ck show ?thesis by (metis (full_types) set_takeWhileD)
qed

lemma parse_printed:
  assumes "layout_ok l"
  shows "parseLayout (showLayout l) = Inr l"
proof -
  have "takeWhile (\<lambda>c. c \<noteq> CHR '','') (checksum l @ CHR '','' # r) = checksum l"
    and "dropWhile (\<lambda>c. c \<noteq> CHR '','') (checksum l @ CHR '','' # r) = CHR '','' # r" for r
    using assms by (auto simp: layout_ok_def takeWhile_tail dropWhile_append3)
  moreover have "parseCell (Suc (Suc (length (checksum l) + length (showCell (root l)))))
      (showCell (root l)) = Inr (root l, [])"
    using parse_show [of "root l" _ "[]"] assms by (simp add: layout_ok_def)
  ultimately show "parseLayout (showLayout l) = Inr l"
    using assms by (simp add: parseLayout_def showLayout_def layout_ok_def del: parseCell.simps)
qed

section \<open>Properties\<close>

text \<open>
  C3. The layout parser reads back every layout string tmux writes: for a checksum that is
  non-empty and free of commas, and a tree whose splits have at least one child and whose
  leaves carry a numbered pane, parsing the printed string gives exactly that layout, at
  any depth and with any numbers.
\<close>

theorem parseLayout_roundtrip:
  assumes "layout_ok l"
  shows "parseLayout (showLayout l) = Inr l \<and> tryParseLayout (showLayout l) = Some l"
  using parse_printed [OF assms] by (simp add: tryParseLayout_def)

definition sample_layout :: WindowLayout where
  "sample_layout = \<lparr>checksum = ''b25d'',
     root = Split LR 80 24 0 0 [Leaf ''%0'' 40 24 0 0,
       Split TB 39 24 41 0 [Leaf ''%1'' 39 12 41 0, Leaf ''%12'' 39 11 41 13]]\<rparr>"

theorem parseLayout_roundtrip_witness:
  "parseLayout (showLayout sample_layout) = Inr sample_layout"
proof -
  have "''%0'' = CHR ''%'' # showNat 0" "''%1'' = CHR ''%'' # showNat 1" "''%12'' = CHR ''%'' # showNat 12"
    by (simp_all add: showNat_unfold digit_chars)
  then have "layout_ok sample_layout"
    unfolding layout_ok_def sample_layout_def by (auto simp del: list.inject)
  from parseLayout_roundtrip [OF this] show ?thesis by simp
qed

text \<open>
  The layout parser returns on every string, with a layout or with the code's error (the
  fuel never runs out), and what it accepts is well formed: the string starts with the
  checksum and a comma, every split has a child, every pane id is empty or \<open>%\<close> and a
  decimal number without leading zeros, and, where all leaves have an id, printing the
  result and parsing again gives the same layout.
\<close>

theorem parseLayout_sound:
  "case parseLayout s of
     Inl e \<Rightarrow> (\<exists>msg left. e = PErr msg left) \<and> tryParseLayout s = None
   | Inr l \<Rightarrow> checksum l \<noteq> [] \<and> startsWith s (checksum l @ '','') \<and> parsed_ok (root l) \<and>
       (node_ok (root l) \<longrightarrow> parseLayout (showLayout l) = Inr l)"
proof (cases "parseLayout s")
  case (Inl e)
  with parseLayout_total [of s] show ?thesis by (cases e) (auto simp: tryParseLayout_def)
next
  case (Inr l)
  from parseLayout_InrD [OF Inr] obtain r where l: "checksum l \<noteq> []" "CHR '','' \<notin> set (checksum l)"
      "s = checksum l @ '','' @ r" "parseCell (Suc (length s)) r = Inr (root l, [])" by blast
  from l(3) have "startsWith s (checksum l @ '','')" by (auto simp: startsWith_iff)
  with l(1,2) parse_parsed_ok(1) [OF l(4)] Inr show ?thesis
    by (auto simp: layout_ok_def intro: parse_printed)
qed

theorem parseLayout_sound_witness:
  "parseLayout ''b25d,080x24,0,0,07'' = Inr \<lparr>checksum = ''b25d'', root = Leaf ''%7'' 80 24 0 0\<rparr>
   \<and> parseLayout (showLayout \<lparr>checksum = ''b25d'', root = Leaf ''%7'' 80 24 0 0\<rparr>)
       = Inr \<lparr>checksum = ''b25d'', root = Leaf ''%7'' 80 24 0 0\<rparr>"
proof -
  have p: "parseLayout ''b25d,080x24,0,0,07'' = Inr \<lparr>checksum = ''b25d'', root = Leaf ''%7'' 80 24 0 0\<rparr>"
    by code_simp
  have "''%7'' = CHR ''%'' # showNat 7" by (simp add: showNat_unfold digit_chars)
  then have "node_ok (Leaf ''%7'' 80 24 0 0)" by (auto simp del: list.inject)
  with p parseLayout_sound [of "''b25d,080x24,0,0,07''"] show ?thesis by simp
qed

end
