(* ===== verification/TmuxParser.thy ===== *)
theory TmuxParser
  imports Complex_Main TmuxCodec TmuxLayout
begin

text \<open>
  The streaming parser of the tmux control protocol, \<open>src/shared/tmux/parser.ts\<close>, with the
  notification types of \<open>src/shared/tmux/types.ts\<close>.

  A parser state is the line buffer and the reply block that is open, if any. \<open>handleLine\<close>
  returns the notifications it pushes on \<open>out\<close> together with the new open block. A chunk of
  bytes is decoded as latin1 before framing, so a chunk is a list of code units here.
  \<open>Number(s)\<close> is exact (a rational); JavaScript rounds it to the nearest double.
\<close>

section \<open>Notifications\<close>

datatype TmuxNotification =
    Output (outPane: string) (outBytes: bytes)
  | WindowAdd string
  | UnlinkedWindowAdd string
  | WindowClose string
  | WindowRenamed string string
  | WindowPaneChanged string string
  | LayoutChange string WindowLayout "WindowLayout option" "string option"
  | SessionChanged string string
  | SessionRenamed string
  | SessionsChanged
  | SessionWindowChanged string string
  | ClientSessionChanged string string string
  | ClientDetached string
  | PaneModeChanged string
  | Exit "string option"
  | Continue string
  | Pause string
  | SubscriptionChanged string string
  | Reply (replyNum: rat) (replyError: bool) (replyLines: "string list")
  | Attached nat
  | Unknown string

section \<open>Numbers\<close>

text \<open>
  \<open>Number(s)\<close> on a string: the empty string is 0, an optional sign and a decimal literal
  with fraction and exponent, or an unsigned hexadecimal, octal or binary literal. \<open>None\<close>
  is every result that is not finite: \<open>NaN\<close>, the infinities, and literals that overflow.
\<close>

definition read_exponent :: "string \<Rightarrow> (bool \<times> nat) option" where
  "read_exponent s =
     (let neg = startsWith s ''-'';
          ds = (if startsWith s ''-'' \<or> startsWith s ''+'' then tl s else s)
      in if ds \<noteq> [] \<and> list_all is_digit ds then Some (neg, readNat ds) else None)"

definition read_decimal :: "string \<Rightarrow> rat option" where
  "read_decimal s =
     (let ip = takeWhile is_digit s; r = dropWhile is_digit s;
          fp = (if startsWith r ''.'' then takeWhile is_digit (tl r) else []);
          e = (if startsWith r ''.'' then dropWhile is_digit (tl r) else r);
          m = rat_of_nat (readNat (ip @ fp)) / 10 ^ length fp
      in if ip @ fp = [] then None
         else if e = [] then Some m
         else if hd e = CHR ''e'' \<or> hd e = CHR ''E''
         then (case read_exponent (tl e) of None \<Rightarrow> None
               | Some (neg, k) \<Rightarrow> Some (if neg then m / 10 ^ k else m * 10 ^ k))
         else None)"

definition read_radix :: "nat \<Rightarrow> string \<Rightarrow> rat option" where
  "read_radix b s =
     (if s \<noteq> [] \<and> list_all (\<lambda>c. is_hex_digit c \<and> hex_val c < b) s
      then Some (rat_of_nat (foldl (\<lambda>a c. a * b + hex_val c) 0 s)) else None)"

definition js_Number :: "string \<Rightarrow> rat option" where
  "js_Number s0 =
     (let s = trim s0;
          v = (if s = [] then Some 0
               else if startsWith s ''0x'' \<or> startsWith s ''0X'' then read_radix 16 (drop 2 s)
               else if startsWith s ''0o'' \<or> startsWith s ''0O'' then read_radix 8 (drop 2 s)
               else if startsWith s ''0b'' \<or> startsWith s ''0B'' then read_radix 2 (drop 2 s)
               else if startsWith s ''-'' then map_option uminus (read_decimal (tl s))
               else if startsWith s ''+'' then read_decimal (tl s)
               else read_decimal s)
      in case v of None \<Rightarrow> None
         | Some x \<Rightarrow> if \<bar>x\<bar> < 2 ^ 1024 - 2 ^ 970 then Some x else None)"

section \<open>Tokens\<close>

definition NL :: char where "NL = CHR 0x0A"
definition CR :: char where "CR = CHR 0x0D"
definition ESC :: char where "ESC = CHR 0x1B"

definition firstToken :: "string \<Rightarrow> string" where
  "firstToken s = (case indexOf s '' '' of None \<Rightarrow> s | Some sp \<Rightarrow> take sp s)"

definition splitFirst :: "string \<Rightarrow> string \<times> string" where
  "splitFirst s = (case indexOf s '' '' of None \<Rightarrow> (s, []) | Some sp \<Rightarrow> (take sp s, drop (Suc sp) s))"

text \<open>\<open>t[i]\<close> of an array of strings, \<open>None\<close> past the end.\<close>

definition arr_get :: "'a list \<Rightarrow> nat \<Rightarrow> 'a option" where
  "arr_get t i = (if i < length t then Some (t ! i) else None)"

definition or_empty :: "string option \<Rightarrow> string" where
  "or_empty o1 = (case o1 of None \<Rightarrow> [] | Some s \<Rightarrow> s)"

definition DCS_INTRODUCER :: string where "DCS_INTRODUCER = ESC # ''P1000p''"
definition DCS_TERMINATOR :: string where "DCS_TERMINATOR = [ESC, BACKSLASH]"

text \<open>\<open>s.split(p).join('')\<close> for a non-empty \<open>p\<close>: the occurrences are removed left to right.\<close>

fun remove_all :: "nat \<Rightarrow> string \<Rightarrow> string \<Rightarrow> string" where
  "remove_all skip p [] = []"
| "remove_all (Suc k) p (c # s) = remove_all k p s"
| "remove_all 0 p (c # s) =
     (if startsWith (c # s) p then remove_all (length p - 1) p s else c # remove_all 0 p s)"

definition stripDcsWrapper :: "string \<Rightarrow> string" where
  "stripDcsWrapper s =
     (let out = (if includesStr s DCS_INTRODUCER then remove_all 0 DCS_INTRODUCER s else s)
      in if includesStr out DCS_TERMINATOR then remove_all 0 DCS_TERMINATOR out else out)"

section \<open>The parser\<close>

record open_reply =
  num :: rat
  replyBody :: "string list"

record parser =
  buffer :: string
  openReply :: "open_reply option"

definition new_parser :: parser where
  "new_parser = \<lparr>buffer = [], openReply = None\<rparr>"

definition openBegin :: "string \<Rightarrow> open_reply" where
  "openBegin rest =
     (let t = splitOn (CHR '' '') rest;
          n = (case arr_get t 1 of None \<Rightarrow> None | Some s \<Rightarrow> js_Number s)
      in \<lparr>num = (case n of None \<Rightarrow> -1 | Some x \<Rightarrow> x), replyBody = []\<rparr>)"

definition closeReply :: "open_reply \<Rightarrow> string \<Rightarrow> TmuxNotification" where
  "closeReply r line = Reply (num r) (startsWith line ''%error '') (replyBody r)"

definition forceCloseReply :: "open_reply \<Rightarrow> TmuxNotification" where
  "forceCloseReply r = Reply (num r) True (replyBody r)"

definition parseOutput :: "string \<Rightarrow> TmuxNotification" where
  "parseOutput rest =
     (case indexOf rest '' '' of None \<Rightarrow> Output rest (decodeOutput [])
      | Some sp \<Rightarrow> Output (take sp rest) (decodeOutput (drop (Suc sp) rest)))"

definition parseExtendedOutput :: "string \<Rightarrow> TmuxNotification" where
  "parseExtendedOutput rest =
     (let (paneId, afterPane) =
            (case indexOf rest '' '' of None \<Rightarrow> (rest, [])
             | Some sp \<Rightarrow> (take sp rest, drop (Suc sp) rest));
          payload = (case indexOf afterPane '' : '' of None \<Rightarrow> [] | Some d \<Rightarrow> drop (d + 3) afterPane)
      in Output paneId (decodeOutput payload))"

definition parseLayoutChange :: "string \<Rightarrow> TmuxNotification" where
  "parseLayoutChange rest =
     (let t = splitOn (CHR '' '') rest;
          flags = (if 3 < length t then Some (joinWith '' '' (drop 3 t)) else arr_get t 3)
      in case tryParseLayout (or_empty (arr_get t 1)) of
           None \<Rightarrow> Unknown (''%layout-change '' @ rest)
         | Some l \<Rightarrow>
             LayoutChange (or_empty (arr_get t 0)) l
               (case arr_get t 2 of None \<Rightarrow> None
                | Some v \<Rightarrow> if v = [] then None else tryParseLayout v)
               flags)"

definition parseSubscription :: "string \<Rightarrow> TmuxNotification" where
  "parseSubscription rest =
     SubscriptionChanged (firstToken rest)
       (case indexOf rest '' : '' of None \<Rightarrow> [] | Some d \<Rightarrow> drop (d + 3) rest)"

text \<open>
  The \<open>switch\<close> over the tags of a notification line: what it pushes, and the block it opens.
\<close>

definition notification :: "string \<Rightarrow> string \<Rightarrow> string \<Rightarrow> TmuxNotification" where
  "notification line tag rest =
     (let t = splitOn (CHR '' '') rest in
      if tag = ''%output'' then parseOutput rest
      else if tag = ''%extended-output'' then parseExtendedOutput rest
      else if tag = ''%window-add'' then WindowAdd (firstToken rest)
      else if tag = ''%unlinked-window-add'' then UnlinkedWindowAdd (firstToken rest)
      else if tag = ''%window-close'' \<or> tag = ''%unlinked-window-close''
        then WindowClose (firstToken rest)
      else if tag = ''%window-renamed''
        then (let (w, n) = splitFirst rest in WindowRenamed w n)
      else if tag = ''%window-pane-changed''
        then WindowPaneChanged (or_empty (arr_get t 0)) (or_empty (arr_get t 1))
      else if tag = ''%layout-change'' then parseLayoutChange rest
      else if tag = ''%session-changed''
        then (let (s, n) = splitFirst rest in SessionChanged s n)
      else if tag = ''%session-renamed'' then SessionRenamed rest
      else if tag = ''%sessions-changed'' then SessionsChanged
      else if tag = ''%session-window-changed''
        then SessionWindowChanged (or_empty (arr_get t 0)) (or_empty (arr_get t 1))
      else if tag = ''%client-session-changed''
        then ClientSessionChanged (or_empty (arr_get t 0)) (or_empty (arr_get t 1))
               (joinWith '' '' (drop 2 t))
      else if tag = ''%client-detached'' then ClientDetached (firstToken rest)
      else if tag = ''%pane-mode-changed'' then PaneModeChanged (firstToken rest)
      else if tag = ''%exit'' then Exit (if rest \<noteq> [] then Some rest else None)
      else if tag = ''%continue'' then Continue (firstToken rest)
      else if tag = ''%pause'' then Pause (firstToken rest)
      else if tag = ''%subscription-changed'' then parseSubscription rest
      else Unknown line)"

definition handleOutside :: "string \<Rightarrow> TmuxNotification list \<times> open_reply option" where
  "handleOutside line =
     (if \<not> startsWith line ''%'' then ([], None)
      else let (tag, rest) = splitFirst line
           in if tag = ''%begin'' then ([], Some (openBegin rest))
              else ([notification line tag rest], None))"

definition is_exit_line :: "string \<Rightarrow> bool" where
  "is_exit_line line \<longleftrightarrow> line = ''%exit'' \<or> startsWith line ''%exit ''"

definition is_close_line :: "string \<Rightarrow> bool" where
  "is_close_line line \<longleftrightarrow> startsWith line ''%end '' \<or> startsWith line ''%error ''"

definition handleLine :: "open_reply option \<Rightarrow> string \<Rightarrow> TmuxNotification list \<times> open_reply option" where
  "handleLine op line =
     (case op of
        None \<Rightarrow> handleOutside line
      | Some r \<Rightarrow>
          if is_close_line line then ([closeReply r line], None)
          else if is_exit_line line
          then (let (ns, op') = handleOutside line in (forceCloseReply r # ns, op'))
          else ([], Some (r\<lparr>replyBody := replyBody r @ [line]\<rparr>)))"

definition chomp :: "string \<Rightarrow> string" where
  "chomp line = (if endsWith line [CR] then butlast line else line)"

function feed_loop :: "string \<Rightarrow> open_reply option \<Rightarrow> TmuxNotification list \<times> parser" where
  "feed_loop buf op =
     (case indexOf buf [NL] of
        None \<Rightarrow> ([], \<lparr>buffer = buf, openReply = op\<rparr>)
      | Some nl \<Rightarrow>
          let (out1, op1) = handleLine op (chomp (take nl buf));
              (out2, p) = feed_loop (drop (Suc nl) buf) op1
          in (out1 @ out2, p))"
  by pat_completeness auto

lemma indexOf_lt: "indexOf buf [c] = Some nl \<Longrightarrow> nl < length buf"
  by (rule conjunct1 [OF indexOf_singleton])

termination feed_loop
  by (relation "measure (\<lambda>(buf, _). length buf)") (auto dest: indexOf_lt)

declare feed_loop.simps [simp del]

definition feed :: "parser \<Rightarrow> string \<Rightarrow> TmuxNotification list \<times> parser" where
  "feed p text = feed_loop (stripDcsWrapper (buffer p @ text)) (openReply p)"

section \<open>Lines\<close>

fun run_lines :: "open_reply option \<Rightarrow> string list \<Rightarrow> TmuxNotification list \<times> open_reply option" where
  "run_lines op [] = ([], op)"
| "run_lines op (l # ls) =
     (let (o1, op1) = handleLine op l; (o2, op2) = run_lines op1 ls in (o1 @ o2, op2))"

fun feeds :: "parser \<Rightarrow> string list \<Rightarrow> TmuxNotification list \<times> parser" where
  "feeds p [] = ([], p)"
| "feeds p (c # cs) = (let (o1, p1) = feed p c; (o2, p2) = feeds p1 cs in (o1 @ o2, p2))"

lemma run_lines_append:
  "run_lines op (xs @ ys) =
     (let (o1, op1) = run_lines op xs; (o2, op2) = run_lines op1 ys in (o1 @ o2, op2))"
  by (induction xs arbitrary: op) (auto split: prod.splits)

lemma splitOn_indexOf:
  "indexOf s [c] = Some i \<Longrightarrow> splitOn c s = take i s # splitOn c (drop (Suc i) s)"
proof -
  assume a: "indexOf s [c] = Some i"
  note i = indexOf_singleton [OF a]
  then have s: "s = take i s @ c # drop (Suc i) s" by (auto simp: id_take_nth_drop)
  from i have "splitOn c (take i s @ c # drop (Suc i) s) = take i s # splitOn c (drop (Suc i) s)"
    by (intro splitOn_append) simp
  with s show ?thesis by metis
qed

lemma feed_loop_lines:
  "feed_loop buf op =
     (let ls = splitOn NL buf; (ns, op') = run_lines op (map chomp (butlast ls))
      in (ns, \<lparr>buffer = last ls, openReply = op'\<rparr>))"
proof (induction buf op rule: feed_loop.induct)
  case (1 buf op)
  show ?case
  proof (cases "indexOf buf [NL]")
    case None
    then have "splitOn NL buf = [buf]" by (simp add: splitOn_id)
    with None show ?thesis by (subst feed_loop.simps) simp
  next
    case (Some nl)
    then show ?thesis
      using "1.IH" [OF Some refl] splitOn_indexOf [OF Some]
      by (subst feed_loop.simps) (auto simp: Let_def split: prod.splits)
  qed
qed

lemma splitOn_append_last:
  "splitOn c (a @ b) = butlast (splitOn c a) @ splitOn c (last (splitOn c a) @ b)"
proof (induction a)
  case Nil
  then show ?case by simp
next
  case (Cons x a)
  then obtain q qs where q: "splitOn c a = q # qs" by (cases "splitOn c a") auto
  with Cons show ?case by (cases qs) auto
qed

lemma feed_loop_append:
  "feed_loop (a @ b) op =
     (let (o1, p1) = feed_loop a op; (o2, p2) = feed_loop (buffer p1 @ b) (openReply p1)
      in (o1 @ o2, p2))"
proof -
  have "last (butlast xs @ ys) = last ys" if "ys \<noteq> []" for xs ys :: "string list"
    using that by simp
  moreover have "butlast (butlast xs @ ys) = butlast xs @ butlast ys" if "ys \<noteq> []" for xs ys :: "string list"
    using that by (simp add: butlast_append)
  ultimately show ?thesis
    unfolding feed_loop_lines splitOn_append_last [of NL a b]
    by (simp add: Let_def run_lines_append split: prod.splits)
qed

subsection \<open>The wrapper and the chunks\<close>

text \<open>
  A text the wrapper's removal leaves alone: it holds neither of the two sequences. Every part
  of such a text is one, and so is the text followed by the terminator's first character.
\<close>

definition unwrapped :: "string \<Rightarrow> bool" where
  "unwrapped s \<longleftrightarrow> \<not> includesStr s DCS_INTRODUCER \<and> \<not> includesStr s DCS_TERMINATOR"

lemma includesStr_iff: "includesStr s p \<longleftrightarrow> (\<exists>u v. s = u @ p @ v)"
proof
  assume "includesStr s p"
  then obtain i where "indexOf s p = Some i" by (auto simp: includesStr_def)
  from indexOf_SomeD [OF this] obtain v where "drop i s = p @ v" by (auto simp: startsWith_iff)
  then have "s = take i s @ p @ v" by (metis append_take_drop_id)
  then show "\<exists>u v. s = u @ p @ v" by blast
next
  assume "\<exists>u v. s = u @ p @ v"
  then obtain u v where s: "s = u @ p @ v" by blast
  then have "startsWith (drop (length u) s) p" "length u \<le> length s" by simp_all
  then show "includesStr s p" by (auto simp: includesStr_def indexOf_None_iff)
qed

lemma includesStr_part: "includesStr s p \<Longrightarrow> includesStr (a @ s @ b) p"
  unfolding includesStr_iff by (metis append_assoc)

lemma unwrapped_part: "unwrapped (a @ s @ b) \<Longrightarrow> unwrapped s"
  using includesStr_part by (auto simp: unwrapped_def)

lemma unwrapped_prefix: "unwrapped (s @ b) \<Longrightarrow> unwrapped s"
  using unwrapped_part [of "[]" s b] by simp

lemma unwrapped_suffix: "unwrapped (a @ s) \<Longrightarrow> unwrapped s"
  using unwrapped_part [of a s "[]"] by simp

lemma includesStr_snoc:
  "includesStr (s @ [c]) p \<Longrightarrow> includesStr s p \<or> (\<exists>u. s @ [c] = u @ p)"
  unfolding includesStr_iff
  by (metis append.assoc append_self_conv butlast_append butlast_snoc)

lemma includesStr_split:
  assumes "includesStr (a @ c # b) p" and "c \<notin> set p" and "p \<noteq> []"
  shows "includesStr a p \<or> includesStr b p"
proof -
  from assms(1) obtain u v where e: "a @ c # b = u @ p @ v" by (auto simp: includesStr_iff)
  then consider x where "u = a @ x" "c # b = x @ p @ v" | x where "a = u @ x" "x @ c # b = p @ v"
    by (auto simp: append_eq_append_conv2)
  then show ?thesis
  proof cases
    case 1
    with assms(2,3) have "\<exists>y. x = c # y" by (cases x; cases p) auto
    then obtain y where "x = c # y" by blast
    with 1 have "b = y @ p @ v" by simp
    then show ?thesis unfolding includesStr_iff by blast
  next
    case 2
    then consider y where "x = p @ y" | y where "p = x @ y" "c # b = y @ v"
      by (auto simp: append_eq_append_conv2)
    then show ?thesis
    proof cases
      case 1
      with 2 show ?thesis by (auto simp: includesStr_iff)
    next
      case 2
      with assms(2) have "y = []" by (cases y) auto
      with 2 \<open>a = u @ x\<close> have "a = u @ p @ []" by simp
      then show ?thesis unfolding includesStr_iff by blast
    qed
  qed
qed

lemma unwrapped_ESC: "unwrapped s \<Longrightarrow> unwrapped (s @ [ESC])"
  using includesStr_snoc [of s ESC DCS_INTRODUCER] includesStr_snoc [of s ESC DCS_TERMINATOR]
  by (auto simp: unwrapped_def DCS_INTRODUCER_def DCS_TERMINATOR_def ESC_def BACKSLASH_def
      dest: arg_cong [of _ _ last])

lemma strip_unwrapped: "unwrapped s \<Longrightarrow> stripDcsWrapper s = s"
  by (simp add: stripDcsWrapper_def unwrapped_def)

lemma remove_all_none: "\<not> includesStr s p \<Longrightarrow> p \<noteq> [] \<Longrightarrow> remove_all 0 p s = s"
proof (induction s)
  case Nil
  then show ?case by simp
next
  case (Cons c s)
  from Cons.prems(1) have "\<not> startsWith (c # s) p" "\<not> includesStr s p"
    by (auto simp: includesStr_def split: if_splits)
  with Cons show ?case by simp
qed

lemma remove_all_skip: "length q = k \<Longrightarrow> remove_all k p (q @ s) = remove_all 0 p s"
  by (induction q arbitrary: k) auto

lemma remove_all_head: "p \<noteq> [] \<Longrightarrow> remove_all 0 p (p @ s) = remove_all 0 p s"
proof -
  assume "p \<noteq> []"
  then obtain c q where p: "p = c # q" by (cases p) auto
  have "startsWith (c # q @ s) (c # q)" using startsWith_append [of "c # q" s] by simp
  then show ?thesis unfolding p using remove_all_skip [of q "length q" "c # q" s] by simp
qed

lemma strip_intro: "\<not> includesStr s DCS_INTRODUCER \<Longrightarrow> stripDcsWrapper (DCS_INTRODUCER @ s) = stripDcsWrapper s"
proof -
  assume s: "\<not> includesStr s DCS_INTRODUCER"
  have ne: "DCS_INTRODUCER \<noteq> []" by (simp add: DCS_INTRODUCER_def)
  have "DCS_INTRODUCER @ s = [] @ DCS_INTRODUCER @ s" by simp
  then have "includesStr (DCS_INTRODUCER @ s) DCS_INTRODUCER" unfolding includesStr_iff by blast
  then show ?thesis
    using s by (simp add: stripDcsWrapper_def remove_all_head [OF ne] remove_all_none [OF _ ne] Let_def)
qed

lemma unwrapped_TERM_no_intro: "unwrapped s \<Longrightarrow> \<not> includesStr (s @ DCS_TERMINATOR) DCS_INTRODUCER"
proof
  assume s: "unwrapped s" and i: "includesStr (s @ DCS_TERMINATOR) DCS_INTRODUCER"
  have "includesStr ((s @ [ESC]) @ [BACKSLASH]) DCS_INTRODUCER" using i by (simp add: DCS_TERMINATOR_def)
  then have "\<exists>u. (s @ [ESC]) @ [BACKSLASH] = u @ DCS_INTRODUCER"
    using includesStr_snoc [of "s @ [ESC]" BACKSLASH DCS_INTRODUCER] unwrapped_ESC [OF s]
    by (auto simp: unwrapped_def)
  then show False
    by (auto simp: DCS_INTRODUCER_def BACKSLASH_def dest: arg_cong [of _ _ last])
qed

lemma remove_all_tail:
  "\<not> includesStr s DCS_TERMINATOR \<Longrightarrow> remove_all 0 DCS_TERMINATOR (s @ DCS_TERMINATOR) = s"
proof (induction s)
  case Nil
  have "remove_all 0 DCS_TERMINATOR (DCS_TERMINATOR @ []) = remove_all 0 DCS_TERMINATOR []"
    by (rule remove_all_head) (simp add: DCS_TERMINATOR_def)
  then show ?case by simp
next
  case (Cons c s)
  from Cons.prems have n: "\<not> startsWith (c # s) DCS_TERMINATOR" "\<not> includesStr s DCS_TERMINATOR"
    by (auto simp: includesStr_def split: if_splits)
  have "\<not> startsWith (c # s @ DCS_TERMINATOR) DCS_TERMINATOR"
    using n(1) by (cases s) (auto simp: startsWith_iff DCS_TERMINATOR_def ESC_def BACKSLASH_def)
  with Cons.IH [OF n(2)] show ?case by simp
qed

lemma strip_term: "unwrapped s \<Longrightarrow> stripDcsWrapper (s @ DCS_TERMINATOR) = s"
proof -
  assume s: "unwrapped s"
  have "s @ DCS_TERMINATOR = s @ DCS_TERMINATOR @ []" by simp
  then have "includesStr (s @ DCS_TERMINATOR) DCS_TERMINATOR" unfolding includesStr_iff by blast
  with s unwrapped_TERM_no_intro [OF s] show ?thesis
    by (simp add: stripDcsWrapper_def remove_all_tail unwrapped_def)
qed

lemma splitOn_last: "\<exists>a. s = a @ last (splitOn c s)"
proof (induction s)
  case (Cons x s)
  then obtain a where a: "s = a @ last (splitOn c s)" by blast
  obtain q qs where q: "splitOn c s = q # qs" by (cases "splitOn c s") auto
  show ?case
  proof (cases "x = c \<or> qs \<noteq> []")
    case True
    with q have "last (splitOn c (x # s)) = last (splitOn c s)" by auto
    with a have "x # s = (x # a) @ last (splitOn c (x # s))" by simp
    then show ?thesis by blast
  next
    case False
    with q join_split [of c s] have "x # s = [] @ last (splitOn c (x # s))" by simp
    then show ?thesis by blast
  qed
qed simp

text \<open>The parser past the introducer: any chunks of an unwrapped text, the terminator at its end.\<close>

lemma feed_loop_buffer:
  "feed_loop s op = (ns, p) \<Longrightarrow> NL \<notin> set (buffer p) \<and> (\<exists>a. s = a @ buffer p)"
proof -
  assume f: "feed_loop s op = (ns, p)"
  have "\<exists>a. s = a @ last (splitOn NL s)" by (rule splitOn_last)
  with f splitOn_no_sep [OF last_in_set [OF splitOn_ne [of NL s]]] show ?thesis
    by (auto simp: feed_loop_lines Let_def split: prod.splits)
qed

lemma feed_loop_rest: "NL \<notin> set s \<Longrightarrow> feed_loop s op = ([], \<lparr>buffer = s, openReply = op\<rparr>)"
  by (simp add: feed_loop_lines splitOn_id)

lemma feeds_unwrapped:
  assumes "buffer p @ concat cs = r @ t" and "unwrapped r" and "NL \<notin> set (buffer p)"
    and "t = [] \<or> t = DCS_TERMINATOR \<and> concat cs \<noteq> []"
  shows "feeds p cs = feed_loop r (openReply p)"
  using assms
proof (induction cs arbitrary: p r t)
  case Nil
  then show ?case by (simp add: feed_loop_rest)
next
  case (Cons c cs)
  let ?x = "buffer p @ c"
  have x: "?x @ concat cs = r @ t" using Cons.prems(1) by simp
  show ?case
  proof (cases "concat cs = [] \<and> t \<noteq> []")
    case True
    with x Cons.prems have s: "stripDcsWrapper ?x = r" by (simp add: strip_term)
    obtain o1 p1 where f: "feed_loop r (openReply p) = (o1, p1)" by (metis prod.exhaust)
    from feed_loop_buffer [OF f] have b: "NL \<notin> set (buffer p1)" "unwrapped (buffer p1)"
      using Cons.prems(2) unwrapped_suffix by auto
    have "feeds p1 cs = feed_loop (buffer p1) (openReply p1)"
      by (rule Cons.IH [of p1 "buffer p1" "[]"]) (use True b in simp_all)
    with s f b show ?thesis by (simp add: feed_def feed_loop_rest)
  next
    case False
    obtain y z where yz: "r @ z = ?x @ y" "unwrapped ?x" "concat cs = y @ drop (length z) t" "unwrapped (r @ z)"
      and z: "z = [] \<or> z = [ESC] \<and> y = [] \<and> t = DCS_TERMINATOR"
    proof (cases "length ?x \<le> length r")
      case True
      with x obtain y where "r = ?x @ y" "concat cs = y @ t"
        by (metis append_eq_append_conv_if append_take_drop_id)
      with Cons.prems(2) unwrapped_prefix [of ?x y] that [of "[]" y] show ?thesis by auto
    next
      case gt: False
      define w where "w = drop (length r) ?x"
      from x gt have "r = take (length r) ?x" "t = w @ concat cs"
        using append_eq_append_conv_if [of r t ?x "concat cs"] by (simp_all add: w_def)
      with gt have w: "?x = r @ w" "w @ concat cs = t" "w \<noteq> []"
        by (metis w_def append_take_drop_id)
          (use gt \<open>t = w @ concat cs\<close> in \<open>auto simp add: w_def not_le simp del: drop_append\<close>)
      with False Cons.prems(4) have "t = DCS_TERMINATOR" "concat cs \<noteq> []" by auto
      with w have "w = [ESC]" "concat cs = [BACKSLASH]"
        by (auto simp: DCS_TERMINATOR_def append_eq_Cons_conv)
      with w \<open>t = DCS_TERMINATOR\<close> unwrapped_ESC [OF Cons.prems(2)] that [of "[ESC]" "[]"] show ?thesis
        by (simp add: DCS_TERMINATOR_def)
    qed
    obtain o1 p1 where f: "feed_loop ?x (openReply p) = (o1, p1)" by (metis prod.exhaust)
    note b = feed_loop_buffer [OF f]
    have fx: "feed p c = (o1, p1)" using f strip_unwrapped [OF yz(2)] by (simp add: feed_def)
    from z show ?thesis
    proof
      assume z: "z = []"
      from b yz(4) z yz(1) have "unwrapped (buffer p1 @ y)" using unwrapped_suffix by (metis append.assoc append_Nil2)
      moreover have "t = [] \<or> t = DCS_TERMINATOR \<and> concat cs \<noteq> []"
        using Cons.prems(4) yz(3) z by (auto simp: DCS_TERMINATOR_def)
      ultimately have "feeds p1 cs = feed_loop (buffer p1 @ y) (openReply p1)"
        using b yz(3) z by (intro Cons.IH [of p1 _ t]) simp_all
      with fx f yz(1) z feed_loop_append [of ?x y "openReply p"] show ?thesis by simp
    next
      assume z: "z = [ESC] \<and> y = [] \<and> t = DCS_TERMINATOR"
      obtain o2 p2 where g: "feed_loop r (openReply p) = (o2, p2)" by (metis prod.exhaust)
      note g' = feed_loop_buffer [OF g]
      have "NL \<notin> set (buffer p2 @ [ESC])" using g' by (simp add: NL_def ESC_def)
      with f g yz(1) z feed_loop_append [of r "[ESC]" "openReply p"]
      have o: "o1 = o2" "buffer p1 = buffer p2 @ [ESC]" "openReply p1 = openReply p2"
        by (auto simp: feed_loop_rest)
      have cl: "unwrapped (buffer p2)" using g' Cons.prems(2) unwrapped_suffix by auto
      have "feeds p1 cs = feed_loop (buffer p2) (openReply p1)"
        using b yz(3) z o cl by (intro Cons.IH [of p1 _ DCS_TERMINATOR]) (simp_all add: DCS_TERMINATOR_def)
      with fx g o g' show ?thesis by (simp add: feed_loop_rest)
    qed
  qed
qed

text \<open>The introducer, in one chunk or in several.\<close>

lemma feeds_introduced:
  assumes "buffer p @ concat cs = DCS_INTRODUCER @ r @ t" and "length (buffer p) < length DCS_INTRODUCER"
    and "unwrapped r" and "t \<in> {[], DCS_TERMINATOR}"
  shows "feeds p cs = feed_loop r (openReply p)"
  using assms
proof (induction cs arbitrary: p)
  case Nil
  then have "length (buffer p) = length (DCS_INTRODUCER @ r @ t)" by simp
  with Nil show ?case by simp
next
  case (Cons c cs)
  let ?x = "buffer p @ c"
  have x: "?x @ concat cs = DCS_INTRODUCER @ r @ t" using Cons.prems(1) by simp
  show ?case
  proof (cases "length ?x < length DCS_INTRODUCER")
    case True
    with x have t: "?x = take (length ?x) DCS_INTRODUCER"
      by (metis append_eq_append_conv_if less_imp_le_nat take_all_iff)
    have "NL \<notin> set ?x"
      using in_set_takeD [of NL "length ?x" DCS_INTRODUCER] t by (auto simp: DCS_INTRODUCER_def NL_def ESC_def)
    have "unwrapped ?x"
    proof -
      have "\<not> includesStr ?x DCS_INTRODUCER"
        using True by (auto simp: includesStr_iff dest!: arg_cong [of _ _ length])
      moreover have "BACKSLASH \<notin> set ?x"
        using in_set_takeD [of BACKSLASH "length ?x" DCS_INTRODUCER] t
        by (auto simp: DCS_INTRODUCER_def BACKSLASH_def ESC_def)
      then have "\<not> includesStr ?x DCS_TERMINATOR"
      proof (rule contrapos_nn)
        assume "includesStr ?x DCS_TERMINATOR"
        then obtain u v where e: "?x = u @ DCS_TERMINATOR @ v" by (auto simp only: includesStr_iff)
        show "BACKSLASH \<in> set ?x" unfolding e by (simp add: DCS_TERMINATOR_def)
      qed
      ultimately show ?thesis by (simp add: unwrapped_def)
    qed
    with \<open>NL \<notin> set ?x\<close> have "feed p c = ([], \<lparr>buffer = ?x, openReply = openReply p\<rparr>)"
      by (simp add: feed_def strip_unwrapped feed_loop_rest)
    with Cons.IH [of "\<lparr>buffer = ?x, openReply = openReply p\<rparr>"] Cons.prems(3,4) x True show ?thesis
      by simp
  next
    case False
    define y where "y = drop (length DCS_INTRODUCER) ?x"
    have "DCS_INTRODUCER = take (length DCS_INTRODUCER) ?x" and y2: "y @ concat cs = r @ t"
      using x False append_eq_append_conv_if [of DCS_INTRODUCER "r @ t" ?x "concat cs"]
      by (simp_all add: y_def not_less del: append_assoc)
    then have y: "?x = DCS_INTRODUCER @ y" "y @ concat cs = r @ t"
      by (metis y_def append_take_drop_id) (rule y2)
    have "\<not> includesStr y DCS_INTRODUCER"
    proof
      assume "includesStr y DCS_INTRODUCER"
      then have "includesStr ([] @ y @ concat cs) DCS_INTRODUCER" by (rule includesStr_part)
      then have "includesStr (r @ t) DCS_INTRODUCER" using y(2) by simp
      with Cons.prems(3,4) unwrapped_TERM_no_intro [of r] show False by (auto simp: unwrapped_def)
    qed
    then have "feed p c = feed \<lparr>buffer = [], openReply = openReply p\<rparr> y"
      using y(1) by (simp add: feed_def strip_intro)
    then have "feeds p (c # cs) = feeds \<lparr>buffer = [], openReply = openReply p\<rparr> (y # cs)" by simp
    also have "\<dots> = feed_loop r (openReply p)"
      using feeds_unwrapped [of "\<lparr>buffer = [], openReply = openReply p\<rparr>" "y # cs" r t] y(2) Cons.prems(3,4)
      by (auto simp: DCS_TERMINATOR_def)
    finally show ?thesis .
  qed
qed

lemma feeds_wrapped:
  assumes "concat cs = a @ s @ t" and "unwrapped s" and "a \<in> {[], DCS_INTRODUCER}" and "t \<in> {[], DCS_TERMINATOR}"
  shows "feeds new_parser cs =
     (let ls = splitOn NL s; (ns, op) = run_lines None (map chomp (butlast ls))
      in (ns, \<lparr>buffer = last ls, openReply = op\<rparr>))"
proof -
  have "feeds new_parser cs = feed_loop s None"
  proof (cases "a = []")
    case True
    with assms feeds_unwrapped [of new_parser cs s t] show ?thesis
      by (auto simp: new_parser_def DCS_TERMINATOR_def)
  next
    case False
    with assms feeds_introduced [of new_parser cs s t] show ?thesis
      by (auto simp: new_parser_def DCS_INTRODUCER_def)
  qed
  then show ?thesis by (simp add: feed_loop_lines)
qed

section \<open>The wire, as events\<close>

text \<open>
  What tmux sends, written as a printer: reply blocks (with the trailing fields of
  \<open>%begin\<close> and of the closing line, the body and the error flag), pane output in both forms
  with every byte spelled as tmux may spell it, subscription pushes with their context
  fields, and the one-line notifications.
\<close>

datatype event =
    Block (bTime: string) (bNum: nat) (bFlags: string) (bErr: bool) (bEnd: string) (bBody: "string list")
  | OutEv string "(byte \<times> spelling) list"
  | ExtOutEv string string "(byte \<times> spelling) list"
  | SubEv string string string
  | Note TmuxNotification

definition tagged :: "string \<Rightarrow> string \<Rightarrow> string" where
  "tagged tag rest = tag @ CHR '' '' # rest"

definition two :: "string \<Rightarrow> string \<Rightarrow> string" where
  "two a b = a @ CHR '' '' # b"

definition layout_tail :: "WindowLayout option \<Rightarrow> string option \<Rightarrow> string" where
  "layout_tail v f =
     (case f of
        None \<Rightarrow> (case v of None \<Rightarrow> [] | Some l \<Rightarrow> CHR '' '' # showLayout l)
      | Some f \<Rightarrow> CHR '' '' # two (case v of None \<Rightarrow> [] | Some l \<Rightarrow> showLayout l) f)"

fun note_line :: "TmuxNotification \<Rightarrow> string" where
  "note_line (WindowAdd w) = tagged ''%window-add'' w"
| "note_line (UnlinkedWindowAdd w) = tagged ''%unlinked-window-add'' w"
| "note_line (WindowClose w) = tagged ''%window-close'' w"
| "note_line (WindowRenamed w n) = tagged ''%window-renamed'' (two w n)"
| "note_line (WindowPaneChanged w p) = tagged ''%window-pane-changed'' (two w p)"
| "note_line (LayoutChange w l v f) = tagged ''%layout-change'' (two w (showLayout l @ layout_tail v f))"
| "note_line (SessionChanged s n) = tagged ''%session-changed'' (two s n)"
| "note_line (SessionRenamed n) = tagged ''%session-renamed'' n"
| "note_line SessionsChanged = ''%sessions-changed''"
| "note_line (SessionWindowChanged s w) = tagged ''%session-window-changed'' (two s w)"
| "note_line (ClientSessionChanged c s n) = tagged ''%client-session-changed'' (two c (two s n))"
| "note_line (ClientDetached c) = tagged ''%client-detached'' c"
| "note_line (PaneModeChanged p) = tagged ''%pane-mode-changed'' p"
| "note_line (Exit None) = ''%exit''"
| "note_line (Exit (Some r)) = tagged ''%exit'' r"
| "note_line (Continue p) = tagged ''%continue'' p"
| "note_line (Pause p) = tagged ''%pause'' p"
| "note_line (Unknown l) = l"
| "note_line n = []"

fun event_lines :: "event \<Rightarrow> string list" where
  "event_lines (Block ts n fl err e body) =
     tagged ''%begin'' (two ts (two (showNat n) fl)) # body
     @ [tagged (if err then ''%error'' else ''%end'') e]"
| "event_lines (OutEv p us) = [tagged ''%output'' (two p (concat (map spell us)))]"
| "event_lines (ExtOutEv p meta us) =
     [tagged ''%extended-output'' (two p (meta @ '' : '' @ concat (map spell us)))]"
| "event_lines (SubEv name ctx v) =
     [tagged ''%subscription-changed'' (two name (ctx @ '' : '' @ v))]"
| "event_lines (Note n) = [note_line n]"

fun event_note :: "event \<Rightarrow> TmuxNotification" where
  "event_note (Block ts n fl err e body) = Reply (rat_of_nat n) err body"
| "event_note (OutEv p us) = Output p (map fst us)"
| "event_note (ExtOutEv p meta us) = Output p (map fst us)"
| "event_note (SubEv name ctx v) = SubscriptionChanged name v"
| "event_note (Note n) = n"

definition known_tags :: "string list" where
  "known_tags = [''%begin'', ''%output'', ''%extended-output'', ''%window-add'',
     ''%unlinked-window-add'', ''%window-close'', ''%unlinked-window-close'', ''%window-renamed'',
     ''%window-pane-changed'', ''%layout-change'', ''%session-changed'', ''%session-renamed'',
     ''%sessions-changed'', ''%session-window-changed'', ''%client-session-changed'',
     ''%client-detached'', ''%pane-mode-changed'', ''%exit'', ''%continue'', ''%pause'',
     ''%subscription-changed'']"

definition token :: "string \<Rightarrow> bool" where
  "token s \<longleftrightarrow> CHR '' '' \<notin> set s"

fun note_ok :: "TmuxNotification \<Rightarrow> bool" where
  "note_ok (WindowAdd w) = token w"
| "note_ok (UnlinkedWindowAdd w) = token w"
| "note_ok (WindowClose w) = token w"
| "note_ok (WindowRenamed w n) = token w"
| "note_ok (WindowPaneChanged w p) = (token w \<and> token p)"
| "note_ok (LayoutChange w l v f) =
     (token w \<and> layout_ok l \<and> token (checksum l) \<and>
      (case v of None \<Rightarrow> True | Some l' \<Rightarrow> layout_ok l' \<and> token (checksum l')))"
| "note_ok (SessionChanged s n) = token s"
| "note_ok (SessionRenamed n) = True"
| "note_ok SessionsChanged = True"
| "note_ok (SessionWindowChanged s w) = (token s \<and> token w)"
| "note_ok (ClientSessionChanged c s n) = (token c \<and> token s)"
| "note_ok (ClientDetached c) = token c"
| "note_ok (PaneModeChanged p) = token p"
| "note_ok (Exit r) = (r \<noteq> Some [])"
| "note_ok (Continue p) = token p"
| "note_ok (Pause p) = token p"
| "note_ok (Unknown l) = (startsWith l ''%'' \<and> firstToken l \<notin> set known_tags)"
| "note_ok n = False"

text \<open>Fields that the first \<open> : \<close> of the line follows.\<close>

definition no_delim :: "string \<Rightarrow> bool" where
  "no_delim s \<longleftrightarrow> indexOf (s @ '' : '') '' : '' = Some (length s)"

fun event_ok :: "event \<Rightarrow> bool" where
  "event_ok (Block ts n fl err e body) =
     (token ts \<and> n < 2 ^ 53 \<and> (\<forall>l\<in>set body. \<not> is_close_line l \<and> \<not> is_exit_line l))"
| "event_ok (OutEv p us) = (token p \<and> list_all spelling_ok us)"
| "event_ok (ExtOutEv p meta us) = (token p \<and> no_delim meta \<and> list_all spelling_ok us)"
| "event_ok (SubEv name ctx v) = (token name \<and> no_delim (two name ctx))"
| "event_ok (Note n) = note_ok n"

text \<open>
  A line that survives framing: it holds no line feed and neither sequence of the wrapper
  (other escape sequences are allowed). Then the bytes on the wire.
\<close>

definition line_ok :: "string \<Rightarrow> bool" where
  "line_ok l \<longleftrightarrow> NL \<notin> set l \<and> unwrapped l"

definition wire :: "event list \<Rightarrow> string" where
  "wire es = concat (map (\<lambda>l. l @ [CR, NL]) (concat (map event_lines es)))"

definition wire_ok :: "event list \<Rightarrow> bool" where
  "wire_ok es \<longleftrightarrow> (\<forall>e\<in>set es. event_ok e \<and> (\<forall>l\<in>set (event_lines e). line_ok l))"

subsection \<open>Each line is read as what was written\<close>

lemma firstToken_token [simp]: "token s \<Longrightarrow> firstToken s = s"
  by (simp add: firstToken_def token_def)

lemma splitFirst_two [simp]: "token a \<Longrightarrow> splitFirst (two a b) = (a, b)"
  by (simp add: splitFirst_def token_def two_def)

lemma firstToken_two [simp]: "token a \<Longrightarrow> firstToken (two a b) = a"
  by (simp add: firstToken_def token_def two_def)

lemma splitOn_two [simp]: "token a \<Longrightarrow> splitOn (CHR '' '') (two a b) = a # splitOn (CHR '' '') b"
  by (simp add: token_def two_def splitOn_append)

lemma splitOn_token [simp]: "token a \<Longrightarrow> splitOn (CHR '' '') a = [a]"
  by (simp add: token_def splitOn_id)

lemma arr_get_simps [simp]:
  "arr_get (x # xs) 0 = Some x" "arr_get (x # xs) (Suc n) = arr_get xs n" "arr_get [] n = None"
  by (simp_all add: arr_get_def)

lemma arr_get_numeral [simp]: "arr_get (x # xs) (numeral k) = arr_get xs (pred_numeral k)"
  by (simp add: numeral_eq_Suc)

lemma arr_get_one [simp]: "arr_get (x # xs) 1 = arr_get xs 0"
  by (simp add: arr_get_def)

lemma or_empty_simps [simp]: "or_empty (Some s) = s" "or_empty None = []"
  by (simp_all add: or_empty_def)

lemma handleOutside_tagged:
  assumes "token tag" "startsWith tag ''%''"
  shows "handleOutside (tagged tag rest) =
     (if tag = ''%begin'' then ([], Some (openBegin rest))
      else ([notification (tagged tag rest) tag rest], None))"
  using assms splitFirst_two [OF assms(1), of rest]
  by (cases tag) (auto simp: handleOutside_def tagged_def two_def)

lemma indexOf_append: "indexOf a p = Some i \<Longrightarrow> p \<noteq> [] \<Longrightarrow> indexOf (a @ x) p = Some i"
proof (induction a arbitrary: i)
  case Nil
  then show ?case by simp
next
  case (Cons c a)
  show ?case
  proof (cases "startsWith (c # a) p")
    case True
    then have "startsWith ((c # a) @ x) p" by (auto simp only: startsWith_iff append_assoc)
    with True Cons.prems show ?thesis by simp
  next
    case False
    with Cons.prems obtain j where j: "indexOf a p = Some j" "i = Suc j" by auto
    from indexOf_SomeD [OF j(1)] obtain r where "drop j a = p @ r" by (auto simp: startsWith_iff)
    then have "length p \<le> length a"
      by (metis diff_le_self dual_order.trans le_add1 length_append length_drop)
    then have "take (length p) ((c # a) @ x) = take (length p) (c # a)"
      by (subst take_append) simp
    with False have "\<not> startsWith (c # a @ x) p" by (simp only: startsWith_def append_Cons not_False_eq_True)
    with j Cons show ?thesis by simp
  qed
qed

lemma no_delim_indexOf: "no_delim s \<Longrightarrow> indexOf (s @ '' : '' @ x) '' : '' = Some (length s)"
  using indexOf_append [of "s @ '' : ''" "'' : ''" _ x] by (simp add: no_delim_def)

lemma trim_digits: "trim (showNat n) = showNat n"
proof -
  have d: "\<not> is_ws c" if "is_digit c" for c using that by (auto simp: is_digit_def is_ws_def)
  have "is_digit (hd (showNat n))" and "is_digit (last (showNat n))"
    using showNat_digits [OF hd_in_set] showNat_digits [OF last_in_set] by simp_all
  with d show ?thesis by (intro trim_id) simp
qed

lemma showNat_prefix:
  "\<not> is_digit c \<Longrightarrow> c \<in> set p \<Longrightarrow> \<not> startsWith (showNat n) p"
  using showNat_digits by (fastforce simp: startsWith_iff dest: arg_cong [of _ _ set])

lemma js_Number_showNat: "n < 2 ^ 53 \<Longrightarrow> js_Number (showNat n) = Some (rat_of_nat n)"
proof -
  assume n: "n < 2 ^ 53"
  have "read_decimal (showNat n) = Some (rat_of_nat n)"
    by (simp add: read_decimal_def Let_def)
  moreover have "\<not> startsWith (showNat n) p" if "p \<in> {''0x'', ''0X'', ''0o'', ''0O'', ''0b'', ''0B'', ''-'', ''+''}" for p
  proof -
    from that have "\<not> is_digit (last p) \<and> last p \<in> set p" by (auto simp: is_digit_def)
    then show ?thesis by (intro showNat_prefix [of "last p"]) simp_all
  qed
  moreover have "rat_of_nat n < 2 ^ 1024 - 2 ^ 970"
  proof -
    have "rat_of_nat n < rat_of_nat (2 ^ 53)" using n by (simp only: of_nat_less_iff)
    also have "\<dots> < 2 ^ 1024 - 2 ^ 970" by simp
    finally show ?thesis .
  qed
  ultimately show ?thesis by (simp add: js_Number_def trim_digits Let_def)
qed

lemma showNat_token [simp]: "token (showNat n)"
  using showNat_digits is_digit_not_punct by (auto simp: token_def)

lemma openBegin_two:
  "token ts \<Longrightarrow> n < 2 ^ 53 \<Longrightarrow> openBegin (two ts (two (showNat n) fl)) = \<lparr>num = rat_of_nat n, replyBody = []\<rparr>"
  by (simp add: openBegin_def js_Number_showNat)

lemma run_body:
  "\<forall>l\<in>set body. \<not> is_close_line l \<and> \<not> is_exit_line l \<Longrightarrow>
     run_lines (Some r) body = ([], Some (r\<lparr>replyBody := replyBody r @ body\<rparr>))"
  by (induction body arbitrary: r) (auto simp: handleLine_def)

lemma close_line:
  "handleLine (Some r) (tagged (if err then ''%error'' else ''%end'') e) =
     ([Reply (num r) err (replyBody r)], None)"
  by (simp add: handleLine_def is_close_line_def closeReply_def tagged_def)

lemma run_Block:
  "event_ok (Block ts n fl err e body) \<Longrightarrow>
     run_lines None (event_lines (Block ts n fl err e body)) = ([Reply (rat_of_nat n) err body], None)"
proof -
  assume ok: "event_ok (Block ts n fl err e body)"
  have "handleLine None (tagged ''%begin'' (two ts (two (showNat n) fl)))
      = ([], Some \<lparr>num = rat_of_nat n, replyBody = []\<rparr>)"
    using ok by (simp add: handleLine_def handleOutside_tagged token_def openBegin_two)
  with ok show ?thesis
    by (simp add: run_lines_append run_body close_line)
qed

lemma layout_chars:
  "node_ok t \<Longrightarrow> CHR '' '' \<notin> set (showCell t)"
proof (induction t)
  case (Leaf p w h x y)
  then show ?case
    using showNat_token by (auto simp: showGeometry_def token_def)
next
  case (Split d w h x y ts)
  then obtain c cs where ts: "ts = c # cs" by (cases ts) auto
  from Split have "CHR '' '' \<notin> set (showCell u)" if "u \<in> set ts" for u
    using that by auto
  then have "CHR '' '' \<notin> set (showTail cs)" "CHR '' '' \<notin> set (showCell c)"
    by (auto simp: ts showTail_def)
  then show ?case
    using showNat_token unfolding ts showCell_Split
    by (cases d) (auto simp: showGeometry_def token_def opener_def closer_def)
qed

lemma showLayout_token: "layout_ok l \<Longrightarrow> token (checksum l) \<Longrightarrow> token (showLayout l)"
  using layout_chars [of "root l"] by (auto simp: token_def layout_ok_def showLayout_def)

lemma showLayout_ne [simp]: "showLayout l \<noteq> []"
  by (simp add: showLayout_def)

lemma try_printed [simp]: "layout_ok l \<Longrightarrow> tryParseLayout (showLayout l) = Some l"
  by (simp add: tryParseLayout_def parse_printed)

lemma tryParse_Nil [simp]: "tryParseLayout [] = None"
  by (simp add: tryParseLayout_def parseLayout_def)

lemma token_Nil [simp]: "token []"
  by (simp add: token_def)

lemma parseLayoutChange_two:
  assumes "note_ok (LayoutChange w l v f)"
  shows "parseLayoutChange (two w (showLayout l @ layout_tail v f)) = LayoutChange w l v f"
proof -
  have fold: "showLayout l @ CHR '' '' # r = two (showLayout l) r" for r l by (simp add: two_def)
  have l: "token (showLayout l)" "layout_ok l" "token w"
    using assms showLayout_token by auto
  have v: "token (showLayout m) \<and> layout_ok m" if "v = Some m" for m
    using that assms showLayout_token by auto
  show ?thesis
  proof (cases f)
    case None
    with l v show ?thesis
      by (cases v) (simp_all add: parseLayoutChange_def layout_tail_def fold)
  next
    case (Some g)
    have "splitOn (CHR '' '') g \<noteq> []" by simp
    with Some l v show ?thesis
      by (cases v) (simp_all add: parseLayoutChange_def layout_tail_def fold numeral_eq_Suc)
  qed
qed

lemma handle_note:
  "token tag \<Longrightarrow> startsWith tag ''%'' \<Longrightarrow> tag \<noteq> ''%begin'' \<Longrightarrow>
     handleLine None (tagged tag rest) = ([notification (tagged tag rest) tag rest], None)"
  by (simp add: handleLine_def handleOutside_tagged)

lemma tag_token: "tag \<in> set known_tags \<Longrightarrow> token tag \<and> startsWith tag ''%''"
  by (auto simp: known_tags_def token_def)

lemma joinWith_split_space [simp]: "joinWith '' '' (splitOn (CHR '' '') s) = s"
  by (rule join_split)

lemma handle_unknown:
  assumes "note_ok (Unknown l)"
  shows "handleLine None l = ([Unknown l], None)"
proof -
  obtain tag rest where s: "splitFirst l = (tag, rest)" by (metis prod.exhaust)
  then have "firstToken l = tag"
    by (auto simp: splitFirst_def firstToken_def split: option.splits)
  with assms have "tag \<notin> set known_tags" and "startsWith l ''%''" by auto
  then show ?thesis
    using s by (simp add: handleLine_def handleOutside_def notification_def known_tags_def)
qed

lemma handle_Note: "note_ok n \<Longrightarrow> handleLine None (note_line n) = ([n], None)"
proof (induction n rule: note_line.induct)
  case (6 w l v f)
  then show ?case
    using parseLayoutChange_two [of w l v f]
    by (simp add: handle_note tag_token known_tags_def notification_def del: note_ok.simps)
next
  case 9
  show ?case by (simp add: handleLine_def handleOutside_def notification_def splitFirst_def)
next
  case 14
  show ?case by (simp add: handleLine_def handleOutside_def notification_def splitFirst_def)
next
  case (18 l)
  then show ?case by (simp add: handle_unknown del: note_ok.simps)
qed (simp_all add: handle_note tag_token known_tags_def notification_def numeral_eq_Suc)

lemma two_indexOf: "token a \<Longrightarrow> indexOf (two a b) '' '' = Some (length a)"
  by (simp add: two_def token_def)

lemma drop_two: "drop (Suc (length a)) (two a b) = b" "take (length a) (two a b) = a"
  by (simp_all add: two_def)

lemma two_append: "two a (b @ c) = two a b @ c"
  by (simp add: two_def)

lemma firstToken_two_append: "token a \<Longrightarrow> firstToken (two a b @ c) = a"
  by (simp add: two_append [symmetric])

lemma run_event: "event_ok e \<Longrightarrow> run_lines None (event_lines e) = ([event_note e], None)"
proof (cases e)
  case (Block ts n fl err e' body)
  assume "event_ok e"
  with Block run_Block show ?thesis by (metis event_note.simps(1))
next
  case (OutEv p us)
  assume "event_ok e"
  with OutEv show ?thesis
    by (simp add: handle_note tag_token known_tags_def notification_def parseOutput_def
        two_indexOf drop_two decode_spelled)
next
  case (ExtOutEv p meta us)
  assume "event_ok e"
  with ExtOutEv have "indexOf (meta @ '' : '' @ concat (map spell us)) '' : '' = Some (length meta)"
    by (intro no_delim_indexOf) simp
  with ExtOutEv \<open>event_ok e\<close> show ?thesis
    by (simp add: handle_note tag_token known_tags_def notification_def parseExtendedOutput_def
        two_indexOf drop_two decode_spelled)
next
  case (SubEv name ctx v)
  assume "event_ok e"
  with SubEv have "indexOf (two name ctx @ '' : '' @ v) '' : '' = Some (length (two name ctx))"
    by (intro no_delim_indexOf) simp
  with SubEv \<open>event_ok e\<close> show ?thesis
    by (simp add: handle_note tag_token known_tags_def notification_def parseSubscription_def
        two_append firstToken_two_append)
next
  case (Note n)
  assume "event_ok e"
  with Note show ?thesis by (simp add: handle_Note)
qed

lemma run_events:
  "\<forall>e\<in>set es. event_ok e \<Longrightarrow>
     run_lines None (concat (map event_lines es)) = (map event_note es, None)"
  by (induction es) (simp_all add: run_lines_append run_event)

subsection \<open>Framing\<close>

lemma chomp_CR [simp]: "chomp (l @ [CR]) = l"
  by (simp add: chomp_def endsWith_def)

lemma split_wire:
  "\<forall>l\<in>set ls. NL \<notin> set l \<Longrightarrow>
     splitOn NL (concat (map (\<lambda>l. l @ [CR, NL]) ls)) = map (\<lambda>l. l @ [CR]) ls @ [[]]"
proof (induction ls)
  case Nil
  then show ?case by simp
next
  case (Cons l ls)
  have "splitOn NL ((l @ [CR]) @ NL # concat (map (\<lambda>l. l @ [CR, NL]) ls))
      = (l @ [CR]) # splitOn NL (concat (map (\<lambda>l. l @ [CR, NL]) ls))"
    using Cons.prems by (intro splitOn_append) (simp add: NL_def CR_def)
  with Cons show ?case by simp
qed

lemma wire_lines:
  assumes "wire_ok es"
  shows "splitOn NL (wire es) = map (\<lambda>l. l @ [CR]) (concat (map event_lines es)) @ [[]]"
  using assms
  by (auto simp: wire_ok_def wire_def line_ok_def CR_def NL_def intro!: split_wire [unfolded CR_def NL_def])

lemma unwrapped_Nil: "unwrapped []"
  by (simp add: unwrapped_def includesStr_iff DCS_INTRODUCER_def DCS_TERMINATOR_def)

lemma unwrapped_line: "unwrapped a \<Longrightarrow> unwrapped b \<Longrightarrow> c \<in> {CR, NL} \<Longrightarrow> unwrapped (a @ c # b)"
  using includesStr_split [of a c b DCS_INTRODUCER] includesStr_split [of a c b DCS_TERMINATOR]
  by (auto simp: unwrapped_def DCS_INTRODUCER_def DCS_TERMINATOR_def CR_def NL_def ESC_def BACKSLASH_def)

lemma unwrapped_wire:
  assumes "wire_ok es"
  shows "unwrapped (wire es)"
proof -
  have "unwrapped (concat (map (\<lambda>l. l @ [CR, NL]) ls))" if "\<forall>l\<in>set ls. unwrapped l" for ls
    using that
  proof (induction ls)
    case (Cons l ls)
    then have "unwrapped ([] @ NL # concat (map (\<lambda>l. l @ [CR, NL]) ls))"
      by (intro unwrapped_line) (simp_all add: unwrapped_Nil)
    with Cons show ?case using unwrapped_line [of l "NL # concat (map (\<lambda>l. l @ [CR, NL]) ls)" CR] by simp
  qed (simp add: unwrapped_Nil)
  then show ?thesis using assms by (auto simp: wire_ok_def wire_def line_ok_def)
qed

lemma feed_wrapped_wire:
  assumes "wire_ok es" and "concat cs = a @ wire es @ t"
    and "a \<in> {[], DCS_INTRODUCER}" and "t \<in> {[], DCS_TERMINATOR}"
  shows "feeds new_parser cs = (map event_note es, new_parser)"
proof -
  have "map chomp (map (\<lambda>l. l @ [CR]) ls) = ls" for ls
    by (simp add: comp_def)
  moreover have "run_lines None (concat (map event_lines es)) = (map event_note es, None)"
    using assms(1) by (intro run_events) (simp add: wire_ok_def)
  ultimately show ?thesis
    using wire_lines [OF assms(1)] feeds_wrapped [OF assms(2) unwrapped_wire [OF assms(1)] assms(3,4)]
    by (simp add: new_parser_def del: map_map)
qed

lemma feed_wire:
  assumes "wire_ok es" and "concat cs = wire es"
  shows "feeds new_parser cs = (map event_note es, new_parser)"
  by (rule feed_wrapped_wire [of es cs "[]" "[]"]) (use assms in simp_all)

text \<open>
  Where the conditions are needed. A reply body may not hold the wrapper's terminator, which a
  captured pane can (it ends a hyperlink); nor a line that begins as a closing line, whatever
  its number.
\<close>

lemma terminator_in_body_is_lost:
  "fst (feed \<lparr>buffer = [], openReply = Some \<lparr>num = n, replyBody = []\<rparr>\<rparr>
       (''a'' @ DCS_TERMINATOR @ ''b'' @ [NL] @ ''%end 1 2 1'' @ [NL])) = [Reply n False [''ab'']]"
  by code_simp

lemma closing_line_in_body_cuts_the_reply:
  "fst (feed \<lparr>buffer = [], openReply = Some \<lparr>num = n, replyBody = []\<rparr>\<rparr>
       (''a'' @ [NL] @ ''%end of file'' @ [NL] @ ''b'' @ [NL] @ ''%end 1 2 1'' @ [NL]))
     = [Reply n False [''a''], Unknown ''%end 1 2 1'']"
  by code_simp

subsection \<open>Blocks and replies\<close>

definition is_reply :: "TmuxNotification \<Rightarrow> bool" where
  "is_reply n = (case n of Reply _ _ _ \<Rightarrow> True | _ \<Rightarrow> False)"

text \<open>How many blocks a sequence of lines opens.\<close>

fun opened :: "open_reply option \<Rightarrow> string list \<Rightarrow> nat" where
  "opened op [] = 0"
| "opened op (l # ls) =
     (let op' = snd (handleLine op l)
      in (if op = None \<and> op' \<noteq> None then 1 else 0) + opened op' ls)"

lemma notification_not_reply [simp]: "\<not> is_reply (notification line tag rest)"
  by (auto simp: notification_def is_reply_def parseOutput_def parseExtendedOutput_def
      parseLayoutChange_def parseSubscription_def Let_def split: option.splits prod.splits)

lemma handleOutside_no_reply: "filter is_reply (fst (handleOutside l)) = []"
  by (auto simp: handleOutside_def split: prod.splits)

lemma exit_line_outside:
  "is_exit_line l \<Longrightarrow> \<exists>r. handleOutside l = ([Exit r], None)"
proof -
  assume "is_exit_line l"
  then consider "l = ''%exit''" | r where "l = tagged ''%exit'' r"
    by (auto simp: is_exit_line_def startsWith_iff tagged_def)
  then show ?thesis
  proof cases
    case 1
    then show ?thesis by (simp add: handleOutside_def splitFirst_def notification_def)
  next
    case 2
    then show ?thesis
      by (simp add: handleOutside_tagged tag_token known_tags_def notification_def)
  qed
qed

lemma handle_balance:
  assumes "handleLine op l = (ns, op')"
  shows "length (filter is_reply ns) + (if op' = None then 0 else 1) =
    (if op = None \<and> op' \<noteq> None then 1 else 0) + (if op = None then 0 else 1)"
proof (cases op)
  case None
  with assms handleOutside_no_reply [of l] show ?thesis
    by (auto simp: handleLine_def)
next
  case (Some r)
  show ?thesis
  proof (cases "\<not> is_close_line l \<and> is_exit_line l")
    case True
    with exit_line_outside obtain q where "handleOutside l = ([Exit q], None)" by blast
    with True Some assms show ?thesis
      by (auto simp: handleLine_def forceCloseReply_def is_reply_def)
  next
    case False
    with Some assms show ?thesis
      by (auto simp: handleLine_def closeReply_def is_reply_def split: if_splits)
  qed
qed

lemma run_balance:
  "run_lines op ls = (ns, op') \<Longrightarrow>
     length (filter is_reply ns) + (if op' = None then 0 else 1) =
     opened op ls + (if op = None then 0 else 1)"
proof (induction ls arbitrary: op ns)
  case Nil
  then show ?case by simp
next
  case (Cons l ls)
  obtain n1 op1 where h: "handleLine op l = (n1, op1)" by (metis prod.exhaust)
  obtain n2 where r: "run_lines op1 ls = (n2, op')" "ns = n1 @ n2"
    using Cons.prems h by (auto split: prod.splits)
  from Cons.IH [OF r(1)] handle_balance [OF h] h r(2) show ?case by (simp split: if_splits)
qed

section \<open>Properties\<close>

text \<open>
  C5. Framing: let a stream hold neither sequence of the control-mode wrapper, except that the
  introducer may stand before it and the terminator after it. However the whole is cut into
  chunks, the two sequences included, the notifications and the final state are those of
  handling the stream's complete lines in order (each ended by a line feed, one carriage
  return before it dropped), and the buffer is the unfinished last line. Other escape
  characters are allowed.
\<close>

theorem parser_chunking:
  assumes "\<not> includesStr s DCS_INTRODUCER" and "\<not> includesStr s DCS_TERMINATOR"
    and "a \<in> {[], DCS_INTRODUCER}" and "t \<in> {[], DCS_TERMINATOR}"
    and "concat cs = a @ s @ t"
  shows "feeds new_parser cs =
     (let ls = splitOn NL s; (ns, op) = run_lines None (map chomp (butlast ls))
      in (ns, \<lparr>buffer = last ls, openReply = op\<rparr>))"
  by (rule feeds_wrapped [OF assms(5) _ assms(3,4)]) (use assms(1,2) in \<open>simp add: unwrapped_def\<close>)

theorem parser_chunking_witness:
  "feeds new_parser [ESC # ''P10'', ''00p%pau'', ''se %1'' @ [CR], NL # ''%exi'' @ [ESC], ''[0m'' @ [ESC], [BACKSLASH]] =
     ([Pause ''%1''], \<lparr>buffer = ''%exi'' @ [ESC] @ ''[0m'', openReply = None\<rparr>)"
proof -
  let ?s = "''%pause %1'' @ [CR, NL] @ ''%exi'' @ [ESC] @ ''[0m''"
  have "feeds new_parser [ESC # ''P10'', ''00p%pau'', ''se %1'' @ [CR], NL # ''%exi'' @ [ESC], ''[0m'' @ [ESC], [BACKSLASH]] =
     (let ls = splitOn NL ?s; (ns, op) = run_lines None (map chomp (butlast ls))
      in (ns, \<lparr>buffer = last ls, openReply = op\<rparr>))"
  proof (rule parser_chunking [where a = DCS_INTRODUCER and t = DCS_TERMINATOR])
    show "\<not> includesStr ?s DCS_INTRODUCER" "\<not> includesStr ?s DCS_TERMINATOR" by code_simp+
  qed (simp_all add: DCS_INTRODUCER_def DCS_TERMINATOR_def)
  moreover have "splitOn NL ?s = [''%pause %1'' @ [CR], ''%exi'' @ [ESC] @ ''[0m'']" by code_simp
  moreover have "handleLine None ''%pause %1'' = ([Pause ''%1''], None)" by code_simp
  moreover have "chomp (''%pause %1'' @ [CR]) = ''%pause %1''" by (rule chomp_CR)
  ultimately show ?thesis by simp
qed

text \<open>
  C4. The parser reads back what tmux writes. Take any sequence of reply blocks (with any
  trailing fields on the closing line, whose number is not compared), pane output in both
  forms with every byte spelled as tmux may, subscription pushes and notifications of all
  kinds, such that no line holds a line feed or one of the two wrapper sequences (other
  escape sequences are allowed) and no line of a reply body starts with %end, %error or
  %exit. The printed stream, with the wrapper's introducer before it or not and its
  terminator after it or not, cut into arbitrary chunks, gives exactly those notifications
  in order and leaves the parser as new.
\<close>

theorem parser_reads_wire:
  assumes "wire_ok es" and "a \<in> {[], DCS_INTRODUCER}" and "t \<in> {[], DCS_TERMINATOR}"
    and "concat cs = a @ wire es @ t"
  shows "feeds new_parser cs = (map event_note es, new_parser)"
  by (rule feed_wrapped_wire [OF assms(1,4,2,3)])

definition wire_sample :: "event list" where
  "wire_sample =
     [Block ''17'' 12 ''1'' False ''17 99 1'' [''@1 bash'', ESC # ''[1m%notes''],
      OutEv ''%3'' [(104, Raw), (27, Octal), (92, Doubled)],
      SubEv ''title'' ''$0 @1 1 %3'' ''a : b'', Note (WindowRenamed ''@1'' ''my shell''),
      Note (Exit None)]"

theorem parser_reads_wire_witness:
  "feeds new_parser [take 3 DCS_INTRODUCER, drop 3 DCS_INTRODUCER @ take 40 (wire wire_sample),
       drop 40 (wire wire_sample) @ [ESC], [BACKSLASH]] =
     ([Reply 12 False [''@1 bash'', ESC # ''[1m%notes''], Output ''%3'' [104, 27, 92],
       SubscriptionChanged ''title'' ''a : b'', WindowRenamed ''@1'' ''my shell'', Exit None], new_parser)"
proof -
  have "list_all (\<lambda>e. list_all line_ok (event_lines e)) wire_sample" by code_simp
  moreover have "list_all (\<lambda>l. \<not> is_close_line l \<and> \<not> is_exit_line l)
      [''@1 bash'', ESC # ''[1m%notes'']"
    by code_simp
  moreover have "token ''17''" by code_simp
  moreover have "list_all event_ok (tl wire_sample)" by code_simp
  ultimately have ok: "wire_ok wire_sample"
    by (simp add: wire_ok_def wire_sample_def list_all_iff)
  have "feeds new_parser [take 3 DCS_INTRODUCER, drop 3 DCS_INTRODUCER @ take 40 (wire wire_sample),
       drop 40 (wire wire_sample) @ [ESC], [BACKSLASH]] = (map event_note wire_sample, new_parser)"
    by (rule parser_reads_wire [OF ok, where a = DCS_INTRODUCER and t = DCS_TERMINATOR])
      (simp_all add: DCS_TERMINATOR_def)
  then show ?thesis by (simp add: wire_sample_def)
qed

text \<open>
  No command is left waiting: over any lines, whatever they hold, the number of replies
  delivered plus the block still open is the number of blocks opened, so every block is
  answered exactly once; and when \<open>%exit\<close> arrives, inside a block or not, no block is
  open afterwards and the exit itself is the last notification.
\<close>

theorem parser_answers_blocks:
  assumes "is_exit_line l"
  shows "(let (ns, op') = run_lines op ls in
      length (filter is_reply ns) + (if op' = None then 0 else 1) =
      opened op ls + (if op = None then 0 else 1))
    \<and> (let (ns, op') = run_lines op (ls @ [l]) in
        op' = None \<and> (\<exists>r. last ns = Exit r)
        \<and> length (filter is_reply ns) = opened op ls + (if op = None then 0 else 1))"
proof -
  obtain ns op1 where r: "run_lines op ls = (ns, op1)" by (metis prod.exhaust)
  obtain q where q: "handleOutside l = ([Exit q], None)" using exit_line_outside [OF assms] by blast
  have "\<not> is_close_line l"
    using assms by (auto simp: is_exit_line_def is_close_line_def startsWith_iff)
  with q assms have "handleLine op1 l = ((case op1 of None \<Rightarrow> [] | Some r \<Rightarrow> [forceCloseReply r]) @ [Exit q], None)"
    by (cases op1) (simp_all add: handleLine_def)
  with r run_balance [OF r] show ?thesis
    by (auto simp: run_lines_append is_reply_def forceCloseReply_def split: option.splits if_splits)
qed

theorem parser_answers_blocks_witness:
  "let (ns, op') = run_lines None [''%begin 1 7 0'', ''half a reply'', ''%exit''] in
     op' = None \<and> (\<exists>r. last ns = Exit r) \<and> length (filter is_reply ns) = 1"
proof -
  have e: "is_exit_line ''%exit''" by code_simp
  have o: "opened None [''%begin 1 7 0'', ''half a reply''] = 1"
    by (simp add: handleLine_def handleOutside_def splitFirst_def startsWith_def is_close_line_def is_exit_line_def)
  from parser_answers_blocks [OF e, of None "[''%begin 1 7 0'', ''half a reply'']"] o
  show ?thesis by (simp only: append.simps if_True split: prod.splits) simp
qed

end
