(* ===== verification/TmuxCommands.thy ===== *)
theory TmuxCommands
  imports Complex_Main TmuxCodec
begin

text \<open>
  The tmux command builders and the small policies beside them: \<open>src/shared/tmux/commands.ts\<close>,
  \<open>subscriptions.ts\<close>, \<open>version.ts\<close> and \<open>responsiveness.ts\<close>.

  Template literals are concatenations. A number is a rational; where the code floors it and
  bounds it below, so does the model. Optional fields are options, and an empty string is
  falsy as in the source.
\<close>

section \<open>Quoting\<close>

definition QUOTE :: char where "QUOTE = CHR 0x27"

fun escape_quotes :: "string \<Rightarrow> string" where
  "escape_quotes [] = []"
| "escape_quotes (c # s) =
     (if c = QUOTE then [QUOTE, BACKSLASH, QUOTE, QUOTE] else [c]) @ escape_quotes s"

definition shellQuote :: "string \<Rightarrow> string" where
  "shellQuote v = QUOTE # escape_quotes v @ [QUOTE]"

section \<open>Command builders\<close>

definition truthy :: "string option \<Rightarrow> bool" where
  "truthy o1 \<longleftrightarrow> o1 \<noteq> None \<and> o1 \<noteq> Some []"

definition opt_flag :: "string \<Rightarrow> string option \<Rightarrow> string" where
  "opt_flag flag o1 = (if truthy o1 then flag @ shellQuote (the o1) else [])"

definition newWindow :: "string option \<Rightarrow> string option \<Rightarrow> string" where
  "newWindow nm cwd = ''new-window'' @ opt_flag '' -n '' nm @ opt_flag '' -c '' cwd"

definition splitWindow :: "string \<Rightarrow> bool \<Rightarrow> string option \<Rightarrow> string" where
  "splitWindow paneId lr cwd =
     ''split-window '' @ (if lr then ''-h'' else ''-v'') @ '' -t '' @ paneId @ opt_flag '' -c '' cwd"

definition killPane :: "string \<Rightarrow> string" where "killPane p = ''kill-pane -t '' @ p"
definition killWindow :: "string \<Rightarrow> string" where "killWindow w = ''kill-window -t '' @ w"
definition selectWindow :: "string \<Rightarrow> string" where "selectWindow w = ''select-window -t '' @ w"
definition selectPane :: "string \<Rightarrow> string" where "selectPane p = ''select-pane -t '' @ p"

definition renameWindow :: "string \<Rightarrow> string \<Rightarrow> string" where
  "renameWindow w nm = ''rename-window -t '' @ w @ '' '' @ shellQuote nm"

text \<open>\<open>Math.max(lo, Math.floor(x))\<close>, printed.\<close>

definition atLeastInt :: "nat \<Rightarrow> rat \<Rightarrow> string" where
  "atLeastInt lo x = showNat (nat (max (int lo) \<lfloor>x\<rfloor>))"

definition opt_num :: "string \<Rightarrow> nat \<Rightarrow> rat option \<Rightarrow> string" where
  "opt_num flag lo o1 = (case o1 of None \<Rightarrow> [] | Some x \<Rightarrow> flag @ atLeastInt lo x)"

definition resizePane :: "string \<Rightarrow> rat option \<Rightarrow> rat option \<Rightarrow> string" where
  "resizePane p x y = ''resize-pane -t '' @ p @ opt_num '' -x '' 1 x @ opt_num '' -y '' 1 y"

definition is_name_start :: "char \<Rightarrow> bool" where
  "is_name_start c \<longleftrightarrow> (let n = (of_char c :: nat) in (65 \<le> n \<and> n \<le> 90) \<or> (97 \<le> n \<and> n \<le> 122) \<or> n = 95)"

text \<open>The pattern \<open>^[A-Za-z_][A-Za-z0-9_]*$\<close>.\<close>

definition env_name_ok :: "string \<Rightarrow> bool" where
  "env_name_ok s =
     (case s of [] \<Rightarrow> False
      | c # r \<Rightarrow> is_name_start c \<and> list_all (\<lambda>c. is_name_start c \<or> is_digit c) r)"

definition setSessionEnvironment :: "string \<Rightarrow> string \<Rightarrow> string \<Rightarrow> string + string" where
  "setSessionEnvironment sessionName nm v =
     (if \<not> env_name_ok nm then Inl (''invalid environment name: '' @ nm)
      else Inr (''set-environment -t '' @ shellQuote (CHR ''='' # sessionName) @ '' '' @ nm @ '' ''
                @ shellQuote v))"

definition refreshClientSize :: "rat \<Rightarrow> rat \<Rightarrow> string" where
  "refreshClientSize cols rows = ''refresh-client -C '' @ atLeastInt 1 cols @ ''x'' @ atLeastInt 1 rows"

definition PAUSE_AFTER_SECONDS :: rat where "PAUSE_AFTER_SECONDS = 3"

definition tmuxVersionQuery :: string where
  "tmuxVersionQuery = ''display-message -p '' @ [QUOTE] @ ''#{version}'' @ [QUOTE]"

definition refreshClientPauseAfter :: "rat \<Rightarrow> string" where
  "refreshClientPauseAfter seconds = ''refresh-client -f pause-after='' @ atLeastInt 1 seconds"

definition refreshClientContinue :: "string \<Rightarrow> string" where
  "refreshClientContinue p = ''refresh-client -A '' @ p @ '':continue''"

definition refreshClientSubscribe :: "string \<Rightarrow> string \<Rightarrow> string \<Rightarrow> string" where
  "refreshClientSubscribe nm what fmt = ''refresh-client -B '' @ shellQuote (nm @ '':'' @ what @ '':'' @ fmt)"

definition refreshClientUnsubscribe :: "string \<Rightarrow> string" where
  "refreshClientUnsubscribe nm = ''refresh-client -B '' @ shellQuote (nm @ ''::'')"

definition capturePane :: "string \<Rightarrow> rat option \<Rightarrow> string" where
  "capturePane p startLine = ''capture-pane -peJ -t '' @ p @ opt_num '' -S -'' 0 startLine"

definition listWindows :: string where
  "listWindows = ''list-windows -F '' @ [QUOTE] @ ''#{window_id} #{window_name} #{window_layout}'' @ [QUOTE]"

definition listPanes :: string where
  "listPanes = ''list-panes -s -F '' @ [QUOTE]
     @ ''#{window_id} #{pane_id} #{pane_width} #{pane_height} #{pane_active}'' @ [QUOTE]"

definition listPanesAltScreen :: "string \<Rightarrow> string" where
  "listPanesAltScreen w = ''list-panes -t '' @ w @ '' -F '' @ [QUOTE] @ ''#{pane_id} #{alternate_on}'' @ [QUOTE]"

subsection \<open>Pane input\<close>

text \<open>A value of type \<open>string | Uint8Array\<close>.\<close>

datatype key_input = InStr string | InBytes bytes

definition hex_lower :: "char \<Rightarrow> bool" where
  "hex_lower c \<longleftrightarrow> is_digit c \<or> (97 \<le> (of_char c :: nat) \<and> (of_char c :: nat) \<le> 102)"

text \<open>The pattern \<open>^([0-9a-f]{2})( [0-9a-f]{2})*$\<close>.\<close>

fun hex_pairs :: "string \<Rightarrow> bool" where
  "hex_pairs [a, b] = (hex_lower a \<and> hex_lower b)"
| "hex_pairs (a # b # c # s) = (hex_lower a \<and> hex_lower b \<and> c = CHR '' '' \<and> hex_pairs s)"
| "hex_pairs _ = False"

fun isHex :: "key_input \<Rightarrow> bool" where
  "isHex (InStr s) = hex_pairs s"
| "isHex (InBytes _) = False"

fun toHex :: "key_input \<Rightarrow> string" where
  "toHex (InStr s) = toHex_bytes (utf8Encode s)"
| "toHex (InBytes bs) = toHex_bytes bs"

fun input_string :: "key_input \<Rightarrow> string" where
  "input_string (InStr s) = s"
| "input_string (InBytes _) = []"

definition sendKeysHex :: "string \<Rightarrow> key_input \<Rightarrow> string" where
  "sendKeysHex p v = ''send-keys -t '' @ p @ '' -H '' @ (if isHex v then input_string v else toHex v)"

fun toInputBytes :: "key_input \<Rightarrow> bytes" where
  "toInputBytes (InBytes bs) = bs"
| "toInputBytes (InStr s) = (if hex_pairs s then fromHex s else utf8Encode s)"

definition buildSendKeysCommands :: "string \<Rightarrow> key_input \<Rightarrow> string list option" where
  "buildSendKeysCommands p v =
     map_option (map (\<lambda>chunk. sendKeysHex p (InBytes chunk)))
       (chunkBytesForSendKeys (toInputBytes v) MAX_SEND_KEYS_CHUNK_BYTES)"

section \<open>Subscriptions\<close>

definition TITLE_SUB_PREFIX :: string where "TITLE_SUB_PREFIX = ''cockpit-title-''"
definition MOUSE_SUB_PREFIX :: string where "MOUSE_SUB_PREFIX = ''cockpit-mouse-''"

definition titleSubscribeCmd :: "string \<Rightarrow> string" where
  "titleSubscribeCmd w = refreshClientSubscribe (TITLE_SUB_PREFIX @ w) w ''#{pane_title}''"

definition titleUnsubscribeCmd :: "string \<Rightarrow> string" where
  "titleUnsubscribeCmd w = refreshClientUnsubscribe (TITLE_SUB_PREFIX @ w)"

definition mouseSubscribeCmd :: "string \<Rightarrow> string" where
  "mouseSubscribeCmd p =
     refreshClientSubscribe (MOUSE_SUB_PREFIX @ p) p ''#{mouse_any_flag} #{mouse_sgr_flag}''"

definition mouseUnsubscribeCmd :: "string \<Rightarrow> string" where
  "mouseUnsubscribeCmd p = refreshClientUnsubscribe (MOUSE_SUB_PREFIX @ p)"

datatype ParsedSubscription = SubTitle string | SubMouse string

definition parseSubscriptionName :: "string \<Rightarrow> ParsedSubscription option" where
  "parseSubscriptionName nm =
     (if startsWith nm TITLE_SUB_PREFIX then Some (SubTitle (drop (length TITLE_SUB_PREFIX) nm))
      else if startsWith nm MOUSE_SUB_PREFIX then Some (SubMouse (drop (length MOUSE_SUB_PREFIX) nm))
      else None)"

record MouseFlags =
  anyFlag :: bool
  sgrFlag :: bool

definition parseMouseFlagsValue :: "string \<Rightarrow> MouseFlags" where
  "parseMouseFlagsValue v =
     (let t = words_ws (trim v)
      in \<lparr>anyFlag = (0 < length t \<and> t ! 0 = ''1''), sgrFlag = (1 < length t \<and> t ! 1 = ''1'')\<rparr>)"

section \<open>Versions\<close>

text \<open>
  \<open>/(\d+)\.(\d+)([a-z])?/.exec(raw)\<close>: the leftmost match, both digit runs as long as they go.
\<close>

definition match_here :: "string \<Rightarrow> (string \<times> string \<times> char option) option" where
  "match_here s =
     (let a = takeWhile is_digit s; r = dropWhile is_digit s;
          b = takeWhile is_digit (tl r); r2 = dropWhile is_digit (tl r)
      in if a \<noteq> [] \<and> startsWith r ''.'' \<and> b \<noteq> []
         then Some (a, b,
           case r2 of [] \<Rightarrow> None
           | c # _ \<Rightarrow> if 97 \<le> (of_char c :: nat) \<and> (of_char c :: nat) \<le> 122 then Some c else None)
         else None)"

fun version_match :: "string \<Rightarrow> (string \<times> string \<times> char option) option" where
  "version_match [] = None"
| "version_match (c # s) =
     (case match_here (c # s) of None \<Rightarrow> version_match s | Some m \<Rightarrow> Some m)"

definition letter_value :: "char option \<Rightarrow> nat" where
  "letter_value o1 = (case o1 of None \<Rightarrow> 0 | Some c \<Rightarrow> of_char c - 96)"

definition parseTmuxVersion :: "string \<Rightarrow> nat option" where
  "parseTmuxVersion raw =
     (case version_match raw of None \<Rightarrow> None
      | Some (a, b, l) \<Rightarrow> Some (readNat a * 10000 + readNat b * 100 + letter_value l))"

text \<open>A value of type \<open>string | number | null\<close>.\<close>

datatype version_arg = VStr string | VNum nat | VNull

definition tmuxAtLeast :: "version_arg \<Rightarrow> string \<Rightarrow> bool" where
  "tmuxAtLeast version target =
     (let v = (case version of VNum n \<Rightarrow> Some n | VNull \<Rightarrow> None | VStr s \<Rightarrow> parseTmuxVersion s)
      in case (v, parseTmuxVersion target) of (Some v, Some t) \<Rightarrow> t \<le> v | _ \<Rightarrow> False)"

section \<open>Responsiveness\<close>

definition UNRESPONSIVE_WARN_MS :: nat where "UNRESPONSIVE_WARN_MS = 5000"
definition UNRESPONSIVE_FAIL_MS :: nat where "UNRESPONSIVE_FAIL_MS = 15000"

datatype ResponsivenessAction = ANone | AWarn | AFail

definition classifyResponsiveness :: "nat option \<Rightarrow> ResponsivenessAction" where
  "classifyResponsiveness age =
     (case age of None \<Rightarrow> ANone
      | Some a \<Rightarrow> if UNRESPONSIVE_FAIL_MS \<le> a then AFail
                  else if UNRESPONSIVE_WARN_MS \<le> a then AWarn else ANone)"

section \<open>Pane input\<close>

lemma hex_char_lower: "d < 16 \<Longrightarrow> hex_lower (hex_char d)"
  by (auto simp: hex_lower_def hex_char_def is_digit_def)

lemma hex_pair_shape: "\<exists>a b. hex_pair x = [a, b] \<and> hex_lower a \<and> hex_lower b"
  using unat_byte [of x] by (auto simp: hex_pair_def intro!: hex_char_lower)

lemma hex_pairs_toHex: "bs \<noteq> [] \<Longrightarrow> hex_pairs (toHex_bytes bs)"
proof (induction bs)
  case Nil
  then show ?case by simp
next
  case (Cons b bs)
  obtain x y where xy: "hex_pair b = [x, y]" "hex_lower x" "hex_lower y" using hex_pair_shape by blast
  show ?case
  proof (cases bs)
    case Nil
    with xy show ?thesis by (simp add: toHex_bytes_def)
  next
    case (Cons c cs)
    with xy Cons.IH show ?thesis by (simp add: toHex_bytes_def)
  qed
qed

lemma length_toHex: "length (toHex_bytes bs) = 3 * length bs - 1"
proof (induction bs)
  case Nil
  then show ?case by (simp add: toHex_bytes_def)
next
  case (Cons b bs)
  then show ?case by (cases bs) (simp_all add: toHex_bytes_def hex_pair_def)
qed

lemma chunks_basic:
  assumes "0 < mx"
  shows "\<exists>cs. chunkBytesForSendKeys bs mx = Some cs \<and> concat cs = bs \<and>
    (\<forall>c\<in>set cs. c \<noteq> [] \<and> length c \<le> mx)"
  using chunk_loop_total [OF assms, of bs]
  by (cases "bs = [] \<or> length bs \<le> mx") (auto simp: chunkBytesForSendKeys_def)

fun input_bytes :: "key_input \<Rightarrow> bytes" where
  "input_bytes (InStr s) = utf8Encode s"
| "input_bytes (InBytes bs) = bs"

lemma toHex_input: "toHex v = toHex_bytes (input_bytes v)"
  by (cases v) simp_all

lemma toInputBytes_toHex: "toInputBytes (InStr (toHex v)) = input_bytes v"
  by (cases "input_bytes v = []")
    (simp_all add: toHex_input hex_pairs_toHex fromHex_toHex, simp add: toHex_bytes_def utf8Encode_def)

lemma send_operand:
  "drop (length (''send-keys -t '' @ p @ '' -H '')) (sendKeysHex p (InBytes c)) = toHex_bytes c"
  by (simp add: sendKeysHex_def)

section \<open>Versions, printed\<close>

definition letter_ok :: "char option \<Rightarrow> bool" where
  "letter_ok l = (case l of None \<Rightarrow> True
     | Some c \<Rightarrow> 97 \<le> (of_char c :: nat) \<and> (of_char c :: nat) \<le> 122)"

definition show_version :: "nat \<Rightarrow> nat \<Rightarrow> char option \<Rightarrow> string" where
  "show_version a b l = showNat a @ ''.'' @ showNat b @ (case l of None \<Rightarrow> [] | Some c \<Rightarrow> [c])"

lemma letter_not_digit: "letter_ok (Some c) \<Longrightarrow> \<not> is_digit c"
  by (auto simp: letter_ok_def is_digit_def)

lemma version_match_show:
  assumes "letter_ok l" "\<forall>c\<in>set pre. \<not> is_digit c"
  shows "version_match (pre @ show_version a b l) = Some (showNat a, showNat b, l)"
  using assms(2)
proof (induction pre)
  case Nil
  obtain c s where s: "show_version a b l = c # s"
    by (cases "show_version a b l") (auto simp: show_version_def)
  let ?t = "case l of None \<Rightarrow> [] | Some c \<Rightarrow> [c]"
  have d: "\<not> is_digit CHR ''.''" by (simp add: is_digit_def)
  have t: "?t = [] \<or> \<not> is_digit (hd ?t)" using assms(1) letter_not_digit by (cases l) auto
  have "match_here (show_version a b l) = Some (showNat a, showNat b, l)"
    using digits_takeWhile [of "''.'' @ showNat b @ ?t" a] d digits_takeWhile [OF t, of b] assms(1)
    by (cases l) (auto simp: match_here_def show_version_def letter_ok_def Let_def)
  with s show ?case by simp
next
  case (Cons c pre)
  then have "match_here (c # pre @ show_version a b l) = None"
    by (simp add: match_here_def)
  with Cons show ?case by simp
qed

lemma parseTmuxVersion_show:
  assumes "letter_ok l" "\<forall>c\<in>set pre. \<not> is_digit c"
  shows "parseTmuxVersion (pre @ show_version a b l) = Some (a * 10000 + b * 100 + letter_value l)"
  using version_match_show [OF assms] by (simp add: parseTmuxVersion_def)

lemma letter_value_le: "letter_ok l \<Longrightarrow> letter_value l \<le> 26"
  by (auto simp: letter_ok_def letter_value_def split: option.splits)

section \<open>Properties\<close>

text \<open>
  C6. Pane input end to end: the renderer turns what was typed or pasted into hex pairs and
  the control manager builds the \<open>send-keys\<close> commands. The builder returns; the hex
  operands of the commands, decoded and put together, are exactly the bytes of the input
  (its UTF-8 encoding when it was text), none is empty or holds more than 256 bytes, and no
  command line is longer than 785 characters plus the pane id. Bytes handed over directly
  give the same commands.
\<close>

theorem send_keys_delivers_input:
  "\<exists>cmds. buildSendKeysCommands p (InStr (toHex v)) = Some cmds
     \<and> buildSendKeysCommands p (InBytes (input_bytes v)) = Some cmds
     \<and> concat (map (\<lambda>cmd. fromHex (drop (length (''send-keys -t '' @ p @ '' -H '')) cmd)) cmds)
         = input_bytes v
     \<and> list_all (\<lambda>cmd. startsWith cmd (''send-keys -t '' @ p @ '' -H '')
         \<and> length (''send-keys -t '' @ p @ '' -H '') < length cmd
         \<and> length cmd \<le> 785 + length p) cmds"
proof -
  from chunks_basic [of MAX_SEND_KEYS_CHUNK_BYTES "input_bytes v"] obtain cs where
    cs: "chunkBytesForSendKeys (input_bytes v) MAX_SEND_KEYS_CHUNK_BYTES = Some cs"
      "concat cs = input_bytes v" "\<forall>c\<in>set cs. c \<noteq> [] \<and> length c \<le> 256"
    by (auto simp: MAX_SEND_KEYS_CHUNK_BYTES_def)
  let ?cmds = "map (\<lambda>c. sendKeysHex p (InBytes c)) cs"
  have "concat (map (\<lambda>cmd. fromHex (drop (length (''send-keys -t '' @ p @ '' -H '')) cmd)) ?cmds)
      = input_bytes v"
    unfolding map_map comp_def send_operand fromHex_toHex using cs(2) by simp
  moreover have "list_all (\<lambda>cmd. startsWith cmd (''send-keys -t '' @ p @ '' -H '')
         \<and> length (''send-keys -t '' @ p @ '' -H '') < length cmd
         \<and> length cmd \<le> 785 + length p) ?cmds"
    unfolding list_all_iff
  proof
    fix cmd assume "cmd \<in> set ?cmds"
    then obtain c where c: "c \<in> set cs" "cmd = sendKeysHex p (InBytes c)" by auto
    with cs(3) have n: "1 \<le> length c" "length c \<le> 256" by (auto simp: Suc_le_eq)
    have e: "cmd = (''send-keys -t '' @ p @ '' -H '') @ toHex_bytes c"
      by (simp add: c(2) sendKeysHex_def)
    from n show "startsWith cmd (''send-keys -t '' @ p @ '' -H '')
         \<and> length (''send-keys -t '' @ p @ '' -H '') < length cmd
         \<and> length cmd \<le> 785 + length p"
      unfolding e by (simp only: startsWith_append length_append length_toHex list.size) arith
  qed
  moreover have "buildSendKeysCommands p (InStr (toHex v)) = Some ?cmds"
    and "buildSendKeysCommands p (InBytes (input_bytes v)) = Some ?cmds"
    using cs(1) by (simp_all add: buildSendKeysCommands_def toInputBytes_toHex del: toInputBytes.simps(2))
  ultimately show ?thesis by (intro exI [of _ ?cmds] conjI)
qed

text \<open>
  A subscription comes back to its target: the name in the subscribe command of a window
  title or of a pane's mouse flags is one the store recognises as exactly that window or
  pane, the two kinds are never confused, and every other name is rejected.
\<close>

theorem subscription_names:
  "(\<exists>nm. titleSubscribeCmd w = ''refresh-client -B '' @ shellQuote (nm @ '':'' @ w @ '':#{pane_title}'')
       \<and> parseSubscriptionName nm = Some (SubTitle w))
   \<and> (\<exists>nm. mouseSubscribeCmd w =
         ''refresh-client -B '' @ shellQuote (nm @ '':'' @ w @ '':#{mouse_any_flag} #{mouse_sgr_flag}'')
       \<and> parseSubscriptionName nm = Some (SubMouse w))
   \<and> (case parseSubscriptionName s of
        None \<Rightarrow> \<not> startsWith s TITLE_SUB_PREFIX \<and> \<not> startsWith s MOUSE_SUB_PREFIX
      | Some (SubTitle x) \<Rightarrow> s = TITLE_SUB_PREFIX @ x
      | Some (SubMouse x) \<Rightarrow> s = MOUSE_SUB_PREFIX @ x)"
proof -
  have "parseSubscriptionName (TITLE_SUB_PREFIX @ w) = Some (SubTitle w)"
    and "parseSubscriptionName (MOUSE_SUB_PREFIX @ w) = Some (SubMouse w)"
    by (simp_all add: parseSubscriptionName_def TITLE_SUB_PREFIX_def MOUSE_SUB_PREFIX_def)
  moreover have "titleSubscribeCmd w =
      ''refresh-client -B '' @ shellQuote ((TITLE_SUB_PREFIX @ w) @ '':'' @ w @ '':#{pane_title}'')"
    and "mouseSubscribeCmd w = ''refresh-client -B '' @
        shellQuote ((MOUSE_SUB_PREFIX @ w) @ '':'' @ w @ '':#{mouse_any_flag} #{mouse_sgr_flag}'')"
    by (simp_all add: titleSubscribeCmd_def mouseSubscribeCmd_def refreshClientSubscribe_def)
  ultimately show ?thesis
    by (intro conjI) (blast, blast, auto simp: parseSubscriptionName_def startsWith_iff)
qed

text \<open>
  Version gating orders releases correctly: for versions with two-digit minors, printed
  with any prefix that holds no digit, \<open>tmuxAtLeast\<close> is the lexicographic order on major,
  minor and point letter (no letter below every letter), so \<open>3.10\<close> is above \<open>3.9z\<close>; and an
  unknown version is below every target.
\<close>

theorem tmuxAtLeast_lex:
  assumes "letter_ok l" "letter_ok l'" "b < 100" "b' < 100" "\<forall>c\<in>set pre. \<not> is_digit c"
  shows "(tmuxAtLeast (VStr (pre @ show_version a b l)) (show_version a' b' l') \<longleftrightarrow>
      a' < a \<or> (a' = a \<and> (b' < b \<or> (b' = b \<and> letter_value l' \<le> letter_value l))))
    \<and> \<not> tmuxAtLeast VNull t \<and> (\<not> tmuxAtLeast (VStr raw) t \<or> parseTmuxVersion raw \<noteq> None)"
proof (rule conjI)
  have "parseTmuxVersion (show_version a' b' l') = Some (a' * 10000 + b' * 100 + letter_value l')"
    using parseTmuxVersion_show [OF assms(2), of "[]"] by simp
  with parseTmuxVersion_show [OF assms(1,5), of a b] assms(3,4)
    letter_value_le [OF assms(1)] letter_value_le [OF assms(2)]
  show "tmuxAtLeast (VStr (pre @ show_version a b l)) (show_version a' b' l') \<longleftrightarrow>
      a' < a \<or> (a' = a \<and> (b' < b \<or> (b' = b \<and> letter_value l' \<le> letter_value l)))"
    by (simp add: tmuxAtLeast_def) arith
  show "\<not> tmuxAtLeast VNull t \<and> (\<not> tmuxAtLeast (VStr raw) t \<or> parseTmuxVersion raw \<noteq> None)"
    by (auto simp: tmuxAtLeast_def split: option.splits)
qed

theorem tmuxAtLeast_lex_witness:
  "tmuxAtLeast (VStr (''tmux '' @ show_version 3 10 None)) (show_version 3 9 (Some CHR ''z''))"
proof -
  have "letter_ok None" "letter_ok (Some CHR ''z'')" "\<forall>c\<in>set ''tmux ''. \<not> is_digit c"
    by (simp_all add: letter_ok_def is_digit_def)
  then show ?thesis
    using tmuxAtLeast_lex [of None "Some CHR ''z''" 10 9 "''tmux ''" 3 3] by simp
qed

end
