(* ===== verification/TmuxStore.thy ===== *)
theory TmuxStore
  imports TmuxParser TmuxCommands
begin

text \<open>
  The renderer's view of tmux, \<open>src/renderer/tmux/tmuxStore.ts\<close>: the pure reducer over the
  notifications, and the store of one view per project with the sinks that pane output goes to.

  \<open>Record<string, _>\<close> is a partial map (the code only looks keys up, adds and deletes them);
  an absent optional field is \<open>None\<close>. The \<open>Set\<close> of sinks behind a key is shared between the
  store and the unbind closures that \<open>bindPaneSink\<close> returns, so it lives in an explicit heap
  and a closure holds its reference. An asynchronous action is split at its awaits into steps;
  the calls it makes to the main process are outputs.
\<close>

section \<open>The view\<close>

record PaneState =
  paneId :: string
  windowId :: "string option"
  paused :: "bool option"
  mouseAny :: "bool option"
  mouseSgr :: "bool option"

record WindowState =
  winId :: string
  winName :: string
  displayName :: "string option"
  layout :: "LayoutNode option"
  isZoomed :: bool
  visibleLayout :: "LayoutNode option"

record TmuxViewState =
  isOpen :: bool
  openError :: "string option"
  sessionName :: "string option"
  sessionId :: "string option"
  windowOrder :: "string list"
  windows :: "string \<rightharpoonup> WindowState"
  panes :: "string \<rightharpoonup> PaneState"
  activeWindowId :: "string option"
  activePaneId :: "string option"

definition emptyView :: TmuxViewState where
  "emptyView = \<lparr>isOpen = False, openError = None, sessionName = None, sessionId = None,
     windowOrder = [], windows = Map.empty, panes = Map.empty,
     activeWindowId = None, activePaneId = None\<rparr>"

fun collectPaneIds :: "LayoutNode \<Rightarrow> string list" where
  "collectPaneIds (Leaf p w h x y) = [p]"
| "collectPaneIds (Split d w h x y cs) = concat (map collectPaneIds cs)"

definition paneIdsOf :: "LayoutNode option \<Rightarrow> string list" where
  "paneIdsOf t = (case t of None \<Rightarrow> [] | Some n \<Rightarrow> collectPaneIds n)"

definition new_pane :: "string \<Rightarrow> string option \<Rightarrow> PaneState" where
  "new_pane p w = \<lparr>paneId = p, windowId = w, paused = None, mouseAny = None, mouseSgr = None\<rparr>"

definition new_window :: "string \<Rightarrow> WindowState" where
  "new_window w = \<lparr>winId = w, winName = w, displayName = None, layout = None, isZoomed = False,
     visibleLayout = None\<rparr>"

section \<open>The reducer\<close>

definition window_add :: "TmuxViewState \<Rightarrow> string \<Rightarrow> TmuxViewState" where
  "window_add s w =
     (if windows s w \<noteq> None then s
      else s\<lparr>windowOrder := windowOrder s @ [w], windows := (windows s)(w \<mapsto> new_window w)\<rparr>)"

definition window_close :: "TmuxViewState \<Rightarrow> string \<Rightarrow> TmuxViewState" where
  "window_close s w =
     (case windows s w of
        None \<Rightarrow> s
      | Some gone \<Rightarrow>
          let ps = foldl (\<lambda>m pid. m(pid := None)) (panes s) (paneIdsOf (layout gone));
              order = filter (\<lambda>x. x \<noteq> w) (windowOrder s);
              active = (if activeWindowId s = Some w
                        then (if order = [] then None else Some (last order)) else activeWindowId s)
          in s\<lparr>windows := (windows s)(w := None), panes := ps, windowOrder := order,
               activeWindowId := active\<rparr>)"

definition window_renamed :: "TmuxViewState \<Rightarrow> string \<Rightarrow> string \<Rightarrow> TmuxViewState" where
  "window_renamed s w nm =
     (case windows s w of
        None \<Rightarrow> s
      | Some win \<Rightarrow> s\<lparr>windows := (windows s)(w \<mapsto> win\<lparr>winName := nm\<rparr>)\<rparr>)"

text \<open>Index one pane of a layout: the flags of a known pane are kept.\<close>

definition index_pane :: "(string \<rightharpoonup> PaneState) \<Rightarrow> string \<Rightarrow> (string \<rightharpoonup> PaneState) \<Rightarrow> string
    \<Rightarrow> (string \<rightharpoonup> PaneState)" where
  "index_pane before w m pid =
     m(pid \<mapsto> (case before pid of
                None \<Rightarrow> new_pane pid (Some w)
              | Some p \<Rightarrow> p\<lparr>paneId := pid, windowId := Some w\<rparr>))"

definition layout_change :: "TmuxViewState \<Rightarrow> string \<Rightarrow> WindowLayout \<Rightarrow> WindowLayout option
    \<Rightarrow> string option \<Rightarrow> TmuxViewState" where
  "layout_change s w l v flags =
     (let existing = windows s w;
          nm = (case existing of None \<Rightarrow> w | Some e \<Rightarrow> winName e);
          order = (if existing \<noteq> None then windowOrder s else windowOrder s @ [w]);
          zoomed = (case flags of None \<Rightarrow> False | Some f \<Rightarrow> includesStr f ''Z'');
          ps = foldl (index_pane (panes s) w) (panes s) (collectPaneIds (root l))
      in s\<lparr>windowOrder := order,
           windows := (windows s)(w \<mapsto> \<lparr>winId = w, winName = nm, displayName = None,
              layout = Some (root l), isZoomed = zoomed, visibleLayout = map_option root v\<rparr>),
           panes := ps\<rparr>)"

definition set_paused :: "TmuxViewState \<Rightarrow> string \<Rightarrow> bool \<Rightarrow> TmuxViewState" where
  "set_paused s pid b =
     (case panes s pid of
        None \<Rightarrow> s\<lparr>panes := (panes s)(pid \<mapsto> (new_pane pid None)\<lparr>paused := Some b\<rparr>)\<rparr>
      | Some p \<Rightarrow>
          if (case paused p of None \<Rightarrow> False | Some x \<Rightarrow> x) = b then s
          else s\<lparr>panes := (panes s)(pid \<mapsto> p\<lparr>paused := Some b\<rparr>)\<rparr>)"

definition subscription_changed :: "TmuxViewState \<Rightarrow> string \<Rightarrow> string \<Rightarrow> TmuxViewState" where
  "subscription_changed s nm v =
     (case parseSubscriptionName nm of
        None \<Rightarrow> s
      | Some (SubTitle w) \<Rightarrow>
          let title = trim v
          in (case windows s w of
                None \<Rightarrow> s
              | Some win \<Rightarrow>
                  if title = [] \<or> displayName win = Some title then s
                  else s\<lparr>windows := (windows s)(w \<mapsto> win\<lparr>displayName := Some title\<rparr>)\<rparr>)
      | Some (SubMouse pid) \<Rightarrow>
          let fl = parseMouseFlagsValue v;
              set = (\<lambda>p. s\<lparr>panes := (panes s)(pid \<mapsto>
                 p\<lparr>mouseAny := Some (anyFlag fl), mouseSgr := Some (sgrFlag fl)\<rparr>)\<rparr>)
          in (case panes s pid of
                None \<Rightarrow> set (new_pane pid None)
              | Some p \<Rightarrow>
                  if mouseAny p = Some (anyFlag fl) \<and> mouseSgr p = Some (sgrFlag fl) then s
                  else set p))"

fun reduce :: "TmuxViewState \<Rightarrow> TmuxNotification \<Rightarrow> TmuxViewState" where
  "reduce s (UnlinkedWindowAdd w) = s"
| "reduce s (WindowAdd w) = window_add s w"
| "reduce s (WindowClose w) = window_close s w"
| "reduce s (WindowRenamed w nm) = window_renamed s w nm"
| "reduce s (LayoutChange w l v flags) = layout_change s w l v flags"
| "reduce s (WindowPaneChanged w p) =
     (if windows s w = None then s else s\<lparr>activeWindowId := Some w, activePaneId := Some p\<rparr>)"
| "reduce s (SessionWindowChanged sid w) =
     (if sessionId s \<noteq> None \<and> sessionId s \<noteq> Some sid then s
      else s\<lparr>activeWindowId := Some w, activePaneId := None\<rparr>)"
| "reduce s (SessionChanged sid nm) = s\<lparr>sessionName := Some nm, sessionId := Some sid\<rparr>"
| "reduce s (Exit r) = emptyView"
| "reduce s (Pause p) = set_paused s p True"
| "reduce s (Continue p) = set_paused s p False"
| "reduce s (SubscriptionChanged nm v) = subscription_changed s nm v"
| "reduce s _ = s"

section \<open>The store\<close>

definition SEP :: char where "SEP = CHR 0x1F"

definition sinkKey :: "string \<Rightarrow> string \<Rightarrow> string" where
  "sinkKey projectId pid = projectId @ SEP # pid"

record TmuxStore =
  byProject :: "string \<rightharpoonup> TmuxViewState"
  activeProjectId :: "string option"
  sinks :: "(string \<times> nat) list"
  sinkHeap :: "nat \<Rightarrow> nat list"
  nextRef :: nat

definition initStore :: TmuxStore where
  "initStore = \<lparr>byProject = Map.empty, activeProjectId = None, sinks = [],
     sinkHeap = (\<lambda>_. []), nextRef = 0\<rparr>"

definition view_of :: "TmuxStore \<Rightarrow> string \<Rightarrow> TmuxViewState" where
  "view_of st p = (case byProject st p of None \<Rightarrow> emptyView | Some v \<Rightarrow> v)"

definition selectActiveView :: "TmuxStore \<Rightarrow> TmuxViewState" where
  "selectActiveView st =
     (case activeProjectId st of None \<Rightarrow> emptyView | Some p \<Rightarrow> view_of st p)"

definition setActiveProject :: "TmuxStore \<Rightarrow> string \<Rightarrow> TmuxStore" where
  "setActiveProject st p =
     (if activeProjectId st = Some p \<and> byProject st p \<noteq> None then st
      else st\<lparr>activeProjectId := Some p,
              byProject := (if byProject st p \<noteq> None then byProject st
                            else (byProject st)(p \<mapsto> emptyView))\<rparr>)"

text \<open>The result is the sinks called with the output bytes, in order, and the new store.\<close>

definition applyNotification :: "TmuxStore \<Rightarrow> string \<Rightarrow> TmuxNotification
    \<Rightarrow> (nat \<times> bytes) list \<times> TmuxStore" where
  "applyNotification st p n =
     (case n of
        Output pid bs \<Rightarrow>
          ((case map_of (sinks st) (sinkKey p pid) of
              None \<Rightarrow> []
            | Some r \<Rightarrow> map (\<lambda>s. (s, bs)) (sinkHeap st r)), st)
      | _ \<Rightarrow>
          let prev = view_of st p; next = reduce prev n
          in ([], if next = prev then st else st\<lparr>byProject := (byProject st)(p \<mapsto> next)\<rparr>))"

definition setWindowDisplayName :: "TmuxStore \<Rightarrow> string \<Rightarrow> string \<Rightarrow> string \<Rightarrow> TmuxStore" where
  "setWindowDisplayName st p w dn =
     (case byProject st p of
        None \<Rightarrow> st
      | Some sl \<Rightarrow>
          (case windows sl w of
             None \<Rightarrow> st
           | Some win \<Rightarrow>
               if displayName win = Some dn then st
               else st\<lparr>byProject := (byProject st)(p \<mapsto>
                  sl\<lparr>windows := (windows sl)(w \<mapsto> win\<lparr>displayName := Some dn\<rparr>)\<rparr>)\<rparr>))"

text \<open>What the unbind closure holds: the key, the set it was added to, and the sink.\<close>

record binding =
  bKey :: string
  bRef :: nat
  bSink :: nat

definition bindPaneSink :: "TmuxStore \<Rightarrow> string \<Rightarrow> string \<Rightarrow> nat \<Rightarrow> binding \<times> TmuxStore" where
  "bindPaneSink st p pid sink =
     (let key = sinkKey p pid;
          (r, st1) = (case map_of (sinks st) key of
             Some r \<Rightarrow> (r, st)
           | None \<Rightarrow> (nextRef st, st\<lparr>sinks := omap_set key (nextRef st) (sinks st),
                sinkHeap := (sinkHeap st)(nextRef st := []), nextRef := Suc (nextRef st)\<rparr>))
      in (\<lparr>bKey = key, bRef = r, bSink = sink\<rparr>,
          st1\<lparr>sinkHeap := (sinkHeap st1)(r := oset_add sink (sinkHeap st1 r))\<rparr>))"

definition unbindPaneSink :: "TmuxStore \<Rightarrow> binding \<Rightarrow> TmuxStore" where
  "unbindPaneSink st b =
     (let bound = filter (\<lambda>s. s \<noteq> bSink b) (sinkHeap st (bRef b))
      in st\<lparr>sinkHeap := (sinkHeap st)(bRef b := bound),
            sinks := (if bound = [] then omap_del (bKey b) (sinks st) else sinks st)\<rparr>)"

definition setOpenError :: "TmuxStore \<Rightarrow> string \<Rightarrow> string option \<Rightarrow> TmuxStore" where
  "setOpenError st p e =
     (let prev = view_of st p
      in if openError prev = e then st
         else st\<lparr>byProject := (byProject st)(p \<mapsto> prev\<lparr>openError := e\<rparr>)\<rparr>)"

text \<open>\<open>open\<close> before its call to the main process, and after the call has returned a name.\<close>

definition open_started :: "TmuxStore \<Rightarrow> string \<Rightarrow> TmuxStore" where
  "open_started st p =
     st\<lparr>byProject := (byProject st)(p \<mapsto> (view_of st p)\<lparr>openError := None\<rparr>)\<rparr>"

definition open_returned :: "TmuxStore \<Rightarrow> string \<Rightarrow> string \<Rightarrow> TmuxStore" where
  "open_returned st p nm =
     st\<lparr>byProject := (byProject st)(p \<mapsto>
        (view_of st p)\<lparr>isOpen := True, openError := None, sessionName := Some nm\<rparr>)\<rparr>"

text \<open>\<open>sendInput\<close>: the pane, the hex operand and the project of the call.\<close>

definition sendInput :: "string \<Rightarrow> string \<Rightarrow> key_input \<Rightarrow> string \<times> key_input \<times> string" where
  "sendInput p pid v = (pid, InStr (toHex v), p)"

definition resumePane :: "TmuxStore \<Rightarrow> string \<Rightarrow> string \<Rightarrow> (string \<times> string) list \<times> TmuxStore" where
  "resumePane st p pid =
     (case byProject st p of
        None \<Rightarrow> ([], st)
      | Some sl \<Rightarrow>
          (case panes sl pid of
             None \<Rightarrow> ([], st)
           | Some q \<Rightarrow>
               if paused q \<noteq> Some True then ([], st)
               else ([(refreshClientContinue pid, p)],
                 st\<lparr>byProject := (byProject st)(p \<mapsto>
                   sl\<lparr>panes := (panes sl)(pid \<mapsto> q\<lparr>paused := Some False\<rparr>)\<rparr>)\<rparr>)))"

definition resetProject :: "TmuxStore \<Rightarrow> string \<Rightarrow> TmuxStore" where
  "resetProject st p =
     (let st1 = st\<lparr>sinks := filter (\<lambda>(k, _). \<not> startsWith k (p @ [SEP])) (sinks st)\<rparr>
      in if byProject st1 p = None then st1
         else st1\<lparr>byProject := (byProject st1)(p := None),
                  activeProjectId := (if activeProjectId st1 = Some p then None else activeProjectId st1)\<rparr>)"

definition resetStore :: "TmuxStore \<Rightarrow> TmuxStore" where
  "resetStore st = st\<lparr>sinks := [], byProject := Map.empty, activeProjectId := None\<rparr>"

section \<open>Lemmas of the view\<close>

lemma foldl_delete: "foldl (\<lambda>m k. m(k := None)) m ks = (\<lambda>k. if k \<in> set ks then None else m k)"
  by (induction ks arbitrary: m) (auto simp: fun_eq_iff)

lemma foldl_index_pane:
  "foldl (index_pane before w) m ks =
     (\<lambda>k. if k \<in> set ks
       then Some (case before k of None \<Rightarrow> new_pane k (Some w) | Some p \<Rightarrow> p\<lparr>paneId := k, windowId := Some w\<rparr>)
       else m k)"
  by (induction ks arbitrary: m) (auto simp: fun_eq_iff index_pane_def)

text \<open>
  The view's invariant: the tab order lists every known window once, and windows and panes
  are filed under their own ids.
\<close>

definition view_inv :: "TmuxViewState \<Rightarrow> bool" where
  "view_inv s \<longleftrightarrow> distinct (windowOrder s) \<and> set (windowOrder s) = dom (windows s)
     \<and> (\<forall>w win. windows s w = Some win \<longrightarrow> winId win = w)
     \<and> (\<forall>p q. panes s p = Some q \<longrightarrow> paneId q = p)"

lemma view_inv_empty [simp]: "view_inv emptyView"
  by (simp add: view_inv_def emptyView_def)

lemma window_add_inv: "view_inv s \<Longrightarrow> view_inv (window_add s w)"
  by (auto simp: view_inv_def window_add_def new_window_def)

lemma window_close_inv: "view_inv s \<Longrightarrow> view_inv (window_close s w)"
  by (auto simp: view_inv_def window_close_def foldl_delete Let_def dom_def split: option.splits)

lemma window_renamed_inv: "view_inv s \<Longrightarrow> view_inv (window_renamed s w nm)"
  by (auto simp: view_inv_def window_renamed_def split: option.splits)

lemma layout_change_inv: "view_inv s \<Longrightarrow> view_inv (layout_change s w l v f)"
  by (auto simp: view_inv_def layout_change_def foldl_index_pane new_pane_def Let_def
      split: option.splits if_splits)

lemma set_paused_inv: "view_inv s \<Longrightarrow> view_inv (set_paused s p b)"
  by (auto simp: view_inv_def set_paused_def new_pane_def split: option.splits)

lemma subscription_changed_inv: "view_inv s \<Longrightarrow> view_inv (subscription_changed s nm v)"
  by (auto simp: view_inv_def subscription_changed_def new_pane_def Let_def
      split: option.splits ParsedSubscription.splits)

lemma reduce_inv: "view_inv s \<Longrightarrow> view_inv (reduce s n)"
  by (cases n) (simp_all add: window_add_inv window_close_inv window_renamed_inv layout_change_inv
      set_paused_inv subscription_changed_inv, simp_all add: view_inv_def)

interpretation view: stepping reduce view_inv
  by unfold_locales (rule reduce_inv)

subsection \<open>Idempotence\<close>

lemma window_add_idem: "window_add (window_add s w) w = window_add s w"
  by (simp add: window_add_def)

lemma window_close_idem: "window_close (window_close s w) w = window_close s w"
  by (auto simp: window_close_def Let_def split: option.splits)

lemma window_renamed_idem: "window_renamed (window_renamed s w nm) w nm = window_renamed s w nm"
  by (auto simp: window_renamed_def split: option.splits)

lemma layout_change_idem: "layout_change (layout_change s w l v f) w l v f = layout_change s w l v f"
  by (auto simp: layout_change_def Let_def foldl_index_pane fun_eq_iff new_pane_def split: option.splits)

lemma set_paused_idem: "set_paused (set_paused s p b) p b = set_paused s p b"
  by (auto simp: set_paused_def new_pane_def split: option.splits)

lemma subscription_changed_idem:
  "subscription_changed (subscription_changed s nm v) nm v = subscription_changed s nm v"
  by (auto simp: subscription_changed_def new_pane_def Let_def
      split: option.splits ParsedSubscription.splits)

lemma reduce_idem: "reduce (reduce s n) n = reduce s n"
  by (cases n) (simp_all add: window_add_idem window_close_idem window_renamed_idem layout_change_idem
      set_paused_idem subscription_changed_idem)

subsection \<open>The windows as an ordered list\<close>

text \<open>
  The view's windows in tab order: the name, the layout, whether it is zoomed and the visible
  layout, without titles and panes. \<open>list_step\<close> is the reducer read on that list, a help for
  computing what a run of notifications leaves; it is no model of tmux. What the view owes to
  the notifications it was given is stated by \<open>since\<close> and \<open>told\<close> below.
\<close>

type_synonym window_row = "string \<times> LayoutNode option \<times> bool \<times> LayoutNode option"
type_synonym window_list = "(string \<times> window_row) list"

definition row_part :: "WindowState \<Rightarrow> window_row" where
  "row_part win = (winName win, layout win, isZoomed win, visibleLayout win)"

definition mirror :: "TmuxViewState \<Rightarrow> window_list" where
  "mirror s = map (\<lambda>w. (w, case windows s w of None \<Rightarrow> ([], None, False, None)
     | Some win \<Rightarrow> row_part win)) (windowOrder s)"

definition zoom_flag :: "string option \<Rightarrow> bool" where
  "zoom_flag f = (case f of None \<Rightarrow> False | Some s \<Rightarrow> includesStr s ''Z'')"

fun list_step :: "window_list \<Rightarrow> TmuxNotification \<Rightarrow> window_list" where
  "list_step sv (WindowAdd w) =
     (if w \<in> fst ` set sv then sv else sv @ [(w, w, None, False, None)])"
| "list_step sv (WindowClose w) = omap_del w sv"
| "list_step sv (WindowRenamed w nm) =
     map (\<lambda>(x, n, r). if x = w then (x, nm, r) else (x, n, r)) sv"
| "list_step sv (LayoutChange w l v f) =
     omap_set w (case map_of sv w of None \<Rightarrow> w | Some (n, _) \<Rightarrow> n,
                 Some (root l), zoom_flag f, map_option root v) sv"
| "list_step sv (Exit r) = []"
| "list_step sv _ = sv"

lemma mirror_keys: "map fst (mirror s) = windowOrder s"
  by (simp add: mirror_def comp_def)

lemma mirror_key_set: "fst ` set (mirror s) = set (windowOrder s)"
  using mirror_keys [of s] by (metis set_map)

lemma map_of_mirror:
  "view_inv s \<Longrightarrow> map_of (mirror s) w = map_option row_part (windows s w)"
proof -
  assume "view_inv s"
  then have d: "set (windowOrder s) = dom (windows s)" by (simp add: view_inv_def)
  show ?thesis
  proof (cases "w \<in> set (windowOrder s)")
    case True
    with d show ?thesis by (auto simp: mirror_def map_of_map_restrict)
  next
    case False
    with d have "windows s w = None" by auto
    with False show ?thesis by (simp add: mirror_def map_of_map_restrict)
  qed
qed

definition part :: "TmuxViewState \<Rightarrow> string \<Rightarrow> window_row" where
  "part s w = (case windows s w of None \<Rightarrow> ([], None, False, None) | Some win \<Rightarrow> row_part win)"

lemma mirror_alt: "mirror s = map (\<lambda>w. (w, part s w)) (windowOrder s)"
  by (simp add: mirror_def part_def)

lemma mirror_unchanged:
  "windowOrder s' = windowOrder s \<Longrightarrow> (\<And>w. w \<in> set (windowOrder s) \<Longrightarrow> part s' w = part s w) \<Longrightarrow>
     mirror s' = mirror s"
  by (simp add: mirror_alt)

lemma known_iff: "view_inv s \<Longrightarrow> w \<in> set (windowOrder s) \<longleftrightarrow> windows s w \<noteq> None"
  by (auto simp: view_inv_def)

lemma mirror_window_add:
  assumes "view_inv s"
  shows "mirror (window_add s w) = list_step (mirror s) (WindowAdd w)"
proof (cases "windows s w")
  case None
  with assms have n: "w \<notin> set (windowOrder s)" by (simp add: known_iff)
  then have "part (window_add s w) x = part s x" if "x \<in> set (windowOrder s)" for x
    using that None by (auto simp: part_def window_add_def)
  with None n show ?thesis
    by (simp add: mirror_alt window_add_def part_def row_part_def new_window_def image_comp)
next
  case (Some win)
  with assms have "w \<in> set (windowOrder s)" by (simp add: known_iff)
  with Some show ?thesis by (simp add: window_add_def mirror_key_set)
qed

lemma mirror_window_close:
  assumes "view_inv s"
  shows "mirror (window_close s w) = list_step (mirror s) (WindowClose w)"
proof (cases "windows s w")
  case None
  with assms have "w \<notin> set (windowOrder s)" by (simp add: known_iff)
  then have "omap_del w (mirror s) = mirror s"
    by (auto simp: omap_del_def mirror_alt filter_id_conv)
  with None show ?thesis by (simp add: window_close_def)
next
  case (Some win)
  then show ?thesis
    by (simp add: window_close_def mirror_alt part_def omap_del_def filter_map comp_def Let_def)
qed

lemma mirror_window_renamed:
  assumes "view_inv s"
  shows "mirror (window_renamed s w nm) = list_step (mirror s) (WindowRenamed w nm)"
proof (cases "windows s w")
  case None
  with assms have "w \<notin> set (windowOrder s)" by (simp add: known_iff)
  with None show ?thesis
    by (auto simp: window_renamed_def mirror_alt intro!: map_cong split: prod.splits)
next
  case (Some win)
  then show ?thesis
    by (auto simp: window_renamed_def mirror_alt part_def row_part_def intro!: map_cong
        split: prod.splits option.splits)
qed

lemma mirror_layout_change:
  assumes "view_inv s"
  shows "mirror (layout_change s w l v f) = list_step (mirror s) (LayoutChange w l v f)"
proof (cases "windows s w")
  case None
  with assms have n: "w \<notin> set (windowOrder s)" by (simp add: known_iff)
  moreover from assms None have "map_of (mirror s) w = None" by (simp add: map_of_mirror)
  ultimately show ?thesis using None
    by (auto simp: mirror_key_set omap_set_def)
      (auto simp: mirror_alt layout_change_def part_def row_part_def zoom_flag_def Let_def
        intro!: map_cong)
next
  case (Some win)
  with assms have m: "w \<in> set (windowOrder s)" by (simp add: known_iff)
  moreover from assms Some have "map_of (mirror s) w = Some (row_part win)"
    by (simp add: map_of_mirror)
  ultimately show ?thesis using Some
    by (auto simp: mirror_key_set omap_set_def row_part_def)
      (auto simp: mirror_alt layout_change_def part_def row_part_def zoom_flag_def Let_def
        intro!: map_cong)
qed

lemma mirror_subscription: "mirror (subscription_changed s nm v) = mirror s"
  by (rule mirror_unchanged)
    (auto simp: subscription_changed_def part_def row_part_def Let_def
      split: option.splits ParsedSubscription.splits)

lemma mirror_set_paused: "mirror (set_paused s p b) = mirror s"
  by (rule mirror_unchanged) (auto simp: set_paused_def part_def split: option.splits)

lemma mirror_reduce:
  assumes "view_inv s"
  shows "mirror (reduce s n) = list_step (mirror s) n"
proof (cases n)
  case (Exit r)
  then show ?thesis by (simp add: mirror_def emptyView_def)
next
  case (WindowPaneChanged w p)
  then show ?thesis by (simp add: mirror_def)
next
  case (SessionWindowChanged a w)
  then show ?thesis by (simp add: mirror_def)
next
  case (SessionChanged a w)
  then show ?thesis by (simp add: mirror_def)
qed (use assms in \<open>simp_all only: reduce.simps list_step.simps mirror_window_add mirror_window_close
    mirror_window_renamed mirror_layout_change mirror_subscription mirror_set_paused\<close>)

lemma mirror_run: "view_inv s \<Longrightarrow> mirror (foldl reduce s ns) = foldl list_step (mirror s) ns"
  by (induction ns arbitrary: s) (simp_all add: mirror_reduce reduce_inv)

subsection \<open>Panes of the layouts\<close>

definition panes_indexed :: "TmuxViewState \<Rightarrow> bool" where
  "panes_indexed s \<longleftrightarrow> (\<forall>w win. windows s w = Some win \<longrightarrow>
     (\<forall>p\<in>set (paneIdsOf (layout win)). \<exists>q. panes s p = Some q \<and> windowId q = Some w))"

text \<open>A pane is in one window at a time: a new layout names no pane of another window's.\<close>

definition layout_fresh :: "TmuxViewState \<Rightarrow> TmuxNotification \<Rightarrow> bool" where
  "layout_fresh s n \<longleftrightarrow>
     (case n of LayoutChange w l v f \<Rightarrow>
        (\<forall>w' win. windows s w' = Some win \<longrightarrow> w' \<noteq> w \<longrightarrow>
           set (collectPaneIds (root l)) \<inter> set (paneIdsOf (layout win)) = {})
      | _ \<Rightarrow> True)"

lemma panes_of_windows_disjoint:
  assumes "panes_indexed s" "windows s w = Some a" "windows s w' = Some b" "w \<noteq> w'"
  shows "set (paneIdsOf (layout a)) \<inter> set (paneIdsOf (layout b)) = {}"
proof (rule equals0I)
  fix p assume "p \<in> set (paneIdsOf (layout a)) \<inter> set (paneIdsOf (layout b))"
  with assms(1) [unfolded panes_indexed_def, rule_format] assms(2,3) obtain q r
    where "panes s p = Some q" "windowId q = Some w" "panes s p = Some r" "windowId r = Some w'"
    by (metis IntD1 IntD2)
  with assms(4) show False by simp
qed

lemma close_indexed:
  assumes "panes_indexed s"
  shows "panes_indexed (window_close s w)"
proof (cases "windows s w")
  case None
  with assms show ?thesis by (simp add: window_close_def)
next
  case (Some gone)
  show ?thesis
    unfolding panes_indexed_def
  proof (intro allI impI ballI)
    fix w' win p
    assume "windows (window_close s w) w' = Some win" and p: "p \<in> set (paneIdsOf (layout win))"
    with Some have w: "windows s w' = Some win" "w' \<noteq> w"
      by (auto simp: window_close_def Let_def split: if_splits)
    with panes_of_windows_disjoint [OF assms Some] p have "p \<notin> set (paneIdsOf (layout gone))" by blast
    moreover from assms w(1) p obtain q where "panes s p = Some q" "windowId q = Some w'"
      unfolding panes_indexed_def by blast
    ultimately show "\<exists>q. panes (window_close s w) p = Some q \<and> windowId q = Some w'"
      using Some by (simp add: window_close_def Let_def foldl_delete)
  qed
qed

lemma layout_indexed:
  assumes "panes_indexed s" "layout_fresh s (LayoutChange w l v f)"
  shows "panes_indexed (layout_change s w l v f)"
  unfolding panes_indexed_def
proof (intro allI impI ballI)
  fix w' win p
  assume win: "windows (layout_change s w l v f) w' = Some win" and p: "p \<in> set (paneIdsOf (layout win))"
  show "\<exists>q. panes (layout_change s w l v f) p = Some q \<and> windowId q = Some w'"
  proof (cases "w' = w")
    case True
    with win p show ?thesis
      by (auto simp: layout_change_def Let_def foldl_index_pane paneIdsOf_def new_pane_def
          split: option.splits)
  next
    case False
    with win have w: "windows s w' = Some win" by (simp add: layout_change_def Let_def)
    with assms(2) False p have "p \<notin> set (collectPaneIds (root l))"
      unfolding layout_fresh_def by auto
    with assms(1) w p show ?thesis
      unfolding panes_indexed_def by (simp add: layout_change_def Let_def foldl_index_pane)
  qed
qed

lemma set_paused_indexed: "panes_indexed s \<Longrightarrow> panes_indexed (set_paused s p b)"
  unfolding panes_indexed_def set_paused_def by (fastforce split: option.splits)

lemma subscription_indexed: "panes_indexed s \<Longrightarrow> panes_indexed (subscription_changed s nm v)"
  unfolding panes_indexed_def subscription_changed_def Let_def
  by (fastforce split: option.splits ParsedSubscription.splits if_splits)

lemma reduce_indexed: "panes_indexed s \<Longrightarrow> layout_fresh s n \<Longrightarrow> panes_indexed (reduce s n)"
proof (cases n)
  case (WindowAdd w)
  assume "panes_indexed s"
  with WindowAdd show ?thesis
    by (auto simp: panes_indexed_def window_add_def new_window_def paneIdsOf_def)
next
  case (WindowRenamed w nm)
  assume "panes_indexed s"
  with WindowRenamed show ?thesis
    by (auto simp: panes_indexed_def window_renamed_def split: option.splits)
next
  case (Exit r)
  then show ?thesis by (simp add: panes_indexed_def emptyView_def)
qed (simp_all add: close_indexed layout_indexed set_paused_indexed subscription_indexed,
    simp_all add: panes_indexed_def)

section \<open>The store, one action at a time\<close>

datatype action =
    SetActive string
  | Notify string TmuxNotification
  | SetTitle string string string
  | SetOpenError string "string option"
  | OpenStarted string
  | OpenReturned string string
  | Resume string string
  | ResetProject string
  | Bind string string nat
  | Unbind string binding

fun target :: "action \<Rightarrow> string" where
  "target (SetActive p) = p"
| "target (Notify p n) = p"
| "target (SetTitle p w d) = p"
| "target (SetOpenError p e) = p"
| "target (OpenStarted p) = p"
| "target (OpenReturned p nm) = p"
| "target (Resume p pid) = p"
| "target (ResetProject p) = p"
| "target (Bind p pid s) = p"
| "target (Unbind p b) = p"

fun act :: "TmuxStore \<Rightarrow> action \<Rightarrow> (nat \<times> bytes) list \<times> TmuxStore" where
  "act st (SetActive p) = ([], setActiveProject st p)"
| "act st (Notify p n) = applyNotification st p n"
| "act st (SetTitle p w d) = ([], setWindowDisplayName st p w d)"
| "act st (SetOpenError p e) = ([], setOpenError st p e)"
| "act st (OpenStarted p) = ([], open_started st p)"
| "act st (OpenReturned p nm) = ([], open_returned st p nm)"
| "act st (Resume p pid) = ([], snd (resumePane st p pid))"
| "act st (ResetProject p) = ([], resetProject st p)"
| "act st (Bind p pid s) = ([], snd (bindPaneSink st p pid s))"
| "act st (Unbind p b) = ([], unbindPaneSink st b)"

definition sinks_for :: "TmuxStore \<Rightarrow> string \<Rightarrow> string \<Rightarrow> nat list" where
  "sinks_for st p pid =
     (case map_of (sinks st) (sinkKey p pid) of None \<Rightarrow> [] | Some r \<Rightarrow> sinkHeap st r)"

definition store_inv :: "TmuxStore \<Rightarrow> bool" where
  "store_inv st \<longleftrightarrow> distinct (map fst (sinks st)) \<and> inj_on snd (set (sinks st))
     \<and> (\<forall>r\<in>snd ` set (sinks st). r < nextRef st)
     \<and> (\<forall>p v. byProject st p = Some v \<longrightarrow> view_inv v)"

text \<open>A closure that \<open>bindPaneSink\<close> made for the project: its set is filed under its key or nowhere.\<close>

definition binding_ok :: "TmuxStore \<Rightarrow> string \<Rightarrow> binding \<Rightarrow> bool" where
  "binding_ok st p b \<longleftrightarrow> bRef b < nextRef st \<and> (\<exists>pid. bKey b = sinkKey p pid)
     \<and> (\<forall>k. (k, bRef b) \<in> set (sinks st) \<longrightarrow> k = bKey b)"

definition action_ok :: "TmuxStore \<Rightarrow> action \<Rightarrow> bool" where
  "action_ok st a \<longleftrightarrow> (case a of Unbind p b \<Rightarrow> binding_ok st p b | _ \<Rightarrow> True)"

lemma sinkKey_eq: 
  assumes d: "SEP \<notin> set p" "SEP \<notin> set q"
  shows "sinkKey p a = sinkKey q b \<longleftrightarrow> p = q \<and> a = b"
proof
  assume e: "sinkKey p a = sinkKey q b"
  from d have "takeWhile (\<lambda>c. c \<noteq> SEP) (sinkKey p a) = p" "takeWhile (\<lambda>c. c \<noteq> SEP) (sinkKey q b) = q"
    by (auto simp: sinkKey_def takeWhile_tail)
  with e show "p = q \<and> a = b" by (auto simp: sinkKey_def)
qed simp

lemma sinkKey_prefix:
  "SEP \<notin> set p \<Longrightarrow> SEP \<notin> set q \<Longrightarrow> startsWith (sinkKey q a) (p @ [SEP]) \<Longrightarrow> p = q"
  using sinkKey_eq [of q p a] by (auto simp: startsWith_iff sinkKey_def)

lemma map_of_filter_keys:
  "P k \<Longrightarrow> map_of (filter (\<lambda>(k, _). P k) m) k = map_of m k"
  by (induction m) auto

lemma omap_set_new:
  "map_of m k = None \<Longrightarrow> omap_set k v m = m @ [(k, v)]"
  by (simp add: omap_set_def map_of_eq_None_iff)

lemma store_inv_ref:
  "store_inv st \<Longrightarrow> map_of (sinks st) k = Some r \<Longrightarrow> map_of (sinks st) k' = Some r \<Longrightarrow> k = k'"
  unfolding store_inv_def by (metis fst_conv inj_onD map_of_SomeD snd_conv)

lemma store_inv_lt: "store_inv st \<Longrightarrow> map_of (sinks st) k = Some r \<Longrightarrow> r < nextRef st"
  unfolding store_inv_def by (metis image_eqI map_of_SomeD snd_conv)

lemma view_of_inv: "store_inv st \<Longrightarrow> view_inv (view_of st p)"
  by (auto simp: store_inv_def view_of_def split: option.splits)

lemma bind_isolated:
  assumes "store_inv st" "SEP \<notin> set p" "SEP \<notin> set q" "p \<noteq> q"
  shows "sinks_for (snd (bindPaneSink st p pid s)) q x = sinks_for st q x"
proof -
  have ne: "sinkKey p pid \<noteq> sinkKey q x" using assms sinkKey_eq by blast
  show ?thesis
  proof (cases "map_of (sinks st) (sinkKey p pid)")
    case None
    with ne show ?thesis
      using store_inv_lt [OF assms(1), of "sinkKey q x"]
      by (auto simp: bindPaneSink_def sinks_for_def omap_get_set Let_def split: option.splits)
  next
    case (Some r)
    with ne show ?thesis
      using store_inv_ref [OF assms(1) Some, of "sinkKey q x"]
      by (auto simp: bindPaneSink_def sinks_for_def Let_def split: option.splits)
  qed
qed

lemma unbind_isolated:
  assumes "SEP \<notin> set p" "SEP \<notin> set q" "p \<noteq> q" "binding_ok st p b"
  shows "sinks_for (unbindPaneSink st b) q x = sinks_for st q x"
proof -
  from assms obtain pid where k: "bKey b = sinkKey p pid" by (auto simp: binding_ok_def)
  with assms sinkKey_eq have ne: "bKey b \<noteq> sinkKey q x" by metis
  have "r \<noteq> bRef b" if "map_of (sinks st) (sinkKey q x) = Some r" for r
    using assms(4) ne map_of_SomeD [OF that] by (auto simp: binding_ok_def)
  with ne show ?thesis
    by (auto simp: unbindPaneSink_def sinks_for_def omap_get_del Let_def split: option.splits)
qed

lemma reset_isolated:
  assumes "SEP \<notin> set p" "SEP \<notin> set q" "p \<noteq> q"
  shows "sinks_for (resetProject st p) q x = sinks_for st q x"
proof -
  have "\<not> startsWith (sinkKey q x) (p @ [SEP])" using sinkKey_prefix assms by blast
  then show ?thesis
    by (cases "map_of (sinks st) (sinkKey q x)")
      (simp_all add: resetProject_def sinks_for_def Let_def map_of_filter_keys)
qed

lemma deliveries_bound:
  "(s, bs) \<in> set (fst (applyNotification st p n)) \<Longrightarrow> \<exists>pid. n = Output pid bs \<and> s \<in> set (sinks_for st p pid)"
  by (cases n) (auto simp: applyNotification_def sinks_for_def Let_def split: option.splits)

lemma apply_sinks [simp]:
  "sinks (snd (applyNotification st p n)) = sinks st"
  "sinkHeap (snd (applyNotification st p n)) = sinkHeap st"
  "nextRef (snd (applyNotification st p n)) = nextRef st"
  by (cases n; simp add: applyNotification_def Let_def)+

lemma apply_other [simp]: "q \<noteq> p \<Longrightarrow> byProject (snd (applyNotification st p n)) q = byProject st q"
  by (cases n) (simp_all add: applyNotification_def Let_def)

lemma sinks_for_same: "sinks st' = sinks st \<Longrightarrow> sinkHeap st' = sinkHeap st \<Longrightarrow> sinks_for st' p x = sinks_for st p x"
  by (simp add: sinks_for_def cong: option.case_cong)

lemma act_other_view:
  "target a \<noteq> q \<Longrightarrow> byProject (snd (act st a)) q = byProject st q"
  by (cases a)
    (auto simp: setActiveProject_def setWindowDisplayName_def setOpenError_def open_started_def
      open_returned_def resumePane_def resetProject_def bindPaneSink_def unbindPaneSink_def Let_def
      split: option.splits prod.splits)

lemma act_other_sinks:
  assumes "store_inv st" "action_ok st a" "SEP \<notin> set (target a)" "SEP \<notin> set q" "target a \<noteq> q"
  shows "sinks_for (snd (act st a)) q x = sinks_for st q x"
proof (cases a)
  case (Bind p pid s)
  with assms bind_isolated show ?thesis by simp
next
  case (Unbind p b)
  with assms unbind_isolated [of p q st b x] show ?thesis by (simp add: action_ok_def)
next
  case (ResetProject p)
  with assms reset_isolated show ?thesis by simp
qed (simp_all add: sinks_for_def setActiveProject_def setWindowDisplayName_def setOpenError_def
    open_started_def open_returned_def resumePane_def Let_def split: option.splits prod.splits)

lemma apply_view_inv:
  "store_inv st \<Longrightarrow> byProject (snd (applyNotification st p n)) q = Some v \<Longrightarrow> view_inv v"
  using view_of_inv [of st p] reduce_inv [of "view_of st p" n]
  by (cases n) (auto simp: applyNotification_def store_inv_def Let_def split: if_splits)

lemma act_inv_views:
  assumes "store_inv st" "byProject (snd (act st a)) q = Some v"
  shows "view_inv v"
proof (cases a)
  case (Notify p n)
  with assms apply_view_inv show ?thesis by simp
next
  case (SetTitle p w d)
  with assms show ?thesis
    by (auto simp: setWindowDisplayName_def store_inv_def view_inv_def split: option.splits if_splits)
next
  case (SetOpenError p e)
  with assms view_of_inv [OF assms(1), of p] show ?thesis
    by (auto simp: setOpenError_def store_inv_def view_inv_def Let_def split: if_splits)
next
  case (OpenStarted p)
  with assms view_of_inv [OF assms(1), of p] show ?thesis
    by (auto simp: open_started_def store_inv_def view_inv_def split: if_splits)
next
  case (OpenReturned p nm)
  with assms view_of_inv [OF assms(1), of p] show ?thesis
    by (auto simp: open_returned_def store_inv_def view_inv_def split: if_splits)
next
  case (Resume p pid)
  with assms show ?thesis
    by (auto simp: resumePane_def store_inv_def view_inv_def split: option.splits if_splits)
next
  case (SetActive p)
  with assms show ?thesis by (auto simp: setActiveProject_def store_inv_def split: if_splits)
next
  case (ResetProject p)
  with assms show ?thesis by (auto simp: resetProject_def store_inv_def Let_def split: if_splits)
next
  case (Bind p pid s)
  with assms show ?thesis
    by (auto simp: bindPaneSink_def store_inv_def Let_def split: option.splits)
next
  case (Unbind p b)
  with assms show ?thesis by (auto simp: unbindPaneSink_def store_inv_def Let_def)
qed

definition sinks_inv :: "(string \<times> nat) list \<Rightarrow> nat \<Rightarrow> bool" where
  "sinks_inv m n \<longleftrightarrow> distinct (map fst m) \<and> inj_on snd (set m) \<and> (\<forall>r\<in>snd ` set m. r < n)"

lemma store_inv_alt:
  "store_inv st \<longleftrightarrow> sinks_inv (sinks st) (nextRef st) \<and> (\<forall>p v. byProject st p = Some v \<longrightarrow> view_inv v)"
  by (auto simp: store_inv_def sinks_inv_def)

lemma sinks_inv_filter: "sinks_inv m n \<Longrightarrow> sinks_inv (filter P m) n"
  by (auto simp: sinks_inv_def distinct_map_filter intro: inj_on_subset)

lemma sinks_inv_add: "sinks_inv m n \<Longrightarrow> map_of m k = None \<Longrightarrow> sinks_inv (omap_set k n m) (Suc n)"
  by (fastforce simp: sinks_inv_def omap_set_new inj_on_def map_of_eq_None_iff)

lemma act_inv_sinks:
  assumes "store_inv st"
  shows "sinks_inv (sinks (snd (act st a))) (nextRef (snd (act st a)))"
proof -
  have i: "sinks_inv (sinks st) (nextRef st)" using assms by (simp add: store_inv_alt)
  show ?thesis
  proof (cases a)
    case (ResetProject p)
    with i show ?thesis by (simp add: resetProject_def Let_def sinks_inv_filter)
  next
    case (Bind p pid s)
    with i sinks_inv_add show ?thesis
      by (auto simp: bindPaneSink_def Let_def split: option.splits)
  next
    case (Unbind p b)
    with i show ?thesis by (simp add: unbindPaneSink_def Let_def omap_del_def sinks_inv_filter)
  qed (use i in \<open>simp_all add: setActiveProject_def setWindowDisplayName_def setOpenError_def
    open_started_def open_returned_def resumePane_def Let_def split: option.splits\<close>)
qed

lemma act_inv: "store_inv st \<Longrightarrow> store_inv (snd (act st a))"
  unfolding store_inv_alt [of "snd (act st a)"] using act_inv_sinks act_inv_views by blast

interpretation store: stepping "\<lambda>st a. snd (act st a)" store_inv
  by unfold_locales (rule act_inv)

lemma store_inv_init [simp]: "store_inv initStore"
  by (simp add: store_inv_def initStore_def)

subsection \<open>The last word\<close>

text \<open>
  The notifications that make a window known, those that end it, and what was said of it since
  it became known, for the last time, up to now (nothing when it is not known now).
\<close>

definition mentions :: "string \<Rightarrow> TmuxNotification \<Rightarrow> bool" where
  "mentions w n \<longleftrightarrow> (case n of WindowAdd x \<Rightarrow> x = w | LayoutChange x l v f \<Rightarrow> x = w | _ \<Rightarrow> False)"

definition ends :: "string \<Rightarrow> TmuxNotification \<Rightarrow> bool" where
  "ends w n \<longleftrightarrow> (case n of WindowClose x \<Rightarrow> x = w | Exit r \<Rightarrow> True | _ \<Rightarrow> False)"

definition since :: "string \<Rightarrow> TmuxNotification list \<Rightarrow> TmuxNotification list" where
  "since w ns = dropWhile (\<lambda>n. \<not> mentions w n) (rev (takeWhile (\<lambda>n. \<not> ends w n) (rev ns)))"

definition name_in :: "string \<Rightarrow> TmuxNotification \<Rightarrow> string option" where
  "name_in w n = (case n of WindowRenamed x nm \<Rightarrow> if x = w then Some nm else None | _ \<Rightarrow> None)"

definition layout_in :: "string \<Rightarrow> TmuxNotification
    \<Rightarrow> (LayoutNode option \<times> bool \<times> LayoutNode option) option" where
  "layout_in w n =
     (case n of LayoutChange x l v f \<Rightarrow>
        if x = w then Some (Some (root l), zoom_flag f, map_option root v) else None
      | _ \<Rightarrow> None)"

definition title_in :: "string \<Rightarrow> TmuxNotification \<Rightarrow> string option" where
  "title_in w n =
     (case n of SubscriptionChanged nm v \<Rightarrow>
        if parseSubscriptionName nm = Some (SubTitle w) \<and> trim v \<noteq> [] then Some (trim v) else None
      | _ \<Rightarrow> None)"

definition told :: "string \<Rightarrow> TmuxNotification list \<Rightarrow> WindowState" where
  "told w ns =
     (let (l, z, v) = last ((None, False, None) # List.map_filter (layout_in w) ns)
      in \<lparr>winId = w,
          winName = last (w # List.map_filter (name_in w) ns),
          displayName = last (None # map Some (List.map_filter (title_in w)
            (rev (takeWhile (\<lambda>n. layout_in w n = None) (rev ns))))),
          layout = l, isZoomed = z, visibleLayout = v\<rparr>)"

lemma since_snoc:
  "since w (ns @ [n]) =
     (if ends w n then [] else if since w ns = [] then (if mentions w n then [n] else [])
      else since w ns @ [n])"
proof -
  have "dropWhile P (xs @ [n]) = (if dropWhile P xs = [] then (if P n then [] else [n])
      else dropWhile P xs @ [n])" for P and xs :: "TmuxNotification list"
    by (induction xs) auto
  then show ?thesis by (simp add: since_def)
qed

lemma map_filter_snoc:
  "List.map_filter f (xs @ [x]) = List.map_filter f xs @ (case f x of None \<Rightarrow> [] | Some y \<Rightarrow> [y])"
  by (induction xs) (simp_all split: option.split)

lemma told_snoc:
  "told w (ns @ [n]) =
     (case layout_in w n of
        Some (l, z, v) \<Rightarrow> (told w ns)\<lparr>displayName := None, layout := l, isZoomed := z, visibleLayout := v\<rparr>
      | None \<Rightarrow>
          (case name_in w n of
             Some nm \<Rightarrow> (told w ns)\<lparr>winName := nm\<rparr>
           | None \<Rightarrow>
               (case title_in w n of
                  Some t \<Rightarrow> (told w ns)\<lparr>displayName := Some t\<rparr>
                | None \<Rightarrow> told w ns)))"
proof -
  have "(layout_in w n = None \<or> name_in w n = None) \<and> (layout_in w n = None \<or> title_in w n = None)
      \<and> (name_in w n = None \<or> title_in w n = None)"
    by (cases n) (auto simp: layout_in_def name_in_def title_in_def)
  then show ?thesis
    by (auto simp: told_def map_filter_snoc Let_def split: option.split prod.split)
qed

lemma told_one: "mentions w n \<Longrightarrow> told w [n] =
    (case layout_in w n of
       Some (l, z, v) \<Rightarrow> \<lparr>winId = w, winName = w, displayName = None, layout = l, isZoomed = z, visibleLayout = v\<rparr>
     | None \<Rightarrow> new_window w)"
  by (cases n) (auto simp: mentions_def told_def layout_in_def name_in_def title_in_def new_window_def split: option.split)

lemma told_winId: "winId (told w ns) = w"
  by (simp add: told_def case_prod_beta)

lemma reduce_window:
  assumes "\<And>win. windows s w = Some win \<Longrightarrow> winId win = w"
  shows "windows (reduce s n) w =
     (if ends w n then None
      else case windows s w of
        None \<Rightarrow> (if mentions w n then Some (told w [n]) else None)
      | Some win \<Rightarrow> Some
          (case layout_in w n of
             Some (l, z, v) \<Rightarrow> win\<lparr>displayName := None, layout := l, isZoomed := z, visibleLayout := v\<rparr>
           | None \<Rightarrow>
               (case name_in w n of
                  Some nm \<Rightarrow> win\<lparr>winName := nm\<rparr>
                | None \<Rightarrow>
                    (case title_in w n of Some t \<Rightarrow> win\<lparr>displayName := Some t\<rparr> | None \<Rightarrow> win))))"
proof (cases n)
  case (WindowClose x)
  then show ?thesis
    by (auto simp: ends_def mentions_def layout_in_def name_in_def title_in_def window_close_def Let_def
        split: option.split)
next
  case (SubscriptionChanged nm v)
  then show ?thesis
    by (auto simp: ends_def mentions_def layout_in_def name_in_def title_in_def subscription_changed_def
        Let_def split: option.split ParsedSubscription.split)
next
  case (LayoutChange x l v f)
  then show ?thesis
    using assms by (auto simp: ends_def mentions_def layout_in_def name_in_def title_in_def told_one layout_change_def zoom_flag_def
        Let_def split: option.split)
next
  case (WindowAdd x)
  then show ?thesis
    by (auto simp: ends_def mentions_def layout_in_def name_in_def title_in_def told_one window_add_def
        split: option.split)
next
  case (WindowRenamed x nm)
  then show ?thesis
    by (auto simp: ends_def mentions_def layout_in_def name_in_def title_in_def window_renamed_def
        split: option.split)
qed (auto simp: ends_def mentions_def layout_in_def name_in_def title_in_def set_paused_def emptyView_def
      split: option.split)

lemma windows_told:
  "windows (foldl reduce emptyView ns) w =
     (if since w ns = [] then None else Some (told w (since w ns)))"
proof (induction ns rule: rev_induct)
  case Nil
  show ?case by (simp add: since_def emptyView_def)
next
  case (snoc n ns)
  have "winId win = w" if "windows (foldl reduce emptyView ns) w = Some win" for win
    using that snoc.IH by (auto simp: told_winId split: if_splits)
  from reduce_window [of "foldl reduce emptyView ns" w n, OF this] snoc.IH show ?case
    by (auto simp: since_snoc told_snoc split: if_splits)
qed

lemma reduce_order:
  assumes "view_inv s"
  shows "windowOrder (reduce s n) =
     filter (\<lambda>w. \<not> ends w n) (windowOrder s)
     @ (case n of WindowAdd w \<Rightarrow> if windows s w = None then [w] else []
        | LayoutChange w l v f \<Rightarrow> if windows s w = None then [w] else [] | _ \<Rightarrow> [])"
proof (cases n)
  case (WindowClose x)
  moreover from assms have "windows s x = None \<Longrightarrow> filter (\<lambda>w. w \<noteq> x) (windowOrder s) = windowOrder s"
    by (auto simp: view_inv_def filter_id_conv)
  ultimately show ?thesis
    by (auto simp: ends_def window_close_def Let_def eq_commute [of x] split: option.split)
next
  case (SubscriptionChanged nm v)
  then show ?thesis
    by (auto simp: ends_def subscription_changed_def Let_def split: option.split ParsedSubscription.split)
qed (auto simp: ends_def window_add_def window_renamed_def layout_change_def set_paused_def emptyView_def
      Let_def split: option.split)

lemma order_of_arrival:
  "sorted_wrt (\<lambda>a b. length (since a ns) > length (since b ns)) (windowOrder (foldl reduce emptyView ns))"
proof (induction ns rule: rev_induct)
  case Nil
  show ?case by (simp add: emptyView_def)
next
  case (snoc n ns)
  let ?s = "foldl reduce emptyView ns"
  have inv: "view_inv ?s" by (rule view.run_inv) simp
  have known: "since w ns \<noteq> [] \<longleftrightarrow> w \<in> set (windowOrder ?s)" for w
    using inv windows_told [of ns w] by (auto simp: view_inv_def split: if_splits)
  let ?old = "filter (\<lambda>w. \<not> ends w n) (windowOrder ?s)"
  have old: "since w (ns @ [n]) = since w ns @ [n]" if "w \<in> set ?old" for w
    using that known [of w] by (auto simp: since_snoc)
  have s: "sorted_wrt (\<lambda>a b. length (since a (ns @ [n])) > length (since b (ns @ [n]))) ?old"
    by (rule sorted_wrt_mono_rel [OF _ sorted_wrt_filter [OF snoc.IH, of "\<lambda>w. \<not> ends w n"]])
      (simp add: old)
  have fresh: "length (since w (ns @ [n])) = 1" if "windows ?s w = None" "mentions w n" "\<not> ends w n" for w
    using that windows_told [of ns w] by (simp add: since_snoc split: if_splits)
  have more: "sorted_wrt (\<lambda>a b. length (since a (ns @ [n])) > length (since b (ns @ [n]))) (?old @ [w])"
    if "windows ?s w = None" "mentions w n" "\<not> ends w n" for w
    using s fresh [OF that] old known by (auto simp: sorted_wrt_append)
  show ?case
    using s more unfolding foldl_append
    by (cases n) (simp_all add: reduce_order [OF inv] mentions_def ends_def del: reduce.simps)
qed

section \<open>Properties\<close>

text \<open>
  C7. The view shows the last word on every window. Take any notifications \<open>ns\<close>, from an
  empty view. A window is shown exactly when it was added, or given a layout, after it was
  last closed and after the last exit. Its name is the last it was given since then (its id if
  none was), its layout, zoom flag and visible layout those of its last layout change since
  then, its title the last non-blank one pushed since then and since its last layout change.
  The tabs stand in the order in which their windows came, each once.
\<close>

theorem view_shows_last_word:
  "windows (foldl reduce emptyView ns) w =
     (if since w ns = [] then None else Some (told w (since w ns)))
   \<and> set (windowOrder (foldl reduce emptyView ns)) = {x. since x ns \<noteq> []}
   \<and> sorted_wrt (\<lambda>a b. length (since a ns) > length (since b ns))
       (windowOrder (foldl reduce emptyView ns))"
proof (intro conjI)
  show "windows (foldl reduce emptyView ns) w =
     (if since w ns = [] then None else Some (told w (since w ns)))"
    by (rule windows_told)
  have "view_inv (foldl reduce emptyView ns)" by (rule view.run_inv) simp
  then show "set (windowOrder (foldl reduce emptyView ns)) = {x. since x ns \<noteq> []}"
    by (auto simp: view_inv_def windows_told split: if_splits)
  show "sorted_wrt (\<lambda>a b. length (since a ns) > length (since b ns))
       (windowOrder (foldl reduce emptyView ns))"
    by (rule order_of_arrival)
qed

text \<open>
  Panes follow their windows: if every pane is in one window's layout at a time, then
  after any notifications each pane of each window's current layout is indexed and filed
  under that window, and a layout change keeps the flow-control and mouse flags of the
  panes it mentions.
\<close>

theorem panes_follow_layouts:
  assumes "\<forall>i<length ns. layout_fresh (foldl reduce emptyView (take i ns)) (ns ! i)"
  shows "panes_indexed (foldl reduce emptyView ns)
    \<and> (\<forall>p q. panes (foldl reduce emptyView ns) p = Some q \<longrightarrow>
         (\<exists>q'. panes (reduce (foldl reduce emptyView ns) (LayoutChange w l v f)) p = Some q'
            \<and> paused q' = paused q \<and> mouseAny q' = mouseAny q \<and> mouseSgr q' = mouseSgr q))"
proof
  show "panes_indexed (foldl reduce emptyView ns)"
    using assms
  proof (induction ns rule: rev_induct)
    case Nil
    show ?case by (simp add: panes_indexed_def emptyView_def)
  next
    case (snoc n ns)
    have "layout_fresh (foldl reduce emptyView (take i ns)) (ns ! i)" if "i < length ns" for i
      using snoc.prems [rule_format, of i] that by (simp add: nth_append)
    with snoc.IH have "panes_indexed (foldl reduce emptyView ns)" by blast
    moreover have "layout_fresh (foldl reduce emptyView ns) n"
      using snoc.prems [rule_format, of "length ns"] by simp
    ultimately show ?case by (simp add: reduce_indexed)
  qed
  show "\<forall>p q. panes (foldl reduce emptyView ns) p = Some q \<longrightarrow>
         (\<exists>q'. panes (reduce (foldl reduce emptyView ns) (LayoutChange w l v f)) p = Some q'
            \<and> paused q' = paused q \<and> mouseAny q' = mouseAny q \<and> mouseSgr q' = mouseSgr q)"
    by (auto simp: layout_change_def Let_def foldl_index_pane)
qed

theorem panes_follow_layouts_witness:
  "panes_indexed (foldl reduce emptyView
     [WindowAdd ''@1'', LayoutChange ''@1'' \<lparr>checksum = ''b25d'', root = Leaf ''%1'' 80 24 0 0\<rparr> None None])"
proof -
  let ?ns = "[WindowAdd ''@1'', LayoutChange ''@1'' \<lparr>checksum = ''b25d'', root = Leaf ''%1'' 80 24 0 0\<rparr> None None]"
  have "\<forall>i<length ?ns. layout_fresh (foldl reduce emptyView (take i ?ns)) (?ns ! i)"
    by (simp add: less_Suc_eq layout_fresh_def window_add_def emptyView_def new_window_def paneIdsOf_def)
  from panes_follow_layouts [OF this] show ?thesis by blast
qed

text \<open>
  Broadcasts about other sessions are ignored: a window that is not linked here, an
  active-pane change of a window this view does not track, and a window switch in another
  session leave the view as it is, wherever they occur in the stream.
\<close>

theorem foreign_notifications_ignored:
  assumes "windows (foldl reduce emptyView ns) w = None"
    and "sessionId (foldl reduce emptyView ns) = Some own" and "other \<noteq> own"
  shows "foldl reduce emptyView (ns @ [UnlinkedWindowAdd w, WindowPaneChanged w p,
      SessionWindowChanged other w] @ ms) = foldl reduce emptyView (ns @ ms)"
  using assms by simp

theorem foreign_notifications_ignored_witness:
  "foldl reduce emptyView ([SessionChanged ''$1'' ''mine'', WindowAdd ''@1''] @ [UnlinkedWindowAdd ''@9'',
     WindowPaneChanged ''@9'' ''%9'', SessionWindowChanged ''$2'' ''@9''] @ [WindowAdd ''@2'']) =
   foldl reduce emptyView ([SessionChanged ''$1'' ''mine'', WindowAdd ''@1''] @ [WindowAdd ''@2''])"
  by (rule foreign_notifications_ignored [where own = "''$1''"])
    (simp_all add: window_add_def emptyView_def)

text \<open>
  C8. Projects do not bleed into each other: in every state the store can reach, an action
  addressed to one project (a notification, a binding or unbinding of a pane's output, an
  open, a resume, a reset) leaves another project's view and the sinks of all its panes
  untouched, and the output it delivers goes only to sinks of that project's own pane.
\<close>

theorem projects_isolated:
  assumes "SEP \<notin> set (target a)" "SEP \<notin> set q" "target a \<noteq> q"
    and "action_ok (foldl (\<lambda>st a. snd (act st a)) initStore as) a"
  shows "let st = foldl (\<lambda>st a. snd (act st a)) initStore as; st' = snd (act st a) in
      byProject st' q = byProject st q \<and> sinks_for st' q pid = sinks_for st q pid
      \<and> list_all (\<lambda>(s, bs). \<exists>pid. a = Notify (target a) (Output pid bs)
          \<and> s \<in> set (sinks_for st (target a) pid)) (fst (act st a))"
proof -
  let ?st = "foldl (\<lambda>st a. snd (act st a)) initStore as"
  have i: "store_inv ?st" by (rule store.run_inv) simp
  have "list_all (\<lambda>(s, bs). \<exists>pid. a = Notify (target a) (Output pid bs)
          \<and> s \<in> set (sinks_for ?st (target a) pid)) (fst (act ?st a))"
    using deliveries_bound by (cases a) (auto simp: list_all_iff)
  with act_other_view [OF assms(3)] act_other_sinks [OF i assms(4,1,2,3)] show ?thesis
    by (simp add: Let_def)
qed

theorem projects_isolated_witness:
  "let st = foldl (\<lambda>st a. snd (act st a)) initStore [Bind ''a'' ''%0'' 7, Bind ''b'' ''%0'' 8];
       st' = snd (act st (ResetProject ''a'')) in
     sinks_for st' ''b'' ''%0'' = sinks_for st ''b'' ''%0''"
  using projects_isolated [of "ResetProject ''a''" "''b''" "[Bind ''a'' ''%0'' 7, Bind ''b'' ''%0'' 8]" "''%0''"]
  by (simp add: SEP_def action_ok_def Let_def)

section \<open>Behaviours worth knowing\<close>

text \<open>A layout change forgets the window's display title; nothing pushes it again until it changes.\<close>

lemma layout_change_forgets_title:
  "map_option displayName (windows (reduce s (LayoutChange w l v f)) w) = Some None"
  by (simp add: layout_change_def Let_def)

text \<open>A pane that a layout no longer holds stays indexed.\<close>

lemma layout_change_keeps_gone_pane:
  "p \<notin> set (collectPaneIds (root l)) \<Longrightarrow> panes (reduce s (LayoutChange w l v f)) p = panes s p"
  by (simp add: layout_change_def Let_def foldl_index_pane)

text \<open>
  A late unbind, after the project was reset and the pane bound again, removes the new
  binding: its own set is empty by then, so it deletes the key, which names another set.
\<close>

lemma late_unbind_drops_live_sink:
  "let (b1, st1) = bindPaneSink initStore p pid s1;
       (b2, st2) = bindPaneSink (resetProject st1 p) p pid s2
   in sinks_for st2 p pid = [s2] \<and> sinks_for (unbindPaneSink st2 b1) p pid = []"
proof -
  have "startsWith (sinkKey p pid) (p @ [SEP])" by (simp add: sinkKey_def startsWith_iff)
  then show ?thesis
    by (simp add: bindPaneSink_def initStore_def resetProject_def unbindPaneSink_def sinks_for_def
        omap_set_def omap_del_def oset_add_def Let_def)
qed

end
