(* ===== verification/ControlManager.thy ===== *)
theory ControlManager
  imports TmuxParser TmuxCommands
begin

text \<open>
  One control-mode connection, \<open>electron/main/providers/local/tmuxControl.ts\<close>: the pty, the
  parser, the FIFO of commands in flight, the watchdog and the attach epochs.

  Every operation returns the effects it has on the world (ptys started, killed and written
  to, commands settled, notifications emitted) and the new state. A pty is a number; its
  \<open>onData\<close> and \<open>onExit\<close> callbacks are operations that carry it, because they outlive the
  manager's own reference to it. A promise is the sequence number of its command. \<open>hasTmux\<close>,
  \<open>withNativeArch\<close> and the client environment are arguments; times are milliseconds.
\<close>

section \<open>State\<close>

record CommandReply =
  rNum :: rat
  rError :: bool
  rLines :: "string list"

record PendingCommand =
  cid :: nat
  tolerateErrors :: bool
  enqueuedAt :: nat

record config =
  sessionToken :: string
  rootPath :: string
  socket :: string
  configPath :: "string option"
  callbackOn :: bool

record manager =
  proc :: "nat option"
  mparser :: parser
  pending :: "PendingCommand list"
  commandSeq :: nat
  opened :: bool
  epoch :: nat
  sawInitialBlock :: bool
  watchdog :: bool
  unresponsiveWarned :: bool
  nextProc :: nat

definition new_manager :: manager where
  "new_manager = \<lparr>proc = None, mparser = new_parser, pending = [], commandSeq = 0, opened = False,
     epoch = 0, sawInitialBlock = False, watchdog = False, unresponsiveWarned = False, nextProc = 0\<rparr>"

datatype outcome = Resolved CommandReply | Rejected string

datatype effect =
    StartServer string "string option" bool
  | Spawn nat string "string list" nat nat "(string \<times> string) list" string
  | Kill nat
  | Write nat string
  | Settle nat outcome
  | Emit TmuxNotification
  | Activity
  | Unresponsive nat nat

section \<open>Operations\<close>

definition sanitize :: "string \<Rightarrow> string" where
  "sanitize s = map (\<lambda>c. if c = CHR ''.'' \<or> c = CHR '':'' \<or> is_ws c then CHR ''-'' else c) s"

definition sessionNameOf :: "config \<Rightarrow> string" where
  "sessionNameOf cfg = ''agent-cockpit-'' @ sanitize (sessionToken cfg)"

definition isOpenManager :: "manager \<Rightarrow> bool" where
  "isOpenManager m \<longleftrightarrow> opened m \<and> proc m \<noteq> None"

definition emit :: "TmuxNotification \<Rightarrow> effect list" where
  "emit n = (case n of Output _ _ \<Rightarrow> [Activity, Emit n] | _ \<Rightarrow> [Emit n])"

definition error_text :: "string list \<Rightarrow> string" where
  "error_text ls =
     (let t = joinWith ''; '' ls
      in ''tmux command error: '' @ (if t = [] then ''tmux returned %error'' else t))"

definition settleCommand :: "PendingCommand \<Rightarrow> CommandReply \<Rightarrow> effect" where
  "settleCommand cmd r =
     Settle (cid cmd) (if rError r \<and> \<not> tolerateErrors cmd then Rejected (error_text (rLines r))
                       else Resolved r)"

definition control_args :: "config \<Rightarrow> string list" where
  "control_args cfg = (case configPath cfg of None \<Rightarrow> [] | Some f \<Rightarrow> [''-f'', f])
     @ [''-L'', socket cfg, ''-CC'', ''new-session'', ''-A'', ''-s'', sessionNameOf cfg, ''-c'', rootPath cfg]"

definition startWatchdog :: "manager \<Rightarrow> manager" where
  "startWatchdog m = m\<lparr>watchdog := True\<rparr>"

definition clearWatchdog :: "manager \<Rightarrow> manager" where
  "clearWatchdog m = m\<lparr>watchdog := False, unresponsiveWarned := False\<rparr>"

definition open_control :: "config \<Rightarrow> bool \<Rightarrow> (string \<Rightarrow> string list \<Rightarrow> string \<times> string list)
    \<Rightarrow> (string \<times> string) list \<Rightarrow> nat option \<Rightarrow> nat option \<Rightarrow> manager
    \<Rightarrow> string + (effect list \<times> manager)" where
  "open_control cfg tmux native env cols rows m =
     (if opened m then Inr ([], m)
      else if \<not> tmux then Inl ''tmux is not available''
      else
        let (file, args) = native ''tmux'' (control_args cfg);
            p = nextProc m;
            m1 = m\<lparr>proc := Some p, nextProc := Suc p, opened := True, sawInitialBlock := False,
                   epoch := Suc (epoch m)\<rparr>
        in Inr ([StartServer (socket cfg) (configPath cfg) (callbackOn cfg),
                 Spawn p file args (case cols of None \<Rightarrow> 80 | Some c \<Rightarrow> c)
                   (case rows of None \<Rightarrow> 24 | Some r \<Rightarrow> r) env (rootPath cfg)]
                @ emit (Attached (epoch m1)),
                startWatchdog m1))"

definition drain_pending :: "string \<Rightarrow> manager \<Rightarrow> effect list \<times> manager" where
  "drain_pending msg m =
     (map (\<lambda>c. Settle (cid c) (Rejected msg)) (pending m), m\<lparr>pending := []\<rparr>)"

definition on_exit :: "nat \<Rightarrow> manager \<Rightarrow> effect list \<times> manager" where
  "on_exit p m =
     (let m1 = clearWatchdog (m\<lparr>opened := False, proc := None\<rparr>);
          (es, m2) = drain_pending ''tmux control session exited'' m1
      in (es @ emit (Exit None), m2))"

definition kill_proc :: "manager \<Rightarrow> effect list" where
  "kill_proc m = (case proc m of None \<Rightarrow> [] | Some p \<Rightarrow> [Kill p])"

definition checkResponsiveness :: "nat \<Rightarrow> manager \<Rightarrow> effect list \<times> manager" where
  "checkResponsiveness now m =
     (let age = (case pending m of [] \<Rightarrow> None | c # _ \<Rightarrow> Some (now - enqueuedAt c))
      in case classifyResponsiveness age of
           ANone \<Rightarrow> ([], m\<lparr>unresponsiveWarned := False\<rparr>)
         | AWarn \<Rightarrow>
             if unresponsiveWarned m then ([], m)
             else ([Unresponsive (length (pending m)) (the age)], m\<lparr>unresponsiveWarned := True\<rparr>)
         | AFail \<Rightarrow>
             let (es, m1) = drain_pending ''tmux control unresponsive'' m;
                 m2 = clearWatchdog m1
             in (es @ kill_proc m2, m2))"

definition ingest_one :: "TmuxNotification \<Rightarrow> manager \<Rightarrow> effect list \<times> manager" where
  "ingest_one n m =
     (case n of
        Reply k err ls \<Rightarrow>
          if \<not> sawInitialBlock m then ([], m\<lparr>sawInitialBlock := True\<rparr>)
          else (case pending m of
                  [] \<Rightarrow> ([], m)
                | cmd # rest \<Rightarrow>
                    ([settleCommand cmd \<lparr>rNum = k, rError = err, rLines = ls\<rparr>], m\<lparr>pending := rest\<rparr>))
      | _ \<Rightarrow> (emit n, m))"

fun ingest_all :: "TmuxNotification list \<Rightarrow> manager \<Rightarrow> effect list \<times> manager" where
  "ingest_all [] m = ([], m)"
| "ingest_all (n # ns) m =
     (let (e1, m1) = ingest_one n m; (e2, m2) = ingest_all ns m1 in (e1 @ e2, m2))"

definition ingest :: "string \<Rightarrow> manager \<Rightarrow> effect list \<times> manager" where
  "ingest chunk m =
     (let (ns, p) = feed (mparser m) chunk in ingest_all ns (m\<lparr>mparser := p\<rparr>))"

text \<open>A command is refused at once, or gets the next number and is written to the pty.\<close>

definition command :: "string \<Rightarrow> bool \<Rightarrow> nat \<Rightarrow> manager \<Rightarrow> (string + effect list) \<times> manager" where
  "command args tol now m =
     (case proc m of
        None \<Rightarrow> (Inl ''tmux control session is not open'', m)
      | Some p \<Rightarrow>
          let k = Suc (commandSeq m)
          in (Inr [Write p (args @ [NL])],
              m\<lparr>commandSeq := k,
                pending := pending m @ [\<lparr>cid = k, tolerateErrors = tol, enqueuedAt = now\<rparr>]\<rparr>))"

text \<open>The structure commands and the reports, with their error tolerance.\<close>

datatype request =
    RNewWindow "string option" "string option"
  | RSplitWindow string bool "string option"
  | RKillPane string
  | RKillWindow string
  | RSelectWindow string
  | RSelectPane string
  | RRenameWindow string string
  | RResizePane string "rat option" "rat option"
  | RResizeClient rat rat
  | RCapturePane string "rat option"
  | RSendKeys string

fun request_line :: "request \<Rightarrow> string \<times> bool" where
  "request_line (RNewWindow nm cwd) = (newWindow nm cwd, False)"
| "request_line (RSplitWindow p lr cwd) = (splitWindow p lr cwd, False)"
| "request_line (RKillPane p) = (killPane p, False)"
| "request_line (RKillWindow w) = (killWindow w, False)"
| "request_line (RSelectWindow w) = (selectWindow w, False)"
| "request_line (RSelectPane p) = (selectPane p, False)"
| "request_line (RRenameWindow w nm) = (renameWindow w nm, False)"
| "request_line (RResizePane p x y) = (resizePane p x y, False)"
| "request_line (RResizeClient c r) = (refreshClientSize c r, True)"
| "request_line (RCapturePane p l) = (capturePane p l, True)"
| "request_line (RSendKeys cmd) = (cmd, True)"

text \<open>\<open>input\<close>: the commands still to be sent, one after the reply to the other, and the last reply.\<close>

record input_task =
  todo :: "string list"
  lastReply :: CommandReply

definition input_start :: "string \<Rightarrow> key_input \<Rightarrow> input_task option" where
  "input_start pid v =
     map_option (\<lambda>cmds. \<lparr>todo = cmds, lastReply = \<lparr>rNum = -1, rError = False, rLines = []\<rparr>\<rparr>)
       (buildSendKeysCommands pid v)"

definition input_send :: "input_task \<Rightarrow> nat \<Rightarrow> manager \<Rightarrow> (string + effect list) \<times> manager" where
  "input_send t now m = (case todo t of [] \<Rightarrow> (Inr [], m) | c # _ \<Rightarrow> command c True now m)"

definition input_replied :: "input_task \<Rightarrow> CommandReply \<Rightarrow> input_task" where
  "input_replied t r = t\<lparr>todo := tl (todo t), lastReply := r\<rparr>"

definition close_control :: "manager \<Rightarrow> effect list \<times> manager" where
  "close_control m = (kill_proc m, clearWatchdog (m\<lparr>opened := False, proc := None\<rparr>))"

section \<open>Runs\<close>

datatype event =
    EOpen config bool "string \<Rightarrow> string list \<Rightarrow> string \<times> string list" "(string \<times> string) list"
      "nat option" "nat option"
  | EData nat string
  | EExit nat
  | ECommand request nat
  | ECheck nat
  | EClose

fun step :: "manager \<Rightarrow> event \<Rightarrow> effect list \<times> manager" where
  "step m (EOpen cfg tmux native env cols rows) =
     (case open_control cfg tmux native env cols rows m of Inl _ \<Rightarrow> ([], m) | Inr r \<Rightarrow> r)"
| "step m (EData p chunk) = ingest chunk m"
| "step m (EExit p) = on_exit p m"
| "step m (ECommand r now) =
     (case command (fst (request_line r)) (snd (request_line r)) now m of
        (Inl _, m') \<Rightarrow> ([], m') | (Inr es, m') \<Rightarrow> (es, m'))"
| "step m (ECheck now) = checkResponsiveness now m"
| "step m EClose = close_control m"

fun run_manager :: "manager \<Rightarrow> event list \<Rightarrow> effect list \<times> manager" where
  "run_manager m [] = ([], m)"
| "run_manager m (e # es) =
     (let (o1, m1) = step m e; (o2, m2) = run_manager m1 es in (o1 @ o2, m2))"

section \<open>Commands settle once, in order\<close>

fun settlements :: "effect list \<Rightarrow> (nat \<times> outcome) list" where
  "settlements [] = []"
| "settlements (Settle k out # es) = (k, out) # settlements es"
| "settlements (_ # es) = settlements es"

lemma settlements_append [simp]: "settlements (xs @ ys) = settlements xs @ settlements ys"
  by (induction xs rule: settlements.induct) simp_all

lemma settlements_rejects [simp]:
  "settlements (map (\<lambda>c. Settle (cid c) (Rejected msg)) cs) = map (\<lambda>c. (cid c, Rejected msg)) cs"
  by (induction cs) simp_all

lemma settlements_emit [simp]: "settlements (emit n) = []"
  by (cases n) (simp_all add: emit_def)

lemma settlements_kill [simp]: "settlements (kill_proc m) = []"
  by (simp add: kill_proc_def split: option.splits)

lemma kill_proc_mem [simp]: "Kill p \<in> set (kill_proc m) \<longleftrightarrow> proc m = Some p"
  by (auto simp: kill_proc_def split: option.splits)

lemma settlements_settleCommand [simp]:
  "\<exists>out. settlements [settleCommand c r] = [(cid c, out)]"
  by (simp add: settleCommand_def)

lemma run_manager_append:
  "run_manager m (xs @ ys) =
     (let (o1, m1) = run_manager m xs; (o2, m2) = run_manager m1 ys in (o1 @ o2, m2))"
  by (induction xs arbitrary: m) (auto split: prod.splits)

definition ids :: "nat \<Rightarrow> manager \<Rightarrow> nat list" where
  "ids k m = [Suc k..<Suc (commandSeq m)]"

text \<open>What an operation does to the queue: it settles a prefix, keeps the rest, and may add one.\<close>

definition fifo_ok :: "manager \<Rightarrow> effect list \<times> manager \<Rightarrow> bool" where
  "fifo_ok m r \<longleftrightarrow> commandSeq m \<le> commandSeq (snd r)
     \<and> map fst (settlements (fst r)) @ map cid (pending (snd r))
        = map cid (pending m) @ [Suc (commandSeq m)..<Suc (commandSeq (snd r))]
     \<and> (\<exists>k. pending (snd r) = drop k (pending m) \<or>
          (\<exists>c. pending (snd r) = pending m @ [c]))"

lemma fifo_open: "open_control cfg tmux native env cols rows m = Inr r \<Longrightarrow> fifo_ok m r"
  by (auto simp: open_control_def fifo_ok_def startWatchdog_def Let_def split: if_splits prod.splits
      intro: exI [of _ 0])

lemma fifo_exit: "fifo_ok m (on_exit p m)"
  by (auto simp: on_exit_def drain_pending_def clearWatchdog_def fifo_ok_def comp_def Let_def
      intro: exI [of _ "length (pending m)"])

lemma fifo_close: "fifo_ok m (close_control m)"
  by (auto simp: close_control_def clearWatchdog_def fifo_ok_def intro: exI [of _ 0])

lemma fifo_check: "fifo_ok m (checkResponsiveness now m)"
  by (auto simp: checkResponsiveness_def drain_pending_def clearWatchdog_def fifo_ok_def comp_def Let_def
      split: ResponsivenessAction.splits intro: exI [of _ 0] exI [of _ "length (pending m)"])

lemma fifo_ingest_one: "fifo_ok m (ingest_one n m)"
  by (cases n)
    (auto simp: ingest_one_def fifo_ok_def settleCommand_def split: list.splits
      intro: exI [of _ 0] exI [of _ 1])

lemma ingest_one_seq: "commandSeq (snd (ingest_one n m)) = commandSeq m"
  "\<exists>k. pending (snd (ingest_one n m)) = drop k (pending m)"
  by (cases n; auto simp: ingest_one_def split: list.splits intro: exI [of _ 0] exI [of _ 1])+

lemma fifo_ingest_all:
  "commandSeq (snd (ingest_all ns m)) = commandSeq m \<and>
   map fst (settlements (fst (ingest_all ns m))) @ map cid (pending (snd (ingest_all ns m)))
     = map cid (pending m) \<and>
   (\<exists>k. pending (snd (ingest_all ns m)) = drop k (pending m))"
proof (induction ns arbitrary: m)
  case Nil
  show ?case by (auto intro: exI [of _ 0])
next
  case (Cons n ns)
  obtain e1 m1 where one: "ingest_one n m = (e1, m1)" by (metis prod.exhaust)
  obtain e2 m2 where rest: "ingest_all ns m1 = (e2, m2)" by (metis prod.exhaust)
  from fifo_ingest_one [of m n] ingest_one_seq [of n m] one obtain j where
    a: "commandSeq m1 = commandSeq m" "map fst (settlements e1) @ map cid (pending m1) = map cid (pending m)"
      "pending m1 = drop j (pending m)"
    by (auto simp: fifo_ok_def)
  from Cons.IH [of m1] rest obtain k where
    b: "commandSeq m2 = commandSeq m1" "map fst (settlements e2) @ map cid (pending m2) = map cid (pending m1)"
      "pending m2 = drop k (pending m1)" by auto
  from a b have "pending m2 = drop (k + j) (pending m)" by simp
  with one rest a b show ?case by auto
qed

lemma fifo_ingest: "fifo_ok m (ingest chunk m)"
  using fifo_ingest_all [of "fst (feed (mparser m) chunk)" "m\<lparr>mparser := snd (feed (mparser m) chunk)\<rparr>"]
  by (auto simp: ingest_def fifo_ok_def split: prod.splits)

lemma fifo_command: "command args tol now m = (r, m') \<Longrightarrow>
    fifo_ok m (case r of Inl _ \<Rightarrow> [] | Inr es \<Rightarrow> es, m')"
  by (auto simp: command_def fifo_ok_def Let_def split: option.splits intro: exI [of _ 0])

lemma fifo_step: "fifo_ok m (step m e)"
proof (cases e)
  case (EOpen cfg tmux native env cols rows)
  then show ?thesis
    using fifo_open [of cfg tmux native env cols rows m]
    by (auto simp: fifo_ok_def split: sum.splits intro: exI [of _ 0])
next
  case (ECommand r now)
  obtain x m' where c: "command (fst (request_line r)) (snd (request_line r)) now m = (x, m')"
    by (metis prod.exhaust)
  with fifo_command [OF c] ECommand show ?thesis by (cases x) simp_all
qed (simp_all add: fifo_exit fifo_close fifo_check fifo_ingest)

lemma run_fifo:
  "commandSeq m \<le> commandSeq (snd (run_manager m es)) \<and>
   map fst (settlements (fst (run_manager m es))) @ map cid (pending (snd (run_manager m es)))
     = map cid (pending m) @ [Suc (commandSeq m)..<Suc (commandSeq (snd (run_manager m es)))]"
proof (induction es arbitrary: m)
  case Nil
  show ?case by simp
next
  case (Cons e es)
  obtain e1 m1 where one: "step m e = (e1, m1)" by (metis prod.exhaust)
  obtain e2 m2 where rest: "run_manager m1 es = (e2, m2)" by (metis prod.exhaust)
  from fifo_step [of m e] one have
    a: "commandSeq m \<le> commandSeq m1"
      "map fst (settlements e1) @ map cid (pending m1) = map cid (pending m) @ [Suc (commandSeq m)..<Suc (commandSeq m1)]"
    by (simp_all add: fifo_ok_def)
  from Cons.IH [of m1] rest have
    b: "commandSeq m1 \<le> commandSeq m2"
      "map fst (settlements e2) @ map cid (pending m2) = map cid (pending m1) @ [Suc (commandSeq m1)..<Suc (commandSeq m2)]"
    by simp_all
  from a(1) b(1) have "[Suc (commandSeq m)..<Suc (commandSeq m1)] @ [Suc (commandSeq m1)..<Suc (commandSeq m2)]
      = [Suc (commandSeq m)..<Suc (commandSeq m2)]"
    by (metis Suc_le_mono le_Suc_ex upt_add_eq_append)
  note c = this
  have "map fst (settlements (e1 @ e2)) @ map cid (pending m2)
      = map fst (settlements e1) @ (map fst (settlements e2) @ map cid (pending m2))" by simp
  also have "\<dots> = (map fst (settlements e1) @ map cid (pending m1)) @ [Suc (commandSeq m1)..<Suc (commandSeq m2)]"
    unfolding b(2) by simp
  also have "\<dots> = map cid (pending m) @ [Suc (commandSeq m)..<Suc (commandSeq m2)]"
    unfolding a(2) by (simp only: append.assoc c)
  finally show ?case using one rest a(1) b(1) by simp
qed

text \<open>What ends a connection settles everything in flight.\<close>

lemma exit_settles_all:
  "settlements (fst (step m (EExit p))) = map (\<lambda>c. (cid c, Rejected ''tmux control session exited'')) (pending m)
   \<and> pending (snd (step m (EExit p))) = []"
  by (simp add: on_exit_def drain_pending_def clearWatchdog_def Let_def)

lemma check_settles_all:
  "if pending m \<noteq> [] \<and> 15000 \<le> now - enqueuedAt (hd (pending m))
   then settlements (fst (step m (ECheck now))) =
          map (\<lambda>c. (cid c, Rejected ''tmux control unresponsive'')) (pending m)
      \<and> pending (snd (step m (ECheck now))) = []
      \<and> {q. Kill q \<in> set (fst (step m (ECheck now)))} = set_option (proc m)
   else settlements (fst (step m (ECheck now))) = [] \<and> pending (snd (step m (ECheck now))) = pending m"
  by (cases "pending m")
    (auto simp: checkResponsiveness_def classifyResponsiveness_def UNRESPONSIVE_FAIL_MS_def
      UNRESPONSIVE_WARN_MS_def drain_pending_def clearWatchdog_def Let_def)

section \<open>Replies reach the commands they answer\<close>

fun reply_of :: "TmuxNotification \<Rightarrow> CommandReply" where
  "reply_of (Reply k e ls) = \<lparr>rNum = k, rError = e, rLines = ls\<rparr>"
| "reply_of _ = \<lparr>rNum = 0, rError = False, rLines = []\<rparr>"

definition answer :: "PendingCommand \<Rightarrow> CommandReply \<Rightarrow> nat \<times> outcome" where
  "answer c r = (cid c, if rError r \<and> \<not> tolerateErrors c then Rejected (error_text (rLines r)) else Resolved r)"

text \<open>The commands a sequence of events issues on an open channel, and the data it brings.\<close>

fun issued :: "nat \<Rightarrow> event list \<Rightarrow> PendingCommand list" where
  "issued k [] = []"
| "issued k (ECommand r now # es) =
     \<lparr>cid = Suc k, tolerateErrors = snd (request_line r), enqueuedAt = now\<rparr> # issued (Suc k) es"
| "issued k (_ # es) = issued k es"

fun chunks :: "event list \<Rightarrow> string list" where
  "chunks [] = []"
| "chunks (EData p c # es) = c # chunks es"
| "chunks (_ # es) = chunks es"

definition quiet :: "event \<Rightarrow> bool" where
  "quiet e \<longleftrightarrow> (case e of EData _ _ \<Rightarrow> True | ECommand _ _ \<Rightarrow> True | _ \<Rightarrow> False)"

definition replies_in :: "parser \<Rightarrow> event list \<Rightarrow> TmuxNotification list" where
  "replies_in p es = filter is_reply (fst (feeds p (chunks es)))"

text \<open>tmux answers nothing it was not asked: never more replies than the attach block and the commands sent.\<close>

definition answers_only :: "manager \<Rightarrow> event list \<Rightarrow> bool" where
  "answers_only m es \<longleftrightarrow> (\<forall>i\<le>length es.
     length (replies_in (mparser m) (take i es)) \<le> Suc (length (issued (commandSeq m) (take i es))))"

lemma issued_append: "issued k (xs @ ys) = issued k xs @ issued (k + length (issued k xs)) ys"
  by (induction k xs rule: issued.induct) simp_all

lemma chunks_append: "chunks (xs @ ys) = chunks xs @ chunks ys"
  by (induction xs rule: chunks.induct) simp_all

lemma feeds_append:
  "feeds p (xs @ ys) = (let (o1, p1) = feeds p xs; (o2, p2) = feeds p1 ys in (o1 @ o2, p2))"
  by (induction xs arbitrary: p) (auto split: prod.splits)

text \<open>The state of the queue after some replies to the issued commands.\<close>

definition matched :: "PendingCommand list \<Rightarrow> TmuxNotification list \<Rightarrow> (nat \<times> outcome) list \<Rightarrow> manager \<Rightarrow> bool" where
  "matched cs rs outs m \<longleftrightarrow> sawInitialBlock m = (rs \<noteq> []) \<and> pending m = drop (length rs - 1) cs
     \<and> outs = map2 answer cs (map reply_of (tl rs))"

lemma map2_snoc:
  "length ys < length xs \<Longrightarrow> map2 f xs (ys @ [y]) = map2 f xs ys @ [f (xs ! length ys) y]"
proof (induction ys arbitrary: xs)
  case Nil
  then show ?case by (cases xs) simp_all
next
  case (Cons z ys)
  then show ?case by (cases xs) simp_all
qed

lemma map2_more:
  "length ys \<le> length xs \<Longrightarrow> map2 f (xs @ zs) ys = map2 f xs ys"
  by (induction ys arbitrary: xs) (auto simp: Suc_le_length_iff)

lemma matched_one:
  assumes "matched cs rs outs m" "is_reply n" "length (rs @ [n]) \<le> Suc (length cs)"
  shows "matched cs (rs @ [n]) (outs @ settlements (fst (ingest_one n m))) (snd (ingest_one n m))"
proof -
  obtain k e ls where n: "n = Reply k e ls" using assms(2) by (cases n) (auto simp: is_reply_def)
  show ?thesis
  proof (cases rs)
    case Nil
    with assms n show ?thesis by (simp add: matched_def ingest_one_def)
  next
    case (Cons r rs')
    with assms(1) have p: "pending m = drop (length rs') cs" "sawInitialBlock m"
      "outs = map2 answer cs (map reply_of rs')" by (simp_all add: matched_def)
    from assms(3) Cons have lt: "length rs' < length cs" by simp
    then have d: "drop (length rs') cs = cs ! length rs' # drop (Suc (length rs')) cs"
      by (rule Cons_nth_drop_Suc [symmetric])
    have z: "map2 answer cs (map reply_of (rs' @ [n]))
        = map2 answer cs (map reply_of rs') @ [answer (cs ! length rs') (reply_of n)]"
      using lt map2_snoc [of "map reply_of rs'" cs answer "reply_of n"] by simp
    show ?thesis
      using p d z n Cons
      by (simp add: matched_def ingest_one_def settleCommand_def answer_def)
  qed
qed

lemma ingest_one_other:
  "\<not> is_reply n \<Longrightarrow> snd (ingest_one n m) = m \<and> settlements (fst (ingest_one n m)) = []"
  by (cases n) (simp_all add: ingest_one_def is_reply_def)

lemma matched_all:
  assumes "matched cs rs outs m" "length (rs @ filter is_reply ns) \<le> Suc (length cs)"
  shows "matched cs (rs @ filter is_reply ns) (outs @ settlements (fst (ingest_all ns m))) (snd (ingest_all ns m))"
  using assms
proof (induction ns arbitrary: rs outs m)
  case Nil
  then show ?case by simp
next
  case (Cons n ns)
  obtain e1 m1 where one: "ingest_one n m = (e1, m1)" by (metis prod.exhaust)
  obtain e2 m2 where rest: "ingest_all ns m1 = (e2, m2)" by (metis prod.exhaust)
  show ?case
  proof (cases "is_reply n")
    case True
    with Cons.prems have "matched cs (rs @ [n]) (outs @ settlements e1) m1"
      using matched_one [of cs rs outs m n] one by simp
    from Cons.IH [OF this] Cons.prems True one rest show ?thesis by simp
  next
    case False
    with ingest_one_other [OF False, of m] one have "m1 = m" "settlements e1 = []" by auto
    with Cons.IH [of rs outs m] Cons.prems False one rest show ?thesis by simp
  qed
qed

text \<open>The channel is open, nothing of it has been read, and it stays open over quiet events.\<close>

definition just_opened :: "manager \<Rightarrow> bool" where
  "just_opened m \<longleftrightarrow> proc m \<noteq> None \<and> pending m = [] \<and> \<not> sawInitialBlock m"

lemma ingest_all_keeps:
  "mparser (snd (ingest_all ns m)) = mparser m \<and> proc (snd (ingest_all ns m)) = proc m"
proof (induction ns arbitrary: m)
  case Nil
  show ?case by simp
next
  case (Cons n ns)
  have "mparser (snd (ingest_one n m)) = mparser m \<and> proc (snd (ingest_one n m)) = proc m"
    by (cases n) (auto simp: ingest_one_def split: list.splits)
  with Cons [of "snd (ingest_one n m)"] show ?case by (auto split: prod.splits)
qed

lemma run_matched:
  assumes "just_opened m" "list_all quiet es" "answers_only m es"
  shows "proc (snd (run_manager m es)) \<noteq> None
    \<and> mparser (snd (run_manager m es)) = snd (feeds (mparser m) (chunks es))
    \<and> commandSeq (snd (run_manager m es)) = commandSeq m + length (issued (commandSeq m) es)
    \<and> matched (issued (commandSeq m) es) (replies_in (mparser m) es)
        (settlements (fst (run_manager m es))) (snd (run_manager m es))"
  using assms(2,3)
proof (induction es rule: rev_induct)
  case Nil
  with assms(1) show ?case by (simp add: just_opened_def matched_def replies_in_def)
next
  case (snoc e es)
  have "answers_only m es"
    unfolding answers_only_def
  proof (intro allI impI)
    fix i assume "i \<le> length es"
    with snoc.prems(2) [unfolded answers_only_def, rule_format, of i]
    show "length (replies_in (mparser m) (take i es)) \<le> Suc (length (issued (commandSeq m) (take i es)))"
      by simp
  qed
  with snoc obtain outs m1 where run: "run_manager m es = (outs, m1)"
    and p: "proc m1 \<noteq> None" and pa: "mparser m1 = snd (feeds (mparser m) (chunks es))"
    and seq: "commandSeq m1 = commandSeq m + length (issued (commandSeq m) es)"
    and mt: "matched (issued (commandSeq m) es) (replies_in (mparser m) es) (settlements outs) m1"
    by (cases "run_manager m es") auto
  let ?cs = "issued (commandSeq m) es" and ?rs = "replies_in (mparser m) es"
  show ?case
  proof (cases e)
    case (EData q c)
    obtain ns pr where f: "feed (mparser m1) c = (ns, pr)" by (metis prod.exhaust)
    obtain fs where fs: "feeds (mparser m) (chunks es) = (fs, mparser m1)" using pa by (metis prod.collapse)
    have rs: "replies_in (mparser m) (es @ [e]) = ?rs @ filter is_reply ns"
      using f fs EData by (simp add: replies_in_def chunks_append feeds_append)
    have le: "length (?rs @ filter is_reply ns) \<le> Suc (length ?cs)"
      using snoc.prems(2) [unfolded answers_only_def, rule_format, of "length (es @ [e])"] rs EData
      by (simp add: issued_append)
    have "matched ?cs ?rs (settlements outs) (m1\<lparr>mparser := pr\<rparr>)" using mt by (simp add: matched_def)
    from matched_all [OF this le] rs f EData p fs seq run ingest_all_keeps [of ns "m1\<lparr>mparser := pr\<rparr>"]
      fifo_ingest_all [of ns "m1\<lparr>mparser := pr\<rparr>"]
    show ?thesis
      by (auto simp: run_manager_append issued_append ingest_def chunks_append feeds_append
          split: prod.splits)
  next
    case (ECommand r now)
    have lr: "length ?rs \<le> Suc (length ?cs)"
      using snoc.prems(2) [unfolded answers_only_def, rule_format, of "length es"] by simp
    have rs: "replies_in (mparser m) (es @ [e]) = ?rs"
      using ECommand by (simp add: replies_in_def chunks_append)
    from p obtain q where q: "proc m1 = Some q" by auto
    have "length (map reply_of (tl ?rs)) \<le> length ?cs" using lr by simp
    from map2_more [OF this, of answer] mt rs ECommand q run seq lr pa show ?thesis
      by (simp add: run_manager_append issued_append command_def chunks_append matched_def)
  qed (use snoc.prems(1) in \<open>simp_all add: quiet_def\<close>)
qed

section \<open>No command waits for ever\<close>

fun issue_times :: "event list \<Rightarrow> nat list" where
  "issue_times [] = []"
| "issue_times (ECommand r now # es) = now # issue_times es"
| "issue_times (_ # es) = issue_times es"

definition queue_sorted :: "nat \<Rightarrow> manager \<Rightarrow> bool" where
  "queue_sorted t m \<longleftrightarrow> sorted (map enqueuedAt (pending m)) \<and> (\<forall>c\<in>set (pending m). enqueuedAt c \<le> t)"

lemma queue_sorted_drop:
  "queue_sorted t m \<Longrightarrow> pending m' = drop k (pending m) \<Longrightarrow> queue_sorted t m'"
  by (auto simp: queue_sorted_def drop_map [symmetric] dest: in_set_dropD)

lemma queue_step:
  "(\<forall>r now. e \<noteq> ECommand r now) \<Longrightarrow> \<exists>k. pending (snd (step m e)) = drop k (pending m)"
proof (cases e)
  case (EOpen cfg tmux native env cols rows)
  then show ?thesis
    by (auto simp: open_control_def startWatchdog_def Let_def split: sum.splits if_splits prod.splits
        intro: exI [of _ 0])
next
  case (EData q c)
  then show ?thesis
    using fifo_ingest_all [of "fst (feed (mparser m) c)" "m\<lparr>mparser := snd (feed (mparser m) c)\<rparr>"]
    by (auto simp: ingest_def split: prod.splits)
next
  case (EExit p)
  then show ?thesis
    by (auto simp: on_exit_def drain_pending_def clearWatchdog_def Let_def
        intro: exI [of _ "length (pending m)"])
next
  case (ECheck now)
  then show ?thesis
    by (auto simp: checkResponsiveness_def drain_pending_def clearWatchdog_def Let_def
        split: ResponsivenessAction.splits intro: exI [of _ 0] exI [of _ "length (pending m)"])
next
  case EClose
  then show ?thesis by (auto simp: close_control_def clearWatchdog_def intro: exI [of _ 0])
qed simp

lemma queue_run:
  "queue_sorted t m \<Longrightarrow> sorted (t # issue_times es @ [now]) \<Longrightarrow>
     queue_sorted now (snd (run_manager m es))"
proof (induction es arbitrary: t m)
  case Nil
  then show ?case by (fastforce simp: queue_sorted_def)
next
  case (Cons e es)
  have goal: "queue_sorted now (snd (run_manager (snd (step m e)) es))
      \<Longrightarrow> queue_sorted now (snd (run_manager m (e # es)))"
    by (auto split: prod.splits)
  show ?case
  proof (cases "\<exists>r u. e = ECommand r u")
    case True
    then obtain r u where e: "e = ECommand r u" by blast
    with Cons.prems have "t \<le> u" "sorted (u # issue_times es @ [now])" by auto
    moreover from this Cons.prems(1) e have "queue_sorted u (snd (step m e))"
      by (auto simp: queue_sorted_def command_def sorted_append Let_def split: option.splits)
    ultimately show ?thesis by (intro goal Cons.IH)
  next
    case False
    then obtain k where "pending (snd (step m e)) = drop k (pending m)" using queue_step by blast
    with Cons.prems(1) have "queue_sorted t (snd (step m e))" by (rule queue_sorted_drop)
    moreover have "issue_times (e # es) = issue_times es" using False by (cases e) auto
    ultimately show ?thesis using Cons by (intro goal) simp
  qed
qed

section \<open>Properties\<close>

text \<open>
  C9. Every command settles once, and none hangs past its connection: over any interleaving of
  opens, commands, data, pty exits, watchdog polls and closes, the commands settled so far, in
  the order they were settled, followed by those still in flight, are exactly the commands
  issued, in the order issued; none is lost, settles twice or overtakes another. A pty exit
  that comes next rejects everything in flight and leaves nothing. A watchdog poll that comes
  next does so too, and kills the pty, when the oldest command has waited 15 seconds, and
  otherwise settles nothing. (A close by itself settles nothing: the exit of the pty it kills
  does.)
\<close>

theorem commands_settle_once:
  "let (outs, m) = run_manager new_manager es;
       (xouts, xm) = step m (EExit p);
       (couts, cm) = step m (ECheck now)
   in map fst (settlements outs) @ map cid (pending m) = [1..<Suc (commandSeq m)]
    \<and> settlements xouts = map (\<lambda>c. (cid c, Rejected ''tmux control session exited'')) (pending m)
    \<and> pending xm = []
    \<and> (if pending m \<noteq> [] \<and> 15000 \<le> now - enqueuedAt (hd (pending m))
       then settlements couts = map (\<lambda>c. (cid c, Rejected ''tmux control unresponsive'')) (pending m)
          \<and> pending cm = [] \<and> {q. Kill q \<in> set couts} = set_option (proc m)
       else settlements couts = [] \<and> pending cm = pending m)"
proof -
  obtain outs m where r: "run_manager new_manager es = (outs, m)" by (metis prod.exhaust)
  have "pending new_manager = []" "commandSeq new_manager = 0" by (simp_all add: new_manager_def)
  with run_fifo [of new_manager es] r
  have "map fst (settlements outs) @ map cid (pending m) = [1..<Suc (commandSeq m)]"
    by (simp del: upt_Suc)
  with r exit_settles_all [of m p] check_settles_all [of m now] show ?thesis
    by (simp add: case_prod_beta del: upt_Suc step.simps)
qed

text \<open>
  C10. Replies reach the commands they answer: on a freshly opened channel, while tmux answers
  only what it was asked, however the stream is cut into chunks and interleaved with new
  commands, the attach block is skipped and the k-th command is settled by the k-th reply
  after it: with that reply, or, when the command does not tolerate errors, rejected with
  the text of the error.
\<close>

theorem replies_reach_their_commands:
  assumes "just_opened m" "list_all quiet es" "answers_only m es"
  shows "settlements (fst (run_manager m es)) =
      map2 answer (issued (commandSeq m) es) (map reply_of (tl (replies_in (mparser m) es)))
    \<and> pending (snd (run_manager m es)) =
      drop (length (replies_in (mparser m) es) - 1) (issued (commandSeq m) es)"
  using run_matched [OF assms] by (simp add: matched_def)

definition opened_manager :: manager where
  "opened_manager = new_manager\<lparr>proc := Some 0, opened := True, nextProc := 1\<rparr>"

definition attach_block :: TmuxParser.event where
  "attach_block = Block ''1'' 1 ''0'' False ''1 1 0'' []"

definition error_block :: TmuxParser.event where
  "error_block = Block ''1'' 2 ''0'' True ''1 2 0'' [''no pane'']"

theorem replies_reach_their_commands_witness:
  "settlements (fst (run_manager opened_manager [EData 0 (wire [attach_block]),
      ECommand (RKillPane ''%9'') 5, EData 0 (wire [error_block])])) =
     [(1, Rejected ''tmux command error: no pane'')]"
proof -
  let ?es = "[EData 0 (wire [attach_block]), ECommand (RKillPane ''%9'') 5, EData 0 (wire [error_block])]"
  have lines: "list_all line_ok (event_lines attach_block @ event_lines error_block)" by code_simp
  have body: "list_all (\<lambda>l. \<not> is_close_line l \<and> \<not> is_exit_line l) [''no pane'']" by code_simp
  have ts: "token ''1''" by code_simp
  have ok: "wire_ok [attach_block]" "wire_ok [attach_block, error_block]"
    using lines body ts by (simp_all add: wire_ok_def attach_block_def error_block_def list_all_iff)
  have p: "mparser opened_manager = new_parser" by (simp add: opened_manager_def new_manager_def)
  have one: "feeds new_parser [wire [attach_block]] = (map event_note [attach_block], new_parser)"
    by (rule feed_wire [OF ok(1)]) simp
  have two: "feeds new_parser [wire [attach_block], wire [error_block]]
      = (map event_note [attach_block, error_block], new_parser)"
    by (rule feed_wire [OF ok(2)]) (simp add: wire_def)
  have r0: "replies_in new_parser [] = []" by (simp add: replies_in_def)
  have r1: "replies_in new_parser [EData 0 (wire [attach_block])] = [Reply 1 False []]"
    using one by (simp add: replies_in_def is_reply_def attach_block_def)
  have r2: "replies_in new_parser [EData 0 (wire [attach_block]), ECommand (RKillPane ''%9'') 5] = [Reply 1 False []]"
    using one by (simp add: replies_in_def is_reply_def attach_block_def)
  have r3: "replies_in new_parser ?es = [Reply 1 False [], Reply 2 True [''no pane'']]"
    using two by (simp add: replies_in_def is_reply_def attach_block_def error_block_def)
  have "answers_only opened_manager ?es"
    unfolding answers_only_def p
  proof (intro allI impI)
    fix i assume "i \<le> length ?es"
    then consider "i = 0" | "i = 1" | "i = 2" | "i = 3" by fastforce
    then show "length (replies_in new_parser (take i ?es)) \<le> Suc (length (issued (commandSeq opened_manager) (take i ?es)))"
      by cases (simp_all add: r0 r1 r2 r3)
  qed
  moreover have "just_opened opened_manager"
    by (simp add: just_opened_def opened_manager_def new_manager_def)
  moreover have "list_all quiet ?es" by (simp add: quiet_def)
  ultimately have "settlements (fst (run_manager opened_manager ?es)) =
      map2 answer (issued (commandSeq opened_manager) ?es) (map reply_of (tl (replies_in (mparser opened_manager) ?es)))"
    using replies_reach_their_commands by blast
  then show ?thesis
    unfolding p r3 by (simp add: answer_def error_text_def opened_manager_def new_manager_def)
qed

text \<open>
  No command waits for ever: when commands are issued at non-decreasing times, then after
  a watchdog poll every command still in flight is younger than fifteen seconds; and when
  one was older, all of them have been rejected in order and the pty has been killed, so
  that no late reply can be taken for the answer to another command.
\<close>

theorem watchdog_bounds_waiting:
  assumes "sorted (issue_times es @ [now])"
  shows "let m = snd (run_manager new_manager es); (o2, m') = checkResponsiveness now m in
      (\<forall>c\<in>set (pending m'). now - enqueuedAt c < 15000)
    \<and> ((\<exists>c\<in>set (pending m). 15000 \<le> now - enqueuedAt c) \<longrightarrow>
         pending m' = []
       \<and> settlements o2 = map (\<lambda>c. (cid c, Rejected ''tmux control unresponsive'')) (pending m)
       \<and> (\<forall>p. proc m = Some p \<longrightarrow> Kill p \<in> set o2))"
proof -
  let ?m = "snd (run_manager new_manager es)"
  have "queue_sorted 0 new_manager" by (simp add: queue_sorted_def new_manager_def)
  with assms have s: "queue_sorted now ?m" by (intro queue_run) auto
  show ?thesis
  proof (cases "pending ?m")
    case Nil
    then show ?thesis by (simp add: checkResponsiveness_def classifyResponsiveness_def Let_def)
  next
    case (Cons c cs)
    with s have le: "\<forall>d\<in>set cs. enqueuedAt c \<le> enqueuedAt d" by (simp add: queue_sorted_def)
    show ?thesis
    proof (cases "15000 \<le> now - enqueuedAt c")
      case True
      with Cons show ?thesis
        by (auto simp: checkResponsiveness_def classifyResponsiveness_def UNRESPONSIVE_FAIL_MS_def
            drain_pending_def clearWatchdog_def Let_def)
    next
      case False
      with le have young: "\<forall>d\<in>set (pending ?m). now - enqueuedAt d < 15000"
        using Cons by fastforce
      moreover from False Cons have "pending (snd (checkResponsiveness now ?m)) = pending ?m"
        by (auto simp: checkResponsiveness_def classifyResponsiveness_def UNRESPONSIVE_FAIL_MS_def Let_def
            split: ResponsivenessAction.splits)
      ultimately show ?thesis by (auto simp: Let_def split: prod.splits)
    qed
  qed
qed

theorem watchdog_bounds_waiting_witness:
  "let m = snd (run_manager new_manager []); (o2, m') = checkResponsiveness 20000 m in
     \<forall>c\<in>set (pending m'). 20000 - enqueuedAt c < 15000"
  using watchdog_bounds_waiting [of "[]" 20000] by (simp add: Let_def split: prod.splits)

section \<open>Behaviours worth knowing\<close>

text \<open>
  The exit of the old pty, arriving after the channel was reopened, closes the new one: the
  manager forgets its pty without killing it and is no longer open.
\<close>

lemma late_exit_closes_new_channel:
  "let m = snd (run_manager new_manager
      [EOpen cfg True native env None None, EClose, EOpen cfg True native env None None]);
       (outs, m') = on_exit 0 m
   in isOpenManager m \<and> proc m = Some 1 \<and> \<not> isOpenManager m' \<and> proc m' = None \<and> Kill 1 \<notin> set outs"
  by (auto simp: new_manager_def open_control_def close_control_def startWatchdog_def clearWatchdog_def
      on_exit_def drain_pending_def emit_def isOpenManager_def kill_proc_def Let_def split: prod.splits)

end
