(* ===== verification/CallbackProtocol.thy ===== *)
theory CallbackProtocol
  imports Complex_Main WireFrame
begin

text \<open>
  The terminal callback protocol, \<open>src/shared/callback/protocol.ts\<close> and \<open>env.ts\<close>: the
  envelope and argument validation every listener shares, the pane identity, and the
  environment values injected into terminals.

  A parsed JSON value is a \<open>json\<close>; an object is the list of its own properties. A property
  that is absent reads as \<open>JUndef\<close>, as in the source.
\<close>

section \<open>JSON values\<close>

datatype json =
    JUndef
  | JNull
  | JBool bool
  | JNum rat
  | JStr string
  | JArr "json list"
  | JObj "(string \<times> json) list"

definition jget :: "(string \<times> json) list \<Rightarrow> string \<Rightarrow> json" where
  "jget r k = (case map_of r k of None \<Rightarrow> JUndef | Some v \<Rightarrow> v)"

fun isRecord :: "json \<Rightarrow> (string \<times> json) list option" where
  "isRecord (JObj r) = Some r"
| "isRecord _ = None"

section \<open>Constants\<close>

definition CALLBACK_PROTOCOL_VERSION :: nat where "CALLBACK_PROTOCOL_VERSION = 1"
definition CALLBACK_MAX_FRAME_BYTES :: nat where "CALLBACK_MAX_FRAME_BYTES = 64 * 1024"
definition CALLBACK_RATE_LIMIT_PER_SECOND :: nat where "CALLBACK_RATE_LIMIT_PER_SECOND = 10"
definition CALLBACK_MAX_PATH_BYTES :: nat where "CALLBACK_MAX_PATH_BYTES = 4096"
definition MAX_OP_CHARS :: nat where "MAX_OP_CHARS = 32"
definition MAX_PANE_ID_CHARS :: nat where "MAX_PANE_ID_CHARS = 128"
definition CALLBACK_CLI_ENV :: string where "CALLBACK_CLI_ENV = ''COCKPIT_CLI''"
definition CALLBACK_MUX_KEY_ENV :: string where "CALLBACK_MUX_KEY_ENV = ''COCKPIT_CALLBACK_MUX_KEY''"
definition CALLBACK_OPS :: "string list" where "CALLBACK_OPS = [''open'']"

definition isCallbackOp :: "string \<Rightarrow> bool" where
  "isCallbackOp op \<longleftrightarrow> op \<in> set CALLBACK_OPS"

section \<open>Messages\<close>

datatype CallbackErrorCode =
    UnsupportedOp | BadRequest | RateLimited | Timeout | NotConnected | Internal

datatype pane_kind = TmuxPane | MuxPane

record CallbackPane =
  paneKind :: pane_kind
  cbPaneId :: string

record OpenArgs =
  argPath :: string
  argCanonical :: "string option"

datatype CallbackReply =
    OkDispatched (replyId: nat)
  | ErrorReply (replyId: nat) (errorCode: CallbackErrorCode) (errorMessage: string)

section \<open>Validation\<close>

definition is_control :: "char \<Rightarrow> bool" where
  "is_control c \<longleftrightarrow> (of_char c :: nat) < 32 \<or> of_char c = (127 :: nat)"

fun isPaneId :: "json \<Rightarrow> string option" where
  "isPaneId (JStr s) =
     (if 0 < length s \<and> length s \<le> MAX_PANE_ID_CHARS \<and> list_all (\<lambda>c. \<not> is_control c) s
      then Some s else None)"
| "isPaneId _ = None"

definition parsePane :: "json \<Rightarrow> CallbackPane option" where
  "parsePane raw =
     (case isRecord raw of
        None \<Rightarrow> None
      | Some r \<Rightarrow>
          (case (if jget r ''kind'' = JStr ''tmux'' then Some TmuxPane
                 else if jget r ''kind'' = JStr ''mux'' then Some MuxPane else None, isPaneId (jget r ''id'')) of
             (Some k, Some i) \<Rightarrow> Some \<lparr>paneKind = k, cbPaneId = i\<rparr>
           | _ \<Rightarrow> None))"

datatype envelope =
    EnvOk (envId: nat) (envOp: string) (envPane: "CallbackPane option") (envArgs: json)
  | EnvBad (envId: nat) (envMessage: string)

text \<open>\<open>Number.isSafeInteger(x) && x >= 1\<close>, giving the number or 0.\<close>

fun safe_id :: "json \<Rightarrow> nat" where
  "safe_id (JNum x) =
     (if of_int \<lfloor>x\<rfloor> = x \<and> 1 \<le> x \<and> x \<le> 9007199254740991 then nat \<lfloor>x\<rfloor> else 0)"
| "safe_id _ = 0"

definition parseCallbackEnvelope :: "json \<Rightarrow> envelope" where
  "parseCallbackEnvelope raw =
     (case isRecord raw of
        None \<Rightarrow> EnvBad 0 ''request must be a JSON object''
      | Some r \<Rightarrow>
          let i = safe_id (jget r ''id'') in
          if jget r ''v'' \<noteq> JNum (of_nat CALLBACK_PROTOCOL_VERSION)
          then EnvBad i ''unsupported protocol version (expected v=1)''
          else if i = 0 then EnvBad i ''id must be a positive integer''
          else (case jget r ''op'' of
              JStr op \<Rightarrow>
                if op = [] \<or> MAX_OP_CHARS < length op then EnvBad i ''op must be a non-empty string''
                else if jget r ''pane'' = JUndef \<or> jget r ''pane'' = JNull
                then EnvOk i op None (jget r ''args'')
                else (case parsePane (jget r ''pane'') of
                        None \<Rightarrow> EnvBad i ''pane must be {kind: \"tmux\" | \"mux\", id: string}''
                      | Some p \<Rightarrow> EnvOk i op (Some p) (jget r ''args''))
            | _ \<Rightarrow> EnvBad i ''op must be a non-empty string''))"

definition parseAbsolutePath :: "json \<Rightarrow> string \<Rightarrow> string + string" where
  "parseAbsolutePath v field =
     (case v of
        JStr s \<Rightarrow>
          if s = [] then Inl (field @ '' must be a non-empty string'')
          else if \<not> startsWith s ''/'' then Inl (field @ '' must be an absolute path'')
          else if CHR 0x00 \<in> set s then Inl (field @ '' must not contain NUL'')
          else if CALLBACK_MAX_PATH_BYTES < length (utf8Encode s)
          then Inl (field @ '' is longer than '' @ showNat CALLBACK_MAX_PATH_BYTES @ '' bytes'')
          else Inr s
      | _ \<Rightarrow> Inl (field @ '' must be a non-empty string''))"

definition parseOpenArgs :: "json \<Rightarrow> string + OpenArgs" where
  "parseOpenArgs raw =
     (case isRecord raw of
        None \<Rightarrow> Inl ''args must be an object''
      | Some r \<Rightarrow>
          bindR (parseAbsolutePath (jget r ''path'') ''path'') (\<lambda>p.
            if jget r ''canonicalPath'' = JUndef \<or> jget r ''canonicalPath'' = JNull
            then Inr \<lparr>argPath = p, argCanonical = None\<rparr>
            else bindR (parseAbsolutePath (jget r ''canonicalPath'') ''canonicalPath'') (\<lambda>c.
              Inr \<lparr>argPath = p, argCanonical = Some c\<rparr>)))"

section \<open>Identity and injected values\<close>

definition env_json :: "string option \<Rightarrow> json" where
  "env_json o1 = (case o1 of None \<Rightarrow> JUndef | Some s \<Rightarrow> JStr s)"

definition paneFromEnv :: "(string \<rightharpoonup> string) \<Rightarrow> CallbackPane option" where
  "paneFromEnv env =
     (case isPaneId (env_json (env CALLBACK_MUX_KEY_ENV)) of
        Some k \<Rightarrow> Some \<lparr>paneKind = MuxPane, cbPaneId = k\<rparr>
      | None \<Rightarrow>
          (case isPaneId (env_json (env ''TMUX_PANE'')) of
             Some k \<Rightarrow> Some \<lparr>paneKind = TmuxPane, cbPaneId = k\<rparr>
           | None \<Rightarrow> None))"

definition isInjectableEnvValue :: "string \<Rightarrow> bool" where
  "isInjectableEnvValue v \<longleftrightarrow> CHR 0x00 \<notin> set v \<and> CHR 0x0D \<notin> set v \<and> CHR 0x0A \<notin> set v"

definition CALLBACK_SOCK_ENV :: string where "CALLBACK_SOCK_ENV = ''COCKPIT_CALLBACK_SOCK''"
definition CALLBACK_VERSION_ENV :: string where "CALLBACK_VERSION_ENV = ''COCKPIT_CALLBACK_VERSION''"

definition CALLBACK_TMUX_ENV_NAMES :: "string list" where
  "CALLBACK_TMUX_ENV_NAMES = [CALLBACK_SOCK_ENV, CALLBACK_VERSION_ENV, CALLBACK_CLI_ENV]"

definition CALLBACK_UPDATE_ENVIRONMENT_FIRST_INDEX :: nat where
  "CALLBACK_UPDATE_ENVIRONMENT_FIRST_INDEX = 100"

fun index_of :: "'a \<Rightarrow> 'a list \<Rightarrow> nat option" where
  "index_of x [] = None"
| "index_of x (y # ys) = (if x = y then Some 0 else map_option Suc (index_of x ys))"

text \<open>For one of the three names; the type of the argument excludes every other string.\<close>

definition callbackUpdateEnvironmentOption :: "string \<Rightarrow> string option" where
  "callbackUpdateEnvironmentOption nm =
     map_option (\<lambda>i. ''update-environment['' @ showNat (CALLBACK_UPDATE_ENVIRONMENT_FIRST_INDEX + i) @ '']'')
       (index_of nm CALLBACK_TMUX_ENV_NAMES)"

definition buildCallbackEnvironment :: "string \<Rightarrow> string \<Rightarrow> (string \<rightharpoonup> string) option" where
  "buildCallbackEnvironment sock cli =
     (let vars = [CALLBACK_SOCK_ENV \<mapsto> sock, CALLBACK_VERSION_ENV \<mapsto> showNat CALLBACK_PROTOCOL_VERSION,
                  CALLBACK_CLI_ENV \<mapsto> cli]
      in if list_all (\<lambda>nm. the (vars nm) \<noteq> [] \<and> isInjectableEnvValue (the (vars nm))) CALLBACK_TMUX_ENV_NAMES
         then Some vars else None)"

definition callbackEnvironmentEntries :: "(string \<rightharpoonup> string) \<Rightarrow> (string \<times> string) list" where
  "callbackEnvironmentEntries vars = map (\<lambda>nm. (nm, the (vars nm))) CALLBACK_TMUX_ENV_NAMES"

definition callbackMuxOperands :: "(string \<rightharpoonup> string) \<Rightarrow> string \<Rightarrow> string list option" where
  "callbackMuxOperands vars key =
     (if key = [] \<or> \<not> isInjectableEnvValue key then None
      else Some (map (\<lambda>(nm, v). nm @ ''='' @ v) (callbackEnvironmentEntries vars)
                 @ [CALLBACK_MUX_KEY_ENV @ ''='' @ key]))"

section \<open>Well-formed requests\<close>

definition id_ok :: "nat \<Rightarrow> bool" where
  "id_ok n \<longleftrightarrow> 1 \<le> n \<and> n \<le> 9007199254740991"

definition pane_ok :: "CallbackPane \<Rightarrow> bool" where
  "pane_ok p \<longleftrightarrow> cbPaneId p \<noteq> [] \<and> length (cbPaneId p) \<le> 128 \<and> list_all (\<lambda>c. \<not> is_control c) (cbPaneId p)"

definition path_ok :: "string \<Rightarrow> bool" where
  "path_ok s \<longleftrightarrow> startsWith s ''/'' \<and> CHR 0x00 \<notin> set s \<and> length (utf8Encode s) \<le> 4096"

definition pane_json :: "CallbackPane \<Rightarrow> json" where
  "pane_json p = JObj [(''kind'', JStr (case paneKind p of TmuxPane \<Rightarrow> ''tmux'' | MuxPane \<Rightarrow> ''mux'')),
     (''id'', JStr (cbPaneId p))]"

text \<open>The request the \<open>cockpit\<close> CLI builds for an \<open>open\<close>.\<close>

definition open_request :: "nat \<Rightarrow> CallbackPane option \<Rightarrow> OpenArgs \<Rightarrow> json" where
  "open_request n pane a = JObj
     ([(''v'', JNum 1), (''id'', JNum (of_nat n)), (''op'', JStr ''open'')]
      @ (case pane of None \<Rightarrow> [] | Some p \<Rightarrow> [(''pane'', pane_json p)])
      @ [(''args'', JObj ((''path'', JStr (argPath a))
           # (case argCanonical a of None \<Rightarrow> [] | Some c \<Rightarrow> [(''canonicalPath'', JStr c)])))])"

lemma safe_id_nat [simp]: "id_ok n \<Longrightarrow> safe_id (JNum (of_nat n)) = n"
proof -
  assume a: "id_ok n"
  have "(of_nat n :: rat) \<le> of_nat 9007199254740991" using a by (simp only: id_ok_def of_nat_le_iff)
  with a show ?thesis by (simp add: id_ok_def)
qed

lemma safe_id_range: "safe_id j = 0 \<or> id_ok (safe_id j)"
proof (cases j)
  case (JNum x)
  show ?thesis
  proof (cases "of_int \<lfloor>x\<rfloor> = x \<and> 1 \<le> x \<and> x \<le> 9007199254740991")
    case True
    then have "1 \<le> \<lfloor>x\<rfloor>" "\<lfloor>x\<rfloor> \<le> 9007199254740991" by linarith+
    with True JNum show ?thesis by (auto simp: id_ok_def)
  next
    case False
    with JNum show ?thesis by auto
  qed
qed simp_all

lemma safe_id_iff: "safe_id j = i \<and> i \<noteq> 0 \<longleftrightarrow> j = JNum (of_nat i) \<and> id_ok i"
proof
  assume a: "safe_id j = i \<and> i \<noteq> 0"
  then obtain x where j: "j = JNum x" by (cases j) auto
  with a have "of_int \<lfloor>x\<rfloor> = x" "1 \<le> x" "i = nat \<lfloor>x\<rfloor>" by (auto split: if_splits)
  then have "x = of_nat i" by (metis le_floor_iff nat_0_le of_int_of_nat_eq of_int_1 zero_le_one order.trans)
  with a j safe_id_range [of j] show "j = JNum (of_nat i) \<and> id_ok i" by auto
next
  assume "j = JNum (of_nat i) \<and> id_ok i"
  then show "safe_id j = i \<and> i \<noteq> 0" by (auto simp: id_ok_def simp del: safe_id.simps)
qed

lemma isPaneId_iff:
  "isPaneId v = Some s \<longleftrightarrow> v = JStr s \<and> s \<noteq> [] \<and> length s \<le> 128 \<and> list_all (\<lambda>c. \<not> is_control c) s"
  by (cases v) (auto simp: MAX_PANE_ID_CHARS_def)

lemma parsePane_iff:
  "parsePane j = Some p \<longleftrightarrow>
     (\<exists>q. j = JObj q \<and> jget q ''kind'' = JStr (case paneKind p of TmuxPane \<Rightarrow> ''tmux'' | MuxPane \<Rightarrow> ''mux'')
        \<and> jget q ''id'' = JStr (cbPaneId p) \<and> pane_ok p)"
proof (cases j)
  case (JObj q)
  show ?thesis
  proof (cases "isPaneId (jget q ''id'')")
    case None
    with JObj isPaneId_iff [of "jget q ''id''" "cbPaneId p"] show ?thesis
      by (auto simp: parsePane_def pane_ok_def MAX_PANE_ID_CHARS_def split: option.splits)
  next
    case (Some i)
    with JObj show ?thesis
      by (cases p) (auto simp: parsePane_def pane_ok_def isPaneId_iff MAX_PANE_ID_CHARS_def split: option.splits pane_kind.splits)
  qed
qed (simp_all add: parsePane_def)

lemma parseAbsolutePath_iff: "parseAbsolutePath v f = Inr s \<longleftrightarrow> v = JStr s \<and> path_ok s"
proof (cases v)
  case (JStr t)
  then show ?thesis
    by (auto simp: parseAbsolutePath_def path_ok_def CALLBACK_MAX_PATH_BYTES_def not_less)
qed (auto simp: parseAbsolutePath_def)

lemma parseOpenArgs_iff:
  "parseOpenArgs j = Inr a \<longleftrightarrow>
     (\<exists>r. j = JObj r \<and> jget r ''path'' = JStr (argPath a) \<and> path_ok (argPath a)
        \<and> (case argCanonical a of
             None \<Rightarrow> jget r ''canonicalPath'' \<in> {JUndef, JNull}
           | Some c \<Rightarrow> jget r ''canonicalPath'' = JStr c \<and> path_ok c))"
proof (cases j)
  case (JObj r)
  then show ?thesis
    by (cases a) (auto simp: parseOpenArgs_def bindR_Inr_iff parseAbsolutePath_iff split: option.splits)
qed (simp_all add: parseOpenArgs_def)

lemma envelope_iff:
  "parseCallbackEnvelope raw = EnvOk i op pane args \<longleftrightarrow>
     (\<exists>r. raw = JObj r \<and> jget r ''v'' = JNum 1 \<and> jget r ''id'' = JNum (of_nat i) \<and> id_ok i
        \<and> jget r ''op'' = JStr op \<and> op \<noteq> [] \<and> length op \<le> 32
        \<and> (case pane of
             None \<Rightarrow> jget r ''pane'' \<in> {JUndef, JNull}
           | Some p \<Rightarrow> \<exists>q. jget r ''pane'' = JObj q
               \<and> jget q ''kind'' = JStr (case paneKind p of TmuxPane \<Rightarrow> ''tmux'' | MuxPane \<Rightarrow> ''mux'')
               \<and> jget q ''id'' = JStr (cbPaneId p) \<and> pane_ok p)
        \<and> args = jget r ''args'')"
proof (cases raw)
  case (JObj r)
  define k where "k = safe_id (jget r ''id'')"
  have id: "jget r ''id'' = JNum (of_nat i) \<and> id_ok i \<longleftrightarrow> k = i \<and> i \<noteq> 0"
    unfolding k_def by (rule safe_id_iff [symmetric])
  have pn: "(parsePane (jget r ''pane'') = pane \<and> pane \<noteq> None) \<longleftrightarrow>
      (\<exists>p q. pane = Some p \<and> jget r ''pane'' = JObj q
         \<and> jget q ''kind'' = JStr (case paneKind p of TmuxPane \<Rightarrow> ''tmux'' | MuxPane \<Rightarrow> ''mux'')
         \<and> jget q ''id'' = JStr (cbPaneId p) \<and> pane_ok p)"
    using parsePane_iff [of "jget r ''pane''"] by (cases pane) auto
  have "parseCallbackEnvelope raw = EnvOk i op pane args \<longleftrightarrow>
      jget r ''v'' = JNum 1 \<and> (k = i \<and> i \<noteq> 0) \<and> jget r ''op'' = JStr op \<and> op \<noteq> [] \<and> length op \<le> 32
      \<and> (pane = None \<and> jget r ''pane'' \<in> {JUndef, JNull}
         \<or> jget r ''pane'' \<notin> {JUndef, JNull} \<and> parsePane (jget r ''pane'') = pane \<and> pane \<noteq> None)
      \<and> args = jget r ''args''"
    using JObj by (auto simp: parseCallbackEnvelope_def MAX_OP_CHARS_def CALLBACK_PROTOCOL_VERSION_def
        Let_def k_def [symmetric] split: if_splits json.splits option.splits)
  with JObj show ?thesis unfolding id [symmetric] pn by (cases pane) auto
qed (simp_all add: parseCallbackEnvelope_def)

lemma envelope_bad_id:
  "parseCallbackEnvelope raw = EnvBad i msg \<Longrightarrow>
     i = (case raw of JObj r \<Rightarrow> safe_id (jget r ''id'') | _ \<Rightarrow> 0)"
  by (cases raw) (auto simp: parseCallbackEnvelope_def Let_def split: if_splits json.splits option.splits)

text \<open>So every well-formed \<open>open\<close> of the client is accepted as it was meant.\<close>

lemma open_request_accepted:
  assumes "id_ok n" "\<forall>p. pane = Some p \<longrightarrow> pane_ok p"
    and "path_ok (argPath a)" "\<forall>c. argCanonical a = Some c \<longrightarrow> path_ok c"
  shows "\<exists>args. parseCallbackEnvelope (open_request n pane a) = EnvOk n ''open'' pane args
            \<and> parseOpenArgs args = Inr a"
proof (intro exI conjI)
  let ?args = "JObj ((''path'', JStr (argPath a))
      # (case argCanonical a of None \<Rightarrow> [] | Some c \<Rightarrow> [(''canonicalPath'', JStr c)]))"
  have pj: "pane_json p = JObj [(''kind'', JStr (case paneKind p of TmuxPane \<Rightarrow> ''tmux'' | MuxPane \<Rightarrow> ''mux'')),
      (''id'', JStr (cbPaneId p))]" for p by (rule pane_json_def)
  show "parseCallbackEnvelope (open_request n pane a) = EnvOk n ''open'' pane ?args"
    unfolding envelope_iff open_request_def
    by (rule exI, rule conjI [OF refl]) (use assms(1,2) in \<open>simp add: jget_def pj split: option.split\<close>)
  show "parseOpenArgs ?args = Inr a"
    unfolding parseOpenArgs_iff
    by (rule exI, rule conjI [OF refl]) (use assms(3,4) in \<open>simp add: jget_def split: option.split\<close>)
qed

text \<open>How a terminal's environment reads the operands: \<open>env\<close> splits each at its first \<open>=\<close>.\<close>

definition split_operand :: "string \<Rightarrow> string \<times> string" where
  "split_operand s = (takeWhile (\<lambda>c. c \<noteq> CHR ''='') s, tl (dropWhile (\<lambda>c. c \<noteq> CHR ''='') s))"

definition apply_operands :: "(string \<rightharpoonup> string) \<Rightarrow> string list \<Rightarrow> (string \<rightharpoonup> string)" where
  "apply_operands env ops = foldl (\<lambda>m s. let (k, v) = split_operand s in m(k \<mapsto> v)) env ops"

lemma split_operand_name: "CHR ''='' \<notin> set k \<Longrightarrow> split_operand (k @ CHR ''='' # v) = (k, v)"
proof -
  assume "CHR ''='' \<notin> set k"
  then have "\<forall>c\<in>set k. c \<noteq> CHR ''=''" by auto
  then show ?thesis by (simp add: split_operand_def)
qed

section \<open>Properties\<close>

text \<open>
  C11. The envelope is accepted exactly when it should be, and read as it is. A value passes as
  the request \<open>(i, op, pane, args)\<close> if and only if it is an object whose \<open>v\<close> is the number 1,
  whose \<open>id\<close> is the number \<open>i\<close>, an integer from 1 to \<open>2^53 - 1\<close>, whose \<open>op\<close> is the string \<open>op\<close> of
  1 to 32 characters, whose \<open>pane\<close> is absent or null when \<open>pane\<close> is none and otherwise an
  object with the kind and id of \<open>pane\<close>, the id of 1 to 128 characters without control
  characters, and whose \<open>args\<close> are \<open>args\<close>. Arguments pass as an \<open>open\<close>'s if and only if they are
  an object with its \<open>path\<close>, absolute, of at most 4096 bytes and without NUL, and with a
  \<open>canonicalPath\<close> that is absent or null or as good. A refusal carries the request's own id
  when that is valid, else 0.
\<close>

theorem envelope_exact:
  "(parseCallbackEnvelope raw = EnvOk i op pane args \<longleftrightarrow>
     (\<exists>r. raw = JObj r \<and> jget r ''v'' = JNum 1 \<and> jget r ''id'' = JNum (of_nat i) \<and> id_ok i
        \<and> jget r ''op'' = JStr op \<and> op \<noteq> [] \<and> length op \<le> 32
        \<and> (case pane of
             None \<Rightarrow> jget r ''pane'' \<in> {JUndef, JNull}
           | Some p \<Rightarrow> \<exists>q. jget r ''pane'' = JObj q
               \<and> jget q ''kind'' = JStr (case paneKind p of TmuxPane \<Rightarrow> ''tmux'' | MuxPane \<Rightarrow> ''mux'')
               \<and> jget q ''id'' = JStr (cbPaneId p) \<and> pane_ok p)
        \<and> args = jget r ''args''))
   \<and> (parseOpenArgs v = Inr a \<longleftrightarrow>
     (\<exists>r. v = JObj r \<and> jget r ''path'' = JStr (argPath a) \<and> path_ok (argPath a)
        \<and> (case argCanonical a of
             None \<Rightarrow> jget r ''canonicalPath'' \<in> {JUndef, JNull}
           | Some c \<Rightarrow> jget r ''canonicalPath'' = JStr c \<and> path_ok c)))
   \<and> (case parseCallbackEnvelope raw of
        EnvOk _ _ _ _ \<Rightarrow> True
      | EnvBad j msg \<Rightarrow>
          (case raw of
             JObj r \<Rightarrow> if j = 0 then (\<nexists>k. jget r ''id'' = JNum (of_nat k) \<and> id_ok k)
                       else jget r ''id'' = JNum (of_nat j) \<and> id_ok j
           | _ \<Rightarrow> j = 0))"
proof (intro conjI)
  show "case parseCallbackEnvelope raw of
        EnvOk _ _ _ _ \<Rightarrow> True
      | EnvBad j msg \<Rightarrow>
          (case raw of
             JObj r \<Rightarrow> if j = 0 then (\<nexists>k. jget r ''id'' = JNum (of_nat k) \<and> id_ok k)
                       else jget r ''id'' = JNum (of_nat j) \<and> id_ok j
           | _ \<Rightarrow> j = 0)"
  proof (cases "parseCallbackEnvelope raw")
    case (EnvBad j msg)
    note b = envelope_bad_id [OF this]
    show ?thesis
    proof (cases raw)
      case (JObj r)
      have "jget r ''id'' = JNum (of_nat k) \<and> id_ok k \<longleftrightarrow> j = k \<and> k \<noteq> 0" for k
        using safe_id_iff [of "jget r ''id''" k] b JObj by (simp del: safe_id.simps)
      note this [simp]
      from EnvBad JObj show ?thesis by (simp del: safe_id.simps) 
    qed (use b EnvBad in simp_all)
  qed simp
qed (rule envelope_iff, rule parseOpenArgs_iff)

text \<open>
  Terminal identity: the environment is all or nothing (all three values non-empty and
  free of NUL and line breaks, or none), and the operands given to a mux terminal, applied
  to any inherited environment, define exactly the three values and the terminal's key, so
  the client in it reports that key even when a stale \<open>TMUX_PANE\<close> was inherited.
\<close>

theorem mux_identity:
  assumes "buildCallbackEnvironment sock cli = Some vars" "callbackMuxOperands vars key = Some ops"
  shows "apply_operands base ops CALLBACK_SOCK_ENV = Some sock
    \<and> apply_operands base ops CALLBACK_CLI_ENV = Some cli
    \<and> apply_operands base ops CALLBACK_VERSION_ENV = Some ''1''
    \<and> apply_operands base ops CALLBACK_MUX_KEY_ENV = Some key
    \<and> sock \<noteq> [] \<and> cli \<noteq> [] \<and> list_all isInjectableEnvValue ops
    \<and> (pane_ok \<lparr>paneKind = MuxPane, cbPaneId = key\<rparr> \<longrightarrow>
         paneFromEnv (apply_operands base ops) = Some \<lparr>paneKind = MuxPane, cbPaneId = key\<rparr>)"
proof -
  note names = CALLBACK_SOCK_ENV_def CALLBACK_VERSION_ENV_def CALLBACK_CLI_ENV_def CALLBACK_MUX_KEY_ENV_def
  have v1: "showNat CALLBACK_PROTOCOL_VERSION = ''1''"
    by (simp add: CALLBACK_PROTOCOL_VERSION_def showNat_unfold digit_chars)
  from assms(1) have vars: "vars = [CALLBACK_SOCK_ENV \<mapsto> sock, CALLBACK_VERSION_ENV \<mapsto> ''1'', CALLBACK_CLI_ENV \<mapsto> cli]"
    and ok: "sock \<noteq> []" "cli \<noteq> []" "isInjectableEnvValue sock" "isInjectableEnvValue cli"
    by (auto simp: buildCallbackEnvironment_def CALLBACK_TMUX_ENV_NAMES_def names v1 Let_def split: if_splits)
  from assms(2) vars have ops: "ops = [CALLBACK_SOCK_ENV @ CHR ''='' # sock, CALLBACK_VERSION_ENV @ CHR ''='' # ''1'',
      CALLBACK_CLI_ENV @ CHR ''='' # cli, CALLBACK_MUX_KEY_ENV @ CHR ''='' # key]"
    and key: "isInjectableEnvValue key"
    by (auto simp: callbackMuxOperands_def callbackEnvironmentEntries_def CALLBACK_TMUX_ENV_NAMES_def names
        split: if_splits)
  have app: "apply_operands base ops = base(CALLBACK_SOCK_ENV \<mapsto> sock, CALLBACK_VERSION_ENV \<mapsto> ''1'',
      CALLBACK_CLI_ENV \<mapsto> cli, CALLBACK_MUX_KEY_ENV \<mapsto> key)"
  proof -
    have "CHR ''='' \<notin> set CALLBACK_SOCK_ENV" "CHR ''='' \<notin> set CALLBACK_VERSION_ENV"
      "CHR ''='' \<notin> set CALLBACK_CLI_ENV" "CHR ''='' \<notin> set CALLBACK_MUX_KEY_ENV"
      by (simp_all add: names)
    then show ?thesis by (simp add: apply_operands_def ops split_operand_name)
  qed
  have "paneFromEnv (apply_operands base ops) = Some \<lparr>paneKind = MuxPane, cbPaneId = key\<rparr>"
    if "pane_ok \<lparr>paneKind = MuxPane, cbPaneId = key\<rparr>"
    using that unfolding paneFromEnv_def app
    by (simp add: env_json_def pane_ok_def MAX_PANE_ID_CHARS_def)
  moreover have "list_all isInjectableEnvValue ops"
    using ok key by (simp add: ops isInjectableEnvValue_def names)
  ultimately show ?thesis using ok unfolding app by (simp add: names)
qed

theorem mux_identity_witness:
  "\<exists>vars ops. buildCallbackEnvironment ''/run/c.sock'' ''/opt/my app/cockpit'' = Some vars
     \<and> callbackMuxOperands vars ''term-1'' = Some ops
     \<and> paneFromEnv (apply_operands [''TMUX_PANE'' \<mapsto> ''%0''] ops) = Some \<lparr>paneKind = MuxPane, cbPaneId = ''term-1''\<rparr>"
proof -
  have "buildCallbackEnvironment ''/run/c.sock'' ''/opt/my app/cockpit'' \<noteq> None"
    by (simp add: buildCallbackEnvironment_def CALLBACK_TMUX_ENV_NAMES_def CALLBACK_SOCK_ENV_def
        CALLBACK_VERSION_ENV_def CALLBACK_CLI_ENV_def CALLBACK_PROTOCOL_VERSION_def isInjectableEnvValue_def
        showNat_unfold digit_chars Let_def)
  then obtain vars where v: "buildCallbackEnvironment ''/run/c.sock'' ''/opt/my app/cockpit'' = Some vars" by blast
  have "callbackMuxOperands vars ''term-1'' \<noteq> None"
    by (simp add: callbackMuxOperands_def isInjectableEnvValue_def)
  then obtain ops where o: "callbackMuxOperands vars ''term-1'' = Some ops" by blast
  have "pane_ok \<lparr>paneKind = MuxPane, cbPaneId = ''term-1''\<rparr>" by (simp add: pane_ok_def is_control_def)
  with mux_identity [OF v o, of "[''TMUX_PANE'' \<mapsto> ''%0'']"] v o show ?thesis by blast
qed

end
