(* ===== verification/JsText.thy ===== *)
theory JsText
  imports Prelude
begin

text \<open>
  The part of the JavaScript and Node standard libraries that several components use on text:
  lower-casing, \<open>Number.parseInt\<close> in base ten, and \<open>path.posix\<close>.
\<close>

section \<open>Letters and numbers\<close>

definition lower_unit :: "char \<Rightarrow> char" where
  "lower_unit c = (let n = (of_char c :: nat)
     in if (65 \<le> n \<and> n \<le> 90) \<or> (192 \<le> n \<and> n \<le> 222 \<and> n \<noteq> 215) then char_of (n + 32) else c)"

definition toLowerCase :: "string \<Rightarrow> string" where
  "toLowerCase s = map lower_unit s"

text \<open>\<open>Number.parseInt(s, 10)\<close>: white space, a sign, then digits; \<open>None\<close> is \<open>NaN\<close>.\<close>

definition parse_digits :: "string \<Rightarrow> int option" where
  "parse_digits s = (let ds = takeWhile is_digit s in if ds = [] then None else Some (int (readNat ds)))"

definition parseInt10 :: "string \<Rightarrow> int option" where
  "parseInt10 s =
     (case dropWhile is_ws s of
        [] \<Rightarrow> None
      | c # r \<Rightarrow> (if c = CHR ''-'' then map_option uminus (parse_digits r)
                 else if c = CHR ''+'' then parse_digits r
                 else parse_digits (c # r)))"

lemma parseInt10_showNat [simp]: "parseInt10 (showNat n) = Some (int n)"
proof -
  obtain c r where s: "showNat n = c # r" using showNat_ne [of n] by (cases "showNat n") auto
  then have "is_digit c" using showNat_digits [of c n] by simp
  then have "\<not> is_ws c" "c \<noteq> CHR ''-''" "c \<noteq> CHR ''+''" by (auto simp: is_digit_def is_ws_def)
  with s have "parseInt10 (showNat n) = parse_digits (showNat n)" by (simp add: parseInt10_def)
  then show ?thesis by (simp add: parse_digits_def)
qed

section \<open>Node's posix paths\<close>

text \<open>
  \<open>path.posix.normalize\<close>: empty and \<open>.\<close> segments go, \<open>..\<close> removes the segment before it
  and is kept only at the front of a relative path; a trailing slash stays.
\<close>

definition norm_step :: "bool \<Rightarrow> string list \<Rightarrow> string \<Rightarrow> string list" where
  "norm_step allow acc s =
     (if s = [] \<or> s = ''.'' then acc
      else if s = ''..'' then
        (if acc \<noteq> [] \<and> last acc \<noteq> ''..'' then butlast acc
         else if allow then acc @ [''..''] else acc)
      else acc @ [s])"

definition norm_segments :: "bool \<Rightarrow> string list \<Rightarrow> string list" where
  "norm_segments allow segs = foldl (norm_step allow) [] segs"

definition posix_normalize :: "string \<Rightarrow> string" where
  "posix_normalize p =
     (if p = [] then ''.''
      else
        let isAbs = startsWith p ''/''; trailing = endsWith p ''/'';
            body = joinWith ''/'' (norm_segments (\<not> isAbs) (splitOn (CHR ''/'') p))
        in if body = [] then (if isAbs then ''/'' else if trailing then ''./'' else ''.'')
           else (if isAbs then ''/'' else []) @ body @ (if trailing then ''/'' else []))"

definition posix_join :: "string \<Rightarrow> string \<Rightarrow> string" where
  "posix_join a b = posix_normalize (joinWith ''/'' (filter (\<lambda>s. s \<noteq> []) [a, b]))"

end
