(* ===== verification/CallbackBroker.thy ===== *)
theory CallbackBroker
  imports CallbackProtocol JsText
begin

text \<open>
  Main's side of the callback socket: the token bucket (\<open>electron/main/callback/limiter.ts\<close>),
  the classification of an opened path (\<open>classify.ts\<close>, with the part of Node's
  \<open>path.posix\<close> it uses), and the broker (\<open>broker.ts\<close>): its decision function, the
  asynchronous dispatch of an accepted open, and the per-project listener lifecycle.

  Times are rational milliseconds and tokens exact rationals; JavaScript computes both in
  doubles. A provider is a number, because the code compares providers by identity.
\<close>

section \<open>Token bucket\<close>

record TokenBucket =
  capacity :: rat
  perSecond :: rat
  tokens :: rat
  lastTime :: rat

definition new_TokenBucket :: "rat \<Rightarrow> rat \<Rightarrow> rat \<Rightarrow> TokenBucket" where
  "new_TokenBucket cap rate now = \<lparr>capacity = cap, perSecond = rate, tokens = cap, lastTime = now\<rparr>"

definition tryTake :: "rat \<Rightarrow> TokenBucket \<Rightarrow> bool \<times> TokenBucket" where
  "tryTake t b =
     (let b1 = b\<lparr>tokens := min (capacity b) (tokens b + (max 0 (t - lastTime b) / 1000) * perSecond b),
                 lastTime := t\<rparr>
      in if tokens b1 < 1 then (False, b1) else (True, b1\<lparr>tokens := tokens b1 - 1\<rparr>))"

section \<open>Classification\<close>

definition strip_slashes :: "string \<Rightarrow> string" where
  "strip_slashes s = rev (dropWhile (\<lambda>c. c = CHR ''/'') (rev s))"

definition clean :: "string \<Rightarrow> string" where
  "clean path =
     (let n = posix_normalize path in if 1 < length n then strip_slashes n else n)"

definition relativeInside :: "string \<Rightarrow> string \<Rightarrow> string option" where
  "relativeInside rt subject =
     (let base = clean rt; prefix = (if base = ''/'' then ''/'' else base @ ''/'')
      in if length prefix < length subject \<and> startsWith subject prefix
         then Some (drop (length prefix) subject) else None)"

definition deepestWorktree :: "string list \<Rightarrow> string \<Rightarrow> (string \<times> string) option" where
  "deepestWorktree worktrees subject = foldl (\<lambda>best w.
     case relativeInside w subject of
       None \<Rightarrow> best
     | Some rel \<Rightarrow>
         (case best of
            None \<Rightarrow> Some (w, rel)
          | Some (b, _) \<Rightarrow> if length (clean b) < length (clean w) then Some (w, rel) else best)) None worktrees"

record rootAlias =
  configured :: string
  canonical :: string

definition viaRootAlias :: "string \<Rightarrow> rootAlias option \<Rightarrow> string list" where
  "viaRootAlias logical alias =
     (case alias of
        None \<Rightarrow> []
      | Some a \<Rightarrow>
          (case relativeInside (configured a) logical of
             None \<Rightarrow> []
           | Some rel \<Rightarrow> [clean (posix_join (canonical a) rel)]))"

datatype OpenSelection =
    FileSel (selPath: string) (selWorktree: string)
  | ExternalSel (selPath: string)

record ClassifyInput =
  ciPath :: string
  ciCanonical :: "string option"
  ciWorktrees :: "string list"
  ciRoots :: "string list"
  ciAlias :: "rootAlias option"

definition subjects_of :: "ClassifyInput \<Rightarrow> string list" where
  "subjects_of i =
     (case ciCanonical i of
        Some c \<Rightarrow> [clean c]
      | None \<Rightarrow> clean (ciPath i) # viaRootAlias (clean (ciPath i)) (ciAlias i))"

fun first_hit :: "('a \<Rightarrow> 'b option) \<Rightarrow> 'a list \<Rightarrow> 'b option" where
  "first_hit f [] = None"
| "first_hit f (x # xs) = (case f x of None \<Rightarrow> first_hit f xs | Some y \<Rightarrow> Some y)"

definition classifyOpenTarget :: "ClassifyInput \<Rightarrow> OpenSelection" where
  "classifyOpenTarget i =
     (case first_hit (deepestWorktree (ciWorktrees i)) (subjects_of i) of
        Some (w, rel) \<Rightarrow> FileSel rel w
      | None \<Rightarrow>
          (case first_hit (\<lambda>rt. relativeInside rt (hd (subjects_of i))) (ciRoots i) of
             Some rel \<Rightarrow> FileSel rel []
           | None \<Rightarrow> ExternalSel (clean (ciPath i))))"

text \<open>
  \<open>resolveOpenSelection\<close>, given what its awaited calls came back with: the worktree paths or
  a failure, whether the provider is local, and the realpath of the root or a failure.
\<close>

definition resolveOpenSelection :: "string list option \<Rightarrow> bool \<Rightarrow> string option \<Rightarrow> string \<Rightarrow> OpenArgs \<Rightarrow> OpenSelection" where
  "resolveOpenSelection wts isLocal rpath projectRoot a =
     (let alias = (if isLocal then
            (case rpath of None \<Rightarrow> None
             | Some r \<Rightarrow> if r \<noteq> projectRoot then Some \<lparr>configured = projectRoot, canonical = r\<rparr> else None)
          else None)
      in classifyOpenTarget \<lparr>ciPath = argPath a, ciCanonical = argCanonical a,
           ciWorktrees = (case wts of None \<Rightarrow> [] | Some ws \<Rightarrow> ws),
           ciRoots = projectRoot # (case alias of None \<Rightarrow> [] | Some al \<Rightarrow> [canonical al]),
           ciAlias = alias\<rparr>)"

section \<open>The decision function\<close>

text \<open>What the broker reads of a project's session: whether it is connected, its provider and root.\<close>

record session_view =
  connected :: bool
  provider :: "nat option"
  projectRootOf :: "string option"

record open_job =
  jobProject :: string
  jobProvider :: nat
  jobRoot :: string
  jobArgs :: OpenArgs
  jobPane :: "CallbackPane option"

record OpenEvent =
  evProject :: string
  evSelection :: OpenSelection
  evPane :: "CallbackPane option"

type_synonym limiters = "string \<rightharpoonup> TokenBucket"

definition limiterFor :: "rat \<Rightarrow> string \<Rightarrow> limiters \<Rightarrow> TokenBucket" where
  "limiterFor now p lims =
     (case lims p of
        Some b \<Rightarrow> b
      | None \<Rightarrow> new_TokenBucket (of_nat CALLBACK_RATE_LIMIT_PER_SECOND) (of_nat CALLBACK_RATE_LIMIT_PER_SECOND) now)"

text \<open>\<open>dispatchOpen\<close> up to its first await: the job, or nothing when the session is already gone.\<close>

definition dispatch_start :: "session_view \<Rightarrow> string \<Rightarrow> OpenArgs \<Rightarrow> CallbackPane option \<Rightarrow> open_job option" where
  "dispatch_start sv p a pane =
     (case (provider sv, projectRootOf sv) of
        (Some pr, Some rt) \<Rightarrow>
          Some \<lparr>jobProject = p, jobProvider = pr, jobRoot = rt, jobArgs = a, jobPane = pane\<rparr>
      | _ \<Rightarrow> None)"

definition handleOpen :: "session_view \<Rightarrow> string \<Rightarrow> nat \<Rightarrow> CallbackPane option \<Rightarrow> json
    \<Rightarrow> CallbackReply \<times> open_job option" where
  "handleOpen sv p i pane args =
     (case parseOpenArgs args of
        Inl msg \<Rightarrow> (ErrorReply i BadRequest msg, None)
      | Inr a \<Rightarrow> (OkDispatched i, dispatch_start sv p a pane))"

definition handle :: "rat \<Rightarrow> session_view \<Rightarrow> string \<Rightarrow> json \<Rightarrow> limiters
    \<Rightarrow> (CallbackReply \<times> open_job option) \<times> limiters" where
  "handle now sv p raw lims =
     (case parseCallbackEnvelope raw of
        EnvBad i msg \<Rightarrow> ((ErrorReply i BadRequest msg, None), lims)
      | EnvOk i op pane args \<Rightarrow>
          if \<not> isCallbackOp op then ((ErrorReply i UnsupportedOp ''unsupported operation'', None), lims)
          else
            let (got, b) = tryTake now (limiterFor now p lims); lims1 = lims(p \<mapsto> b)
            in if \<not> got then ((ErrorReply i RateLimited ''too many requests'', None), lims1)
               else if \<not> connected sv then ((ErrorReply i NotConnected ''project is not connected'', None), lims1)
               else (handleOpen sv p i pane args, lims1))"

text \<open>The rest of \<open>dispatchOpen\<close>, when the awaited calls have come back.\<close>

definition dispatch_finish :: "session_view \<Rightarrow> string list option \<Rightarrow> bool \<Rightarrow> string option \<Rightarrow> open_job
    \<Rightarrow> OpenEvent option" where
  "dispatch_finish sv wts isLocal rpath j =
     (let sel = resolveOpenSelection wts isLocal rpath (jobRoot j) (jobArgs j)
      in if provider sv \<noteq> Some (jobProvider j) \<or> \<not> connected sv then None
         else Some \<lparr>evProject = jobProject j, evSelection = sel, evPane = jobPane j\<rparr>)"

section \<open>The listener lifecycle of one project\<close>

text \<open>
  Operations of a project run strictly in call order; an idle project starts its operation at
  once. \<open>bound\<close> is the ghost set of listeners that are serving a socket.
\<close>

datatype listener_op = OpBind | OpStop

datatype phase =
    Binding
  | Retiring nat
  | Closing nat
  | Finished

record lifecycle =
  listener :: "nat option"
  running :: "phase option"
  queued :: "listener_op list"
  bound :: "nat set"
  nextListener :: nat

definition new_lifecycle :: lifecycle where
  "new_lifecycle = \<lparr>listener = None, running = None, queued = [], bound = {}, nextListener = 0\<rparr>"

fun begin_op :: "listener_op \<Rightarrow> lifecycle \<Rightarrow> lifecycle" where
  "begin_op OpBind s = s\<lparr>running := Some Binding\<rparr>"
| "begin_op OpStop s =
     (case listener s of
        None \<Rightarrow> s\<lparr>running := Some Finished\<rparr>
      | Some l \<Rightarrow> s\<lparr>listener := None, running := Some (Closing l)\<rparr>)"

definition serialized :: "listener_op \<Rightarrow> lifecycle \<Rightarrow> lifecycle" where
  "serialized op s =
     (case running s of None \<Rightarrow> begin_op op s | Some _ \<Rightarrow> s\<lparr>queued := queued s @ [op]\<rparr>)"

definition startLocalListener :: "bool \<Rightarrow> lifecycle \<Rightarrow> lifecycle" where
  "startLocalListener win32 s = (if win32 then s else serialized OpBind s)"

definition stopListener :: "lifecycle \<Rightarrow> lifecycle" where
  "stopListener s = serialized OpStop s"

text \<open>The limiter a stop operation drops when it runs.\<close>

definition drop_limiter :: "string \<Rightarrow> limiters \<Rightarrow> limiters" where
  "drop_limiter p lims = lims(p := None)"

text \<open>What the awaited call of the running operation came back with; \<open>Settled\<close> moves the queue on.\<close>

datatype progress = BindOk | BindFailed | Closed | Settled

inductive advance :: "progress \<Rightarrow> lifecycle \<Rightarrow> lifecycle \<Rightarrow> bool" where
  bind_first: "running s = Some Binding \<Longrightarrow> listener s = None \<Longrightarrow>
     advance BindOk s (s\<lparr>listener := Some (nextListener s), bound := insert (nextListener s) (bound s),
       nextListener := Suc (nextListener s), running := Some Finished\<rparr>)"
| bind_over: "running s = Some Binding \<Longrightarrow> listener s = Some l \<Longrightarrow>
     advance BindOk s (s\<lparr>listener := Some (nextListener s), bound := insert (nextListener s) (bound s),
       nextListener := Suc (nextListener s), running := Some (Retiring l)\<rparr>)"
| bind_failed: "running s = Some Binding \<Longrightarrow> advance BindFailed s (s\<lparr>running := Some Finished\<rparr>)"
| retired: "running s = Some (Retiring l) \<Longrightarrow>
     advance Closed s (s\<lparr>bound := bound s - {l}, running := Some Finished\<rparr>)"
| closed: "running s = Some (Closing l) \<Longrightarrow>
     advance Closed s (s\<lparr>bound := bound s - {l}, running := Some Finished\<rparr>)"
| settle_idle: "running s = Some Finished \<Longrightarrow> queued s = [] \<Longrightarrow> advance Settled s (s\<lparr>running := None\<rparr>)"
| settle_next: "running s = Some Finished \<Longrightarrow> queued s = op # ops \<Longrightarrow>
     advance Settled s (begin_op op (s\<lparr>queued := ops\<rparr>))"

inductive lifecycle_step :: "lifecycle \<Rightarrow> lifecycle \<Rightarrow> bool" where
  call_start: "lifecycle_step s (startLocalListener win s)"
| call_stop: "lifecycle_step s (stopListener s)"
| progress: "advance p s s' \<Longrightarrow> lifecycle_step s s'"

inductive_cases advance_cases: "advance p s s'"

section \<open>The rate limit\<close>

record request =
  rqTime :: rat
  rqSession :: session_view
  rqProject :: string
  rqRaw :: json

text \<open>
  A broker's history: requests, and the runs of \<open>stopListener\<close>'s operation, which forgets the
  project's limiter.
\<close>

datatype broker_event = Asked request | Stopped string

fun run_broker :: "limiters \<Rightarrow> broker_event list \<Rightarrow> (string \<times> CallbackReply) list \<times> limiters" where
  "run_broker lims [] = ([], lims)"
| "run_broker lims (Asked r # es) =
     (let (out, l1) = handle (rqTime r) (rqSession r) (rqProject r) (rqRaw r) lims;
          (outs, l2) = run_broker l1 es
      in ((rqProject r, fst out) # outs, l2))"
| "run_broker lims (Stopped p # es) = run_broker (drop_limiter p lims) es"

text \<open>The times of the requests of a history, and how often a project's listener was stopped.\<close>

fun ask_times :: "broker_event list \<Rightarrow> rat list" where
  "ask_times [] = []"
| "ask_times (Asked r # es) = rqTime r # ask_times es"
| "ask_times (Stopped p # es) = ask_times es"

fun stops :: "string \<Rightarrow> broker_event list \<Rightarrow> nat" where
  "stops p [] = 0"
| "stops p (Asked r # es) = stops p es"
| "stops p (Stopped q # es) = (if q = p then 1 else 0) + stops p es"

lemma ask_times_append [simp]: "ask_times (xs @ ys) = ask_times xs @ ask_times ys"
  by (induction xs rule: ask_times.induct) simp_all

definition is_dispatched :: "CallbackReply \<Rightarrow> bool" where
  "is_dispatched r \<longleftrightarrow> (case r of OkDispatched _ \<Rightarrow> True | _ \<Rightarrow> False)"

definition dispatched :: "string \<Rightarrow> (string \<times> CallbackReply) list \<Rightarrow> nat" where
  "dispatched p outs = length (filter (\<lambda>(q, r). q = p \<and> is_dispatched r) outs)"

definition bucket_ok :: "rat \<Rightarrow> TokenBucket \<Rightarrow> bool" where
  "bucket_ok t b \<longleftrightarrow> capacity b = 10 \<and> perSecond b = 10 \<and> 0 \<le> tokens b \<and> tokens b \<le> 10 \<and> lastTime b \<le> t"

definition limiters_ok :: "rat \<Rightarrow> limiters \<Rightarrow> bool" where
  "limiters_ok t lims \<longleftrightarrow> (\<forall>p b. lims p = Some b \<longrightarrow> bucket_ok t b)"

definition available :: "rat \<Rightarrow> string \<Rightarrow> limiters \<Rightarrow> rat" where
  "available t p lims =
     (case lims p of None \<Rightarrow> 10 | Some b \<Rightarrow> min 10 (tokens b + (t - lastTime b) / 100))"

lemma refill_rate: "(t * 10 - l * 10) / 1000 = (t - l) / (100 :: rat)"
proof -
  have "t * 10 - l * 10 = 10 * (t - l)" by simp
  then show ?thesis by simp
qed

lemma tryTake_ok:
  assumes "bucket_ok t b"
  shows "bucket_ok t (snd (tryTake t b))"
    and "tokens (snd (tryTake t b)) + (if fst (tryTake t b) then 1 else 0) = min 10 (tokens b + (t - lastTime b) / 100)"
    and "lastTime (snd (tryTake t b)) = t"
  using assms by (auto simp: bucket_ok_def tryTake_def Let_def min_def refill_rate)

lemma limiterFor_ok: "limiters_ok t lims \<Longrightarrow> bucket_ok t (limiterFor t p lims)"
  by (auto simp: limiterFor_def limiters_ok_def new_TokenBucket_def bucket_ok_def
      CALLBACK_RATE_LIMIT_PER_SECOND_def split: option.splits)

lemma available_limiterFor:
  "available t p lims = min 10 (tokens (limiterFor t p lims) + (t - lastTime (limiterFor t p lims)) / 100)"
  by (auto simp: available_def limiterFor_def new_TokenBucket_def CALLBACK_RATE_LIMIT_PER_SECOND_def
      split: option.splits)

lemma limiters_ok_mono: "limiters_ok t lims \<Longrightarrow> t \<le> u \<Longrightarrow> limiters_ok u lims"
  unfolding limiters_ok_def bucket_ok_def by (meson order_trans)

lemma available_mono: "t \<le> u \<Longrightarrow> available u p lims \<le> available t p lims + (u - t) / 100"
  by (auto simp: available_def min_def field_simps split: option.splits)

lemma available_le: "available t p lims \<le> 10"
  by (simp add: available_def split: option.splits)

lemma available_nonneg: "limiters_ok t lims \<Longrightarrow> 0 \<le> available t p lims"
  by (auto simp: available_def limiters_ok_def bucket_ok_def split: option.splits)

lemma handle_limiters:
  assumes "limiters_ok t lims" "handle t sv q raw lims = ((rep, job), lims')"
  shows "limiters_ok t lims'
    \<and> (if q = p \<and> is_dispatched rep then 1 else 0) + available t p lims' \<le> available t p lims"
proof (cases "parseCallbackEnvelope raw")
  case (EnvBad i msg)
  with assms show ?thesis by (auto simp: handle_def is_dispatched_def)
next
  case (EnvOk i op pane args)
  show ?thesis
  proof (cases "isCallbackOp op")
    case False
    with EnvOk assms show ?thesis by (auto simp: handle_def is_dispatched_def)
  next
    case True
    obtain got b where tt: "tryTake t (limiterFor t q lims) = (got, b)" by (metis prod.exhaust)
    note ok = tryTake_ok [OF limiterFor_ok [OF assms(1), of q]]
    from assms(2) EnvOk True tt have l: "lims' = lims(q \<mapsto> b)"
      and d: "is_dispatched rep \<Longrightarrow> got"
      by (auto simp: handle_def is_dispatched_def Let_def split: if_splits)
    from ok tt have b: "bucket_ok t b" "tokens b + (if got then 1 else 0) = available t q lims" "lastTime b = t"
      by (simp_all add: available_limiterFor)
    then have "available t q lims' = tokens b" by (simp add: l available_def bucket_ok_def min_def)
    moreover have "available t p lims' = available t p lims" if "p \<noteq> q"
      using that by (simp add: l available_def)
    moreover have "limiters_ok t lims'" using assms(1) b(1) by (auto simp: l limiters_ok_def)
    ultimately show ?thesis using b(2) d by (cases got; cases "p = q") auto
  qed
qed

lemma drop_limiter_ok: "limiters_ok t lims \<Longrightarrow> limiters_ok t (drop_limiter q lims)"
  by (simp add: limiters_ok_def drop_limiter_def)

lemma drop_limiter_available:
  "limiters_ok t lims \<Longrightarrow> available t p (drop_limiter q lims) \<le> available t p lims + (if q = p then 10 else 0)"
proof (cases "q = p")
  case True
  assume "limiters_ok t lims"
  then have "0 \<le> available t p lims" by (rule available_nonneg)
  moreover have "available t p (drop_limiter q lims) = 10"
    using True by (simp add: available_def drop_limiter_def)
  ultimately show ?thesis using True by simp
qed (simp add: available_def drop_limiter_def)

lemma run_broker_bound:
  assumes "limiters_ok t lims" "sorted (t # ask_times es)"
  shows "of_nat (dispatched p (fst (run_broker lims es))) + available (last (t # ask_times es)) p (snd (run_broker lims es))
      \<le> available t p lims + 10 * of_nat (stops p es) + (last (t # ask_times es) - t) / 100
    \<and> limiters_ok (last (t # ask_times es)) (snd (run_broker lims es))"
  using assms
proof (induction es arbitrary: t lims rule: ask_times.induct)
  case 1
  then show ?case by (simp add: dispatched_def)
next
  case (2 r es)
  let ?u = "rqTime r"
  obtain rep job l1 where h: "handle ?u (rqSession r) (rqProject r) (rqRaw r) lims = ((rep, job), l1)"
    by (metis prod.exhaust)
  obtain outs l2 where rest: "run_broker l1 es = (outs, l2)" by (metis prod.exhaust)
  from "2.prems" have tu: "t \<le> ?u" and s: "sorted (?u # ask_times es)" by auto
  from handle_limiters [OF limiters_ok_mono [OF "2.prems"(1) tu] h, of p] have
    l1: "limiters_ok ?u l1"
      "(if rqProject r = p \<and> is_dispatched rep then 1 else 0) + available ?u p l1 \<le> available ?u p lims" by auto
  from "2.IH" [OF l1(1) s] rest have ih:
    "of_nat (dispatched p outs) + available (last (?u # ask_times es)) p l2
        \<le> available ?u p l1 + 10 * of_nat (stops p es) + (last (?u # ask_times es) - ?u) / 100"
    "limiters_ok (last (?u # ask_times es)) l2" by simp_all
  have d: "rat_of_nat (dispatched p ((rqProject r, rep) # outs))
      = (if rqProject r = p \<and> is_dispatched rep then 1 else 0) + of_nat (dispatched p outs)"
    by (simp add: dispatched_def)
  from available_mono [OF tu, of p lims] l1(2) ih(1) d have
    "of_nat (dispatched p ((rqProject r, rep) # outs)) + available (last (?u # ask_times es)) p l2
      \<le> available t p lims + 10 * of_nat (stops p es) + (last (?u # ask_times es) - t) / 100"
    by (simp add: field_simps)
  with h rest ih(2) show ?case by simp
next
  case (3 q es)
  have s: "sorted (t # ask_times es)" using "3.prems"(2) by simp
  have "10 * rat_of_nat (stops p (Stopped q # es)) = (if q = p then 10 else 0) + 10 * of_nat (stops p es)"
    by simp
  with "3.IH" [OF drop_limiter_ok [OF "3.prems"(1), of q] s] drop_limiter_available [OF "3.prems"(1), of p q]
  have "of_nat (dispatched p (fst (run_broker (drop_limiter q lims) es)))
        + available (last (t # ask_times es)) p (snd (run_broker (drop_limiter q lims) es))
      \<le> available t p lims + 10 * of_nat (stops p (Stopped q # es)) + (last (t # ask_times es) - t) / 100"
    by linarith
  with "3.IH" [OF drop_limiter_ok [OF "3.prems"(1), of q] s] show ?case by simp
qed

section \<open>Classification stays inside\<close>

definition real_segment :: "string \<Rightarrow> bool" where
  "real_segment s \<longleftrightarrow> s \<noteq> [] \<and> s \<noteq> ''.'' \<and> s \<noteq> ''..'' \<and> CHR ''/'' \<notin> set s"

lemma norm_step_real:
  "CHR ''/'' \<notin> set s \<Longrightarrow> list_all real_segment acc \<Longrightarrow> list_all real_segment (norm_step False acc s)"
  by (auto simp: norm_step_def list_all_iff real_segment_def dest: in_set_butlastD)

lemma norm_segments_real:
  "\<forall>s\<in>set segs. CHR ''/'' \<notin> set s \<Longrightarrow> list_all real_segment acc \<Longrightarrow>
     list_all real_segment (foldl (norm_step False) acc segs)"
  by (induction segs arbitrary: acc) (simp_all add: norm_step_real)

lemma norm_segments_abs: "list_all real_segment (norm_segments False (splitOn (CHR ''/'') p))"
  unfolding norm_segments_def
  by (rule norm_segments_real) (auto dest: splitOn_no_sep)

lemma joinWith_last:
  "ps \<noteq> [] \<Longrightarrow> last ps \<noteq> [] \<Longrightarrow> joinWith sep ps \<noteq> [] \<and> last (joinWith sep ps) = last (last ps)"
proof (induction ps)
  case Nil
  then show ?case by simp
next
  case (Cons p ps)
  then show ?case by (cases "ps = []") (simp_all add: joinWith_Cons)
qed

lemma strip_slashes_id: "s \<noteq> [] \<Longrightarrow> last s \<noteq> CHR ''/'' \<Longrightarrow> strip_slashes s = s"
  by (cases s rule: rev_cases) (simp_all add: strip_slashes_def)

lemma strip_slashes_one: "s \<noteq> [] \<Longrightarrow> last s \<noteq> CHR ''/'' \<Longrightarrow> strip_slashes (s @ ''/'') = s"
  by (cases s rule: rev_cases) (simp_all add: strip_slashes_def)

text \<open>An absolute path, cleaned: the root, or a slash and real segments joined by slashes.\<close>

lemma clean_abs:
  assumes "startsWith p ''/''"
  shows "clean p = ''/'' \<or> (\<exists>segs. segs \<noteq> [] \<and> list_all real_segment segs \<and> clean p = CHR ''/'' # joinWith ''/'' segs)"
proof -
  from assms have ne: "p \<noteq> []" by (auto simp: startsWith_iff)
  let ?segs = "norm_segments False (splitOn (CHR ''/'') p)"
  have segs: "list_all real_segment ?segs" by (rule norm_segments_abs)
  show ?thesis
  proof (cases "?segs = []")
    case True
    with assms ne have "posix_normalize p = ''/''" by (simp add: posix_normalize_def)
    then show ?thesis by (simp add: clean_def)
  next
    case False
    then have "last ?segs \<in> set ?segs" by simp
    with segs have l: "last ?segs \<noteq> []" "CHR ''/'' \<notin> set (last ?segs)"
      by (auto simp: list_all_iff real_segment_def)
    from joinWith_last [OF False l(1)] have j: "joinWith ''/'' ?segs \<noteq> []"
      "last (joinWith ''/'' ?segs) = last (last ?segs)" by blast+
    with l have nl: "last (joinWith ''/'' ?segs) \<noteq> CHR ''/''" by (metis last_in_set)
    have "posix_normalize p = (CHR ''/'' # joinWith ''/'' ?segs) @ (if endsWith p ''/'' then ''/'' else [])"
      using assms ne j(1) by (simp add: posix_normalize_def Let_def)
    moreover have "strip_slashes (CHR ''/'' # joinWith ''/'' ?segs) = CHR ''/'' # joinWith ''/'' ?segs"
      using j(1) nl by (intro strip_slashes_id) simp_all
    moreover have "strip_slashes ((CHR ''/'' # joinWith ''/'' ?segs) @ ''/'') = CHR ''/'' # joinWith ''/'' ?segs"
      using j(1) nl by (intro strip_slashes_one) simp_all
    ultimately have "clean p = CHR ''/'' # joinWith ''/'' ?segs"
      using j(1) by (cases "endsWith p ''/''") (simp_all add: clean_def Let_def)
    with segs False show ?thesis by blast
  qed
qed

lemma splitOn_sep: "splitOn c (a @ c # b) = splitOn c a @ splitOn c b"
  by (induction a) (auto split: list.splits)

lemma relativeInside_Some:
  "relativeInside w s = Some rel \<Longrightarrow> rel \<noteq> [] \<and> (\<exists>d. s = d @ CHR ''/'' # rel \<and> (clean w = d \<or> (clean w = ''/'' \<and> d = [])))"
  by (auto simp: relativeInside_def Let_def startsWith_iff split: if_splits)

text \<open>Inside a cleaned absolute path there are only real segments.\<close>

lemma relative_real:
  assumes "relativeInside w s = Some rel"
    and "s = ''/'' \<or> (\<exists>segs. segs \<noteq> [] \<and> list_all real_segment segs \<and> s = CHR ''/'' # joinWith ''/'' segs)"
  shows "list_all real_segment (splitOn (CHR ''/'') rel)"
proof -
  from relativeInside_Some [OF assms(1)] obtain d where d: "rel \<noteq> []" "s = d @ CHR ''/'' # rel" by blast
  from d assms(2) obtain segs where segs: "segs \<noteq> []" "list_all real_segment segs" "s = CHR ''/'' # joinWith ''/'' segs"
    by (cases d) auto
  have "splitOn (CHR ''/'') s = [] # segs"
    using segs by (simp add: split_join list_all_iff real_segment_def)
  moreover have "splitOn (CHR ''/'') s = splitOn (CHR ''/'') d @ splitOn (CHR ''/'') rel"
    unfolding d(2) by (rule splitOn_sep)
  moreover obtain x xs where "splitOn (CHR ''/'') d = x # xs" by (cases "splitOn (CHR ''/'') d") auto
  ultimately have "segs = xs @ splitOn (CHR ''/'') rel" by simp
  with segs(2) show ?thesis by simp
qed

lemma deepest_step:
  "deepestWorktree (ws @ [w]) s =
     (case relativeInside w s of
       None \<Rightarrow> deepestWorktree ws s
     | Some rel \<Rightarrow>
         (case deepestWorktree ws s of
            None \<Rightarrow> Some (w, rel)
          | Some (b, r) \<Rightarrow> if length (clean b) < length (clean w) then Some (w, rel) else Some (b, r)))"
  by (simp add: deepestWorktree_def split: option.splits)

lemma deepest_spec:
  "case deepestWorktree ws s of
     None \<Rightarrow> \<forall>w\<in>set ws. relativeInside w s = None
   | Some (b, rel) \<Rightarrow> b \<in> set ws \<and> relativeInside b s = Some rel
       \<and> (\<forall>w\<in>set ws. relativeInside w s \<noteq> None \<longrightarrow> length (clean w) \<le> length (clean b))"
proof (induction ws rule: rev_induct)
  case Nil
  show ?case by (simp add: deepestWorktree_def)
next
  case (snoc w ws)
  then show ?case
    by (cases "deepestWorktree ws s"; cases "relativeInside w s")
      (fastforce simp: deepest_step split: if_splits)+
qed

lemma first_hit_Some: "first_hit f xs = Some y \<Longrightarrow> \<exists>x\<in>set xs. f x = Some y"
  by (induction xs) (auto split: option.splits)

lemma first_hit_None: "first_hit f xs = None \<longleftrightarrow> (\<forall>x\<in>set xs. f x = None)"
  by (induction xs) (auto split: option.splits)

lemma subjects_ne [simp]: "subjects_of i \<noteq> []"
  by (simp add: subjects_of_def split: option.splits)

lemma join_abs:
  "startsWith a ''/'' \<Longrightarrow> \<exists>p. posix_join a b = posix_normalize p \<and> startsWith p ''/''"
proof -
  assume a: "startsWith a ''/''"
  then have "a \<noteq> []" by auto
  have "startsWith (joinWith ''/'' (filter (\<lambda>s. s \<noteq> []) [a, b])) ''/''"
    using a \<open>a \<noteq> []\<close> by (cases a; cases b) auto
  then show ?thesis unfolding posix_join_def by blast
qed

lemma normalize_abs: "startsWith p ''/'' \<Longrightarrow> startsWith (posix_normalize p) ''/''"
  by (auto simp: posix_normalize_def Let_def)

definition input_abs :: "ClassifyInput \<Rightarrow> bool" where
  "input_abs i \<longleftrightarrow> startsWith (ciPath i) ''/''
     \<and> (case ciCanonical i of None \<Rightarrow> True | Some c \<Rightarrow> startsWith c ''/'')
     \<and> (case ciAlias i of None \<Rightarrow> True | Some a \<Rightarrow> startsWith (canonical a) ''/'')"

lemma subjects_clean:
  assumes "input_abs i" "s \<in> set (subjects_of i)"
  shows "\<exists>p. startsWith p ''/'' \<and> s = clean p"
proof (cases "ciCanonical i")
  case (Some c)
  with assms show ?thesis by (auto simp: subjects_of_def input_abs_def)
next
  case None
  have "s = clean (ciPath i) \<or> (\<exists>a rel. ciAlias i = Some a \<and> s = clean (posix_join (canonical a) rel))"
    using assms(2) None by (cases "ciAlias i") (auto simp: subjects_of_def viaRootAlias_def split: option.splits)
  then consider "s = clean (ciPath i)" | a rel where "ciAlias i = Some a"
      "s = clean (posix_join (canonical a) rel)" by blast
  then show ?thesis
  proof cases
    case 1
    with assms(1) show ?thesis by (auto simp: input_abs_def)
  next
    case 2
    with assms(1) have "startsWith (canonical a) ''/''" by (simp add: input_abs_def)
    from join_abs [OF this] 2 show ?thesis using normalize_abs by metis
  qed
qed

section \<open>Where a classified target may point\<close>

text \<open>
  \<open>inside w s rel\<close>: the path \<open>s\<close> is the directory \<open>w\<close>, cleaned, a slash, and \<open>rel\<close>. \<open>holder\<close>: the
  deepest of the worktrees that hold \<open>s\<close>.
\<close>

definition inside :: "string \<Rightarrow> string \<Rightarrow> string \<Rightarrow> bool" where
  "inside w s rel \<longleftrightarrow> rel \<noteq> [] \<and> s = (if clean w = ''/'' then ''/'' else clean w @ ''/'') @ rel"

definition holder :: "string list \<Rightarrow> string \<Rightarrow> string \<Rightarrow> string \<Rightarrow> bool" where
  "holder ws s w rel \<longleftrightarrow> w \<in> set ws \<and> inside w s rel
     \<and> (\<forall>v\<in>set ws. (\<exists>r. inside v s r) \<longrightarrow> length (clean v) \<le> length (clean w))"

text \<open>
  What an open may point at, of the candidate paths \<open>names\<close>, best first: the first of them that
  a worktree holds; else the first one relative to the first root that holds it; else nothing
  of the project.
\<close>

definition open_inside :: "string list \<Rightarrow> string list \<Rightarrow> string list \<Rightarrow> string \<Rightarrow> OpenSelection \<Rightarrow> bool" where
  "open_inside ws roots names whole sel \<longleftrightarrow> (case sel of
      FileSel rel wt \<Rightarrow> list_all real_segment (splitOn (CHR ''/'') rel)
        \<and> (if wt = []
           then (\<forall>s\<in>set names. \<forall>w\<in>set ws. \<nexists>r. inside w s r)
             \<and> (\<exists>k<length roots. inside (roots ! k) (hd names) rel
                  \<and> (\<forall>j<k. \<nexists>r. inside (roots ! j) (hd names) r))
           else (\<exists>k<length names. holder ws (names ! k) wt rel
                  \<and> (\<forall>j<k. \<forall>w\<in>set ws. \<nexists>r. inside w (names ! j) r)))
    | ExternalSel q \<Rightarrow> q = whole
        \<and> (\<forall>s\<in>set names. \<forall>w\<in>set ws. \<nexists>r. inside w s r)
        \<and> (\<forall>rt\<in>set roots. \<nexists>r. inside rt (hd names) r))"

lemma relativeInside_iff: "relativeInside w s = Some rel \<longleftrightarrow> inside w s rel"
  by (auto simp: relativeInside_def inside_def Let_def startsWith_iff)

lemma relativeInside_None: "relativeInside w s = None \<longleftrightarrow> (\<nexists>r. inside w s r)"
  using relativeInside_iff [of w s] by (metis not_None_eq option.distinct(1))

lemma first_hit_nth: "first_hit f xs = Some y \<Longrightarrow> \<exists>k<length xs. f (xs ! k) = Some y \<and> (\<forall>j<k. f (xs ! j) = None)"
proof (induction xs)
  case (Cons x xs)
  show ?case
  proof (cases "f x")
    case None
    with Cons obtain k where "k < length xs" "f (xs ! k) = Some y" "\<forall>j<k. f (xs ! j) = None" by auto
    with None show ?thesis by (intro exI [of _ "Suc k"]) (auto simp: nth_Cons split: nat.splits)
  next
    case (Some z)
    with Cons.prems show ?thesis by (intro exI [of _ 0]) simp
  qed
qed simp

lemma first_subject: "hd (subjects_of i) = (case ciCanonical i of None \<Rightarrow> clean (ciPath i) | Some c \<Rightarrow> clean c)"
  by (simp add: subjects_of_def split: option.splits)

lemma subject_real:
  assumes "input_abs i" "s \<in> set (subjects_of i)" "relativeInside w s = Some rel"
  shows "list_all real_segment (splitOn (CHR ''/'') rel)"
proof -
  from subjects_clean [OF assms(1,2)] obtain p where "startsWith p ''/''" "s = clean p" by blast
  with clean_abs [of p] show ?thesis by (intro relative_real [OF assms(3)]) (simp only:)
qed

lemma deepest_Some:
  assumes "deepestWorktree ws s = Some (b, rel)"
  shows "holder ws s b rel"
  using deepest_spec [of ws s] unfolding assms option.case prod.case holder_def
  by (auto simp: relativeInside_iff relativeInside_None)

lemma deepest_None: "deepestWorktree ws s = None \<Longrightarrow> \<forall>w\<in>set ws. \<nexists>r. inside w s r"
  using deepest_spec [of ws s] by (simp only: option.case relativeInside_None)

lemma empty_not_inside: "startsWith s ''/'' \<Longrightarrow> \<not> inside [] s r"
proof
  assume "startsWith s ''/''" and i: "inside [] s r"
  moreover have "clean [] = ''.''" by code_simp
  ultimately show False by (auto simp: inside_def startsWith_iff)
qed

lemma classify_inside:
  assumes abs: "input_abs i"
  shows "open_inside (ciWorktrees i) (ciRoots i) (subjects_of i) (clean (ciPath i)) (classifyOpenTarget i)"
proof (cases "first_hit (deepestWorktree (ciWorktrees i)) (subjects_of i)")
  case (Some hit)
  obtain w rel where hit: "hit = (w, rel)" by (cases hit)
  from first_hit_nth [OF Some] hit obtain k where k: "k < length (subjects_of i)"
    "deepestWorktree (ciWorktrees i) (subjects_of i ! k) = Some (w, rel)"
    "\<forall>j<k. deepestWorktree (ciWorktrees i) (subjects_of i ! j) = None" by auto
  note h = deepest_Some [OF k(2)]
  then have ins: "inside w (subjects_of i ! k) rel" by (simp add: holder_def)
  have mem: "subjects_of i ! k \<in> set (subjects_of i)" using k(1) by simp
  from subjects_clean [OF abs mem] obtain p where "startsWith p ''/''" "subjects_of i ! k = clean p" by blast
  with clean_abs [of p] have "startsWith (subjects_of i ! k) ''/''" by auto
  with ins empty_not_inside have "w \<noteq> []" by blast
  moreover have "classifyOpenTarget i = FileSel rel w"
    using Some hit by (simp add: classifyOpenTarget_def)
  moreover have "list_all real_segment (splitOn (CHR ''/'') rel)"
    using subject_real [OF abs mem] ins by (simp add: relativeInside_iff)
  moreover have "\<forall>j<k. \<forall>v\<in>set (ciWorktrees i). \<nexists>r. inside v (subjects_of i ! j) r"
    using k(3) deepest_None by blast
  ultimately show ?thesis using h k(1) unfolding open_inside_def by auto
next
  case None
  then have none: "\<forall>s\<in>set (subjects_of i). \<forall>w\<in>set (ciWorktrees i). \<nexists>r. inside w s r"
    using deepest_None by (auto simp: first_hit_None)
  show ?thesis
  proof (cases "first_hit (\<lambda>rt. relativeInside rt (hd (subjects_of i))) (ciRoots i)")
    case (Some rel)
    from first_hit_nth [OF this] obtain k where k: "k < length (ciRoots i)"
      "inside (ciRoots i ! k) (hd (subjects_of i)) rel"
      "\<forall>j<k. \<nexists>r. inside (ciRoots i ! j) (hd (subjects_of i)) r"
      by (auto simp: relativeInside_iff relativeInside_None)
    have "list_all real_segment (splitOn (CHR ''/'') rel)"
      using subject_real [OF abs _ k(2) [folded relativeInside_iff]] by simp
    moreover have "classifyOpenTarget i = FileSel rel []"
      using None Some by (simp add: classifyOpenTarget_def)
    ultimately show ?thesis using none k unfolding open_inside_def by auto
  next
    case ext: None
    have "classifyOpenTarget i = ExternalSel (clean (ciPath i))"
      using None ext by (simp add: classifyOpenTarget_def)
    moreover have "\<forall>rt\<in>set (ciRoots i). \<nexists>r. inside rt (hd (subjects_of i)) r"
      using ext by (simp add: first_hit_None relativeInside_None)
    ultimately show ?thesis using none unfolding open_inside_def by simp
  qed
qed

text \<open>The candidate paths and the roots of a resolution, from what its awaited calls returned.\<close>

definition other_root :: "bool \<Rightarrow> string option \<Rightarrow> string \<Rightarrow> string option" where
  "other_root isLocal rpath rt =
     (case rpath of Some r \<Rightarrow> if isLocal \<and> r \<noteq> rt then Some r else None | None \<Rightarrow> None)"

definition candidates :: "bool \<Rightarrow> string option \<Rightarrow> string \<Rightarrow> OpenArgs \<Rightarrow> string list" where
  "candidates isLocal rpath rt a =
     (case argCanonical a of
        Some c \<Rightarrow> [clean c]
      | None \<Rightarrow> clean (argPath a) #
          (case (other_root isLocal rpath rt, relativeInside rt (clean (argPath a))) of
             (Some r, Some rel) \<Rightarrow> [clean (posix_join r rel)] | _ \<Rightarrow> []))"

section \<open>The lifecycle keeps one listener\<close>

definition phase_listener :: "phase option \<Rightarrow> nat set" where
  "phase_listener p = (case p of Some (Retiring l) \<Rightarrow> {l} | Some (Closing l) \<Rightarrow> {l} | _ \<Rightarrow> {})"

definition lifecycle_inv :: "lifecycle \<Rightarrow> bool" where
  "lifecycle_inv s \<longleftrightarrow> bound s = set_option (listener s) \<union> phase_listener (running s)
     \<and> set_option (listener s) \<inter> phase_listener (running s) = {}
     \<and> (\<forall>l\<in>bound s. l < nextListener s)
     \<and> (\<forall>l k. listener s = Some l \<longrightarrow> k \<in> bound s \<longrightarrow> k \<le> l)
     \<and> (running s = None \<longrightarrow> queued s = [])"

lemma begin_op_inv:
  "lifecycle_inv s \<Longrightarrow> running s = None \<or> running s = Some Finished \<Longrightarrow> lifecycle_inv (begin_op op s)"
  by (cases op) (auto simp: lifecycle_inv_def phase_listener_def split: option.splits)

lemma begin_op_queue: "running s = Some Finished \<Longrightarrow> lifecycle_inv s \<Longrightarrow> lifecycle_inv (begin_op op (s\<lparr>queued := ops\<rparr>))"
  by (rule begin_op_inv) (simp_all add: lifecycle_inv_def)

lemma serialized_inv: "lifecycle_inv s \<Longrightarrow> lifecycle_inv (serialized op s)"
  using begin_op_inv [of s op]
  by (auto simp: serialized_def lifecycle_inv_def split: option.splits)

lemma advance_inv: "advance p s s' \<Longrightarrow> lifecycle_inv s \<Longrightarrow> lifecycle_inv s'"
proof (induction rule: advance.induct)
  case (settle_next s op ops)
  then show ?case by (intro begin_op_queue)
qed (auto simp: lifecycle_inv_def phase_listener_def less_Suc_eq)

lemma lifecycle_step_inv: "lifecycle_step s s' \<Longrightarrow> lifecycle_inv s \<Longrightarrow> lifecycle_inv s'"
  by (induction rule: lifecycle_step.induct)
    (auto simp: startLocalListener_def stopListener_def intro: serialized_inv advance_inv)

lemma lifecycle_reachable:
  "lifecycle_step\<^sup>*\<^sup>* new_lifecycle s \<Longrightarrow> lifecycle_inv s"
proof (induction rule: rtranclp_induct)
  case base
  show ?case by (simp add: new_lifecycle_def lifecycle_inv_def phase_listener_def)
next
  case (step y z)
  then show ?case by (blast intro: lifecycle_step_inv)
qed

text \<open>Every busy state can move on, whatever the awaited call returns.\<close>

lemma advance_progress: "running s \<noteq> None \<Longrightarrow> \<exists>p s'. advance p s s'"
proof -
  assume "running s \<noteq> None"
  then consider "running s = Some Binding" | l where "running s = Some (Retiring l)"
    | l where "running s = Some (Closing l)" | "running s = Some Finished"
    by (metis not_None_eq phase.exhaust)
  then show ?thesis
  proof cases
    case 1
    then show ?thesis by (blast intro: advance.bind_failed)
  next
    case 4
    then show ?thesis by (cases "queued s") (blast intro: advance.settle_idle advance.settle_next)+
  qed (blast intro: advance.retired advance.closed)+
qed

lemma handle_cases:
  "handle now sv p raw lims =
     (case parseCallbackEnvelope raw of
        EnvBad i msg \<Rightarrow> ((ErrorReply i BadRequest msg, None), lims)
      | EnvOk i op pane args \<Rightarrow>
          if op \<noteq> ''open'' then ((ErrorReply i UnsupportedOp ''unsupported operation'', None), lims)
          else (case tryTake now (limiterFor now p lims) of (got, b) \<Rightarrow>
            (if \<not> got then (ErrorReply i RateLimited ''too many requests'', None)
             else if \<not> connected sv then (ErrorReply i NotConnected ''project is not connected'', None)
             else handleOpen sv p i pane args, lims(p \<mapsto> b))))"
  by (auto simp: handle_def isCallbackOp_def CALLBACK_OPS_def Let_def split: envelope.splits prod.splits)

section \<open>Properties\<close>

text \<open>
  C12. The burst limit: from a broker that has served nothing, over any requests of any
  projects at non-decreasing times and any stops of listeners among them, in every stretch of
  the history the opens dispatched for a project number at most ten, plus ten for each second
  between the first and the last request of the stretch, plus ten for each time the stretch
  stops the project's own listener (a stop forgets its limiter; stops of other projects count
  nothing).
\<close>

theorem burst_limit:
  assumes "sorted (ask_times (earlier @ stretch))" "ask_times stretch \<noteq> []"
  shows "rat_of_nat (dispatched p (fst (run_broker (snd (run_broker Map.empty earlier)) stretch)))
      \<le> 10 + 10 * (last (ask_times stretch) - hd (ask_times stretch)) / 1000 + 10 * of_nat (stops p stretch)"
proof -
  let ?ts = "ask_times stretch" and ?l = "snd (run_broker Map.empty earlier)"
  let ?t0 = "hd (ask_times (earlier @ stretch))" and ?t1 = "hd ?ts"
  have e: "limiters_ok ?t0 Map.empty" by (simp add: limiters_ok_def)
  have "sorted (?t0 # ask_times earlier)"
    using assms by (cases "ask_times earlier") (auto simp: sorted_append)
  from run_broker_bound [OF e this] have l: "limiters_ok (last (?t0 # ask_times earlier)) ?l" by blast
  have "last (?t0 # ask_times earlier) \<le> ?t1"
    using assms by (cases "ask_times earlier" rule: rev_cases; cases ?ts) (auto simp: sorted_append)
  from limiters_ok_mono [OF l this] have ok: "limiters_ok ?t1 ?l" .
  have "sorted (?t1 # ?ts)" using assms by (cases ?ts) (auto simp: sorted_append)
  note b = run_broker_bound [OF ok this, of p]
  have ends: "last (?t1 # ?ts) = last ?ts" using assms(2) by simp
  from b available_nonneg [of "last ?ts" "snd (run_broker ?l stretch)" p] available_le [of ?t1 p ?l]
  have "rat_of_nat (dispatched p (fst (run_broker ?l stretch)))
      \<le> 10 + (last ?ts - ?t1) / 100 + 10 * of_nat (stops p stretch)"
    unfolding ends by linarith
  moreover have "10 * (last ?ts - ?t1) / 1000 = (last ?ts - ?t1) / 100" by simp
  ultimately show ?thesis by (simp only:)
qed

text \<open>Twelve opens at once: ten are dispatched, and the limiter is what stops the others.\<close>

definition open_ask :: "rat \<Rightarrow> broker_event" where
  "open_ask t = Asked \<lparr>rqTime = t, rqSession = \<lparr>connected = True, provider = Some 0, projectRootOf = Some ''/w''\<rparr>,
     rqProject = ''p'', rqRaw = open_request 7 None \<lparr>argPath = ''/w/a'', argCanonical = None\<rparr>\<rparr>"

lemma open_ask_step:
  "run_broker lims (open_ask t # es) =
     (case tryTake t (limiterFor t ''p'' lims) of (got, b) \<Rightarrow>
        case run_broker (lims(''p'' \<mapsto> b)) es of (outs, l2) \<Rightarrow>
          ((''p'', if got then OkDispatched 7 else ErrorReply 7 RateLimited ''too many requests'') # outs, l2))"
proof -
  have "id_ok 7" "path_ok ''/w/a''"
    by (simp_all add: id_ok_def path_ok_def utf8Encode_def utf8_unit_def)
  then obtain args where a:
    "parseCallbackEnvelope (open_request 7 None \<lparr>argPath = ''/w/a'', argCanonical = None\<rparr>) = EnvOk 7 ''open'' None args"
    "parseOpenArgs args = Inr \<lparr>argPath = ''/w/a'', argCanonical = None\<rparr>"
    using open_request_accepted [of 7 None "\<lparr>argPath = ''/w/a'', argCanonical = None\<rparr>"] by auto
  then show ?thesis
    by (simp add: open_ask_def handle_cases handleOpen_def split: prod.splits)
qed

theorem burst_limit_witness:
  "dispatched ''p'' (fst (run_broker (snd (run_broker Map.empty [])) (replicate 12 (open_ask 5)))) = 10
   \<and> dispatched ''p'' (fst (run_broker (snd (run_broker Map.empty [])) (replicate 12 (open_ask 5)))) \<le> 10"
proof
  have times: "ask_times (replicate n (open_ask 5)) = replicate n 5"
    and none: "stops q (replicate n (open_ask 5)) = 0" for n q
    by (induction n) (simp_all add: open_ask_def)
  show "dispatched ''p'' (fst (run_broker (snd (run_broker Map.empty [])) (replicate 12 (open_ask 5)))) = 10"
    by (simp add: numeral_eq_Suc open_ask_step limiterFor_def new_TokenBucket_def tryTake_def Let_def
        CALLBACK_RATE_LIMIT_PER_SECOND_def dispatched_def is_dispatched_def)
  have "rat_of_nat (dispatched ''p'' (fst (run_broker (snd (run_broker Map.empty [])) (replicate 12 (open_ask 5))))) \<le> 10"
    using burst_limit [of "[]" "replicate 12 (open_ask 5)" "''p''"] times [of 12] none [of "''p''" 12]
    by (simp add: numeral_eq_Suc)
  then show "dispatched ''p'' (fst (run_broker (snd (run_broker Map.empty [])) (replicate 12 (open_ask 5)))) \<le> 10"
    by (metis of_nat_le_iff of_nat_numeral)
qed

text \<open>
  The decision is exact: a request is dispatched precisely when its envelope is valid, it
  asks for the one allowed operation, a token is left, the project is connected and the
  arguments are valid; the reply carries the request's id; work is started only for a
  dispatched request of this project and its own session; an invalid envelope or an
  unknown operation costs no token; and no request touches another project's limiter.
\<close>

theorem handle_exact:
  "let ((rep, job), lims') = handle now sv p raw lims in
     (is_dispatched rep \<longleftrightarrow> (\<exists>i pane args a. parseCallbackEnvelope raw = EnvOk i ''open'' pane args
         \<and> fst (tryTake now (limiterFor now p lims)) \<and> connected sv \<and> parseOpenArgs args = Inr a))
   \<and> replyId rep = envId (parseCallbackEnvelope raw)
   \<and> (job \<noteq> None \<longrightarrow> is_dispatched rep \<and> jobProject (the job) = p \<and> provider sv = Some (jobProvider (the job))
        \<and> (\<exists>args. parseOpenArgs args = Inr (jobArgs (the job))))
   \<and> ((case parseCallbackEnvelope raw of EnvBad _ _ \<Rightarrow> True | EnvOk _ op _ _ \<Rightarrow> op \<noteq> ''open'') \<longrightarrow> lims' = lims)
   \<and> (\<forall>q. q \<noteq> p \<longrightarrow> lims' q = lims q)"
proof (cases "parseCallbackEnvelope raw")
  case (EnvBad i msg)
  then show ?thesis by (simp add: handle_cases is_dispatched_def)
next
  case (EnvOk i op pane args)
  show ?thesis
  proof (cases "op = ''open''")
    case False
    with EnvOk show ?thesis by (simp add: handle_cases is_dispatched_def)
  next
    case True
    obtain got b where tt: "tryTake now (limiterFor now p lims) = (got, b)" by (metis prod.exhaust)
    show ?thesis
    proof (cases "got \<and> connected sv")
      case False
      with EnvOk True tt show ?thesis by (auto simp: handle_cases is_dispatched_def)
    next
      case ok: True
      show ?thesis
      proof (cases "parseOpenArgs args")
        case (Inl msg)
        with EnvOk True tt ok show ?thesis by (simp add: handle_cases is_dispatched_def handleOpen_def)
      next
        case (Inr a)
        then have "\<exists>args. parseOpenArgs args = Inr a" by blast
        with EnvOk True tt ok Inr show ?thesis
          by (auto simp: handle_cases is_dispatched_def handleOpen_def dispatch_start_def split: option.splits)
      qed
    qed
  qed
qed

theorem handle_exact_witness:
  "\<forall>sv p lims. \<not> is_dispatched (fst (fst (handle 0 sv p JNull lims))) \<and> snd (handle 0 sv p JNull lims) = lims"
proof (intro allI)
  fix sv p lims
  show "\<not> is_dispatched (fst (fst (handle 0 sv p JNull lims))) \<and> snd (handle 0 sv p JNull lims) = lims"
    using handle_exact [of 0 sv p JNull lims]
    by (simp add: parseCallbackEnvelope_def split: prod.splits)
qed

text \<open>
  C13. An open never leaves its worktree and opens the file that was named. For absolute
  arguments and an absolute realpath: the candidates are the cleaned canonical path when the
  client sent one; otherwise the cleaned path, and, for a local project whose root's realpath
  differs, the path with the root rewritten to the realpath. A file selection with a worktree
  names the first candidate that some listed worktree holds, in the deepest worktree holding
  it, so that worktree, slash and relative path are that candidate. A file selection without
  a worktree means that no worktree holds any candidate, and names the first candidate
  relative to the project root, or to the realpath of the root when only that holds it. The
  selection is external, the cleaned path, exactly when none of them holds it. Every
  relative path consists of real segments only (none empty, \<open>.\<close> or \<open>..\<close>).
\<close>

theorem open_stays_inside:
  assumes "path_ok (argPath a)" "\<forall>c. argCanonical a = Some c \<longrightarrow> path_ok c"
    and "\<forall>r. rpath = Some r \<longrightarrow> startsWith r ''/''"
  shows "open_inside (case wts of None \<Rightarrow> [] | Some ws \<Rightarrow> ws)
     (projectRoot # (case other_root isLocal rpath projectRoot of None \<Rightarrow> [] | Some r \<Rightarrow> [r]))
     (candidates isLocal rpath projectRoot a) (clean (argPath a))
     (resolveOpenSelection wts isLocal rpath projectRoot a)"
proof -
  define al where "al = map_option (\<lambda>r. \<lparr>configured = projectRoot, canonical = r\<rparr>)
      (other_root isLocal rpath projectRoot)"
  define i where "i = \<lparr>ciPath = argPath a, ciCanonical = argCanonical a,
      ciWorktrees = (case wts of None \<Rightarrow> [] | Some ws \<Rightarrow> ws),
      ciRoots = projectRoot # (case al of None \<Rightarrow> [] | Some al \<Rightarrow> [canonical al]), ciAlias = al\<rparr>"
  have "(if isLocal then
            (case rpath of None \<Rightarrow> None
             | Some r \<Rightarrow> if r \<noteq> projectRoot then Some \<lparr>configured = projectRoot, canonical = r\<rparr> else None)
          else None) = al"
    by (auto simp: al_def other_root_def split: option.splits)
  then have r: "resolveOpenSelection wts isLocal rpath projectRoot a = classifyOpenTarget i"
    by (simp add: resolveOpenSelection_def i_def Let_def)
  have fields: "ciPath i = argPath a" "ciCanonical i = argCanonical a" "ciAlias i = al"
    "ciWorktrees i = (case wts of None \<Rightarrow> [] | Some ws \<Rightarrow> ws)"
    by (simp_all only: i_def ClassifyInput.select_convs)
  have roots: "ciRoots i = projectRoot # (case other_root isLocal rpath projectRoot of None \<Rightarrow> [] | Some r \<Rightarrow> [r])"
    unfolding i_def ClassifyInput.select_convs al_def by (simp split: option.split)
  have "\<And>x. al = Some x \<Longrightarrow> startsWith (canonical x) ''/''"
    using assms(3) by (auto simp: al_def other_root_def split: option.splits if_splits)
  then have abs: "input_abs i"
    unfolding input_abs_def fields
    using assms(1,2) by (auto simp only: path_ok_def split: option.split)
  have "subjects_of i = candidates isLocal rpath projectRoot a"
    unfolding subjects_of_def candidates_def fields viaRootAlias_def al_def
    by (simp split: option.split)
  with classify_inside [OF abs] show ?thesis unfolding r roots fields by simp
qed

theorem open_stays_inside_witness:
  "resolveOpenSelection (Some [''/w'', ''/w/sub'']) True None ''/w''
     \<lparr>argPath = ''/w/sub/../sub/a.ts'', argCanonical = None\<rparr> = FileSel ''a.ts'' ''/w/sub''
   \<and> holder [''/w'', ''/w/sub''] ''/w/sub/a.ts'' ''/w/sub'' ''a.ts''"
proof -
  have r: "resolveOpenSelection (Some [''/w'', ''/w/sub'']) True None ''/w''
     \<lparr>argPath = ''/w/sub/../sub/a.ts'', argCanonical = None\<rparr> = FileSel ''a.ts'' ''/w/sub''" by code_simp
  have "candidates True None ''/w'' \<lparr>argPath = ''/w/sub/../sub/a.ts'', argCanonical = None\<rparr> = [''/w/sub/a.ts'']"
    by code_simp
  with r open_stays_inside [of "\<lparr>argPath = ''/w/sub/../sub/a.ts'', argCanonical = None\<rparr>" None
      "Some [''/w'', ''/w/sub'']" "''/w''" True]
  show ?thesis by (simp add: path_ok_def utf8Encode_def utf8_unit_def open_inside_def)
qed

text \<open>
  The listener lifecycle: in every state that calls and completions can lead to, the
  sockets being served are the registered listener's and, while one operation runs, the one
  it is retiring; the registered listener is the newest; when nothing runs nothing is
  queued and exactly the registered listener is served; and a busy lifecycle can always
  move on.
\<close>

theorem one_listener_per_project:
  assumes "lifecycle_step\<^sup>*\<^sup>* new_lifecycle s"
  shows "bound s = set_option (listener s) \<union> phase_listener (running s)
    \<and> (\<forall>l k. listener s = Some l \<longrightarrow> k \<in> bound s \<longrightarrow> k \<le> l)
    \<and> (running s = None \<longrightarrow> queued s = [] \<and> bound s = set_option (listener s))
    \<and> (running s \<noteq> None \<longrightarrow> (\<exists>p s'. advance p s s' \<and> lifecycle_step s s'))"
  using lifecycle_reachable [OF assms] advance_progress [of s]
  by (auto simp: lifecycle_inv_def phase_listener_def intro: lifecycle_step.progress)

theorem one_listener_per_project_witness:
  "bound (startLocalListener False new_lifecycle) = {}"
proof -
  have "lifecycle_step\<^sup>*\<^sup>* new_lifecycle (startLocalListener False new_lifecycle)"
    by (intro r_into_rtranclp lifecycle_step.call_start)
  from one_listener_per_project [OF this] show ?thesis
    by (auto simp: startLocalListener_def serialized_def new_lifecycle_def phase_listener_def)
qed

end
