(* ===== verification/Watch.thy ===== *)
theory Watch
  imports Prelude
begin

text \<open>
  The layered file watch: the policy of \<open>src/shared/watch/policy.ts\<close> (what a path means),
  the ingest of \<open>electron/main/watch/ingest.ts\<close> (one fixed debounce window over raw paths),
  the dispatch hub of \<open>src/renderer/watch/hub.ts\<close>, and the diff cache of
  \<open>electron/main/providers/diffCache.ts\<close> that the watch invalidates.

  A timer is its deadline. The host of the ingest fires a due timer before it runs anything
  later (\<open>fire_due\<close>); times are milliseconds.
\<close>

section \<open>Policy\<close>

datatype WatchCategory = WorkingTree | GitState | Beads

definition WATCH_DEBOUNCE_MS :: nat where "WATCH_DEBOUNCE_MS = 200"
definition NEVER_RECURSE :: "string list" where "NEVER_RECURSE = [''node_modules'']"
definition DIRECTORY_GRANULARITY :: "string list" where "DIRECTORY_GRANULARITY = [''.git'', ''.beads'']"
definition GIT_STATE_SIGNALS :: "string list" where
  "GIT_STATE_SIGNALS = [''.git/HEAD'', ''.git/packed-refs'', ''.git/refs'', ''.git/worktrees'']"
definition BEADS_SIGNALS :: "string list" where
  "BEADS_SIGNALS = [''.beads/beads.db'', ''.beads/issues.jsonl'']"
definition CHANGES_HIDDEN_PREFIXES :: "string list" where
  "CHANGES_HIDDEN_PREFIXES = [''.git'', ''.beads'']"

definition normalizeWatchPath :: "string \<Rightarrow> string" where
  "normalizeWatchPath p =
     (let s = map (\<lambda>c. if c = CHR 0x5C then CHR ''/'' else c) p;
          s1 = (if startsWith s ''./'' then drop 2 s else s)
      in dropWhile (\<lambda>c. c = CHR ''/'') s1)"

definition classifyWatchPath :: "string \<Rightarrow> WatchCategory option" where
  "classifyWatchPath relPath =
     (let rel = normalizeWatchPath relPath in
      if rel = [] then None
      else
        let segments = splitOn (CHR ''/'') rel in
        if list_ex (\<lambda>s. s \<in> set NEVER_RECURSE) segments then None
        else if hd segments = ''.git'' then
          (if rel = ''.git/HEAD'' \<or> rel = ''.git/packed-refs'' \<or> startsWith rel ''.git/refs'' then Some GitState
           else if 1 < length segments \<and> segments ! 1 = ''worktrees'' \<and> length segments \<le> 3 then Some GitState
           else None)
        else if hd segments = ''.beads'' then (if rel \<in> set BEADS_SIGNALS then Some Beads else None)
        else Some WorkingTree)"

definition isHiddenFromChanges :: "string \<Rightarrow> bool \<Rightarrow> bool" where
  "isHiddenFromChanges relPath showAll =
     (if showAll then False
      else hd (splitOn (CHR ''/'') (normalizeWatchPath relPath)) \<in> set CHANGES_HIDDEN_PREFIXES)"

record WatchSpec =
  neverRecurse :: "string list"
  directoryGranularity :: "string list"
  gitStateSignals :: "string list"
  beadsSignals :: "string list"
  debounceMs :: nat

definition deriveWatchSpec :: WatchSpec where
  "deriveWatchSpec = \<lparr>neverRecurse = NEVER_RECURSE, directoryGranularity = DIRECTORY_GRANULARITY,
     gitStateSignals = GIT_STATE_SIGNALS, beadsSignals = BEADS_SIGNALS, debounceMs = WATCH_DEBOUNCE_MS\<rparr>"

section \<open>Ingest\<close>

record CanonicalWatchEvent =
  categories :: "WatchCategory list"
  paths :: "(string \<times> WatchCategory) list"
  at :: nat

record watch_ingest =
  pendingPaths :: "(string \<times> WatchCategory) list"
  timer :: "nat option"

definition createWatchIngest :: watch_ingest where
  "createWatchIngest = \<lparr>pendingPaths = [], timer = None\<rparr>"

definition flush :: "nat \<Rightarrow> watch_ingest \<Rightarrow> CanonicalWatchEvent list \<times> watch_ingest" where
  "flush now s =
     (let s1 = s\<lparr>timer := None\<rparr> in
      if pendingPaths s1 = [] then ([], s1)
      else ([\<lparr>categories = foldl (\<lambda>cs (_, c). oset_add c cs) [] (pendingPaths s1),
              paths = pendingPaths s1, at = now\<rparr>], s1\<lparr>pendingPaths := []\<rparr>))"

text \<open>The loop of \<open>feed\<close>, with its flag \<open>added\<close>.\<close>

fun feed_paths :: "string list \<Rightarrow> (string \<times> WatchCategory) list \<times> bool \<Rightarrow> (string \<times> WatchCategory) list \<times> bool" where
  "feed_paths [] st = st"
| "feed_paths (raw # ps) (m, added) =
     (case classifyWatchPath raw of
        None \<Rightarrow> feed_paths ps (m, added)
      | Some c \<Rightarrow> feed_paths ps (omap_set (normalizeWatchPath raw) c m, True))"

definition feed_watch :: "nat \<Rightarrow> nat \<Rightarrow> string list \<Rightarrow> watch_ingest \<Rightarrow> watch_ingest" where
  "feed_watch debounce now ps s =
     (let (m, added) = feed_paths ps (pendingPaths s, False)
      in s\<lparr>pendingPaths := m, timer := (if added \<and> timer s = None then Some (now + debounce) else timer s)\<rparr>)"

definition dispose :: "watch_ingest \<Rightarrow> watch_ingest" where
  "dispose s = s\<lparr>timer := None, pendingPaths := []\<rparr>"

text \<open>The host: calls at given times, the timer firing at its deadline.\<close>

datatype ingest_call = Feed "string list" | Flush | Dispose

definition fire_due :: "nat \<Rightarrow> watch_ingest \<Rightarrow> CanonicalWatchEvent list \<times> watch_ingest" where
  "fire_due now s =
     (case timer s of
        None \<Rightarrow> ([], s)
      | Some d \<Rightarrow> if d \<le> now then flush d s else ([], s))"

fun call_ingest :: "nat \<Rightarrow> nat \<Rightarrow> ingest_call \<Rightarrow> watch_ingest \<Rightarrow> CanonicalWatchEvent list \<times> watch_ingest" where
  "call_ingest debounce now (Feed ps) s = ([], feed_watch debounce now ps s)"
| "call_ingest debounce now Flush s = flush now s"
| "call_ingest debounce now Dispose s = ([], dispose s)"

fun run_ingest :: "nat \<Rightarrow> watch_ingest \<Rightarrow> (nat \<times> ingest_call) list \<Rightarrow> nat \<Rightarrow> CanonicalWatchEvent list \<times> watch_ingest" where
  "run_ingest debounce s [] fin = fire_due fin s"
| "run_ingest debounce s ((t, c) # cs) fin =
     (let (e1, s1) = fire_due t s; (e2, s2) = call_ingest debounce t c s1;
          (e3, s3) = run_ingest debounce s2 cs fin
      in (e1 @ e2 @ e3, s3))"

section \<open>The dispatch hub\<close>

record HubWatchEvent =
  hubProject :: string
  hubWorktree :: "string option"
  hubCategories :: "WatchCategory list"
  hubPaths :: "string list"
  hubAt :: string

record hub =
  hubListeners :: "(nat \<times> WatchCategory list) list"
  attached :: bool
  nextListenerId :: nat

definition new_hub :: hub where
  "new_hub = \<lparr>hubListeners = [], attached = False, nextListenerId = 0\<rparr>"

text \<open>\<open>handleRaw\<close>; the result is the calls of \<open>onEvent\<close>, in order.\<close>

fun hub_classify :: "string list \<Rightarrow> string list \<times> WatchCategory list \<Rightarrow> string list \<times> WatchCategory list" where
  "hub_classify [] acc = acc"
| "hub_classify (p # ps) (out, cats) =
     (case classifyWatchPath p of
        None \<Rightarrow> hub_classify ps (out, cats)
      | Some c \<Rightarrow> hub_classify ps (out @ [p], oset_add c cats))"

definition handleRaw :: "string option \<Rightarrow> string option \<Rightarrow> (string list option \<times> string option) option \<Rightarrow> hub
    \<Rightarrow> (nat \<times> HubWatchEvent) list" where
  "handleRaw projectId worktree event h =
     (let rawPaths = (case event of Some (Some ps, _) \<Rightarrow> ps | _ \<Rightarrow> []);
          (ps, cats) = hub_classify rawPaths ([], [])
      in if cats = [] then []
         else
           let ev = \<lparr>hubProject = (case projectId of None \<Rightarrow> [] | Some p \<Rightarrow> p), hubWorktree = worktree,
                     hubCategories = cats, hubPaths = ps,
                     hubAt = (case event of Some (_, Some a) \<Rightarrow> a | _ \<Rightarrow> [])\<rparr>
           in map (\<lambda>(l, _). (l, ev)) (filter (\<lambda>(_, interest). list_ex (\<lambda>c. c \<in> set interest) cats) (hubListeners h)))"

definition subscribeWatch :: "WatchCategory list \<Rightarrow> hub \<Rightarrow> nat \<times> hub" where
  "subscribeWatch interest h =
     (let l = nextListenerId h in
      (l, h\<lparr>hubListeners := hubListeners h @ [(l, interest)], attached := True, nextListenerId := Suc l\<rparr>))"

definition unsubscribeWatch :: "nat \<Rightarrow> hub \<Rightarrow> hub" where
  "unsubscribeWatch l h =
     (let ls = omap_del l (hubListeners h)
      in h\<lparr>hubListeners := ls, attached := (if ls = [] \<and> attached h then False else attached h)\<rparr>)"

datatype hub_call = Subscribe "WatchCategory list" | Unsubscribe nat

fun hub_step :: "hub \<Rightarrow> hub_call \<Rightarrow> hub" where
  "hub_step h (Subscribe interest) = snd (subscribeWatch interest h)"
| "hub_step h (Unsubscribe l) = unsubscribeWatch l h"

section \<open>The diff cache\<close>

definition MAX_ENTRIES_PER_PROJECT :: nat where "MAX_ENTRIES_PER_PROJECT = 64"
definition CACHE_SEP :: char where "CACHE_SEP = CHR 0x1F"

record 'b Entry =
  entryPath :: string
  entryWorktree :: string
  entryBundle :: 'b

type_synonym 'b cache_map = "(string \<times> 'b Entry) list"
type_synonym 'b cache = "string \<rightharpoonup> 'b cache_map"

definition isGitStateSignal :: "string \<Rightarrow> bool" where
  "isGitStateSignal rel \<longleftrightarrow> classifyWatchPath rel = Some GitState"

definition cache_key :: "string \<Rightarrow> string \<Rightarrow> string option \<Rightarrow> string" where
  "cache_key worktree path baseline =
     worktree @ CACHE_SEP # path @ CACHE_SEP # (case baseline of None \<Rightarrow> [] | Some b \<Rightarrow> b)"

definition cache_get :: "string \<Rightarrow> string \<Rightarrow> string \<Rightarrow> string option \<Rightarrow> 'b cache \<Rightarrow> 'b option" where
  "cache_get project worktree path baseline c =
     (case c project of
        None \<Rightarrow> None
      | Some m \<Rightarrow> map_option entryBundle (map_of m (cache_key worktree path baseline)))"

function evict :: "'b cache_map \<Rightarrow> 'b cache_map" where
  "evict m =
     (if MAX_ENTRIES_PER_PROJECT < length m
      then (case m of [] \<Rightarrow> m | (oldest, _) # _ \<Rightarrow> evict (omap_del oldest m))
      else m)"
  by pat_completeness auto

termination evict
  by (relation "measure length")
    (auto simp: omap_del_def less_Suc_eq_le)

declare evict.simps [simp del]

definition cache_set :: "string \<Rightarrow> string \<Rightarrow> string \<Rightarrow> string option \<Rightarrow> 'b \<Rightarrow> 'b cache \<Rightarrow> 'b cache" where
  "cache_set project worktree path baseline b c =
     (let m = (case c project of None \<Rightarrow> [] | Some m \<Rightarrow> m);
          k = cache_key worktree path baseline
      in c(project \<mapsto> evict (omap_set k \<lparr>entryPath = path, entryWorktree = worktree, entryBundle = b\<rparr> (omap_del k m))))"

definition onWatch :: "string \<Rightarrow> string list \<Rightarrow> string option \<Rightarrow> 'b cache \<Rightarrow> 'b cache" where
  "onWatch project changed worktree c =
     (case c project of
        None \<Rightarrow> c
      | Some m \<Rightarrow>
          if changed = [] then c
          else (case worktree of
              Some wt \<Rightarrow> c(project \<mapsto> filter (\<lambda>(_, e). \<not> (entryWorktree e = wt \<and> entryPath e \<in> set changed)) m)
            | None \<Rightarrow>
                if list_ex isGitStateSignal changed then c(project \<mapsto> [])
                else c(project \<mapsto> filter (\<lambda>(_, e). entryPath e \<notin> set changed) m)))"

definition evictProject :: "string \<Rightarrow> 'b cache \<Rightarrow> 'b cache" where
  "evictProject project c = c(project := None)"

definition clear_cache :: "'b cache \<Rightarrow> 'b cache" where
  "clear_cache c = Map.empty"

datatype 'b cache_op =
    CSet string string string "string option" 'b
  | CWatch string "string list" "string option"
  | CEvict string
  | CClear

fun cache_step :: "'b cache \<Rightarrow> 'b cache_op \<Rightarrow> 'b cache" where
  "cache_step c (CSet p w f b v) = cache_set p w f b v c"
| "cache_step c (CWatch p ps wt) = onWatch p ps wt c"
| "cache_step c (CEvict p) = evictProject p c"
| "cache_step c CClear = clear_cache c"

section \<open>What a path means, by its segments\<close>

definition meaning :: "string list \<Rightarrow> WatchCategory option" where
  "meaning segs =
     (if ''node_modules'' \<in> set segs then None
      else if hd segs = ''.git'' then
        (if segs = [''.git'', ''HEAD''] \<or> segs = [''.git'', ''packed-refs'']
           \<or> (1 < length segs \<and> startsWith (segs ! 1) ''refs'')
           \<or> (1 < length segs \<and> segs ! 1 = ''worktrees'' \<and> length segs \<le> 3)
         then Some GitState else None)
      else if hd segs = ''.beads'' then
        (if segs = [''.beads'', ''beads.db''] \<or> segs = [''.beads'', ''issues.jsonl''] then Some Beads else None)
      else Some WorkingTree)"

text \<open>The ways a mechanism may spell the path with these segments.\<close>

definition segments_ok :: "string list \<Rightarrow> bool" where
  "segments_ok segs \<longleftrightarrow> segs \<noteq> [] \<and> hd segs \<noteq> [] \<and> hd segs \<noteq> ''.''
     \<and> list_all (\<lambda>s. CHR ''/'' \<notin> set s \<and> CHR 0x5C \<notin> set s) segs"

definition spelled :: "string \<Rightarrow> string list \<Rightarrow> bool" where
  "spelled p segs \<longleftrightarrow> (\<exists>lead sep. p = lead @ joinWith [sep] segs
     \<and> (sep = CHR ''/'' \<or> sep = CHR 0x5C) \<and> (lead = ''./'' \<or> set lead \<subseteq> {CHR ''/''}))"

lemma startsWith_stop: "c \<notin> set p \<Longrightarrow> startsWith (s @ c # r) p \<longleftrightarrow> startsWith s p"
proof (induction p arbitrary: s)
  case (Cons a p)
  then show ?case by (cases s) auto
qed simp

lemma startsWith_join: "c \<notin> set p \<Longrightarrow> startsWith (joinWith [c] (s # ss)) p \<longleftrightarrow> startsWith s p"
  by (cases ss) (simp_all add: startsWith_stop)

lemma join_eq_iff:
  assumes "segs \<noteq> []" "\<And>s. s \<in> set segs \<Longrightarrow> c \<notin> set s"
  shows "joinWith [c] segs = x \<longleftrightarrow> segs = splitOn c x"
  using split_join [OF assms] by auto

lemma map_join: "map f (joinWith sep ss) = joinWith (map f sep) (map (map f) ss)"
  by (induction ss rule: joinWith.induct[of _ sep]) simp_all

lemma segments_okD:
  assumes "segments_ok segs"
  shows "segs \<noteq> []" "\<And>s. s \<in> set segs \<Longrightarrow> CHR ''/'' \<notin> set s"
    "splitOn (CHR ''/'') (joinWith [CHR ''/''] segs) = segs" "joinWith [CHR ''/''] segs \<noteq> []"
    "hd (joinWith [CHR ''/''] segs) \<noteq> CHR ''/''" "\<not> startsWith (joinWith [CHR ''/''] segs) ''./''"
proof -
  show s1: "segs \<noteq> []" and s2: "\<And>s. s \<in> set segs \<Longrightarrow> CHR ''/'' \<notin> set s"
    using assms by (auto simp: segments_ok_def list_all_iff)
  then show "splitOn (CHR ''/'') (joinWith [CHR ''/''] segs) = segs" by (intro split_join)
  obtain s ss where s: "segs = s # ss" using s1 by (cases segs) auto
  obtain a t where a: "s = a # t" using assms s by (cases s) (auto simp: segments_ok_def)
  have a2: "a \<noteq> CHR ''/''" using s2 [of s] by (auto simp: s a)
  show "joinWith [CHR ''/''] segs \<noteq> []" "hd (joinWith [CHR ''/''] segs) \<noteq> CHR ''/''"
    using a2 by (simp_all add: s a joinWith_head)
  show "\<not> startsWith (joinWith [CHR ''/''] segs) ''./''"
  proof
    assume h: "startsWith (joinWith [CHR ''/''] segs) ''./''"
    have "t \<noteq> [] \<or> a \<noteq> CHR ''.''" using assms by (auto simp: segments_ok_def s a)
    with h s2 [of s] show False
      by (cases ss; cases t) (auto simp: s a joinWith_Cons)
  qed
qed

lemma normalize_spelled:
  assumes "segments_ok segs" "spelled p segs"
  shows "normalizeWatchPath p = joinWith [CHR ''/''] segs"
proof -
  let ?f = "\<lambda>c. if c = CHR 0x5C then CHR ''/'' else c"
  let ?j = "joinWith [CHR ''/''] segs"
  obtain lead sep where l: "p = lead @ joinWith [sep] segs" "sep = CHR ''/'' \<or> sep = CHR 0x5C"
    "lead = ''./'' \<or> set lead \<subseteq> {CHR ''/''}"
    using assms(2) unfolding spelled_def by blast
  then have p: "p = lead @ joinWith [sep] segs" "?f sep = CHR ''/''"
    "lead = ''./'' \<or> set lead \<subseteq> {CHR ''/''}" by auto
  have "map ?f s = s" if "s \<in> set segs" for s
    using assms(1) that by (intro map_idI) (auto simp: segments_ok_def list_all_iff)
  then have "map (map ?f) segs = segs" by (rule map_idI)
  then have m: "map ?f (joinWith [sep] segs) = ?j" using p(2) by (simp add: map_join)
  have d: "dropWhile (\<lambda>c. c = CHR ''/'') ?j = ?j"
    using segments_okD(4,5) [OF assms(1)] by (cases ?j) auto
  from p(3) show ?thesis
  proof
    assume "lead = ''./''"
    then show ?thesis using p m d by (simp add: normalizeWatchPath_def Let_def)
  next
    assume l: "set lead \<subseteq> {CHR ''/''}"
    then have ml: "map ?f lead = lead" by (intro map_idI) auto
    have "\<not> startsWith (lead @ ?j) ''./''"
      using l segments_okD(6) [OF assms(1)] by (cases lead) auto
    moreover have "dropWhile (\<lambda>c. c = CHR ''/'') (lead @ ?j) = ?j"
      using l d by (simp add: subset_iff)
    ultimately show ?thesis using p m ml by (simp add: normalizeWatchPath_def Let_def)
  qed
qed

lemma classify_rel:
  assumes "segments_ok segs" "normalizeWatchPath p = joinWith [CHR ''/''] segs"
  shows "classifyWatchPath p = meaning segs"
proof -
  note ok = segments_okD [OF assms(1)]
  let ?j = "joinWith [CHR ''/''] segs"
  have eq: "?j = x \<longleftrightarrow> segs = splitOn (CHR ''/'') x" for x
    by (rule join_eq_iff) (use ok(1,2) in auto)
  have refs: "startsWith ?j ''.git/refs'' \<longleftrightarrow> 1 < length segs \<and> startsWith (segs ! 1) ''refs''"
    if h: "hd segs = ''.git''"
  proof -
    obtain ss where s: "segs = ''.git'' # ss" using ok(1) h by (cases segs) auto
    show ?thesis
    proof (cases ss)
      case Nil
      then show ?thesis by (simp add: s)
    next
      case (Cons r rs)
      have "startsWith (joinWith [CHR ''/''] (r # rs)) ''refs'' \<longleftrightarrow> startsWith r ''refs''"
        by (rule startsWith_join) simp
      then show ?thesis by (simp add: s Cons)
    qed
  qed
  have b: "?j \<in> set BEADS_SIGNALS \<longleftrightarrow> segs = [''.beads'', ''beads.db''] \<or> segs = [''.beads'', ''issues.jsonl'']"
    by (simp add: BEADS_SIGNALS_def eq)
  have n: "list_ex (\<lambda>s. s \<in> set NEVER_RECURSE) segs \<longleftrightarrow> ''node_modules'' \<in> set segs"
    by (auto simp: NEVER_RECURSE_def list_ex_iff)
  have g: "?j = ''.git/HEAD'' \<longleftrightarrow> segs = [''.git'', ''HEAD'']"
    "?j = ''.git/packed-refs'' \<longleftrightarrow> segs = [''.git'', ''packed-refs'']" by (simp_all add: eq)
  show ?thesis
  proof (cases "hd segs = ''.git''")
    case True
    with refs [OF True] show ?thesis
      unfolding classifyWatchPath_def assms(2) meaning_def Let_def ok(3) n g
      by (simp only: ok(4) if_False refl if_True if_cancel split: if_split) blast
  next
    case False
    then show ?thesis
      unfolding classifyWatchPath_def assms(2) meaning_def Let_def ok(3) n b
      by (simp only: ok(4) if_False)
  qed
qed

lemma classify_cong: "normalizeWatchPath p = normalizeWatchPath q \<Longrightarrow> classifyWatchPath p = classifyWatchPath q"
  by (simp only: classifyWatchPath_def)

section \<open>Ingest lemmas\<close>

lemma run_ingest_Cons:
  "fst (run_ingest d s ((t, c) # cs) fin) =
     fst (fire_due t s) @ fst (call_ingest d t c (snd (fire_due t s)))
       @ fst (run_ingest d (snd (call_ingest d t c (snd (fire_due t s)))) cs fin)"
  "snd (run_ingest d s ((t, c) # cs) fin) =
     snd (run_ingest d (snd (call_ingest d t c (snd (fire_due t s)))) cs fin)"
  by (simp_all add: Let_def split_beta)

declare run_ingest.simps(2) [simp del]

definition accepted :: "string list \<Rightarrow> (string \<times> WatchCategory) \<Rightarrow> bool" where
  "accepted ps rc \<longleftrightarrow> (\<exists>p\<in>set ps. classifyWatchPath p = Some (snd rc) \<and> normalizeWatchPath p = fst rc)"

text \<open>The category of a normalized path that some spelling of it was accepted with.\<close>

definition tagged :: "string \<times> WatchCategory \<Rightarrow> bool" where
  "tagged rc \<longleftrightarrow> (\<exists>p. classifyWatchPath p = Some (snd rc) \<and> normalizeWatchPath p = fst rc)"

lemma tagged_unique: "tagged (r, c) \<Longrightarrow> tagged (r, c') \<Longrightarrow> c = c'"
proof -
  assume "tagged (r, c)" "tagged (r, c')"
  then obtain p q where "classifyWatchPath p = Some c" "normalizeWatchPath p = r"
    "classifyWatchPath q = Some c'" "normalizeWatchPath q = r" by (auto simp: tagged_def)
  with classify_cong [of p q] show "c = c'" by simp
qed

definition ingest_inv :: "watch_ingest \<Rightarrow> bool" where
  "ingest_inv s \<longleftrightarrow> distinct (map fst (pendingPaths s)) \<and> (timer s = None \<longleftrightarrow> pendingPaths s = [])"

lemma omap_set_entry: "(r, c) \<in> set (omap_set k v m) \<Longrightarrow> (r, c) \<in> set m \<or> (r = k \<and> c = v)"
  by (auto simp: omap_set_def split: if_splits)

lemma omap_set_ne [simp]: "omap_set k v m \<noteq> []"
  by (auto simp: omap_set_def)

lemma feed_paths_keys:
  "fst ` set (fst (feed_paths ps (m, a)))
     = fst ` set m \<union> {normalizeWatchPath p | p. p \<in> set ps \<and> classifyWatchPath p \<noteq> None}"
proof (induction ps arbitrary: m a)
  case (Cons p ps)
  show ?case
    by (cases "classifyWatchPath p") (auto simp: Cons.IH omap_keys_set)
qed simp

lemma feed_paths_entries:
  "rc \<in> set (fst (feed_paths ps (m, a))) \<Longrightarrow> rc \<in> set m \<or> accepted ps rc"
proof (induction ps arbitrary: m a)
  case (Cons p ps)
  then show ?case
    by (cases "classifyWatchPath p"; cases rc) (fastforce simp: accepted_def dest: omap_set_entry)+
qed simp

lemma feed_paths_distinct: "distinct (map fst m) \<Longrightarrow> distinct (map fst (fst (feed_paths ps (m, a))))"
  by (induction ps "(m, a)" arbitrary: m a rule: feed_paths.induct)
    (auto simp: omap_distinct_set split: option.splits)

lemma feed_paths_added:
  "snd (feed_paths ps (m, a)) \<longleftrightarrow> a \<or> (\<exists>p\<in>set ps. classifyWatchPath p \<noteq> None)"
  by (induction ps "(m, a)" arbitrary: m a rule: feed_paths.induct) (auto split: option.splits)

lemma feed_paths_Nil:
  "fst (feed_paths ps (m, a)) = [] \<longleftrightarrow> m = [] \<and> (\<forall>p\<in>set ps. classifyWatchPath p = None)"
proof -
  have "fst (feed_paths ps (m, a)) = [] \<longleftrightarrow> fst ` set (fst (feed_paths ps (m, a))) = {}" by simp
  then show ?thesis by (auto simp: feed_paths_keys)
qed

lemma feed_watch_simps:
  "pendingPaths (feed_watch d now ps s) = fst (feed_paths ps (pendingPaths s, False))"
  "timer (feed_watch d now ps s) =
     (if (\<exists>p\<in>set ps. classifyWatchPath p \<noteq> None) \<and> timer s = None then Some (now + d) else timer s)"
  using feed_paths_added [of ps "pendingPaths s" False]
  by (auto simp: feed_watch_def split: prod.splits)

lemma flush_simps:
  "pendingPaths (snd (flush now s)) = []" "timer (snd (flush now s)) = None"
  "fst (flush now s) = (if pendingPaths s = [] then []
     else [\<lparr>categories = foldl (\<lambda>cs (_, c). oset_add c cs) [] (pendingPaths s), paths = pendingPaths s, at = now\<rparr>])"
  by (simp_all add: flush_def Let_def)

lemma ingest_inv_new: "ingest_inv createWatchIngest"
  by (simp add: ingest_inv_def createWatchIngest_def)

lemma ingest_inv_fire: "ingest_inv s \<Longrightarrow> ingest_inv (snd (fire_due now s))"
  by (auto simp: ingest_inv_def fire_due_def flush_simps split: option.splits)

lemma ingest_inv_call: "ingest_inv s \<Longrightarrow> ingest_inv (snd (call_ingest d now c s))"
  by (cases c) (auto simp: ingest_inv_def flush_simps dispose_def feed_watch_simps feed_paths_distinct feed_paths_Nil)

lemma cats_of:
  "set (foldl (\<lambda>cs (_, c). oset_add c cs) acc m) = set acc \<union> snd ` set m"
  "distinct acc \<Longrightarrow> distinct (foldl (\<lambda>cs (_, c). oset_add c cs) acc m)"
  by (induction m arbitrary: acc) auto

text \<open>What every emitted event is like, given what was pending and what is fed.\<close>

definition event_ok :: "((string \<times> WatchCategory) \<Rightarrow> bool) \<Rightarrow> CanonicalWatchEvent \<Rightarrow> bool" where
  "event_ok src e \<longleftrightarrow> paths e \<noteq> [] \<and> distinct (map fst (paths e)) \<and> distinct (categories e)
     \<and> set (categories e) = snd ` set (paths e) \<and> (\<forall>rc\<in>set (paths e). src rc)
     \<and> categories e = foldl (\<lambda>cs (_, c). oset_add c cs) [] (paths e)"

lemma flush_ok:
  "ingest_inv s \<Longrightarrow> (\<And>rc. rc \<in> set (pendingPaths s) \<Longrightarrow> src rc) \<Longrightarrow> e \<in> set (fst (flush now s)) \<Longrightarrow> event_ok src e"
  by (auto simp: flush_simps event_ok_def ingest_inv_def cats_of split: if_splits)

lemma run_ingest_ok:
  assumes "ingest_inv s" "\<And>rc. rc \<in> set (pendingPaths s) \<Longrightarrow> src rc"
    and "\<And>t ps rc. (t, Feed ps) \<in> set calls \<Longrightarrow> accepted ps rc \<Longrightarrow> src rc"
    and "e \<in> set (fst (run_ingest d s calls fin))"
  shows "event_ok src e"
  using assms
proof (induction calls arbitrary: s)
  case Nil
  then show ?case using flush_ok [of s src e] by (auto simp: fire_due_def split: option.splits if_splits)
next
  case (Cons tc calls)
  obtain t c where tc: "tc = (t, c)" by (cases tc)
  let ?s1 = "snd (fire_due t s)" and ?s2 = "snd (call_ingest d t c (snd (fire_due t s)))"
  have inv1: "ingest_inv ?s1" by (rule ingest_inv_fire [OF Cons.prems(1)])
  have inv2: "ingest_inv ?s2" by (rule ingest_inv_call [OF inv1])
  have src1: "src rc" if "rc \<in> set (pendingPaths ?s1)" for rc
    using that Cons.prems(2) by (auto simp: fire_due_def flush_simps split: option.splits if_splits)
  have src2: "src rc" if "rc \<in> set (pendingPaths ?s2)" for rc
  proof (cases c)
    case (Feed ps)
    with that feed_paths_entries [of rc ps "pendingPaths ?s1" False] src1 [of rc] Cons.prems(3) [of t ps rc]
    show ?thesis by (auto simp: tc feed_watch_simps)
  qed (use that in \<open>simp_all add: flush_simps dispose_def\<close>)
  from Cons.prems(4) consider "e \<in> set (fst (fire_due t s))" | "e \<in> set (fst (call_ingest d t c ?s1))"
    | "e \<in> set (fst (run_ingest d ?s2 calls fin))"
    by (auto simp: tc run_ingest_Cons)
  then show ?case
  proof cases
    case 1
    then show ?thesis using flush_ok [OF Cons.prems(1,2)]
      by (auto simp: fire_due_def split: option.splits if_splits)
  next
    case 2
    then show ?thesis using flush_ok [OF inv1 src1] by (cases c) auto
  next
    case 3
    show ?thesis by (rule Cons.IH [OF inv2 src2 _ 3]) (use Cons.prems(3) in auto)
  qed
qed

text \<open>A pending path leaves by the deadline of the timer, unless the ingest is disposed.\<close>

lemma pending_emitted:
  assumes "ingest_inv s" "r \<in> fst ` set (pendingPaths s)" "timer s = Some dl" "dl \<le> fin"
    and "t0 \<le> dl" "\<And>t c. (t, c) \<in> set calls \<Longrightarrow> t0 \<le> t \<and> c \<noteq> Dispose"
  shows "\<exists>e\<in>set (fst (run_ingest d s calls fin)). r \<in> fst ` set (paths e) \<and> t0 \<le> at e \<and> at e \<le> dl"
  using assms
proof (induction calls arbitrary: s)
  case Nil
  then show ?case by (auto simp: fire_due_def flush_simps)
next
  case (Cons tc calls)
  obtain t c where tc: "tc = (t, c)" by (cases tc)
  have ne: "pendingPaths s \<noteq> []" using Cons.prems(2) by auto
  show ?case
  proof (cases "dl \<le> t")
    case True
    then show ?thesis using Cons.prems(2,3,5) ne
      by (auto simp: tc run_ingest_Cons fire_due_def flush_simps)
  next
    case late: False
    have f: "fire_due t s = ([], s)" using late Cons.prems(3) by (simp add: fire_due_def)
    have bound: "t0 \<le> t" "c \<noteq> Dispose" using Cons.prems(6) [of t c] by (auto simp: tc)
    show ?thesis
    proof (cases c)
      case (Feed ps)
      let ?s = "feed_watch d t ps s"
      have "r \<in> fst ` set (pendingPaths ?s)" using Cons.prems(2) by (simp add: feed_watch_simps feed_paths_keys)
      moreover have "timer ?s = Some dl" using Cons.prems(3) by (simp add: feed_watch_simps)
      moreover have "ingest_inv ?s" using ingest_inv_call [OF Cons.prems(1), of d t "Feed ps"] by simp
      ultimately have "\<exists>e\<in>set (fst (run_ingest d ?s calls fin)). r \<in> fst ` set (paths e) \<and> t0 \<le> at e \<and> at e \<le> dl"
        using Cons.prems(4,5,6) by (intro Cons.IH) auto
      then show ?thesis by (auto simp: tc f Feed run_ingest_Cons)
    next
      case Flush
      then show ?thesis using Cons.prems(2) ne late bound
        by (auto simp: tc f flush_simps run_ingest_Cons)
    next
      case Dispose
      with bound show ?thesis by simp
    qed
  qed
qed

lemma run_ingest_append:
  "fst (run_ingest d s (pre @ (t, c) # post) fin) =
     fst (run_ingest d s pre t) @ fst (call_ingest d t c (snd (run_ingest d s pre t)))
       @ fst (run_ingest d (snd (call_ingest d t c (snd (run_ingest d s pre t)))) post fin)"
  by (induction pre arbitrary: s) (auto simp: run_ingest_Cons)

lemma run_ingest_inv: "ingest_inv s \<Longrightarrow> ingest_inv (snd (run_ingest d s calls fin))"
proof (induction calls arbitrary: s)
  case (Cons tc calls)
  then show ?case using ingest_inv_fire ingest_inv_call
    by (cases tc) (simp add: run_ingest_Cons)
qed (simp add: ingest_inv_fire)

text \<open>After the host has reached a time, no timer is due before it.\<close>

lemma run_ingest_timer:
  assumes "\<And>dl. timer s = Some dl \<Longrightarrow> dl \<le> t0 + d" "t0 \<le> fin" "sorted (map fst calls @ [fin])"
    "\<And>t c. (t, c) \<in> set calls \<Longrightarrow> t0 \<le> t"
  shows "case timer (snd (run_ingest d s calls fin)) of None \<Rightarrow> True | Some dl \<Rightarrow> fin < dl \<and> dl \<le> fin + d"
  using assms
proof (induction calls arbitrary: s t0)
  case Nil
  then show ?case by (fastforce simp: fire_due_def flush_simps split: option.splits)
next
  case (Cons tc calls)
  obtain t c where tc: "tc = (t, c)" by (cases tc)
  let ?s1 = "snd (fire_due t s)" let ?s2 = "snd (call_ingest d t c ?s1)"
  have t: "t0 \<le> t" using Cons.prems(4) [of t c] by (simp add: tc)
  have "dl \<le> t + d" if "timer ?s1 = Some dl" for dl
    using that Cons.prems(1) [of dl] t by (auto simp: fire_due_def flush_simps split: option.splits if_splits)
  then have "dl \<le> t + d" if "timer ?s2 = Some dl" for dl
    using that by (cases c) (auto simp: flush_simps dispose_def feed_watch_simps split: if_splits)
  then have "case timer (snd (run_ingest d ?s2 calls fin)) of None \<Rightarrow> True | Some dl \<Rightarrow> fin < dl \<and> dl \<le> fin + d"
    using Cons.prems(3) by (intro Cons.IH [of _ t]) (auto simp: tc)
  then show ?case by (simp add: tc run_ingest_Cons)
qed

section \<open>Hub lemmas\<close>

definition hub_inv :: "hub \<Rightarrow> bool" where
  "hub_inv h \<longleftrightarrow> (attached h \<longleftrightarrow> hubListeners h \<noteq> []) \<and> distinct (map fst (hubListeners h))
     \<and> (\<forall>l\<in>fst ` set (hubListeners h). l < nextListenerId h)"

lemma hub_step_inv: "hub_inv h \<Longrightarrow> hub_inv (hub_step h c)"
  by (cases c) (auto simp: hub_inv_def subscribeWatch_def unsubscribeWatch_def Let_def omap_distinct_del
      omap_keys_del, auto simp: omap_del_def)

interpretation hub_machine: stepping hub_step hub_inv
  by unfold_locales (rule hub_step_inv)

lemma hub_inv_new: "hub_inv new_hub"
  by (simp add: hub_inv_def new_hub_def)

lemma hub_classify_eq:
  "hub_classify ps (out, cats) = (out @ filter (\<lambda>p. classifyWatchPath p \<noteq> None) ps,
     foldl (\<lambda>cs c. oset_add c cs) cats (map (the \<circ> classifyWatchPath) (filter (\<lambda>p. classifyWatchPath p \<noteq> None) ps)))"
  by (induction ps arbitrary: out cats) (auto split: option.splits)

lemma set_foldl_oset: "set (foldl (\<lambda>cs c. oset_add c cs) acc xs) = set acc \<union> set xs"
  by (induction xs arbitrary: acc) auto

definition hub_event :: "string option \<Rightarrow> string option \<Rightarrow> string list \<Rightarrow> string \<Rightarrow> HubWatchEvent" where
  "hub_event pid wt ps a = \<lparr>hubProject = (case pid of None \<Rightarrow> [] | Some p \<Rightarrow> p), hubWorktree = wt,
     hubCategories = remdups (map (the \<circ> classifyWatchPath) (filter (\<lambda>p. classifyWatchPath p \<noteq> None) ps)),
     hubPaths = filter (\<lambda>p. classifyWatchPath p \<noteq> None) ps, hubAt = a\<rparr>"

lemma handleRaw_eq:
  "handleRaw pid wt (Some (Some ps, Some a)) h =
     (let out = filter (\<lambda>p. classifyWatchPath p \<noteq> None) ps;
          cats = foldl (\<lambda>cs c. oset_add c cs) [] (map (the \<circ> classifyWatchPath) out)
      in if out = [] then []
         else map (\<lambda>(l, _). (l, \<lparr>hubProject = (case pid of None \<Rightarrow> [] | Some p \<Rightarrow> p), hubWorktree = wt,
                hubCategories = cats, hubPaths = out, hubAt = a\<rparr>))
           (filter (\<lambda>(_, interest). list_ex (\<lambda>c. c \<in> set interest) cats) (hubListeners h)))"
proof -
  have "foldl (\<lambda>cs c. oset_add c cs) [] (map (the \<circ> classifyWatchPath) (filter (\<lambda>p. classifyWatchPath p \<noteq> None) ps)) = []
      \<longleftrightarrow> filter (\<lambda>p. classifyWatchPath p \<noteq> None) ps = []"
    by (simp only: set_empty [symmetric] set_foldl_oset) simp
  then show ?thesis by (simp add: handleRaw_def hub_classify_eq Let_def)
qed

lemma accepted_categories:
  "list_ex (\<lambda>c. c \<in> set interest) (foldl (\<lambda>cs c. oset_add c cs) []
      (map (the \<circ> classifyWatchPath) (filter (\<lambda>p. classifyWatchPath p \<noteq> None) ps)))
     \<longleftrightarrow> (\<exists>p\<in>set ps. \<exists>c\<in>set interest. classifyWatchPath p = Some c)"
  by (force simp: list_ex_iff set_foldl_oset)

section \<open>Cache lemmas\<close>

lemma evict_suffix: "distinct (map fst m) \<Longrightarrow> evict m = drop (length m - MAX_ENTRIES_PER_PROJECT) m"
proof (induction m rule: evict.induct)
  case (1 m)
  show ?case
  proof (cases "MAX_ENTRIES_PER_PROJECT < length m")
    case True
    then obtain k e ms where m: "m = (k, e) # ms" by (cases m) auto
    have d: "omap_del k m = ms"
      using 1(2) by (force simp: m omap_del_def filter_id_conv)
    have "evict m = evict ms" using True by (subst evict.simps) (simp add: m d [unfolded m])
    also have "\<dots> = drop (length ms - MAX_ENTRIES_PER_PROJECT) ms"
      using 1(1) [OF True m refl] 1(2) by (simp add: d [unfolded m] m)
    finally show ?thesis using True by (simp add: m Suc_diff_le)
  next
    case False
    then show ?thesis by (subst evict.simps) simp
  qed
qed

text \<open>What the entry under a key records.\<close>

definition cache_inv :: "'b cache \<Rightarrow> bool" where
  "cache_inv c \<longleftrightarrow> (\<forall>p m. c p = Some m \<longrightarrow> distinct (map fst m) \<and> length m \<le> MAX_ENTRIES_PER_PROJECT)"

lemma cache_step_inv: "cache_inv c \<Longrightarrow> cache_inv (cache_step c op)"
proof (cases op)
  case (CSet p w f b v)
  assume a: "cache_inv c"
  let ?m = "omap_set (cache_key w f b) \<lparr>entryPath = f, entryWorktree = w, entryBundle = v\<rparr>
      (omap_del (cache_key w f b) (case c p of None \<Rightarrow> [] | Some m \<Rightarrow> m))"
  have "distinct (map fst ?m)"
    using a by (intro omap_distinct_set omap_distinct_del) (auto simp: cache_inv_def split: option.splits)
  then have "distinct (map fst (evict ?m))" "length (evict ?m) \<le> MAX_ENTRIES_PER_PROJECT"
    by (simp_all add: evict_suffix drop_map [symmetric])
  with a show ?thesis by (simp add: CSet cache_inv_def cache_set_def Let_def)
next
  case (CWatch p ps wt)
  assume a: "cache_inv c"
  have f: "distinct (map fst (filter P m))" "length (filter P m) \<le> MAX_ENTRIES_PER_PROJECT"
    if "c p = Some m" for P m
    using a that by (auto simp: cache_inv_def distinct_map_filter intro: le_trans [OF length_filter_le])
  with a show ?thesis
    by (auto simp: CWatch cache_inv_def onWatch_def split: option.splits)
qed (auto simp: cache_inv_def evictProject_def clear_cache_def)

interpretation cache_machine: stepping "cache_step :: 'b cache \<Rightarrow> 'b cache_op \<Rightarrow> 'b cache" cache_inv
  by unfold_locales (rule cache_step_inv)

lemma cache_inv_empty: "cache_inv Map.empty"
  by (simp add: cache_inv_def)

definition base_of :: "string option \<Rightarrow> string" where
  "base_of b = (case b of None \<Rightarrow> [] | Some s \<Rightarrow> s)"

fun invalidates :: "'b cache_op \<Rightarrow> string \<Rightarrow> string \<Rightarrow> string \<Rightarrow> bool" where
  "invalidates (CWatch q ps None) p w f \<longleftrightarrow> q = p \<and> (f \<in> set ps \<or> (\<exists>x\<in>set ps. classifyWatchPath x = Some GitState))"
| "invalidates (CWatch q ps (Some wt)) p w f \<longleftrightarrow> q = p \<and> w = wt \<and> f \<in> set ps"
| "invalidates (CEvict q) p w f \<longleftrightarrow> q = p"
| "invalidates CClear p w f \<longleftrightarrow> True"
| "invalidates (CSet q w' f' b' v) p w f \<longleftrightarrow> False"

fun op_sep_free :: "'b cache_op \<Rightarrow> bool" where
  "op_sep_free (CSet p w f b v) \<longleftrightarrow> CACHE_SEP \<notin> set w \<and> CACHE_SEP \<notin> set f"
| "op_sep_free _ \<longleftrightarrow> True"

definition entries_ok :: "'b cache \<Rightarrow> bool" where
  "entries_ok c \<longleftrightarrow> cache_inv c \<and> (\<forall>p m k e. c p = Some m \<longrightarrow> (k, e) \<in> set m \<longrightarrow>
     CACHE_SEP \<notin> set (entryWorktree e) \<and> CACHE_SEP \<notin> set (entryPath e)
     \<and> (\<exists>b. k = cache_key (entryWorktree e) (entryPath e) b))"

lemma cache_key_inj:
  assumes "CACHE_SEP \<notin> set w" "CACHE_SEP \<notin> set f" "CACHE_SEP \<notin> set w'" "CACHE_SEP \<notin> set f'"
  shows "cache_key w f b = cache_key w' f' b' \<longleftrightarrow> w = w' \<and> f = f' \<and> base_of b = base_of b'"
proof
  assume "cache_key w f b = cache_key w' f' b'"
  then have e: "w @ CACHE_SEP # f @ CACHE_SEP # base_of b = w' @ CACHE_SEP # f' @ CACHE_SEP # base_of b'"
    by (simp add: cache_key_def base_of_def)
  have "takeWhile (\<lambda>c. c \<noteq> CACHE_SEP) (a @ CACHE_SEP # r) = a" if "CACHE_SEP \<notin> set a" for a r
    using that by (induction a) auto
  note tw = this
  have w: "w = w'" using arg_cong [OF e, of "takeWhile (\<lambda>c. c \<noteq> CACHE_SEP)"] assms by (simp add: tw)
  then have e2: "f @ CACHE_SEP # base_of b = f' @ CACHE_SEP # base_of b'" using e by simp
  have "f = f'" using arg_cong [OF e2, of "takeWhile (\<lambda>c. c \<noteq> CACHE_SEP)"] assms by (simp add: tw)
  with w e2 show "w = w' \<and> f = f' \<and> base_of b = base_of b'" by simp
qed (simp add: cache_key_def base_of_def)

lemma evict_subset: "distinct (map fst m) \<Longrightarrow> set (evict m) \<subseteq> set m"
  by (simp add: evict_suffix set_drop_subset)

lemma omap_set_subset: "x \<in> set (omap_set k v m) \<Longrightarrow> x \<in> set m \<or> x = (k, v)"
  by (cases x) (auto dest: omap_set_entry)

lemma cache_set_entries:
  assumes "cache_inv c" "cache_set p w f b v c q = Some m" "x \<in> set m"
  shows "(q = p \<and> x = (cache_key w f b, \<lparr>entryPath = f, entryWorktree = w, entryBundle = v\<rparr>))
    \<or> (\<exists>m0. c q = Some m0 \<and> x \<in> set m0 \<and> (q = p \<longrightarrow> fst x \<noteq> cache_key w f b))"
proof (cases "q = p")
  case True
  let ?k = "cache_key w f b" and ?e = "\<lparr>entryPath = f, entryWorktree = w, entryBundle = v\<rparr>"
  let ?m0 = "case c p of None \<Rightarrow> [] | Some m \<Rightarrow> m"
  have d: "distinct (map fst (omap_set ?k ?e (omap_del ?k ?m0)))"
    using assms(1) by (intro omap_distinct_set omap_distinct_del) (auto simp: cache_inv_def split: option.splits)
  from assms(2,3) True have "x \<in> set (evict (omap_set ?k ?e (omap_del ?k ?m0)))"
    by (simp add: cache_set_def Let_def)
  then have "x \<in> set (omap_set ?k ?e (omap_del ?k ?m0))" using evict_subset [OF d] by blast
  then have "x \<in> set (omap_del ?k ?m0) \<or> x = (?k, ?e)" by (rule omap_set_subset)
  then show ?thesis using True by (cases "c p") (auto simp: omap_del_def)
qed (use assms in \<open>auto simp: cache_set_def Let_def\<close>)

lemma onWatch_entries:
  assumes "onWatch p ps wt c q = Some m" "x \<in> set m"
  shows "\<exists>m0. c q = Some m0 \<and> x \<in> set m0"
  using assms by (auto simp: onWatch_def split: option.splits if_splits)

lemma entries_ok_step: "entries_ok c \<Longrightarrow> op_sep_free op \<Longrightarrow> entries_ok (cache_step c op)"
proof -
  assume a: "entries_ok c" "op_sep_free op"
  then have "cache_inv (cache_step c op)" by (simp add: entries_ok_def cache_step_inv)
  moreover have "CACHE_SEP \<notin> set (entryWorktree e) \<and> CACHE_SEP \<notin> set (entryPath e)
     \<and> (\<exists>b. k = cache_key (entryWorktree e) (entryPath e) b)"
    if m: "cache_step c op q = Some m" "(k, e) \<in> set m" for q m k e
  proof (cases op)
    case (CSet p w f b v)
    with m a cache_set_entries [of c p w f b v q m "(k, e)"] show ?thesis
      by (auto simp: entries_ok_def)
  next
    case (CWatch p ps wt)
    with m a onWatch_entries [of p ps wt c q m "(k, e)"] show ?thesis
      by (auto simp: entries_ok_def)
  qed (use m a in \<open>auto simp: entries_ok_def evictProject_def clear_cache_def split: if_splits\<close>)
  ultimately show ?thesis unfolding entries_ok_def by blast
qed

lemma cache_get_entry:
  "cache_inv c \<Longrightarrow> cache_get p w f b c = Some v \<longleftrightarrow>
     (\<exists>m e. c p = Some m \<and> (cache_key w f b, e) \<in> set m \<and> entryBundle e = v)"
  by (auto simp: cache_get_def cache_inv_def split: option.splits)

text \<open>One operation: what a hit after it says about before it.\<close>

definition stores :: "'b cache_op \<Rightarrow> string \<Rightarrow> string \<Rightarrow> string \<Rightarrow> string option \<Rightarrow> bool" where
  "stores op p w f b \<longleftrightarrow> (\<exists>b' v. op = CSet p w f b' v \<and> base_of b' = base_of b)"

lemma get_step:
  assumes ok: "entries_ok c" "op_sep_free op" "CACHE_SEP \<notin> set w" "CACHE_SEP \<notin> set f"
    and get: "cache_get p w f b (cache_step c op) = Some v"
  shows "(\<exists>b'. op = CSet p w f b' v \<and> base_of b' = base_of b)
    \<or> (cache_get p w f b c = Some v \<and> \<not> invalidates op p w f \<and> \<not> stores op p w f b)"
proof -
  have inv: "cache_inv c" using ok(1) by (simp add: entries_ok_def)
  from get obtain m e where m: "cache_step c op p = Some m" "(cache_key w f b, e) \<in> set m" "entryBundle e = v"
    using cache_get_entry [OF cache_step_inv [OF inv]] by blast
  note before = cache_get_entry [OF inv, of p w f b v]
  show ?thesis
  proof (cases op)
    case (CSet q w' f' b' v')
    have ks: "cache_key w' f' b' = cache_key w f b \<longleftrightarrow> w' = w \<and> f' = f \<and> base_of b' = base_of b"
      using ok(2,3,4) by (intro cache_key_inj) (auto simp: CSet)
    from cache_set_entries [OF inv m(1) [unfolded CSet cache_step.simps] m(2)] m(3) before ks
    show ?thesis by (auto simp: CSet stores_def)
  next
    case (CWatch q ps wt)
    have w: "onWatch q ps wt c p = Some m" using m(1) by (simp add: CWatch)
    obtain m0 where m0: "c p = Some m0" "(cache_key w f b, e) \<in> set m0"
      using onWatch_entries [OF w m(2)] by blast
    then obtain b0 where "cache_key w f b = cache_key (entryWorktree e) (entryPath e) b0"
      "CACHE_SEP \<notin> set (entryWorktree e)" "CACHE_SEP \<notin> set (entryPath e)"
      using ok(1) unfolding entries_ok_def by blast
    then have e: "entryWorktree e = w" "entryPath e = f" using cache_key_inj ok(3,4) by blast+
    have "\<not> invalidates op p w f"
      using w m0 m(2) e by (cases wt) (auto simp: CWatch onWatch_def list_ex_iff isGitStateSignal_def split: if_splits)
    with m0 m(3) before show ?thesis by (auto simp: CWatch stores_def)
  qed (use m before in \<open>auto simp: evictProject_def clear_cache_def stores_def split: if_splits\<close>)
qed

lemma entries_ok_run: "list_all op_sep_free ops \<Longrightarrow> entries_ok (foldl cache_step Map.empty ops)"
  by (induction ops rule: rev_induct) (auto simp: entries_ok_step, simp add: entries_ok_def cache_inv_empty)

text \<open>How long an entry stays: at most \<open>n\<close> entries of its project are newer.\<close>

definition held :: "'b cache \<Rightarrow> string \<Rightarrow> string \<times> 'b Entry \<Rightarrow> nat \<Rightarrow> bool" where
  "held c p x n \<longleftrightarrow> (\<exists>xs ys. c p = Some (xs @ x # ys) \<and> length ys \<le> n)"

fun sets_in :: "string \<Rightarrow> 'b cache_op \<Rightarrow> bool" where
  "sets_in p (CSet q w f b v) \<longleftrightarrow> q = p"
| "sets_in p _ \<longleftrightarrow> False"

lemma omap_set_fresh: "k \<notin> fst ` set m \<Longrightarrow> omap_set k v m = m @ [(k, v)]"
  by (simp add: omap_set_def)

lemma evict_keeps:
  assumes "distinct (map fst (xs @ x # ys))" "length ys < MAX_ENTRIES_PER_PROJECT"
  shows "\<exists>zs. evict (xs @ x # ys) = zs @ x # ys"
proof -
  have "evict (xs @ x # ys) = drop (length (xs @ x # ys) - MAX_ENTRIES_PER_PROJECT) xs @ x # ys"
    using assms(2) by (simp add: evict_suffix [OF assms(1)])
  then show ?thesis by blast
qed

lemma set_held:
  assumes "cache_inv c"
  shows "held (cache_set p w f b v c) p (cache_key w f b, \<lparr>entryPath = f, entryWorktree = w, entryBundle = v\<rparr>) 0"
proof -
  let ?k = "cache_key w f b" and ?e = "\<lparr>entryPath = f, entryWorktree = w, entryBundle = v\<rparr>"
  let ?m = "omap_del ?k (case c p of None \<Rightarrow> [] | Some m \<Rightarrow> m)"
  have n: "?k \<notin> fst ` set ?m" by (auto simp: omap_del_def)
  have "distinct (map fst ?m)"
    using assms by (intro omap_distinct_del) (auto simp: cache_inv_def split: option.splits)
  with n have "distinct (map fst (?m @ (?k, ?e) # []))" by simp
  from evict_keeps [OF this] obtain zs where "evict (?m @ [(?k, ?e)]) = zs @ [(?k, ?e)]"
    by (auto simp: MAX_ENTRIES_PER_PROJECT_def)
  then show ?thesis by (simp add: held_def cache_set_def Let_def omap_set_fresh [OF n])
qed

lemma held_step:
  assumes ok: "entries_ok c" "op_sep_free op" and h: "held c p (cache_key w f b, e) n"
    and e: "entryWorktree e = w" "entryPath e = f" "CACHE_SEP \<notin> set w" "CACHE_SEP \<notin> set f"
    and not: "\<not> invalidates op p w f" "\<not> stores op p w f b" and n: "sets_in p op \<Longrightarrow> Suc n < MAX_ENTRIES_PER_PROJECT"
  shows "held (cache_step c op) p (cache_key w f b, e) (if sets_in p op then Suc n else n)"
proof -
  let ?x = "(cache_key w f b, e)"
  from h obtain xs ys where c: "c p = Some (xs @ ?x # ys)" "length ys \<le> n" by (auto simp: held_def)
  have d: "distinct (map fst (xs @ ?x # ys))" using ok(1) c(1) unfolding entries_ok_def cache_inv_def by blast
  show ?thesis
  proof (cases op)
    case (CSet q w' f' b' v')
    show ?thesis
    proof (cases "q = p")
      case True
      let ?k = "cache_key w' f' b'" and ?e' = "\<lparr>entryPath = f', entryWorktree = w', entryBundle = v'\<rparr>"
      have kn: "?k \<noteq> cache_key w f b"
        using ok(2) e(3,4) not(2) True by (auto simp: cache_key_inj CSet stores_def)
      let ?xs = "omap_del ?k xs" and ?ys = "omap_del ?k ys @ [(?k, ?e')]"
      have del: "omap_del ?k (xs @ ?x # ys) = ?xs @ ?x # omap_del ?k ys" using kn by (simp add: omap_del_def)
      have fresh: "?k \<notin> fst ` set (omap_del ?k (xs @ ?x # ys))" by (auto simp: omap_del_def)
      have set_eq: "omap_set ?k ?e' (omap_del ?k (xs @ ?x # ys)) = ?xs @ ?x # ?ys"
        by (simp add: omap_set_fresh [OF fresh]) (simp add: del)
      have l: "length ?ys \<le> Suc n" using c(2) omap_del_length [of ?k ys] by simp
      have "distinct (map fst (?xs @ ?x # ?ys))"
        unfolding set_eq [symmetric] by (intro omap_distinct_set omap_distinct_del d)
      from evict_keeps [OF this] l n True obtain zs where "evict (?xs @ ?x # ?ys) = zs @ ?x # ?ys" by (auto simp: CSet)
      then have "cache_set p w' f' b' v' c p = Some (zs @ ?x # ?ys)"
        by (simp add: cache_set_def Let_def c set_eq)
      with l have "held (cache_set p w' f' b' v' c) p ?x (Suc n)"
        unfolding held_def by (intro exI [of _ zs] exI [of _ ?ys]) simp
      with True show ?thesis by (simp add: CSet)
    next
      case False
      with c show ?thesis by (auto simp: CSet held_def cache_set_def Let_def)
    qed
  next
    case (CWatch q ps wt)
    have keep: "held (c(p \<mapsto> filter P (xs @ ?x # ys))) p ?x n" if "P ?x" for P
      unfolding held_def using that c(2) by (intro exI [of _ "filter P xs"] exI [of _ "filter P ys"])
        (auto intro: le_trans [OF length_filter_le])
    show ?thesis
    proof (cases "q = p \<and> ps \<noteq> []")
      case True
      then show ?thesis
        using not(1) keep e(1,2) c h
        by (cases wt) (auto simp: CWatch onWatch_def list_ex_iff isGitStateSignal_def simp del: filter_append filter.simps)
    next
      case False
      with h show ?thesis by (auto simp: CWatch onWatch_def held_def split: option.splits)
    qed
  qed (use not c in \<open>auto simp: held_def evictProject_def\<close>)
qed

lemma held_run:
  assumes "entries_ok c" "list_all op_sep_free post" "held c p (cache_key w f b, e) 0"
    and "entryWorktree e = w" "entryPath e = f" "CACHE_SEP \<notin> set w" "CACHE_SEP \<notin> set f"
    and "list_all (\<lambda>op. \<not> invalidates op p w f \<and> \<not> stores op p w f b) post"
    and "length (filter (sets_in p) post) < MAX_ENTRIES_PER_PROJECT"
  shows "held (foldl cache_step c post) p (cache_key w f b, e) (length (filter (sets_in p) post))
    \<and> entries_ok (foldl cache_step c post)"
  using assms
proof (induction post rule: rev_induct)
  case (snoc op post)
  from snoc.prems have "held (foldl cache_step c post) p (cache_key w f b, e) (length (filter (sets_in p) post))
    \<and> entries_ok (foldl cache_step c post)"
    by (intro snoc.IH) (auto split: if_splits)
  with held_step [of "foldl cache_step c post" op p w f b e "length (filter (sets_in p) post)"]
    entries_ok_step [of "foldl cache_step c post" op] snoc.prems
  show ?case by (simp split: if_splits)
qed simp

lemma held_get: "cache_inv c \<Longrightarrow> held c p (cache_key w f b, e) n \<Longrightarrow> cache_get p w f b c = Some (entryBundle e)"
  by (subst cache_get_entry) (auto simp: held_def)

section \<open>Properties\<close>

text \<open>
  The policy reads a path by its segments: however a mechanism spells it (either slash,
  a leading \<open>./\<close> or leading slashes), the category is the one its segments have, and the
  Changes list hides exactly what lives under \<open>.git\<close> or \<open>.beads\<close>; every signal of the spec
  handed to the remote helper has the category it is listed under.
\<close>

theorem policy_by_segments:
  assumes "segments_ok segs" "spelled p segs"
  shows "classifyWatchPath p = meaning segs
    \<and> (isHiddenFromChanges p showAll \<longleftrightarrow> \<not> showAll \<and> (hd segs = ''.git'' \<or> hd segs = ''.beads''))
    \<and> list_all (\<lambda>s. classifyWatchPath s = Some GitState) (gitStateSignals deriveWatchSpec)
    \<and> list_all (\<lambda>s. classifyWatchPath s = Some Beads) (beadsSignals deriveWatchSpec)
    \<and> list_all (\<lambda>d. d \<in> set segs \<longrightarrow> classifyWatchPath p = None) (neverRecurse deriveWatchSpec)"
proof -
  note n = normalize_spelled [OF assms]
  note c = classify_rel [OF assms(1) n]
  have "isHiddenFromChanges p showAll \<longleftrightarrow> \<not> showAll \<and> (hd segs = ''.git'' \<or> hd segs = ''.beads'')"
    by (simp add: isHiddenFromChanges_def n segments_okD(3) [OF assms(1)] CHANGES_HIDDEN_PREFIXES_def)
  moreover have "list_all (\<lambda>s. classifyWatchPath s = Some GitState) (gitStateSignals deriveWatchSpec)"
    "list_all (\<lambda>s. classifyWatchPath s = Some Beads) (beadsSignals deriveWatchSpec)" by code_simp+
  moreover have "list_all (\<lambda>d. d \<in> set segs \<longrightarrow> classifyWatchPath p = None) (neverRecurse deriveWatchSpec)"
    by (simp add: deriveWatchSpec_def NEVER_RECURSE_def c meaning_def)
  ultimately show ?thesis using c by blast
qed

theorem policy_by_segments_witness:
  "classifyWatchPath (CHR ''.'' # CHR ''/'' # joinWith [CHR 0x5C] [''.git'', ''worktrees'', ''wt'', ''HEAD'']) = None"
proof -
  let ?s = "[''.git'', ''worktrees'', ''wt'', ''HEAD'']"
  have "segments_ok ?s" by (simp add: segments_ok_def)
  moreover have "spelled (CHR ''.'' # CHR ''/'' # joinWith [CHR 0x5C] ?s) ?s"
    unfolding spelled_def by (intro exI [of _ "''./''"] exI [of _ "CHR 0x5C"]) simp
  ultimately have "classifyWatchPath (CHR ''.'' # CHR ''/'' # joinWith [CHR 0x5C] ?s) = meaning ?s"
    using policy_by_segments by blast
  then show ?thesis by (simp add: meaning_def)
qed

text \<open>
  No change is lost and none waits longer than the window: a path fed and classified at
  time \<open>t\<close> is in an event emitted between \<open>t\<close> and \<open>t\<close> plus the debounce window, under its
  normalized name and its category, whatever else is fed or flushed meanwhile.
\<close>

theorem accepted_paths_emitted:
  assumes "sorted (map fst (before @ (t, Feed ps) # after) @ [fin])" "t + d \<le> fin"
    and "\<forall>(u, c)\<in>set after. c \<noteq> Dispose"
    and "p \<in> set ps" "classifyWatchPath p = Some c"
  shows "\<exists>e\<in>set (fst (run_ingest d createWatchIngest (before @ (t, Feed ps) # after) fin)).
    (normalizeWatchPath p, c) \<in> set (paths e) \<and> t \<le> at e \<and> at e \<le> t + d"
proof -
  let ?b = "snd (run_ingest d createWatchIngest before t)"
  let ?s = "feed_watch d t ps ?b"
  have so: "sorted (map fst before @ [t])" "\<And>u c. (u, c) \<in> set before \<Longrightarrow> u \<le> t"
    "\<And>u c. (u, c) \<in> set after \<Longrightarrow> t \<le> u"
    using assms(1) by (force simp: sorted_append)+
  have "case timer ?b of None \<Rightarrow> True | Some dl \<Rightarrow> t < dl \<and> dl \<le> t + d"
    using so(1) by (intro run_ingest_timer [of _ 0]) (simp_all add: createWatchIngest_def)
  moreover have "normalizeWatchPath p \<in> fst ` set (pendingPaths ?s)"
    using assms(4,5) by (auto simp: feed_watch_simps feed_paths_keys)
  moreover have inv: "ingest_inv ?s"
    using ingest_inv_call [OF run_ingest_inv [OF ingest_inv_new], of d t "Feed ps" d before t] by simp
  moreover have "timer ?s \<noteq> None" using assms(4,5) by (auto simp: feed_watch_simps)
  ultimately obtain dl where dl: "timer ?s = Some dl" "t \<le> dl" "dl \<le> t + d"
    by (cases "timer ?b") (auto simp: feed_watch_simps split: if_splits)
  have "\<exists>e\<in>set (fst (run_ingest d ?s after fin)). normalizeWatchPath p \<in> fst ` set (paths e) \<and> t \<le> at e \<and> at e \<le> dl"
    using \<open>normalizeWatchPath p \<in> _\<close> dl assms(2,3) so(3) by (intro pending_emitted [OF inv]) auto
  then obtain e c' where e: "e \<in> set (fst (run_ingest d createWatchIngest (before @ (t, Feed ps) # after) fin))"
    "(normalizeWatchPath p, c') \<in> set (paths e)" "t \<le> at e" "at e \<le> t + d"
    using dl(3) by (force simp: run_ingest_append)
  have "event_ok tagged e"
    by (rule run_ingest_ok [OF ingest_inv_new _ _ e(1)])
      (auto simp: createWatchIngest_def accepted_def tagged_def)
  with e(2) have "tagged (normalizeWatchPath p, c')" by (auto simp: event_ok_def)
  moreover have "tagged (normalizeWatchPath p, c)" using assms(5) by (auto simp: tagged_def)
  ultimately have "c' = c" by (rule tagged_unique)
  with e show ?thesis by blast
qed

theorem accepted_paths_emitted_witness:
  "\<exists>e\<in>set (fst (run_ingest 200 createWatchIngest [(0, Feed [''a.ts'']), (150, Feed [''./src/b.ts''])] 400)).
     (''src/b.ts'', WorkingTree) \<in> set (paths e) \<and> 150 \<le> at e \<and> at e \<le> 350"
  using accepted_paths_emitted [of "[(0, Feed [''a.ts''])]" 150 "[''./src/b.ts'']" "[]" 400 200 "''./src/b.ts''" WorkingTree]
  by (simp add: normalizeWatchPath_def classifyWatchPath_def NEVER_RECURSE_def)

text \<open>
  Nothing is invented: every emitted batch is non-empty, names each normalized path once,
  lists exactly the distinct categories of its paths, and each of its entries comes from a
  path that was fed and classified so.
\<close>

theorem batches_come_from_feeds:
  assumes "e \<in> set (fst (run_ingest d createWatchIngest calls fin))"
  shows "paths e \<noteq> [] \<and> distinct (map fst (paths e)) \<and> distinct (categories e)
    \<and> set (categories e) = snd ` set (paths e)
    \<and> (\<forall>(r, c)\<in>set (paths e). \<exists>(t, call)\<in>set calls. \<exists>ps. call = Feed ps
         \<and> (\<exists>p\<in>set ps. classifyWatchPath p = Some c \<and> normalizeWatchPath p = r))"
proof -
  let ?src = "\<lambda>rc. \<exists>t ps. (t, Feed ps) \<in> set calls \<and> accepted ps rc"
  have "event_ok ?src e"
    by (rule run_ingest_ok [OF ingest_inv_new _ _ assms]) (auto simp: createWatchIngest_def)
  then show ?thesis unfolding event_ok_def accepted_def by fastforce
qed

theorem batches_come_from_feeds_witness:
  "(let e = hd (fst (run_ingest 200 createWatchIngest [(0, Feed [''a.ts'', ''.git/index'']), (9, Flush)] 400))
    in paths e \<noteq> [] \<and> set (categories e) = snd ` set (paths e))"
proof -
  let ?e = "hd (fst (run_ingest 200 createWatchIngest [(0, Feed [''a.ts'', ''.git/index'']), (9, Flush)] 400))"
  have "fst (run_ingest 200 createWatchIngest [(0, Feed [''a.ts'', ''.git/index'']), (9, Flush)] 400) \<noteq> []"
    by code_simp
  then have "?e \<in> set (fst (run_ingest 200 createWatchIngest [(0, Feed [''a.ts'', ''.git/index'']), (9, Flush)] 400))"
    by (rule hd_in_set)
  from batches_come_from_feeds [OF this] show ?thesis by (simp add: Let_def)
qed

text \<open>
  The hub: after any subscriptions and unsubscriptions it holds its single provider
  listener exactly while somebody is subscribed, and a batch reaches each subscriber at most
  once, and precisely those interested in the category of one of its paths, with all the
  classified paths in order.
\<close>

theorem hub_delivers:
  "let h = foldl hub_step new_hub calls; out = handleRaw pid wt (Some (Some ps, Some a)) h in
    (attached h \<longleftrightarrow> hubListeners h \<noteq> []) \<and> distinct (map fst out)
    \<and> (\<forall>l. l \<in> fst ` set out \<longleftrightarrow> (\<exists>interest. (l, interest) \<in> set (hubListeners h)
          \<and> (\<exists>p\<in>set ps. \<exists>c\<in>set interest. classifyWatchPath p = Some c)))
    \<and> (\<forall>(l, ev)\<in>set out. hubWorktree ev = wt \<and> hubAt ev = a
          \<and> hubPaths ev = filter (\<lambda>p. classifyWatchPath p \<noteq> None) ps
          \<and> set (hubCategories ev) = {c. \<exists>p\<in>set ps. classifyWatchPath p = Some c})"
proof -
  define h where "h = foldl hub_step new_hub calls"
  define out where "out = handleRaw pid wt (Some (Some ps, Some a)) h"
  have inv: "hub_inv h" unfolding h_def by (rule hub_machine.run_inv [OF hub_inv_new])
  let ?keep = "filter (\<lambda>(_, interest). \<exists>p\<in>set ps. \<exists>c\<in>set interest. classifyWatchPath p = Some c) (hubListeners h)"
  obtain cats where cats: "set cats = {c. \<exists>p\<in>set ps. classifyWatchPath p = Some c}"
    and o: "out = map (\<lambda>(l, _). (l, \<lparr>hubProject = (case pid of None \<Rightarrow> [] | Some p \<Rightarrow> p), hubWorktree = wt,
        hubCategories = cats, hubPaths = filter (\<lambda>p. classifyWatchPath p \<noteq> None) ps, hubAt = a\<rparr>)) ?keep"
  proof
    let ?cats = "foldl (\<lambda>cs c. oset_add c cs) [] (map (the \<circ> classifyWatchPath) (filter (\<lambda>p. classifyWatchPath p \<noteq> None) ps))"
    show "set ?cats = {c. \<exists>p\<in>set ps. classifyWatchPath p = Some c}" by (force simp: set_foldl_oset)
    have "?keep = []" if "filter (\<lambda>p. classifyWatchPath p \<noteq> None) ps = []"
      using that by (auto simp: filter_empty_conv)
    then show "out = map (\<lambda>(l, _). (l, \<lparr>hubProject = (case pid of None \<Rightarrow> [] | Some p \<Rightarrow> p), hubWorktree = wt,
        hubCategories = ?cats, hubPaths = filter (\<lambda>p. classifyWatchPath p \<noteq> None) ps, hubAt = a\<rparr>)) ?keep"
      unfolding out_def handleRaw_eq Let_def accepted_categories by simp
  qed
  have fst_out: "map fst out = map fst ?keep" by (simp add: o case_prod_beta comp_def)
  have "distinct (map fst ?keep)" using inv by (simp add: hub_inv_def distinct_map_filter)
  moreover have "l \<in> fst ` set out \<longleftrightarrow> (\<exists>interest. (l, interest) \<in> set (hubListeners h)
          \<and> (\<exists>p\<in>set ps. \<exists>c\<in>set interest. classifyWatchPath p = Some c))" for l
  proof -
    have "fst ` set out = fst ` set ?keep" using arg_cong [OF fst_out, of set] by simp
    then show ?thesis by force
  qed
  moreover have "attached h \<longleftrightarrow> hubListeners h \<noteq> []" using inv by (simp add: hub_inv_def)
  ultimately show ?thesis unfolding Let_def h_def [symmetric] out_def [symmetric]
    using cats by (auto simp: fst_out) (auto simp: o)
qed

theorem hub_delivers_witness:
  "map fst (handleRaw (Some ''p'') None (Some (Some [''a.ts''], Some ''now''))
      (foldl hub_step new_hub [Subscribe [Beads], Subscribe [WorkingTree, GitState]])) = [1]"
proof -
  let ?h = "foldl hub_step new_hub [Subscribe [Beads], Subscribe [WorkingTree, GitState]]"
  let ?out = "handleRaw (Some ''p'') None (Some (Some [''a.ts''], Some ''now'')) ?h"
  have "distinct (map fst ?out)" using hub_delivers [of "[Subscribe [Beads], Subscribe [WorkingTree, GitState]]"
      "Some ''p''" None "[''a.ts'']" "''now''"] unfolding Let_def by blast
  moreover have "map fst ?out = [1]" by code_simp
  ultimately show ?thesis by blast
qed

text \<open>
  C14. From mechanism to panel, for feeds in which no raw path needs normalizing twice
  (\<open>normalizeWatchPath\<close> leaves its own result for the path unchanged, which it does not for a
  path such as \<open>././.git/HEAD\<close>): the batch an ingest emits, forwarded as its path strings,
  reaches exactly the subscribers interested in one of its categories, and they see its paths
  and categories unchanged.
\<close>

theorem watch_end_to_end:
  assumes "e \<in> set (fst (run_ingest d createWatchIngest calls fin))"
    and "\<forall>(t, call)\<in>set calls. \<forall>ps. call = Feed ps
      \<longrightarrow> (\<forall>p\<in>set ps. normalizeWatchPath (normalizeWatchPath p) = normalizeWatchPath p)"
  shows "handleRaw pid wt (Some (Some (map fst (paths e)), Some a)) h =
    map (\<lambda>(l, _). (l, \<lparr>hubProject = (case pid of None \<Rightarrow> [] | Some p \<Rightarrow> p), hubWorktree = wt,
        hubCategories = categories e, hubPaths = map fst (paths e), hubAt = a\<rparr>))
      (filter (\<lambda>(_, interest). list_ex (\<lambda>c. c \<in> set interest) (categories e)) (hubListeners h))"
proof -
  let ?src = "\<lambda>rc. \<exists>t ps. (t, Feed ps) \<in> set calls \<and> accepted ps rc"
  have ok: "event_ok ?src e"
    by (rule run_ingest_ok [OF ingest_inv_new _ _ assms(1)]) (auto simp: createWatchIngest_def)
  have c: "classifyWatchPath r = Some c" if "(r, c) \<in> set (paths e)" for r c
  proof -
    from ok that obtain t ps p where "(t, Feed ps) \<in> set calls" "p \<in> set ps" "classifyWatchPath p = Some c"
      "normalizeWatchPath p = r" by (fastforce simp: event_ok_def accepted_def)
    with assms(2) classify_cong [of r p] show ?thesis by fastforce
  qed
  then have f: "filter (\<lambda>p. classifyWatchPath p \<noteq> None) (map fst (paths e)) = map fst (paths e)"
    and m: "map (the \<circ> classifyWatchPath) (map fst (paths e)) = map snd (paths e)"
    by (force simp: filter_id_conv, force)
  have "categories e = foldl (\<lambda>cs c. oset_add c cs) [] (map snd (paths e))"
    using ok by (simp add: event_ok_def foldl_map case_prod_unfold)
  moreover have "map fst (paths e) \<noteq> []" using ok by (simp add: event_ok_def)
  ultimately show ?thesis unfolding handleRaw_eq Let_def f m by simp
qed

theorem watch_end_to_end_witness:
  "(let e = hd (fst (run_ingest 200 createWatchIngest [(0, Feed [''a.ts'', ''.git/HEAD''])] 400))
    in map fst (handleRaw None None (Some (Some (map fst (paths e)), Some [])) (snd (subscribeWatch [GitState] new_hub))) = [0])"
proof -
  let ?calls = "[(0, Feed [''a.ts'', ''.git/HEAD''])]"
  let ?es = "fst (run_ingest 200 createWatchIngest ?calls 400)"
  have es: "?es = [\<lparr>categories = [WorkingTree, GitState],
      paths = [(''a.ts'', WorkingTree), (''.git/HEAD'', GitState)], at = 200\<rparr>]" by code_simp
  then have e: "hd ?es \<in> set ?es" by simp
  have c: "categories (hd ?es) = [WorkingTree, GitState]" by (simp add: es)
  have "\<forall>(t, call)\<in>set ?calls. \<forall>ps. call = Feed ps
      \<longrightarrow> (\<forall>p\<in>set ps. normalizeWatchPath (normalizeWatchPath p) = normalizeWatchPath p)"
    by (simp add: normalizeWatchPath_def)
  from watch_end_to_end [OF e this, of None None "[]" "snd (subscribeWatch [GitState] new_hub)"]
  show ?thesis
    unfolding Let_def by (simp only: c) (simp add: subscribeWatch_def new_hub_def Let_def)
qed

text \<open>
  The diff cache never serves stale: a hit returns a bundle that was stored for exactly
  this project, worktree, path and baseline, with no later store for them and no watch batch,
  eviction or clear in between that concerns them.
\<close>

theorem cache_never_stale:
  assumes "list_all op_sep_free ops" "CACHE_SEP \<notin> set w" "CACHE_SEP \<notin> set f"
    and "cache_get p w f b (foldl cache_step Map.empty ops) = Some v"
  shows "\<exists>pre b' post. ops = pre @ CSet p w f b' v # post \<and> base_of b' = base_of b
    \<and> list_all (\<lambda>op. \<not> invalidates op p w f \<and> \<not> stores op p w f b) post"
  using assms
proof (induction ops rule: rev_induct)
  case Nil
  then show ?case by (simp add: cache_get_def)
next
  case (snoc op ops)
  from snoc.prems have l: "list_all op_sep_free ops" "op_sep_free op" by simp_all
  from get_step [OF entries_ok_run [OF l(1)] l(2) snoc.prems(2,3), of p b v] snoc.prems(4)
  consider b' where "op = CSet p w f b' v" "base_of b' = base_of b"
    | "cache_get p w f b (foldl cache_step Map.empty ops) = Some v" "\<not> invalidates op p w f" "\<not> stores op p w f b"
    by auto
  then show ?case
  proof cases
    case 1
    then show ?thesis by (intro exI [of _ ops] exI [of _ b'] exI [of _ "[]"]) simp
  next
    case 2
    with snoc.IH [OF l(1) snoc.prems(2,3)] obtain pre b' post where
      "ops = pre @ CSet p w f b' v # post" "base_of b' = base_of b"
      "list_all (\<lambda>op. \<not> invalidates op p w f \<and> \<not> stores op p w f b) post" by blast
    with 2 show ?thesis by (intro exI [of _ pre] exI [of _ b'] exI [of _ "post @ [op]"]) simp
  qed
qed

theorem cache_never_stale_witness:
  "cache_get ''p'' ''w'' ''f'' None (foldl cache_step Map.empty
      [CSet ''p'' ''w'' ''f'' None (1 :: nat), CWatch ''p'' [''g'', ''f''] None]) = None"
proof (rule ccontr)
  let ?ops = "[CSet ''p'' ''w'' ''f'' None (1 :: nat), CWatch ''p'' [''g'', ''f''] None]"
  assume "cache_get ''p'' ''w'' ''f'' None (foldl cache_step Map.empty ?ops) \<noteq> None"
  then obtain v where "cache_get ''p'' ''w'' ''f'' None (foldl cache_step Map.empty ?ops) = Some v" by blast
  from cache_never_stale [OF _ _ _ this] obtain pre b' post where
    "?ops = pre @ CSet ''p'' ''w'' ''f'' b' v # post"
    "list_all (\<lambda>op. \<not> invalidates op ''p'' ''w'' ''f'' \<and> \<not> stores op ''p'' ''w'' ''f'' None) post"
    by (auto simp: CACHE_SEP_def)
  then show False by (auto simp: Cons_eq_append_conv)
qed

text \<open>
  The cache is bounded and keeps what it may: no project ever has more than 64 entries,
  and a stored bundle is returned until it is stored again, is invalidated, or 64 other
  stores of its project have followed.
\<close>

theorem cache_keeps_recent:
  assumes "list_all op_sep_free (pre @ CSet p w f b v # post)"
    and "list_all (\<lambda>op. \<not> invalidates op p w f \<and> \<not> stores op p w f b) post"
    and "length (filter (sets_in p) post) < 64"
  shows "cache_get p w f b (foldl cache_step Map.empty (pre @ CSet p w f b v # post)) = Some v
    \<and> (\<forall>q m. foldl cache_step Map.empty (pre @ CSet p w f b v # post) q = Some m \<longrightarrow> length m \<le> 64)"
proof -
  let ?c = "cache_step (foldl cache_step Map.empty pre) (CSet p w f b v)"
  let ?e = "\<lparr>entryPath = f, entryWorktree = w, entryBundle = v\<rparr>"
  have ok: "entries_ok ?c" using assms(1) by (intro entries_ok_step entries_ok_run) simp_all
  have inv: "cache_inv (foldl cache_step Map.empty xs)" for xs :: "'a cache_op list"
    by (rule cache_machine.run_inv [OF cache_inv_empty])
  have "held ?c p (cache_key w f b, ?e) 0" unfolding cache_step.simps by (rule set_held [OF inv])
  from held_run [OF ok _ this] assms
  have "held (foldl cache_step ?c post) p (cache_key w f b, ?e) (length (filter (sets_in p) post))"
    by (simp add: MAX_ENTRIES_PER_PROJECT_def)
  with inv [of "pre @ CSet p w f b v # post"] have
    "cache_get p w f b (foldl cache_step Map.empty (pre @ CSet p w f b v # post)) = Some (entryBundle ?e)"
    by (intro held_get) simp_all
  then show ?thesis using inv [of "pre @ CSet p w f b v # post"]
    by (simp add: cache_inv_def MAX_ENTRIES_PER_PROJECT_def)
qed

theorem cache_keeps_recent_witness:
  "cache_get ''p'' ''w'' ''f'' (Some ''main'') (foldl cache_step Map.empty
      [CSet ''p'' ''w'' ''f'' (Some ''main'') (1 :: nat), CSet ''p'' ''w'' ''g'' None 2,
       CWatch ''p'' [''g''] None, CWatch ''p'' [''f''] (Some ''other'')]) = Some 1"
  using cache_keeps_recent [of "[]" "''p''" "''w''" "''f''" "Some ''main''" "1 :: nat"
      "[CSet ''p'' ''w'' ''g'' None 2, CWatch ''p'' [''g''] None, CWatch ''p'' [''f''] (Some ''other'')]"]
  by (simp add: CACHE_SEP_def stores_def classifyWatchPath_def normalizeWatchPath_def NEVER_RECURSE_def)

end
