(* ===== verification/Connection.thy ===== *)
theory Connection
  imports Prelude
begin

text \<open>
  The per-project connection state machine, \<open>electron/main/providers/connectionMachine.ts\<close>:
  the table of legal transitions (a set of edge names), the transition requests, the
  coalescing of connect operations, and the notification of the subscribed handlers.
  A handler is its number; a notification is a pair of handler and status. The time stamp of
  a status is left out.
\<close>

section \<open>States and edges\<close>

datatype ConnectionState = Disconnected | Connecting | Connected | Reconnecting | Failed

fun state_name :: "ConnectionState \<Rightarrow> string" where
  "state_name Disconnected = ''disconnected''"
| "state_name Connecting = ''connecting''"
| "state_name Connected = ''connected''"
| "state_name Reconnecting = ''reconnecting''"
| "state_name Failed = ''failed''"

instantiation ConnectionState :: linorder
begin

fun state_rank :: "ConnectionState \<Rightarrow> nat" where
  "state_rank Disconnected = 0"
| "state_rank Connecting = 1"
| "state_rank Connected = 2"
| "state_rank Reconnecting = 3"
| "state_rank Failed = 4"

definition less_eq_ConnectionState :: "ConnectionState \<Rightarrow> ConnectionState \<Rightarrow> bool" where
  "less_eq_ConnectionState a b \<longleftrightarrow> state_rank a \<le> state_rank b"

definition less_ConnectionState :: "ConnectionState \<Rightarrow> ConnectionState \<Rightarrow> bool" where
  "less_ConnectionState a b \<longleftrightarrow> state_rank a < state_rank b"

instance
proof
  fix a b c :: ConnectionState
  show "(a < b) = (a \<le> b \<and> \<not> b \<le> a)" by (auto simp: less_eq_ConnectionState_def less_ConnectionState_def)
  show "a \<le> a" by (simp add: less_eq_ConnectionState_def)
  show "a \<le> b \<Longrightarrow> b \<le> c \<Longrightarrow> a \<le> c" by (simp add: less_eq_ConnectionState_def)
  show "a \<le> b \<Longrightarrow> b \<le> a \<Longrightarrow> a = b" by (cases a; cases b) (simp_all add: less_eq_ConnectionState_def)
  show "a \<le> b \<or> b \<le> a" by (auto simp: less_eq_ConnectionState_def)
qed

end

definition LEGAL :: "string list" where
  "LEGAL = [''disconnected->connecting'', ''connecting->connected'', ''connecting->failed'',
     ''connecting->disconnected'', ''connected->disconnected'', ''connected->reconnecting'',
     ''reconnecting->connected'', ''reconnecting->failed'', ''failed->connecting'']"

definition edgeKey :: "ConnectionState \<Rightarrow> ConnectionState \<Rightarrow> string" where
  "edgeKey a b = state_name a @ ''->'' @ state_name b"

definition isLegal :: "ConnectionState \<Rightarrow> ConnectionState \<Rightarrow> bool" where
  "isLegal a b \<longleftrightarrow> edgeKey a b \<in> set LEGAL"

section \<open>The machine\<close>

record ConnectionMachine =
  conState :: ConnectionState
  conDetail :: "string option"
  conHandlers :: "nat list"
  inFlight :: "nat option"
  started :: nat

type_synonym notification = "nat \<times> ConnectionState \<times> string option"

definition new_machine :: "ConnectionState \<Rightarrow> ConnectionMachine" where
  "new_machine st = \<lparr>conState = st, conDetail = None, conHandlers = [], inFlight = None, started = 0\<rparr>"

definition notify :: "ConnectionState \<Rightarrow> string option \<Rightarrow> ConnectionMachine \<Rightarrow> notification list" where
  "notify st d m = map (\<lambda>h. (h, st, d)) (conHandlers m)"

definition apply_transition :: "ConnectionState \<Rightarrow> string option \<Rightarrow> ConnectionMachine \<Rightarrow> notification list \<times> ConnectionMachine" where
  "apply_transition to detail m =
     (if \<not> isLegal (conState m) to then ([], m)
      else (notify to detail m, m\<lparr>conState := to, conDetail := detail\<rparr>))"

definition toConnecting :: "string option \<Rightarrow> ConnectionMachine \<Rightarrow> notification list \<times> ConnectionMachine" where
  "toConnecting detail m =
     (if conState m = Connecting then ([], m) else apply_transition Connecting detail m)"

definition toConnected :: "string option \<Rightarrow> ConnectionMachine \<Rightarrow> notification list \<times> ConnectionMachine" where
  "toConnected detail m = apply_transition Connected detail m"

definition toFailed :: "string option \<Rightarrow> ConnectionMachine \<Rightarrow> notification list \<times> ConnectionMachine" where
  "toFailed detail m = apply_transition Failed detail m"

definition toDisconnected :: "string option \<Rightarrow> ConnectionMachine \<Rightarrow> notification list \<times> ConnectionMachine" where
  "toDisconnected detail m = apply_transition Disconnected detail m"

definition toReconnecting :: "string option \<Rightarrow> ConnectionMachine \<Rightarrow> notification list \<times> ConnectionMachine" where
  "toReconnecting detail m =
     (if conState m = Reconnecting then ([], m) else apply_transition Reconnecting detail m)"

definition shortCircuitConnected :: "ConnectionMachine \<Rightarrow> notification list \<times> ConnectionMachine" where
  "shortCircuitConnected m =
     (notify Connected None m, m\<lparr>conState := Connected, conDetail := None\<rparr>)"

definition subscribe_status :: "nat \<Rightarrow> ConnectionMachine \<Rightarrow> ConnectionMachine" where
  "subscribe_status h m = m\<lparr>conHandlers := oset_add h (conHandlers m)\<rparr>"

definition unsubscribe_status :: "nat \<Rightarrow> ConnectionMachine \<Rightarrow> ConnectionMachine" where
  "unsubscribe_status h m = m\<lparr>conHandlers := filter (\<lambda>k. k \<noteq> h) (conHandlers m)\<rparr>"

text \<open>
  \<open>coalesce\<close>: the promise the caller gets, and the machine; a new operation is started only
  when none is in flight. \<open>settle_flight\<close> is the \<open>finally\<close> of an operation.
\<close>

definition coalesce :: "ConnectionMachine \<Rightarrow> nat \<times> ConnectionMachine" where
  "coalesce m =
     (case inFlight m of
        Some p \<Rightarrow> (p, m)
      | None \<Rightarrow> (started m, m\<lparr>inFlight := Some (started m), started := Suc (started m)\<rparr>))"

definition settle_flight :: "nat \<Rightarrow> ConnectionMachine \<Rightarrow> ConnectionMachine" where
  "settle_flight p m = (if inFlight m = Some p then m\<lparr>inFlight := None\<rparr> else m)"

definition isInFlight :: "ConnectionMachine \<Rightarrow> bool" where
  "isInFlight m \<longleftrightarrow> inFlight m \<noteq> None"

datatype machine_call =
    ToConnecting "string option" | ToConnected "string option" | ToFailed "string option"
  | ToDisconnected "string option" | ToReconnecting "string option" | ShortCircuit
  | SubscribeStatus nat | UnsubscribeStatus nat | Coalesce | Settle nat

fun machine_step :: "machine_call \<Rightarrow> ConnectionMachine \<Rightarrow> notification list \<times> ConnectionMachine" where
  "machine_step (ToConnecting d) m = toConnecting d m"
| "machine_step (ToConnected d) m = toConnected d m"
| "machine_step (ToFailed d) m = toFailed d m"
| "machine_step (ToDisconnected d) m = toDisconnected d m"
| "machine_step (ToReconnecting d) m = toReconnecting d m"
| "machine_step ShortCircuit m = shortCircuitConnected m"
| "machine_step (SubscribeStatus h) m = ([], subscribe_status h m)"
| "machine_step (UnsubscribeStatus h) m = ([], unsubscribe_status h m)"
| "machine_step Coalesce m = ([], snd (coalesce m))"
| "machine_step (Settle p) m = ([], settle_flight p m)"

fun machine_run :: "machine_call list \<Rightarrow> ConnectionMachine \<Rightarrow> notification list \<times> ConnectionMachine" where
  "machine_run [] m = ([], m)"
| "machine_run (c # cs) m =
     (let (n1, m1) = machine_step c m; (n2, m2) = machine_run cs m1 in (n1 @ n2, m2))"

section \<open>The transition graph\<close>

text \<open>The documented table, as a relation on states.\<close>

inductive edge :: "ConnectionState \<Rightarrow> ConnectionState \<Rightarrow> bool" where
  "edge Disconnected Connecting"
| "edge Connecting Connected"
| "edge Connecting Failed"
| "edge Connecting Disconnected"
| "edge Connected Disconnected"
| "edge Connected Reconnecting"
| "edge Reconnecting Connected"
| "edge Reconnecting Failed"
| "edge Failed Connecting"

code_pred edge .

inductive_simps edge_simps [simp]:
  "edge Disconnected b" "edge Connecting b" "edge Connected b" "edge Reconnecting b" "edge Failed b"

lemma isLegal_edge: "isLegal a b \<longleftrightarrow> edge a b"
  by (cases a; cases b) (simp_all add: isLegal_def edgeKey_def LEGAL_def)

fun path_from :: "ConnectionState \<Rightarrow> ConnectionState list \<Rightarrow> bool" where
  "path_from a [] \<longleftrightarrow> True"
| "path_from a (b # bs) \<longleftrightarrow> edge a b \<and> path_from b bs"

lemma apply_cases:
  "(\<not> edge (conState m) to \<and> apply_transition to d m = ([], m))
   \<or> (edge (conState m) to \<and> apply_transition to d m = (notify to d m, m\<lparr>conState := to, conDetail := d\<rparr>))"
  by (auto simp: apply_transition_def isLegal_edge)

text \<open>What the handler \<open>h\<close> is told.\<close>

definition told :: "nat \<Rightarrow> notification list \<Rightarrow> ConnectionState list" where
  "told h ns = map (fst \<circ> snd) (filter (\<lambda>n. fst n = h) ns)"

lemma told_append: "told h (a @ b) = told h a @ told h b"
  by (simp add: told_def)

lemma told_Nil [simp]: "told h [] = []"
  by (simp add: told_def)

lemma filter_single: "distinct xs \<Longrightarrow> filter (\<lambda>k. k = h) xs = (if h \<in> set xs then [h] else [])"
  by (induction xs) (auto simp: filter_empty_conv)

lemma told_notify: "distinct (conHandlers m) \<Longrightarrow> told h (notify st d m) = (if h \<in> set (conHandlers m) then [st] else [])"
  by (simp add: told_def notify_def filter_map comp_def filter_single)

text \<open>One call, seen by a subscribed handler: nothing, or one edge of the table.\<close>

lemma step_told:
  assumes "distinct (conHandlers m)" "h \<in> set (conHandlers m)" "c \<noteq> ShortCircuit" "c \<noteq> UnsubscribeStatus h"
    and "machine_step c m = (ns, m')"
  shows "distinct (conHandlers m') \<and> h \<in> set (conHandlers m')
    \<and> ((told h ns = [] \<and> conState m' = conState m) \<or> (edge (conState m) (conState m') \<and> told h ns = [conState m']))"
proof -
  have app: ?thesis if "apply_transition to d m = (ns, m')" for to d
    using apply_cases [of m to d] that assms(1,2) by (auto simp: told_notify)
  show ?thesis
  proof (cases c)
    case (Coalesce)
    with assms show ?thesis by (auto simp: coalesce_def split: option.splits)
  qed (use assms app in \<open>auto simp: toConnecting_def toConnected_def toFailed_def toDisconnected_def
      toReconnecting_def subscribe_status_def unsubscribe_status_def settle_flight_def split: if_splits\<close>)
qed

lemma path_snoc: "path_from a (bs @ cs) \<longleftrightarrow> path_from a bs \<and> path_from (last (a # bs)) cs"
  by (induction bs arbitrary: a) auto

section \<open>Single flight\<close>

text \<open>While an operation is in flight nothing but its own end changes that.\<close>

lemma step_flight:
  assumes "inFlight m = Some p" "c \<noteq> Settle p" "machine_step c m = (ns, m')"
  shows "inFlight m' = Some p \<and> started m' = started m"
  using assms
  by (cases c) (auto simp: toConnecting_def toConnected_def toFailed_def toDisconnected_def toReconnecting_def
      apply_transition_def shortCircuitConnected_def subscribe_status_def unsubscribe_status_def coalesce_def
      settle_flight_def split: if_splits)

lemma run_flight:
  "inFlight m = Some p \<Longrightarrow> Settle p \<notin> set cs \<Longrightarrow>
     inFlight (snd (machine_run cs m)) = Some p \<and> started (snd (machine_run cs m)) = started m"
proof (induction cs arbitrary: m)
  case (Cons c cs)
  obtain ns m' where s: "machine_step c m = (ns, m')" by (cases "machine_step c m")
  with step_flight [of m p c ns m'] Cons.prems have "inFlight m' = Some p" "started m' = started m" by auto
  with Cons.IH [of m'] Cons.prems(2) s show ?case by (auto simp: split_beta)
qed simp

section \<open>Properties\<close>

text \<open>
  C15. A subscriber sees a legal history: over any sequence of requests (short circuits of a
  local provider apart), what a handler that stays subscribed is told is a path of the
  documented transition table from the state it started in, each accepted transition told
  once, and it ends in the state the machine is in; and a connect operation in flight is
  handed to every caller until it ends, with no second one started.
\<close>

theorem legal_history:
  assumes "distinct (conHandlers m)" "h \<in> set (conHandlers m)"
    and "\<forall>c\<in>set cs. c \<noteq> ShortCircuit \<and> c \<noteq> UnsubscribeStatus h"
  shows "path_from (conState m) (told h (fst (machine_run cs m)))
    \<and> conState (snd (machine_run cs m)) = last (conState m # told h (fst (machine_run cs m)))
    \<and> (\<forall>p. inFlight m = Some p \<longrightarrow> Settle p \<notin> set cs \<longrightarrow>
         fst (coalesce (snd (machine_run cs m))) = p \<and> started (snd (machine_run cs m)) = started m)"
proof -
  have "path_from (conState m) (told h (fst (machine_run cs m)))
    \<and> conState (snd (machine_run cs m)) = last (conState m # told h (fst (machine_run cs m)))"
    using assms
  proof (induction cs arbitrary: m)
    case (Cons c cs)
    obtain ns m' where s: "machine_step c m = (ns, m')" by (cases "machine_step c m")
    from step_told [OF Cons.prems(1,2) _ _ s] Cons.prems(3)
    have i: "distinct (conHandlers m')" "h \<in> set (conHandlers m')"
      and t: "(told h ns = [] \<and> conState m' = conState m) \<or> (edge (conState m) (conState m') \<and> told h ns = [conState m'])"
      by auto
    from Cons.IH [OF i] Cons.prems(3) t s show ?case
      by (auto simp: told_append split: prod.splits)
  qed simp
  with run_flight [of m _ cs] show ?thesis by (auto simp: coalesce_def)
qed

theorem legal_history_witness:
  "told 7 (fst (machine_run [ToConnecting None, ToReconnecting None, ToConnected None, Coalesce, ToFailed None,
      ToDisconnected None] (subscribe_status 7 (new_machine Disconnected)))) = [Connecting, Connected, Disconnected]
   \<and> path_from Disconnected [Connecting, Connected, Disconnected]"
proof -
  let ?cs = "[ToConnecting None, ToReconnecting None, ToConnected None, Coalesce, ToFailed None, ToDisconnected None]"
  let ?m = "subscribe_status 7 (new_machine Disconnected)"
  have "told 7 (fst (machine_run ?cs ?m)) = [Connecting, Connected, Disconnected]" by code_simp
  with legal_history [of ?m 7 ?cs] show ?thesis
    by (simp add: subscribe_status_def new_machine_def oset_add_def)
qed

end
