(* ===== verification/Sessions.thy ===== *)
theory Sessions
  imports Connection
begin

text \<open>
  The live sessions of the application, \<open>electron/main/providers/sessionManager.ts\<close>, the
  idle reaper \<open>sessionReaper.ts\<close> and the session names of \<open>sessionKey.ts\<close>.

  Every asynchronous method is cut at its awaits. What follows an await is a task of the
  state, resumed by an event that says whether the awaited call was fulfilled; other events
  may come in between, in any order. Calls to providers, listeners and the callback broker
  are effects, in the order they are made; \<open>live\<close> is the ghost set of watch subscriptions a
  provider still serves and \<open>subOwner\<close> their provider. A provider reports its status by a
  \<open>Status\<close> event.
\<close>

section \<open>State\<close>

datatype project_kind = LocalKind | RemoteKind

record connection_spec =
  specKind :: project_kind
  specRoot :: string

record session_deps =
  loadSpec :: "string \<Rightarrow> connection_spec option"
  hasCallback :: bool

datatype task =
    Subscribing string nat
  | StoppingWatch string
  | SettingWorktree string "string option" nat
  | SubscribingWorktree string nat string nat
  | CallbackStart string
  | Opening string nat bool
  | AwaitReady string nat bool "nat option"
  | ReconnectingTask string
  | ClosingWatch "nat list" string "string list"
  | ClosingNext "nat list" "string list"
  | ClosingLast "nat list"
  | Sweeping nat nat "string list"

datatype session_effect =
    OnStatus string ConnectionState
  | PersistActive "string option"
  | Evicted string
  | CreateProvider string nat
  | ConnectProvider nat
  | DisconnectProvider nat
  | SubscribeWatch nat
  | SubscribeWorktree nat string
  | Unsubscribe nat
  | StartCallback string
  | StopCallback string
  | Opened string nat
  | OpenRejected string

record session_manager =
  sessions :: "(string \<times> nat) list"
  statusOff :: "(string \<times> nat) list"
  activeId :: "string option"
  activityAt :: "string \<rightharpoonup> nat"
  watchSubs :: "(string \<times> nat) list"
  worktreeWatchSubs :: "(string \<times> (string \<times> nat)) list"
  worktreeWatchSeq :: "string \<rightharpoonup> nat"
  lastState :: "string \<rightharpoonup> ConnectionState"
  callbackStarts :: "string \<rightharpoonup> nat"
  listening :: bool
  provKind :: "nat \<Rightarrow> project_kind"
  provStatus :: "nat \<Rightarrow> ConnectionState"
  nextProv :: nat
  tasks :: "(nat \<times> task) list"
  nextTask :: nat
  live :: "nat set"
  subOwner :: "nat \<Rightarrow> nat"
  nextSub :: nat
  effects :: "session_effect list"

definition new_sessions :: session_manager where
  "new_sessions = \<lparr>sessions = [], statusOff = [], activeId = None, activityAt = Map.empty, watchSubs = [],
     worktreeWatchSubs = [], worktreeWatchSeq = Map.empty, lastState = Map.empty, callbackStarts = Map.empty,
     listening = False, provKind = (\<lambda>_. LocalKind), provStatus = (\<lambda>_. Disconnected), nextProv = 0,
     tasks = [], nextTask = 0, live = {}, subOwner = (\<lambda>_. 0), nextSub = 0, effects = []\<rparr>"

definition say :: "session_effect \<Rightarrow> session_manager \<Rightarrow> session_manager" where
  "say e s = s\<lparr>effects := effects s @ [e]\<rparr>"

definition spawn :: "task \<Rightarrow> session_manager \<Rightarrow> session_manager" where
  "spawn t s = s\<lparr>tasks := tasks s @ [(nextTask s, t)], nextTask := Suc (nextTask s)\<rparr>"

definition unsubscribe :: "nat \<Rightarrow> session_manager \<Rightarrow> session_manager" where
  "unsubscribe x s = say (Unsubscribe x) (s\<lparr>live := live s - {x}\<rparr>)"

text \<open>A subscription the provider has just granted.\<close>

definition granted :: "nat \<Rightarrow> session_manager \<Rightarrow> nat \<times> session_manager" where
  "granted pr s = (nextSub s, s\<lparr>live := insert (nextSub s) (live s), subOwner := (subOwner s)(nextSub s := pr),
     nextSub := Suc (nextSub s)\<rparr>)"

section \<open>Names and paths\<close>

definition stripTrailingSlash :: "string \<Rightarrow> string" where
  "stripTrailingSlash p = (if 1 < length p then rev (dropWhile (\<lambda>c. c = CHR ''/'') (rev p)) else p)"

definition isExternalPath :: "string \<Rightarrow> string \<Rightarrow> bool" where
  "isExternalPath path base \<longleftrightarrow> path \<noteq> base \<and> \<not> startsWith path (base @ ''/'')"

definition sanitizeSessionName :: "string \<Rightarrow> string" where
  "sanitizeSessionName s = map (\<lambda>c. if c = CHR ''.'' \<or> c = CHR '':'' \<or> is_ws c then CHR ''-'' else c) s"

text \<open>The digest, as 64 hexadecimal characters, is a parameter.\<close>

definition sessionKey :: "(string \<Rightarrow> string) \<Rightarrow> string \<Rightarrow> string" where
  "sessionKey sha256hex rt = take 16 (sha256hex (rev (dropWhile (\<lambda>c. c = CHR ''/'') (rev rt))))"

definition sessionNameToken :: "(string \<Rightarrow> string) \<Rightarrow> bool \<Rightarrow> string \<Rightarrow> string \<Rightarrow> string" where
  "sessionNameToken sha256hex deterministic projectId rt =
     (if deterministic then sessionKey sha256hex rt else sanitizeSessionName projectId)"

section \<open>Watches and the callback socket\<close>

definition startWatch :: "string \<Rightarrow> session_manager \<Rightarrow> session_manager" where
  "startWatch p s =
     (if map_of (watchSubs s) p \<noteq> None then s
      else (case map_of (sessions s) p of
              None \<Rightarrow> s
            | Some pr \<Rightarrow> spawn (Subscribing p pr) (say (SubscribeWatch pr) s)))"

definition stopWorktreeWatch :: "string \<Rightarrow> session_manager \<Rightarrow> session_manager" where
  "stopWorktreeWatch p s =
     (case map_of (worktreeWatchSubs s) p of
        None \<Rightarrow> s
      | Some (_, x) \<Rightarrow> unsubscribe x (s\<lparr>worktreeWatchSubs := omap_del p (worktreeWatchSubs s)\<rparr>))"

definition stopWatch :: "string \<Rightarrow> session_manager \<Rightarrow> session_manager" where
  "stopWatch p s =
     (case map_of (watchSubs s) p of
        Some x \<Rightarrow> spawn (StoppingWatch p) (unsubscribe x (s\<lparr>watchSubs := omap_del p (watchSubs s)\<rparr>))
      | None \<Rightarrow> stopWorktreeWatch p s)"

definition startCallback :: "session_deps \<Rightarrow> string \<Rightarrow> session_manager \<Rightarrow> session_manager" where
  "startCallback d p s =
     (case map_of (sessions s) p of
        Some pr \<Rightarrow> if hasCallback d \<and> provKind s pr = LocalKind then say (StartCallback p) s else s
      | None \<Rightarrow> s)"

definition trackCallbackStart :: "session_deps \<Rightarrow> string \<Rightarrow> session_manager \<Rightarrow> session_manager" where
  "trackCallbackStart d p s =
     (spawn (CallbackStart p) (startCallback d p s))\<lparr>callbackStarts := (callbackStarts s)(p \<mapsto> nextTask s)\<rparr>"

definition stopCallback :: "session_deps \<Rightarrow> string \<Rightarrow> session_manager \<Rightarrow> session_manager" where
  "stopCallback d p s = (if hasCallback d then say (StopCallback p) s else s)"

definition handleStatus :: "session_deps \<Rightarrow> string \<Rightarrow> ConnectionState \<Rightarrow> session_manager \<Rightarrow> session_manager" where
  "handleStatus d p st s =
     (let prev = lastState s p;
          s1 = s\<lparr>lastState := (lastState s)(p \<mapsto> st)\<rparr>;
          s2 = (if listening s1 then say (OnStatus p st) s1 else s1)
      in if st = Connected then (if prev \<noteq> Some Connected then trackCallbackStart d p (startWatch p s2) else s2)
         else if st = Disconnected \<or> st = Failed then stopCallback d p (stopWatch p s2)
         else s2)"

definition unwireStatus :: "string \<Rightarrow> session_manager \<Rightarrow> session_manager" where
  "unwireStatus p s = s\<lparr>statusOff := omap_del p (statusOff s)\<rparr>"

fun rewire_all :: "session_deps \<Rightarrow> (string \<times> nat) list \<Rightarrow> session_manager \<Rightarrow> session_manager" where
  "rewire_all d [] s = s"
| "rewire_all d ((p, pr) # ps) s =
     (let s1 = unwireStatus p s; s2 = s1\<lparr>statusOff := omap_set p pr (statusOff s1)\<rparr>
      in rewire_all d ps (handleStatus d p (provStatus s2 pr) s2))"

definition setStatusListener :: "session_deps \<Rightarrow> session_manager \<Rightarrow> session_manager" where
  "setStatusListener d s = rewire_all d (sessions s) (s\<lparr>listening := True\<rparr>)"

text \<open>\<open>setActiveWorktree\<close> and what follows its two awaits; an empty path is no path.\<close>

definition setActiveWorktree :: "string \<Rightarrow> string option \<Rightarrow> session_manager \<Rightarrow> session_manager" where
  "setActiveWorktree p path s =
     (let new = (case path of None \<Rightarrow> None | Some w \<Rightarrow> if w = [] then None else Some (stripTrailingSlash w)) in
      if map_option fst (map_of (worktreeWatchSubs s) p) = new then s
      else
        let seq = Suc (case worktreeWatchSeq s p of None \<Rightarrow> 0 | Some n \<Rightarrow> n);
            s1 = stopWorktreeWatch p (s\<lparr>worktreeWatchSeq := (worktreeWatchSeq s)(p \<mapsto> seq)\<rparr>)
        in spawn (SettingWorktree p new seq) s1)"

definition worktree_subscribe :: "session_deps \<Rightarrow> string \<Rightarrow> string option \<Rightarrow> nat \<Rightarrow> session_manager \<Rightarrow> session_manager" where
  "worktree_subscribe d p new seq s =
     (case new of
        None \<Rightarrow> s
      | Some path \<Rightarrow>
          (case loadSpec d p of
             None \<Rightarrow> s
           | Some sp \<Rightarrow>
               if \<not> isExternalPath path (stripTrailingSlash (specRoot sp)) then s
               else (case map_of (sessions s) p of
                       None \<Rightarrow> s
                     | Some pr \<Rightarrow> spawn (SubscribingWorktree p pr path seq) (say (SubscribeWorktree pr path) s))))"

definition worktree_subscribed :: "string \<Rightarrow> nat \<Rightarrow> string \<Rightarrow> nat \<Rightarrow> session_manager \<Rightarrow> session_manager" where
  "worktree_subscribed p pr path seq s =
     (let (x, s1) = granted pr s in
      if map_of (sessions s1) p = Some pr \<and> worktreeWatchSeq s1 p = Some seq
      then s1\<lparr>worktreeWatchSubs := omap_set p (path, x) (worktreeWatchSubs s1)\<rparr>
      else unsubscribe x s1)"

definition watch_subscribed :: "string \<Rightarrow> nat \<Rightarrow> session_manager \<Rightarrow> session_manager" where
  "watch_subscribed p pr s =
     (let (x, s1) = granted pr s in
      if map_of (sessions s1) p \<noteq> Some pr then unsubscribe x s1
      else s1\<lparr>watchSubs := omap_set p x (watchSubs s1)\<rparr>)"

section \<open>Opening and closing\<close>

definition notifyEviction :: "session_deps \<Rightarrow> string \<Rightarrow> session_manager \<Rightarrow> session_manager" where
  "notifyEviction d p s =
     (let s1 = stopCallback d p (stopWatch p s) in
      say (Evicted p) (s1\<lparr>lastState := (lastState s1)(p := None), worktreeWatchSeq := (worktreeWatchSeq s1)(p := None)\<rparr>))"

definition touch :: "nat \<Rightarrow> string \<Rightarrow> session_manager \<Rightarrow> session_manager" where
  "touch now p s = s\<lparr>activityAt := (activityAt s)(p \<mapsto> now)\<rparr>"

text \<open>
  \<open>open\<close> up to its first await; \<open>act\<close> says that \<open>activate\<close> called it, \<open>init\<close> is the status a
  new provider reports first.
\<close>

definition open_session :: "session_deps \<Rightarrow> nat \<Rightarrow> ConnectionState \<Rightarrow> string \<Rightarrow> bool \<Rightarrow> session_manager \<Rightarrow> session_manager" where
  "open_session d now init p act s =
     (case map_of (sessions s) p of
        Some pr \<Rightarrow> spawn (AwaitReady p pr act (callbackStarts s p)) s
      | None \<Rightarrow>
          (case loadSpec d p of
             None \<Rightarrow> say (OpenRejected p) s
           | Some sp \<Rightarrow>
               let pr = nextProv s;
                   s1 = say (CreateProvider p pr) (s\<lparr>nextProv := Suc pr, provKind := (provKind s)(pr := specKind sp),
                          provStatus := (provStatus s)(pr := init), sessions := omap_set p pr (sessions s)\<rparr>);
                   s2 = unwireStatus p (touch now p s1);
                   s3 = handleStatus d p init (s2\<lparr>statusOff := omap_set p pr (statusOff s2)\<rparr>)
               in spawn (Opening p pr act) (say (ConnectProvider pr) s3)))"

definition connect_failed :: "session_deps \<Rightarrow> string \<Rightarrow> nat \<Rightarrow> session_manager \<Rightarrow> session_manager" where
  "connect_failed d p pr s =
     (let s1 = notifyEviction d p s;
          s2 = unwireStatus p (s1\<lparr>sessions := omap_del p (sessions s1)\<rparr>)
      in say (OpenRejected p) (say (DisconnectProvider pr) s2))"

definition opened :: "string \<Rightarrow> nat \<Rightarrow> bool \<Rightarrow> session_manager \<Rightarrow> session_manager" where
  "opened p pr act s =
     (let s1 = (if act then say (PersistActive (Some p)) (s\<lparr>activeId := Some p\<rparr>) else s) in say (Opened p pr) s1)"

definition disconnect_session :: "string \<Rightarrow> session_manager \<Rightarrow> session_manager" where
  "disconnect_session p s =
     (case map_of (sessions s) p of None \<Rightarrow> s | Some pr \<Rightarrow> say (DisconnectProvider pr) s)"

definition reconnect :: "session_deps \<Rightarrow> nat \<Rightarrow> ConnectionState \<Rightarrow> string \<Rightarrow> session_manager \<Rightarrow> session_manager" where
  "reconnect d now init p s =
     (case map_of (sessions s) p of
        None \<Rightarrow> open_session d now init p True s
      | Some pr \<Rightarrow>
          let s1 = notifyEviction d p s;
              s2 = unwireStatus p (s1\<lparr>sessions := omap_del p (sessions s1)\<rparr>)
          in spawn (ReconnectingTask p) (say (DisconnectProvider pr) s2))"

definition close_session :: "session_deps \<Rightarrow> string \<Rightarrow> bool \<Rightarrow> session_manager \<Rightarrow> session_manager" where
  "close_session d p detail s =
     (case map_of (sessions s) p of
        None \<Rightarrow> s
      | Some pr \<Rightarrow>
          let s1 = (if detail \<and> listening s then say (OnStatus p Disconnected) s else s);
              s2 = notifyEviction d p s1;
              s3 = unwireStatus p (s2\<lparr>sessions := omap_del p (sessions s2), activityAt := (activityAt s2)(p := None)\<rparr>);
              s4 = (if activeId s3 = Some p then say (PersistActive None) (s3\<lparr>activeId := None\<rparr>) else s3)
          in say (DisconnectProvider pr) s4)"

definition closing_next :: "nat list \<Rightarrow> string list \<Rightarrow> session_manager \<Rightarrow> session_manager" where
  "closing_next provs ids s =
     (case ids of
        [] \<Rightarrow> spawn (ClosingLast provs) s
      | p # ps \<Rightarrow>
          (case map_of (watchSubs s) p of
             Some x \<Rightarrow> spawn (ClosingWatch provs p ps) (unsubscribe x (s\<lparr>watchSubs := omap_del p (watchSubs s)\<rparr>))
           | None \<Rightarrow> spawn (ClosingNext provs ps) (stopWorktreeWatch p s)))"

definition closing_last :: "nat list \<Rightarrow> session_manager \<Rightarrow> session_manager" where
  "closing_last provs s =
     foldl (\<lambda>t pr. say (DisconnectProvider pr) t)
       (s\<lparr>lastState := Map.empty, worktreeWatchSeq := Map.empty, statusOff := [], activeId := None\<rparr>) provs"

definition closeAll :: "session_deps \<Rightarrow> session_manager \<Rightarrow> session_manager" where
  "closeAll d s =
     (let s1 = foldl (\<lambda>t (p, _). stopCallback d p t) (s\<lparr>sessions := [], activityAt := Map.empty\<rparr>) (sessions s);
          ids = remdups (map fst (watchSubs s1) @ map fst (worktreeWatchSubs s1))
      in closing_next (map snd (sessions s)) ids s1)"

section \<open>The idle reaper\<close>

definition reapable :: "nat \<Rightarrow> nat \<Rightarrow> string \<Rightarrow> session_manager \<Rightarrow> bool" where
  "reapable at threshold p s \<longleftrightarrow>
     activeId s \<noteq> Some p \<and>
     (case map_of (sessions s) p of
        None \<Rightarrow> False
      | Some pr \<Rightarrow> provKind s pr = RemoteKind \<and> provStatus s pr = Connected) \<and>
     threshold < at - (case activityAt s p of None \<Rightarrow> 0 | Some a \<Rightarrow> a)"

fun sweep_from :: "session_deps \<Rightarrow> nat \<Rightarrow> nat \<Rightarrow> string list \<Rightarrow> session_manager \<Rightarrow> session_manager" where
  "sweep_from d at threshold [] s = s"
| "sweep_from d at threshold (p # ps) s =
     (if reapable at threshold p s then spawn (Sweeping at threshold ps) (close_session d p True s)
      else sweep_from d at threshold ps s)"

definition sweepIdleSessions :: "session_deps \<Rightarrow> nat \<Rightarrow> nat \<Rightarrow> session_manager \<Rightarrow> session_manager" where
  "sweepIdleSessions d now timeoutMin s =
     (if \<not> 0 < timeoutMin then s
      else sweep_from d now (timeoutMin * 60000) (map fst (sessions s)) s)"

section \<open>Events\<close>

datatype session_event =
    Open string | Activate string | Disconnect string | Reconnect string | Close string bool | CloseAll
  | SetActiveWorktree string "string option" | Touch string | SetStatusListener
  | Status nat ConnectionState | Resume nat bool | Sweep nat

definition resume :: "session_deps \<Rightarrow> nat \<Rightarrow> ConnectionState \<Rightarrow> nat \<Rightarrow> bool \<Rightarrow> session_manager \<Rightarrow> session_manager" where
  "resume d now init t ok s =
     (case map_of (tasks s) t of
        None \<Rightarrow> s
      | Some k \<Rightarrow>
          let s0 = s\<lparr>tasks := omap_del t (tasks s)\<rparr> in
          (case k of
             Subscribing p pr \<Rightarrow> if ok then watch_subscribed p pr s0 else s0
           | StoppingWatch p \<Rightarrow> stopWorktreeWatch p s0
           | SettingWorktree p new seq \<Rightarrow> worktree_subscribe d p new seq s0
           | SubscribingWorktree p pr path seq \<Rightarrow> if ok then worktree_subscribed p pr path seq s0 else s0
           | CallbackStart p \<Rightarrow>
               if callbackStarts s p = Some t then s0\<lparr>callbackStarts := (callbackStarts s)(p := None)\<rparr> else s0
           | Opening p pr act \<Rightarrow>
               if ok then spawn (AwaitReady p pr act (callbackStarts s0 p)) s0 else connect_failed d p pr s0
           | AwaitReady p pr act w \<Rightarrow>
               (case w of
                  Some c \<Rightarrow> if map_of (tasks s) c \<noteq> None then s else opened p pr act s0
                | None \<Rightarrow> opened p pr act s0)
           | ReconnectingTask p \<Rightarrow> open_session d now init p True s0
           | ClosingWatch provs p ps \<Rightarrow> spawn (ClosingNext provs ps) (stopWorktreeWatch p s0)
           | ClosingNext provs ps \<Rightarrow> closing_next provs ps s0
           | ClosingLast provs \<Rightarrow> closing_last provs s0
           | Sweeping at threshold ps \<Rightarrow> sweep_from d at threshold ps s0))"

text \<open>A provider's report reaches the manager through the listener that is wired to it.\<close>

definition provider_status :: "session_deps \<Rightarrow> nat \<Rightarrow> ConnectionState \<Rightarrow> session_manager \<Rightarrow> session_manager" where
  "provider_status d pr st s =
     foldl (\<lambda>t (p, _). handleStatus d p st t) (s\<lparr>provStatus := (provStatus s)(pr := st)\<rparr>)
       (filter (\<lambda>(_, q). q = pr) (statusOff s))"

fun session_step :: "session_deps \<Rightarrow> nat \<Rightarrow> ConnectionState \<Rightarrow> session_event \<Rightarrow> session_manager \<Rightarrow> session_manager" where
  "session_step d now init (Open p) s = open_session d now init p False s"
| "session_step d now init (Activate p) s = open_session d now init p True s"
| "session_step d now init (Disconnect p) s = disconnect_session p s"
| "session_step d now init (Reconnect p) s = reconnect d now init p s"
| "session_step d now init (Close p detail) s = close_session d p detail s"
| "session_step d now init CloseAll s = closeAll d s"
| "session_step d now init (SetActiveWorktree p path) s = setActiveWorktree p path s"
| "session_step d now init (Touch p) s = touch now p s"
| "session_step d now init SetStatusListener s = setStatusListener d s"
| "session_step d now init (Status pr st) s = provider_status d pr st s"
| "session_step d now init (Resume t ok) s = resume d now init t ok s"
| "session_step d now init (Sweep m) s = sweepIdleSessions d now m s"

text \<open>A run: each event with the clock and the first status a provider created by it reports.\<close>

definition session_run :: "session_deps \<Rightarrow> (nat \<times> ConnectionState \<times> session_event) list \<Rightarrow> session_manager \<Rightarrow> session_manager" where
  "session_run d evs s = foldl (\<lambda>t (now, init, ev). session_step d now init ev t) s evs"

section \<open>The invariant of the watches\<close>

abbreviation sess :: "session_manager \<Rightarrow> string \<rightharpoonup> nat" where "sess s \<equiv> map_of (sessions s)"
abbreviation watch :: "session_manager \<Rightarrow> string \<rightharpoonup> nat" where "watch s \<equiv> map_of (watchSubs s)"
abbreviation worktree :: "session_manager \<Rightarrow> string \<rightharpoonup> (string \<times> nat)" where
  "worktree s \<equiv> map_of (worktreeWatchSubs s)"

definition stopping :: "session_manager \<Rightarrow> string set" where
  "stopping s = {p. StoppingWatch p \<in> snd ` set (tasks s)}"

fun not_closing :: "task \<Rightarrow> bool" where
  "not_closing (ClosingWatch _ _ _) = False"
| "not_closing (ClosingNext _ _) = False"
| "not_closing (ClosingLast _) = False"
| "not_closing _ = True"

text \<open>
  \<open>core\<close> on maps: the sessions' providers are distinct and old; a registered watch is alive
  and belongs to the provider of its project's session (a worktree watch may also belong to a
  session that is being torn down); and no subscription is registered twice.
\<close>

definition core :: "(string \<rightharpoonup> nat) \<Rightarrow> (string \<rightharpoonup> nat) \<Rightarrow> (string \<rightharpoonup> string \<times> nat) \<Rightarrow> string set
    \<Rightarrow> (nat \<Rightarrow> nat) \<Rightarrow> nat set \<Rightarrow> nat \<Rightarrow> nat \<Rightarrow> bool" where
  "core m w t st ow lv ns np \<longleftrightarrow>
     (\<forall>p pr. m p = Some pr \<longrightarrow> pr < np) \<and> (\<forall>p q pr. m p = Some pr \<longrightarrow> m q = Some pr \<longrightarrow> p = q)
   \<and> (\<forall>p x. w p = Some x \<longrightarrow> m p = Some (ow x)) \<and> (\<forall>p x. w p = Some x \<longrightarrow> x \<in> lv)
   \<and> (\<forall>p v x. t p = Some (v, x) \<longrightarrow> x \<in> lv)
   \<and> (\<forall>p v x. t p = Some (v, x) \<longrightarrow> p \<notin> st \<longrightarrow> m p = Some (ow x))
   \<and> (\<forall>x\<in>lv. x < ns)
   \<and> (\<forall>p q x. w p = Some x \<longrightarrow> w q = Some x \<longrightarrow> p = q)
   \<and> (\<forall>p q v v' x. t p = Some (v, x) \<longrightarrow> t q = Some (v', x) \<longrightarrow> p = q)
   \<and> (\<forall>p q v x. w p = Some x \<longrightarrow> t q \<noteq> Some (v, x))"

lemma coreI:
  assumes "\<And>p pr. m p = Some pr \<Longrightarrow> pr < np" "\<And>p q pr. m p = Some pr \<Longrightarrow> m q = Some pr \<Longrightarrow> p = q"
    and "\<And>p x. w p = Some x \<Longrightarrow> m p = Some (ow x)" "\<And>p x. w p = Some x \<Longrightarrow> x \<in> lv"
    and "\<And>p v x. t p = Some (v, x) \<Longrightarrow> x \<in> lv"
    and "\<And>p v x. t p = Some (v, x) \<Longrightarrow> p \<notin> st \<Longrightarrow> m p = Some (ow x)"
    and "\<And>x. x \<in> lv \<Longrightarrow> x < ns" "\<And>p q x. w p = Some x \<Longrightarrow> w q = Some x \<Longrightarrow> p = q"
    and "\<And>p q v v' x. t p = Some (v, x) \<Longrightarrow> t q = Some (v', x) \<Longrightarrow> p = q"
    and "\<And>p q v x. w p = Some x \<Longrightarrow> t q \<noteq> Some (v, x)"
  shows "core m w t st ow lv ns np"
  unfolding core_def by (intro conjI allI impI ballI) (rule assms; assumption)+

lemma core_parts:
  assumes "core m w t st ow lv ns np"
  shows "\<forall>p pr. m p = Some pr \<longrightarrow> pr < np" "\<forall>p q pr. m p = Some pr \<longrightarrow> m q = Some pr \<longrightarrow> p = q"
    and "\<forall>p x. w p = Some x \<longrightarrow> m p = Some (ow x)" "\<forall>p x. w p = Some x \<longrightarrow> x \<in> lv"
    and "\<forall>p v x. t p = Some (v, x) \<longrightarrow> x \<in> lv"
    and "\<forall>p v x. t p = Some (v, x) \<longrightarrow> p \<notin> st \<longrightarrow> m p = Some (ow x)"
    and "\<forall>x\<in>lv. x < ns" "\<forall>p q x. w p = Some x \<longrightarrow> w q = Some x \<longrightarrow> p = q"
    and "\<forall>p q v v' x. t p = Some (v, x) \<longrightarrow> t q = Some (v', x) \<longrightarrow> p = q"
    and "\<forall>p q v x. w p = Some x \<longrightarrow> t q \<noteq> Some (v, x)"
  using assms [unfolded core_def] by - (elim conjE, assumption)+

lemmas coreD = core_parts [rule_format]

lemma core_more_stopping: "core m w t st ow lv ns np \<Longrightarrow> st \<subseteq> st' \<Longrightarrow> core m w t st' ow lv ns np"
  by (rule coreI) (auto dest: coreD)

lemma core_drop_watch:
  assumes c: "core m w t st ow lv ns np" and "w p = Some x"
  shows "core m (w(p := None)) t st ow (lv - {x}) ns np"
  by (rule coreI) (use coreD [OF c] assms(2) in \<open>auto split: if_splits\<close>)

lemma core_less_stopping:
  assumes c: "core m w t st ow lv ns np" and "t p = None" "st - {p} \<subseteq> st'"
  shows "core m w t st' ow lv ns np"
proof -
  have st: "q \<notin> st" if "t q = Some (v, x)" "q \<notin> st'" for q v x
    using that assms(2,3) by (cases "q = p") auto
  show ?thesis by (rule coreI) (use coreD [OF c] st in \<open>auto split: if_splits\<close>)
qed

lemma core_drop_worktree:
  assumes c: "core m w t st ow lv ns np" and "t p = Some (v, x)" "st - {p} \<subseteq> st'"
  shows "core m w (t(p := None)) st' ow (lv - {x}) ns np"
proof -
  have "core m w (t(p := None)) st ow (lv - {x}) ns np"
    by (rule coreI) (use coreD [OF c] assms(2) in \<open>auto split: if_splits\<close>)
  from core_less_stopping [OF this _ assms(3)] show ?thesis by simp
qed

lemma core_evict:
  assumes c: "core m w t st ow lv ns np" and "w p = None" "t p = None \<or> p \<in> st"
  shows "core (m(p := None)) w t st ow lv ns np"
  by (rule coreI) (use coreD [OF c] assms(2,3) in \<open>auto split: if_splits\<close>)

lemma core_open:
  assumes c: "core m w t st ow lv ns np" and "m p = None"
  shows "core (m(p \<mapsto> np)) w t st ow lv ns (Suc np)"
  by (rule coreI) (use coreD [OF c] assms(2) in \<open>auto simp: less_Suc_eq split: if_splits\<close>)

lemma core_grant:
  assumes "core m w t st ow lv ns np"
  shows "m p = Some pr \<Longrightarrow> core m (w(p \<mapsto> ns)) t st (ow(ns := pr)) (insert ns lv) (Suc ns) np"
    and "m p = Some pr \<Longrightarrow> core m w (t(p \<mapsto> (v, ns))) st (ow(ns := pr)) (insert ns lv) (Suc ns) np"
    and "core m w t st (ow(ns := pr)) (insert ns lv - {ns}) (Suc ns) np"
proof -
  note c = coreD [OF assms]
  have fresh: "ns \<notin> lv" "\<And>q x. w q = Some x \<Longrightarrow> x \<noteq> ns" "\<And>q v x. t q = Some (v, x) \<Longrightarrow> x \<noteq> ns"
    using c(4,5,7) by blast+
  show "core m (w(p \<mapsto> ns)) t st (ow(ns := pr)) (insert ns lv) (Suc ns) np" if "m p = Some pr"
    by (rule coreI) (use c fresh that in \<open>auto simp: less_Suc_eq split: if_splits\<close>)
  show "core m w (t(p \<mapsto> (v, ns))) st (ow(ns := pr)) (insert ns lv) (Suc ns) np" if "m p = Some pr"
    by (rule coreI) (use c fresh that in \<open>auto simp: less_Suc_eq split: if_splits\<close>)
  show "core m w t st (ow(ns := pr)) (insert ns lv - {ns}) (Suc ns) np"
    by (rule coreI) (use c fresh in \<open>auto simp: less_Suc_eq split: if_splits\<close>)
qed

definition settled_tasks :: "session_manager \<Rightarrow> bool" where
  "settled_tasks s \<longleftrightarrow> (\<forall>k\<in>snd ` set (tasks s). not_closing k) \<and> distinct (map fst (tasks s))
     \<and> (\<forall>t\<in>fst ` set (tasks s). t < nextTask s)"

definition watch_inv :: "session_manager \<Rightarrow> bool" where
  "watch_inv s \<longleftrightarrow> map_of (statusOff s) = sess s
     \<and> core (sess s) (watch s) (worktree s) (stopping s) (subOwner s) (live s) (nextSub s) (nextProv s)
     \<and> settled_tasks s"

named_theorems session_defs "the operations that only record an effect or a task"
lemmas [session_defs] = say_def spawn_def unsubscribe_def stopCallback_def startCallback_def trackCallbackStart_def

lemma watch_inv_say [simp]: "watch_inv (say e s) = watch_inv s"
  by (simp add: say_def watch_inv_def settled_tasks_def stopping_def)

lemma watch_inv_updates [simp]:
  "watch_inv (s\<lparr>lastState := a\<rparr>) = watch_inv s" "watch_inv (s\<lparr>worktreeWatchSeq := b\<rparr>) = watch_inv s"
  "watch_inv (s\<lparr>callbackStarts := c\<rparr>) = watch_inv s" "watch_inv (s\<lparr>listening := l\<rparr>) = watch_inv s"
  "watch_inv (s\<lparr>provStatus := f\<rparr>) = watch_inv s" "watch_inv (s\<lparr>activityAt := g\<rparr>) = watch_inv s"
  "watch_inv (s\<lparr>activeId := h\<rparr>) = watch_inv s"
  by (simp_all add: watch_inv_def settled_tasks_def stopping_def)

lemma stopping_spawn: "stopping (spawn k s) = stopping s \<union> {p. k = StoppingWatch p}"
  by (auto simp: stopping_def spawn_def)

lemma watch_inv_spawn: "watch_inv s \<Longrightarrow> not_closing k \<Longrightarrow> watch_inv (spawn k s)"
proof -
  assume a: "watch_inv s" "not_closing k"
  have "settled_tasks (spawn k s)"
    using a by (auto simp: spawn_def watch_inv_def settled_tasks_def less_Suc_eq)
  moreover have "core (sess s) (watch s) (worktree s) (stopping (spawn k s)) (subOwner s) (live s) (nextSub s) (nextProv s)"
    using a(1) unfolding watch_inv_def by (auto simp: stopping_spawn intro: core_more_stopping)
  ultimately show ?thesis using a(1) by (simp add: watch_inv_def) (simp add: spawn_def)
qed

text \<open>Unsubscribing the registered watch of a project, primary or worktree.\<close>

lemma stopping_fields:
  "stopping (unsubscribe x s) = stopping s" "stopping (s\<lparr>watchSubs := a\<rparr>) = stopping s"
  "stopping (s\<lparr>worktreeWatchSubs := b\<rparr>) = stopping s" "stopping (say e s) = stopping s"
  "stopping (s\<lparr>sessions := c\<rparr>) = stopping s" "stopping (s\<lparr>statusOff := c\<rparr>) = stopping s"
  "stopping (s\<lparr>lastState := f\<rparr>) = stopping s" "stopping (s\<lparr>worktreeWatchSeq := g\<rparr>) = stopping s"
  by (simp_all add: stopping_def unsubscribe_def say_def)

lemma settled_fields:
  "settled_tasks (unsubscribe x s) = settled_tasks s" "settled_tasks (s\<lparr>watchSubs := a\<rparr>) = settled_tasks s"
  "settled_tasks (s\<lparr>worktreeWatchSubs := b\<rparr>) = settled_tasks s" "settled_tasks (say e s) = settled_tasks s"
  "settled_tasks (s\<lparr>sessions := c\<rparr>) = settled_tasks s" "settled_tasks (s\<lparr>statusOff := c\<rparr>) = settled_tasks s"
  by (simp_all add: settled_tasks_def unsubscribe_def say_def)

lemma unsubscribe_fields [simp]:
  "sessions (unsubscribe x s) = sessions s" "statusOff (unsubscribe x s) = statusOff s"
  "watchSubs (unsubscribe x s) = watchSubs s" "worktreeWatchSubs (unsubscribe x s) = worktreeWatchSubs s"
  "subOwner (unsubscribe x s) = subOwner s" "live (unsubscribe x s) = live s - {x}"
  "nextSub (unsubscribe x s) = nextSub s" "nextProv (unsubscribe x s) = nextProv s"
  by (simp_all add: unsubscribe_def say_def)

lemma watch_inv_drop_worktree:
  assumes "watch_inv s" "worktree s p = Some (w, x)"
  shows "watch_inv (unsubscribe x (s\<lparr>worktreeWatchSubs := omap_del p (worktreeWatchSubs s)\<rparr>))"
  using assms core_drop_worktree [of _ _ "worktree s" "stopping s" _ _ _ _ p w x "stopping s"]
  by (simp add: watch_inv_def stopping_fields settled_fields omap_get_del)

lemma watch_inv_drop_watch:
  assumes "watch_inv s" "watch s p = Some x"
  shows "watch_inv (unsubscribe x (s\<lparr>watchSubs := omap_del p (watchSubs s)\<rparr>))"
  using assms core_drop_watch [of _ "watch s" _ _ _ _ _ _ p x]
  by (simp add: watch_inv_def stopping_fields settled_fields omap_get_del)

lemma watch_inv_stopWorktreeWatch: "watch_inv s \<Longrightarrow> watch_inv (stopWorktreeWatch p s)"
  by (auto simp: stopWorktreeWatch_def watch_inv_drop_worktree split: option.splits)

lemma watch_inv_stopWatch: "watch_inv s \<Longrightarrow> watch_inv (stopWatch p s)"
  by (auto simp: stopWatch_def watch_inv_drop_watch watch_inv_spawn watch_inv_stopWorktreeWatch split: option.splits)

lemma watch_inv_startWatch: "watch_inv s \<Longrightarrow> watch_inv (startWatch p s)"
  by (auto simp: startWatch_def watch_inv_spawn split: option.splits)

lemma watch_inv_startCallback [simp]: "watch_inv (startCallback d p s) = watch_inv s"
  by (simp add: startCallback_def split: option.splits)

lemma watch_inv_trackCallbackStart: "watch_inv s \<Longrightarrow> watch_inv (trackCallbackStart d p s)"
  by (simp add: trackCallbackStart_def watch_inv_spawn)

lemma watch_inv_stopCallback [simp]: "watch_inv (stopCallback d p s) = watch_inv s"
  by (simp add: stopCallback_def)

lemma watch_inv_handleStatus: "watch_inv s \<Longrightarrow> watch_inv (handleStatus d p st s)"
  by (simp add: handleStatus_def Let_def watch_inv_startWatch watch_inv_trackCallbackStart watch_inv_stopWatch)

text \<open>What the operations leave alone.\<close>

lemma frame_stopWorktreeWatch [simp]:
  "sessions (stopWorktreeWatch p s) = sessions s" "statusOff (stopWorktreeWatch p s) = statusOff s"
  "watchSubs (stopWorktreeWatch p s) = watchSubs s" "lastState (stopWorktreeWatch p s) = lastState s"
  "provStatus (stopWorktreeWatch p s) = provStatus s" "activeId (stopWorktreeWatch p s) = activeId s"
  "provKind (stopWorktreeWatch p s) = provKind s" "nextProv (stopWorktreeWatch p s) = nextProv s"
  "activityAt (stopWorktreeWatch p s) = activityAt s" "tasks (stopWorktreeWatch p s) = tasks s"
  "worktree (stopWorktreeWatch p s) = (worktree s)(p := None)" "subOwner (stopWorktreeWatch p s) = subOwner s"
  "listening (stopWorktreeWatch p s) = listening s" "callbackStarts (stopWorktreeWatch p s) = callbackStarts s"
  by (auto simp: stopWorktreeWatch_def session_defs omap_simps fun_eq_iff split: option.splits)

lemma frame_stopWatch [simp]:
  "sessions (stopWatch p s) = sessions s" "statusOff (stopWatch p s) = statusOff s"
  "lastState (stopWatch p s) = lastState s" "provStatus (stopWatch p s) = provStatus s"
  "activeId (stopWatch p s) = activeId s" "provKind (stopWatch p s) = provKind s"
  "nextProv (stopWatch p s) = nextProv s" "activityAt (stopWatch p s) = activityAt s"
  "watch (stopWatch p s) = (watch s)(p := None)" "subOwner (stopWatch p s) = subOwner s"
  "listening (stopWatch p s) = listening s" "callbackStarts (stopWatch p s) = callbackStarts s"
  by (auto simp: stopWatch_def session_defs omap_simps fun_eq_iff split: option.splits)

lemma stopWatch_worktree: "worktree (stopWatch p s) p = None \<or> p \<in> stopping (stopWatch p s)"
  by (auto simp: stopWatch_def stopping_spawn split: option.splits)

lemma frame_notifyEviction [simp]:
  "sessions (notifyEviction d p s) = sessions s" "statusOff (notifyEviction d p s) = statusOff s"
  "provStatus (notifyEviction d p s) = provStatus s" "activeId (notifyEviction d p s) = activeId s"
  "provKind (notifyEviction d p s) = provKind s" "nextProv (notifyEviction d p s) = nextProv s"
  "activityAt (notifyEviction d p s) = activityAt s" "lastState (notifyEviction d p s) = (lastState s)(p := None)"
  "watch (notifyEviction d p s) = (watch s)(p := None)" "listening (notifyEviction d p s) = listening s"
  by (auto simp: notifyEviction_def Let_def session_defs)

definition evict_session :: "session_deps \<Rightarrow> string \<Rightarrow> session_manager \<Rightarrow> session_manager" where
  "evict_session d p s =
     (let s1 = notifyEviction d p s in unwireStatus p (s1\<lparr>sessions := omap_del p (sessions s1)\<rparr>))"

lemma watch_inv_evict: "watch_inv s \<Longrightarrow> watch_inv (evict_session d p s)"
proof -
  assume a: "watch_inv s"
  let ?s = "notifyEviction d p s"
  have b: "watch_inv ?s"
    using watch_inv_stopWatch [OF a] by (simp add: notifyEviction_def Let_def)
  have "worktree ?s = worktree (stopWatch p s)" "stopping ?s = stopping (stopWatch p s)"
    by (simp_all add: notifyEviction_def Let_def say_def stopCallback_def stopping_def)
  with stopWatch_worktree [of p s] have "worktree ?s p = None \<or> p \<in> stopping ?s" by simp
  with b core_evict [of "sess ?s" "watch ?s" "worktree ?s" "stopping ?s" _ _ _ _ p]
  show ?thesis
    unfolding evict_session_def Let_def
    by (simp add: watch_inv_def unwireStatus_def stopping_fields settled_fields omap_get_del)
qed

lemma watch_inv_wire:
  assumes "watch_inv s" "sess s p = None"
  shows "watch_inv (s\<lparr>sessions := omap_set p (nextProv s) (sessions s),
      statusOff := omap_set p (nextProv s) (omap_del p (statusOff s)), nextProv := Suc (nextProv s)\<rparr>)"
  using assms core_open [of "sess s" _ _ _ _ _ _ "nextProv s" p]
  by (simp add: watch_inv_def omap_get_set omap_get_del settled_tasks_def stopping_def)

lemma watch_inv_open: "watch_inv s \<Longrightarrow> watch_inv (open_session d now init p act s)"
proof (cases "sess s p")
  case (Some pr)
  assume "watch_inv s"
  with Some show ?thesis by (simp add: open_session_def watch_inv_spawn)
next
  case None
  assume a: "watch_inv s"
  show ?thesis
  proof (cases "loadSpec d p")
    case None
    with a \<open>sess s p = None\<close> show ?thesis by (simp add: open_session_def)
  next
    case (Some sp)
    let ?s = "s\<lparr>sessions := omap_set p (nextProv s) (sessions s),
      statusOff := omap_set p (nextProv s) (omap_del p (statusOff s)), nextProv := Suc (nextProv s)\<rparr>"
    let ?t = "(touch now p (say (CreateProvider p (nextProv s)) (s\<lparr>nextProv := Suc (nextProv s),
        provKind := (provKind s)(nextProv s := specKind sp), provStatus := (provStatus s)(nextProv s := init),
        sessions := omap_set p (nextProv s) (sessions s)\<rparr>)))"
    have "watch_inv ((unwireStatus p ?t)\<lparr>statusOff := omap_set p (nextProv s) (statusOff (unwireStatus p ?t))\<rparr>)"
      using watch_inv_wire [OF a None]
      by (simp add: watch_inv_def settled_tasks_def stopping_def unwireStatus_def touch_def say_def)
    then show ?thesis using None Some
      by (simp add: open_session_def Let_def watch_inv_handleStatus watch_inv_spawn)
  qed
qed

lemma watch_inv_connect_failed: "watch_inv s \<Longrightarrow> watch_inv (connect_failed d p pr s)"
  using watch_inv_evict [of s d p] by (simp add: connect_failed_def evict_session_def Let_def)

lemma watch_inv_reconnect: "watch_inv s \<Longrightarrow> watch_inv (reconnect d now init p s)"
  using watch_inv_evict [of s d p]
  by (auto simp: reconnect_def evict_session_def Let_def watch_inv_open watch_inv_spawn split: option.splits)

lemma close_session_evict:
  "sess s p = Some pr \<Longrightarrow> close_session d p detail s =
     (let s1 = (evict_session d p (if detail \<and> listening s then say (OnStatus p Disconnected) s else s))
            \<lparr>activityAt := (activityAt s)(p := None)\<rparr>;
          s2 = (if activeId s = Some p then say (PersistActive None) (s1\<lparr>activeId := None\<rparr>) else s1)
      in say (DisconnectProvider pr) s2)"
  by (simp add: close_session_def evict_session_def unwireStatus_def Let_def say_def)

lemma watch_inv_close: "watch_inv s \<Longrightarrow> watch_inv (close_session d p detail s)"
proof (cases "sess s p")
  case (Some pr)
  assume "watch_inv s"
  then show ?thesis unfolding close_session_evict [OF Some] Let_def by (simp add: watch_inv_evict)
qed (simp add: close_session_def)

lemma watch_inv_setActiveWorktree: "watch_inv s \<Longrightarrow> watch_inv (setActiveWorktree p path s)"
  by (simp add: setActiveWorktree_def Let_def watch_inv_spawn watch_inv_stopWorktreeWatch split: option.splits)

lemma watch_inv_worktree_subscribe: "watch_inv s \<Longrightarrow> watch_inv (worktree_subscribe d p new seq s)"
  by (simp add: worktree_subscribe_def watch_inv_spawn split: option.splits)

lemma watch_inv_granted:
  assumes "watch_inv s"
  shows "watch_inv (unsubscribe (nextSub s) (snd (granted pr s)))"
    and "sess s p = Some pr \<Longrightarrow> watch_inv ((snd (granted pr s))\<lparr>watchSubs := omap_set p (nextSub s) (watchSubs s)\<rparr>)"
    and "sess s p = Some pr \<Longrightarrow>
      watch_inv ((snd (granted pr s))\<lparr>worktreeWatchSubs := omap_set p (w, nextSub s) (worktreeWatchSubs s)\<rparr>)"
  using assms core_grant [of "sess s" "watch s" "worktree s" "stopping s" "subOwner s" "live s" "nextSub s" "nextProv s"]
  by (simp_all add: watch_inv_def granted_def omap_get_set settled_fields stopping_fields)
    (simp_all add: settled_tasks_def stopping_def)

lemma watch_inv_watch_subscribed: "watch_inv s \<Longrightarrow> watch_inv (watch_subscribed p pr s)"
  using watch_inv_granted [of s] by (simp add: watch_subscribed_def granted_def)

lemma watch_inv_worktree_subscribed: "watch_inv s \<Longrightarrow> watch_inv (worktree_subscribed p pr path seq s)"
  using watch_inv_granted [of s] by (simp add: worktree_subscribed_def granted_def)

lemma frame_handleStatus [simp]:
  "sessions (handleStatus d p st s) = sessions s" "statusOff (handleStatus d p st s) = statusOff s"
  "lastState (handleStatus d p st s) = (lastState s)(p \<mapsto> st)" "provStatus (handleStatus d p st s) = provStatus s"
  "activeId (handleStatus d p st s) = activeId s" "provKind (handleStatus d p st s) = provKind s"
  "nextProv (handleStatus d p st s) = nextProv s"
  by (auto simp: handleStatus_def Let_def startWatch_def session_defs split: option.splits)

lemma watch_inv_rewire:
  "watch_inv s \<Longrightarrow> (\<And>p pr. (p, pr) \<in> set ps \<Longrightarrow> sess s p = Some pr) \<Longrightarrow> watch_inv (rewire_all d ps s)"
proof (induction ps arbitrary: s)
  case (Cons q ps)
  obtain p pr where q: "q = (p, pr)" by (cases q)
  let ?s = "(unwireStatus p s)\<lparr>statusOff := omap_set p pr (statusOff (unwireStatus p s))\<rparr>"
  have "sess s p = Some pr" using Cons.prems(2) q by simp
  then have "(sess s)(p \<mapsto> pr) = sess s" by auto
  then have "watch_inv ?s"
    using Cons.prems(1)
    by (simp add: watch_inv_def unwireStatus_def omap_get_set omap_get_del settled_fields stopping_fields)
  then have "watch_inv (handleStatus d p (provStatus ?s pr) ?s)" by (rule watch_inv_handleStatus)
  then show ?case unfolding q rewire_all.simps Let_def
    by (rule Cons.IH) (use Cons.prems(2) in \<open>simp add: unwireStatus_def\<close>)
qed simp

lemma watch_inv_sweep: "watch_inv s \<Longrightarrow> watch_inv (sweep_from d at threshold ps s)"
  by (induction ps) (simp_all add: watch_inv_spawn watch_inv_close)

lemma watch_inv_statuses: "watch_inv s \<Longrightarrow> watch_inv (foldl (\<lambda>t (p, _). handleStatus d p st t) s ps)"
  by (induction ps arbitrary: s) (auto simp: watch_inv_handleStatus)

lemma task_removed:
  assumes "settled_tasks s" "map_of (tasks s) t = Some k"
  shows "stopping s - {p. k = StoppingWatch p} \<subseteq> stopping (s\<lparr>tasks := omap_del t (tasks s)\<rparr>)"
    and "settled_tasks (s\<lparr>tasks := omap_del t (tasks s)\<rparr>)" and "not_closing k"
proof -
  show "stopping s - {p. k = StoppingWatch p} \<subseteq> stopping (s\<lparr>tasks := omap_del t (tasks s)\<rparr>)"
  proof
    fix p
    assume p: "p \<in> stopping s - {p. k = StoppingWatch p}"
    then obtain u where u: "(u, StoppingWatch p) \<in> set (tasks s)" by (auto simp: stopping_def)
    with assms have "map_of (tasks s) u = Some (StoppingWatch p)" by (simp add: settled_tasks_def)
    with assms(2) p have "u \<noteq> t" by auto
    with u show "p \<in> stopping (s\<lparr>tasks := omap_del t (tasks s)\<rparr>)"
      by (force simp: stopping_def omap_del_def)
  qed
  show "settled_tasks (s\<lparr>tasks := omap_del t (tasks s)\<rparr>)"
    using assms(1) by (auto simp: settled_tasks_def omap_distinct_del) (auto simp: omap_del_def)
  show "not_closing k" using assms map_of_SomeD [OF assms(2)] by (force simp: settled_tasks_def)
qed

lemma watch_inv_task_removed:
  assumes "watch_inv s" "map_of (tasks s) t = Some k" "\<And>p. k \<noteq> StoppingWatch p"
  shows "watch_inv (s\<lparr>tasks := omap_del t (tasks s)\<rparr>)"
proof -
  let ?s = "s\<lparr>tasks := omap_del t (tasks s)\<rparr>"
  have st: "settled_tasks s" using assms(1) by (simp add: watch_inv_def)
  from task_removed(1) [OF st assms(2)] assms(3) have "stopping s \<subseteq> stopping ?s" by auto
  with assms(1) have "core (sess s) (watch s) (worktree s) (stopping ?s) (subOwner s) (live s) (nextSub s) (nextProv s)"
    unfolding watch_inv_def by (blast intro: core_more_stopping)
  with assms(1) task_removed(2) [OF st assms(2)] show ?thesis by (simp add: watch_inv_def)
qed

lemma watch_inv_stopped:
  assumes "watch_inv s" "map_of (tasks s) t = Some (StoppingWatch p)"
  shows "watch_inv (stopWorktreeWatch p (s\<lparr>tasks := omap_del t (tasks s)\<rparr>))"
proof -
  let ?s = "s\<lparr>tasks := omap_del t (tasks s)\<rparr>"
  have st: "settled_tasks s" using assms(1) by (simp add: watch_inv_def)
  note c = task_removed [OF st assms(2)]
  have sub: "stopping s - {p} \<subseteq> stopping ?s" using c(1) by auto
  have core: "core (sess s) (watch s) (worktree s) (stopping s) (subOwner s) (live s) (nextSub s) (nextProv s)"
    using assms(1) by (simp add: watch_inv_def)
  show ?thesis
  proof (cases "worktree s p")
    case None
    from core_less_stopping [OF core None sub] assms(1) c(2) None show ?thesis
      by (simp add: stopWorktreeWatch_def watch_inv_def)
  next
    case (Some wx)
    obtain w x where wx: "wx = (w, x)" by (cases wx)
    from core_drop_worktree [OF core Some [unfolded wx] sub] assms(1) c(2) Some wx show ?thesis
      by (simp add: stopWorktreeWatch_def watch_inv_def settled_fields stopping_fields omap_get_del)
  qed
qed

lemma watch_inv_resume: "watch_inv s \<Longrightarrow> watch_inv (resume d now init t ok s)"
proof (cases "map_of (tasks s) t")
  case None
  then show "watch_inv s \<Longrightarrow> ?thesis" by (simp add: resume_def)
next
  case (Some k)
  assume a: "watch_inv s"
  then have n: "not_closing k" using task_removed(3) [OF _ Some] by (simp add: watch_inv_def)
  show ?thesis
  proof (cases k)
    case (StoppingWatch p)
    with watch_inv_stopped [OF a] Some show ?thesis by (simp add: resume_def)
  qed (use n a Some watch_inv_task_removed [OF a Some] in \<open>auto simp: resume_def Let_def watch_inv_watch_subscribed
      watch_inv_worktree_subscribe watch_inv_worktree_subscribed watch_inv_spawn watch_inv_connect_failed
      watch_inv_open watch_inv_sweep opened_def split: option.splits\<close>)
qed

section \<open>The status the manager has seen last\<close>

definition status_inv :: "session_manager \<Rightarrow> bool" where
  "status_inv s \<longleftrightarrow> distinct (map fst (sessions s)) \<and> distinct (map fst (statusOff s))
     \<and> map_of (statusOff s) = sess s \<and> (\<forall>p pr. sess s p = Some pr \<longrightarrow> pr < nextProv s)
     \<and> lastState s = (\<lambda>p. map_option (provStatus s) (sess s p))"

text \<open>Operations that touch none of what \<open>status_inv\<close> speaks of.\<close>

definition same_status :: "session_manager \<Rightarrow> session_manager \<Rightarrow> bool" where
  "same_status s s' \<longleftrightarrow> sessions s' = sessions s \<and> statusOff s' = statusOff s \<and> lastState s' = lastState s
     \<and> provStatus s' = provStatus s \<and> nextProv s' = nextProv s"

lemma status_inv_same: "same_status s s' \<Longrightarrow> status_inv s' = status_inv s"
  by (simp add: same_status_def status_inv_def)

lemma same_status_simps [simp]:
  "same_status s s" "same_status s (say e s)" "same_status s (spawn k s)" "same_status s (stopWorktreeWatch p s)"
  "same_status s (stopWatch p s)" "same_status s (s\<lparr>tasks := ts\<rparr>)" "same_status s (unsubscribe x s)"
  "same_status s (snd (granted pr s))" "same_status s (s\<lparr>callbackStarts := c\<rparr>)"
  by (simp_all add: same_status_def say_def spawn_def unsubscribe_def granted_def)

lemma same_status_trans: "same_status s t \<Longrightarrow> same_status t u \<Longrightarrow> same_status s u"
  by (simp add: same_status_def)

lemma evict_fields [simp]:
  "sessions (evict_session d p s) = omap_del p (sessions s)" "statusOff (evict_session d p s) = omap_del p (statusOff s)"
  "lastState (evict_session d p s) = (lastState s)(p := None)" "provStatus (evict_session d p s) = provStatus s"
  "nextProv (evict_session d p s) = nextProv s" "watch (evict_session d p s) = (watch s)(p := None)"
  "activeId (evict_session d p s) = activeId s" "provKind (evict_session d p s) = provKind s"
  by (simp_all add: evict_session_def unwireStatus_def Let_def)

lemma status_inv_evict: "status_inv s \<Longrightarrow> status_inv (evict_session d p s)"
  by (auto simp: status_inv_def omap_distinct_del omap_get_del fun_eq_iff)

lemma status_inv_open: "status_inv s \<Longrightarrow> status_inv (open_session d now init p act s)"
proof -
  assume a: "status_inv s"
  show ?thesis
  proof (cases "sess s p")
    case (Some pr)
    with a show ?thesis by (simp add: open_session_def status_inv_same [OF same_status_simps(3)])
  next
    case none: None
    show ?thesis
    proof (cases "loadSpec d p")
      case None
      with a none show ?thesis by (simp add: open_session_def status_inv_same [OF same_status_simps(2)])
    next
      case (Some sp)
      have "\<forall>p pr. sess s p = Some pr \<longrightarrow> pr < nextProv s" using a unfolding status_inv_def by blast
      then have "sess s q \<noteq> Some (nextProv s)" for q by blast
      then have "map_option (\<lambda>x. if x = nextProv s then init else provStatus s x) (sess s q)
          = map_option (provStatus s) (sess s q)" for q by (cases "sess s q") auto
      note fresh = this
      from a none Some show ?thesis
        by (auto simp: open_session_def Let_def status_inv_def say_def spawn_def touch_def unwireStatus_def
            omap_distinct_set omap_distinct_del omap_get_set omap_get_del fun_eq_iff fresh fun_upd_def less_Suc_eq)
    qed
  qed
qed

lemma status_inv_connect_failed: "status_inv s \<Longrightarrow> status_inv (connect_failed d p pr s)"
  using status_inv_evict [of s d p]
  by (simp add: connect_failed_def evict_session_def Let_def status_inv_same [OF same_status_simps(2)])

lemma status_inv_reconnect: "status_inv s \<Longrightarrow> status_inv (reconnect d now init p s)"
  using status_inv_evict [of s d p] status_inv_open
  by (auto simp: reconnect_def evict_session_def Let_def status_inv_same [OF same_status_simps(2)]
      status_inv_same [OF same_status_simps(3)] split: option.splits)

lemma status_inv_close: "status_inv s \<Longrightarrow> status_inv (close_session d p detail s)"
proof (cases "sess s p")
  case (Some pr)
  assume a: "status_inv s"
  let ?s = "if detail \<and> listening s then say (OnStatus p Disconnected) s else s"
  have "status_inv ?s" using a status_inv_same [OF same_status_simps(2)] by simp
  then have "status_inv (evict_session d p ?s)" by (rule status_inv_evict)
  then show ?thesis unfolding close_session_evict [OF Some] Let_def
    by (simp add: status_inv_def say_def)
qed (simp add: close_session_def)

lemma status_inv_sweep: "status_inv s \<Longrightarrow> status_inv (sweep_from d at threshold ps s)"
  by (induction ps) (simp_all add: status_inv_close status_inv_same [OF same_status_simps(3)])

lemma same_status_setActiveWorktree [simp]: "same_status s (setActiveWorktree p path s)"
  by (auto simp: setActiveWorktree_def Let_def same_status_def spawn_def)

lemma same_status_worktree_subscribe [simp]: "same_status s (worktree_subscribe d p new seq s)"
  by (auto simp: worktree_subscribe_def same_status_def spawn_def say_def split: option.splits)

lemma same_status_subscribed [simp]:
  "same_status s (worktree_subscribed p pr path seq s)" "same_status s (watch_subscribed p pr s)"
  by (auto simp: worktree_subscribed_def watch_subscribed_def granted_def Let_def same_status_def unsubscribe_def say_def)

lemma status_inv_rewire:
  "status_inv s \<Longrightarrow> (\<And>p pr. (p, pr) \<in> set ps \<Longrightarrow> sess s p = Some pr) \<Longrightarrow> status_inv (rewire_all d ps s)"
proof (induction ps arbitrary: s)
  case (Cons q ps)
  obtain p pr where q: "q = (p, pr)" by (cases q)
  let ?s = "(unwireStatus p s)\<lparr>statusOff := omap_set p pr (statusOff (unwireStatus p s))\<rparr>"
  have m: "sess s p = Some pr" using Cons.prems(2) q by simp
  then have "(sess s)(p \<mapsto> pr) = sess s" by auto
  then have "status_inv (handleStatus d p (provStatus ?s pr) ?s)"
    using Cons.prems(1) m
    by (auto simp: status_inv_def unwireStatus_def omap_get_set omap_get_del omap_distinct_set omap_distinct_del fun_eq_iff)
  then show ?case unfolding q rewire_all.simps Let_def
    by (rule Cons.IH) (use Cons.prems(2) in \<open>simp add: unwireStatus_def\<close>)
qed simp

lemma statuses_fields:
  "sessions (foldl (\<lambda>t (p, _). handleStatus d p st t) s ps) = sessions s"
  "statusOff (foldl (\<lambda>t (p, _). handleStatus d p st t) s ps) = statusOff s"
  "provStatus (foldl (\<lambda>t (p, _). handleStatus d p st t) s ps) = provStatus s"
  "nextProv (foldl (\<lambda>t (p, _). handleStatus d p st t) s ps) = nextProv s"
  "lastState (foldl (\<lambda>t (p, _). handleStatus d p st t) s ps)
     = (\<lambda>q. if q \<in> fst ` set ps then Some st else lastState s q)"
  by (induction ps arbitrary: s) (auto simp: fun_eq_iff)

lemma status_inv_provider: "status_inv s \<Longrightarrow> status_inv (provider_status d pr st s)"
proof -
  assume a: "status_inv s"
  have "p \<in> fst ` set (filter (\<lambda>(_, q). q = pr) (statusOff s)) \<longleftrightarrow> sess s p = Some pr" for p
  proof -
    have m: "map_of (statusOff s) = sess s" "distinct (map fst (statusOff s))" using a unfolding status_inv_def by blast+
    from map_of_eq_Some_iff [OF m(2), of p pr] show ?thesis unfolding m(1) by force
  qed
  then show ?thesis using a
    by (auto simp: provider_status_def status_inv_def statuses_fields fun_eq_iff map_option_case split: option.splits)
qed

lemma status_inv_resume: "status_inv s \<Longrightarrow> settled_tasks s \<Longrightarrow> status_inv (resume d now init t ok s)"
proof (cases "map_of (tasks s) t")
  case (Some k)
  assume a: "status_inv s" "settled_tasks s"
  let ?s = "s\<lparr>tasks := omap_del t (tasks s)\<rparr>"
  have s0: "status_inv ?s" using a(1) status_inv_same [OF same_status_simps(6)] by simp
  have same: "status_inv s'" if "same_status ?s s'" for s' using s0 status_inv_same [OF that] by simp
  have n: "not_closing k" by (rule task_removed(3) [OF a(2) Some])
  show ?thesis
  proof (cases k)
    case (AwaitReady p pr act w)
    have "same_status ?s (opened p pr act ?s)" by (simp add: opened_def same_status_def say_def)
    with same a(1) Some AwaitReady show ?thesis by (auto simp: resume_def Let_def split: option.splits)
  qed (use n Some same a(1) s0 in \<open>auto simp: resume_def Let_def status_inv_connect_failed status_inv_open
      status_inv_sweep same [OF same_status_subscribed(1)] same [OF same_status_subscribed(2)]
      same [OF same_status_worktree_subscribe] same [OF same_status_simps(3)] same [OF same_status_simps(4)]
      same [OF same_status_simps(9)] simp del: same_status_simps(1)\<close>)
qed (simp add: resume_def)

definition session_inv :: "session_manager \<Rightarrow> bool" where
  "session_inv s \<longleftrightarrow> watch_inv s \<and> status_inv s"

lemma session_inv_new: "session_inv new_sessions"
  by (simp add: session_inv_def watch_inv_def status_inv_def new_sessions_def core_def settled_tasks_def)

lemma session_inv_step: "session_inv s \<Longrightarrow> ev \<noteq> CloseAll \<Longrightarrow> session_inv (session_step d now init ev s)"
proof -
  assume inv: "session_inv s" and ne: "ev \<noteq> CloseAll"
  then have w: "watch_inv s" and st: "status_inv s" and t: "settled_tasks s"
    by (simp_all add: session_inv_def watch_inv_def)
  show ?thesis
  proof (cases ev)
    case SetStatusListener
    have "sess s p = Some pr" if "(p, pr) \<in> set (sessions s)" for p pr
      using st that by (simp add: status_inv_def)
    with w st show ?thesis
      by (simp add: SetStatusListener session_inv_def setStatusListener_def watch_inv_rewire)
        (rule status_inv_rewire, simp_all add: status_inv_def)
  next
    case (Status pr x)
    with w st show ?thesis
      by (simp add: session_inv_def status_inv_provider) (simp add: provider_status_def watch_inv_statuses)
  next
    case (Disconnect p)
    with w st status_inv_same [OF same_status_simps(2)] show ?thesis
      by (simp add: session_inv_def disconnect_session_def split: option.splits)
  next
    case (Touch p)
    with w st show ?thesis by (simp add: session_inv_def touch_def status_inv_def)
  next
    case (SetActiveWorktree p path)
    with w st status_inv_same [OF same_status_setActiveWorktree] show ?thesis
      by (simp add: session_inv_def watch_inv_setActiveWorktree)
  qed (use w st t ne in \<open>simp_all add: session_inv_def watch_inv_open status_inv_open watch_inv_reconnect
      status_inv_reconnect watch_inv_close status_inv_close watch_inv_resume status_inv_resume
      sweepIdleSessions_def watch_inv_sweep status_inv_sweep\<close>)
qed

lemma session_inv_run:
  "session_inv s \<Longrightarrow> list_all (\<lambda>(_, _, ev). ev \<noteq> CloseAll) evs \<Longrightarrow> session_inv (session_run d evs s)"
  unfolding session_run_def
  by (induction evs arbitrary: s) (auto simp: session_inv_step)

section \<open>Closing and sweeping\<close>

lemma close_session_fields:
  assumes "sess s p = Some pr"
  shows "sess (close_session d p detail s) = (sess s)(p := None)"
    and "activeId (close_session d p detail s) = (if activeId s = Some p then None else activeId s)"
  unfolding close_session_evict [OF assms] Let_def by (auto simp: omap_get_del say_def)

lemma reapableD:
  "reapable at th p s \<Longrightarrow> activeId s \<noteq> Some p \<and> th < at - (case activityAt s p of None \<Rightarrow> 0 | Some a \<Rightarrow> a)
     \<and> (\<exists>pr. sess s p = Some pr \<and> provKind s pr = RemoteKind \<and> provStatus s pr = Connected)"
  by (cases "sess s p") (auto simp: reapable_def)

lemma sweep_from_closes:
  "sess (sweep_from d at th ps s) = sess s \<and> activeId (sweep_from d at th ps s) = activeId s
   \<or> (\<exists>p. reapable at th p s \<and> sess (sweep_from d at th ps s) = (sess s)(p := None)
        \<and> activeId (sweep_from d at th ps s) = activeId s)"
proof (induction ps)
  case (Cons p ps)
  show ?case
  proof (cases "reapable at th p s")
    case True
    then obtain pr where "sess s p = Some pr" by (auto simp: reapable_def split: option.splits)
    from close_session_fields [OF this, of d True] True show ?thesis
      by (auto simp: spawn_def reapable_def)
  next
    case False
    with Cons show ?thesis by simp
  qed
qed simp

lemma reapable_tasks [simp]: "reapable at th p (s\<lparr>tasks := ts\<rparr>) = reapable at th p s"
  by (simp add: reapable_def split: option.split)



section \<open>Overlapping operations that the code does not expect\<close>

definition remote_deps :: session_deps where
  "remote_deps = \<lparr>loadSpec = (\<lambda>_. Some \<lparr>specKind = RemoteKind, specRoot = ''/r''\<rparr>), hasCallback = False\<rparr>"

lemma stale_failure_evicts_successor:
  "let s = session_run remote_deps [(0, Connecting, Open ''p''), (1, Connecting, Reconnect ''p''),
      (2, Connecting, Resume 1 True), (3, Connecting, Resume 0 False)] new_sessions
   in sess s ''p'' = None \<and> CreateProvider ''p'' 1 \<in> set (effects s)
      \<and> DisconnectProvider 1 \<notin> set (effects s)"
  by (simp add: session_run_def open_session_def reconnect_def resume_def connect_failed_def remote_deps_def
      new_sessions_def Let_def spawn_def say_def touch_def unwireStatus_def handleStatus_def notifyEviction_def
      stopCallback_def stopWatch_def stopWorktreeWatch_def omap_set_def omap_del_def)

lemma flapping_status_leaks_watch:
  "let s = session_run remote_deps [(0, Connecting, Open ''p''), (1, Connecting, Status 0 Connected),
      (2, Connecting, Status 0 Disconnected), (3, Connecting, Status 0 Connected),
      (4, Connecting, Resume 1 True), (5, Connecting, Resume 3 True), (6, Connecting, Close ''p'' False)] new_sessions
   in sessions s = [] \<and> live s = {0}"
  by (simp add: session_run_def open_session_def resume_def close_session_def remote_deps_def provider_status_def
      new_sessions_def Let_def spawn_def say_def touch_def unwireStatus_def handleStatus_def notifyEviction_def
      trackCallbackStart_def startCallback_def startWatch_def watch_subscribed_def granted_def unsubscribe_def
      stopCallback_def stopWatch_def stopWorktreeWatch_def omap_set_def omap_del_def)

section \<open>Properties\<close>

text \<open>
  C16. Sessions stay consistent: over any calls, provider reports and completions in any order
  (the application's shutdown apart), every session has its own provider and exactly the
  sessions' providers are listened to; the last state on record is the provider's; every
  registered watch is still served, belongs to the provider of its own project's session (a
  worktree watch may await the teardown of a session that ended), and none is registered
  twice.
\<close>

theorem sessions_consistent:
  assumes "list_all (\<lambda>(_, _, ev). ev \<noteq> CloseAll) evs" "s = session_run d evs new_sessions"
  shows "map_of (statusOff s) = map_of (sessions s)
    \<and> lastState s = (\<lambda>p. map_option (provStatus s) (map_of (sessions s) p))
    \<and> (\<forall>p q pr. map_of (sessions s) p = Some pr \<longrightarrow> map_of (sessions s) q = Some pr \<longrightarrow> p = q)
    \<and> (\<forall>p x. map_of (watchSubs s) p = Some x \<longrightarrow> x \<in> live s \<and> map_of (sessions s) p = Some (subOwner s x))
    \<and> (\<forall>p w x. map_of (worktreeWatchSubs s) p = Some (w, x) \<longrightarrow> x \<in> live s
         \<and> (map_of (sessions s) p = Some (subOwner s x) \<or> StoppingWatch p \<in> snd ` set (tasks s)))
    \<and> (\<forall>p q w v x. (map_of (watchSubs s) p = Some x \<longrightarrow> map_of (watchSubs s) q = Some x \<longrightarrow> p = q)
         \<and> (map_of (worktreeWatchSubs s) p = Some (w, x) \<longrightarrow> map_of (worktreeWatchSubs s) q = Some (v, x) \<longrightarrow> p = q)
         \<and> (map_of (watchSubs s) p = Some x \<longrightarrow> map_of (worktreeWatchSubs s) q \<noteq> Some (w, x)))"
proof -
  have inv: "session_inv s" unfolding assms(2) by (rule session_inv_run [OF session_inv_new assms(1)])
  then have c: "core (sess s) (watch s) (worktree s) (stopping s) (subOwner s) (live s) (nextSub s) (nextProv s)"
    by (simp add: session_inv_def watch_inv_def)
  have st: "map_of (statusOff s) = sess s" "lastState s = (\<lambda>p. map_option (provStatus s) (sess s p))"
    using inv unfolding session_inv_def status_inv_def by blast+
  have wt: "sess s p = Some (subOwner s x) \<or> StoppingWatch p \<in> snd ` set (tasks s)"
    if "worktree s p = Some (w, x)" for p w x
    using coreD(6) [OF c that] by (auto simp: stopping_def)
  show ?thesis
    by (intro conjI allI impI) (rule st | erule wt | erule (1) coreD(2) [OF c] | erule coreD(3) [OF c]
      | erule coreD(4) [OF c] | erule coreD(5) [OF c] | erule (1) coreD(8) [OF c] | erule (1) coreD(9) [OF c]
      | erule coreD(10) [OF c])+
qed

theorem sessions_consistent_witness:
  "\<exists>pr. map_of (sessions (session_run remote_deps [(0, Connecting, Activate ''p''), (5, Connecting, Status 0 Connected)]
       new_sessions)) ''p'' = Some pr
     \<and> lastState (session_run remote_deps [(0, Connecting, Activate ''p''), (5, Connecting, Status 0 Connected)]
         new_sessions) ''p'' = Some Connected"
proof -
  let ?evs = "[(0, Connecting, Activate ''p''), (5, Connecting, Status 0 Connected)]"
  let ?s = "session_run remote_deps ?evs new_sessions"
  note defs = session_run_def open_session_def remote_deps_def provider_status_def new_sessions_def Let_def
    spawn_def say_def touch_def unwireStatus_def handleStatus_def trackCallbackStart_def startCallback_def
    startWatch_def omap_set_def omap_del_def
  have "sess ?s ''p'' = Some 0" "provStatus ?s 0 = Connected" by (simp_all add: defs)
  with sessions_consistent [of ?evs ?s remote_deps] show ?thesis by simp
qed



text \<open>
  The idle reaper is careful: one step of a sweep, at its start or after the close it
  awaited, ends at most one session, and only one that is not the active project, is remote,
  is connected at that moment, and has been idle for longer than the threshold; the active
  project stays.
\<close>

theorem reaper_spares:
  assumes "(ev = Sweep m \<and> at = now \<and> th = m * 60000)
    \<or> (\<exists>t ok ids. ev = Resume t ok \<and> map_of (tasks s) t = Some (Sweeping at th ids))"
    and "s' = session_step d now init ev s"
  shows "activeId s' = activeId s \<and>
    (map_of (sessions s') = map_of (sessions s)
     \<or> (\<exists>p pr. map_of (sessions s) p = Some pr \<and> map_of (sessions s') = (map_of (sessions s))(p := None)
          \<and> activeId s \<noteq> Some p \<and> provKind s pr = RemoteKind \<and> provStatus s pr = Connected
          \<and> th < at - (case activityAt s p of None \<Rightarrow> 0 | Some a \<Rightarrow> a)))"
proof -
  have reap: ?thesis if "s' = sweep_from d at th ids s0" "s0 = s \<or> (\<exists>ts. s0 = s\<lparr>tasks := ts\<rparr>)" for ids s0
  proof -
    have sw: "sess s' = sess s0 \<and> activeId s' = activeId s0
      \<or> (\<exists>p. reapable at th p s0 \<and> sess s' = (sess s0)(p := None) \<and> activeId s' = activeId s0)"
      unfolding that(1) by (rule sweep_from_closes)
    have f: "sess s0 = sess s" "activeId s0 = activeId s" "reapable at th q s0 = reapable at th q s" for q
      using that(2) by auto
    from sw show ?thesis unfolding f using reapableD [of at th _ s] by blast
  qed
  from assms(1) show ?thesis
  proof
    assume "ev = Sweep m \<and> at = now \<and> th = m * 60000"
    with assms(2) reap [of "map fst (sessions s)" s] show ?thesis by (auto simp: sweepIdleSessions_def split: if_splits)
  next
    assume "\<exists>t ok ids. ev = Resume t ok \<and> map_of (tasks s) t = Some (Sweeping at th ids)"
    then obtain t ok ids where "ev = Resume t ok" "map_of (tasks s) t = Some (Sweeping at th ids)" by blast
    with assms(2) have "s' = sweep_from d at th ids (s\<lparr>tasks := omap_del t (tasks s)\<rparr>)"
      by (simp add: resume_def)
    then show ?thesis by (rule reap) blast
  qed
qed

theorem reaper_spares_witness:
  "activeId (session_step remote_deps 600000 Connecting (Sweep 5) (new_sessions\<lparr>sessions := [(''p'', 0), (''q'', 1)],
      activeId := Some ''p'', provKind := (\<lambda>_. RemoteKind), provStatus := (\<lambda>_. Connected)\<rparr>)) = Some ''p''"
  using reaper_spares [of "Sweep 5" 5 600000 600000 "5 * 60000" "new_sessions\<lparr>sessions := [(''p'', 0), (''q'', 1)],
      activeId := Some ''p'', provKind := (\<lambda>_. RemoteKind), provStatus := (\<lambda>_. Connected)\<rparr>"
      _ remote_deps Connecting]
  by simp

end
