(* ===== verification/RpcClient.thy ===== *)
theory RpcClient
  imports WireFrame CallbackProtocol "HOL-Library.Multiset"
begin

text \<open>
  The RPC client of the remote helper, \<open>providers/remote/rpcClient.ts\<close>: requests with
  incrementing ids, responses correlated by id, server-push events, and the end of the stream.

  Every promise has a token that its caller chose; an operation returns the settlements and
  handler calls it causes, in order. \<open>JSON.stringify\<close> and \<open>JSON.parse\<close> (with the UTF-8
  coding) are the arguments \<open>ser\<close> and \<open>parse\<close>. A handler is a number; handlers do not
  call back into the client while it delivers to them. \<open>Uncaught\<close> is a \<open>TypeError\<close> that
  leaves the stream's data listener: the messages after it in the chunk are lost.
\<close>

definition PROTOCOL_VERSION :: nat where "PROTOCOL_VERSION = 2"
definition MAX_MESSAGE_BYTES :: nat where "MAX_MESSAGE_BYTES = 16 * 1048576"

text \<open>\<open>HelperRpcError\<close>: the helper's own error value or a message of the transport, and the method.\<close>

datatype rpc_reason = HelperSaid json | TransportSaid string

datatype rpc_out =
    WriteFrame bytes
  | Resolve nat json
  | Reject nat rpc_reason string
  | CallWatch nat json
  | CallEvent nat json
  | Uncaught

record rpc_client =
  decoder :: frame_decoder
  pending :: "(nat \<times> nat \<times> string) list"
  watchHandlers :: "(string \<times> nat) list"
  eventHandlers :: "(string \<times> nat list) list"
  nextId :: nat
  closed :: bool

definition new_client :: rpc_client where
  "new_client = \<lparr>decoder = new_FrameDecoder MAX_MESSAGE_BYTES, pending = [], watchHandlers = [],
     eventHandlers = [], nextId = 1, closed = False\<rparr>"

fun frame_message :: "frame_error \<Rightarrow> string" where
  "frame_message (TooLarge n) = ''frame too large: '' @ showNat n @ '' bytes''"
| "frame_message (Malformed m) = m"

definition isClosed :: "rpc_client \<Rightarrow> bool" where
  "isClosed c = closed c"

definition failAll :: "string \<Rightarrow> rpc_client \<Rightarrow> rpc_out list \<times> rpc_client" where
  "failAll reason c =
     (if closed c then ([], c)
      else (map (\<lambda>(_, tok, meth). Reject tok (TransportSaid reason) meth) (pending c),
            c\<lparr>closed := True, pending := []\<rparr>))"

definition emitEvent :: "string \<Rightarrow> json \<Rightarrow> rpc_client \<Rightarrow> rpc_out list" where
  "emitEvent ev data c =
     (case map_of (eventHandlers c) ev of None \<Rightarrow> [] | Some hs \<Rightarrow> map (\<lambda>h. CallEvent h data) hs)"

text \<open>\<open>data.token\<close> as a property read: it throws on \<open>null\<close> and \<open>undefined\<close>.\<close>

fun token_of :: "json \<Rightarrow> json option" where
  "token_of JUndef = None"
| "token_of JNull = None"
| "token_of (JObj r) = Some (jget r ''token'')"
| "token_of _ = Some JUndef"

definition watch_call :: "json \<Rightarrow> json \<Rightarrow> rpc_client \<Rightarrow> rpc_out list" where
  "watch_call tok data c =
     (case tok of JStr t \<Rightarrow> (case map_of (watchHandlers c) t of None \<Rightarrow> [] | Some h \<Rightarrow> [CallWatch h data])
      | _ \<Rightarrow> [])"

definition get_pending :: "rat \<Rightarrow> rpc_client \<Rightarrow> (nat \<times> nat \<times> string) option" where
  "get_pending i c = List.find (\<lambda>(k, _). of_nat k = i) (pending c)"

definition answer :: "(string \<times> json) list \<Rightarrow> rat \<Rightarrow> rpc_client \<Rightarrow> rpc_out list \<times> rpc_client" where
  "answer r i c =
     (case get_pending i c of
        None \<Rightarrow> ([], c)
      | Some (k, tok, meth) \<Rightarrow>
          ([if jget r ''error'' \<noteq> JNull \<and> jget r ''error'' \<noteq> JUndef
            then Reject tok (HelperSaid (jget r ''error'')) meth
            else Resolve tok (jget r ''result'')],
           c\<lparr>pending := omap_del k (pending c)\<rparr>))"

text \<open>\<open>dispatch\<close>: \<open>None\<close> when it throws.\<close>

definition dispatch :: "json \<Rightarrow> rpc_client \<Rightarrow> (rpc_out list \<times> rpc_client) option" where
  "dispatch msg c =
     (case msg of
        JObj r \<Rightarrow>
          (case jget r ''event'' of
             JStr ev \<Rightarrow>
               (if ev = ''watch'' then
                  (case token_of (jget r ''data'') of
                     None \<Rightarrow> None
                   | Some tok \<Rightarrow> Some (watch_call tok (jget r ''data'') c @ emitEvent ev (jget r ''data'') c, c))
                else Some (emitEvent ev (jget r ''data'') c, c))
           | _ \<Rightarrow> (case jget r ''id'' of JNum i \<Rightarrow> Some (answer r i c) | _ \<Rightarrow> Some ([], c)))
      | _ \<Rightarrow> Some ([], c))"

fun dispatch_all :: "json list \<Rightarrow> rpc_client \<Rightarrow> rpc_out list \<times> rpc_client" where
  "dispatch_all [] c = ([], c)"
| "dispatch_all (m # ms) c =
     (case dispatch m c of
        None \<Rightarrow> ([Uncaught], c)
      | Some (o1, c1) \<Rightarrow> (let (o2, c2) = dispatch_all ms c1 in (o1 @ o2, c2)))"

definition onData :: "(bytes \<Rightarrow> string + json) \<Rightarrow> bytes \<Rightarrow> rpc_client \<Rightarrow> rpc_out list \<times> rpc_client" where
  "onData parse chunk c =
     (case push parse (decoder c) chunk of
        None \<Rightarrow> ([], c)
      | Some (Inl e, d) \<Rightarrow> failAll (frame_message e) (c\<lparr>decoder := d\<rparr>)
      | Some (Inr msgs, d) \<Rightarrow> dispatch_all msgs (c\<lparr>decoder := d\<rparr>))"

text \<open>\<open>werr\<close> is the message of an exception of \<open>stdin.write\<close>, when it throws.\<close>

definition request :: "nat \<Rightarrow> string \<Rightarrow> (string \<times> json) list \<Rightarrow> json" where
  "request i meth params =
     JObj [(''id'', JNum (of_nat i)), (''method'', JStr meth), (''params'', JObj params)]"

definition call :: "(json \<Rightarrow> bytes option) \<Rightarrow> nat \<Rightarrow> string option \<Rightarrow> string \<Rightarrow> (string \<times> json) list
    \<Rightarrow> rpc_client \<Rightarrow> rpc_out list \<times> rpc_client" where
  "call ser tok werr meth params c =
     (if closed c then ([Reject tok (TransportSaid ''helper stream is closed'') meth], c)
      else
        let i = nextId c;
            c1 = c\<lparr>nextId := i + 1, pending := omap_set i (tok, meth) (pending c)\<rparr>;
            c0 = c\<lparr>nextId := i + 1, pending := omap_del i (omap_set i (tok, meth) (pending c))\<rparr>
        in case encodeFrame ser (request i meth params) MAX_MESSAGE_BYTES of
             Inl e \<Rightarrow> ([Reject tok (TransportSaid (frame_message e)) meth], c0)
           | Inr f \<Rightarrow>
               (case werr of
                  None \<Rightarrow> ([WriteFrame f], c1)
                | Some m \<Rightarrow> ([Reject tok (TransportSaid m) meth], c0)))"

definition onEvent :: "string \<Rightarrow> nat \<Rightarrow> rpc_client \<Rightarrow> rpc_client" where
  "onEvent ev h c =
     c\<lparr>eventHandlers := omap_set ev
         (oset_add h (case map_of (eventHandlers c) ev of None \<Rightarrow> [] | Some hs \<Rightarrow> hs)) (eventHandlers c)\<rparr>"

definition offEvent :: "string \<Rightarrow> nat \<Rightarrow> rpc_client \<Rightarrow> rpc_client" where
  "offEvent ev h c =
     (case map_of (eventHandlers c) ev of
        None \<Rightarrow> c
      | Some hs \<Rightarrow>
          (let hs' = filter (\<lambda>x. x \<noteq> h) hs
           in c\<lparr>eventHandlers := (if hs' = [] then omap_del ev (eventHandlers c)
                else omap_set ev hs' (eventHandlers c))\<rparr>))"

section \<open>The typed methods\<close>

definition opt_str :: "string option \<Rightarrow> json" where
  "opt_str v = (case v of None \<Rightarrow> JUndef | Some s \<Rightarrow> JStr s)"

definition opt_num :: "nat option \<Rightarrow> json" where
  "opt_num v = (case v of None \<Rightarrow> JUndef | Some n \<Rightarrow> JNum (of_nat n))"

datatype helper_call =
    Handshake "string option"
  | CallbackReplyTo nat json
  | ReadFile string "string option" "string option" "string option" "nat option"
  | ReadFileBytes string string string
  | Stat string
  | GitStatus string "string option"
  | GitDiff string string "string option"
  | GetDiffBundle string string "string option"
  | GitBranchPoint string
  | ListWorktrees string
  | BeadsExec string "string list"
  | ListDir string string "string option"

fun helper_request :: "helper_call \<Rightarrow> string \<times> (string \<times> json) list" where
  "helper_request (Handshake pid) = (''handshake'', (''protocolVersion'', JNum (of_nat PROTOCOL_VERSION)) #
     (case pid of None \<Rightarrow> [] | Some p \<Rightarrow> if p = [] then [] else [(''projectId'', JStr p)]))"
| "helper_request (CallbackReplyTo conn reply) =
     (''callback.reply'', [(''connId'', JNum (of_nat conn)), (''reply'', reply)])"
| "helper_request (ReadFile path ref cwd wt mx) =
     (''readFile'', [(''path'', JStr path), (''ref'', opt_str ref), (''cwd'', opt_str cwd),
        (''worktreePath'', opt_str wt), (''maxBytes'', opt_num mx)])"
| "helper_request (ReadFileBytes path ref cwd) =
     (''readFileBytes'', [(''path'', JStr path), (''ref'', JStr ref), (''cwd'', JStr cwd)])"
| "helper_request (Stat path) = (''stat'', [(''path'', JStr path)])"
| "helper_request (GitStatus cwd b) = (''gitStatus'', (''cwd'', JStr cwd) #
     (case b of None \<Rightarrow> [] | Some s \<Rightarrow> [(''baseline'', JStr s)]))"
| "helper_request (GitDiff cwd path b) = (''gitDiff'', (''cwd'', JStr cwd) # (''path'', JStr path) #
     (case b of None \<Rightarrow> [] | Some s \<Rightarrow> [(''baseline'', JStr s)]))"
| "helper_request (GetDiffBundle cwd path b) = (''getDiffBundle'', (''cwd'', JStr cwd) # (''path'', JStr path) #
     (case b of None \<Rightarrow> [] | Some s \<Rightarrow> [(''baseline'', JStr s)]))"
| "helper_request (GitBranchPoint cwd) = (''gitBranchPoint'', [(''cwd'', JStr cwd)])"
| "helper_request (ListWorktrees cwd) = (''listWorktrees'', [(''cwd'', JStr cwd)])"
| "helper_request (BeadsExec cwd args) =
     (''beadsExec'', [(''cwd'', JStr cwd), (''args'', JArr (map JStr args))])"
| "helper_request (ListDir dir root_dir wt) =
     (''listDir'', [(''dir'', JStr dir), (''root'', JStr root_dir), (''worktreePath'', opt_str wt)])"

definition watchSubscribe :: "(json \<Rightarrow> bytes option) \<Rightarrow> nat \<Rightarrow> string option \<Rightarrow> string \<Rightarrow> string \<Rightarrow> json \<Rightarrow> nat
    \<Rightarrow> rpc_client \<Rightarrow> rpc_out list \<times> rpc_client" where
  "watchSubscribe ser tok werr cwd wtok spec h c =
     call ser tok werr ''watch.subscribe'' [(''cwd'', JStr cwd), (''token'', JStr wtok), (''spec'', spec)]
       (c\<lparr>watchHandlers := omap_set wtok h (watchHandlers c)\<rparr>)"

definition watchUnsubscribe :: "(json \<Rightarrow> bytes option) \<Rightarrow> nat \<Rightarrow> string option \<Rightarrow> string
    \<Rightarrow> rpc_client \<Rightarrow> rpc_out list \<times> rpc_client" where
  "watchUnsubscribe ser tok werr wtok c =
     call ser tok werr ''watch.unsubscribe'' [(''token'', JStr wtok)]
       (c\<lparr>watchHandlers := omap_del wtok (watchHandlers c)\<rparr>)"

section \<open>Runs\<close>

datatype rpc_op =
    StreamData bytes
  | StreamClose
  | StreamEnd
  | StreamError string
  | Call nat "string option" helper_call
  | WatchSub nat "string option" string string json nat
  | WatchUnsub nat "string option" string
  | OnEvent string nat
  | OffEvent string nat

fun rpc_step :: "(json \<Rightarrow> bytes option) \<Rightarrow> (bytes \<Rightarrow> string + json) \<Rightarrow> rpc_op \<Rightarrow> rpc_client
    \<Rightarrow> rpc_out list \<times> rpc_client" where
  "rpc_step ser parse (StreamData chunk) c = onData parse chunk c"
| "rpc_step ser parse StreamClose c = failAll ''helper stream closed'' c"
| "rpc_step ser parse StreamEnd c = failAll ''helper stream ended'' c"
| "rpc_step ser parse (StreamError m) c = failAll (''helper stream error: '' @ m) c"
| "rpc_step ser parse (Call tok werr h) c =
     call ser tok werr (fst (helper_request h)) (snd (helper_request h)) c"
| "rpc_step ser parse (WatchSub tok werr cwd wtok spec h) c = watchSubscribe ser tok werr cwd wtok spec h c"
| "rpc_step ser parse (WatchUnsub tok werr wtok) c = watchUnsubscribe ser tok werr wtok c"
| "rpc_step ser parse (OnEvent ev h) c = ([], onEvent ev h c)"
| "rpc_step ser parse (OffEvent ev h) c = ([], offEvent ev h c)"

fun rpc_run :: "(json \<Rightarrow> bytes option) \<Rightarrow> (bytes \<Rightarrow> string + json) \<Rightarrow> rpc_op list \<Rightarrow> rpc_client
    \<Rightarrow> rpc_out list \<times> rpc_client" where
  "rpc_run ser parse [] c = ([], c)"
| "rpc_run ser parse (x # xs) c =
     (let (o1, c1) = rpc_step ser parse x c; (o2, c2) = rpc_run ser parse xs c1 in (o1 @ o2, c2))"

section \<open>Every promise settles at most once\<close>

fun settles :: "rpc_out \<Rightarrow> nat list" where
  "settles (Resolve tok _) = [tok]"
| "settles (Reject tok _ _) = [tok]"
| "settles _ = []"

definition settled :: "rpc_out list \<Rightarrow> nat list" where
  "settled os = concat (map settles os)"

fun asks :: "rpc_op \<Rightarrow> nat list" where
  "asks (Call tok _ _) = [tok]"
| "asks (WatchSub tok _ _ _ _ _) = [tok]"
| "asks (WatchUnsub tok _ _) = [tok]"
| "asks _ = []"

definition asked :: "rpc_op list \<Rightarrow> nat list" where
  "asked xs = concat (map asks xs)"

definition waiting :: "rpc_client \<Rightarrow> nat list" where
  "waiting c = map (\<lambda>(_, tok, _). tok) (pending c)"

definition rpc_inv :: "rpc_client \<Rightarrow> bool" where
  "rpc_inv c \<longleftrightarrow> distinct (map fst (pending c)) \<and> (\<forall>k\<in>fst ` set (pending c). k < nextId c)
     \<and> (closed c \<longrightarrow> pending c = []) \<and> decoder_inv MAX_MESSAGE_BYTES (decoder c)"

lemma settled_simps [simp]:
  "settled [] = []" "settled (x # xs) = settles x @ settled xs" "settled (xs @ ys) = settled xs @ settled ys"
  by (simp_all add: settled_def)

lemma settled_no_promise: "(\<And>x. x \<in> set os \<Longrightarrow> settles x = []) \<Longrightarrow> settled os = []"
  by (induction os) auto

definition accounted :: "rpc_client \<Rightarrow> nat list \<Rightarrow> rpc_out list \<times> rpc_client \<Rightarrow> bool" where
  "accounted c new r \<longleftrightarrow> rpc_inv (snd r)
     \<and> mset (settled (fst r)) + mset (waiting (snd r)) = mset (waiting c) + mset new"

lemma accountedI: "rpc_inv (snd r) \<Longrightarrow>
    mset (settled (fst r)) + mset (waiting (snd r)) = mset (waiting c) + mset new \<Longrightarrow> accounted c new r"
  by (simp add: accounted_def)

lemma failAll_accounted: "rpc_inv c \<Longrightarrow> accounted c [] (failAll reason c)"
proof (rule accountedI)
  assume inv: "rpc_inv c"
  then show "rpc_inv (snd (failAll reason c))" by (simp add: failAll_def rpc_inv_def)
  have "settled (map (\<lambda>(_, tok, meth). Reject tok r meth) ps) = map (\<lambda>(_, tok, _). tok) ps" for r
    and ps :: "(nat \<times> nat \<times> string) list" by (induction ps) auto
  then show "mset (settled (fst (failAll reason c))) + mset (waiting (snd (failAll reason c))) =
      mset (waiting c) + mset []"
    by (simp add: failAll_def waiting_def)
qed

lemma mset_omap_del:
  "distinct (map fst m) \<Longrightarrow> (k, v) \<in> set m \<Longrightarrow> mset (map f m) = add_mset (f (k, v)) (mset (map f (omap_del k m)))"
proof (induction m)
  case Nil
  then show ?case by simp
next
  case (Cons x m)
  show ?case
  proof (cases "fst x = k")
    case True
    with Cons.prems have "\<forall>y\<in>set m. fst y \<noteq> k" by (auto simp: image_iff)
    then have "omap_del k m = m" by (auto simp: omap_del_def filter_id_conv)
    moreover from True Cons.prems have "x = (k, v)" by (auto simp: image_iff)
    ultimately show ?thesis by (simp add: omap_del_def)
  next
    case False
    with Cons show ?thesis by (cases x) (auto simp: omap_del_def)
  qed
qed

lemma get_pending_in: "get_pending i c = Some (k, x) \<Longrightarrow> (k, x) \<in> set (pending c) \<and> of_nat k = i"
  by (auto simp: get_pending_def find_Some_iff) (metis nth_mem)

lemma omap_del_subset: "set (omap_del k m) \<subseteq> set m"
  by (auto simp: omap_del_def)

lemma answer_accounted:
  assumes "rpc_inv c"
  shows "accounted c [] (answer r i c)"
proof (cases "get_pending i c")
  case None
  with assms show ?thesis by (simp add: answer_def accounted_def)
next
  case (Some p)
  then obtain k tok meth where p: "p = (k, tok, meth)" by (cases p) auto
  with Some get_pending_in have "(k, tok, meth) \<in> set (pending c)" by blast
  with assms mset_omap_del [of "pending c" k "(tok, meth)" "\<lambda>(_, tok, _). tok"]
  have "mset (waiting c) = add_mset tok (mset (waiting (c\<lparr>pending := omap_del k (pending c)\<rparr>)))"
    by (simp add: waiting_def rpc_inv_def)
  moreover have "rpc_inv (c\<lparr>pending := omap_del k (pending c)\<rparr>)"
    using assms omap_del_subset [of k "pending c"] omap_distinct_del [of "pending c" k]
    by (auto simp: rpc_inv_def omap_keys_del)
  ultimately show ?thesis using Some p by (auto simp: answer_def accounted_def)
qed

lemma events_settle_nothing [simp]:
  "settled (emitEvent ev data c) = []" "settled (watch_call tok data c) = []"
  by (auto simp: emitEvent_def watch_call_def intro!: settled_no_promise split: option.splits json.splits)

lemma dispatch_accounted: "rpc_inv c \<Longrightarrow> dispatch msg c = Some r \<Longrightarrow> accounted c [] r"
proof -
  assume inv: "rpc_inv c" and d: "dispatch msg c = Some r"
  have same: "accounted c [] (os, c)" if "settled os = []" for os
    using inv that by (simp add: accounted_def)
  from d show ?thesis
    using answer_accounted [OF inv]
    by (auto simp: dispatch_def same split: json.splits option.splits if_splits)
qed

lemma dispatch_all_accounted: "rpc_inv c \<Longrightarrow> accounted c [] (dispatch_all msgs c)"
proof (induction msgs arbitrary: c)
  case Nil
  then show ?case by (simp add: accounted_def)
next
  case (Cons m ms)
  show ?case
  proof (cases "dispatch m c")
    case None
    with Cons.prems show ?thesis by (simp add: accounted_def)
  next
    case (Some r)
    with dispatch_accounted [OF Cons.prems] have r: "accounted c [] r" by simp
    then have "rpc_inv (snd r)" by (simp add: accounted_def)
    from Cons.IH [OF this] r Some show ?thesis
      by (cases r) (simp add: accounted_def split_beta Let_def ac_simps)
  qed
qed

lemma rpc_inv_decoder: "rpc_inv c \<Longrightarrow> push parse (decoder c) chunk = Some (x, d) \<Longrightarrow> rpc_inv (c\<lparr>decoder := d\<rparr>)"
  using decoder.step_inv [of MAX_MESSAGE_BYTES "decoder c" parse chunk]
  by (simp add: rpc_inv_def push_state_def)

lemma onData_accounted:
  assumes "rpc_inv c"
  shows "accounted c [] (onData parse chunk c)"
proof -
  have w: "accounted c [] r" if "accounted (c\<lparr>decoder := d\<rparr>) [] r" for r d
    using that by (simp add: accounted_def waiting_def)
  show ?thesis
  proof (cases "push parse (decoder c) chunk")
    case None
    with assms show ?thesis by (simp add: onData_def accounted_def)
  next
    case (Some r)
    then obtain x d where r: "push parse (decoder c) chunk = Some (x, d)" by (cases r) auto
    from rpc_inv_decoder [OF assms r] r show ?thesis
      by (cases x) (auto simp: onData_def intro: w failAll_accounted dispatch_all_accounted)
  qed
qed

lemma call_accounted:
  assumes "rpc_inv c"
  shows "accounted c [tok] (call ser tok werr meth params c)"
proof (cases "closed c")
  case True
  with assms show ?thesis by (simp add: call_def accounted_def)
next
  case False
  have new: "nextId c \<notin> fst ` set (pending c)" using assms by (force simp: rpc_inv_def)
  then have app: "omap_set (nextId c) (tok, meth) (pending c) = pending c @ [(nextId c, tok, meth)]"
    by (simp add: omap_set_def)
  have undo: "omap_del (nextId c) (pending c @ [(nextId c, tok, meth)]) = pending c"
    using new by (force simp: omap_del_def filter_id_conv)
  have inv1: "rpc_inv (c\<lparr>nextId := nextId c + 1, pending := pending c @ [(nextId c, tok, meth)]\<rparr>)"
    using assms False new by (auto simp: rpc_inv_def less_Suc_eq)
  have inv0: "rpc_inv (c\<lparr>nextId := nextId c + 1, pending := pending c\<rparr>)"
    using assms by (auto simp: rpc_inv_def less_Suc_eq)
  show ?thesis
    using False inv0 inv1
    by (auto simp: call_def Let_def app undo accounted_def waiting_def split: sum.splits option.splits)
qed

lemma handlers_inv: "rpc_inv c \<Longrightarrow> rpc_inv (c\<lparr>watchHandlers := w\<rparr>)" "rpc_inv c \<Longrightarrow> rpc_inv (c\<lparr>eventHandlers := e\<rparr>)"
  by (simp_all add: rpc_inv_def)

lemma step_accounted: "rpc_inv c \<Longrightarrow> accounted c (asks x) (rpc_step ser parse x c)"
proof (induction ser parse x c rule: rpc_step.induct)
  case (6 ser parse tok werr cwd wtok spec h c)
  from call_accounted [OF handlers_inv(1) [OF 6]] show ?case
    by (simp add: watchSubscribe_def accounted_def waiting_def)
next
  case (7 ser parse tok werr wtok c)
  from call_accounted [OF handlers_inv(1) [OF 7]] show ?case
    by (simp add: watchUnsubscribe_def accounted_def waiting_def)
next
  case (8 ser parse ev h c)
  then show ?case by (simp add: accounted_def onEvent_def handlers_inv waiting_def)
next
  case (9 ser parse ev h c)
  then show ?case
    by (auto simp: accounted_def offEvent_def handlers_inv waiting_def Let_def split: option.splits)
qed (auto intro: onData_accounted failAll_accounted call_accounted)

lemma run_accounted: "rpc_inv c \<Longrightarrow> accounted c (asked xs) (rpc_run ser parse xs c)"
proof (induction xs arbitrary: c)
  case Nil
  then show ?case by (simp add: accounted_def asked_def)
next
  case (Cons x xs)
  have s: "accounted c (asks x) (rpc_step ser parse x c)" by (rule step_accounted [OF Cons.prems])
  then have "rpc_inv (snd (rpc_step ser parse x c))" by (simp add: accounted_def)
  from Cons.IH [OF this] s show ?case
    by (simp add: accounted_def asked_def split_beta Let_def ac_simps)
qed

lemma rpc_inv_new: "rpc_inv new_client"
  by (simp add: rpc_inv_def new_client_def decoder_inv_def rest_inv_new)

text \<open>
  C22. Promise accounting of the helper client: after any sequence of calls, chunks of bytes
  (well-formed or not) and stream endings, every promise handed out was settled exactly once
  or is still pending with its own id, and nothing is pending once the stream is closed.
\<close>

theorem rpc_settles_once:
  "let (os, c) = rpc_run ser parse xs new_client in
     mset (settled os) + mset (waiting c) = mset (asked xs)
     \<and> distinct (map fst (pending c)) \<and> (closed c \<longrightarrow> waiting c = [])"
proof -
  have w: "waiting new_client = []" by (simp add: waiting_def new_client_def)
  from run_accounted [OF rpc_inv_new, of xs ser parse] show ?thesis
    unfolding accounted_def w rpc_inv_def by (auto simp: waiting_def split: prod.splits)
qed

theorem rpc_settles_once_witness:
  "(let (os, c) = rpc_run (\<lambda>_. Some []) (\<lambda>_. Inl ''bad'') [Call 7 None (Stat ''a''), StreamClose, Call 8 None (Stat ''b'')] new_client
    in mset (settled os) = {#7, 8#})"
proof -
  let ?r = "rpc_run (\<lambda>_. Some []) (\<lambda>_. Inl ''bad'') [Call 7 None (Stat ''a''), StreamClose, Call 8 None (Stat ''b'')] new_client"
  obtain os c where r: "?r = (os, c)" by (cases ?r)
  have "closed (snd ?r)" by (simp add: call_def failAll_def encodeFrame_def new_client_def Let_def)
  then have "closed c" unfolding r by simp
  with rpc_settles_once [of "\<lambda>_. Some []" "\<lambda>_. Inl ''bad''"
      "[Call 7 None (Stat ''a''), StreamClose, Call 8 None (Stat ''b'')]"]
  show ?thesis unfolding r by (auto simp: asked_def)
qed

section \<open>Responses reach their calls\<close>

definition response :: "nat \<Rightarrow> json \<Rightarrow> json" where
  "response i v = JObj [(''id'', JNum (of_nat i)), (''result'', v), (''error'', JNull)]"

lemma dispatch_response: "dispatch (response i v) c = Some (answer
    [(''id'', JNum (of_nat i)), (''result'', v), (''error'', JNull)] (of_nat i) c)"
  by (simp add: dispatch_def response_def jget_def)

lemma dispatch_decoder:
  "dispatch m (c\<lparr>decoder := d\<rparr>) = map_option (map_prod id (\<lambda>c. c\<lparr>decoder := d\<rparr>)) (dispatch m c)"
  by (auto simp: dispatch_def emitEvent_def watch_call_def answer_def get_pending_def
      split: json.splits option.splits)

lemma dispatch_keeps_decoder: "dispatch m c = Some (os, c') \<Longrightarrow> decoder c' = decoder c"
  by (auto simp: dispatch_def answer_def split: json.splits option.splits if_splits)

lemma dispatch_all_decoder:
  "dispatch_all ms (c\<lparr>decoder := d\<rparr>) = map_prod id (\<lambda>c. c\<lparr>decoder := d\<rparr>) (dispatch_all ms c)"
  by (induction ms arbitrary: c) (auto simp: dispatch_decoder split_beta Let_def split: option.splits)

lemma dispatch_all_keeps_decoder: "decoder (snd (dispatch_all ms c)) = decoder c"
  by (induction ms arbitrary: c)
    (auto simp: split_beta Let_def split: option.splits dest: dispatch_keeps_decoder)

lemma dispatch_all_append:
  "(\<And>m c. m \<in> set a \<Longrightarrow> dispatch m c \<noteq> None) \<Longrightarrow> dispatch_all (a @ b) c =
     (fst (dispatch_all a c) @ fst (dispatch_all b (snd (dispatch_all a c))),
      snd (dispatch_all b (snd (dispatch_all a c))))"
proof (induction a arbitrary: c)
  case Nil
  then show ?case by simp
next
  case (Cons m a)
  then have IH: "dispatch_all (a @ b) c = (fst (dispatch_all a c) @ fst (dispatch_all b (snd (dispatch_all a c))),
      snd (dispatch_all b (snd (dispatch_all a c))))" for c by simp
  from Cons.prems [of m c] obtain o1 c1 where "dispatch m c = Some (o1, c1)" by (cases "dispatch m c") auto
  then show ?case by (simp add: split_beta Let_def IH)
qed

lemma run_data:
  "run_chunks (push_ok parse) (decoder c) cs = Some (vs, d) \<Longrightarrow>
   (\<And>m c. m \<in> set vs \<Longrightarrow> dispatch m c \<noteq> None) \<Longrightarrow>
     rpc_run ser parse (map StreamData cs) c =
       (fst (dispatch_all vs c), (snd (dispatch_all vs c))\<lparr>decoder := d\<rparr>)"
proof (induction cs arbitrary: c vs)
  case Nil
  then show ?case by simp
next
  case (Cons chunk cs)
  from Cons.prems(1) obtain o1 d1 o2 where r: "push_ok parse (decoder c) chunk = Some (o1, d1)"
    "run_chunks (push_ok parse) d1 cs = Some (o2, d)" "vs = o1 @ o2"
    by (auto split: option.splits prod.splits)
  let ?c1 = "snd (dispatch_all o1 (c\<lparr>decoder := d1\<rparr>))"
  from r(1) have "push parse (decoder c) chunk = Some (Inr o1, d1)"
    by (auto simp: push_ok_def split: option.splits sum.splits)
  then have s: "rpc_step ser parse (StreamData chunk) c = dispatch_all o1 (c\<lparr>decoder := d1\<rparr>)"
    by (simp add: onData_def)
  have d1: "decoder ?c1 = d1" by (simp add: dispatch_all_keeps_decoder)
  have "rpc_run ser parse (map StreamData cs) ?c1 =
      (fst (dispatch_all o2 ?c1), (snd (dispatch_all o2 ?c1))\<lparr>decoder := d\<rparr>)"
    by (rule Cons.IH) (use r d1 Cons.prems(2) in auto)
  moreover have "dispatch_all vs c = (fst (dispatch_all o1 c) @ fst (dispatch_all o2 (snd (dispatch_all o1 c))),
      snd (dispatch_all o2 (snd (dispatch_all o1 c))))"
    unfolding r(3) by (rule dispatch_all_append) (use r(3) Cons.prems(2) in auto)
  ultimately show ?case
    using s by (simp add: split_beta Let_def dispatch_all_decoder)
qed

lemma dispatch_responses:
  assumes "distinct (map fst (pending c))" and "distinct (map fst rs)" and "fst ` set rs \<subseteq> fst ` set (pending c)"
  shows "dispatch_all (map (\<lambda>(i, v). response i v) rs) c =
    (map (\<lambda>(i, v). Resolve (fst (the (map_of (pending c) i))) v) rs,
     c\<lparr>pending := filter (\<lambda>(k, _). k \<notin> fst ` set rs) (pending c)\<rparr>)"
  using assms
proof (induction rs arbitrary: c)
  case Nil
  then show ?case by (simp add: case_prod_unfold)
next
  case (Cons r rs)
  obtain i v where r: "r = (i, v)" by (cases r)
  let ?c1 = "c\<lparr>pending := omap_del i (pending c)\<rparr>"
  from Cons.prems r obtain x where x: "(i, x) \<in> set (pending c)" by auto
  have m: "map_of (pending c) i = Some x" using x Cons.prems(1) by simp
  have "get_pending (of_nat i) c = Some (i, x)"
  proof -
    have "List.find (\<lambda>(k, _). (of_nat k :: rat) = of_nat i) m = map_option (\<lambda>y. (i, y)) (map_of m i)"
      for m :: "(nat \<times> nat \<times> string) list" by (induction m) auto
    with m show ?thesis by (simp add: get_pending_def)
  qed
  then have d: "dispatch (response i v) c = Some ([Resolve (fst x) v], ?c1)"
    by (cases x) (simp add: dispatch_response answer_def jget_def)
  have other: "map_of (omap_del i (pending c)) j = map_of (pending c) j" if "j \<noteq> i" for j
    using that by (simp add: omap_get_del)
  from Cons.prems r have ni: "i \<notin> fst ` set rs" by simp
  have "fst ` set rs \<subseteq> fst ` set (pending c)" using Cons.prems(3) unfolding r list.set image_insert
    by (rule subset_trans [OF subset_insertI])
  with ni have "fst ` set rs \<subseteq> fst ` set (pending c) - {i}" by (simp only: subset_Diff_insert Diff_empty) simp
  then have sub: "fst ` set rs \<subseteq> fst ` set (pending ?c1)" by (simp add: omap_keys_del)
  have keys: "distinct (map fst (pending ?c1))" using omap_distinct_del [OF Cons.prems(1)] by simp
  have keys': "distinct (map fst rs)" using Cons.prems(2) by simp
  have IH: "dispatch_all (map (\<lambda>(i, v). response i v) rs) ?c1 =
      (map (\<lambda>(i, v). Resolve (fst (the (map_of (pending ?c1) i))) v) rs,
       ?c1\<lparr>pending := filter (\<lambda>(k, _). k \<notin> fst ` set rs) (pending ?c1)\<rparr>)"
    by (rule Cons.IH [OF keys keys' sub])
  have "map (\<lambda>(j, v). Resolve (fst (the (map_of (pending ?c1) j))) v) rs =
      map (\<lambda>(j, v). Resolve (fst (the (map_of (pending c) j))) v) rs"
    using ni other by (intro map_cong [OF refl]) force
  moreover have "filter (\<lambda>(k, _). k \<notin> fst ` set rs) (omap_del i (pending c)) =
      filter (\<lambda>(k, _). k \<notin> fst ` set (r # rs)) (pending c)"
    by (simp add: omap_del_def r case_prod_unfold)
  moreover have "dispatch_all (map (\<lambda>(i, v). response i v) (r # rs)) c =
      ([Resolve (fst x) v] @ fst (dispatch_all (map (\<lambda>(i, v). response i v) rs) ?c1),
       snd (dispatch_all (map (\<lambda>(i, v). response i v) rs) ?c1))"
    unfolding r list.map prod.case dispatch_all.simps d option.case Let_def by (simp add: split_beta)
  ultimately show ?case unfolding IH by (simp add: r m)
qed

text \<open>
  C23. Answers reach the calls that asked, through the wire: when a helper answers any of the
  pending calls in any order, and the bytes of its frames arrive cut into any chunks, each of
  those promises resolves with its own result, in the order of the answers, and exactly the
  other calls stay pending.
\<close>

theorem answers_reach_callers:
  assumes "rpc_inv c" and "rest_inv MAX_MESSAGE_BYTES (decoder c)" and "concat (chunks (decoder c)) = []"
    and "distinct (map fst rs)" and "fst ` set rs \<subseteq> fst ` set (pending c)"
    and "list_all2 (\<lambda>v f. encodeFrame ser v MAX_MESSAGE_BYTES = Inr f) (map (\<lambda>(i, v). response i v) rs) fs"
    and "\<And>v b. v \<in> set (map (\<lambda>(i, v). response i v) rs) \<Longrightarrow> ser v = Some b \<Longrightarrow> parse b = Inr v"
    and "concat cs = concat fs"
  shows "fst (rpc_run ser parse (map StreamData cs) c) =
      map (\<lambda>(i, v). Resolve (fst (the (map_of (pending c) i))) v) rs
    \<and> pending (snd (rpc_run ser parse (map StreamData cs) c)) =
        filter (\<lambda>(k, _). k \<notin> fst ` set rs) (pending c)"
proof -
  let ?vs = "map (\<lambda>(i, v). response i v) rs"
  have "decode_flat parse MAX_MESSAGE_BYTES (concat fs) = Inr (?vs, [])"
    by (rule decode_flat_frames [OF assms(6) _ assms(7)]) (simp_all add: MAX_MESSAGE_BYTES_def)
  then have "flat_consume parse MAX_MESSAGE_BYTES (concat (chunks (decoder c))) (concat cs) = Some (?vs, [])"
    by (simp add: flat_consume_def assms(3,8))
  with frames.run_flat [OF assms(2), of parse cs] obtain d where
    d: "run_chunks (push_ok parse) (decoder c) cs = Some (?vs, d)" by auto
  have "dispatch m c' \<noteq> None" if "m \<in> set ?vs" for m c'
    using that by (auto simp: dispatch_response)
  from run_data [OF d this, of ser] dispatch_responses [OF _ assms(4,5)] assms(1)
  show ?thesis by (simp add: rpc_inv_def)
qed

definition one_call :: rpc_client where
  "one_call = snd (call (\<lambda>_. Some [0]) 7 None ''stat'' [] new_client)"

lemma one_call_eq: "one_call = new_client\<lparr>nextId := 2, pending := [(1, 7, ''stat'')]\<rparr>"
  by (simp add: one_call_def call_def encodeFrame_def new_client_def Let_def omap_set_def MAX_MESSAGE_BYTES_def)

definition tiny_ser :: "json \<Rightarrow> bytes option" where
  "tiny_ser v = (if v = response 1 JNull then Some [5] else None)"

definition tiny_parse :: "bytes \<Rightarrow> string + json" where
  "tiny_parse b = (if b = [5] then Inr (response 1 JNull) else Inl ''bad'')"

theorem answers_reach_callers_witness:
  "fst (rpc_run tiny_ser tiny_parse (map StreamData [[0, 0], [0, 1, 5]]) one_call) = [Resolve 7 JNull]"
proof -
  have "encodeFrame tiny_ser (response 1 JNull) MAX_MESSAGE_BYTES = Inr [0, 0, 0, 1, 5]"
    by (simp add: encodeFrame_def tiny_ser_def MAX_MESSAGE_BYTES_def setUint32_def)
  then have f: "list_all2 (\<lambda>v f. encodeFrame tiny_ser v MAX_MESSAGE_BYTES = Inr f)
      (map (\<lambda>(i, v). response i v) [(1, JNull)]) [[0, 0, 0, 1, 5]]" by simp
  have inv: "rpc_inv one_call"
    by (simp add: one_call_eq rpc_inv_def new_client_def decoder_inv_def rest_inv_new)
  have rest: "rest_inv MAX_MESSAGE_BYTES (decoder one_call)" "concat (chunks (decoder one_call)) = []"
    by (simp add: one_call_eq new_client_def rest_inv_new)
      (simp add: one_call_eq new_client_def new_FrameDecoder_def)
  have "fst (rpc_run tiny_ser tiny_parse (map StreamData [[0, 0], [0, 1, 5]]) one_call) =
      map (\<lambda>(i, v). Resolve (fst (the (map_of (pending one_call) i))) v) [(1, JNull)]"
    by (rule conjunct1 [OF answers_reach_callers [OF inv rest _ _ f]])
      (auto simp: one_call_eq tiny_ser_def tiny_parse_def split: if_splits)
  then show ?thesis by (simp add: one_call_eq)
qed

text \<open>A \<open>watch\<close> event without data throws out of the data listener; what follows it is lost.\<close>

lemma watch_without_data_throws:
  "dispatch_all (JObj [(''event'', JStr ''watch'')] # ms) c = ([Uncaught], c)"
  by (simp add: dispatch_def jget_def)

text \<open>A subscription that is refused because the stream is closed leaves its handler registered.\<close>

lemma refused_watch_stays_registered:
  "closed c \<Longrightarrow> map_of (watchHandlers (snd (watchSubscribe ser tok werr cwd wtok spec h c))) wtok = Some h"
  by (simp add: watchSubscribe_def call_def omap_get_set)

end
