(* ===== verification/SshHost.thy ===== *)
theory SshHost
  imports JsText
begin

text \<open>
  How a remote project's host becomes a connection: the \<open>~/.ssh/config\<close> resolver
  (\<open>providers/remote/sshConfigResolve.ts\<close>), the connect configuration and the host key
  check of \<open>providers/remote/transport.ts\<close>.

  Files are read by the caller: their text, or \<open>None\<close> when the read fails, is an argument.
  ssh2's key parser is the argument \<open>parseKey\<close>; for known hosts it maps the text of an entry
  to the canonical bytes of its key. The two regular expressions of the resolver are written
  out; \<open>.\<close> matches no line break.
\<close>

section \<open>The ssh config resolver\<close>

record ResolvedSshConfig =
  cfg_hostName :: "string option"
  cfg_port :: "int option"
  cfg_user :: "string option"
  cfg_identityFile :: "string option"

definition empty_config :: ResolvedSshConfig where
  "empty_config = \<lparr>cfg_hostName = None, cfg_port = None, cfg_user = None, cfg_identityFile = None\<rparr>"

definition is_break :: "char \<Rightarrow> bool" where
  "is_break c \<longleftrightarrow> c = CHR 0x0A \<or> c = CHR 0x0D"

definition stripComment :: "string \<Rightarrow> string" where
  "stripComment line = (case indexOf line ''#'' of None \<Rightarrow> line | Some hash \<Rightarrow> take hash line)"

text \<open>\<open>(\S+?)\s*=\s*(.*)\<close>: the shortest key that an equals sign follows.\<close>

fun split_equals :: "string \<Rightarrow> string \<Rightarrow> (string \<times> string) option" where
  "split_equals pre [] = None"
| "split_equals pre (c # s) =
     (if is_ws c then None
      else
        let r = dropWhile is_ws s; val = dropWhile is_ws (tl r)
        in if r \<noteq> [] \<and> hd r = CHR ''='' \<and> \<not> list_ex is_break val then Some (pre @ [c], val)
           else split_equals (pre @ [c]) s)"

text \<open>\<open>(\S+)\s+(.*)\<close>.\<close>

definition split_space :: "string \<Rightarrow> (string \<times> string) option" where
  "split_space line =
     (let k = takeWhile (\<lambda>c. \<not> is_ws c) line; r = dropWhile (\<lambda>c. \<not> is_ws c) line; val = dropWhile is_ws r
      in if k = [] \<or> r = [] \<or> list_ex is_break val then None else Some (k, val))"

definition splitKeyword :: "string \<Rightarrow> string \<times> string" where
  "splitKeyword line =
     (case split_equals [] line of
        Some (k, v) \<Rightarrow> (toLowerCase k, trim v)
      | None \<Rightarrow>
          (case split_space line of
             Some (k, v) \<Rightarrow> (toLowerCase k, trim v)
           | None \<Rightarrow> (toLowerCase line, [])))"

fun globMatch :: "string \<Rightarrow> string \<Rightarrow> bool" where
  "globMatch v [] = (v = [])"
| "globMatch [] (x # p) = (if x = CHR ''*'' then globMatch [] p else False)"
| "globMatch (c # v) (x # p) =
     (if x = CHR ''*'' then globMatch (c # v) p \<or> (\<not> is_break c \<and> globMatch v (x # p))
      else if x = CHR ''?'' then \<not> is_break c \<and> globMatch v p
      else c = x \<and> globMatch v p)"

fun host_loop :: "string \<Rightarrow> string list \<Rightarrow> bool \<Rightarrow> bool" where
  "host_loop alias_name [] matched = matched"
| "host_loop alias_name (pattern # ps) matched =
     (if pattern = [] then host_loop alias_name ps matched
      else
        let negated = startsWith pattern ''!''; bare = (if negated then drop 1 pattern else pattern)
        in if bare = [] then host_loop alias_name ps matched
           else if globMatch alias_name bare then (if negated then False else host_loop alias_name ps True)
           else host_loop alias_name ps matched)"

definition hostMatches :: "string \<Rightarrow> string \<Rightarrow> bool" where
  "hostMatches alias_name patterns = host_loop alias_name (words_ws patterns) False"

definition expandTilde :: "string \<Rightarrow> string \<Rightarrow> string" where
  "expandTilde path home =
     (if path = ''~'' then home
      else if startsWith path ''~/'' then posix_join home (drop 2 path)
      else path)"

definition config_key :: "string \<Rightarrow> string \<Rightarrow> string \<Rightarrow> ResolvedSshConfig \<Rightarrow> ResolvedSshConfig" where
  "config_key home keyword value r =
     (if keyword = ''hostname'' then
        (if cfg_hostName r = None \<and> value \<noteq> [] then r\<lparr>cfg_hostName := Some value\<rparr> else r)
      else if keyword = ''port'' then
        (if cfg_port r = None then
           (case parseInt10 value of
              Some n \<Rightarrow> if n > 0 then r\<lparr>cfg_port := Some n\<rparr> else r
            | None \<Rightarrow> r)
         else r)
      else if keyword = ''user'' then
        (if cfg_user r = None \<and> value \<noteq> [] then r\<lparr>cfg_user := Some value\<rparr> else r)
      else if keyword = ''identityfile'' then
        (if cfg_identityFile r = None \<and> value \<noteq> [] then r\<lparr>cfg_identityFile := Some (expandTilde value home)\<rparr> else r)
      else r)"

fun config_lines :: "string \<Rightarrow> string \<Rightarrow> string list \<Rightarrow> bool \<Rightarrow> ResolvedSshConfig \<Rightarrow> ResolvedSshConfig" where
  "config_lines alias_name home [] matching r = r"
| "config_lines alias_name home (rawLine # ls) matching r =
     (let line = trim (stripComment rawLine)
      in if line = [] then config_lines alias_name home ls matching r
         else
           let kv = splitKeyword line; keyword = fst kv; value = snd kv
           in if keyword = [] then config_lines alias_name home ls matching r
              else if keyword = ''host'' then config_lines alias_name home ls (hostMatches alias_name value) r
              else if \<not> matching then config_lines alias_name home ls matching r
              else config_lines alias_name home ls matching (config_key home keyword value r))"

definition resolveSshConfig :: "string \<Rightarrow> string \<Rightarrow> string option \<Rightarrow> ResolvedSshConfig" where
  "resolveSshConfig alias_name home file =
     (case file of
        None \<Rightarrow> empty_config
      | Some text \<Rightarrow> config_lines alias_name home (splitOn CHR 0x0A text) False empty_config)"

section \<open>The connect configuration\<close>

record RemoteConnectionSpec =
  spec_host :: string
  spec_port :: int
  spec_user :: string
  spec_identityPath :: "string option"

datatype error_phase = PAuth | PConnect | PTimeout | PIdentity | PHostkey | PUnexpected

record ConnectConfig =
  cc_host :: string
  cc_port :: int
  cc_username :: string
  cc_readyTimeout :: nat
  cc_privateKey :: "bytes option"
  cc_agent :: "string option"

definition DEFAULT_READY_TIMEOUT_MS :: nat where "DEFAULT_READY_TIMEOUT_MS = 20000"

definition truthy :: "string option \<Rightarrow> bool" where
  "truthy s \<longleftrightarrow> s \<noteq> None \<and> s \<noteq> Some []"

definition connect_target :: "RemoteConnectionSpec \<Rightarrow> ResolvedSshConfig \<Rightarrow> string \<times> int \<times> string \<times> string option" where
  "connect_target spec resolved =
     ((case cfg_hostName resolved of Some h \<Rightarrow> h | None \<Rightarrow> spec_host spec),
      (if spec_port spec = 22 then (case cfg_port resolved of Some p \<Rightarrow> p | None \<Rightarrow> spec_port spec) else spec_port spec),
      (if spec_user spec \<noteq> [] then spec_user spec
       else if truthy (cfg_user resolved) then the (cfg_user resolved) else spec_user spec),
      (case spec_identityPath spec of Some p \<Rightarrow> Some p | None \<Rightarrow> cfg_identityFile resolved))"

definition buildConnectConfig :: "(string \<Rightarrow> bytes option) \<Rightarrow> (bytes \<Rightarrow> bool) \<Rightarrow> string option \<Rightarrow> nat option
    \<Rightarrow> RemoteConnectionSpec \<Rightarrow> ResolvedSshConfig \<Rightarrow> error_phase + ConnectConfig" where
  "buildConnectConfig readFile usable agentSock timeout spec resolved =
     (let t = connect_target spec resolved;
          identityPath = snd (snd (snd t));
          config = \<lparr>cc_host = fst t, cc_port = fst (snd t), cc_username = fst (snd (snd t)),
            cc_readyTimeout = (case timeout of Some ms \<Rightarrow> ms | None \<Rightarrow> DEFAULT_READY_TIMEOUT_MS),
            cc_privateKey = None, cc_agent = None\<rparr>
      in if truthy identityPath then
           (case readFile (the identityPath) of
              None \<Rightarrow> Inl PIdentity
            | Some keyBuf \<Rightarrow>
                (if \<not> usable keyBuf then
                   (if truthy agentSock then Inr (config\<lparr>cc_agent := agentSock\<rparr>) else Inl PIdentity)
                 else Inr (config\<lparr>cc_privateKey := Some keyBuf,
                   cc_agent := (if truthy agentSock then agentSock else None)\<rparr>)))
         else if \<not> truthy agentSock then Inl PAuth
         else Inr (config\<lparr>cc_agent := agentSock\<rparr>))"

section \<open>Known hosts\<close>

definition host_token :: "string \<Rightarrow> nat \<Rightarrow> string" where
  "host_token host port = (if port = 22 then host else ''['' @ host @ '']:'' @ showNat port)"

definition entry_key :: "(string \<Rightarrow> 'k option) \<Rightarrow> string \<Rightarrow> nat \<Rightarrow> string \<Rightarrow> 'k list" where
  "entry_key parseKey host port line =
     (let trimmed = trim line; parts = words_ws trimmed
      in if trimmed = [] \<or> startsWith trimmed ''#'' then []
         else if length parts < 3 then []
         else if parts ! 0 = [] \<or> parts ! 1 = [] \<or> parts ! 2 = [] then []
         else if startsWith (parts ! 0) ''|'' then []
         else
           let hostTokens = splitOn CHR '','' (parts ! 0)
           in if host_token host port \<notin> set hostTokens \<and> \<not> (port = 22 \<and> host \<in> set hostTokens) then []
              else (case parseKey (parts ! 1 @ '' '' @ parts ! 2) of None \<Rightarrow> [] | Some k \<Rightarrow> [k]))"

definition loadKnownHostKeys :: "(string \<Rightarrow> 'k option) \<Rightarrow> string option \<Rightarrow> string \<Rightarrow> nat \<Rightarrow> 'k list" where
  "loadKnownHostKeys parseKey file host port =
     (case file of None \<Rightarrow> []
      | Some text \<Rightarrow> concat (map (entry_key parseKey host port) (splitOn CHR 0x0A text)))"

definition hostVerifier :: "(string \<Rightarrow> 'k option) \<Rightarrow> string option \<Rightarrow> string \<Rightarrow> nat \<Rightarrow> bool option \<Rightarrow> 'k option \<Rightarrow> bool" where
  "hostVerifier parseKey file host port policy presented =
     (let tofu = (case policy of Some t \<Rightarrow> t | None \<Rightarrow> True)
      in case presented of
           None \<Rightarrow> tofu
         | Some key \<Rightarrow>
             (let entries = loadKnownHostKeys parseKey file host port
              in if entries = [] then tofu else key \<in> set entries))"

section \<open>Properties\<close>

text \<open>
  The declarative reading: the settings that apply to an alias are the keyword and value
  pairs of the lines below a \<open>Host\<close> line that matches it.
\<close>

definition line_setting :: "string \<Rightarrow> (string \<times> string) option" where
  "line_setting rawLine =
     (let line = trim (stripComment rawLine)
      in if line = [] \<or> fst (splitKeyword line) = [] then None else Some (splitKeyword line))"

fun applying :: "string \<Rightarrow> bool \<Rightarrow> (string \<times> string) list \<Rightarrow> (string \<times> string) list" where
  "applying alias_name on [] = []"
| "applying alias_name on (kv # kvs) =
     (if fst kv = ''host'' then applying alias_name (hostMatches alias_name (snd kv)) kvs
      else if on then kv # applying alias_name on kvs
      else applying alias_name on kvs)"

definition settings_for :: "string \<Rightarrow> string \<Rightarrow> (string \<times> string) list" where
  "settings_for alias_name text = applying alias_name False (List.map_filter line_setting (splitOn CHR 0x0A text))"

fun first_some :: "'b option list \<Rightarrow> 'b option" where
  "first_some [] = None"
| "first_some (None # xs) = first_some xs"
| "first_some (Some x # xs) = Some x"

definition non_empty :: "string \<Rightarrow> string option" where
  "non_empty v = (if v = [] then None else Some v)"

definition positive_port :: "string \<Rightarrow> int option" where
  "positive_port v = (case parseInt10 v of Some n \<Rightarrow> if n > 0 then Some n else None | None \<Rightarrow> None)"

definition first_of :: "string \<Rightarrow> (string \<Rightarrow> 'b option) \<Rightarrow> (string \<times> string) list \<Rightarrow> 'b option" where
  "first_of key f kvs = first_some (map (\<lambda>kv. if fst kv = key then f (snd kv) else None) kvs)"

lemma first_of_simps [simp]:
  "first_of key f [] = None"
  "first_of key f (kv # kvs) =
     (if fst kv = key then (case f (snd kv) of None \<Rightarrow> first_of key f kvs | Some x \<Rightarrow> Some x) else first_of key f kvs)"
  by (auto simp: first_of_def split: option.splits)

lemma config_lines_settings:
  "config_lines alias_name home ls on r =
     foldl (\<lambda>r kv. config_key home (fst kv) (snd kv) r) r
       (applying alias_name on (List.map_filter line_setting ls))"
  by (induction ls arbitrary: on r)
    (auto simp: line_setting_def Let_def config_key_def)

definition or_else :: "'b option \<Rightarrow> 'b option \<Rightarrow> 'b option" where
  "or_else a b = (case a of None \<Rightarrow> b | Some x \<Rightarrow> Some x)"

lemma config_key_fields:
  "cfg_hostName (config_key home k v r) =
     (if k = ''hostname'' then or_else (cfg_hostName r) (non_empty v) else cfg_hostName r)"
  "cfg_port (config_key home k v r) =
     (if k = ''port'' then or_else (cfg_port r) (positive_port v) else cfg_port r)"
  "cfg_user (config_key home k v r) =
     (if k = ''user'' then or_else (cfg_user r) (non_empty v) else cfg_user r)"
  "cfg_identityFile (config_key home k v r) =
     (if k = ''identityfile'' then or_else (cfg_identityFile r) (map_option (\<lambda>p. expandTilde p home) (non_empty v))
      else cfg_identityFile r)"
  by (simp add: config_key_def or_else_def non_empty_def split: option.splits)
    (simp add: config_key_def or_else_def positive_port_def split: option.splits,
     simp add: config_key_def or_else_def non_empty_def split: option.splits,
     simp add: config_key_def or_else_def non_empty_def split: option.splits)

lemma or_else_step:
  "or_else (if c then or_else a b else a) x =
     or_else a (if c then (case b of None \<Rightarrow> x | Some y \<Rightarrow> Some y) else x)"
  by (auto simp: or_else_def split: option.splits)

lemma fold_settings:
  "foldl (\<lambda>r kv. config_key home (fst kv) (snd kv) r) r kvs =
    \<lparr>cfg_hostName = or_else (cfg_hostName r) (first_of ''hostname'' non_empty kvs),
     cfg_port = or_else (cfg_port r) (first_of ''port'' positive_port kvs),
     cfg_user = or_else (cfg_user r) (first_of ''user'' non_empty kvs),
     cfg_identityFile = or_else (cfg_identityFile r)
       (first_of ''identityfile'' (\<lambda>v. map_option (\<lambda>p. expandTilde p home) (non_empty v)) kvs)\<rparr>"
proof (induction kvs arbitrary: r)
  case Nil
  then show ?case by (cases r) (auto simp: or_else_def split: option.splits)
next
  case (Cons kv kvs)
  show ?case
    unfolding foldl.simps Cons config_key_fields or_else_step first_of_simps ..
qed

text \<open>
  The resolver honours ssh's rule that the first value wins: each of the four fields is the
  first usable value of its keyword among the settings of the matching \<open>Host\<close> blocks, an empty
  value or an unusable port never shadows a later one, and no file means no setting.
\<close>

theorem first_value_wins:
  "resolveSshConfig alias_name home (Some text) =
    (let kvs = settings_for alias_name text in
     \<lparr>cfg_hostName = first_of ''hostname'' non_empty kvs,
      cfg_port = first_of ''port'' positive_port kvs,
      cfg_user = first_of ''user'' non_empty kvs,
      cfg_identityFile = first_of ''identityfile'' (\<lambda>v. map_option (\<lambda>p. expandTilde p home) (non_empty v)) kvs\<rparr>)
    \<and> resolveSshConfig alias_name home None = empty_config"
  by (simp add: resolveSshConfig_def config_lines_settings settings_for_def fold_settings or_else_def
      empty_config_def Let_def)

text \<open>The language of a pattern, and what a pattern list means in ssh.\<close>

fun pattern_lang :: "string \<Rightarrow> string set" where
  "pattern_lang [] = {[]}"
| "pattern_lang (x # p) =
     (if x = CHR ''*'' then {a @ b | a b. \<not> list_ex is_break a \<and> b \<in> pattern_lang p}
      else if x = CHR ''?'' then {c # b | c b. \<not> is_break c \<and> b \<in> pattern_lang p}
      else {x # b | b. b \<in> pattern_lang p})"

lemma star_Nil: "[] \<in> pattern_lang (CHR ''*'' # p) \<longleftrightarrow> [] \<in> pattern_lang p"
  by auto

lemma star_Cons: "c # v \<in> pattern_lang (CHR ''*'' # p) \<longleftrightarrow>
    c # v \<in> pattern_lang p \<or> (\<not> is_break c \<and> v \<in> pattern_lang (CHR ''*'' # p))" (is "?L \<longleftrightarrow> ?R")
proof
  assume ?L
  then obtain a b where ab: "c # v = a @ b" "\<not> list_ex is_break a" "b \<in> pattern_lang p" by auto
  then show ?R by (cases a) auto
next
  assume ?R
  then show ?L
  proof
    assume "c # v \<in> pattern_lang p"
    then show ?L by (auto intro: exI [of _ "[]"])
  next
    assume r: "\<not> is_break c \<and> v \<in> pattern_lang (CHR ''*'' # p)"
    then obtain a b where "v = a @ b" "\<not> list_ex is_break a" "b \<in> pattern_lang p" by auto
    with r have "c # v = (c # a) @ b" "\<not> list_ex is_break (c # a)" "b \<in> pattern_lang p" by auto
    then show ?L unfolding pattern_lang.simps if_P [OF refl] by blast
  qed
qed

lemma globMatch_lang: "globMatch v p \<longleftrightarrow> v \<in> pattern_lang p"
proof (induction v p rule: globMatch.induct)
  case (3 c v x p)
  then show ?case
    using star_Cons [of c v p] by (cases "x = CHR ''*''") (simp_all del: pattern_lang.simps(2), auto)
qed auto

lemma host_loop_meaning:
  "host_loop a ps m \<longleftrightarrow>
     (m \<or> (\<exists>p\<in>set ps. p \<noteq> [] \<and> \<not> startsWith p ''!'' \<and> a \<in> pattern_lang p))
     \<and> (\<forall>b. b \<noteq> [] \<and> CHR ''!'' # b \<in> set ps \<longrightarrow> a \<notin> pattern_lang b)"
proof (induction ps arbitrary: m)
  case Nil
  then show ?case by simp
next
  case (Cons p ps)
  show ?case
  proof (cases "startsWith p ''!''")
    case True
    then obtain b where p: "p = CHR ''!'' # b" by (cases p) auto
    show ?thesis by (cases "b = []") (auto simp: p Cons.IH globMatch_lang)
  next
    case False
    then have "\<And>b. CHR ''!'' # b \<noteq> p" by auto
    then show ?thesis using False by (cases "p = []") (auto simp: Cons.IH globMatch_lang)
  qed
qed

text \<open>
  A \<open>Host\<close> line applies to an alias exactly as ssh defines it: some positive pattern of its
  list matches (a star for any text, a question mark for one character) and no negated one
  does, wherever in the list it stands.
\<close>

theorem host_patterns:
  "hostMatches alias_name patterns \<longleftrightarrow>
     (\<exists>p\<in>set (words_ws patterns). p \<noteq> [] \<and> \<not> startsWith p ''!'' \<and> alias_name \<in> pattern_lang p)
     \<and> (\<forall>b. b \<noteq> [] \<and> CHR ''!'' # b \<in> set (words_ws patterns) \<longrightarrow> alias_name \<notin> pattern_lang b)"
  by (simp add: hostMatches_def host_loop_meaning)

theorem host_patterns_witness:
  "\<not> hostMatches ''db1'' ''db* !db?'' \<and> hostMatches ''db10'' ''db* !db?''"
proof -
  have w: "words_ws ''db* !db?'' = [''db*'', ''!db?'']" by code_simp
  have "''db1'' \<in> pattern_lang ''db?''" "''db10'' \<notin> pattern_lang ''db?''" "''db10'' \<in> pattern_lang ''db*''"
    by (simp_all add: is_break_def flip: globMatch_lang)
  then show ?thesis unfolding host_patterns w by simp
qed

section \<open>Host keys\<close>

definition host_line :: "string list \<Rightarrow> string \<Rightarrow> string \<Rightarrow> string" where
  "host_line hosts kt kb = joinWith '','' hosts @ '' '' @ kt @ '' '' @ kb"

definition word_like :: "string \<Rightarrow> bool" where
  "word_like s \<longleftrightarrow> s \<noteq> [] \<and> \<not> list_ex is_ws s"

lemma words_three:
  assumes "word_like a" "word_like b" "word_like c"
  shows "words_ws (a @ '' '' @ b @ '' '' @ c) = [a, b, c]" and "trim (a @ '' '' @ b @ '' '' @ c) = a @ '' '' @ b @ '' '' @ c"
proof -
  have nw: "\<forall>x\<in>set s. \<not> is_ws x" "s \<noteq> []" if "word_like s" for s
    using that by (auto simp: word_like_def list_ex_iff)
  have hd: "\<not> is_ws (hd (s @ r))" if "word_like s" for s r
    using nw [OF that] by (cases s) auto
  have "words_ws (b @ CHR '' '' # c) = [b, c]"
    using words_ws_append [OF nw(1) [OF assms(2)] nw(2) [OF assms(3)]] hd [OF assms(3), of "[]"]
    by (simp add: words_ws_single [OF nw(1) [OF assms(3)]])
  with words_ws_append [OF nw(1) [OF assms(1)], of "b @ CHR '' '' # c"] hd [OF assms(2), of "CHR '' '' # c"]
  show "words_ws (a @ '' '' @ b @ '' '' @ c) = [a, b, c]" by simp
  have "\<not> is_ws (last c)" using nw [OF assms(3)] by simp
  then show "trim (a @ '' '' @ b @ '' '' @ c) = a @ '' '' @ b @ '' '' @ c"
    using hd [OF assms(1), of "'' '' @ b @ '' '' @ c"] nw(2) [OF assms(3)] by (intro trim_id) simp
qed

lemma joinWith_word_like:
  assumes "hosts \<noteq> []" and "\<And>h. h \<in> set hosts \<Longrightarrow> word_like h \<and> CHR '','' \<notin> set h"
  shows "word_like (joinWith '','' hosts)" and "splitOn CHR '','' (joinWith '','' hosts) = hosts"
proof -
  have "\<not> list_ex is_ws (joinWith '','' hosts)"
    using assms(2) by (induction "'','' :: string" hosts rule: joinWith.induct) (auto simp: word_like_def is_ws_def)
  moreover have "joinWith '','' hosts \<noteq> []"
    using assms by (cases hosts rule: remdups_adj.cases) (auto simp: word_like_def)
  ultimately show "word_like (joinWith '','' hosts)" by (simp add: word_like_def)
  show "splitOn CHR '','' (joinWith '','' hosts) = hosts" using assms by (intro split_join) auto
qed

lemma host_line_key:
  assumes "hosts \<noteq> []" and "\<And>h. h \<in> set hosts \<Longrightarrow> word_like h \<and> CHR '','' \<notin> set h"
    and "hd (hd hosts) \<noteq> CHR ''#''" and "hd (hd hosts) \<noteq> CHR ''|''" and "word_like kt" and "word_like kb"
  shows "entry_key parseKey host port (host_line hosts kt kb) =
    (if host_token host port \<in> set hosts
     then (case parseKey (kt @ '' '' @ kb) of None \<Rightarrow> [] | Some k \<Rightarrow> [k]) else [])"
proof -
  note j = joinWith_word_like [OF assms(1,2)]
  have first: "\<not> startsWith (joinWith '','' hosts @ r) [x]" if "hd (hd hosts) \<noteq> x" for r x
  proof -
    from assms(1,2) obtain c h hs where "hosts = (c # h) # hs"
      unfolding word_like_def by (metis list.exhaust list.set_intros(1))
    with that show ?thesis by (cases hs) auto
  qed
  from words_three [OF j(1) assms(5,6)] first [OF assms(3)] first [OF assms(4), of "[]"] j assms(5,6)
  show ?thesis
    by (simp add: entry_key_def host_line_def Let_def word_like_def host_token_def)
qed

text \<open>
  A known_hosts file as it is meant: entries, with the hosts they name and a key, and lines that
  name no host in clear (blank lines, comments, hashed entries, lines of fewer than three
  words). A host on the default port is named plainly, on another port with brackets and the
  port; \<open>known_keys\<close> are the keys recorded for a host and port. Nothing of this refers to how
  the code reads the file.
\<close>

datatype host_name = Plain string | Bracketed string nat

fun show_name :: "host_name \<Rightarrow> string" where
  "show_name (Plain h) = h"
| "show_name (Bracketed h p) = ''['' @ h @ '']:'' @ showNat p"

datatype kh_line = Entry "host_name list" string string | Other string

fun show_kh :: "kh_line \<Rightarrow> string" where
  "show_kh (Entry ns kt kb) = host_line (map show_name ns) kt kb"
| "show_kh (Other l) = l"

definition show_known_hosts :: "kh_line list \<Rightarrow> string" where
  "show_known_hosts ls = joinWith [CHR 0x0A] (map show_kh ls)"

definition host_ok :: "string \<Rightarrow> bool" where
  "host_ok h \<longleftrightarrow> word_like h \<and> list_all (\<lambda>c. c \<noteq> CHR '','' \<and> c \<noteq> CHR ''['' \<and> c \<noteq> CHR '']'') h
     \<and> hd h \<noteq> CHR ''#'' \<and> hd h \<noteq> CHR ''|''"

fun name_ok :: "host_name \<Rightarrow> bool" where
  "name_ok (Plain h) = host_ok h"
| "name_ok (Bracketed h p) = host_ok h"

fun kh_ok :: "kh_line \<Rightarrow> bool" where
  "kh_ok (Entry ns kt kb) = (ns \<noteq> [] \<and> list_all name_ok ns \<and> word_like kt \<and> word_like kb)"
| "kh_ok (Other l) = (CHR 0x0A \<notin> set l
     \<and> (trim l = [] \<or> startsWith (trim l) ''#'' \<or> startsWith (trim l) ''|'' \<or> length (words_ws (trim l)) < 3))"

definition known_keys :: "(string \<Rightarrow> 'k option) \<Rightarrow> kh_line list \<Rightarrow> string \<Rightarrow> nat \<Rightarrow> 'k set" where
  "known_keys parseKey ls host port =
     {k. \<exists>ns kt kb. Entry ns kt kb \<in> set ls
        \<and> (if port = 22 then Plain host else Bracketed host port) \<in> set ns
        \<and> parseKey (kt @ '' '' @ kb) = Some k}"

lemma bracket_inj:
  assumes "CHR '']'' \<notin> set h" "CHR '']'' \<notin> set h'"
  shows "''['' @ h @ '']:'' @ showNat p = ''['' @ h' @ '']:'' @ showNat p' \<longleftrightarrow> h = h' \<and> p = p'"
proof -
  have "takeWhile (\<lambda>c. c \<noteq> CHR '']'') (g @ CHR '']'' # r) = g" if "CHR '']'' \<notin> set g" for g r
    using that by (induction g) auto
  note t = this
  show ?thesis
  proof
    assume e: "''['' @ h @ '']:'' @ showNat p = ''['' @ h' @ '']:'' @ showNat p'"
    then have "h @ CHR '']'' # '':'' @ showNat p = h' @ CHR '']'' # '':'' @ showNat p'" by simp
    with t [OF assms(1)] t [OF assms(2)] have "h = h'" by metis
    with e show "h = h' \<and> p = p'" by (simp add: showNat_inj)
  qed simp
qed

lemma show_name_target:
  assumes "name_ok n" "host_ok host"
  shows "show_name n = host_token host port \<longleftrightarrow> n = (if port = 22 then Plain host else Bracketed host port)"
proof -
  have no: "CHR ''['' \<notin> set h" "CHR '']'' \<notin> set h" "h \<noteq> []" if "host_ok h" for h
    using that by (auto simp: host_ok_def list_all_iff word_like_def)
  show ?thesis
  proof (cases n)
    case (Plain h)
    with assms no [of h] no [of host] show ?thesis
      by (auto simp: host_token_def)
  next
    case (Bracketed h p)
    with assms no [of h] no [of host] bracket_inj [of h host p port] show ?thesis
      by (auto simp: host_token_def)
  qed
qed

lemma show_name_word: "name_ok n \<Longrightarrow> word_like (show_name n) \<and> CHR '','' \<notin> set (show_name n)
    \<and> hd (show_name n) \<noteq> CHR ''#'' \<and> hd (show_name n) \<noteq> CHR ''|''"
proof -
  have d: "\<not> is_ws c \<and> c \<noteq> CHR '',''" if "c \<in> set (showNat p)" for c p
    using showNat_digits [OF that] by (auto simp: is_digit_def is_ws_def)
  assume "name_ok n"
  then show ?thesis
  proof (cases n)
    case (Bracketed h p)
    with \<open>name_ok n\<close> d show ?thesis
      by (auto simp: host_ok_def word_like_def list_ex_iff list_all_iff is_ws_def)
  qed (auto simp: host_ok_def list_all_iff)
qed

lemma entry_key_Entry:
  assumes "kh_ok (Entry ns kt kb)" "host_ok host"
  shows "entry_key parseKey host port (show_kh (Entry ns kt kb)) =
    (if (if port = 22 then Plain host else Bracketed host port) \<in> set ns
     then (case parseKey (kt @ '' '' @ kb) of None \<Rightarrow> [] | Some k \<Rightarrow> [k]) else [])"
proof -
  from assms(1) have ns: "ns \<noteq> []" "\<And>n. n \<in> set ns \<Longrightarrow> name_ok n" "word_like kt" "word_like kb"
    by (auto simp: list_all_iff)
  have "host_token host port \<in> set (map show_name ns)
      \<longleftrightarrow> (if port = 22 then Plain host else Bracketed host port) \<in> set ns"
  proof -
    have "(\<exists>n\<in>set ns. host_token host port = show_name n)
        \<longleftrightarrow> (\<exists>n\<in>set ns. n = (if port = 22 then Plain host else Bracketed host port))"
      by (rule bex_cong [OF refl]) (metis show_name_target ns(2) assms(2))
    then show ?thesis by (simp add: image_iff)
  qed
  moreover have "entry_key parseKey host port (host_line (map show_name ns) kt kb) =
    (if host_token host port \<in> set (map show_name ns)
     then (case parseKey (kt @ '' '' @ kb) of None \<Rightarrow> [] | Some k \<Rightarrow> [k]) else [])"
    by (rule host_line_key) (use ns show_name_word in \<open>auto simp: hd_map\<close>)
  ultimately show ?thesis by simp
qed

lemma entry_key_Other: "kh_ok (Other l) \<Longrightarrow> entry_key parseKey host port l = []"
proof -
  assume k: "kh_ok (Other l)"
  have "startsWith (words_ws (trim l) ! 0) ''|''" if bar: "startsWith (trim l) ''|''"
  proof -
    from bar obtain r where "trim l = CHR ''|'' # r" by (auto simp: startsWith_iff)
    then show ?thesis by (cases "words_ws r") (simp_all add: is_ws_def)
  qed
  with k show ?thesis by (auto simp: entry_key_def Let_def)
qed

lemma show_kh_no_break: "kh_ok l \<Longrightarrow> CHR 0x0A \<notin> set (show_kh l)"
proof (cases l)
  case (Entry ns kt kb)
  assume "kh_ok l"
  with Entry have e: "kh_ok (Entry ns kt kb)" by simp
  have "word_like (joinWith '','' (map show_name ns))"
    by (rule joinWith_word_like(1)) (use e show_name_word in \<open>auto simp: list_all_iff\<close>)
  with e Entry show ?thesis by (auto simp: host_line_def word_like_def list_ex_iff is_ws_def)
qed simp

definition line_keys :: "(string \<Rightarrow> 'k option) \<Rightarrow> string \<Rightarrow> nat \<Rightarrow> kh_line \<Rightarrow> 'k set" where
  "line_keys parseKey host port l =
     {k. \<exists>ns kt kb. l = Entry ns kt kb \<and> (if port = 22 then Plain host else Bracketed host port) \<in> set ns
        \<and> parseKey (kt @ '' '' @ kb) = Some k}"

lemma entry_key_line:
  assumes "kh_ok l" "host_ok host"
  shows "set (entry_key parseKey host port (show_kh l)) = line_keys parseKey host port l"
proof (cases l)
  case (Entry ns kt kb)
  with assms(1) have "kh_ok (Entry ns kt kb)" by simp
  from entry_key_Entry [OF this assms(2), of parseKey port]
  have e: "entry_key parseKey host port (show_kh l) =
      (if (if port = 22 then Plain host else Bracketed host port) \<in> set ns
       then (case parseKey (kt @ '' '' @ kb) of None \<Rightarrow> [] | Some k \<Rightarrow> [k]) else [])"
    by (simp only: Entry)
  show ?thesis
  proof (cases "(if port = 22 then Plain host else Bracketed host port) \<in> set ns")
    case True
    with e show ?thesis
      by (cases "parseKey (kt @ '' '' @ kb)") (simp_all add: line_keys_def Entry)
  next
    case False
    with e show ?thesis by (simp add: line_keys_def Entry)
  qed
next
  case (Other t)
  with assms(1) have "kh_ok (Other t)" by simp
  from entry_key_Other [OF this, of parseKey host port] show ?thesis by (simp add: Other line_keys_def)
qed

lemma known_keys_load:
  assumes "list_all kh_ok ls" "host_ok host"
  shows "set (loadKnownHostKeys parseKey (Some (show_known_hosts ls)) host port) = known_keys parseKey ls host port"
proof -
  have ok: "\<And>l. l \<in> set ls \<Longrightarrow> kh_ok l" using assms(1) by (simp add: list_all_iff)
  have "set (concat (map (entry_key parseKey host port) (splitOn CHR 0x0A (show_known_hosts ls))))
      = (\<Union>l\<in>set ls. set (entry_key parseKey host port (show_kh l)))"
  proof (cases "ls = []")
    case True
    have "entry_key parseKey host port [] = []" by (simp add: entry_key_def trim_def)
    with True show ?thesis by (simp add: show_known_hosts_def)
  next
    case False
    have "splitOn CHR 0x0A (joinWith [CHR 0x0A] (map show_kh ls)) = map show_kh ls"
      by (rule split_join) (use False ok show_kh_no_break in auto)
    then show ?thesis by (simp add: show_known_hosts_def)
  qed
  also have "\<dots> = (\<Union>l\<in>set ls. line_keys parseKey host port l)"
    using ok entry_key_line [OF _ assms(2), of _ parseKey port] by simp
  also have "\<dots> = known_keys parseKey ls host port"
    by (auto simp: known_keys_def line_keys_def)
  finally show ?thesis by (simp add: loadKnownHostKeys_def)
qed

text \<open>
  C24. The host key check: let known_hosts hold entries and other lines as above, and let the
  resolved host be a name without spaces, commas and brackets. When the file records a usable
  key for that host on that port, a presented key that parses is accepted if and only if it is
  one of the recorded ones, whatever the trust-on-first-use policy says; an entry of the host
  on another port counts for nothing. When it records none, or cannot be read, the policy
  decides. A presented key that cannot be parsed is judged by the policy alone, even for a
  host whose key is recorded.
\<close>

theorem host_key_check:
  assumes "list_all kh_ok ls" "host_ok host"
  shows "(hostVerifier parseKey (Some (show_known_hosts ls)) host port policy presented \<longleftrightarrow>
       (case presented of
          None \<Rightarrow> policy \<noteq> Some False
        | Some key \<Rightarrow>
            if known_keys parseKey ls host port = {} then policy \<noteq> Some False
            else key \<in> known_keys parseKey ls host port))
    \<and> (hostVerifier parseKey None host port policy presented \<longleftrightarrow> policy \<noteq> Some False)"
  unfolding known_keys_load [OF assms, symmetric]
  by (auto simp: hostVerifier_def Let_def loadKnownHostKeys_def [of parseKey None] split: option.splits)

theorem host_key_check_witness:
  "let file = Some (show_known_hosts [Other ''# mine'', Entry [Plain ''h'', Bracketed ''h'' 2222] ''t'' ''K1'',
       Entry [Plain ''h''] ''t'' ''K2''])
   in \<not> hostVerifier Some file ''h'' 2222 (Some True) (Some ''t K2'')
    \<and> hostVerifier Some file ''h'' 2222 (Some False) (Some ''t K1'')
    \<and> hostVerifier Some file ''h'' 22 (Some False) (Some ''t K2'')"
proof -
  let ?ls = "[Other ''# mine'', Entry [Plain ''h'', Bracketed ''h'' 2222] ''t'' ''K1'', Entry [Plain ''h''] ''t'' ''K2'']"
  have ok: "list_all kh_ok ?ls" "host_ok ''h''" by code_simp+
  have k: "known_keys Some ?ls ''h'' 2222 = {''t K1''}" "known_keys Some ?ls ''h'' 22 = {''t K1'', ''t K2''}"
    by (auto simp: known_keys_def conj_disj_distribR ex_disj_distrib)
  show ?thesis
    using host_key_check [OF ok, of Some 2222 "Some True" "Some ''t K2''"]
      host_key_check [OF ok, of Some 2222 "Some False" "Some ''t K1''"]
      host_key_check [OF ok, of Some 22 "Some False" "Some ''t K2''"] unfolding k by simp
qed

text \<open>A presented key that cannot be parsed is trusted on first use even when the host is known.\<close>

lemma unparseable_key_accepted:
  "hostVerifier parseKey file host port None None"
  by (simp add: hostVerifier_def)

text \<open>A usable configuration always names a way to authenticate, and never an unusable key.\<close>

lemma config_authenticates:
  "buildConnectConfig readFile usable agent timeout spec resolved = Inr cc \<Longrightarrow>
     (cc_privateKey cc \<noteq> None \<or> truthy (cc_agent cc)) \<and> (\<forall>k. cc_privateKey cc = Some k \<longrightarrow> usable k)"
  by (auto simp: buildConnectConfig_def Let_def split: if_splits option.splits)

end
