(* ===== verification/SshTransport.thy ===== *)
theory SshTransport
  imports SshHost "HOL-Library.Multiset"
begin

text \<open>
  The lifecycle of \<open>Ssh2Transport\<close> (\<open>providers/remote/transport.ts\<close>) as a machine over the
  events it reacts to, and the file replacement of its provisioning session.

  \<open>connect\<close> and \<open>disconnect\<close> are asynchronous: what they still have to do after an
  \<open>await\<close> is part of the state (\<open>building\<close>: the configuration is being built; \<open>shaking\<close>:
  the handshake listeners of a client are attached; \<open>closing\<close>: a disconnect waits for its
  client to end, possibly on behalf of a connect). A connect call and a client are numbers.
\<close>

section \<open>Connecting and disconnecting\<close>

datatype TransportState = TDisconnected | TConnecting | TConnected | TFailed

record transport =
  conn :: "nat option"
  stateValue :: TransportState
  streams :: "nat list"
  nextClient :: nat
  building :: "nat list"
  shaking :: "(nat \<times> nat) list"
  watched :: "nat list"
  closing :: "(nat \<times> nat option \<times> nat list) list"

definition new_transport :: transport where
  "new_transport = \<lparr>conn = None, stateValue = TDisconnected, streams = [], nextClient = 0,
     building = [], shaking = [], watched = [], closing = []\<rparr>"

datatype transport_out =
    StateIs TransportState
  | Connected nat
  | ConnectRejected nat error_phase
  | EndClient nat
  | EndStream nat
  | Disconnected
  | UncaughtError nat

datatype transport_event =
    EConnect nat
  | EConfigFails nat error_phase
  | EConfigBuilt nat bool
  | EReady nat
  | EError nat error_phase
  | EClose nat
  | EDisconnect
  | EEnded nat
  | EStreamOpen nat
  | EStreamGone nat

definition tryClient :: "transport \<Rightarrow> nat option" where
  "tryClient t = (if conn t = None \<or> stateValue t \<noteq> TConnected then None else conn t)"

definition setState :: "TransportState \<Rightarrow> transport \<Rightarrow> transport_out list \<times> transport" where
  "setState s t = ([StateIs s], t\<lparr>stateValue := s\<rparr>)"

definition start_connect :: "nat \<Rightarrow> transport \<Rightarrow> transport_out list \<times> transport" where
  "start_connect a t = setState TConnecting (t\<lparr>building := building t @ [a]\<rparr>)"

text \<open>The part of \<open>disconnect\<close> before its awaits, on behalf of a connect call or of none.\<close>

definition start_disconnect :: "nat option \<Rightarrow> transport \<Rightarrow> transport_out list \<times> transport" where
  "start_disconnect owner t =
     (case conn t of
        None \<Rightarrow> (let (os, t1) = setState TDisconnected t in (os @ [Disconnected], t1))
      | Some c \<Rightarrow> (map EndStream (streams t), t\<lparr>conn := None, closing := closing t @ [(c, owner, streams t)]\<rparr>))"

definition connect :: "nat \<Rightarrow> transport \<Rightarrow> transport_out list \<times> transport" where
  "connect a t = (if conn t \<noteq> None then start_disconnect (Some a) t else start_connect a t)"

definition fail_handshake :: "nat \<Rightarrow> nat \<Rightarrow> error_phase \<Rightarrow> transport \<Rightarrow> transport_out list \<times> transport" where
  "fail_handshake n a ph t =
     (let (os, t1) = setState TFailed (t\<lparr>conn := None, shaking := filter (\<lambda>(m, _). m \<noteq> n) (shaking t)\<rparr>)
      in (os @ [EndClient n, ConnectRejected a ph], t1))"

definition config_built :: "nat \<Rightarrow> bool \<Rightarrow> transport \<Rightarrow> transport_out list \<times> transport" where
  "config_built a throws t =
     (if a \<notin> set (building t) then ([], t)
      else
        let n = nextClient t;
            t1 = t\<lparr>building := remove1 a (building t), conn := Some n, nextClient := n + 1,
                   shaking := shaking t @ [(n, a)]\<rparr>
        in if throws then fail_handshake n a PConnect t1 else ([], t1))"

definition on_ready :: "nat \<Rightarrow> transport \<Rightarrow> transport_out list \<times> transport" where
  "on_ready n t =
     (case map_of (shaking t) n of
        None \<Rightarrow> ([], t)
      | Some a \<Rightarrow>
          (let (os, t1) = setState TConnected
             (t\<lparr>shaking := filter (\<lambda>(m, _). m \<noteq> n) (shaking t), watched := watched t @ [n]\<rparr>)
           in (os @ [Connected a], t1)))"

text \<open>An \<open>error\<close> event of a client whose handshake listeners are gone has no listener: Node throws it.\<close>

definition on_error :: "nat \<Rightarrow> error_phase \<Rightarrow> transport \<Rightarrow> transport_out list \<times> transport" where
  "on_error n ph t =
     (case map_of (shaking t) n of None \<Rightarrow> ([UncaughtError n], t) | Some a \<Rightarrow> fail_handshake n a ph t)"

definition on_close :: "nat \<Rightarrow> transport \<Rightarrow> transport_out list \<times> transport" where
  "on_close n t =
     (if n \<notin> set (watched t) then ([], t)
      else
        let t1 = t\<lparr>watched := filter (\<lambda>m. m \<noteq> n) (watched t)\<rparr>
        in if conn t = Some n then setState TDisconnected (t1\<lparr>conn := None\<rparr>) else ([], t1))"

text \<open>A disconnect whose streams and client have ended (or whose fallback timers fired).\<close>

definition ended :: "nat \<Rightarrow> transport \<Rightarrow> transport_out list \<times> transport" where
  "ended n t =
     (case map_of (closing t) n of
        None \<Rightarrow> ([], t)
      | Some (owner, ss) \<Rightarrow>
          (let (os, t1) = setState TDisconnected
             (t\<lparr>closing := filter (\<lambda>(m, _). m \<noteq> n) (closing t),
                streams := filter (\<lambda>s. s \<notin> set ss) (streams t)\<rparr>)
           in case owner of
                None \<Rightarrow> (os @ [EndClient n, Disconnected], t1)
              | Some a \<Rightarrow> (let (os2, t2) = start_connect a t1 in (os @ [EndClient n] @ os2, t2))))"

fun transport_step :: "transport_event \<Rightarrow> transport \<Rightarrow> transport_out list \<times> transport" where
  "transport_step (EConnect a) t = connect a t"
| "transport_step (EConfigFails a ph) t =
     (if a \<notin> set (building t) then ([], t)
      else let (os, t1) = setState TFailed (t\<lparr>building := remove1 a (building t)\<rparr>)
           in (os @ [ConnectRejected a ph], t1))"
| "transport_step (EConfigBuilt a throws) t = config_built a throws t"
| "transport_step (EReady n) t = on_ready n t"
| "transport_step (EError n ph) t = on_error n ph t"
| "transport_step (EClose n) t = on_close n t"
| "transport_step EDisconnect t = start_disconnect None t"
| "transport_step (EEnded n) t = ended n t"
| "transport_step (EStreamOpen s) t =
     (if tryClient t = None then ([], t) else ([], t\<lparr>streams := oset_add s (streams t)\<rparr>))"
| "transport_step (EStreamGone s) t = ([], t\<lparr>streams := filter (\<lambda>x. x \<noteq> s) (streams t)\<rparr>)"

fun transport_run :: "transport_event list \<Rightarrow> transport \<Rightarrow> transport_out list \<times> transport" where
  "transport_run [] t = ([], t)"
| "transport_run (e # es) t =
     (let (o1, t1) = transport_step e t; (o2, t2) = transport_run es t1 in (o1 @ o2, t2))"

section \<open>Every connect call settles\<close>

fun call_of :: "transport_event \<Rightarrow> nat list" where
  "call_of (EConnect a) = [a]"
| "call_of _ = []"

fun settled_call :: "transport_out \<Rightarrow> nat list" where
  "settled_call (Connected a) = [a]"
| "settled_call (ConnectRejected a _) = [a]"
| "settled_call _ = []"

definition settled_calls :: "transport_out list \<Rightarrow> nat list" where
  "settled_calls os = concat (map settled_call os)"

definition owners :: "(nat \<times> nat option \<times> nat list) list \<Rightarrow> nat list" where
  "owners cs = List.map_filter (\<lambda>(_, owner, _). owner) cs"

definition in_flight :: "transport \<Rightarrow> nat multiset" where
  "in_flight t = mset (building t) + mset (map snd (shaking t)) + mset (owners (closing t))"

definition clients_ok :: "transport \<Rightarrow> bool" where
  "clients_ok t \<longleftrightarrow> distinct (map fst (shaking t)) \<and> distinct (map fst (closing t))
     \<and> (\<forall>n\<in>fst ` set (shaking t) \<union> fst ` set (closing t) \<union> set_option (conn t) \<union> set (watched t). n < nextClient t)
     \<and> (\<forall>n\<in>set_option (conn t). n \<notin> fst ` set (closing t))"

lemma settled_calls_simps [simp]:
  "settled_calls [] = []" "settled_calls (x # xs) = settled_call x @ settled_calls xs"
  "settled_calls (xs @ ys) = settled_calls xs @ settled_calls ys" "settled_calls (map EndStream ss) = []"
  by (simp_all add: settled_calls_def comp_def)

lemma owners_simps [simp]:
  "owners [] = []" "owners (x # xs) = (case fst (snd x) of None \<Rightarrow> owners xs | Some a \<Rightarrow> a # owners xs)"
  "owners (xs @ ys) = owners xs @ owners ys"
  by (auto simp: owners_def map_filter_def split: option.splits prod.splits)

definition balanced :: "transport \<Rightarrow> nat list \<Rightarrow> transport_out list \<times> transport \<Rightarrow> bool" where
  "balanced t new r \<longleftrightarrow> clients_ok (snd r)
     \<and> mset (settled_calls (fst r)) + in_flight (snd r) = in_flight t + mset new"

lemma drop_key:
  "distinct (map fst m) \<Longrightarrow> map_of m n = Some v \<Longrightarrow>
     mset (map f m) = add_mset (f (n, v)) (mset (map f (filter (\<lambda>(k, _). k \<noteq> n) m)))"
proof (induction m)
  case Nil
  then show ?case by simp
next
  case (Cons x m)
  show ?case
  proof (cases "fst x = n")
    case True
    with Cons.prems have "\<forall>y\<in>set m. fst y \<noteq> n" by (auto simp: image_iff)
    then have "filter (\<lambda>(k, _). k \<noteq> n) m = m" by (auto simp: filter_id_conv)
    with True Cons.prems show ?thesis by (cases x) simp
  next
    case False
    with Cons show ?thesis by (cases x) simp
  qed
qed

lemma drop_owner:
  "distinct (map fst m) \<Longrightarrow> map_of m n = Some (owner, ss) \<Longrightarrow>
     mset (owners m) = (case owner of None \<Rightarrow> {#} | Some a \<Rightarrow> {#a#}) + mset (owners (filter (\<lambda>(k, _). k \<noteq> n) m))"
proof (induction m)
  case Nil
  then show ?case by simp
next
  case (Cons x m)
  show ?case
  proof (cases "fst x = n")
    case True
    with Cons.prems have "\<forall>y\<in>set m. fst y \<noteq> n" by (auto simp: image_iff)
    then have "filter (\<lambda>(k, _). k \<noteq> n) m = m" by (auto simp: filter_id_conv)
    with True Cons.prems show ?thesis by (cases x) (auto split: option.splits)
  next
    case False
    with Cons show ?thesis by (cases x) (auto split: option.splits)
  qed
qed

lemma filter_keys:
  "distinct (map fst m) \<Longrightarrow> distinct (map fst (filter P m))"
  "fst ` set (filter P m) \<subseteq> fst ` set m"
  by (simp_all add: distinct_map_filter) auto

lemma clients_ok_less: "clients_ok t \<Longrightarrow> nextClient t \<notin> fst ` set (shaking t)"
  by (force simp: clients_ok_def)

lemma clients_ok_drop_shaking:
  "clients_ok t \<Longrightarrow> clients_ok (t\<lparr>shaking := filter P (shaking t)\<rparr>)"
  "clients_ok t \<Longrightarrow> clients_ok (t\<lparr>conn := None\<rparr>)"
  "clients_ok t \<Longrightarrow> clients_ok (t\<lparr>stateValue := s\<rparr>)"
  "clients_ok t \<Longrightarrow> clients_ok (t\<lparr>building := b\<rparr>)"
  "clients_ok t \<Longrightarrow> clients_ok (t\<lparr>streams := ss\<rparr>)"
  "clients_ok t \<Longrightarrow> clients_ok (t\<lparr>watched := filter Q (watched t)\<rparr>)"
  "clients_ok t \<Longrightarrow> clients_ok (t\<lparr>closing := filter R (closing t)\<rparr>)"
proof -
  assume ok: "clients_ok t"
  have d: "distinct (map fst (filter P (shaking t)))" "distinct (map fst (filter R (closing t)))"
    using ok by (auto simp: clients_ok_def intro: filter_keys)
  show "clients_ok (t\<lparr>shaking := filter P (shaking t)\<rparr>)" "clients_ok (t\<lparr>closing := filter R (closing t)\<rparr>)"
    using ok d by (auto simp: clients_ok_def)
qed (auto simp: clients_ok_def)

lemma fail_handshake_balanced:
  assumes "clients_ok t" and "map_of (shaking t) n = Some a"
  shows "balanced t [] (fail_handshake n a ph t)"
proof -
  have "mset (map snd (shaking t)) = add_mset a (mset (map snd (filter (\<lambda>(m, _). m \<noteq> n) (shaking t))))"
    using drop_key [of "shaking t" n a snd] assms by (simp add: clients_ok_def)
  moreover have "clients_ok (t\<lparr>conn := None, shaking := filter (\<lambda>(m, _). m \<noteq> n) (shaking t), stateValue := TFailed\<rparr>)"
    using clients_ok_drop_shaking(3) [OF clients_ok_drop_shaking(1) [OF clients_ok_drop_shaking(2) [OF assms(1)],
        of "\<lambda>(m, _). m \<noteq> n"], of TFailed] by simp
  ultimately show ?thesis
    by (simp add: balanced_def fail_handshake_def setState_def in_flight_def)
qed

lemma config_built_balanced:
  assumes "clients_ok t"
  shows "balanced t [] (config_built a throws t)"
proof (cases "a \<in> set (building t)")
  case True
  let ?n = "nextClient t"
  let ?t1 = "t\<lparr>building := remove1 a (building t), conn := Some ?n, nextClient := ?n + 1,
      shaking := shaking t @ [(?n, a)]\<rparr>"
  have ok1: "clients_ok ?t1" using assms clients_ok_less [OF assms] by (force simp: clients_ok_def less_Suc_eq)
  have fl: "in_flight ?t1 = in_flight t"
    using True by (simp add: in_flight_def)
  have k: "map_of (shaking ?t1) ?n = Some a"
    using map_of_eq_None_iff [of "shaking t" ?n] clients_ok_less [OF assms] by (simp add: map_add_def)
  show ?thesis
  proof (cases throws)
    case True
    with fail_handshake_balanced [OF ok1 k, of PConnect] fl \<open>a \<in> set (building t)\<close> show ?thesis
      by (simp add: config_built_def Let_def balanced_def)
  next
    case False
    with ok1 fl True show ?thesis by (simp add: config_built_def Let_def balanced_def)
  qed
next
  case False
  with assms show ?thesis by (simp add: config_built_def balanced_def)
qed

lemma start_connect_balanced: "clients_ok t \<Longrightarrow> balanced t [a] (start_connect a t)"
  by (simp add: start_connect_def setState_def balanced_def in_flight_def clients_ok_drop_shaking)

lemma start_disconnect_balanced:
  "clients_ok t \<Longrightarrow> conn t \<noteq> None \<or> owner = None \<Longrightarrow>
     balanced t (case owner of None \<Rightarrow> [] | Some a \<Rightarrow> [a]) (start_disconnect owner t)"
  by (cases "conn t"; cases owner)
    (auto simp: start_disconnect_def setState_def balanced_def in_flight_def clients_ok_def)

lemma ended_balanced:
  assumes "clients_ok t"
  shows "balanced t [] (ended n t)"
proof (cases "map_of (closing t) n")
  case None
  with assms show ?thesis by (simp add: ended_def balanced_def)
next
  case (Some x)
  obtain owner ss where x: "x = (owner, ss)" by (cases x)
  have "mset (owners (closing t)) = (case owner of None \<Rightarrow> {#} | Some a \<Rightarrow> {#a#})
      + mset (owners (filter (\<lambda>(k, _). k \<noteq> n) (closing t)))"
    using drop_owner [of "closing t" n owner ss] Some x assms by (simp add: clients_ok_def)
  with Some x assms clients_ok_drop_shaking show ?thesis
    by (cases owner) (simp_all add: ended_def balanced_def start_connect_def setState_def in_flight_def)
qed

lemma step_balanced: "clients_ok t \<Longrightarrow> balanced t (call_of e) (transport_step e t)"
proof (induction e t rule: transport_step.induct)
  case (1 a t)
  then show ?case
    using start_disconnect_balanced [OF 1, of "Some a"] start_connect_balanced [OF 1] by (simp add: connect_def)
next
  case (2 a ph t)
  then show ?case
    by (simp add: balanced_def setState_def in_flight_def clients_ok_drop_shaking)
next
  case (3 a throws t)
  then show ?case by (simp add: config_built_balanced)
next
  case (4 n t)
  show ?case
  proof (cases "map_of (shaking t) n")
    case None
    with 4 show ?thesis by (simp add: on_ready_def balanced_def)
  next
    case (Some a)
    then have "n \<in> fst ` set (shaking t)" by (force dest: map_of_SomeD)
    with 4 have n: "n < nextClient t" by (auto simp: clients_ok_def)
    have "mset (map snd (shaking t)) = add_mset a (mset (map snd (filter (\<lambda>(m, _). m \<noteq> n) (shaking t))))"
      using drop_key [of "shaking t" n a snd] 4 Some by (simp add: clients_ok_def)
    moreover have "clients_ok (t\<lparr>shaking := filter (\<lambda>(m, _). m \<noteq> n) (shaking t), watched := watched t @ [n]\<rparr>)"
      using clients_ok_drop_shaking(1) [OF 4, of "\<lambda>(m, _). m \<noteq> n"] n by (auto simp: clients_ok_def)
    ultimately show ?thesis
      using Some clients_ok_drop_shaking(3)
      by (simp add: on_ready_def setState_def balanced_def in_flight_def)
  qed
next
  case (5 n ph t)
  then show ?case
    using fail_handshake_balanced [OF 5] by (cases "map_of (shaking t) n") (simp_all add: on_error_def balanced_def)
next
  case (6 n t)
  then show ?case
    using clients_ok_drop_shaking(6) [OF 6, of "\<lambda>m. m \<noteq> n"]
    by (simp add: on_close_def Let_def balanced_def setState_def in_flight_def clients_ok_drop_shaking)
next
  case (7 t)
  then show ?case using start_disconnect_balanced [OF 7, of None] by simp
next
  case (8 n t)
  then show ?case by (simp add: ended_balanced)
qed (auto simp: balanced_def in_flight_def clients_ok_drop_shaking)

lemma run_balanced: "clients_ok t \<Longrightarrow> balanced t (concat (map call_of es)) (transport_run es t)"
proof (induction es arbitrary: t)
  case Nil
  then show ?case by (simp add: balanced_def)
next
  case (Cons e es)
  have s: "balanced t (call_of e) (transport_step e t)" by (rule step_balanced [OF Cons.prems])
  then have "clients_ok (snd (transport_step e t))" by (simp add: balanced_def)
  from Cons.IH [OF this] s show ?case
    by (simp add: balanced_def split_beta Let_def ac_simps)
qed

lemma new_transport_ok: "clients_ok new_transport"
  by (simp add: clients_ok_def new_transport_def)

text \<open>
  A connect call is never lost or answered twice: after any events in any order, the
  settled calls and those still in flight (building their configuration, in a handshake, or
  waiting for the old client to end) are together exactly the calls that were made.
\<close>

theorem connects_accounted:
  "let (os, t) = transport_run es new_transport in
     mset (settled_calls os) + in_flight t = mset (concat (map call_of es))"
proof -
  have "in_flight new_transport = {#}" by (simp add: in_flight_def new_transport_def)
  with run_balanced [OF new_transport_ok, of es] show ?thesis by (simp add: balanced_def split_beta Let_def)
qed

section \<open>One call at a time\<close>

text \<open>Callers that wait for a connect or disconnect to finish before they start the next one.\<close>

definition quiet :: "transport \<Rightarrow> bool" where
  "quiet t \<longleftrightarrow> building t = [] \<and> shaking t = [] \<and> closing t = []"

fun allowed :: "transport_event \<Rightarrow> transport \<Rightarrow> bool" where
  "allowed (EConnect a) t = quiet t"
| "allowed EDisconnect t = quiet t"
| "allowed _ t = True"

fun allowed_run :: "transport_event list \<Rightarrow> transport \<Rightarrow> bool" where
  "allowed_run [] t = True"
| "allowed_run (e # es) t = (allowed e t \<and> allowed_run es (snd (transport_step e t)))"

definition serial_shape :: "transport \<Rightarrow> bool" where
  "serial_shape t \<longleftrightarrow> (\<exists>a. building t = [a] \<and> shaking t = [] \<and> closing t = [] \<and> conn t = None \<and> stateValue t = TConnecting)
      \<or> (\<exists>n a. building t = [] \<and> shaking t = [(n, a)] \<and> closing t = [] \<and> conn t = Some n
           \<and> n \<notin> set (watched t) \<and> stateValue t = TConnecting)
      \<or> (\<exists>x. building t = [] \<and> shaking t = [] \<and> closing t = [x] \<and> conn t = None)
      \<or> (quiet t \<and> conn t = None \<and> stateValue t \<in> {TDisconnected, TFailed})
      \<or> (\<exists>c. quiet t \<and> conn t = Some c \<and> c \<in> set (watched t) \<and> stateValue t = TConnected)"

definition serial_inv :: "transport \<Rightarrow> bool" where
  "serial_inv t \<longleftrightarrow> clients_ok t \<and> serial_shape t"

lemma serial_step:
  assumes "serial_inv t" and "allowed e t"
  shows "serial_inv (snd (transport_step e t))"
proof -
  have ok: "clients_ok (snd (transport_step e t))"
    using assms(1) step_balanced [of t e] by (simp add: serial_inv_def balanced_def)
  have fresh: "nextClient t \<notin> set (watched t)"
    using assms(1) by (force simp: serial_inv_def clients_ok_def)
  from assms(1) consider
    (b) a where "building t = [a]" "shaking t = []" "closing t = []" "conn t = None" "stateValue t = TConnecting"
    | (s) n a where "building t = []" "shaking t = [(n, a)]" "closing t = []" "conn t = Some n" "n \<notin> set (watched t)"
        "stateValue t = TConnecting"
    | (c) n ow ss where "building t = []" "shaking t = []" "closing t = [(n, ow, ss)]" "conn t = None"
    | (off) "quiet t" "conn t = None" "stateValue t \<in> {TDisconnected, TFailed}"
    | (on) c where "quiet t" "conn t = Some c" "c \<in> set (watched t)" "stateValue t = TConnected"
    unfolding serial_inv_def serial_shape_def by fastforce
  then have "serial_shape (snd (transport_step e t))"
  proof cases
    case b
    then show ?thesis using assms(2) fresh unfolding serial_shape_def
      by (cases e) (auto simp: quiet_def setState_def config_built_def fail_handshake_def on_ready_def on_error_def
          on_close_def ended_def Let_def)
  next
    case s
    then show ?thesis using assms(2) fresh unfolding serial_shape_def
      by (cases e) (auto simp: quiet_def setState_def config_built_def fail_handshake_def on_ready_def on_error_def
          on_close_def ended_def Let_def)
  next
    case c
    then show ?thesis using assms(2) fresh unfolding serial_shape_def
      by (cases e; cases ow) (auto simp: quiet_def setState_def config_built_def fail_handshake_def on_ready_def on_error_def
          on_close_def ended_def start_connect_def Let_def)
  next
    case off
    then show ?thesis using assms(2) fresh unfolding serial_shape_def
      by (cases e) (auto simp: quiet_def setState_def config_built_def fail_handshake_def on_ready_def on_error_def
          on_close_def ended_def start_connect_def start_disconnect_def connect_def Let_def)
  next
    case on
    then show ?thesis using assms(2) fresh unfolding serial_shape_def
      by (cases e) (auto simp: quiet_def setState_def config_built_def fail_handshake_def on_ready_def on_error_def
          on_close_def ended_def start_connect_def start_disconnect_def connect_def Let_def)
  qed
  with ok show ?thesis by (simp add: serial_inv_def)
qed

lemma serial_run: "serial_inv t \<Longrightarrow> allowed_run es t \<Longrightarrow> serial_inv (snd (transport_run es t))"
  by (induction es arbitrary: t) (auto simp: split_beta Let_def serial_step)

text \<open>
  C25. As long as connects and disconnects are awaited one after the other, the transport hands
  out a client only when that client's handshake succeeded and it has not closed since, and
  between calls it reports the connected state exactly while it holds such a client.
\<close>

theorem serial_transport_safe:
  assumes "allowed_run es new_transport"
  shows "let t = snd (transport_run es new_transport) in
    (\<forall>c. tryClient t = Some c \<longrightarrow> c \<in> set (watched t))
    \<and> (quiet t \<longrightarrow> (stateValue t = TConnected \<longleftrightarrow> conn t \<noteq> None))"
proof -
  have "serial_inv new_transport"
    using new_transport_ok by (simp add: serial_inv_def serial_shape_def quiet_def new_transport_def)
  from serial_run [OF this assms] show ?thesis
    unfolding serial_inv_def serial_shape_def Let_def tryClient_def by (auto simp: quiet_def)
qed

theorem serial_transport_safe_witness:
  "\<exists>c. c \<in> set (watched (snd (transport_run [EConnect 4, EConfigBuilt 4 False, EReady 0] new_transport)))"
proof -
  let ?es = "[EConnect 4, EConfigBuilt 4 False, EReady 0]"
  have a: "allowed_run ?es new_transport" by code_simp
  have "tryClient (snd (transport_run ?es new_transport)) = Some 0" by code_simp
  with serial_transport_safe [OF a] show ?thesis by (auto simp: Let_def)
qed

text \<open>What can happen when they are not awaited, or when a client fails late.\<close>

lemma disconnect_does_not_stop_connect:
  "let t = snd (transport_run [EConnect 0, EDisconnect, EConfigBuilt 0 False, EReady 0] new_transport)
   in stateValue t = TConnected \<and> conn t = Some 0"
  by code_simp

lemma stale_error_fails_live_connection:
  "let t = snd (transport_run [EConnect 0, EConfigBuilt 0 False, EDisconnect, EConnect 1,
       EConfigBuilt 1 False, EReady 1, EError 0 PConnect] new_transport)
   in 1 \<in> set (watched t) \<and> conn t = None \<and> stateValue t = TFailed"
  by code_simp

lemma abandoned_connect_stays_in_flight:
  "in_flight (snd (transport_run [EConnect 0, EConfigBuilt 0 False, EDisconnect, EEnded 0] new_transport)) = {#0#}"
  by (simp add: new_transport_def connect_def start_connect_def start_disconnect_def config_built_def
      ended_def setState_def in_flight_def)

lemma late_error_is_uncaught:
  "fst (transport_run [EConnect 0, EConfigBuilt 0 False, EReady 0, EError 0 PConnect] new_transport) =
     [StateIs TConnecting, StateIs TConnected, Connected 0, UncaughtError 0]"
  by code_simp

section \<open>Replacing the remote executable\<close>

text \<open>
  The remote directory maps paths to files; a file is complete with some content or partial.
  \<open>server\<close> is how the SFTP server answers each request of one replacement. The operations
  return every state the directory goes through, in order.
\<close>

datatype remote_file = Partial | Complete nat

type_synonym remote_dir = "string \<Rightarrow> remote_file option"

datatype posix_answer = PosixDone | PosixUnsupported | PosixThrows | PosixFails
datatype unlink_answer = UnlinkDone | UnlinkNoSuchFile | UnlinkFails

record server =
  putOk :: bool
  chmodOk :: bool
  posixAnswer :: posix_answer
  unlinkAnswer :: unlink_answer
  renameOk :: bool
  cleanupOk :: bool

datatype provision_error = UploadFailed | ChmodFailed | AtomicRenameFailed | RemoveFailed | RenameFailed

type_synonym provision = "remote_dir list \<times> provision_error option"

definition mkdirp :: "bool \<Rightarrow> bool \<Rightarrow> bool" where
  "mkdirp mkdirFails existsAfter = (if \<not> mkdirFails then True else existsAfter)"

definition uploadExecutable :: "server \<Rightarrow> nat \<Rightarrow> string \<Rightarrow> remote_dir \<Rightarrow> provision" where
  "uploadExecutable s content path d =
     (let d1 = d(path \<mapsto> Partial); d2 = d(path \<mapsto> Complete content)
      in if \<not> putOk s then ([d1], Some UploadFailed)
         else if \<not> chmodOk s then ([d1, d2], Some ChmodFailed)
         else ([d1, d2], None))"

definition move :: "string \<Rightarrow> string \<Rightarrow> remote_dir \<Rightarrow> remote_dir" where
  "move src dst d = d(dst := d src, src := None)"

definition renameOver :: "server \<Rightarrow> string \<Rightarrow> string \<Rightarrow> remote_dir \<Rightarrow> provision" where
  "renameOver s src dst d =
     (case posixAnswer s of
        PosixDone \<Rightarrow> ([move src dst d], None)
      | PosixFails \<Rightarrow> ([], Some AtomicRenameFailed)
      | _ \<Rightarrow>
          (let d1 = (if unlinkAnswer s = UnlinkDone then d(dst := None) else d)
           in if unlinkAnswer s = UnlinkFails then ([], Some RemoveFailed)
              else if renameOk s then ([d1, move src dst d1], None)
              else ([d1], Some RenameFailed)))"

definition unlinkQuietly :: "server \<Rightarrow> string \<Rightarrow> remote_dir \<Rightarrow> remote_dir" where
  "unlinkQuietly s path d = (if cleanupOk s then d(path := None) else d)"

definition replaceExecutable :: "server \<Rightarrow> nat \<Rightarrow> string \<Rightarrow> string \<Rightarrow> remote_dir \<Rightarrow> provision" where
  "replaceExecutable s content tmp dest d =
     (let (tr1, e1) = uploadExecutable s content tmp d;
          d1 = last (d # tr1);
          (tr2, e2) = (if e1 = None then renameOver s tmp dest d1 else ([], e1));
          d2 = last (d1 # tr2)
      in if e2 = None then (tr1 @ tr2, None) else (tr1 @ tr2 @ [unlinkQuietly s tmp d2], e2))"

text \<open>
  C26. Replacing the helper binary never exposes a partial file: at every moment the final path
  holds what it held before, the complete new binary, or (only when the server lacks the
  atomic rename) nothing; success means the complete new binary and no temporary file, every
  failure removes the temporary file if the server still allows it, and no other path changes.
\<close>

theorem replace_never_partial:
  assumes "tmp \<noteq> dest"
  shows "let (tr, e) = replaceExecutable s content tmp dest d; final = last tr in
    (\<forall>x\<in>set tr. (x dest = d dest \<or> x dest = Some (Complete content)
         \<or> (x dest = None \<and> posixAnswer s \<in> {PosixUnsupported, PosixThrows}))
       \<and> (\<forall>q. q \<noteq> dest \<and> q \<noteq> tmp \<longrightarrow> x q = d q))
    \<and> (e = None \<longrightarrow> final dest = Some (Complete content) \<and> final tmp = None)
    \<and> (e \<noteq> None \<and> cleanupOk s \<longrightarrow> final tmp = None)
    \<and> (e = Some UploadFailed \<or> e = Some ChmodFailed \<or> e = Some AtomicRenameFailed \<or> e = Some RemoveFailed
         \<longrightarrow> final dest = d dest)"
  using assms
  by (cases "posixAnswer s"; cases "unlinkAnswer s"; cases "putOk s"; cases "chmodOk s"; cases "renameOk s")
    (simp_all add: replaceExecutable_def uploadExecutable_def renameOver_def unlinkQuietly_def move_def Let_def)

theorem replace_never_partial_witness:
  "snd (replaceExecutable \<lparr>putOk = True, chmodOk = True, posixAnswer = PosixUnsupported, unlinkAnswer = UnlinkDone,
      renameOk = False, cleanupOk = True\<rparr> 2 ''t'' ''h'' [''h'' \<mapsto> Complete 1]) = Some RenameFailed
   \<and> last (fst (replaceExecutable \<lparr>putOk = True, chmodOk = True, posixAnswer = PosixUnsupported, unlinkAnswer = UnlinkDone,
      renameOk = False, cleanupOk = True\<rparr> 2 ''t'' ''h'' [''h'' \<mapsto> Complete 1])) ''t'' = None"
proof -
  let ?s = "\<lparr>putOk = True, chmodOk = True, posixAnswer = PosixUnsupported, unlinkAnswer = UnlinkDone,
      renameOk = False, cleanupOk = True\<rparr>"
  have e: "snd (replaceExecutable ?s 2 ''t'' ''h'' [''h'' \<mapsto> Complete 1]) = Some RenameFailed"
    by (simp add: replaceExecutable_def uploadExecutable_def renameOver_def Let_def)
  have "''t'' \<noteq> ''h''" by simp
  from replace_never_partial [OF this, of ?s 2 "[''h'' \<mapsto> Complete 1]"] e show ?thesis
    unfolding Let_def split_beta by simp
qed

end
