(* ===== verification/WordDiff.thy ===== *)
theory WordDiff
  imports Prelude "HOL-Library.Sublist"
begin

text \<open>
  The word-level diff of \<open>src/renderer/content/wordDiff.ts\<close>: tokens, a longest common
  subsequence by a table filled from the last row and column, the walk through it, and the
  coalesced segments.

  A text is a list over any type of characters; which characters form words (the Unicode
  classes of the token pattern) is the argument \<open>is_word\<close>.
\<close>

section \<open>Tokens\<close>

fun tokenizeWords :: "('c \<Rightarrow> bool) \<Rightarrow> 'c list \<Rightarrow> 'c list list" where
  "tokenizeWords is_word [] = []"
| "tokenizeWords is_word (c # s) =
     (c # takeWhile (\<lambda>d. is_word d = is_word c) s)
       # tokenizeWords is_word (dropWhile (\<lambda>d. is_word d = is_word c) s)"

section \<open>Longest common subsequence\<close>

text \<open>One row of the table: row \<open>i\<close> from row \<open>i + 1\<close>, right to left.\<close>

fun dp_row :: "'a \<Rightarrow> 'a list \<Rightarrow> nat list \<Rightarrow> nat list" where
  "dp_row x (y # ys) (d # ds) =
     (let r = dp_row x ys ds in (if x = y then Suc (hd ds) else max d (hd r)) # r)"
| "dp_row x _ _ = [0]"

fun dp_table :: "'a list \<Rightarrow> 'a list \<Rightarrow> nat list list" where
  "dp_table [] b = [replicate (Suc (length b)) 0]"
| "dp_table (x # xs) b = (let t = dp_table xs b in dp_row x b (hd t) # t)"

function backtrack :: "'a list \<Rightarrow> 'a list \<Rightarrow> nat list list \<Rightarrow> nat \<Rightarrow> nat \<Rightarrow> (nat \<times> nat) list" where
  "backtrack a b dp i j =
     (if i < length a \<and> j < length b then
        if a ! i = b ! j then (i, j) # backtrack a b dp (Suc i) (Suc j)
        else if dp ! Suc i ! j \<ge> dp ! i ! Suc j then backtrack a b dp (Suc i) j
        else backtrack a b dp i (Suc j)
      else [])"
  by pat_completeness auto

termination backtrack
  by (relation "measure (\<lambda>(a, b, _, i, j). (length a - i) + (length b - j))") auto

declare backtrack.simps [simp del]

definition longestCommonSubsequence :: "'a list \<Rightarrow> 'a list \<Rightarrow> (nat \<times> nat) list" where
  "longestCommonSubsequence a b = backtrack a b (dp_table a b) 0 0"

section \<open>Segments\<close>

datatype segment_kind = Equal | Del | Add

type_synonym 'c WordDiffSegment = "segment_kind \<times> 'c list"

definition push_segment :: "segment_kind \<Rightarrow> 'c list \<Rightarrow> 'c WordDiffSegment list \<Rightarrow> 'c WordDiffSegment list" where
  "push_segment kind value segs =
     (if value = [] then segs
      else if segs \<noteq> [] \<and> fst (last segs) = kind
      then butlast segs @ [(kind, snd (last segs) @ value)]
      else segs @ [(kind, value)])"

definition push_range :: "segment_kind \<Rightarrow> 'c list list \<Rightarrow> nat \<Rightarrow> nat \<Rightarrow> 'c WordDiffSegment list \<Rightarrow> 'c WordDiffSegment list" where
  "push_range kind toks i j segs = foldl (\<lambda>s k. push_segment kind (toks ! k) s) segs [i..<j]"

fun diff_loop :: "'c list list \<Rightarrow> 'c list list \<Rightarrow> (nat \<times> nat) list \<Rightarrow> nat \<Rightarrow> nat \<Rightarrow> 'c WordDiffSegment list
    \<Rightarrow> 'c WordDiffSegment list" where
  "diff_loop old new [] oc nc segs =
     push_range Add new nc (length new) (push_range Del old oc (length old) segs)"
| "diff_loop old new ((oi, ni) # anchors) oc nc segs =
     diff_loop old new anchors (Suc oi) (Suc ni)
       (push_segment Equal (new ! ni) (push_range Add new nc ni (push_range Del old oc oi segs)))"

definition diffTokens :: "'c list list \<Rightarrow> 'c list list \<Rightarrow> 'c WordDiffSegment list" where
  "diffTokens old new = diff_loop old new (longestCommonSubsequence old new) 0 0 []"

definition wordDiff :: "('c \<Rightarrow> bool) \<Rightarrow> 'c list \<Rightarrow> 'c list \<Rightarrow> 'c WordDiffSegment list" where
  "wordDiff is_word old new = diffTokens (tokenizeWords is_word old) (tokenizeWords is_word new)"

definition MAX_WORD_DIFF_TOKENS :: nat where "MAX_WORD_DIFF_TOKENS = 600"

definition computeWordDiff :: "('c \<Rightarrow> bool) \<Rightarrow> 'c list \<Rightarrow> 'c list \<Rightarrow> string + 'c WordDiffSegment list" where
  "computeWordDiff is_word old new =
     (let ot = tokenizeWords is_word old; nt = tokenizeWords is_word new in
      if MAX_WORD_DIFF_TOKENS < length ot \<or> MAX_WORD_DIFF_TOKENS < length nt
      then Inl ''item is too large for a word-level diff''
      else let segs = diffTokens ot nt in
        if \<not> list_ex (\<lambda>s. fst s \<noteq> Equal) segs then Inl ''no word-level change detected''
        else Inr segs)"

section \<open>Token lemmas\<close>

lemma tokens_concat [simp]: "concat (tokenizeWords w s) = s"
  by (induction w s rule: tokenizeWords.induct) simp_all

lemma tokens_ne: "t \<in> set (tokenizeWords w s) \<Longrightarrow> t \<noteq> []"
  by (induction w s rule: tokenizeWords.induct) auto

section \<open>The table\<close>

fun lcs :: "'a list \<Rightarrow> 'a list \<Rightarrow> nat" where
  "lcs [] b = 0"
| "lcs (x # xs) [] = 0"
| "lcs (x # xs) (y # ys) = (if x = y then Suc (lcs xs ys) else max (lcs xs (y # ys)) (lcs (x # xs) ys))"

lemma lcs_Nil2 [simp]: "lcs a [] = 0"
  by (cases a) simp_all

lemma dp_row_lcs: "dp_row x b (map (\<lambda>j. lcs xs (drop j b)) [0..<Suc (length b)])
    = map (\<lambda>j. lcs (x # xs) (drop j b)) [0..<Suc (length b)]"
proof (induction b)
  case (Cons y ys)
  have sh: "map (\<lambda>j. f (drop j (y # ys))) [0..<Suc (length (y # ys))]
      = f (y # ys) # map (\<lambda>j. f (drop j ys)) [0..<Suc (length ys)]" for f :: "'a list \<Rightarrow> nat"
    by (simp only: map_upt_Suc length_Cons drop_Suc_Cons drop_0)
  have hd0: "hd (map (\<lambda>j. f (drop j ys)) [0..<Suc (length ys)]) = f ys" for f :: "'a list \<Rightarrow> nat"
    by (simp add: upt_rec)
  show ?case
    unfolding sh dp_row.simps Cons.IH Let_def hd0 by simp
qed simp

lemma dp_table_lcs: "dp_table a b = map (\<lambda>i. map (\<lambda>j. lcs (drop i a) (drop j b)) [0..<Suc (length b)]) [0..<Suc (length a)]"
proof (induction a)
  case Nil
  have "map (\<lambda>j. lcs (drop 0 []) (drop j b)) [0..<Suc (length b)] = replicate (Suc (length b)) 0"
    by (simp add: map_replicate_const del: upt_Suc replicate_Suc)
  moreover have "[0..<Suc (length ([] :: 'a list))] = [0]" by simp
  ultimately show ?case by (simp only: dp_table.simps list.map)
next
  case (Cons x xs)
  have "map (\<lambda>i. map (\<lambda>j. lcs (drop i (x # xs)) (drop j b)) [0..<Suc (length b)]) [0..<Suc (length (x # xs))]
      = map (\<lambda>j. lcs (x # xs) (drop j b)) [0..<Suc (length b)]
          # map (\<lambda>i. map (\<lambda>j. lcs (drop i xs) (drop j b)) [0..<Suc (length b)]) [0..<Suc (length xs)]"
    by (simp only: map_upt_Suc length_Cons drop_Suc_Cons drop_0)
  moreover have "hd (dp_table xs b) = map (\<lambda>j. lcs xs (drop j b)) [0..<Suc (length b)]"
    by (simp add: Cons.IH upt_rec)
  ultimately show ?case by (simp only: dp_table.simps Let_def dp_row_lcs Cons.IH)
qed

lemma dp_table_nth: "i \<le> length a \<Longrightarrow> j \<le> length b \<Longrightarrow> dp_table a b ! i ! j = lcs (drop i a) (drop j b)"
  by (simp add: dp_table_lcs del: upt_Suc)

section \<open>The walk\<close>

fun anchors_ok :: "'a list \<Rightarrow> 'a list \<Rightarrow> nat \<Rightarrow> nat \<Rightarrow> (nat \<times> nat) list \<Rightarrow> bool" where
  "anchors_ok a b i j [] \<longleftrightarrow> True"
| "anchors_ok a b i j ((oi, ni) # ps) \<longleftrightarrow> i \<le> oi \<and> oi < length a \<and> j \<le> ni \<and> ni < length b
     \<and> a ! oi = b ! ni \<and> anchors_ok a b (Suc oi) (Suc ni) ps"

lemma anchors_ok_weaken: "anchors_ok a b i j ps \<Longrightarrow> i' \<le> i \<Longrightarrow> j' \<le> j \<Longrightarrow> anchors_ok a b i' j' ps"
  by (cases ps) auto

lemma backtrack_ok: "anchors_ok a b i j (backtrack a b dp i j)"
proof (induction a b dp i j rule: backtrack.induct)
  case (1 a b dp i j)
  show ?case
  proof (cases "i < length a \<and> j < length b")
    case True
    consider "a ! i = b ! j" | "a ! i \<noteq> b ! j" "dp ! Suc i ! j \<ge> dp ! i ! Suc j"
      | "a ! i \<noteq> b ! j" "\<not> dp ! Suc i ! j \<ge> dp ! i ! Suc j" by blast
    then show ?thesis
    proof cases
      case 1
      with "1.IH"(1) True show ?thesis by (subst backtrack.simps) simp
    next
      case 2
      with anchors_ok_weaken [OF "1.IH"(2) [OF True 2], of i j] True show ?thesis by (subst backtrack.simps) simp
    next
      case 3
      with anchors_ok_weaken [OF "1.IH"(3) [OF True 3], of i j] True show ?thesis by (subst backtrack.simps) simp
    qed
  next
    case False
    then show ?thesis by (subst backtrack.simps) auto
  qed
qed

lemma backtrack_length: "i \<le> length a \<Longrightarrow> j \<le> length b \<Longrightarrow>
   length (backtrack a b (dp_table a b) i j) = lcs (drop i a) (drop j b)"
proof (induction a b "dp_table a b" i j rule: backtrack.induct)
  case (1 a b i j)
  show ?case
  proof (cases "i < length a \<and> j < length b")
    case True
    then have d: "drop i a = a ! i # drop (Suc i) a" "drop j b = b ! j # drop (Suc j) b"
      by (simp_all add: Cons_nth_drop_Suc)
    have t: "dp_table a b ! Suc i ! j = lcs (drop (Suc i) a) (drop j b)"
      "dp_table a b ! i ! Suc j = lcs (drop i a) (drop (Suc j) b)"
      using True by (simp_all add: dp_table_nth)
    consider "a ! i = b ! j" | "a ! i \<noteq> b ! j" "dp_table a b ! Suc i ! j \<ge> dp_table a b ! i ! Suc j"
      | "a ! i \<noteq> b ! j" "\<not> dp_table a b ! Suc i ! j \<ge> dp_table a b ! i ! Suc j" by blast
    then show ?thesis
    proof cases
      case 1
      with "1.hyps"(1) True d show ?thesis by (subst backtrack.simps) simp
    next
      case 2
      have "length (backtrack a b (dp_table a b) (Suc i) j) = lcs (drop (Suc i) a) (drop j b)"
        using "1.hyps"(2) [OF True 2] True by simp
      with 2 True show ?thesis unfolding t by (subst backtrack.simps) (simp add: t, simp add: d)
    next
      case 3
      have "length (backtrack a b (dp_table a b) i (Suc j)) = lcs (drop i a) (drop (Suc j) b)"
        using "1.hyps"(3) [OF True 3] True by simp
      with 3 True show ?thesis unfolding t by (subst backtrack.simps) (simp add: t, simp add: d)
    qed
  next
    case False
    then have "drop i a = [] \<or> drop j b = []" by auto
    then show ?thesis using False by (subst backtrack.simps) auto
  qed
qed

lemma lcs_max: "subseq s a \<Longrightarrow> subseq s b \<Longrightarrow> length s \<le> lcs a b"
proof (induction a b arbitrary: s rule: lcs.induct)
  case (3 x xs y ys)
  show ?case
  proof (cases s)
    case (Cons z zs)
    show ?thesis
    proof (cases "x = y")
      case True
      show ?thesis
      proof (cases "z = x")
        case True
        with 3 Cons \<open>x = y\<close> show ?thesis by simp
      next
        case False
        with 3 Cons \<open>x = y\<close> have "length s \<le> lcs xs ys" by (intro "3.IH"(1)) (simp_all split: if_splits)
        with \<open>x = y\<close> show ?thesis by simp
      qed
    next
      case False
      then consider "z \<noteq> x" | "z \<noteq> y" by blast
      then show ?thesis
      proof cases
        case 1
        with 3 Cons False have "length s \<le> lcs xs (y # ys)" by (intro "3.IH"(2)) (simp_all split: if_splits)
        with False show ?thesis by simp
      next
        case 2
        with 3 Cons False have "length s \<le> lcs (x # xs) ys" by (intro "3.IH"(3)) (simp_all split: if_splits)
        with False show ?thesis by simp
      qed
    qed
  qed simp
qed simp_all

section \<open>Segment lemmas\<close>

text \<open>What the segments say of one side: the text without the other side's segments.\<close>

definition side :: "segment_kind \<Rightarrow> 'c WordDiffSegment list \<Rightarrow> 'c list" where
  "side without segs = concat (map snd (filter (\<lambda>s. fst s \<noteq> without) segs))"

lemma side_append [simp]: "side k (s @ t) = side k s @ side k t"
  by (simp add: side_def)

lemma side_single [simp]: "side k [(l, v)] = (if l = k then [] else v)"
  by (simp add: side_def)

lemma side_Nil [simp]: "side k [] = []"
  by (simp add: side_def)

lemma side_push [simp]: "side k (push_segment l v segs) = side k segs @ (if l = k then [] else v)"
proof (cases "segs \<noteq> [] \<and> fst (last segs) = l")
  case True
  then have s: "segs = butlast segs @ [(l, snd (last segs))]"
    by (metis append_butlast_last_id prod.collapse)
  have "side k segs = side k (butlast segs) @ (if l = k then [] else snd (last segs))"
    by (subst s) (simp only: side_append side_single)
  with True show ?thesis by (simp add: push_segment_def)
next
  case False
  then show ?thesis by (auto simp: push_segment_def)
qed

lemma side_range: "side k (push_range l toks i j segs) = side k segs @ (if l = k then [] else concat (map (nth toks) [i..<j]))"
  unfolding push_range_def
  by (induction j) (auto simp: not_le)

lemma concat_take_nth: "i \<le> j \<Longrightarrow> j \<le> length ts \<Longrightarrow> concat (take i ts) @ concat (map (nth ts) [i..<j]) = concat (take j ts)"
proof (induction j)
  case (Suc j)
  then show ?case by (cases "i \<le> j") (auto simp: take_Suc_conv_app_nth le_Suc_eq simp flip: append_assoc)
qed simp

lemma loop_sides:
  assumes "anchors_ok old new oc nc anchors" "oc \<le> length old" "nc \<le> length new"
    and "side Add segs = concat (take oc old)" "side Del segs = concat (take nc new)"
  shows "side Add (diff_loop old new anchors oc nc segs) = concat old
    \<and> side Del (diff_loop old new anchors oc nc segs) = concat new"
  using assms
proof (induction old new anchors oc nc segs rule: diff_loop.induct)
  case (1 old new oc nc segs)
  then show ?case by (simp add: side_range concat_take_nth)
next
  case (2 old new oi ni anchors oc nc segs)
  show ?case unfolding diff_loop.simps
    by (rule "2.IH") (use "2.prems" in \<open>simp_all add: side_range concat_take_nth take_Suc_conv_app_nth\<close>)
qed

text \<open>Neighbouring segments differ in kind and none is empty.\<close>

definition coalesced :: "'c WordDiffSegment list \<Rightarrow> bool" where
  "coalesced segs \<longleftrightarrow> list_all (\<lambda>s. snd s \<noteq> []) segs \<and> successively (\<lambda>s t. fst s \<noteq> fst t) segs"

lemma successively_snoc:
  "successively P (xs @ [x]) \<longleftrightarrow> successively P xs \<and> (xs \<noteq> [] \<longrightarrow> P (last xs) x)"
  by (cases "xs = []") (simp_all add: successively_append_iff)

lemma coalesced_push: "coalesced segs \<Longrightarrow> coalesced (push_segment k v segs)"
proof (cases "segs \<noteq> [] \<and> fst (last segs) = k")
  case True
  assume c: "coalesced segs"
  obtain xs x where s: "segs = xs @ [x]" using True by (cases segs rule: rev_cases) auto
  with True c show ?thesis by (auto simp: push_segment_def coalesced_def successively_snoc)
qed (auto simp: push_segment_def coalesced_def successively_snoc)

interpretation pushes: stepping "\<lambda>segs n. push_segment k (toks ! n) segs" coalesced for k and toks :: "'c list list"
  by unfold_locales (rule coalesced_push)

lemma coalesced_range: "coalesced segs \<Longrightarrow> coalesced (push_range k toks i j segs)"
  unfolding push_range_def by (rule pushes.run_inv)

lemma coalesced_loop: "coalesced segs \<Longrightarrow> coalesced (diff_loop old new anchors oc nc segs)"
  by (induction old new anchors oc nc segs rule: diff_loop.induct) (auto intro: coalesced_range coalesced_push)

text \<open>Equal texts give one equal segment at most.\<close>

lemma backtrack_same: "i \<le> length a \<Longrightarrow> backtrack a a dp i i = map (\<lambda>k. (k, k)) [i..<length a]"
proof (induction "length a - i" arbitrary: i)
  case (Suc n)
  then have "i < length a" "backtrack a a dp (Suc i) (Suc i) = map (\<lambda>k. (k, k)) [Suc i..<length a]" by simp_all
  then show ?case by (subst backtrack.simps) (simp add: upt_conv_Cons)
qed (subst backtrack.simps, simp)

lemma push_equal: "list_all (\<lambda>s. fst s = Equal) segs \<Longrightarrow> list_all (\<lambda>s. fst s = Equal) (push_segment Equal v segs)"
  by (auto simp: push_segment_def list_all_iff dest: in_set_butlastD)

lemma loop_same:
  "i \<le> length ts \<Longrightarrow> list_all (\<lambda>s. fst s = Equal) segs \<Longrightarrow>
     list_all (\<lambda>s. fst s = Equal) (diff_loop ts ts (map (\<lambda>k. (k, k)) [i..<length ts]) i i segs)"
proof (induction "length ts - i" arbitrary: i segs)
  case (Suc n)
  then have "i < length ts" by simp
  moreover have "list_all (\<lambda>s. fst s = Equal) (diff_loop ts ts (map (\<lambda>k. (k, k)) [Suc i..<length ts]) (Suc i) (Suc i)
      (push_segment Equal (ts ! i) segs))"
    using Suc by (intro Suc.hyps(1)) (simp_all add: push_equal)
  ultimately show ?case by (simp add: upt_conv_Cons push_range_def)
qed (simp add: push_range_def)

lemma wordDiff_sides: "side Add (wordDiff w old new) = old \<and> side Del (wordDiff w old new) = new"
proof -
  have "anchors_ok a b 0 0 (longestCommonSubsequence a b)" for a b :: "'a list list"
    unfolding longestCommonSubsequence_def by (rule backtrack_ok)
  from loop_sides [OF this, of "tokenizeWords w old" "tokenizeWords w new" "[]"]
  show ?thesis by (simp add: wordDiff_def diffTokens_def)
qed

lemma sides_all_equal: "list_all (\<lambda>s. fst s = Equal) segs \<Longrightarrow> side Add segs = side Del segs"
  by (induction segs) (auto simp: side_def)

lemma wordDiff_equal_iff: "list_all (\<lambda>s. fst s = Equal) (wordDiff w old new) \<longleftrightarrow> old = new"
proof
  assume "list_all (\<lambda>s. fst s = Equal) (wordDiff w old new)"
  from sides_all_equal [OF this] wordDiff_sides [of w old new] show "old = new" by simp
next
  assume "old = new"
  then show "list_all (\<lambda>s. fst s = Equal) (wordDiff w old new)"
    using loop_same [of 0 "tokenizeWords w new" "[]"]
    by (simp add: wordDiff_def diffTokens_def longestCommonSubsequence_def backtrack_same)
qed

section \<open>Properties\<close>

text \<open>
  The diff reassembles: without its additions the segments spell the old text exactly,
  without its deletions the new one; no segment is empty and neighbours differ in kind. The
  gate answers with these segments precisely when neither side has more than 600 tokens and
  the texts differ, and otherwise with the reason.
\<close>

theorem word_diff_roundtrip:
  "side Add (wordDiff w old new) = old \<and> side Del (wordDiff w old new) = new \<and> coalesced (wordDiff w old new)
   \<and> computeWordDiff w old new =
       (if 600 < length (tokenizeWords w old) \<or> 600 < length (tokenizeWords w new)
        then Inl ''item is too large for a word-level diff''
        else if old = new then Inl ''no word-level change detected''
        else Inr (wordDiff w old new))"
proof -
  have "coalesced (wordDiff w old new)"
    unfolding wordDiff_def diffTokens_def by (rule coalesced_loop) (simp add: coalesced_def)
  moreover have "(\<not> list_ex (\<lambda>s. fst s \<noteq> Equal) (wordDiff w old new)) \<longleftrightarrow> old = new"
    unfolding wordDiff_equal_iff [of w old new, symmetric] by (simp add: list_ex_iff list_all_iff)
  ultimately show ?thesis using wordDiff_sides [of w old new]
    by (simp add: computeWordDiff_def MAX_WORD_DIFF_TOKENS_def Let_def wordDiff_def)
qed

text \<open>
  C18. The diff is minimal: the anchors pair equal tokens in strictly increasing positions of
  both sides, and no common subsequence of the two token lists is longer, so no smaller set
  of deleted and added tokens turns one into the other.
\<close>

theorem word_diff_minimal:
  assumes "subseq s a" "subseq s b"
  shows "length s \<le> length (longestCommonSubsequence a b) \<and> anchors_ok a b 0 0 (longestCommonSubsequence a b)"
proof -
  have "length (longestCommonSubsequence a b) = lcs a b"
    using backtrack_length [of 0 a 0 b] by (simp add: longestCommonSubsequence_def)
  with lcs_max [OF assms] show ?thesis by (simp add: longestCommonSubsequence_def backtrack_ok)
qed

theorem word_diff_minimal_witness:
  "3 \<le> length (longestCommonSubsequence ''the quick fox'' ''a quiet ox'')
   \<and> longestCommonSubsequence ''ab'' ''ba'' = [(1, 0)]"
proof -
  have "subseq ''qui'' ''the quick fox'' \<and> subseq ''qui'' ''a quiet ox''" by code_simp
  then have "length ''qui'' \<le> length (longestCommonSubsequence ''the quick fox'' ''a quiet ox'')"
    using word_diff_minimal [of "''qui''" "''the quick fox''" "''a quiet ox''"] by blast
  moreover have "longestCommonSubsequence ''ab'' ''ba'' = [(1, 0)]" by code_simp
  ultimately show ?thesis by simp
qed

end
