(* ===== verification/ContentTabs.thy ===== *)
theory ContentTabs
  imports CallbackProtocol
begin

text \<open>
  The Content panel's tabs: \<open>src/renderer/content/tabState.ts\<close>, the store of
  \<open>selectionStore.ts\<close>, and the path resolution of \<open>src/renderer/files/rowMenu.ts\<close> that names a
  tab.

  \<open>localStorage\<close> is an association list in key order; a stored text is represented by what
  \<open>JSON.parse\<close> makes of it, \<open>None\<close> when it throws. Storage calls succeed (the code's
  best-effort \<open>catch\<close> branches for quota errors are left out).
\<close>

section \<open>Paths\<close>

datatype connection = LocalRoot string | RemoteRoot string

definition absoluteUnder :: "string \<Rightarrow> string \<Rightarrow> string" where
  "absoluteUnder base relPath = rev (dropWhile (\<lambda>c. c = CHR ''/'') (rev base)) @ ''/'' @ relPath"

definition projectRootPath :: "connection option \<Rightarrow> string" where
  "projectRootPath project =
     (case project of None \<Rightarrow> [] | Some (LocalRoot r) \<Rightarrow> r | Some (RemoteRoot r) \<Rightarrow> r)"

definition resolveAbsolutePath :: "string \<Rightarrow> string \<Rightarrow> connection option \<Rightarrow> string" where
  "resolveAbsolutePath relPath worktree project =
     (if startsWith relPath ''/'' then relPath
      else absoluteUnder (if worktree \<noteq> [] then worktree else projectRootPath project) relPath)"

section \<open>Tabs\<close>

datatype content_kind = ChangeKind | FileKind | ExternalFileKind

record ContentSelection =
  csPath :: string
  csWorktree :: string
  csBaseline :: "string option"
  csKind :: content_kind
  csOldPath :: "string option option"

type_synonym ContentTab = "string \<times> ContentSelection"

record ContentTabsSlice =
  tabs :: "ContentTab list"
  tabActive :: "string option"

definition EMPTY_TABS :: ContentTabsSlice where
  "EMPTY_TABS = \<lparr>tabs = [], tabActive = None\<rparr>"

definition tabIdFor :: "ContentSelection \<Rightarrow> connection option \<Rightarrow> string" where
  "tabIdFor sel project = resolveAbsolutePath (csPath sel) (csWorktree sel) project"

definition tab_index :: "string \<Rightarrow> ContentTab list \<Rightarrow> nat option" where
  "tab_index i ts = (let k = length (takeWhile (\<lambda>t. fst t \<noteq> i) ts) in if k < length ts then Some k else None)"

definition openTab :: "ContentTabsSlice \<Rightarrow> string \<Rightarrow> ContentSelection \<Rightarrow> ContentTabsSlice" where
  "openTab sl i sel =
     (case tab_index i (tabs sl) of
        None \<Rightarrow> \<lparr>tabs = tabs sl @ [(i, sel)], tabActive = Some i\<rparr>
      | Some k \<Rightarrow> \<lparr>tabs = (tabs sl)[k := (i, sel)], tabActive = Some i\<rparr>)"

definition tab_at :: "ContentTab list \<Rightarrow> nat \<Rightarrow> ContentTab option" where
  "tab_at ts k = (if k < length ts then Some (ts ! k) else None)"

definition closeTab :: "ContentTabsSlice \<Rightarrow> string \<Rightarrow> ContentTabsSlice" where
  "closeTab sl i =
     (case tab_index i (tabs sl) of
        None \<Rightarrow> sl
      | Some k \<Rightarrow>
          let ts = filter (\<lambda>t. fst t \<noteq> i) (tabs sl) in
          if tabActive sl \<noteq> Some i then \<lparr>tabs = ts, tabActive = tabActive sl\<rparr>
          else
            let next = (case tab_at ts k of
                Some t \<Rightarrow> Some t
              | None \<Rightarrow> if k = 0 then None else tab_at ts (k - 1))
            in \<lparr>tabs = ts, tabActive = map_option fst next\<rparr>)"

definition activateTab :: "ContentTabsSlice \<Rightarrow> string \<Rightarrow> ContentTabsSlice" where
  "activateTab sl i =
     (if tabActive sl = Some i \<or> \<not> list_ex (\<lambda>t. fst t = i) (tabs sl) then sl
      else \<lparr>tabs = tabs sl, tabActive = Some i\<rparr>)"

definition activeSelection :: "ContentTabsSlice \<Rightarrow> ContentSelection option" where
  "activeSelection sl = map_option snd (List.find (\<lambda>t. Some (fst t) = tabActive sl) (tabs sl))"

section \<open>Persistence\<close>

definition STORAGE_PREFIX :: string where "STORAGE_PREFIX = ''agent-cockpit:content-tabs:v1:''"

definition storageKey :: "string \<Rightarrow> string" where
  "storageKey projectId = STORAGE_PREFIX @ projectId"

definition kind_name :: "content_kind \<Rightarrow> string" where
  "kind_name k = (case k of ChangeKind \<Rightarrow> ''change'' | FileKind \<Rightarrow> ''file'' | ExternalFileKind \<Rightarrow> ''external-file'')"

text \<open>\<open>isSelection\<close>: the selection a JSON value stands for, when it is one.\<close>

definition isSelection :: "json \<Rightarrow> ContentSelection option" where
  "isSelection v =
     (case v of
        JObj r \<Rightarrow>
          (case (jget r ''path'', jget r ''worktreePath'') of
             (JStr p, JStr w) \<Rightarrow>
               (case (if jget r ''kind'' = JStr ''change'' then Some ChangeKind
                      else if jget r ''kind'' = JStr ''file'' then Some FileKind
                      else if jget r ''kind'' = JStr ''external-file'' then Some ExternalFileKind else None,
                      case jget r ''baseline'' of JUndef \<Rightarrow> Some None | JStr b \<Rightarrow> Some (Some b) | _ \<Rightarrow> None,
                      case jget r ''oldPath'' of JUndef \<Rightarrow> Some None | JNull \<Rightarrow> Some (Some None)
                        | JStr q \<Rightarrow> Some (Some (Some q)) | _ \<Rightarrow> None) of
                  (Some k, Some b, Some q) \<Rightarrow>
                    Some \<lparr>csPath = p, csWorktree = w, csBaseline = b, csKind = k, csOldPath = q\<rparr>
                | _ \<Rightarrow> None)
           | _ \<Rightarrow> None)
      | _ \<Rightarrow> None)"

fun parse_tab_list :: "json list \<Rightarrow> string list \<Rightarrow> ContentTab list \<Rightarrow> ContentTab list" where
  "parse_tab_list [] seen ts = ts"
| "parse_tab_list (JObj r # js) seen ts =
     (case (jget r ''id'', isSelection (jget r ''selection'')) of
        (JStr i, Some sel) \<Rightarrow>
          if i \<in> set seen then parse_tab_list js seen ts else parse_tab_list js (i # seen) (ts @ [(i, sel)])
      | _ \<Rightarrow> parse_tab_list js seen ts)"
| "parse_tab_list (_ # js) seen ts = parse_tab_list js seen ts"

definition parseTabs :: "json option option \<Rightarrow> ContentTabsSlice option" where
  "parseTabs raw =
     (case raw of
        Some (Some (JObj r)) \<Rightarrow>
          (case jget r ''tabs'' of
             JArr js \<Rightarrow>
               let ts = parse_tab_list js [] [] in
               Some \<lparr>tabs = ts, tabActive =
                 (case jget r ''activeId'' of
                    JStr a \<Rightarrow> if a \<in> fst ` set ts then Some a else map_option fst (tab_at ts 0)
                  | _ \<Rightarrow> map_option fst (tab_at ts 0))\<rparr>
           | _ \<Rightarrow> None)
      | _ \<Rightarrow> None)"

definition selection_json :: "ContentSelection \<Rightarrow> json" where
  "selection_json s = JObj
     ([(''path'', JStr (csPath s)), (''worktreePath'', JStr (csWorktree s))]
      @ (case csBaseline s of None \<Rightarrow> [] | Some b \<Rightarrow> [(''baseline'', JStr b)])
      @ [(''kind'', JStr (kind_name (csKind s)))]
      @ (case csOldPath s of None \<Rightarrow> [] | Some None \<Rightarrow> [(''oldPath'', JNull)] | Some (Some q) \<Rightarrow> [(''oldPath'', JStr q)]))"

definition slice_json :: "ContentTabsSlice \<Rightarrow> json" where
  "slice_json sl = JObj
     [(''tabs'', JArr (map (\<lambda>(i, s). JObj [(''id'', JStr i), (''selection'', selection_json s)]) (tabs sl))),
      (''activeId'', (case tabActive sl of None \<Rightarrow> JNull | Some a \<Rightarrow> JStr a))]"

type_synonym local_storage = "(string \<times> json option) list"

definition loadTabs :: "local_storage \<Rightarrow> string \<Rightarrow> ContentTabsSlice option" where
  "loadTabs ls projectId = parseTabs (map_of ls (storageKey projectId))"

definition saveTabs :: "string \<Rightarrow> ContentTabsSlice \<Rightarrow> local_storage \<Rightarrow> local_storage" where
  "saveTabs projectId sl ls =
     (if tabs sl = [] then omap_del (storageKey projectId) ls
      else omap_set (storageKey projectId) (Some (slice_json sl)) ls)"

text \<open>The descending loop over \<open>localStorage.key(i)\<close>; the argument is \<open>i + 1\<close>.\<close>

fun clear_from :: "nat \<Rightarrow> local_storage \<Rightarrow> local_storage" where
  "clear_from 0 ls = ls"
| "clear_from (Suc i) ls =
     clear_from i (if i < length ls \<and> startsWith (fst (ls ! i)) STORAGE_PREFIX
                   then omap_del (fst (ls ! i)) ls else ls)"

definition clearAllPersistedTabs :: "local_storage \<Rightarrow> local_storage" where
  "clearAllPersistedTabs ls = clear_from (length ls) ls"

section \<open>The store\<close>

record content_store =
  slices :: "string \<rightharpoonup> ContentTabsSlice"
  persistedTabs :: "string \<rightharpoonup> ContentTabsSlice"
  storage :: local_storage

definition fresh_store :: "local_storage \<Rightarrow> content_store" where
  "fresh_store ls = \<lparr>slices = Map.empty, persistedTabs = Map.empty, storage = ls\<rparr>"

definition persistedFor :: "string \<Rightarrow> content_store \<Rightarrow> ContentTabsSlice \<times> content_store" where
  "persistedFor p st =
     (case persistedTabs st p of
        Some sl \<Rightarrow> (sl, st)
      | None \<Rightarrow>
          let sl = (case loadTabs (storage st) p of None \<Rightarrow> EMPTY_TABS | Some s \<Rightarrow> s)
          in (sl, st\<lparr>persistedTabs := (persistedTabs st)(p \<mapsto> sl)\<rparr>))"

definition sliceFor :: "string option \<Rightarrow> content_store \<Rightarrow> ContentTabsSlice \<times> content_store" where
  "sliceFor project st =
     (case project of
        None \<Rightarrow> (EMPTY_TABS, st)
      | Some p \<Rightarrow>
          if p = [] then (EMPTY_TABS, st)
          else (case slices st p of Some sl \<Rightarrow> (sl, st) | None \<Rightarrow> persistedFor p st))"

text \<open>
  \<open>update\<close>; \<open>same\<close> says when \<open>next\<close> returns the very slice it was given, so that nothing is
  stored.
\<close>

definition update_tabs :: "string \<Rightarrow> (ContentTabsSlice \<Rightarrow> ContentTabsSlice) \<Rightarrow> (ContentTabsSlice \<Rightarrow> bool)
    \<Rightarrow> content_store \<Rightarrow> content_store" where
  "update_tabs p next same st =
     (let (current, st1) = sliceFor (Some p) st; sl = next current in
      if same current then st1
      else st1\<lparr>storage := saveTabs p sl (storage st1), slices := (slices st1)(p \<mapsto> sl)\<rparr>)"

definition select_content :: "(string \<times> connection) list \<Rightarrow> string \<Rightarrow> ContentSelection \<Rightarrow> content_store \<Rightarrow> content_store" where
  "select_content projects p sel st =
     update_tabs p (\<lambda>sl. openTab sl (tabIdFor sel (map_of projects p)) sel) (\<lambda>_. False) st"

definition activate_content :: "string \<Rightarrow> string \<Rightarrow> content_store \<Rightarrow> content_store" where
  "activate_content p i st =
     update_tabs p (\<lambda>sl. activateTab sl i)
       (\<lambda>sl. tabActive sl = Some i \<or> \<not> list_ex (\<lambda>t. fst t = i) (tabs sl)) st"

definition close_content :: "string \<Rightarrow> string \<Rightarrow> content_store \<Rightarrow> content_store" where
  "close_content p i st = update_tabs p (\<lambda>sl. closeTab sl i) (\<lambda>sl. tab_index i (tabs sl) = None) st"

definition clear_content :: "string \<Rightarrow> content_store \<Rightarrow> content_store" where
  "clear_content p st =
     update_tabs p (\<lambda>sl. if tabs sl = [] then sl else EMPTY_TABS) (\<lambda>sl. tabs sl = []) st"

definition selectionFor :: "string \<Rightarrow> content_store \<Rightarrow> ContentSelection option \<times> content_store" where
  "selectionFor p st = (let (sl, st1) = sliceFor (Some p) st in (activeSelection sl, st1))"

definition resetAll :: "content_store \<Rightarrow> content_store" where
  "resetAll st = st\<lparr>persistedTabs := Map.empty, storage := clearAllPersistedTabs (storage st), slices := Map.empty\<rparr>"

datatype content_call =
    SelectContent "(string \<times> connection) list" string ContentSelection
  | ActivateContent string string | CloseContent string string | ClearContent string
  | ReadContent string | ResetContent

fun content_step :: "content_store \<Rightarrow> content_call \<Rightarrow> content_store" where
  "content_step st (SelectContent ps p sel) = select_content ps p sel st"
| "content_step st (ActivateContent p i) = activate_content p i st"
| "content_step st (CloseContent p i) = close_content p i st"
| "content_step st (ClearContent p) = clear_content p st"
| "content_step st (ReadContent p) = snd (selectionFor p st)"
| "content_step st ResetContent = resetAll st"

section \<open>The slice invariant\<close>

definition slice_ok :: "ContentTabsSlice \<Rightarrow> bool" where
  "slice_ok sl \<longleftrightarrow> distinct (map fst (tabs sl))
     \<and> (case tabActive sl of None \<Rightarrow> tabs sl = [] | Some a \<Rightarrow> a \<in> fst ` set (tabs sl))"

lemma tab_index_None: "tab_index i ts = None \<longleftrightarrow> i \<notin> fst ` set ts"
proof -
  have "length (takeWhile P ts) < length ts \<longleftrightarrow> (\<exists>t\<in>set ts. \<not> P t)" for P
    by (induction ts) auto
  then show ?thesis by (auto simp: tab_index_def Let_def)
qed

lemma tab_index_at:
  "i \<notin> fst ` set xs \<Longrightarrow> tab_index i (xs @ (i, sel) # ys) = Some (length xs)"
proof -
  assume "i \<notin> fst ` set xs"
  then have "\<forall>t\<in>set xs. fst t \<noteq> i" by force
  then show ?thesis by (simp add: tab_index_def Let_def)
qed

lemma tab_index_split:
  assumes "tab_index i ts = Some k"
  obtains xs sel ys where "ts = xs @ (i, sel) # ys" "k = length xs" "i \<notin> fst ` set xs"
proof -
  from assms have "i \<in> fst ` set ts" using tab_index_None [of i ts] by auto
  then obtain t where t: "t \<in> set ts" "fst t = i" by auto
  from split_list_first_propE [of ts "\<lambda>t. fst t = i"] t
  obtain xs u ys where u: "ts = xs @ u # ys" "fst u = i" "\<forall>t\<in>set xs. fst t \<noteq> i" by blast
  then have n: "i \<notin> fst ` set xs" by auto
  have "u = (i, snd u)" using u(2) by (cases u) simp
  with u(1) have e: "ts = xs @ (i, snd u) # ys" by simp
  from tab_index_at [OF n, of "snd u" ys] assms e have "k = length xs" by simp
  with e n that show ?thesis by blast
qed

lemma slice_ok_empty [simp]: "slice_ok EMPTY_TABS"
  by (simp add: slice_ok_def EMPTY_TABS_def)

lemma slice_ok_open: "slice_ok sl \<Longrightarrow> slice_ok (openTab sl i sel)"
proof (cases "tab_index i (tabs sl)")
  case None
  assume "slice_ok sl"
  with None tab_index_None [of i "tabs sl"] show ?thesis by (simp add: openTab_def slice_ok_def)
next
  case (Some k)
  assume ok: "slice_ok sl"
  from Some obtain xs s0 ys where t: "tabs sl = xs @ (i, s0) # ys" "k = length xs"
    by (elim tab_index_split)
  with ok Some show ?thesis by (simp add: openTab_def slice_ok_def)
qed

text \<open>Closing a tab: what remains, and the neighbour that becomes active.\<close>

lemma closeTab_split:
  assumes "slice_ok sl" "tabs sl = xs @ (i, s0) # ys" "i \<notin> fst ` set xs"
  shows "closeTab sl i = \<lparr>tabs = xs @ ys, tabActive =
     (if tabActive sl \<noteq> Some i then tabActive sl
      else if ys \<noteq> [] then Some (fst (hd ys)) else if xs \<noteq> [] then Some (fst (last xs)) else None)\<rparr>"
proof -
  have "i \<notin> fst ` set ys" using assms(1,2) by (simp add: slice_ok_def)
  with assms(3) have "\<forall>t\<in>set xs. fst t \<noteq> i" "\<forall>t\<in>set ys. fst t \<noteq> i" by force+
  then have f: "filter (\<lambda>t. fst t \<noteq> i) (tabs sl) = xs @ ys" by (simp add: assms(2))
  have k: "tab_index i (tabs sl) = Some (length xs)" using tab_index_at [OF assms(3)] by (simp add: assms(2))
  have "tab_at (xs @ ys) (length xs) = (if ys \<noteq> [] then Some (hd ys) else None)"
    by (cases ys) (simp_all add: tab_at_def)
  moreover have "ys = [] \<Longrightarrow> xs \<noteq> [] \<Longrightarrow> tab_at (xs @ ys) (length xs - 1) = Some (last xs)"
    by (simp add: tab_at_def last_conv_nth)
  ultimately show ?thesis by (auto simp: closeTab_def k f Let_def)
qed

lemma slice_ok_close: "slice_ok sl \<Longrightarrow> slice_ok (closeTab sl i)"
proof (cases "tab_index i (tabs sl)")
  case None
  then show "slice_ok sl \<Longrightarrow> ?thesis" by (simp add: closeTab_def)
next
  case (Some k)
  assume ok: "slice_ok sl"
  from Some obtain xs s0 ys where t: "tabs sl = xs @ (i, s0) # ys" "i \<notin> fst ` set xs"
    by (elim tab_index_split)
  show ?thesis unfolding closeTab_split [OF ok t]
    using ok t by (cases ys; cases xs rule: rev_cases) (auto simp: slice_ok_def split: option.splits)
qed

lemma slice_ok_activate: "slice_ok sl \<Longrightarrow> slice_ok (activateTab sl i)"
  by (auto simp: activateTab_def slice_ok_def list_ex_iff)

section \<open>Reading back what was stored\<close>

lemma isSelection_json: "isSelection (selection_json s) = Some s"
proof -
  have "jget [] k = JUndef" "jget ((k', v) # r) k = (if k' = k then v else jget r k)" for k k' v r
    by (simp_all add: jget_def)
  note get = this
  show ?thesis
    by (cases "csBaseline s"; cases "csOldPath s"; cases "csKind s")
      (auto simp: isSelection_def selection_json_def get kind_name_def split: option.splits)
qed

lemma parse_tab_list_json:
  "distinct (map fst ts) \<Longrightarrow> set seen \<inter> fst ` set ts = {} \<Longrightarrow>
     parse_tab_list (map (\<lambda>(i, s). JObj [(''id'', JStr i), (''selection'', selection_json s)]) ts) seen acc = acc @ ts"
proof (induction ts arbitrary: seen acc)
  case (Cons t ts)
  obtain i s where t: "t = (i, s)" by (cases t)
  have "parse_tab_list (map (\<lambda>(i, s). JObj [(''id'', JStr i), (''selection'', selection_json s)]) ts)
      (i # seen) (acc @ [(i, s)]) = (acc @ [(i, s)]) @ ts"
    using Cons.prems t by (intro Cons.IH) auto
  then show ?case using Cons.prems t by (simp add: jget_def isSelection_json)
qed simp

lemma parse_slice_json: "slice_ok sl \<Longrightarrow> parseTabs (Some (Some (slice_json sl))) = Some sl"
  by (cases sl) (auto simp: parseTabs_def slice_json_def jget_def slice_ok_def parse_tab_list_json tab_at_def
      split: option.splits)

lemma parse_tab_list_distinct:
  "distinct (map fst acc) \<Longrightarrow> set seen = fst ` set acc \<Longrightarrow> distinct (map fst (parse_tab_list js seen acc))"
  by (induction js seen acc rule: parse_tab_list.induct) (auto split: json.splits option.splits)

lemma parseTabs_ok: "parseTabs raw = Some sl \<Longrightarrow> slice_ok sl"
proof -
  have "slice_ok \<lparr>tabs = ts, tabActive = map_option fst (tab_at ts 0)\<rparr>" if "distinct (map fst ts)" for ts :: "ContentTab list"
    using that by (cases ts) (auto simp: slice_ok_def tab_at_def)
  moreover have "distinct (map fst (parse_tab_list js [] []))" for js by (rule parse_tab_list_distinct) simp_all
  ultimately show "parseTabs raw = Some sl \<Longrightarrow> slice_ok sl"
    by (auto simp: parseTabs_def Let_def split: option.splits json.splits if_splits) (force simp: slice_ok_def)+
qed

section \<open>The store and its storage agree\<close>

definition loaded :: "content_store \<Rightarrow> string \<Rightarrow> ContentTabsSlice" where
  "loaded st p = (case loadTabs (storage st) p of None \<Rightarrow> EMPTY_TABS | Some s \<Rightarrow> s)"

definition store_inv :: "content_store \<Rightarrow> bool" where
  "store_inv st \<longleftrightarrow> distinct (map fst (storage st))
     \<and> (\<forall>p sl. slices st p = Some sl \<longrightarrow> slice_ok sl \<and> loaded st p = sl)
     \<and> (\<forall>p sl. slices st p = None \<longrightarrow> persistedTabs st p = Some sl \<longrightarrow> loaded st p = sl)"

lemma loaded_ok: "slice_ok (loaded st p)"
  by (auto simp: loaded_def loadTabs_def split: option.splits dest: parseTabs_ok)

lemma storageKey_inj [simp]: "storageKey p = storageKey q \<longleftrightarrow> p = q"
  by (simp add: storageKey_def)

lemma empty_slice: "slice_ok sl \<Longrightarrow> tabs sl = [] \<Longrightarrow> sl = EMPTY_TABS"
  by (cases sl) (auto simp: slice_ok_def EMPTY_TABS_def split: option.splits)

lemma load_saved:
  assumes "slice_ok sl" "storage st' = saveTabs p sl (storage st)"
  shows "loaded st' q = (if q = p then sl else loaded st q)"
proof (cases "tabs sl = []")
  case True
  with empty_slice [OF assms(1)] assms(2) show ?thesis
    by (simp add: loaded_def loadTabs_def saveTabs_def omap_get_del parseTabs_def)
next
  case False
  with parse_slice_json [OF assms(1)] assms(2) show ?thesis
    by (simp add: loaded_def loadTabs_def saveTabs_def omap_get_set)
qed

lemma sliceFor_spec:
  assumes "store_inv st"
  shows "fst (sliceFor (Some p) st) = (if p = [] then EMPTY_TABS else loaded st p)
    \<and> store_inv (snd (sliceFor (Some p) st)) \<and> storage (snd (sliceFor (Some p) st)) = storage st"
proof (cases "p = []")
  case False
  show ?thesis
  proof (cases "slices st p")
    case None
    with assms False show ?thesis
      by (cases "persistedTabs st p")
        (auto simp: sliceFor_def persistedFor_def store_inv_def loaded_def Let_def split: option.splits)
  next
    case (Some sl)
    with assms False show ?thesis by (auto simp: sliceFor_def store_inv_def)
  qed
qed (use assms in \<open>simp add: sliceFor_def\<close>)

lemma saveTabs_keys: "distinct (map fst ls) \<Longrightarrow> distinct (map fst (saveTabs p sl ls))"
  by (simp add: saveTabs_def omap_distinct_set omap_distinct_del)

lemma update_inv:
  assumes "store_inv st" "\<And>sl. slice_ok sl \<Longrightarrow> slice_ok (next sl)"
  shows "store_inv (update_tabs p next same st)"
proof -
  obtain cur st1 where s: "sliceFor (Some p) st = (cur, st1)" by (cases "sliceFor (Some p) st")
  with sliceFor_spec [OF assms(1), of p] have inv: "store_inv st1" and cur: "slice_ok cur"
    by (auto simp: loaded_ok split: if_splits)
  show ?thesis
  proof (cases "same cur")
    case True
    with s inv show ?thesis by (simp add: update_tabs_def)
  next
    case False
    let ?st = "st1\<lparr>storage := saveTabs p (next cur) (storage st1), slices := (slices st1)(p \<mapsto> next cur)\<rparr>"
    have ok: "slice_ok (next cur)" by (rule assms(2) [OF cur])
    have ld: "loaded ?st q = (if q = p then next cur else loaded st1 q)" for q
      by (rule load_saved [OF ok]) simp
    have "store_inv ?st"
      using inv ok unfolding store_inv_def ld by (simp add: saveTabs_keys)
    with s False show ?thesis by (simp add: update_tabs_def Let_def)
  qed
qed

lemma omap_del_nth:
  assumes "distinct (map fst m)" "i < length m"
  shows "omap_del (fst (m ! i)) m = take i m @ drop (Suc i) m"
proof -
  have m: "m = take i m @ m ! i # drop (Suc i) m" using assms(2) by (rule id_take_nth_drop)
  let ?k = "fst (m ! i)"
  have "distinct (map fst (take i m) @ ?k # map fst (drop (Suc i) m))"
    using assms(1) by (subst (asm) m) simp
  then have "?k \<notin> fst ` set (take i m)" "?k \<notin> fst ` set (drop (Suc i) m)" by auto
  then have "fst x \<noteq> ?k" if "x \<in> set (take i m) \<or> x \<in> set (drop (Suc i) m)" for x
    using that by (metis imageI)
  then have "omap_del ?k (take i m) = take i m \<and> omap_del ?k (drop (Suc i) m) = drop (Suc i) m"
    by (simp add: omap_del_def filter_id_conv case_prod_unfold)
  moreover have "omap_del ?k [m ! i] = []" by (simp add: omap_del_def case_prod_unfold)
  ultimately have "omap_del ?k (take i m @ m ! i # drop (Suc i) m) = take i m @ drop (Suc i) m"
    by (simp add: omap_del_def case_prod_unfold)
  then show ?thesis unfolding m [symmetric] .
qed

lemma clear_from_filter:
  "distinct (map fst ls) \<Longrightarrow> n \<le> length ls \<Longrightarrow>
     clear_from n ls = filter (\<lambda>(k, _). \<not> startsWith k STORAGE_PREFIX) (take n ls) @ drop n ls"
proof (induction n arbitrary: ls)
  case (Suc i)
  then have i: "i < length ls" by simp
  have t: "take (Suc i) ls = take i ls @ [ls ! i]" "drop i ls = ls ! i # drop (Suc i) ls"
    using i by (simp_all add: take_Suc_conv_app_nth Cons_nth_drop_Suc)
  show ?case
  proof (cases "startsWith (fst (ls ! i)) STORAGE_PREFIX")
    case True
    let ?ls = "omap_del (fst (ls ! i)) ls"
    have d: "?ls = take i ls @ drop (Suc i) ls" by (rule omap_del_nth [OF Suc.prems(1) i])
    then have "take i ?ls = take i ls" "drop i ?ls = drop (Suc i) ls" "i \<le> length ?ls" using i by simp_all
    moreover have "distinct (map fst ?ls)" using Suc.prems(1) by (rule omap_distinct_del)
    ultimately show ?thesis using Suc.IH [of ?ls] True i t by (simp add: case_prod_unfold)
  next
    case False
    with Suc.IH [of ls] Suc.prems i t show ?thesis by (simp add: case_prod_unfold)
  qed
qed simp

lemma clearAll_filter:
  "distinct (map fst ls) \<Longrightarrow> clearAllPersistedTabs ls = filter (\<lambda>(k, _). \<not> startsWith k STORAGE_PREFIX) ls"
  by (simp add: clearAllPersistedTabs_def clear_from_filter)

lemma content_step_inv: "store_inv st \<Longrightarrow> store_inv (content_step st c)"
proof (cases c)
  case (SelectContent ps p sel)
  assume "store_inv st"
  then show ?thesis by (simp add: SelectContent select_content_def update_inv slice_ok_open)
next
  case (ActivateContent p i)
  assume "store_inv st"
  then show ?thesis by (simp add: ActivateContent activate_content_def update_inv slice_ok_activate)
next
  case (CloseContent p i)
  assume "store_inv st"
  then show ?thesis by (simp add: CloseContent close_content_def update_inv slice_ok_close)
next
  case (ClearContent p)
  assume "store_inv st"
  then show ?thesis by (simp add: ClearContent clear_content_def update_inv)
next
  case (ReadContent p)
  assume "store_inv st"
  from sliceFor_spec [OF this, of p] show ?thesis by (simp add: ReadContent selectionFor_def split_beta)
next
  case ResetContent
  assume "store_inv st"
  then show ?thesis by (simp add: ResetContent resetAll_def store_inv_def clearAll_filter distinct_map_filter)
qed

interpretation content: stepping content_step store_inv
  by unfold_locales (rule content_step_inv)

text \<open>Storage keys of others are not touched.\<close>

definition foreign :: "local_storage \<Rightarrow> string \<rightharpoonup> json option" where
  "foreign ls = (\<lambda>k. if startsWith k STORAGE_PREFIX then None else map_of ls k)"

lemma foreign_save [simp]: "foreign (saveTabs p sl ls) = foreign ls"
  by (auto simp: foreign_def saveTabs_def storageKey_def omap_get_set omap_get_del fun_eq_iff)

lemma map_of_filter_storage: "map_of (filter (\<lambda>(k, _). P k) ls) k = (if P k then map_of ls k else None)"
  by (induction ls) auto

lemma foreign_step: "store_inv st \<Longrightarrow> foreign (storage (content_step st c)) = foreign (storage st)"
proof -
  assume inv: "store_inv st"
  have up: "foreign (storage (update_tabs p f same st)) = foreign (storage st)" for p f same
    using sliceFor_spec [OF inv, of p] by (auto simp: update_tabs_def split_beta Let_def)
  show ?thesis
  proof (cases c)
    case ResetContent
    from inv show ?thesis
      by (auto simp: ResetContent resetAll_def store_inv_def clearAll_filter foreign_def fun_eq_iff map_of_filter_storage)
  next
    case (ReadContent p)
    with sliceFor_spec [OF inv, of p] show ?thesis by (simp add: selectionFor_def split_beta)
  qed (simp_all add: up select_content_def activate_content_def close_content_def clear_content_def)
qed

lemma foreign_run: "store_inv st \<Longrightarrow> foreign (storage (foldl content_step st calls)) = foreign (storage st)"
  by (induction calls arbitrary: st) (simp_all add: foreign_step content_step_inv)

section \<open>Properties\<close>

text \<open>
  C19. Tabs survive a restart: whatever local storage held and whatever is selected, activated,
  closed, cleared, read or reset, a fresh store over the resulting storage shows every project
  the tabs it has now; its tabs are distinct files with one of them active exactly when there
  are any; and storage entries of others stay as they were.
\<close>

theorem tabs_survive_restart:
  assumes "distinct (map fst ls)" "st = foldl content_step (fresh_store ls) calls"
  shows "fst (sliceFor project (fresh_store (storage st))) = fst (sliceFor project st)
    \<and> slice_ok (fst (sliceFor project st))
    \<and> (\<forall>k. \<not> startsWith k STORAGE_PREFIX \<longrightarrow> map_of (storage st) k = map_of ls k)"
proof -
  have fresh: "store_inv (fresh_store xs)" if "distinct (map fst xs)" for xs
    using that by (simp add: store_inv_def fresh_store_def)
  have inv: "store_inv st" unfolding assms(2) by (rule content.run_inv [OF fresh [OF assms(1)]])
  then have "store_inv (fresh_store (storage st))" by (intro fresh) (simp add: store_inv_def)
  note both = sliceFor_spec [OF this] sliceFor_spec [OF inv]
  have "loaded (fresh_store (storage st)) p = loaded st p" for p by (simp add: loaded_def fresh_store_def)
  with both have "fst (sliceFor project (fresh_store (storage st))) = fst (sliceFor project st)
    \<and> slice_ok (fst (sliceFor project st))"
    by (cases project) (simp_all add: loaded_ok sliceFor_def [of None])
  moreover have "foreign (storage st) = foreign ls"
    using foreign_run [OF fresh [OF assms(1)], of calls] by (simp add: assms(2) fresh_store_def)
  then have "\<forall>k. \<not> startsWith k STORAGE_PREFIX \<longrightarrow> map_of (storage st) k = map_of ls k"
    by (metis foreign_def)
  ultimately show ?thesis by blast
qed

theorem tabs_survive_restart_witness:
  "fst (sliceFor (Some ''p'') (fresh_store (storage (foldl content_step (fresh_store [(''theme'', Some (JStr ''dark''))])
      [SelectContent [(''p'', LocalRoot ''/w/'')] ''p'' \<lparr>csPath = ''a.ts'', csWorktree = [], csBaseline = None,
         csKind = FileKind, csOldPath = None\<rparr>]))))
   = \<lparr>tabs = [(''/w/a.ts'', \<lparr>csPath = ''a.ts'', csWorktree = [], csBaseline = None, csKind = FileKind, csOldPath = None\<rparr>)],
      tabActive = Some ''/w/a.ts''\<rparr>"
proof -
  let ?sel = "\<lparr>csPath = ''a.ts'', csWorktree = [], csBaseline = None, csKind = FileKind, csOldPath = None\<rparr>"
  let ?calls = "[SelectContent [(''p'', LocalRoot ''/w/'')] ''p'' ?sel]"
  let ?ls = "[(''theme'', Some (JStr ''dark''))]"
  let ?st = "foldl content_step (fresh_store ?ls) ?calls"
  have "fst (sliceFor (Some ''p'') (fresh_store (storage ?st))) = fst (sliceFor (Some ''p'') ?st)"
    using tabs_survive_restart [of ?ls ?st ?calls "Some ''p''"] by simp
  also have "fst (sliceFor (Some ''p'') ?st) = \<lparr>tabs = [(''/w/a.ts'', ?sel)], tabActive = Some ''/w/a.ts''\<rparr>"
    by (simp add: select_content_def update_tabs_def sliceFor_def persistedFor_def fresh_store_def loadTabs_def
        storageKey_def STORAGE_PREFIX_def parseTabs_def EMPTY_TABS_def openTab_def tab_index_def tabIdFor_def
        resolveAbsolutePath_def absoluteUnder_def projectRootPath_def Let_def)
  finally show ?thesis .
qed

end
