(* ===== verification/JsSort.thy ===== *)
theory JsSort
  imports Prelude "HOL-Library.Multiset"
begin

text \<open>
  \<open>Array.prototype.sort\<close> with a comparison function: a stable sort. The language fixes the
  result only for a consistent comparison (\<open>comparator\<close>); for those, insertion sort is it.
\<close>

fun insertBy :: "('a \<Rightarrow> 'a \<Rightarrow> int) \<Rightarrow> 'a \<Rightarrow> 'a list \<Rightarrow> 'a list" where
  "insertBy cmp x [] = [x]"
| "insertBy cmp x (y # ys) = (if cmp x y \<le> 0 then x # y # ys else y # insertBy cmp x ys)"

definition sortBy :: "('a \<Rightarrow> 'a \<Rightarrow> int) \<Rightarrow> 'a list \<Rightarrow> 'a list" where
  "sortBy cmp xs = foldr (insertBy cmp) xs []"

definition comparator :: "('a \<Rightarrow> 'a \<Rightarrow> int) \<Rightarrow> bool" where
  "comparator cmp \<longleftrightarrow> (\<forall>x y. cmp x y < 0 \<longleftrightarrow> 0 < cmp y x)
     \<and> (\<forall>x y z. cmp x y \<le> 0 \<longrightarrow> cmp y z \<le> 0 \<longrightarrow> cmp x z \<le> 0)"

lemma mset_insertBy [simp]: "mset (insertBy cmp x ys) = add_mset x (mset ys)"
  by (induction ys) auto

lemma mset_sortBy [simp]: "mset (sortBy cmp xs) = mset xs"
  by (induction xs) (auto simp: sortBy_def)

lemma set_sortBy [simp]: "set (sortBy cmp xs) = set xs"
  by (metis mset_sortBy set_mset_mset)

lemma length_sortBy [simp]: "length (sortBy cmp xs) = length xs"
  by (metis mset_sortBy size_mset)

lemma distinct_map_sortBy [simp]: "distinct (map f (sortBy cmp xs)) \<longleftrightarrow> distinct (map f xs)"
proof -
  have "mset (map f (sortBy cmp xs)) = mset (map f xs)" by simp
  then show ?thesis by (rule mset_eq_imp_distinct_iff)
qed

definition weakly_sorted :: "('a \<Rightarrow> 'a \<Rightarrow> int) \<Rightarrow> 'a list \<Rightarrow> bool" where
  "weakly_sorted cmp xs \<longleftrightarrow> sorted_wrt (\<lambda>x y. cmp x y \<le> 0) xs"

lemma comparator_total: "comparator cmp \<Longrightarrow> cmp x y \<le> 0 \<or> cmp y x \<le> 0"
  unfolding comparator_def by (metis less_imp_le not_less)

lemma comparator_trans: "comparator cmp \<Longrightarrow> cmp x y \<le> 0 \<Longrightarrow> cmp y z \<le> 0 \<Longrightarrow> cmp x z \<le> 0"
  unfolding comparator_def by blast

lemma set_insertBy [simp]: "set (insertBy cmp x ys) = insert x (set ys)"
  by (induction ys) auto

lemma sorted_insertBy:
  "comparator cmp \<Longrightarrow> weakly_sorted cmp ys \<Longrightarrow> weakly_sorted cmp (insertBy cmp x ys)"
proof (induction ys)
  case Nil
  then show ?case by (simp add: weakly_sorted_def)
next
  case (Cons y ys)
  show ?case
  proof (cases "cmp x y \<le> 0")
    case True
    with Cons.prems comparator_trans [OF Cons.prems(1) True] show ?thesis
      by (simp add: weakly_sorted_def)
  next
    case False
    with Cons comparator_total [OF Cons.prems(1), of x y] show ?thesis
      by (simp add: weakly_sorted_def)
  qed
qed

lemma sorted_sortBy: "comparator cmp \<Longrightarrow> weakly_sorted cmp (sortBy cmp xs)"
  by (induction xs) (auto simp: sortBy_def sorted_insertBy, simp add: weakly_sorted_def)

text \<open>Stability: elements that compare equal to a given one keep their order.\<close>

lemma filter_insertBy:
  "(\<And>y. P y \<Longrightarrow> y \<in> set ys \<Longrightarrow> P x \<Longrightarrow> cmp x y \<le> 0) \<Longrightarrow>
     filter P (insertBy cmp x ys) = (if P x then x # filter P ys else filter P ys)"
  by (induction ys) auto

lemma sortBy_stable:
  "(\<And>x y. P x \<Longrightarrow> P y \<Longrightarrow> cmp x y \<le> 0) \<Longrightarrow> filter P (sortBy cmp xs) = filter P xs"
  by (induction xs) (auto simp: sortBy_def filter_insertBy)

text \<open>A list that is in order already stays as it is.\<close>

lemma sortBy_sorted: "sorted_wrt (\<lambda>x y. cmp x y \<le> 0) xs \<Longrightarrow> sortBy cmp xs = xs"
proof (induction xs)
  case Nil
  then show ?case by (simp add: sortBy_def)
next
  case (Cons x xs)
  then have "sortBy cmp (x # xs) = insertBy cmp x xs" by (simp add: sortBy_def)
  with Cons.prems show ?case by (cases xs) simp_all
qed

text \<open>Stability in one formula: on ties the elements stay in the order they came in.\<close>

definition before :: "('a \<Rightarrow> 'a \<Rightarrow> int) \<Rightarrow> ('a \<Rightarrow> 'a \<Rightarrow> bool) \<Rightarrow> 'a \<Rightarrow> 'a \<Rightarrow> bool" where
  "before cmp r a b \<longleftrightarrow> cmp a b < 0 \<or> (cmp a b = 0 \<and> r a b)"

lemma comparator_lt: "comparator cmp \<Longrightarrow> \<not> cmp x y \<le> 0 \<Longrightarrow> cmp y x < 0"
  by (simp add: comparator_def)

lemma comparator_less_trans: "comparator cmp \<Longrightarrow> cmp x y \<le> 0 \<Longrightarrow> cmp y z < 0 \<Longrightarrow> cmp x z < 0"
  unfolding comparator_def by (meson leD leI)

lemma before_insertBy:
  assumes "comparator cmp" and "sorted_wrt (before cmp r) ys" and "\<forall>y\<in>set ys. r x y"
  shows "sorted_wrt (before cmp r) (insertBy cmp x ys)"
  using assms(2,3)
proof (induction ys)
  case Nil
  then show ?case by simp
next
  case (Cons y ys)
  show ?case
  proof (cases "cmp x y \<le> 0")
    case True
    have "before cmp r x z" if "z \<in> set ys" for z
    proof (cases "cmp x z = 0")
      case True
      with that Cons.prems show ?thesis by (simp add: before_def)
    next
      case False
      have "cmp y z \<le> 0" using that Cons.prems by (auto simp: before_def)
      with comparator_trans [OF assms(1) True] False show ?thesis by (simp add: before_def order_less_le)
    qed
    with True Cons.prems show ?thesis by (simp add: before_def order_less_le)
  next
    case False
    with Cons comparator_lt [OF assms(1) False] show ?thesis by (auto simp: before_def)
  qed
qed

lemma before_sortBy:
  "comparator cmp \<Longrightarrow> sorted_wrt r xs \<Longrightarrow> sorted_wrt (before cmp r) (sortBy cmp xs)"
proof (induction xs)
  case Nil
  then show ?case by (simp add: sortBy_def)
next
  case (Cons x xs)
  then have "sorted_wrt (before cmp r) (insertBy cmp x (sortBy cmp xs))"
    by (intro before_insertBy) simp_all
  then show ?case by (simp add: sortBy_def)
qed

end
