(* ===== verification/Workgraph.thy ===== *)
theory Workgraph
  imports JsText JsSort "HOL-Library.Char_ord" "HOL-Library.List_Lexorder" "HOL-Library.Multiset"
begin

text \<open>
  The pure core of the work graph panel: \<open>beads/graphSelectors.ts\<close> (status groups, derived
  states, edges, the parent-child forest and its ancestor chains) and \<open>beads/graphLayout.ts\<close>
  (the focused subgraph and its grid).

  \<open>Array.prototype.sort\<close> is a stable sort (\<open>sortBy\<close>). \<open>compareBeadId\<close> is
  \<open>localeCompare\<close> with numeric collation, which the host's locale decides: it is the
  parameter \<open>cmpId\<close>, and \<open>comparator\<close> is what the language promises of it. Priorities
  are integers. A \<open>Map\<close> built from the issues lets the last issue of an id win (\<open>byId\<close>).
\<close>

section \<open>Issues and dependencies\<close>

record BeadsIssue =
  bead_id :: string
  title :: string
  body :: string
  status :: string
  priority :: int
  issueType :: string
  labels :: "string list"
  externalRef :: "string option"
  createdAt :: string
  updatedAt :: string

record BeadsDep =
  dep_from :: string
  dep_to :: string
  dep_type :: string

record BeadsTaskGraph =
  issues :: "BeadsIssue list"
  deps :: "BeadsDep list"

type_synonym compareId = "string \<Rightarrow> string \<Rightarrow> int"

definition byId :: "BeadsTaskGraph \<Rightarrow> string \<Rightarrow> BeadsIssue option" where
  "byId g = map_of (rev (map (\<lambda>i. (bead_id i, i)) (issues g)))"

datatype StatusGroup = GBlocked | GInProgress | GReady | GClosed

definition STATUS_GROUPS :: "StatusGroup list" where
  "STATUS_GROUPS = [GBlocked, GInProgress, GReady, GClosed]"

fun group_name :: "StatusGroup \<Rightarrow> string" where
  "group_name GBlocked = ''blocked''"
| "group_name GInProgress = ''in_progress''"
| "group_name GReady = ''ready''"
| "group_name GClosed = ''closed''"

definition statusGroup :: "string \<Rightarrow> StatusGroup" where
  "statusGroup s = (case filter (\<lambda>g. group_name g = s) STATUS_GROUPS of [] \<Rightarrow> GReady | g # _ \<Rightarrow> g)"

definition issueMatchesNeedle :: "BeadsIssue \<Rightarrow> string \<Rightarrow> bool" where
  "issueMatchesNeedle issue needle =
     (let shortId = last (splitOn CHR ''-'' (bead_id issue))
      in includesStr (toLowerCase (bead_id issue)) needle \<or> includesStr (toLowerCase shortId) needle
         \<or> includesStr (toLowerCase (title issue)) needle \<or> includesStr (toLowerCase (body issue)) needle)"

definition isTerminal :: "string \<Rightarrow> bool" where
  "isTerminal s \<longleftrightarrow> s \<in> {''closed'', ''tombstone'', ''deleted''}"

definition is_parent_type :: "string \<Rightarrow> bool" where
  "is_parent_type t \<longleftrightarrow> t \<in> {''parent'', ''parent-child''}"

definition open_blocker :: "BeadsTaskGraph \<Rightarrow> BeadsIssue \<Rightarrow> BeadsDep \<Rightarrow> bool" where
  "open_blocker g issue d =
     (if dep_type d \<noteq> ''blocks'' \<or> dep_from d \<noteq> bead_id issue then False
      else (case byId g (dep_to d) of None \<Rightarrow> False | Some blocker \<Rightarrow> \<not> isTerminal (status blocker)))"

definition hasOpenBlockers :: "BeadsTaskGraph \<Rightarrow> BeadsIssue \<Rightarrow> bool" where
  "hasOpenBlockers g issue = list_ex (open_blocker g issue) (deps g)"

definition groupOf :: "BeadsTaskGraph \<Rightarrow> BeadsIssue \<Rightarrow> StatusGroup" where
  "groupOf g issue =
     (if \<not> isTerminal (status issue) \<and> hasOpenBlockers g issue then GBlocked
      else statusGroup (status issue))"

definition compareIssues :: "compareId \<Rightarrow> BeadsIssue \<Rightarrow> BeadsIssue \<Rightarrow> int" where
  "compareIssues cmpId a b =
     (if priority a - priority b \<noteq> 0 then priority a - priority b else cmpId (bead_id a) (bead_id b))"

definition groupIssues :: "compareId \<Rightarrow> BeadsTaskGraph \<Rightarrow> (StatusGroup \<times> BeadsIssue list) list" where
  "groupIssues cmpId g =
     map (\<lambda>grp. (grp, sortBy (compareIssues cmpId) (filter (\<lambda>i. groupOf g i = grp) (issues g)))) STATUS_GROUPS"

record IssueEdges =
  blocks :: "BeadsIssue list"
  blockedBy :: "BeadsIssue list"
  parents :: "BeadsIssue list"

definition resolve_deps :: "BeadsTaskGraph \<Rightarrow> (BeadsDep \<Rightarrow> string) \<Rightarrow> BeadsDep list \<Rightarrow> BeadsIssue list" where
  "resolve_deps g pick ds = List.map_filter (\<lambda>d. byId g (pick d)) ds"

definition edgesFor :: "BeadsTaskGraph \<Rightarrow> string \<Rightarrow> IssueEdges" where
  "edgesFor g i = \<lparr>
     blocks = resolve_deps g dep_from (filter (\<lambda>d. dep_type d = ''blocks'' \<and> dep_to d = i) (deps g)),
     blockedBy = resolve_deps g dep_to (filter (\<lambda>d. dep_type d = ''blocks'' \<and> dep_from d = i) (deps g)),
     parents = resolve_deps g dep_to (filter (\<lambda>d. is_parent_type (dep_type d) \<and> dep_from d = i) (deps g))\<rparr>"

section \<open>The derived states\<close>

datatype WorkgraphState = WBlocked | WInProgress | WReady | WDepBlocked | WChildBlocked | WDraft
  | WDeferred | WUnknown | WDone

definition WG_STATES :: "WorkgraphState list" where
  "WG_STATES = [WBlocked, WInProgress, WReady, WDepBlocked, WChildBlocked, WDraft, WDeferred,
     WUnknown, WDone]"

definition wg_state_order :: "WorkgraphState \<Rightarrow> int" where
  "wg_state_order s = int (length (takeWhile (\<lambda>s'. s' \<noteq> s) WG_STATES))"

definition childrenOf :: "BeadsTaskGraph \<Rightarrow> string \<Rightarrow> BeadsIssue list" where
  "childrenOf g i = List.map_filter (\<lambda>d. byId g (dep_from d))
     (filter (\<lambda>d. is_parent_type (dep_type d) \<and> dep_to d = i) (deps g))"

definition openBlockerCount :: "BeadsTaskGraph \<Rightarrow> BeadsIssue \<Rightarrow> nat" where
  "openBlockerCount g issue = foldl (\<lambda>n d. if open_blocker g issue d then n + 1 else n) 0 (deps g)"

definition openChildCount :: "BeadsTaskGraph \<Rightarrow> BeadsIssue \<Rightarrow> nat" where
  "openChildCount g issue = length (filter (\<lambda>c. \<not> isTerminal (status c)) (childrenOf g (bead_id issue)))"

definition hasOpenChildren :: "BeadsTaskGraph \<Rightarrow> BeadsIssue \<Rightarrow> bool" where
  "hasOpenChildren g issue \<longleftrightarrow> openChildCount g issue > 0"

definition deriveState :: "BeadsTaskGraph \<Rightarrow> BeadsIssue \<Rightarrow> WorkgraphState" where
  "deriveState g issue =
     (if isTerminal (status issue) then WDone
      else if status issue = ''blocked'' then WBlocked
      else if status issue = ''deferred'' then WDeferred
      else if status issue = ''draft'' then WDraft
      else if status issue = ''in_progress'' then WInProgress
      else if status issue = ''open'' then
        (if hasOpenBlockers g issue then WDepBlocked
         else if hasOpenChildren g issue then WChildBlocked
         else WReady)
      else WUnknown)"

definition compareByState :: "compareId \<Rightarrow> BeadsTaskGraph \<Rightarrow> BeadsIssue \<Rightarrow> BeadsIssue \<Rightarrow> int" where
  "compareByState cmpId g a b =
     (let d = wg_state_order (deriveState g a) - wg_state_order (deriveState g b)
      in if d \<noteq> 0 then d else compareIssues cmpId a b)"

definition groupByState :: "compareId \<Rightarrow> BeadsTaskGraph \<Rightarrow> (WorkgraphState \<times> BeadsIssue list) list" where
  "groupByState cmpId g =
     map (\<lambda>s. (s, sortBy (compareIssues cmpId) (filter (\<lambda>i. deriveState g i = s) (issues g)))) WG_STATES"

definition resolveAnchorId :: "compareId \<Rightarrow> BeadsTaskGraph \<Rightarrow> string option \<Rightarrow> string option" where
  "resolveAnchorId cmpId g sel =
     (if sel \<noteq> None \<and> list_ex (\<lambda>i. Some (bead_id i) = sel) (issues g) then sel
      else
        let sorted = sortBy (compareIssues cmpId) (issues g);
            firstWith = (\<lambda>grp. List.find (\<lambda>i. statusGroup (status i) = grp) sorted)
        in map_option bead_id
             (case firstWith GInProgress of Some i \<Rightarrow> Some i
              | None \<Rightarrow> (case firstWith GReady of Some i \<Rightarrow> Some i
                         | None \<Rightarrow> (case sorted of [] \<Rightarrow> None | i # _ \<Rightarrow> Some i))))"

definition priorityLabel :: "int \<Rightarrow> string" where
  "priorityLabel p =
     (if p = 0 then ''P0'' else if p = 1 then ''P1'' else if p = 2 then ''P2'' else if p = 3 then ''P3''
      else CHR ''P'' # (if p < 0 then CHR ''-'' # showNat (nat (- p)) else showNat (nat p)))"

section \<open>The parent-child forest\<close>

datatype TreeNode = TreeNode (tn_issue: BeadsIssue) (tn_children: "TreeNode list")

definition parent_step :: "BeadsTaskGraph \<Rightarrow> (string \<times> string) list \<Rightarrow> BeadsDep \<Rightarrow> (string \<times> string) list" where
  "parent_step g m d =
     (if \<not> is_parent_type (dep_type d) then m
      else if byId g (dep_from d) = None \<or> byId g (dep_to d) = None then m
      else if dep_from d \<notin> fst ` set m then omap_set (dep_from d) (dep_to d) m
      else m)"

definition parentOf :: "BeadsTaskGraph \<Rightarrow> (string \<times> string) list" where
  "parentOf g = foldl (parent_step g) [] (deps g)"

definition childIdsByParent :: "BeadsTaskGraph \<Rightarrow> (string \<times> string list) list" where
  "childIdsByParent g = foldl (\<lambda>m (child, parent).
     omap_set parent ((case map_of m parent of None \<Rightarrow> [] | Some l \<Rightarrow> l) @ [child]) m) [] (parentOf g)"

definition childIds :: "BeadsTaskGraph \<Rightarrow> string \<Rightarrow> string list" where
  "childIds g i = (case map_of (childIdsByParent g) i of None \<Rightarrow> [] | Some l \<Rightarrow> l)"

definition tree_children :: "compareId \<Rightarrow> BeadsTaskGraph \<Rightarrow> string \<Rightarrow> string set \<Rightarrow> BeadsIssue list" where
  "tree_children cmpId g i next =
     sortBy (compareByState cmpId g) (map (\<lambda>c. the (byId g c)) (filter (\<lambda>c. c \<notin> next) (childIds g i)))"

lemma byId_bead_id: "byId g i = Some x \<Longrightarrow> bead_id x = i \<and> x \<in> set (issues g)"
  unfolding byId_def by (drule map_of_SomeD) auto

lemma byId_None: "byId g i = None \<longleftrightarrow> i \<notin> bead_id ` set (issues g)"
  unfolding byId_def by (force simp: map_of_eq_None_iff image_image)

definition parents_ok :: "BeadsTaskGraph \<Rightarrow> (string \<times> string) list \<Rightarrow> bool" where
  "parents_ok g m \<longleftrightarrow> distinct (map fst m) \<and> (\<forall>(c, p)\<in>set m. byId g c \<noteq> None \<and> byId g p \<noteq> None)"

interpretation parent_map: stepping "parent_step g" "parents_ok g" for g
  by unfold_locales (auto simp: parents_ok_def parent_step_def omap_set_def)

lemma parentOf_ok: "parents_ok g (parentOf g)"
  unfolding parentOf_def by (rule parent_map.run_inv) (simp add: parents_ok_def)

definition par :: "BeadsTaskGraph \<Rightarrow> (string \<times> string) set" where
  "par g = {(c, p). map_of (parentOf g) c = Some p}"

lemma par_iff: "(c, p) \<in> par g \<longleftrightarrow> map_of (parentOf g) c = Some p"
  by (simp add: par_def)

lemma par_set: "par g = set (parentOf g)"
  using parentOf_ok [of g] by (auto simp: par_def parents_ok_def)

lemma par_ids: "(c, p) \<in> par g \<Longrightarrow> byId g c \<noteq> None \<and> byId g p \<noteq> None"
  using parentOf_ok [of g] by (auto simp: par_set parents_ok_def)

lemma single_valued_par: "single_valued (par g)"
  by (auto simp: single_valued_def par_def)

lemma childIds_fold:
  "(case map_of (foldl (\<lambda>m (child, parent).
       omap_set parent ((case map_of m parent of None \<Rightarrow> [] | Some l \<Rightarrow> l) @ [child]) m) m0 ps) i
     of None \<Rightarrow> [] | Some l \<Rightarrow> l) =
   (case map_of m0 i of None \<Rightarrow> [] | Some l \<Rightarrow> l) @ map fst (filter (\<lambda>(c, p). p = i) ps)"
  by (induction ps arbitrary: m0) (auto simp: omap_simps split: option.splits)

lemma childIds_filter: "childIds g i = map fst (filter (\<lambda>(c, p). p = i) (parentOf g))"
  using childIds_fold [of "[]" "parentOf g" i] by (simp add: childIds_def childIdsByParent_def)

lemma set_childIds: "set (childIds g i) = {c. (c, i) \<in> par g}"
  by (force simp: childIds_filter par_set)

lemma distinct_childIds: "distinct (childIds g i)"
  using parentOf_ok [of g] unfolding parents_ok_def childIds_filter
  by (metis distinct_map_filter)

text \<open>The children of a node in the forest: the issues of its child ids outside the path.\<close>

lemma tree_children_ids:
  "bead_id ` set (tree_children cmpId g i next) = {c. (c, i) \<in> par g \<and> c \<notin> next}"
proof -
  have "bead_id (the (byId g c)) = c" if "(c, i) \<in> par g" for c
    using par_ids [OF that] byId_bead_id by fastforce
  then show ?thesis
    by (auto simp: tree_children_def set_childIds image_image image_iff)
qed

lemma tree_children_known:
  "x \<in> set (tree_children cmpId g i next) \<Longrightarrow> byId g (bead_id x) = Some x \<and> (bead_id x, i) \<in> par g
     \<and> bead_id x \<notin> next"
  using par_ids byId_bead_id by (fastforce simp: tree_children_def set_childIds)

lemma tree_children_distinct: "distinct (map bead_id (tree_children cmpId g i next))"
proof -
  have "map (bead_id \<circ> (\<lambda>c. the (byId g c))) (filter (\<lambda>c. c \<notin> next) (childIds g i)) =
      map id (filter (\<lambda>c. c \<notin> next) (childIds g i))"
  proof (rule map_cong [OF refl])
    fix c assume "c \<in> set (filter (\<lambda>c. c \<notin> next) (childIds g i))"
    then have "(c, i) \<in> par g" by (simp add: set_childIds)
    from par_ids [OF this] show "(bead_id \<circ> (\<lambda>c. the (byId g c))) c = id c"
      using byId_bead_id by fastforce
  qed
  then show ?thesis
    using distinct_childIds by (simp add: tree_children_def)
qed

lemma card_less_insert:
  assumes "finite A" and "c \<in> A" and "c \<notin> P"
  shows "card (A - insert c P) < card (A - P)"
  using assms by (intro psubset_card_mono) auto

text \<open>The recursion ends: every call moves an issue of the graph onto the path.\<close>

function build :: "compareId \<Rightarrow> BeadsTaskGraph \<Rightarrow> string \<Rightarrow> string set \<Rightarrow> TreeNode" where
  "build cmpId g i path =
     TreeNode (the (byId g i))
       (map (\<lambda>c. build cmpId g (bead_id c) (insert i path)) (tree_children cmpId g i (insert i path)))"
  by pat_completeness auto

termination
proof (relation "measure (\<lambda>(_, g, i, path). card (bead_id ` set (issues g) - insert i path))", goal_cases)
  case 1
  then show ?case by simp
next
  case (2 cmpId g i path c)
  then have "byId g (bead_id c) = Some c" "bead_id c \<notin> insert i path"
    using tree_children_known by blast+
  with byId_bead_id [of g "bead_id c" c] show ?case
    using card_less_insert [of "bead_id ` set (issues g)" "bead_id c" "insert i path"] by simp
qed

definition buildTree :: "compareId \<Rightarrow> BeadsTaskGraph \<Rightarrow> TreeNode list" where
  "buildTree cmpId g =
     map (\<lambda>i. build cmpId g (bead_id i) {})
       (sortBy (compareByState cmpId g) (filter (\<lambda>i. bead_id i \<notin> fst ` set (parentOf g)) (issues g)))"

function climb :: "BeadsTaskGraph \<Rightarrow> string option \<Rightarrow> string set \<Rightarrow> BeadsIssue list \<Rightarrow> BeadsIssue list" where
  "climb g None seen chain = chain"
| "climb g (Some cur) seen chain =
     (if cur = [] \<or> cur \<in> seen then chain
      else climb g (map_of (parentOf g) cur) (insert cur seen)
        (case byId g cur of None \<Rightarrow> chain | Some issue \<Rightarrow> chain @ [issue]))"
  by pat_completeness auto

termination
proof (relation "measures [\<lambda>(g, cur, seen, chain). card (bead_id ` set (issues g) - seen),
    \<lambda>(g, cur, seen, chain). if cur = None then 0 else 1]", goal_cases)
  case 1
  then show ?case by simp
next
  case (2 g cur seen chain)
  show ?case
  proof (cases "byId g cur")
    case None
    then have "map_of (parentOf g) cur = None"
      using par_ids [of cur _ g] by (cases "map_of (parentOf g) cur") (auto simp: par_iff)
    moreover from None have "bead_id ` set (issues g) - insert cur seen = bead_id ` set (issues g) - seen"
      by (auto simp: byId_None)
    ultimately show ?thesis by simp
  next
    case (Some x)
    with 2 byId_bead_id [OF Some] show ?thesis
      using card_less_insert [of "bead_id ` set (issues g)" cur seen] by auto
  qed
qed

definition ancestorsOf :: "BeadsTaskGraph \<Rightarrow> string \<Rightarrow> BeadsIssue list" where
  "ancestorsOf g i = rev (climb g (map_of (parentOf g) i) {i} [])"

fun findTreeNode :: "TreeNode list \<Rightarrow> string \<Rightarrow> TreeNode option" where
  "findTreeNode [] i = None"
| "findTreeNode (TreeNode issue cs # ns) i =
     (if bead_id issue = i then Some (TreeNode issue cs)
      else (case findTreeNode cs i of Some n \<Rightarrow> Some n | None \<Rightarrow> findTreeNode ns i))"

declare build.simps [simp del]
lemmas chain_linear = single_valued_confluent [OF single_valued_par]

fun tree_ids :: "TreeNode \<Rightarrow> string list" where
  "tree_ids (TreeNode issue cs) = bead_id issue # concat (map tree_ids cs)"

text \<open>An issue is grounded when its chain of first-declared parents reaches a parentless issue.\<close>

inductive grounded :: "BeadsTaskGraph \<Rightarrow> string \<Rightarrow> bool" for g where
  root: "byId g i \<noteq> None \<Longrightarrow> map_of (parentOf g) i = None \<Longrightarrow> grounded g i"
| child: "grounded g p \<Longrightarrow> map_of (parentOf g) c = Some p \<Longrightarrow> grounded g c"

code_pred (modes: i \<Rightarrow> i \<Rightarrow> bool) grounded .

lemma grounded_known: "grounded g i \<Longrightarrow> byId g i \<noteq> None"
  by (erule grounded.cases) (use par_ids in \<open>auto simp: par_iff\<close>)

lemma grounded_reaches: "grounded g i \<Longrightarrow> \<exists>r. (i, r) \<in> (par g)\<^sup>* \<and> byId g r \<noteq> None \<and> map_of (parentOf g) r = None"
proof (induction rule: grounded.induct)
  case (root i)
  then show ?case by blast
next
  case (child p c)
  then show ?case by (meson par_iff converse_rtrancl_into_rtrancl)
qed

lemma grounded_up: "(i, r) \<in> (par g)\<^sup>* \<Longrightarrow> grounded g r \<Longrightarrow> grounded g i"
  by (induction rule: converse_rtrancl_induct) (auto simp: par_iff intro: grounded.child)

lemma grounded_down: "(i, a) \<in> par g \<Longrightarrow> grounded g i \<Longrightarrow> grounded g a"
  by (erule grounded.cases) (auto simp: par_iff)

lemma acyclic_child:
  assumes "(i, i) \<notin> (par g)\<^sup>+" and "(c, i) \<in> par g"
  shows "(c, c) \<notin> (par g)\<^sup>+"
proof
  assume "(c, c) \<in> (par g)\<^sup>+"
  then obtain b where "(c, b) \<in> par g" "(b, c) \<in> (par g)\<^sup>*" by (auto dest: tranclD)
  with assms(2) have "(i, c) \<in> (par g)\<^sup>*" by (auto simp: par_iff)
  with assms show False by (meson rtrancl_into_trancl1)
qed

lemma grounded_acyclic: "grounded g i \<Longrightarrow> (i, i) \<notin> (par g)\<^sup>+"
proof (induction rule: grounded.induct)
  case (root i)
  show ?case
  proof
    assume "(i, i) \<in> (par g)\<^sup>+"
    from tranclD [OF this] root show False by (auto simp: par_iff)
  qed
next
  case (child p c)
  then show ?case using acyclic_child [of p g c] by (simp add: par_iff)
qed

lemma siblings_apart:
  assumes "(i, i) \<notin> (par g)\<^sup>+" and "(a, i) \<in> par g" and "(b, i) \<in> par g"
    and "(j, a) \<in> (par g)\<^sup>*" and "(j, b) \<in> (par g)\<^sup>*"
  shows "a = b"
proof (rule ccontr)
  assume ne: "a \<noteq> b"
  have up: False if "(x, y) \<in> (par g)\<^sup>*" "x \<noteq> y" "(x, i) \<in> par g" "(y, i) \<in> par g" for x y
  proof -
    from that(1,2) obtain z where "(x, z) \<in> par g" "(z, y) \<in> (par g)\<^sup>*"
      by (auto elim: converse_rtranclE)
    with that(3) have "(i, y) \<in> (par g)\<^sup>*" by (auto simp: par_iff)
    from this that(4) have "(i, i) \<in> (par g)\<^sup>+" by (rule rtrancl_into_trancl1)
    with assms(1) show False by simp
  qed
  from chain_linear [OF assms(4,5)] show False
  proof
    assume "(a, b) \<in> (par g)\<^sup>*"
    from up [OF this ne assms(2,3)] show False .
  next
    assume "(b, a) \<in> (par g)\<^sup>*"
    from up [OF this ne [symmetric] assms(3,2)] show False .
  qed
qed

text \<open>The children of an acyclic node are all its child ids: the cycle guard never fires.\<close>

lemma guard_silent:
  assumes "(i, i) \<notin> (par g)\<^sup>+" and "path \<subseteq> {p. (i, p) \<in> (par g)\<^sup>+}" and "(c, i) \<in> par g"
  shows "c \<notin> insert i path" and "insert i path \<subseteq> {p. (c, p) \<in> (par g)\<^sup>+}"
proof -
  show "c \<notin> insert i path"
  proof
    assume "c \<in> insert i path"
    with assms(2) have "c = i \<or> (i, c) \<in> (par g)\<^sup>+" by auto
    with assms(1,3) show False by (metis r_into_trancl' trancl_trans)
  qed
  from assms(2,3) show "insert i path \<subseteq> {p. (c, p) \<in> (par g)\<^sup>+}"
    by (auto intro: trancl_into_trancl2)
qed

lemma build_ids:
  assumes "byId g i \<noteq> None" and "(i, i) \<notin> (par g)\<^sup>+" and "path \<subseteq> {p. (i, p) \<in> (par g)\<^sup>+}"
  shows "set (tree_ids (build cmpId g i path)) = {j. (j, i) \<in> (par g)\<^sup>*}
    \<and> distinct (tree_ids (build cmpId g i path))"
  using assms
proof (induction cmpId g i path rule: build.induct)
  case (1 cmpId g i path)
  let ?cs = "tree_children cmpId g i (insert i path)"
  let ?sub = "\<lambda>x. tree_ids (build cmpId g (bead_id x) (insert i path))"
  have IH: "set (?sub x) = {j. (j, bead_id x) \<in> (par g)\<^sup>*} \<and> distinct (?sub x)" if "x \<in> set ?cs" for x
  proof -
    from tree_children_known [OF that] have p: "(bead_id x, i) \<in> par g" "byId g (bead_id x) = Some x" by auto
    from acyclic_child [OF 1(3) p(1)] guard_silent(2) [OF 1(3,4) p(1)] p(2) 1(1) [OF that]
    show ?thesis by simp
  qed
  have kids: "bead_id ` set ?cs = {c. (c, i) \<in> par g}"
    using guard_silent(1) [OF 1(3,4)] by (auto simp: tree_children_ids)
  have ids: "tree_ids (build cmpId g i path) = i # concat (map ?sub ?cs)"
    using 1(2) byId_bead_id [of g i] by (auto simp: build.simps [of _ _ i] comp_def)
  have below: "set (concat (map ?sub ?cs)) = {j. (j, i) \<in> (par g)\<^sup>+}"
  proof -
    have "set (concat (map ?sub ?cs)) = (\<Union>x\<in>set ?cs. {j. (j, bead_id x) \<in> (par g)\<^sup>*})"
      using IH by auto
    also have "\<dots> = (\<Union>c\<in>bead_id ` set ?cs. {j. (j, c) \<in> (par g)\<^sup>*})" by simp
    also have "\<dots> = {j. (j, i) \<in> (par g)\<^sup>+}"
      unfolding kids by (auto dest: tranclD2 intro: rtrancl_into_trancl1)
    finally show ?thesis .
  qed
  have "distinct (concat (map ?sub ?cs))"
  proof -
    have "distinct ?cs" using tree_children_distinct distinct_map by blast
    moreover have "set (?sub x) \<inter> set (?sub y) = {}" if "x \<in> set ?cs" "y \<in> set ?cs" "x \<noteq> y" for x y
    proof -
      have "bead_id x \<noteq> bead_id y"
        using that tree_children_distinct [of cmpId g i "insert i path"] by (auto simp: distinct_map inj_on_def)
      with siblings_apart [OF 1(3)] that show ?thesis
        unfolding conjunct1 [OF IH [OF that(1)]] conjunct1 [OF IH [OF that(2)]]
        using tree_children_known by blast
    qed
    ultimately show ?thesis using IH by (intro distinct_concat_map) auto
  qed
  moreover have "{j. (j, i) \<in> (par g)\<^sup>*} = insert i {j. (j, i) \<in> (par g)\<^sup>+}"
    by (auto simp: rtrancl_eq_or_trancl)
  ultimately show ?case
    using 1(3) unfolding ids set_simps distinct.simps below by simp
qed

definition tree_roots :: "compareId \<Rightarrow> BeadsTaskGraph \<Rightarrow> BeadsIssue list" where
  "tree_roots cmpId g =
     sortBy (compareByState cmpId g) (filter (\<lambda>i. bead_id i \<notin> fst ` set (parentOf g)) (issues g))"

lemma root_iff:
  "i \<in> bead_id ` set (tree_roots cmpId g) \<longleftrightarrow> byId g i \<noteq> None \<and> map_of (parentOf g) i = None"
  by (auto simp: tree_roots_def byId_None map_of_eq_None_iff)

lemma root_build:
  assumes "x \<in> set (tree_roots cmpId g)"
  shows "set (tree_ids (build cmpId g (bead_id x) {})) = {j. (j, bead_id x) \<in> (par g)\<^sup>*}
    \<and> distinct (tree_ids (build cmpId g (bead_id x) {}))"
proof -
  from assms have r: "byId g (bead_id x) \<noteq> None" "map_of (parentOf g) (bead_id x) = None"
    using root_iff [of "bead_id x"] by blast+
  then have "grounded g (bead_id x)" by (rule grounded.root)
  from build_ids [OF r(1) grounded_acyclic [OF this]] show ?thesis by simp
qed

lemma buildTree_ids:
  "set (concat (map tree_ids (buildTree cmpId g))) = {j. grounded g j}" (is "?L = _")
proof -
  have "?L = (\<Union>x\<in>set (tree_roots cmpId g). {j. (j, bead_id x) \<in> (par g)\<^sup>*})"
    using root_build by (simp add: buildTree_def tree_roots_def)
  also have "\<dots> = (\<Union>r\<in>bead_id ` set (tree_roots cmpId g). {j. (j, r) \<in> (par g)\<^sup>*})" by simp
  also have "\<dots> = {j. grounded g j}"
  proof (intro set_eqI iffI)
    fix j assume "j \<in> (\<Union>r\<in>bead_id ` set (tree_roots cmpId g). {j. (j, r) \<in> (par g)\<^sup>*})"
    then obtain r where "r \<in> bead_id ` set (tree_roots cmpId g)" "(j, r) \<in> (par g)\<^sup>*" by blast
    then show "j \<in> {j. grounded g j}"
      unfolding root_iff by (auto intro: grounded_up grounded.root)
  next
    fix j assume "j \<in> {j. grounded g j}"
    then have "grounded g j" by simp
    from grounded_reaches [OF this]
    show "j \<in> (\<Union>r\<in>bead_id ` set (tree_roots cmpId g). {j. (j, r) \<in> (par g)\<^sup>*})"
      unfolding UN_iff Bex_def root_iff by blast
  qed
  finally show ?thesis .
qed

lemma buildTree_distinct:
  assumes "distinct (map bead_id (issues g))"
  shows "distinct (concat (map tree_ids (buildTree cmpId g)))"
proof -
  have d: "distinct (map bead_id (tree_roots cmpId g))"
    using assms by (simp add: tree_roots_def distinct_map_filter)
  have "distinct (concat (map (\<lambda>x. tree_ids (build cmpId g (bead_id x) {})) (tree_roots cmpId g)))"
  proof (rule distinct_concat_map)
    show "distinct (tree_roots cmpId g)" using d distinct_map by blast
    fix x y assume xy: "x \<in> set (tree_roots cmpId g)" "y \<in> set (tree_roots cmpId g)" "x \<noteq> y"
    then have ne: "bead_id x \<noteq> bead_id y" using d by (auto simp: distinct_map inj_on_def)
    have top: "map_of (parentOf g) (bead_id x) = None" "map_of (parentOf g) (bead_id y) = None"
      using xy root_iff [of "bead_id x" cmpId g] root_iff [of "bead_id y" cmpId g] by blast+
    have stuck: "a = b" if "(a, b) \<in> (par g)\<^sup>*" "map_of (parentOf g) a = None" for a b
      using that by (auto simp: par_iff elim: converse_rtranclE)
    show "set (tree_ids (build cmpId g (bead_id x) {})) \<inter> set (tree_ids (build cmpId g (bead_id y) {})) = {}"
      unfolding conjunct1 [OF root_build [OF xy(1)]] conjunct1 [OF root_build [OF xy(2)]]
    proof (rule equals0I)
      fix j assume "j \<in> {j. (j, bead_id x) \<in> (par g)\<^sup>*} \<inter> {j. (j, bead_id y) \<in> (par g)\<^sup>*}"
      then have "(bead_id x, bead_id y) \<in> (par g)\<^sup>* \<or> (bead_id y, bead_id x) \<in> (par g)\<^sup>*"
        using chain_linear [of j "bead_id x" g "bead_id y"] by simp
      with stuck top ne show False by metis
    qed
  qed (use root_build in blast)
  then show ?thesis by (simp add: buildTree_def tree_roots_def comp_def)
qed

section \<open>Finding a node, and the path above it\<close>

fun node_at :: "TreeNode list \<Rightarrow> BeadsIssue list \<Rightarrow> TreeNode \<Rightarrow> bool" where
  "node_at ts [] t \<longleftrightarrow> t \<in> set ts"
| "node_at ts (a # as) t \<longleftrightarrow> (\<exists>u\<in>set ts. tn_issue u = a \<and> node_at (tn_children u) as t)"

lemma node_at_snoc:
  "node_at ts as u \<Longrightarrow> t \<in> set (tn_children u) \<Longrightarrow> node_at ts (as @ [tn_issue u]) t"
  by (induction as arbitrary: ts) auto

lemma tree_ids_unfold: "tree_ids t = bead_id (tn_issue t) # concat (map tree_ids (tn_children t))"
  by (cases t) simp

lemma findTreeNode_None: "findTreeNode ts i = None \<longleftrightarrow> i \<notin> set (concat (map tree_ids ts))"
  by (induction ts i rule: findTreeNode.induct) (auto split: option.splits)

lemma findTreeNode_in:
  "t \<in> set ts \<Longrightarrow> distinct (concat (map tree_ids ts)) \<Longrightarrow> i \<in> set (tree_ids t) \<Longrightarrow>
     findTreeNode ts i = findTreeNode [t] i"
proof (induction ts)
  case Nil
  then show ?case by simp
next
  case (Cons u us)
  obtain x cs where u: "u = TreeNode x cs" by (cases u)
  show ?case
  proof (cases "t = u")
    case True
    with Cons.prems have "findTreeNode us i = None" by (auto simp: findTreeNode_None)
    with True u show ?thesis by (auto split: option.splits)
  next
    case False
    with Cons.prems have t: "t \<in> set us" by simp
    with Cons.prems have "i \<notin> set (tree_ids u)" by auto
    then have "findTreeNode [u] i = None" by (simp add: findTreeNode_None)
    with u Cons.IH [OF t] Cons.prems show ?thesis by (auto split: option.splits if_splits)
  qed
qed

lemma findTreeNode_at:
  "node_at ts as t \<Longrightarrow> distinct (concat (map tree_ids ts)) \<Longrightarrow>
     bead_id (tn_issue t) \<in> set (concat (map tree_ids ts)) \<and> findTreeNode ts (bead_id (tn_issue t)) = Some t"
proof (induction as arbitrary: ts)
  case Nil
  then have t: "t \<in> set ts" by simp
  have i: "bead_id (tn_issue t) \<in> set (tree_ids t)" by (cases t) simp
  have "findTreeNode [t] (bead_id (tn_issue t)) = Some t" by (cases t) simp
  moreover have "bead_id (tn_issue t) \<in> set (concat (map tree_ids ts))" using i t by auto
  ultimately show ?case using findTreeNode_in [OF t Nil(2) i] by simp
next
  case (Cons a as)
  then obtain u where u: "u \<in> set ts" "node_at (tn_children u) as t" by auto
  obtain x cs where uc: "u = TreeNode x cs" by (cases u)
  have d: "distinct (tree_ids u)" using Cons.prems(2) u(1) by (auto simp: distinct_concat_iff)
  then have "distinct (concat (map tree_ids (tn_children u)))" by (simp add: uc)
  from Cons.IH [OF u(2) this] have in_cs: "bead_id (tn_issue t) \<in> set (concat (map tree_ids cs))"
    and f: "findTreeNode cs (bead_id (tn_issue t)) = Some t" by (simp_all add: uc)
  then have i: "bead_id (tn_issue t) \<in> set (tree_ids u)" by (simp add: uc)
  from in_cs d have "bead_id x \<noteq> bead_id (tn_issue t)" unfolding uc tree_ids.simps distinct.simps
    by metis
  with f have "findTreeNode [u] (bead_id (tn_issue t)) = Some t" by (simp add: uc)
  moreover have "bead_id (tn_issue t) \<in> set (concat (map tree_ids ts))" using i u(1) by auto
  ultimately show ?case using findTreeNode_in [OF u(1) Cons.prems(2) i] by simp
qed

lemma par_back: "(a, b) \<in> par g \<Longrightarrow> (a, a) \<notin> (par g)\<^sup>+ \<Longrightarrow> (b, a) \<notin> (par g)\<^sup>*"
  by (meson rtrancl_into_trancl2)

lemma climb_seen:
  assumes "grounded g c" and "byId g [] = None" and "\<forall>a\<in>seen. (c, a) \<notin> (par g)\<^sup>*"
  shows "climb g (Some c) seen chain = chain @ climb g (Some c) {} []"
  using assms(1,3)
proof (induction arbitrary: seen chain rule: grounded.induct)
  case (root i)
  with assms(2) show ?case by (auto split: option.splits)
next
  case (child p c)
  have pc: "(c, p) \<in> par g" using child.hyps by (simp add: par_iff)
  have gc: "grounded g c" using child.hyps by (rule grounded.child)
  obtain x where x: "byId g c = Some x" using grounded_known [OF gc] by blast
  have ne: "c \<noteq> []" using assms(2) x by auto
  have c: "c \<notin> seen" using child.prems by auto
  have up: "(p, c) \<notin> (par g)\<^sup>*"
    using par_back [OF pc grounded_acyclic [OF gc]] .
  have "\<forall>a\<in>insert c seen. (p, a) \<notin> (par g)\<^sup>*"
    using child.prems up pc by (auto intro: converse_rtrancl_into_rtrancl)
  from child.IH [OF this] have "climb g (Some p) (insert c seen) (chain @ [x]) = chain @ [x] @ climb g (Some p) {} []"
    by (simp del: climb.simps)
  moreover from up child.IH [of "{c}" "[x]"] have "climb g (Some p) {c} [x] = [x] @ climb g (Some p) {} []"
    by (simp del: climb.simps)
  ultimately show ?case using child.hyps c ne x by (simp add: climb.simps(2) [of g c])
qed

declare climb.simps(2) [simp del]

lemma ancestors_root: "map_of (parentOf g) i = None \<Longrightarrow> ancestorsOf g i = []"
  by (simp add: ancestorsOf_def)

lemma ancestors_step:
  assumes "grounded g p" and "map_of (parentOf g) c = Some p" and "byId g [] = None"
  shows "ancestorsOf g c = ancestorsOf g p @ [the (byId g p)]"
proof -
  have above: "climb g (map_of (parentOf g) q) {q} ch = ch @ rev (ancestorsOf g q)" if q: "grounded g q" for q ch
  proof (cases "map_of (parentOf g) q")
    case None
    then show ?thesis by (simp add: ancestors_root)
  next
    case (Some r)
    then have r: "(q, r) \<in> par g" "grounded g r" using q grounded_down by (auto simp: par_iff)
    then have "\<forall>a\<in>{q}. (r, a) \<notin> (par g)\<^sup>*"
      using par_back [OF _ grounded_acyclic [OF q]] by blast
    from climb_seen [OF r(2) assms(3) this] Some show ?thesis by (simp add: ancestorsOf_def)
  qed
  have gc: "grounded g c" using assms(1,2) by (rule grounded.child)
  have "\<forall>a\<in>{c}. (p, a) \<notin> (par g)\<^sup>*"
    using par_back [OF _ grounded_acyclic [OF gc]] assms(2) by (simp add: par_iff)
  from climb_seen [OF assms(1,3) this, of "[]"]
  have "ancestorsOf g c = rev (climb g (Some p) {} [])" by (simp add: ancestorsOf_def assms(2))
  also obtain x where "byId g p = Some x" using grounded_known [OF assms(1)] by blast
  then have "climb g (Some p) {} [] = x # rev (ancestorsOf g p)"
    using assms(3) above [OF assms(1), of "[x]"] by (auto simp: climb.simps(2))
  finally show ?thesis using \<open>byId g p = Some x\<close> by simp
qed

lemma node_of_grounded:
  assumes "grounded g i" and "byId g [] = None"
  shows "\<exists>path. path \<subseteq> {p. (i, p) \<in> (par g)\<^sup>+}
    \<and> node_at (buildTree cmpId g) (ancestorsOf g i) (build cmpId g i path)"
  using assms(1)
proof (induction rule: grounded.induct)
  case (root i)
  then have "i \<in> bead_id ` set (tree_roots cmpId g)" by (simp add: root_iff)
  then have "build cmpId g i {} \<in> set (buildTree cmpId g)"
    by (auto simp: buildTree_def tree_roots_def simp del: set_sortBy)
  with root show ?case by (intro exI [of _ "{}"]) (simp add: ancestors_root)
next
  case (child p c)
  then obtain path where p: "path \<subseteq> {a. (p, a) \<in> (par g)\<^sup>+}"
    "node_at (buildTree cmpId g) (ancestorsOf g p) (build cmpId g p path)" by blast
  have pc: "(c, p) \<in> par g" using child.hyps by (simp add: par_iff)
  note guard = guard_silent [OF grounded_acyclic [OF child.hyps(1)] p(1) pc]
  have "c \<in> bead_id ` set (tree_children cmpId g p (insert p path))"
    using guard(1) pc by (simp add: tree_children_ids)
  then have "build cmpId g c (insert p path) \<in> set (tn_children (build cmpId g p path))"
    by (auto simp: build.simps [of _ _ p])
  from node_at_snoc [OF p(2) this]
  have "node_at (buildTree cmpId g) (ancestorsOf g c) (build cmpId g c (insert p path))"
    using ancestors_step [OF child.hyps assms(2)] by (simp add: build.simps [of _ _ p])
  with guard(2) show ?case by blast
qed

text \<open>
  C20. The forest of the tree view shows every issue at most once, and exactly the issues whose
  chain of first-declared parents ends at a parentless issue: no cycle makes it loop or repeat.
\<close>

theorem tree_covers:
  assumes "distinct (map bead_id (issues g))"
  shows "distinct (concat (map tree_ids (buildTree cmpId g)))
    \<and> set (concat (map tree_ids (buildTree cmpId g))) = {i. grounded g i}"
  using buildTree_distinct [OF assms] buildTree_ids by blast

text \<open>
  Focus mode agrees with the tree: for an issue the tree shows, the node that is looked up
  carries that issue and its whole subtree, and the ancestor chain drawn above it is the path
  of tree nodes from a root down to it.
\<close>

theorem focus_path:
  assumes "distinct (map bead_id (issues g))" and "[] \<notin> bead_id ` set (issues g)" and "grounded g i"
  shows "\<exists>n. findTreeNode (buildTree cmpId g) i = Some n \<and> byId g i = Some (tn_issue n)
    \<and> set (tree_ids n) = {j. (j, i) \<in> (par g)\<^sup>*}
    \<and> node_at (buildTree cmpId g) (ancestorsOf g i) n"
proof -
  have "byId g [] = None" using assms(2) by (simp add: byId_None)
  from node_of_grounded [OF assms(3) this] obtain path where p: "path \<subseteq> {p. (i, p) \<in> (par g)\<^sup>+}"
    "node_at (buildTree cmpId g) (ancestorsOf g i) (build cmpId g i path)" by blast
  obtain x where x: "byId g i = Some x" using grounded_known [OF assms(3)] by blast
  then have "tn_issue (build cmpId g i path) = x" by (subst build.simps) simp
  with byId_bead_id [OF x] have iss: "tn_issue (build cmpId g i path) = x" "bead_id x = i" by simp_all
  from findTreeNode_at [OF p(2) buildTree_distinct [OF assms(1)]]
  have "findTreeNode (buildTree cmpId g) i = Some (build cmpId g i path)" unfolding iss by (rule conjunct2)
  moreover from build_ids [OF grounded_known [OF assms(3)] grounded_acyclic [OF assms(3)] p(1)]
  have "set (tree_ids (build cmpId g i path)) = {j. (j, i) \<in> (par g)\<^sup>*}" by (rule conjunct1)
  ultimately show ?thesis using p(2) x iss(1) by blast
qed

text \<open>A small graph: \<open>b\<close> under \<open>a\<close>, while \<open>p\<close> and \<open>q\<close> name each other as parent.\<close>

definition sample_issue :: "string \<Rightarrow> BeadsIssue" where
  "sample_issue i = \<lparr>bead_id = i, title = [], body = [], status = ''open'', priority = 2, issueType = ''task'',
     labels = [], externalRef = None, createdAt = [], updatedAt = []\<rparr>"

definition sample_graph :: BeadsTaskGraph where
  "sample_graph = \<lparr>issues = map sample_issue [''a'', ''b'', ''p'', ''q''],
     deps = map (\<lambda>(f, t). \<lparr>dep_from = f, dep_to = t, dep_type = ''parent-child''\<rparr>)
       [(''b'', ''a''), (''p'', ''q''), (''q'', ''p'')]\<rparr>"

lemma sample_parents: "parentOf sample_graph = [(''b'', ''a''), (''p'', ''q''), (''q'', ''p'')]"
  by code_simp

lemma sample_ids: "map bead_id (issues sample_graph) = [''a'', ''b'', ''p'', ''q'']"
  by (simp add: sample_graph_def sample_issue_def)

lemma sample_grounded: "grounded sample_graph ''b''"
proof (rule grounded.child)
  show "grounded sample_graph ''a''"
  proof (rule grounded.root)
    show "byId sample_graph ''a'' \<noteq> None" by (simp add: byId_def sample_graph_def sample_issue_def)
  qed (simp add: sample_parents)
qed (simp add: sample_parents)

text \<open>The two issues of the parent cycle are in no node of the forest.\<close>

lemma cycle_vanishes: "\<not> grounded sample_graph ''p''"
proof
  assume "grounded sample_graph ''p''"
  from grounded_acyclic [OF this] have "(''p'', ''p'') \<notin> (par sample_graph)\<^sup>+" .
  moreover have "(''p'', ''q'') \<in> par sample_graph" "(''q'', ''p'') \<in> par sample_graph"
    by (simp_all add: par_iff sample_parents)
  ultimately show False by (meson r_into_trancl' trancl_trans)
qed

theorem tree_covers_witness:
  "''p'' \<notin> set (concat (map tree_ids (buildTree (\<lambda>_ _. 0) sample_graph)))
    \<and> ''b'' \<in> set (concat (map tree_ids (buildTree (\<lambda>_ _. 0) sample_graph)))"
proof -
  have "distinct (map bead_id (issues sample_graph))" unfolding sample_ids by simp
  from tree_covers [OF this, of "\<lambda>_ _. 0"] show ?thesis
    using sample_grounded cycle_vanishes by auto
qed

theorem focus_path_witness:
  "\<exists>n. findTreeNode (buildTree (\<lambda>_ _. 0) sample_graph) ''b'' = Some n
    \<and> byId sample_graph ''b'' = Some (tn_issue n)"
proof -
  have d: "distinct (map bead_id (issues sample_graph))" unfolding sample_ids by simp
  have "[] \<notin> set (map bead_id (issues sample_graph))" unfolding sample_ids by simp
  then have e: "[] \<notin> bead_id ` set (issues sample_graph)" by simp
  from focus_path [OF d e sample_grounded, of "\<lambda>_ _. 0"] show ?thesis by blast
qed

section \<open>The groups of the list view\<close>

lemma comparator_issues:
  assumes "comparator cmpId"
  shows "comparator (compareIssues cmpId)"
  unfolding comparator_def
proof (intro conjI allI impI)
  fix x y z
  show "compareIssues cmpId x y < 0 \<longleftrightarrow> 0 < compareIssues cmpId y x"
    using assms by (auto simp: comparator_def compareIssues_def)
  assume "compareIssues cmpId x y \<le> 0" "compareIssues cmpId y z \<le> 0"
  then show "compareIssues cmpId x z \<le> 0"
    using comparator_trans [OF assms, of "bead_id x" "bead_id y" "bead_id z"]
    by (auto simp: compareIssues_def split: if_splits)
qed

lemma mset_state_filters:
  "mset (concat (map (\<lambda>s. filter (\<lambda>i. f i = s) xs) WG_STATES)) = mset xs"
proof (induction xs)
  case Nil
  then show ?case by (simp add: WG_STATES_def)
next
  case (Cons x xs)
  then show ?case by (cases "f x") (simp_all add: WG_STATES_def)
qed

lemma mset_concat_sort: "mset (concat (map (\<lambda>s. sortBy cmp (f s)) ss)) = mset (concat (map f ss))"
  by (induction ss) simp_all

lemma openBlockerCount_length: "openBlockerCount g issue = length (filter (open_blocker g issue) (deps g))"
proof -
  have "foldl (\<lambda>n d. if P d then n + 1 else n) k ds = k + length (filter P ds)" for P k and ds :: "BeadsDep list"
    by (induction ds arbitrary: k) auto
  then show ?thesis by (simp add: openBlockerCount_def)
qed

lemma blockers_agree: "hasOpenBlockers g issue \<longleftrightarrow> openBlockerCount g issue > 0"
  by (auto simp: hasOpenBlockers_def openBlockerCount_length list_ex_iff filter_empty_conv)

lemma ready_iff: "deriveState g i = WReady \<longleftrightarrow>
    status i = ''open'' \<and> openBlockerCount g i = 0 \<and> openChildCount g i = 0"
  by (auto simp: deriveState_def blockers_agree hasOpenChildren_def isTerminal_def)

text \<open>
  The list view loses and repeats nothing: its nine groups come in the fixed state order,
  together they hold each issue of the graph as often as the graph does, each group holds
  precisely the issues of its derived state, by ascending priority and then by id, and an issue
  is only called ready when it is open with no open blocker and no open child.
\<close>

theorem state_groups_partition:
  assumes "comparator cmpId"
  shows "map fst (groupByState cmpId g) = WG_STATES
    \<and> mset (concat (map snd (groupByState cmpId g))) = mset (issues g)
    \<and> (\<forall>(s, xs)\<in>set (groupByState cmpId g).
         (\<forall>i\<in>set xs. deriveState g i = s) \<and> weakly_sorted (compareIssues cmpId) xs
         \<and> (s = WReady \<longrightarrow> (\<forall>i\<in>set xs. status i = ''open'' \<and> openBlockerCount g i = 0 \<and> openChildCount g i = 0)))"
proof (intro conjI)
  show "map fst (groupByState cmpId g) = WG_STATES" by (simp add: groupByState_def comp_def)
  have "mset (concat (map snd (groupByState cmpId g))) =
      mset (concat (map (\<lambda>s. sortBy (compareIssues cmpId) (filter (\<lambda>i. deriveState g i = s) (issues g))) WG_STATES))"
    by (simp add: groupByState_def comp_def)
  then show "mset (concat (map snd (groupByState cmpId g))) = mset (issues g)"
    unfolding mset_concat_sort mset_state_filters .
  show "\<forall>(s, xs)\<in>set (groupByState cmpId g).
         (\<forall>i\<in>set xs. deriveState g i = s) \<and> weakly_sorted (compareIssues cmpId) xs
         \<and> (s = WReady \<longrightarrow> (\<forall>i\<in>set xs. status i = ''open'' \<and> openBlockerCount g i = 0 \<and> openChildCount g i = 0))"
    using sorted_sortBy [OF comparator_issues [OF assms]] ready_iff by (auto simp: groupByState_def)
qed

theorem state_groups_partition_witness:
  "mset (concat (map snd (groupByState (\<lambda>_ _. 0) sample_graph))) = mset (issues sample_graph)"
proof -
  have "comparator (\<lambda>_ _. 0 :: int)" by (simp add: comparator_def)
  then have c: "comparator ((\<lambda>_ _. 0) :: compareId)" by (simp add: comparator_def)
  from state_groups_partition [OF c, of sample_graph] show ?thesis by blast
qed

end
