(* ===== verification/GraphLayout.thy ===== *)
theory GraphLayout
  imports Workgraph
begin

text \<open>
  \<open>beads/graphLayout.ts\<close>: the focused subgraph around one issue. A breadth-first walk over
  \<open>blocks\<close> and parent edges gives every node a signed rank (upstream is negative), ranks
  become columns, and the ids of a rank become rows.

  The \<open>while\<close> loop runs on fuel, and one turn more than there are endpoints of dependencies
  is enough (\<open>walk_ends\<close>). The default sort of strings is the order of their code units.
\<close>

datatype GraphEdgeKind = EBlocks | EParentChild | EReverseBlock

record LaidOutEdge =
  edge_from :: string
  edge_to :: string
  edge_kind :: GraphEdgeKind

record LaidOutNode =
  node_id :: string
  node_issue :: BeadsIssue
  node_state :: WorkgraphState
  node_x :: int
  node_y :: int
  node_rank :: int

record LaidOutGraph =
  nodes :: "LaidOutNode list"
  edges :: "LaidOutEdge list"
  width :: int
  height :: int

definition NODE_W :: int where "NODE_W = 220"
definition NODE_H :: int where "NODE_H = 56"
definition COL_GAP :: int where "COL_GAP = 60"
definition ROW_GAP :: int where "ROW_GAP = 24"

definition walked :: "BeadsDep \<Rightarrow> bool" where
  "walked d \<longleftrightarrow> dep_type d = ''blocks'' \<or> is_parent_type (dep_type d)"

definition upstream :: "BeadsTaskGraph \<Rightarrow> string \<Rightarrow> string list" where
  "upstream g i = map dep_to (filter (\<lambda>d. walked d \<and> dep_from d = i) (deps g))"

definition downstream :: "BeadsTaskGraph \<Rightarrow> string \<Rightarrow> string list" where
  "downstream g i = map dep_from (filter (\<lambda>d. walked d \<and> dep_to d = i) (deps g))"

text \<open>The ranks found so far, in the order of discovery, and the queue.\<close>

type_synonym walk = "(string \<times> int) list \<times> (string \<times> int) list"

definition visit :: "int \<Rightarrow> walk \<Rightarrow> string \<Rightarrow> walk" where
  "visit r w next =
     (if next \<in> fst ` set (fst w) then w
      else (omap_set next r (fst w), snd w @ [(next, r)]))"

definition expand :: "BeadsTaskGraph \<Rightarrow> string \<Rightarrow> int \<Rightarrow> walk \<Rightarrow> walk" where
  "expand g i rank w = foldl (visit (rank + 1)) (foldl (visit (rank - 1)) w (upstream g i)) (downstream g i)"

fun bfs :: "nat \<Rightarrow> BeadsTaskGraph \<Rightarrow> int \<Rightarrow> walk \<Rightarrow> (string \<times> int) list option" where
  "bfs fuel g hops (m, []) = Some m"
| "bfs 0 g hops (m, p # q) = None"
| "bfs (Suc fuel) g hops (m, (i, rank) # q) =
     (if \<bar>rank\<bar> \<ge> hops then bfs fuel g hops (m, q) else bfs fuel g hops (expand g i rank (m, q)))"

text \<open>
  Enough for every walk: a node is entered at most once, and a dependency has two ends. The bound
  on the rank is an integer here. The source also calls the walk with an infinite bound; as no
  rank exceeds the number of nodes, that is the walk with any bound at least as large.
\<close>

definition walk_fuel :: "BeadsTaskGraph \<Rightarrow> nat" where
  "walk_fuel g = Suc (2 * length (deps g))"

definition inRank :: "BeadsTaskGraph \<Rightarrow> string \<Rightarrow> int \<Rightarrow> (string \<times> int) list" where
  "inRank g centerId hops =
     (case bfs (walk_fuel g) g hops ([(centerId, 0)], [(centerId, 0)]) of Some m \<Rightarrow> m | None \<Rightarrow> [])"

definition ranks_of :: "(string \<times> int) list \<Rightarrow> int list" where
  "ranks_of m = sort (remdups (map snd m))"

definition ids_at :: "(string \<times> int) list \<Rightarrow> int \<Rightarrow> string list" where
  "ids_at m rank = sort (map fst (filter (\<lambda>(_, r). r = rank) m))"

definition cell :: "BeadsTaskGraph \<Rightarrow> nat \<Rightarrow> int \<Rightarrow> nat \<times> string \<Rightarrow> LaidOutNode list" where
  "cell g c rank ri = (case byId g (snd ri) of None \<Rightarrow> []
     | Some issue \<Rightarrow> [\<lparr>node_id = snd ri, node_issue = issue, node_state = deriveState g issue,
         node_x = int c * (NODE_W + COL_GAP), node_y = int (fst ri) * (NODE_H + ROW_GAP), node_rank = rank\<rparr>])"

definition column :: "BeadsTaskGraph \<Rightarrow> (string \<times> int) list \<Rightarrow> nat \<times> int \<Rightarrow> LaidOutNode list" where
  "column g m cr = concat (map (cell g (fst cr) (snd cr)) (enumerate 0 (ids_at m (snd cr))))"

definition layout_nodes :: "BeadsTaskGraph \<Rightarrow> (string \<times> int) list \<Rightarrow> LaidOutNode list" where
  "layout_nodes g m = concat (map (column g m) (enumerate 0 (ranks_of m)))"

definition layout_edge :: "BeadsTaskGraph \<Rightarrow> (string \<times> int) list \<Rightarrow> BeadsDep \<Rightarrow> LaidOutEdge list" where
  "layout_edge g m d =
     (if dep_from d \<notin> fst ` set m \<or> dep_to d \<notin> fst ` set m then []
      else if dep_type d = ''blocks'' then [\<lparr>edge_from = dep_from d, edge_to = dep_to d, edge_kind = EBlocks\<rparr>]
      else if is_parent_type (dep_type d) then
        [\<lparr>edge_from = dep_from d, edge_to = dep_to d,
          edge_kind = (case byId g (dep_from d) of
              Some child \<Rightarrow> if \<not> isTerminal (status child) then EReverseBlock else EParentChild
            | None \<Rightarrow> EParentChild)\<rparr>]
      else [])"

definition focusedSubgraph :: "BeadsTaskGraph \<Rightarrow> string \<Rightarrow> int \<Rightarrow> LaidOutGraph" where
  "focusedSubgraph g centerId hops =
     (let m = inRank g centerId hops; ns = layout_nodes g m
      in \<lparr>nodes = ns,
          edges = concat (map (layout_edge g m) (deps g)),
          width = int (length (ranks_of m)) * (NODE_W + COL_GAP),
          height = foldl max 0 (map (\<lambda>n. node_y n + (NODE_H + ROW_GAP)) ns)\<rparr>)"

section \<open>The walk ends\<close>

definition endpoints :: "BeadsTaskGraph \<Rightarrow> string set" where
  "endpoints g = dep_from ` set (deps g) \<union> dep_to ` set (deps g)"

lemma card_endpoints: "card (endpoints g) \<le> 2 * length (deps g)"
proof -
  have "card (endpoints g) \<le> card (dep_from ` set (deps g)) + card (dep_to ` set (deps g))"
    unfolding endpoints_def by (rule card_Un_le)
  also have "\<dots> \<le> length (deps g) + length (deps g)"
    by (intro add_mono order_trans [OF card_image_le card_length]) simp_all
  finally show ?thesis by simp
qed

lemma neighbours_endpoints: "set (upstream g i) \<union> set (downstream g i) \<subseteq> endpoints g"
  by (auto simp: upstream_def downstream_def endpoints_def)

text \<open>
  The walk's invariant. \<open>done\<close> are the nodes already taken from the queue: ranks are in
  bounds, every rank but the center's comes from a neighbour one column away, and the
  neighbours of a finished node short of the bound are all found.
\<close>

definition linked :: "BeadsTaskGraph \<Rightarrow> (string \<times> int) list \<Rightarrow> string \<times> int \<Rightarrow> bool" where
  "linked g m x \<longleftrightarrow>
     (\<exists>j. ((j, snd x + 1) \<in> set m \<and> fst x \<in> set (upstream g j))
        \<or> ((j, snd x - 1) \<in> set m \<and> fst x \<in> set (downstream g j)))"

definition finished :: "BeadsTaskGraph \<Rightarrow> int \<Rightarrow> (string \<times> int) list \<Rightarrow> (string \<times> int) list \<Rightarrow> bool" where
  "finished g hops m m0 \<longleftrightarrow> (\<forall>(i, r)\<in>set m0. \<bar>r\<bar> < hops \<longrightarrow>
     set (upstream g i) \<union> set (downstream g i) \<subseteq> fst ` set m)"

definition bounded :: "BeadsTaskGraph \<Rightarrow> string \<Rightarrow> int \<Rightarrow> (string \<times> int) list \<Rightarrow> bool" where
  "bounded g c hops m \<longleftrightarrow> (\<forall>(i, r)\<in>set m. i \<in> insert c (endpoints g) \<and> (r = 0 \<or> \<bar>r\<bar> \<le> hops))"

definition walk_inv :: "BeadsTaskGraph \<Rightarrow> string \<Rightarrow> int \<Rightarrow> nat \<Rightarrow> walk \<Rightarrow> bool" where
  "walk_inv g c hops k w \<longleftrightarrow>
     distinct (map fst (fst w)) \<and> length (fst w) = k + length (snd w)
     \<and> (\<exists>m0. fst w = m0 @ snd w \<and> finished g hops (fst w) m0)
     \<and> bounded g c hops (fst w)
     \<and> (\<exists>rest. fst w = (c, 0) # rest \<and> (\<forall>x\<in>set rest. linked g (fst w) x))"

lemma linked_mono: "linked g m x \<Longrightarrow> set m \<subseteq> set m' \<Longrightarrow> linked g m' x"
  unfolding linked_def by blast

lemma visits:
  "distinct (map fst (fst w)) \<Longrightarrow> \<exists>new. foldl (visit r) w ns = (fst w @ new, snd w @ new)
     \<and> distinct (map fst (fst w @ new)) \<and> (\<forall>x\<in>set new. snd x = r \<and> fst x \<in> set ns)
     \<and> set ns \<subseteq> fst ` set (fst w @ new)"
proof (induction ns arbitrary: w)
  case Nil
  then show ?case by (cases w) auto
next
  case (Cons n ns)
  show ?case
  proof (cases "n \<in> fst ` set (fst w)")
    case True
    then have v: "visit r w n = w" by (simp add: visit_def)
    from Cons.IH [OF Cons.prems] obtain new where "foldl (visit r) w ns = (fst w @ new, snd w @ new)"
      "distinct (map fst (fst w @ new))" "\<forall>x\<in>set new. snd x = r \<and> fst x \<in> set ns"
      "set ns \<subseteq> fst ` set (fst w @ new)" by blast
    with v True show ?thesis by (intro exI [of _ new]) (auto simp del: map_append)
  next
    case False
    let ?w = "(fst w @ [(n, r)], snd w @ [(n, r)])"
    have v: "visit r w n = ?w" using False by (simp add: visit_def omap_set_def)
    have "distinct (map fst (fst ?w))" using False Cons.prems by (auto simp: image_iff)
    from Cons.IH [OF this] obtain new where "foldl (visit r) ?w ns = (fst ?w @ new, snd ?w @ new)"
      "distinct (map fst (fst ?w @ new))" "\<forall>x\<in>set new. snd x = r \<and> fst x \<in> set ns"
      "set ns \<subseteq> fst ` set (fst ?w @ new)" by blast
    then show ?thesis by (intro exI [of _ "(n, r) # new"]) (auto simp: v)
  qed
qed

lemma expand_new:
  assumes "distinct (map fst m)"
  shows "\<exists>new. expand g i rank (m, q) = (m @ new, q @ new) \<and> distinct (map fst (m @ new))
    \<and> (\<forall>x\<in>set new. (snd x = rank - 1 \<and> fst x \<in> set (upstream g i))
         \<or> (snd x = rank + 1 \<and> fst x \<in> set (downstream g i)))
    \<and> set (upstream g i) \<union> set (downstream g i) \<subseteq> fst ` set (m @ new)"
proof -
  from visits [of "(m, q)" "rank - 1" "upstream g i"] assms obtain up where
    u: "foldl (visit (rank - 1)) (m, q) (upstream g i) = (m @ up, q @ up)" "distinct (map fst (m @ up))"
      "\<forall>x\<in>set up. snd x = rank - 1 \<and> fst x \<in> set (upstream g i)"
      "set (upstream g i) \<subseteq> fst ` set (m @ up)" by auto
  from visits [of "(m @ up, q @ up)" "rank + 1" "downstream g i"] u(2) obtain dn where
    d: "foldl (visit (rank + 1)) (m @ up, q @ up) (downstream g i) = (m @ up @ dn, q @ up @ dn)"
      "distinct (map fst (m @ up @ dn))" "\<forall>x\<in>set dn. snd x = rank + 1 \<and> fst x \<in> set (downstream g i)"
      "set (downstream g i) \<subseteq> fst ` set (m @ up @ dn)" by auto
  from u d show ?thesis by (intro exI [of _ "up @ dn"]) (auto simp: expand_def)
qed

lemma walk_inv_bound:
  assumes "walk_inv g c hops k (m, q)"
  shows "k + length q \<le> card (insert c (endpoints g))"
proof -
  from assms have d: "distinct (map fst m)" and l: "length m = k + length q"
    and b: "bounded g c hops m" by (simp_all add: walk_inv_def)
  from b have s: "set (map fst m) \<subseteq> insert c (endpoints g)" by (auto simp: bounded_def)
  have "finite (insert c (endpoints g))" by (simp add: endpoints_def)
  from card_mono [OF this s] distinct_card [OF d] l show ?thesis by simp
qed

lemma finished_snoc:
  "finished g hops m m0 \<Longrightarrow> set m \<subseteq> set m' \<Longrightarrow>
     (\<bar>r\<bar> < hops \<Longrightarrow> set (upstream g i) \<union> set (downstream g i) \<subseteq> fst ` set m') \<Longrightarrow>
     finished g hops m' (m0 @ [(i, r)])"
  unfolding finished_def by (auto 0 4)

lemma walk_step_stop:
  assumes "walk_inv g c hops k (m, (i, rank) # q)" and "\<bar>rank\<bar> \<ge> hops"
  shows "walk_inv g c hops (Suc k) (m, q)"
proof -
  from assms(1) obtain m0 where "m = m0 @ (i, rank) # q" "finished g hops m m0"
    unfolding walk_inv_def fst_conv snd_conv by blast
  with assms(2) finished_snoc [of g hops m m0 m rank i]
  have "\<exists>m0. m = m0 @ q \<and> finished g hops m m0" by (intro exI [of _ "m0 @ [(i, rank)]"]) simp
  with assms(1) show ?thesis unfolding walk_inv_def by simp
qed

lemma walk_step_expand:
  assumes inv: "walk_inv g c hops k (m, (i, rank) # q)" and "\<bar>rank\<bar> < hops"
  shows "walk_inv g c hops (Suc k) (expand g i rank (m, q))"
proof -
  from inv have d: "distinct (map fst m)" and l: "length m = k + Suc (length q)"
    and b: "bounded g c hops m" by (simp_all add: walk_inv_def)
  from inv obtain m0 where m0: "m = m0 @ (i, rank) # q" "finished g hops m m0"
    unfolding walk_inv_def fst_conv snd_conv by blast
  from inv obtain rest where rest: "m = (c, 0) # rest" "\<forall>x\<in>set rest. linked g m x"
    unfolding walk_inv_def fst_conv snd_conv by blast
  from expand_new [OF d, of g i rank q] obtain new where e: "expand g i rank (m, q) = (m @ new, q @ new)"
    and n: "distinct (map fst (m @ new))" "\<forall>x\<in>set new. (snd x = rank - 1 \<and> fst x \<in> set (upstream g i))
         \<or> (snd x = rank + 1 \<and> fst x \<in> set (downstream g i))"
      "set (upstream g i) \<union> set (downstream g i) \<subseteq> fst ` set (m @ new)" by blast
  have "m @ new = (m0 @ [(i, rank)]) @ (q @ new)" using m0(1) by simp
  moreover have "finished g hops (m @ new) (m0 @ [(i, rank)])"
    by (rule finished_snoc [OF m0(2)]) (use n(3) in simp_all)
  ultimately have fin: "\<exists>m0. m @ new = m0 @ (q @ new) \<and> finished g hops (m @ new) m0" by blast
  have "j \<in> insert c (endpoints g) \<and> (r = 0 \<or> \<bar>r\<bar> \<le> hops)" if "(j, r) \<in> set new" for j r
  proof -
    from n(2) that have "r = rank - 1 \<and> j \<in> set (upstream g i) \<or> r = rank + 1 \<and> j \<in> set (downstream g i)" by force
    with neighbours_endpoints [of g i] assms(2) show ?thesis by auto
  qed
  with b have bound: "bounded g c hops (m @ new)" unfolding bounded_def by auto
  have "(i, rank) \<in> set (m @ new)" using m0(1) by simp
  then have "linked g (m @ new) x" if "x \<in> set new" for x
    using bspec [OF n(2) that] unfolding linked_def by (elim disjE conjE) (intro exI [of _ i], simp)+
  moreover have "linked g (m @ new) x" if "x \<in> set rest" for x
    using rest(2) that linked_mono [of g m x "m @ new"] by simp
  ultimately have "m @ new = (c, 0) # (rest @ new) \<and> (\<forall>x\<in>set (rest @ new). linked g (m @ new) x)"
    using rest(1) by auto
  then have link: "\<exists>rest. m @ new = (c, 0) # rest \<and> (\<forall>x\<in>set rest. linked g (m @ new) x)" by blast
  have "length (m @ new) = Suc k + length (q @ new)" using l by simp
  with n(1) fin bound link show ?thesis
    unfolding e walk_inv_def fst_conv snd_conv by (intro conjI)
qed

lemma bfs_inv:
  "walk_inv g c hops k (m, q) \<Longrightarrow> card (insert c (endpoints g)) \<le> k + fuel \<Longrightarrow>
     \<exists>m'. bfs fuel g hops (m, q) = Some m' \<and> walk_inv g c hops (length m') (m', [])"
proof (induction fuel g hops "(m, q)" arbitrary: k m q rule: bfs.induct)
  case (1 fuel g hops m)
  then have "k = length m" by (simp add: walk_inv_def)
  with 1 show ?case by simp
next
  case (2 g hops m p q)
  with walk_inv_bound [of g c hops k m "p # q"] show ?case by simp
next
  case (3 fuel g hops m i rank q)
  show ?case
  proof (cases "\<bar>rank\<bar> \<ge> hops")
    case True
    from 3(1) [OF True walk_step_stop [OF 3(3) True]] 3(4) True show ?thesis by simp
  next
    case False
    obtain m2 q2 where e: "expand g i rank (m, q) = (m2, q2)" by (cases "expand g i rank (m, q)")
    from walk_step_expand [OF 3(3)] False e have "walk_inv g c hops (Suc k) (m2, q2)" by simp
    with 3(2) [OF False e] 3(4) False e show ?thesis by simp
  qed
qed

lemma walk_start: "walk_inv g c hops 0 ([(c, 0)], [(c, 0)])"
  by (simp add: walk_inv_def finished_def bounded_def)

lemma enough_fuel: "card (insert c (endpoints g)) \<le> walk_fuel g"
  using card_endpoints [of g] card_insert_le_m1 [of "Suc (card (endpoints g))" "endpoints g" c]
  by (simp add: walk_fuel_def card_insert_if endpoints_def)

lemma inRank_inv: "walk_inv g c hops (length (inRank g c hops)) (inRank g c hops, [])"
  using bfs_inv [OF walk_start, of c g "walk_fuel g" hops] enough_fuel [of c g] by (auto simp: inRank_def)

text \<open>
  C21. The breadth-first walk always ends within its fuel, whatever cycles the dependencies
  form. It starts at the center with rank 0 and gives no node two ranks; every other node is
  a dependency endpoint within the rank bound and was reached from a neighbour one rank nearer
  along an edge of the right direction; and all neighbours of a node inside the bound are found.
\<close>

theorem walk_ends:
  "\<exists>rest. bfs (walk_fuel g) g hops ([(c, 0)], [(c, 0)]) = Some ((c, 0) # rest)
    \<and> distinct (map fst ((c, 0) # rest))
    \<and> (\<forall>(i, r)\<in>set rest. i \<in> endpoints g \<and> (r = 0 \<or> \<bar>r\<bar> \<le> hops)
         \<and> (\<exists>j. ((j, r + 1) \<in> set ((c, 0) # rest) \<and> i \<in> set (upstream g j))
              \<or> ((j, r - 1) \<in> set ((c, 0) # rest) \<and> i \<in> set (downstream g j))))
    \<and> (\<forall>(i, r)\<in>set ((c, 0) # rest). \<bar>r\<bar> < hops \<longrightarrow>
         set (upstream g i) \<union> set (downstream g i) \<subseteq> set (map fst ((c, 0) # rest)))"
proof -
  from bfs_inv [OF walk_start, of c g "walk_fuel g" hops] enough_fuel [of c g] obtain m where
    m: "bfs (walk_fuel g) g hops ([(c, 0)], [(c, 0)]) = Some m" "walk_inv g c hops (length m) (m, [])" by auto
  from m(2) have d: "distinct (map fst m)" and b: "bounded g c hops m" and f: "finished g hops m m"
    by (simp_all add: walk_inv_def)
  from m(2) obtain rest where rest: "m = (c, 0) # rest" "\<forall>x\<in>set rest. linked g m x"
    unfolding walk_inv_def fst_conv snd_conv by blast
  have "i \<in> endpoints g \<and> (r = 0 \<or> \<bar>r\<bar> \<le> hops) \<and> linked g m (i, r)" if "(i, r) \<in> set rest" for i r
  proof -
    from that have "i \<noteq> c" using d unfolding rest(1) by force
    with b that rest show ?thesis unfolding bounded_def by auto
  qed
  then have links: "\<forall>(i, r)\<in>set rest. i \<in> endpoints g \<and> (r = 0 \<or> \<bar>r\<bar> \<le> hops)
         \<and> (\<exists>j. ((j, r + 1) \<in> set ((c, 0) # rest) \<and> i \<in> set (upstream g j))
              \<or> ((j, r - 1) \<in> set ((c, 0) # rest) \<and> i \<in> set (downstream g j)))"
    unfolding linked_def rest(1) [symmetric] by auto
  from f have "\<forall>(i, r)\<in>set m. \<bar>r\<bar> < hops \<longrightarrow>
      set (upstream g i) \<union> set (downstream g i) \<subseteq> set (map fst m)"
    by (simp add: finished_def)
  with m(1) d links show ?thesis unfolding rest(1) by blast
qed

definition chain_graph :: BeadsTaskGraph where
  "chain_graph = \<lparr>issues = map sample_issue [''a'', ''b'', ''c'', ''d'', ''e''],
     deps = map (\<lambda>(f, t). \<lparr>dep_from = f, dep_to = t, dep_type = ''blocks''\<rparr>)
       [(''a'', ''b''), (''c'', ''b''), (''c'', ''d''), (''e'', ''d'')]\<rparr>"

lemma chain_walk:
  "bfs (walk_fuel chain_graph) chain_graph 2 ([(''a'', 0)], [(''a'', 0)]) =
     Some [(''a'', 0), (''b'', -1), (''c'', 0), (''d'', -1), (''e'', 0)]"
  by code_simp

theorem walk_ends_witness:
  "distinct (map fst [(''a'', 0::int), (''b'', -1), (''c'', 0), (''d'', -1), (''e'', 0)])"
  using walk_ends [of chain_graph 2 "''a''"] unfolding chain_walk by auto

section \<open>The grid\<close>

lemma layout_node_cell:
  "n \<in> set (layout_nodes g m) \<longleftrightarrow> (\<exists>c<length (ranks_of m). \<exists>r<length (ids_at m (ranks_of m ! c)).
     n \<in> set (cell g c (ranks_of m ! c) (r, ids_at m (ranks_of m ! c) ! r)))"
  by (auto simp: layout_nodes_def column_def in_set_enumerate_eq Bex_def)

lemma cell_at: "n \<in> set (cell g c rank (r, i)) \<Longrightarrow>
    node_x n = int c * (NODE_W + COL_GAP) \<and> node_y n = int r * (NODE_H + ROW_GAP) \<and> node_id n = i
    \<and> byId g i = Some (node_issue n)"
  by (auto simp: cell_def split: option.splits)

lemma cell_one: "a \<in> set (cell g c rank ri) \<Longrightarrow> b \<in> set (cell g c rank ri) \<Longrightarrow> a = b"
  by (cases "byId g (snd ri)") (auto simp: cell_def)

definition overlap :: "LaidOutNode \<Rightarrow> LaidOutNode \<Rightarrow> bool" where
  "overlap a b \<longleftrightarrow> \<bar>node_x a - node_x b\<bar> < NODE_W \<and> \<bar>node_y a - node_y b\<bar> < NODE_H"

lemma near_multiples: "\<bar>int a * k - int b * k\<bar> < k \<Longrightarrow> a = b"
proof -
  assume "\<bar>int a * k - int b * k\<bar> < k"
  then have "\<bar>(int a - int b) * k\<bar> < k" by (simp add: left_diff_distrib)
  moreover from this have "0 < k" by linarith
  ultimately have "\<bar>int a - int b\<bar> * k < 1 * k" by (simp add: abs_mult)
  with \<open>0 < k\<close> have "\<bar>int a - int b\<bar> < 1" using mult_less_cancel_right_pos by blast
  then show "a = b" by simp
qed

lemma overlap_same:
  assumes "a \<in> set (layout_nodes g m)" and "b \<in> set (layout_nodes g m)" and "overlap a b"
  shows "a = b"
proof -
  from assms(1) obtain c r where a: "a \<in> set (cell g c (ranks_of m ! c) (r, ids_at m (ranks_of m ! c) ! r))"
    unfolding layout_node_cell by blast
  from assms(2) obtain c' r' where b: "b \<in> set (cell g c' (ranks_of m ! c') (r', ids_at m (ranks_of m ! c') ! r'))"
    unfolding layout_node_cell by blast
  have "\<bar>int c * 280 - int c' * 280\<bar> < 280" "\<bar>int r * 80 - int r' * 80\<bar> < 80"
    using assms(3) cell_at [OF a] cell_at [OF b]
    by (simp_all add: overlap_def NODE_W_def NODE_H_def COL_GAP_def ROW_GAP_def)
  then have "c = c'" "r = r'" by (auto dest: near_multiples)
  with a b show ?thesis using cell_one by blast
qed

lemma column_ids: "map node_id (column g m (c, rank)) = filter (\<lambda>i. byId g i \<noteq> None) (ids_at m rank)"
proof -
  have "map node_id (concat (map (cell g c rank) (enumerate k ids))) = filter (\<lambda>i. byId g i \<noteq> None) ids" for k ids
    by (induction ids arbitrary: k) (auto simp: cell_def split: option.splits)
  then show ?thesis by (simp add: column_def)
qed

lemma layout_ids: "map node_id (layout_nodes g m) =
    filter (\<lambda>i. byId g i \<noteq> None) (concat (map (ids_at m) (ranks_of m)))"
proof -
  have "map node_id (concat (map (column g m) (enumerate k rs))) =
      filter (\<lambda>i. byId g i \<noteq> None) (concat (map (ids_at m) rs))" for k rs
    by (induction rs arbitrary: k) (simp_all add: column_ids)
  then show ?thesis by (simp add: layout_nodes_def)
qed

lemma ids_at_set: "set (ids_at m r) = {i. (i, r) \<in> set m}"
  by (force simp: ids_at_def)

lemma all_ids: "set (concat (map (ids_at m) (ranks_of m))) = fst ` set m"
  by (force simp: ids_at_set ranks_of_def)

lemma all_ids_distinct:
  assumes "distinct (map fst m)"
  shows "distinct (concat (map (ids_at m) (ranks_of m)))"
proof (rule distinct_concat_map)
  show "distinct (ranks_of m)" by (simp add: ranks_of_def)
  show "distinct (ids_at m r)" for r using assms by (simp add: ids_at_def distinct_map_filter)
  show "set (ids_at m r) \<inter> set (ids_at m r') = {}" if "r \<noteq> r'" for r r'
    using that eq_key_imp_eq_value [OF assms] unfolding ids_at_set by blast
qed

lemma foldl_max_start: "(h :: int) \<le> foldl max h xs"
  by (induction xs arbitrary: h) (auto intro: order_trans [OF max.cobounded1])

lemma foldl_max_ge: "x \<in> set xs \<Longrightarrow> x \<le> foldl max (h :: int) xs"
proof (induction xs arbitrary: h)
  case Nil
  then show ?case by simp
next
  case (Cons y xs)
  then show ?case using order_trans [OF max.cobounded2 foldl_max_start, of x h xs] by auto
qed

text \<open>
  The picture of the focused subgraph is a proper grid: each issue of the walked part is
  drawn exactly once and nothing else is, no two cards overlap, and every card lies inside the
  canvas whose size is reported.
\<close>

theorem layout_grid:
  "let l = focusedSubgraph g c hops; m = inRank g c hops in
     distinct (map node_id (nodes l))
     \<and> set (map node_id (nodes l)) = {i. i \<in> fst ` set m \<and> byId g i \<noteq> None}
     \<and> (\<forall>a\<in>set (nodes l). \<forall>b\<in>set (nodes l). overlap a b \<longrightarrow> a = b)
     \<and> (\<forall>n\<in>set (nodes l). 0 \<le> node_x n \<and> node_x n + NODE_W \<le> width l
          \<and> 0 \<le> node_y n \<and> node_y n + NODE_H \<le> height l)"
proof -
  let ?m = "inRank g c hops" and ?l = "focusedSubgraph g c hops"
  have ns: "nodes ?l = layout_nodes g ?m" by (simp add: focusedSubgraph_def Let_def)
  have d: "distinct (map fst ?m)" using inRank_inv by (simp add: walk_inv_def)
  have inside: "0 \<le> node_x n \<and> node_x n + NODE_W \<le> width ?l \<and> 0 \<le> node_y n \<and> node_y n + NODE_H \<le> height ?l"
    if n: "n \<in> set (nodes ?l)" for n
  proof -
    from n obtain col r where col: "col < length (ranks_of ?m)"
      "n \<in> set (cell g col (ranks_of ?m ! col) (r, ids_at ?m (ranks_of ?m ! col) ! r))"
      unfolding ns layout_node_cell by blast
    have "node_y n + (NODE_H + ROW_GAP) \<le> height ?l"
      using n foldl_max_ge [of "node_y n + (NODE_H + ROW_GAP)" "map (\<lambda>n. node_y n + (NODE_H + ROW_GAP)) (nodes ?l)" 0]
      by (simp add: focusedSubgraph_def Let_def)
    with cell_at [OF col(2)] col(1) show ?thesis
      by (simp add: focusedSubgraph_def Let_def NODE_W_def NODE_H_def COL_GAP_def ROW_GAP_def)
  qed
  show ?thesis
    unfolding Let_def
  proof (intro conjI ballI impI)
    show "distinct (map node_id (nodes ?l))"
      unfolding ns layout_ids by (rule distinct_filter [OF all_ids_distinct [OF d]])
    show "set (map node_id (nodes ?l)) = {i. i \<in> fst ` set ?m \<and> byId g i \<noteq> None}"
      unfolding ns layout_ids by (simp only: set_filter all_ids)
  next
    fix a b
    assume "a \<in> set (nodes ?l)" "b \<in> set (nodes ?l)" "overlap a b"
    then show "a = b" unfolding ns by (rule overlap_same)
  qed (use inside in blast)+
qed

theorem layout_grid_witness:
  "map node_id (nodes (focusedSubgraph chain_graph ''a'' 2)) = [''b'', ''d'', ''a'', ''c'', ''e'']
    \<and> distinct (map node_id (nodes (focusedSubgraph chain_graph ''a'' 2)))"
proof
  show "map node_id (nodes (focusedSubgraph chain_graph ''a'' 2)) = [''b'', ''d'', ''a'', ''c'', ''e'']"
    by code_simp
  show "distinct (map node_id (nodes (focusedSubgraph chain_graph ''a'' 2)))"
    using layout_grid [of chain_graph "''a''" 2] by (simp add: Let_def)
qed

text \<open>
  The bound is on the rank, not on the distance: with a bound of two, \<open>e\<close>, four edges away from
  \<open>a\<close>, is drawn, because the walk comes back to rank 0 on every other edge.
\<close>

lemma hops_do_not_bound_distance: "(''e'', 0) \<in> set (inRank chain_graph ''a'' 2)"
  by (simp add: inRank_def chain_walk)

end
