(* ===== verification/Folding.thy ===== *)
theory Folding
  imports JsSort
begin

text \<open>
  Folding of structured text in the content viewer: the offset arithmetic of
  \<open>content/folding/foldModel.ts\<close>, the regions that \<open>folding/jsonFold.ts\<close> reads off a JSON
  syntax tree, and the visible rows of \<open>content/foldingRows.ts\<close>.

  Offsets and lines are natural numbers. The syntax tree comes from jsonc-parser: a node has a
  type, an offset, a length and children.
\<close>

section \<open>Offsets and lines\<close>

definition lineStartOffsets :: "string \<Rightarrow> nat list" where
  "lineStartOffsets text = foldl (\<lambda>starts i. if text ! i = CHR 0x0A then starts @ [i + 1] else starts) [0] [0..<length text]"

text \<open>The binary search: the bounds are inclusive, and the middle rounds up.\<close>

function line_search :: "nat list \<Rightarrow> nat \<Rightarrow> nat \<Rightarrow> nat \<Rightarrow> nat" where
  "line_search starts offset lo hi =
     (if lo < hi then
        (let mid = (lo + hi + 1) div 2
         in if starts ! mid \<le> offset then line_search starts offset mid hi
            else line_search starts offset lo (mid - 1))
      else lo)"
  by pat_completeness auto

termination
  by (relation "measure (\<lambda>(starts, offset, lo, hi). hi - lo)") auto

declare line_search.simps [simp del]

definition offsetToLine :: "nat list \<Rightarrow> nat \<Rightarrow> nat" where
  "offsetToLine starts offset = line_search starts offset 0 (length starts - 1)"

section \<open>Regions of a JSON tree\<close>

datatype region_kind = RObject | RArray | RMap | RSeq | RBlockScalar

record FoldRegion =
  r_start :: nat
  r_end :: nat
  headerEnd :: nat
  r_kind :: region_kind
  itemCount :: nat
  r_depth :: nat

record FoldDocument =
  doc_start :: nat
  doc_end :: nat
  doc_index :: nat

datatype json_type = TObject | TArray | TProperty | TScalar

datatype json_node = Node (n_type: json_type) (n_offset: nat) (n_length: nat) (n_children: "json_node list")

definition slice_has_break :: "string \<Rightarrow> nat \<Rightarrow> nat \<Rightarrow> bool" where
  "slice_has_break text a b \<longleftrightarrow> CHR 0x0A \<in> set (drop a (take b text))"

definition region_of :: "json_node \<Rightarrow> nat \<Rightarrow> string \<Rightarrow> FoldRegion list" where
  "region_of n depth text =
     (let s = n_offset n; e = n_offset n + n_length n
      in if slice_has_break text s e then
           [\<lparr>r_start = s, r_end = e, headerEnd = s + 1,
             r_kind = (if n_type n = TObject then RObject else RArray),
             itemCount = length (n_children n), r_depth = depth\<rparr>]
         else [])"

definition second_child :: "json_node \<Rightarrow> json_node list" where
  "second_child n = (if 1 < length (n_children n) then [n_children n ! 1] else [])"

lemma size_child: "c \<in> set (n_children n) \<Longrightarrow> size c < size n"
  by (cases n) (auto simp: less_Suc_eq_le intro: size_list_estimation')

function walk :: "json_node \<Rightarrow> nat \<Rightarrow> string \<Rightarrow> FoldRegion list" where
  "walk n depth text =
     (if n_type n \<noteq> TObject \<and> n_type n \<noteq> TArray then []
      else region_of n depth text @
        concat (map (\<lambda>c. concat (map (\<lambda>nxt. walk nxt (depth + 1) text)
            (if n_type n = TObject then second_child c else [c]))) (n_children n)))"
  by pat_completeness auto

termination
proof (relation "measure (\<lambda>(n, depth, text). size n)", goal_cases)
  case 1
  then show ?case by simp
next
  case (2 n depth t c nxt)
  have "size c < size n" using 2 by (simp add: size_child)
  moreover have "size nxt \<le> size c"
    using 2 size_child [of "n_children c ! 1" c]
    by (auto simp: second_child_def split: if_splits)
  ultimately show ?case by simp
qed

declare walk.simps [simp del]

definition region_order :: "FoldRegion \<Rightarrow> FoldRegion \<Rightarrow> int" where
  "region_order a b =
     (if int (r_start a) - int (r_start b) \<noteq> 0 then int (r_start a) - int (r_start b)
      else int (r_end b) - int (r_end a))"

text \<open>\<open>root_node\<close> is the parser's tree, \<open>None\<close> for an empty file.\<close>

definition jsonFoldRegions :: "json_node option \<Rightarrow> string \<Rightarrow> FoldRegion list" where
  "jsonFoldRegions root_node text =
     sortBy region_order (case root_node of None \<Rightarrow> [] | Some n \<Rightarrow> walk n 0 text)"

definition json_documents :: "string \<Rightarrow> FoldDocument list" where
  "json_documents text = [\<lparr>doc_start = 0, doc_end = length text, doc_index = 0\<rparr>]"

section \<open>Visible rows\<close>

datatype FoldRow =
    LineRow (row_line: nat)
  | FoldedRow (row_line: nat) (row_region: FoldRegion) (prefixEnd: nat) (suffixStart: nat)

definition lastTouchedLine :: "nat list \<Rightarrow> nat \<Rightarrow> nat \<Rightarrow> nat" where
  "lastTouchedLine starts exclusiveEnd minOffset = offsetToLine starts (max minOffset (exclusiveEnd - 1))"

definition header_line :: "nat list \<Rightarrow> FoldRegion \<Rightarrow> nat" where
  "header_line starts r = lastTouchedLine starts (headerEnd r) (r_start r)"

definition end_line :: "nat list \<Rightarrow> FoldRegion \<Rightarrow> nat" where
  "end_line starts r = max (header_line starts r) (lastTouchedLine starts (r_end r) (headerEnd r))"

record fold_state =
  hidden :: "nat \<Rightarrow> bool"
  foldedAt :: "(nat \<times> FoldRow) list"
  hiddenUntil :: int

definition hide :: "nat \<Rightarrow> nat \<Rightarrow> nat \<Rightarrow> fold_state \<Rightarrow> fold_state" where
  "hide n headerLine endLine s =
     s\<lparr>hidden := (\<lambda>l. hidden s l \<or> (headerLine < l \<and> l \<le> endLine \<and> l < n)),
       hiddenUntil := max (hiddenUntil s) (int endLine)\<rparr>"

definition fold_step :: "nat list \<Rightarrow> (nat \<Rightarrow> bool) \<Rightarrow> fold_state \<Rightarrow> FoldRegion \<Rightarrow> fold_state" where
  "fold_step starts collapsed s r =
     (let h = header_line starts r; e = end_line starts r; n = length starts
      in if int h \<le> hiddenUntil s then (if collapsed (r_start r) then hide n h e s else s)
         else if \<not> collapsed (r_start r) then s
         else hide n h e (s\<lparr>foldedAt := omap_set h (FoldedRow h r (headerEnd r) (r_end r)) (foldedAt s)\<rparr>))"

definition fold_start :: fold_state where
  "fold_start = \<lparr>hidden = (\<lambda>_. False), foldedAt = [], hiddenUntil = -1\<rparr>"

definition fold_rows :: "nat \<Rightarrow> fold_state \<Rightarrow> FoldRow list" where
  "fold_rows n s = concat (map (\<lambda>line. case map_of (foldedAt s) line of
       Some row \<Rightarrow> [row]
     | None \<Rightarrow> if \<not> hidden s line then [LineRow line] else []) [0..<n])"

definition visibleFoldRows :: "nat list \<Rightarrow> FoldRegion list \<Rightarrow> (nat \<Rightarrow> bool) \<Rightarrow> FoldRow list" where
  "visibleFoldRows starts regions collapsed =
     fold_rows (length starts) (foldl (fold_step starts collapsed) fold_start (sortBy region_order regions))"

fun advance :: "nat \<Rightarrow> FoldDocument list \<Rightarrow> nat \<Rightarrow> nat" where
  "advance k (d # d' # ds) offset = (if doc_end d \<le> offset then advance (k + 1) (d' # ds) offset else k)"
| "advance k ds offset = k"

definition group_step :: "FoldDocument list \<Rightarrow> nat list \<Rightarrow> nat \<times> FoldRow list list \<Rightarrow> FoldRow \<Rightarrow> nat \<times> FoldRow list list" where
  "group_step documents starts g row =
     (let offset = (if row_line row < length starts then starts ! row_line row else 0);
          k = advance (fst g) (drop (fst g) documents) offset
      in (k, (snd g)[k := (snd g) ! k @ [row]]))"

definition groupRowsByDocument :: "FoldRow list \<Rightarrow> FoldDocument list \<Rightarrow> nat list \<Rightarrow> (FoldDocument \<times> FoldRow list) list" where
  "groupRowsByDocument rows documents starts =
     (if documents = [] then []
      else zip documents (snd (foldl (group_step documents starts) (0, replicate (length documents) []) rows)))"

section \<open>The line of an offset\<close>

lemma line_search_correct:
  assumes "lo \<le> hi" and "hi < length starts" and "starts ! lo \<le> offset"
    and "hi + 1 < length starts \<Longrightarrow> offset < starts ! (hi + 1)"
  shows "let k = line_search starts offset lo hi in k < length starts \<and> starts ! k \<le> offset
    \<and> (k + 1 < length starts \<longrightarrow> offset < starts ! (k + 1))"
  using assms
proof (induction starts offset lo hi rule: line_search.induct)
  case (1 starts offset lo hi)
  let ?mid = "(lo + hi + 1) div 2"
  show ?case
  proof (cases "lo < hi")
    case False
    with 1 show ?thesis by (subst line_search.simps) (simp add: Let_def)
  next
    case True
    then have mid: "lo < ?mid" "?mid \<le> hi" by simp_all
    show ?thesis
    proof (cases "starts ! ?mid \<le> offset")
      case le: True
      from 1(1) [OF True refl le] mid 1 le show ?thesis
        by (subst line_search.simps) (simp add: True Let_def)
    next
      case False
      have "lo \<le> ?mid - 1" "?mid - 1 < length starts" "offset < starts ! (?mid - 1 + 1)"
        using mid 1 False by simp_all
      from 1(2) [OF True refl False this(1,2) 1(5) this(3)] False show ?thesis
        by (subst line_search.simps) (simp add: True Let_def)
    qed
  qed
qed

lemma lineStartOffsets_eq:
  "lineStartOffsets text = 0 # map Suc (filter (\<lambda>i. text ! i = CHR 0x0A) [0..<length text])"
proof -
  have "foldl (\<lambda>starts i. if text ! i = CHR 0x0A then starts @ [i + 1] else starts) a is =
      a @ map Suc (filter (\<lambda>i. text ! i = CHR 0x0A) is)" for a "is"
    by (induction "is" arbitrary: a) auto
  then show ?thesis by (simp add: lineStartOffsets_def)
qed

lemma sorted_starts: "sorted_wrt (<) (lineStartOffsets text)"
  by (simp add: lineStartOffsets_eq sorted_wrt_map sorted_wrt_filter)

lemma starts_ne [simp]: "lineStartOffsets text \<noteq> []" "lineStartOffsets text ! 0 = 0"
  by (simp_all add: lineStartOffsets_eq)

lemma sorted_index_count:
  assumes "sorted_wrt (<) (xs :: nat list)" and "k < length xs" and "xs ! k \<le> x"
    and "k + 1 < length xs \<Longrightarrow> x < xs ! (k + 1)"
  shows "length (filter (\<lambda>y. y \<le> x) xs) = k + 1"
proof -
  have "filter (\<lambda>y. y \<le> x) (take (k + 1) xs) = take (k + 1) xs"
  proof (rule filter_True, rule ballI)
    fix y assume "y \<in> set (take (k + 1) xs)"
    then obtain j where "j \<le> k" "y = xs ! j" by (auto simp: in_set_conv_nth less_Suc_eq_le)
    with assms(1-3) sorted_wrt_nth_less [OF assms(1), of j k] show "y \<le> x" by (cases "j = k") auto
  qed
  moreover have "filter (\<lambda>y. y \<le> x) (drop (k + 1) xs) = []"
  proof (rule filter_False, rule ballI)
    fix y assume "y \<in> set (drop (k + 1) xs)"
    then obtain j where "j < length (drop (k + 1) xs)" "drop (k + 1) xs ! j = y"
      unfolding in_set_conv_nth by blast
    then have j: "k + 1 + j < length xs" "y = xs ! (k + 1 + j)" by simp_all
    then have "xs ! (k + 1) \<le> y" using sorted_wrt_nth_less [OF assms(1), of "k + 1" "k + 1 + j"] by (cases j) auto
    with assms(4) j show "\<not> y \<le> x" by auto
  qed
  ultimately have "filter (\<lambda>y. y \<le> x) xs = take (k + 1) xs"
    by (metis append.right_neutral append_take_drop_id filter_append)
  with assms(2) show ?thesis by simp
qed

lemma length_splitOn: "length (splitOn c s) = Suc (length (filter ((=) c) s))"
  by (induction s) (auto split: list.splits)

lemma filter_upt_take: "length (filter (\<lambda>i. s ! i = c) [0..<length s]) = length (filter ((=) c) s)"
proof -
  have "filter ((=) c) s = map ((!) s) (filter (\<lambda>i. s ! i = c) [0..<length s])"
    by (subst map_nth [symmetric], subst filter_map) (auto simp: comp_def intro!: arg_cong [of _ _ "map _"] filter_cong)
  then show ?thesis by simp
qed

lemma breaks_before:
  "length (filter (\<lambda>y. y \<le> offset) (lineStartOffsets text)) = length (splitOn CHR 0x0A (take offset text))"
proof -
  have "filter (\<lambda>i. Suc i \<le> offset) (filter (\<lambda>i. text ! i = CHR 0x0A) [0..<length text]) =
      filter (\<lambda>i. take offset text ! i = CHR 0x0A) (filter (\<lambda>i. i < offset) [0..<length text])"
    by (auto simp: Suc_le_eq intro!: filter_cong)
  also have "filter (\<lambda>i. i < offset) [0..<length text] = [0..<length (take offset text)]"
  proof -
    have "filter (\<lambda>i. i < offset) [0..<n] = [0..<min n offset]" for n
      by (induction n) (auto simp: min_def not_less_eq_eq le_antisym)
    then show ?thesis by simp
  qed
  finally show ?thesis
    using filter_upt_take [of "take offset text" "CHR 0x0A"]
    by (simp add: lineStartOffsets_eq filter_map comp_def length_splitOn)
qed

text \<open>
  The binary search over the line starts finds the line that the naive count finds: the
  number of pieces of the text before the offset, split at line breaks, less one. It ends and
  stays inside the table for every offset.
\<close>

theorem line_of_offset:
  "offsetToLine (lineStartOffsets text) offset = length (splitOn CHR 0x0A (take offset text)) - 1
   \<and> offsetToLine (lineStartOffsets text) offset < length (lineStartOffsets text)"
proof -
  let ?s = "lineStartOffsets text"
  let ?k = "offsetToLine ?s offset"
  have ne: "?s \<noteq> []" by simp
  then have "length ?s - 1 < length ?s" by (cases ?s) simp_all
  from line_search_correct [OF _ this, of 0 offset] ne
  have k: "?k < length ?s" "?s ! ?k \<le> offset" "?k + 1 < length ?s \<Longrightarrow> offset < ?s ! (?k + 1)"
    by (simp_all add: offsetToLine_def Let_def)
  from sorted_index_count [OF sorted_starts k] k(1) show ?thesis by (simp add: breaks_before)
qed

section \<open>What a fold shows\<close>

text \<open>
  A line is folded away by a collapsed region when it lies below the region's header line, up
  to its end line. A region of the sorted list gets a placeholder when it is collapsed and its
  header line is below the end line of every collapsed region sorted before it.
\<close>

definition folds :: "nat list \<Rightarrow> (nat \<Rightarrow> bool) \<Rightarrow> FoldRegion set \<Rightarrow> nat \<Rightarrow> bool" where
  "folds starts collapsed R l \<longleftrightarrow>
     (\<exists>r\<in>R. collapsed (r_start r) \<and> header_line starts r < l \<and> l \<le> end_line starts r)"

definition placed :: "nat list \<Rightarrow> (nat \<Rightarrow> bool) \<Rightarrow> FoldRegion list \<Rightarrow> nat \<Rightarrow> bool" where
  "placed starts collapsed rs i \<longleftrightarrow> i < length rs \<and> collapsed (r_start (rs ! i))
     \<and> (\<forall>j<i. collapsed (r_start (rs ! j)) \<longrightarrow> end_line starts (rs ! j) < header_line starts (rs ! i))"

definition placeholder :: "nat list \<Rightarrow> FoldRegion \<Rightarrow> FoldRow" where
  "placeholder starts r = FoldedRow (header_line starts r) r (headerEnd r) (r_end r)"

definition fold_inv :: "nat list \<Rightarrow> (nat \<Rightarrow> bool) \<Rightarrow> FoldRegion list \<Rightarrow> fold_state \<Rightarrow> bool" where
  "fold_inv starts collapsed rs s \<longleftrightarrow>
     (\<forall>l. hidden s l \<longleftrightarrow> l < length starts \<and> folds starts collapsed (set rs) l)
     \<and> (\<forall>h::nat. int h \<le> hiddenUntil s \<longleftrightarrow> (\<exists>r\<in>set rs. collapsed (r_start r) \<and> h \<le> end_line starts r))
     \<and> (\<forall>k row. map_of (foldedAt s) k = Some row \<longleftrightarrow>
          (\<exists>i. placed starts collapsed rs i \<and> k = header_line starts (rs ! i) \<and> row = placeholder starts (rs ! i)))"

lemma header_le_end: "header_line starts r \<le> end_line starts r"
  by (simp add: end_line_def)

lemma placed_snoc:
  "placed starts collapsed (rs @ [r]) i \<longleftrightarrow>
     placed starts collapsed rs i
     \<or> (i = length rs \<and> collapsed (r_start r)
        \<and> (\<forall>q\<in>set rs. collapsed (r_start q) \<longrightarrow> end_line starts q < header_line starts r))"
  by (auto simp: placed_def nth_append all_set_conv_all_nth less_Suc_eq)

lemma fold_inv_step:
  assumes "fold_inv starts collapsed rs s"
  shows "fold_inv starts collapsed (rs @ [r]) (fold_step starts collapsed s r)"
proof -
  let ?h = "header_line starts r" and ?e = "end_line starts r" and ?s' = "fold_step starts collapsed s r"
  from assms have hid: "\<And>l. hidden s l \<longleftrightarrow> l < length starts \<and> folds starts collapsed (set rs) l"
    and until: "\<And>h::nat. int h \<le> hiddenUntil s \<longleftrightarrow> (\<exists>r\<in>set rs. collapsed (r_start r) \<and> h \<le> end_line starts r)"
    and ph: "\<And>k row. map_of (foldedAt s) k = Some row \<longleftrightarrow>
          (\<exists>i. placed starts collapsed rs i \<and> k = header_line starts (rs ! i) \<and> row = placeholder starts (rs ! i))"
    unfolding fold_inv_def by blast+
  have fresh: "(\<forall>q\<in>set rs. collapsed (r_start q) \<longrightarrow> end_line starts q < ?h) \<longleftrightarrow> \<not> int ?h \<le> hiddenUntil s"
    by (auto simp: until not_le)
  have nth: "(rs @ [r]) ! i = rs ! i" if "placed starts collapsed rs i" for i
    using that by (simp add: placed_def nth_append)
  have "hidden ?s' l \<longleftrightarrow> l < length starts \<and> folds starts collapsed (set (rs @ [r])) l" for l
    by (auto simp: fold_step_def hide_def Let_def hid folds_def)
  moreover have "int h \<le> hiddenUntil ?s' \<longleftrightarrow> (\<exists>q\<in>set (rs @ [r]). collapsed (r_start q) \<and> h \<le> end_line starts q)"
    for h :: nat
    by (auto simp: fold_step_def hide_def Let_def le_max_iff_disj until)
  moreover have "map_of (foldedAt ?s') k = Some row \<longleftrightarrow>
      (\<exists>i. placed starts collapsed (rs @ [r]) i \<and> k = header_line starts ((rs @ [r]) ! i)
         \<and> row = placeholder starts ((rs @ [r]) ! i))" for k row
  proof (cases "collapsed (r_start r) \<and> \<not> int ?h \<le> hiddenUntil s")
    case False
    then have "foldedAt ?s' = foldedAt s" by (auto simp: fold_step_def hide_def Let_def)
    moreover have "placed starts collapsed (rs @ [r]) i \<longleftrightarrow> placed starts collapsed rs i" for i
      using False fresh by (auto simp: placed_snoc)
    ultimately show ?thesis using nth by (auto simp: ph)
  next
    case True
    then have "map_of (foldedAt ?s') = (map_of (foldedAt s))(?h \<mapsto> placeholder starts r)"
      by (simp add: fold_step_def hide_def Let_def omap_get_set placeholder_def)
    note new = this
    have "placed starts collapsed (rs @ [r]) i \<longleftrightarrow> placed starts collapsed rs i \<or> i = length rs" for i
      using True fresh by (auto simp: placed_snoc)
    then have split: "(\<exists>i. placed starts collapsed (rs @ [r]) i \<and> k = header_line starts ((rs @ [r]) ! i)
         \<and> row = placeholder starts ((rs @ [r]) ! i))
       \<longleftrightarrow> map_of (foldedAt s) k = Some row \<or> (k = ?h \<and> row = placeholder starts r)"
      using nth unfolding ph by (simp add: conj_disj_distribR ex_disj_distrib cong: conj_cong)
    have "header_line starts (rs ! i) \<noteq> ?h" if "placed starts collapsed rs i" for i
    proof
      assume "header_line starts (rs ! i) = ?h"
      then have "?h \<le> end_line starts (rs ! i)" using header_le_end [of starts "rs ! i"] by simp
      with that True fresh show False by (auto simp: placed_def dest: nth_mem)
    qed
    then have "map_of (foldedAt s) ?h \<noteq> Some row" unfolding ph by metis
    then show ?thesis unfolding split new by auto
  qed
  ultimately show ?thesis unfolding fold_inv_def by blast
qed

lemma fold_final: "fold_inv starts collapsed rs (foldl (fold_step starts collapsed) fold_start rs)"
proof (induction rs rule: rev_induct)
  case Nil
  show ?case by (simp add: fold_inv_def fold_start_def folds_def placed_def)
next
  case (snoc r rs)
  from fold_inv_step [OF snoc] show ?case by simp
qed

lemma fold_rows_lines: "fold_inv starts collapsed rs s \<Longrightarrow> map row_line (fold_rows n s) =
    filter (\<lambda>l. map_of (foldedAt s) l \<noteq> None \<or> \<not> hidden s l) [0..<n]"
proof (induction n)
  case 0
  then show ?case by (simp add: fold_rows_def)
next
  case (Suc n)
  have "row_line row = n" if "map_of (foldedAt s) n = Some row" for row
    using that Suc.prems by (auto simp: fold_inv_def placeholder_def)
  with Suc show ?case by (auto simp: fold_rows_def split: option.splits)
qed

text \<open>
  C27. What a fold shows, exactly, for any regions, nested or not. The rows stand in strictly
  ascending line order, so no line has two. They are: a placeholder, on the region's header
  line and cutting its text at the region's header end and end, for every collapsed region
  whose header line is below the end line of every collapsed region sorted before it (by
  start, then the longer first); and a plain row for every line of the file that has no
  placeholder and is not folded away, that is, lies in no collapsed region from the line below
  its header line to its end line. So a line vanishes only inside a collapsed region, but a
  collapsed region whose header line is the last line of an earlier collapsed one has no
  placeholder (\<open>abutting_region_vanishes\<close>).
\<close>

theorem fold_rows_complete:
  "let rows = visibleFoldRows starts regions collapsed; rs = sortBy region_order regions in
     sorted_wrt (<) (map row_line rows)
     \<and> set rows =
         {placeholder starts (rs ! i) | i. placed starts collapsed rs i \<and> header_line starts (rs ! i) < length starts}
         \<union> {LineRow l | l. l < length starts \<and> \<not> folds starts collapsed (set regions) l
              \<and> (\<nexists>i. placed starts collapsed rs i \<and> header_line starts (rs ! i) = l)}"
proof -
  let ?rs = "sortBy region_order regions"
  let ?s = "foldl (fold_step starts collapsed) fold_start ?rs"
  have rows: "visibleFoldRows starts regions collapsed = fold_rows (length starts) ?s"
    by (simp add: visibleFoldRows_def)
  note inv = fold_final [of starts collapsed ?rs]
  have ph: "map_of (foldedAt ?s) k = Some row \<longleftrightarrow> (\<exists>i. placed starts collapsed ?rs i
      \<and> k = header_line starts (?rs ! i) \<and> row = placeholder starts (?rs ! i))" for k row
    using inv unfolding fold_inv_def by blast
  have hid: "hidden ?s l \<longleftrightarrow> l < length starts \<and> folds starts collapsed (set regions) l" for l
    using inv unfolding fold_inv_def by auto
  have none: "map_of (foldedAt ?s) k = None \<longleftrightarrow> \<not> (\<exists>i. placed starts collapsed ?rs i \<and> header_line starts (?rs ! i) = k)" for k
    using ph [of k] by (metis not_None_eq option.distinct(1))
  have "set (fold_rows (length starts) ?s) =
      {row. \<exists>k<length starts. map_of (foldedAt ?s) k = Some row}
      \<union> {LineRow l | l. l < length starts \<and> map_of (foldedAt ?s) l = None \<and> \<not> hidden ?s l}"
    by (auto simp: fold_rows_def split: option.splits if_splits)
  also have "\<dots> = {placeholder starts (?rs ! i) | i. placed starts collapsed ?rs i \<and> header_line starts (?rs ! i) < length starts}
         \<union> {LineRow l | l. l < length starts \<and> \<not> folds starts collapsed (set regions) l
              \<and> (\<nexists>i. placed starts collapsed ?rs i \<and> header_line starts (?rs ! i) = l)}"
    unfolding ph none hid by blast
  finally have set_rows: "set (fold_rows (length starts) ?s) = \<dots>" .
  show ?thesis
    unfolding Let_def rows set_rows fold_rows_lines [OF inv] by (simp add: sorted_wrt_filter)
qed

definition flat_region :: "nat \<Rightarrow> nat \<Rightarrow> nat \<Rightarrow> FoldRegion" where
  "flat_region s h e = \<lparr>r_start = s, r_end = e, headerEnd = h, r_kind = RObject, itemCount = 0, r_depth = 0\<rparr>"

text \<open>
  Four lines of three characters; the first region covers lines 0 to 1, the second, which
  starts on line 1, covers lines 1 to 3. With both collapsed lines 2 and 3 have no placeholder.
\<close>

lemma abutting_region_vanishes:
  "visibleFoldRows [0, 3, 6, 9] [flat_region 0 1 4, flat_region 5 6 10] (\<lambda>x. x = 0 \<or> x = 5) =
     [FoldedRow 0 (flat_region 0 1 4) 1 4]"
  by code_simp

section \<open>Rows by document\<close>

lemma advance_range: "k + length ds = n \<Longrightarrow> ds \<noteq> [] \<Longrightarrow> k \<le> advance k ds offset \<and> advance k ds offset < n"
  by (induction k ds offset rule: advance.induct) (auto simp: Suc_le_eq)

lemma concat_append_at:
  "k < length gs \<Longrightarrow> \<forall>j. k < j \<longrightarrow> j < length gs \<longrightarrow> gs ! j = [] \<Longrightarrow>
     concat (gs[k := gs ! k @ [x]]) = concat gs @ [x]"
proof (induction gs arbitrary: k)
  case Nil
  then show ?case by simp
next
  case (Cons g gs)
  show ?case
  proof (cases k)
    case 0
    have "gs ! i = []" if "i < length gs" for i
      using spec [OF Cons.prems(2), of "Suc i"] 0 that by simp
    then have "concat gs = []" by (metis concat_eq_Nil_conv in_set_conv_nth)
    with 0 show ?thesis by (simp del: concat_eq_Nil_conv)
  next
    case (Suc j)
    with Cons.prems have "j < length gs" "\<forall>i. j < i \<longrightarrow> i < length gs \<longrightarrow> gs ! i = []" by auto
    from Cons.IH [OF this] Suc show ?thesis by simp
  qed
qed

lemma group_rows_concat:
  assumes "fst g < length documents" and "length (snd g) = length documents"
    and "\<forall>j. fst g < j \<longrightarrow> j < length documents \<longrightarrow> snd g ! j = []"
  shows "concat (snd (foldl (group_step documents starts) g rows)) = concat (snd g) @ rows
    \<and> length (snd (foldl (group_step documents starts) g rows)) = length documents"
  using assms
proof (induction rows arbitrary: g)
  case Nil
  then show ?case by simp
next
  case (Cons row rows)
  let ?g = "group_step documents starts g row"
  let ?k = "fst ?g"
  have k: "fst g \<le> ?k" "?k < length documents"
    using advance_range [of "fst g" "drop (fst g) documents" "length documents"] Cons.prems(1)
    by (simp_all add: group_step_def Let_def)
  have s: "snd ?g = (snd g)[?k := snd g ! ?k @ [row]]" by (simp add: group_step_def Let_def)
  have c: "concat (snd ?g) = concat (snd g) @ [row]"
    unfolding s using k Cons.prems by (intro concat_append_at) auto
  have "\<forall>j. ?k < j \<longrightarrow> j < length documents \<longrightarrow> snd ?g ! j = []"
    unfolding s using k Cons.prems by auto
  moreover have "length (snd ?g) = length documents" unfolding s using Cons.prems by simp
  ultimately have "concat (snd (foldl (group_step documents starts) ?g rows)) = concat (snd ?g) @ rows
    \<and> length (snd (foldl (group_step documents starts) ?g rows)) = length documents"
    using Cons.IH [of ?g] k by simp
  with c show ?case by simp
qed

text \<open>Grouping by document keeps every row, in order.\<close>

lemma groups_keep_rows:
  assumes "documents \<noteq> []"
  shows "concat (map snd (groupRowsByDocument rows documents starts)) = rows"
  using assms group_rows_concat [of "(0, replicate (length documents) [])" documents starts rows]
  by (simp add: groupRowsByDocument_def)

section \<open>The regions of a JSON tree\<close>

text \<open>What jsonc-parser promises of offsets: children lie inside their parent, one after the other.\<close>

definition n_end :: "json_node \<Rightarrow> nat" where
  "n_end n = n_offset n + n_length n"

function well_placed :: "json_node \<Rightarrow> bool" where
  "well_placed n \<longleftrightarrow> sorted_wrt (\<lambda>a b. n_end a \<le> n_offset b) (n_children n)
     \<and> (\<forall>c\<in>set (n_children n). n_offset n \<le> n_offset c \<and> n_end c \<le> n_end n
          \<and> (n_type n = TObject \<or> n_type n = TArray \<longrightarrow> n_offset n < n_offset c) \<and> well_placed c)"
  by pat_completeness auto

termination
  by (relation "measure size") (auto simp: size_child)

declare well_placed.simps [simp del]

definition nested :: "FoldRegion \<Rightarrow> FoldRegion \<Rightarrow> bool" where
  "nested a b \<longleftrightarrow> r_start a < r_start b \<and> r_end b \<le> r_end a"

definition apart :: "FoldRegion \<Rightarrow> FoldRegion \<Rightarrow> bool" where
  "apart a b \<longleftrightarrow> r_end a \<le> r_start b"

text \<open>The walk lists outer regions before inner ones and earlier ones before later ones.\<close>

definition laminar :: "FoldRegion list \<Rightarrow> bool" where
  "laminar rs \<longleftrightarrow> sorted_wrt (\<lambda>a b. nested a b \<or> apart a b) rs"

definition within :: "nat \<Rightarrow> nat \<Rightarrow> FoldRegion \<Rightarrow> bool" where
  "within a b r \<longleftrightarrow> a \<le> r_start r \<and> r_start r < r_end r \<and> r_end r \<le> b \<and> headerEnd r = r_start r + 1"

lemma region_of_within: "\<forall>r\<in>set (region_of n depth text). within (n_offset n) (n_end n) r \<and> r_start r = n_offset n
    \<and> r_end r = n_end n"
proof -
  have "a < b" if "slice_has_break text a b" for a b
    using that by (cases "a < b") (auto simp: slice_has_break_def)
  from this [of "n_offset n" "n_offset n + n_length n"] show ?thesis
    by (auto simp: region_of_def within_def n_end_def Let_def)
qed

lemma laminar_append: "laminar (xs @ ys) \<longleftrightarrow> laminar xs \<and> laminar ys
    \<and> (\<forall>x\<in>set xs. \<forall>y\<in>set ys. nested x y \<or> apart x y)"
  by (auto simp: laminar_def sorted_wrt_append)

lemma laminar_concat:
  "(\<And>x. x \<in> set xs \<Longrightarrow> laminar (f x)) \<Longrightarrow> sorted_wrt (\<lambda>a b. \<forall>x\<in>set (f a). \<forall>y\<in>set (f b). apart x y) xs \<Longrightarrow>
     laminar (concat (map f xs))"
  by (induction xs) (auto simp: laminar_append, simp add: laminar_def)

definition walk_ok :: "json_node \<Rightarrow> FoldRegion list \<Rightarrow> bool" where
  "walk_ok n rs \<longleftrightarrow> laminar rs \<and> (\<forall>r\<in>set rs. within (n_offset n) (n_end n) r)"

lemma within_mono: "within a b r \<Longrightarrow> a' \<le> a \<Longrightarrow> b \<le> b' \<Longrightarrow> within a' b' r"
  by (simp add: within_def)

lemma within_apart: "within a b x \<Longrightarrow> within c d y \<Longrightarrow> b \<le> c \<Longrightarrow> apart x y"
  by (simp add: within_def apart_def)

lemma walk_ok_apart:
  "walk_ok a xs \<Longrightarrow> walk_ok b ys \<Longrightarrow> n_end a \<le> n_offset b \<Longrightarrow> \<forall>x\<in>set xs. \<forall>y\<in>set ys. apart x y"
  by (simp add: walk_ok_def) (blast intro: within_apart)

lemma walk_ok_child:
  assumes "well_placed n" and "c \<in> set (n_children n)"
    and "\<And>m. m \<in> set (if n_type n = TObject then second_child c else [c]) \<Longrightarrow> walk_ok m (f m)"
  shows "walk_ok c (concat (map f (if n_type n = TObject then second_child c else [c])))"
proof (cases "n_type n = TObject \<and> 1 < length (n_children c)")
  case False
  with assms(3) show ?thesis by (auto simp: second_child_def walk_ok_def laminar_def)
next
  case True
  let ?m = "n_children c ! 1"
  have m: "?m \<in> set (n_children c)" using True by simp
  have wc: "well_placed c" using assms(1,2) well_placed.simps [of n] by blast
  have b: "n_offset c \<le> n_offset ?m" "n_end ?m \<le> n_end c" using wc m well_placed.simps [of c] by blast+
  have "walk_ok ?m (f ?m)" using assms(3) [of ?m] True by (simp add: second_child_def)
  then show ?thesis using True b within_mono by (auto simp: second_child_def walk_ok_def)
qed

lemma in_concat_map: "r \<in> set (concat (map f xs)) \<longleftrightarrow> (\<exists>x\<in>set xs. r \<in> set (f x))"
  by auto

lemma walk_laminar: "well_placed n \<Longrightarrow> walk_ok n (walk n depth tx)"
proof (induction n depth tx rule: walk.induct)
  case (1 n depth tx)
  let ?cs = "\<lambda>c. if n_type n = TObject then second_child c else [c]"
  let ?f = "\<lambda>c. concat (map (\<lambda>nxt. walk nxt (depth + 1) tx) (?cs c))"
  show ?case
  proof (cases "n_type n \<noteq> TObject \<and> n_type n \<noteq> TArray")
    case True
    then show ?thesis by (subst walk.simps) (simp add: walk_ok_def laminar_def)
  next
    case False
    have place: "well_placed c" "n_offset n < n_offset c" "n_end c \<le> n_end n" if "c \<in> set (n_children n)" for c
      using 1(2) that False well_placed.simps [of n] by blast+
    have sub: "well_placed m" if c: "c \<in> set (n_children n)" and m: "m \<in> set (?cs c)" for c m
    proof -
      have "m = c \<or> m \<in> set (n_children c)" using m by (auto simp: second_child_def split: if_splits)
      with place(1) [OF c] show ?thesis using well_placed.simps [of c] by blast
    qed
    have ok: "walk_ok c (?f c)" if "c \<in> set (n_children n)" for c
      using 1(2) that 1(1) [OF False that] sub [OF that] by (intro walk_ok_child) auto
    have ord: "sorted_wrt (\<lambda>a b. n_end a \<le> n_offset b) (n_children n)"
      using 1(2) well_placed.simps [of n] by blast
    have "sorted_wrt (\<lambda>a b. \<forall>x\<in>set (?f a). \<forall>y\<in>set (?f b). apart x y) (n_children n)"
    proof (rule sorted_wrt_mono_rel [OF _ ord])
      fix a b assume "a \<in> set (n_children n)" "b \<in> set (n_children n)" "n_end a \<le> n_offset b"
      from walk_ok_apart [OF ok ok this(3)] this(1,2)
      show "\<forall>x\<in>set (?f a). \<forall>y\<in>set (?f b). apart x y" by blast
    qed
    then have lam: "laminar (concat (map ?f (n_children n)))"
      by (intro laminar_concat [of "n_children n" ?f]) (use ok walk_ok_def in blast)
    have inner: "n_offset n < r_start r \<and> r_end r \<le> n_end n \<and> within (n_offset n) (n_end n) r"
      if r: "r \<in> set (concat (map ?f (n_children n)))" for r
    proof -
      obtain c where c: "c \<in> set (n_children n)" "r \<in> set (?f c)"
        using r [unfolded in_concat_map [of r ?f "n_children n"]] by blast
      then have "within (n_offset c) (n_end c) r" using ok [OF c(1)] unfolding walk_ok_def by blast
      with place [OF c(1)] show ?thesis by (auto simp: within_def)
    qed
    have own: "laminar (region_of n depth tx)" by (simp add: region_of_def laminar_def Let_def)
    have "walk n depth tx = region_of n depth tx @ concat (map ?f (n_children n))"
      by (subst walk.simps) (rule if_not_P [OF False])
    moreover have "laminar (region_of n depth tx @ concat (map ?f (n_children n)))"
      unfolding laminar_append using own lam inner region_of_within [of n depth tx]
      by (auto simp: nested_def simp del: set_concat)
    ultimately show ?thesis
      using inner region_of_within [of n depth tx] by (auto simp: walk_ok_def simp del: set_concat)
  qed
qed

definition well_formed_region :: "nat \<Rightarrow> FoldRegion \<Rightarrow> bool" where
  "well_formed_region len r \<longleftrightarrow>
     r_start r < headerEnd r \<and> headerEnd r \<le> r_end r \<and> r_end r \<le> len \<and> r_kind r \<in> {RObject, RArray}"

definition nesting :: "FoldRegion \<Rightarrow> FoldRegion \<Rightarrow> bool" where
  "nesting a b \<longleftrightarrow> nested a b \<or> nested b a \<or> apart a b \<or> apart b a"

lemma walk_kinds: "r \<in> set (walk n depth tx) \<Longrightarrow> r_kind r = RObject \<or> r_kind r = RArray"
proof (induction n depth tx rule: walk.induct)
  case (1 n depth tx)
  show ?case
  proof (cases "n_type n \<noteq> TObject \<and> n_type n \<noteq> TArray")
    case True
    with 1(2) show ?thesis by (subst (asm) walk.simps) simp
  next
    case False
    have "r \<in> set (region_of n depth tx) \<or> (\<exists>c\<in>set (n_children n).
        \<exists>m\<in>set (if n_type n = TObject then second_child c else [c]). r \<in> set (walk m (depth + 1) tx))"
      using 1(2) False by (subst (asm) walk.simps) auto
    then show ?thesis
    proof
      assume "r \<in> set (region_of n depth tx)"
      then show ?thesis by (auto simp: region_of_def Let_def split: if_splits)
    next
      assume "\<exists>c\<in>set (n_children n).
        \<exists>m\<in>set (if n_type n = TObject then second_child c else [c]). r \<in> set (walk m (depth + 1) tx)"
      with 1(1) [OF False] show ?thesis by blast
    qed
  qed
qed

text \<open>A list that the walk already emits outer first, earlier first, is left as it is by the sort.\<close>

lemma laminar_sorted: "laminar rs \<Longrightarrow> \<forall>r\<in>set rs. r_start r < r_end r \<Longrightarrow> sorted_wrt (\<lambda>a b. region_order a b \<le> 0) rs"
  unfolding laminar_def
  by (erule sorted_wrt_mono_rel [rotated]) (auto simp: nested_def apart_def region_order_def)

text \<open>
  C28. The fold model of a JSON file: whatever the placement-respecting tree, each region is a
  non-empty span of the text with its header inside, every two regions are nested or apart, the
  order is outer before inner and earlier before later, and sorting keeps the order of the walk.
\<close>

theorem json_regions_nest:
  assumes "well_placed n" and "n_end n \<le> length tx"
  shows "let rs = jsonFoldRegions (Some n) tx in
     list_all (well_formed_region (length tx)) rs \<and> sorted_wrt nesting rs \<and> weakly_sorted region_order rs
     \<and> distinct (map r_start rs) \<and> rs = walk n 0 tx \<and> jsonFoldRegions None tx = []"
proof -
  let ?rs = "walk n 0 tx"
  have ok: "laminar ?rs" "\<And>r. r \<in> set ?rs \<Longrightarrow> within (n_offset n) (n_end n) r"
    using walk_laminar [OF assms(1), of 0 tx] by (simp_all add: walk_ok_def)
  have pos: "\<forall>r\<in>set ?rs. r_start r < r_end r" using ok(2) by (simp add: within_def)
  have srt: "sorted_wrt (\<lambda>a b. region_order a b \<le> 0) ?rs" by (rule laminar_sorted [OF ok(1) pos])
  then have eq: "jsonFoldRegions (Some n) tx = ?rs" by (simp add: jsonFoldRegions_def sortBy_sorted)
  have wf: "list_all (well_formed_region (length tx)) ?rs"
    unfolding list_all_iff
  proof
    fix r assume r: "r \<in> set ?rs"
    from ok(2) [OF r] walk_kinds [OF r] assms(2) show "well_formed_region (length tx) r"
      by (auto simp: well_formed_region_def within_def)
  qed
  have nest: "sorted_wrt nesting ?rs"
    using ok(1) unfolding laminar_def by (rule sorted_wrt_mono_rel [rotated]) (auto simp: nesting_def)
  have "sorted_wrt (\<lambda>a b. r_start a < r_start b) ?rs"
    using ok(1) pos unfolding laminar_def
    by (elim sorted_wrt_mono_rel [rotated]) (auto simp: nested_def apart_def)
  then have "sorted_wrt (<) (map r_start ?rs)" by (simp add: sorted_wrt_map)
  then have "distinct (map r_start ?rs)" by (simp add: strict_sorted_iff)
  with eq wf nest srt show ?thesis by (simp add: weakly_sorted_def jsonFoldRegions_def sortBy_def)
qed

text \<open>The text is an opening bracket, a line break, an object over two lines, and a closing bracket.\<close>

definition sample_node :: json_node where
  "sample_node = Node TArray 0 6 [Node TObject 2 3 []]"

theorem json_regions_nest_witness:
  "(let rs = jsonFoldRegions (Some sample_node) ''[\<newline>{\<newline>}]'' in map r_start rs = [0, 2] \<and> sorted_wrt nesting rs)"
proof -
  have w: "well_placed sample_node" by code_simp
  have e: "map r_start (jsonFoldRegions (Some sample_node) ''[\<newline>{\<newline>}]'') = [0, 2]" by code_simp
  have "n_end sample_node \<le> length ''[\<newline>{\<newline>}]''" by code_simp
  from json_regions_nest [OF w this] e show ?thesis unfolding Let_def by blast
qed

end
