(* ===== verification/Patch.thy ===== *)
theory Patch
  imports Prelude "HOL-Library.Monad_Syntax"
begin

text \<open>
  The unified diffs of the content viewer: \<open>content/parsePatch.ts\<close> and the line and block
  projections of \<open>content/hunkMap.ts\<close>.

  \<open>parsePatch\<close> is a fold over the lines of the text; its state is the state of the code's local
  variables, where \<open>current\<close> is the last hunk of the list. Numbers are natural numbers.
\<close>

section \<open>Patches\<close>

datatype line_kind = Context | Add | Del | Meta

record PatchLine =
  l_kind :: line_kind
  l_text :: string
  oldLine :: "nat option"
  newLine :: "nat option"

record PatchHunk =
  header :: string
  oldStart :: nat
  oldCount :: nat
  newStart :: nat
  newCount :: nat
  hunk_lines :: "PatchLine list"

record ParsedPatch =
  file_from :: "string option"
  file_to :: "string option"
  hunks :: "PatchHunk list"
  p_meta :: "string list"
  binary :: bool

record parse_state = ParsedPatch +
  oldNum :: nat
  newNum :: nat

section \<open>The patterns\<close>

definition expect :: "string \<Rightarrow> string \<Rightarrow> string option" where
  "expect p s = (if startsWith s p then Some (drop (length p) s) else None)"

definition read_digits :: "string \<Rightarrow> (nat \<times> string) option" where
  "read_digits s = (case takeWhile is_digit s of [] \<Rightarrow> None | d \<Rightarrow> Some (readNat d, dropWhile is_digit s))"

text \<open>\<open>(?:,(\d+))?\<close>, with the default of the code for a missing count.\<close>

definition read_count :: "string \<Rightarrow> nat \<times> string" where
  "read_count s = (case s of
       c # r \<Rightarrow> (if c = CHR '','' then (case read_digits r of Some (n, r') \<Rightarrow> (n, r') | None \<Rightarrow> (1, s)) else (1, s))
     | [] \<Rightarrow> (1, s))"

definition line_terminator :: "char \<Rightarrow> bool" where
  "line_terminator c \<longleftrightarrow> c = CHR 0x0A \<or> c = CHR 0x0D"

definition HUNK_RE :: "string \<Rightarrow> PatchHunk option" where
  "HUNK_RE raw = do {
     s \<leftarrow> expect ''@@ -'' raw;
     (oldS, s) \<leftarrow> read_digits s;
     let (oldC, s) = read_count s;
     s \<leftarrow> expect '' +'' s;
     (newS, s) \<leftarrow> read_digits s;
     let (newC, s) = read_count s;
     s \<leftarrow> expect '' @@'' s;
     if list_ex line_terminator s then None
     else Some \<lparr>header = raw, oldStart = oldS, oldCount = oldC, newStart = newS, newCount = newC, hunk_lines = []\<rparr> }"

definition BINARY_DIFFER_RE :: "string \<Rightarrow> bool" where
  "BINARY_DIFFER_RE raw \<longleftrightarrow> startsWith raw ''Binary files '' \<and> endsWith raw '' differ''
     \<and> length ''Binary files '' + length '' differ'' \<le> length raw \<and> \<not> list_ex line_terminator raw"

section \<open>Parsing\<close>

definition file_name :: "string \<Rightarrow> string \<Rightarrow> string option" where
  "file_name side raw =
     (let s = drop 4 raw; n = trim (if startsWith s side then drop (length side) s else s)
      in if n = [] then None else Some n)"

definition push_line :: "PatchLine \<Rightarrow> PatchHunk list \<Rightarrow> PatchHunk list" where
  "push_line l hs = butlast hs @ [(last hs)\<lparr>hunk_lines := hunk_lines (last hs) @ [l]\<rparr>]"

definition is_git_header :: "string \<Rightarrow> bool" where
  "is_git_header raw \<longleftrightarrow> startsWith raw ''diff '' \<or> startsWith raw ''index '' \<or> startsWith raw ''new file''
     \<or> startsWith raw ''deleted file'' \<or> startsWith raw ''similarity index'' \<or> startsWith raw ''rename ''"

definition body_line :: "parse_state \<Rightarrow> string \<Rightarrow> parse_state" where
  "body_line s raw =
     (if startsWith raw [CHR 0x5C, CHR '' ''] then
        s\<lparr>hunks := push_line \<lparr>l_kind = Meta, l_text = raw, oldLine = None, newLine = None\<rparr> (hunks s)\<rparr>
      else if startsWith raw ''+'' then
        s\<lparr>hunks := push_line \<lparr>l_kind = Add, l_text = drop 1 raw, oldLine = None, newLine = Some (newNum s)\<rparr> (hunks s),
          newNum := newNum s + 1\<rparr>
      else if startsWith raw ''-'' then
        s\<lparr>hunks := push_line \<lparr>l_kind = Del, l_text = drop 1 raw, oldLine = Some (oldNum s), newLine = None\<rparr> (hunks s),
          oldNum := oldNum s + 1\<rparr>
      else if startsWith raw '' '' then
        s\<lparr>hunks := push_line \<lparr>l_kind = Context, l_text = drop 1 raw, oldLine = Some (oldNum s),
            newLine = Some (newNum s)\<rparr> (hunks s),
          oldNum := oldNum s + 1, newNum := newNum s + 1\<rparr>
      else s)"

definition patch_line :: "parse_state \<Rightarrow> string \<Rightarrow> parse_state" where
  "patch_line s raw =
     (if startsWith raw ''--- '' then s\<lparr>file_from := file_name ''a/'' raw, p_meta := p_meta s @ [raw]\<rparr>
      else if startsWith raw ''+++ '' then s\<lparr>file_to := file_name ''b/'' raw, p_meta := p_meta s @ [raw]\<rparr>
      else if is_git_header raw then s\<lparr>p_meta := p_meta s @ [raw]\<rparr>
      else if BINARY_DIFFER_RE raw then s\<lparr>p_meta := p_meta s @ [raw], binary := True\<rparr>
      else (case HUNK_RE raw of
          Some h \<Rightarrow> s\<lparr>hunks := hunks s @ [h], oldNum := oldStart h, newNum := newStart h\<rparr>
        | None \<Rightarrow> if hunks s = [] then s else body_line s raw))"

definition parse_start :: parse_state where
  "parse_start = \<lparr>file_from = None, file_to = None, hunks = [], p_meta = [], binary = False, oldNum = 0, newNum = 0\<rparr>"

definition parsePatch :: "string \<Rightarrow> ParsedPatch" where
  "parsePatch patch = ParsedPatch.truncate (foldl patch_line parse_start (splitOn CHR 0x0A patch))"

definition hunkId :: "PatchHunk \<Rightarrow> string" where
  "hunkId h = showNat (oldStart h) @ '':'' @ showNat (oldCount h) @ ''->'' @ showNat (newStart h) @ '':'' @ showNat (newCount h)"

section \<open>Lines and blocks\<close>

definition context_step :: "nat \<Rightarrow> (nat \<times> nat) option \<Rightarrow> PatchLine \<Rightarrow> (nat \<times> nat) option" where
  "context_step at best ln =
     (case (l_kind ln, oldLine ln, newLine ln) of
        (Context, Some old, Some new) \<Rightarrow>
          (case best of
             None \<Rightarrow> Some (old, new)
           | Some (bestOld, bestNew) \<Rightarrow>
               if \<bar>int old - int at\<bar> < \<bar>int bestOld - int at\<bar> then Some (old, new) else best)
      | _ \<Rightarrow> best)"

definition nearestNewContext :: "PatchHunk \<Rightarrow> nat \<Rightarrow> nat option" where
  "nearestNewContext h at = map_option snd (foldl (context_step at) None (hunk_lines h))"

definition changed_line :: "PatchHunk \<Rightarrow> nat list \<Rightarrow> PatchLine \<Rightarrow> nat list" where
  "changed_line h found ln =
     (if l_kind ln = Add \<and> newLine ln \<noteq> None then oset_add (the (newLine ln)) found
      else if l_kind ln = Del then
        (case nearestNewContext h (case oldLine ln of None \<Rightarrow> 0 | Some n \<Rightarrow> n) of
           Some ctx \<Rightarrow> oset_add ctx found
         | None \<Rightarrow> found)
      else found)"

definition addHunkLines :: "nat list \<Rightarrow> PatchHunk \<Rightarrow> nat list" where
  "addHunkLines found h = foldl (changed_line h) found (hunk_lines h)"

definition changedLinesFromPatch :: "ParsedPatch \<Rightarrow> nat list" where
  "changedLinesFromPatch patch = foldl addHunkLines [] (hunks patch)"

definition range_step :: "(nat \<times> nat) option \<Rightarrow> PatchLine \<Rightarrow> (nat \<times> nat) option" where
  "range_step r ln =
     (case newLine ln of
        None \<Rightarrow> r
      | Some n \<Rightarrow> Some (case r of None \<Rightarrow> n | Some (s, _) \<Rightarrow> s, n))"

definition newLineRange :: "PatchHunk \<Rightarrow> (nat \<times> nat) option" where
  "newLineRange h = foldl range_step None (hunk_lines h)"

record block =
  block_id :: string
  startLine :: nat
  endLine :: nat

definition block_of :: "block list \<Rightarrow> PatchHunk \<Rightarrow> block option" where
  "block_of blocks h =
     (case newLineRange h of
        None \<Rightarrow> None
      | Some (s, e) \<Rightarrow> find (\<lambda>b. startLine b \<le> e \<and> s \<le> endLine b) blocks)"

definition map_hunk :: "block list \<Rightarrow> (string \<times> PatchHunk list) list \<Rightarrow> PatchHunk \<Rightarrow> (string \<times> PatchHunk list) list" where
  "map_hunk blocks out h =
     (case block_of blocks h of
        None \<Rightarrow> out
      | Some b \<Rightarrow> omap_set (block_id b) ((case map_of out (block_id b) of None \<Rightarrow> [] | Some l \<Rightarrow> l) @ [h]) out)"

definition mapHunksToBlocks :: "ParsedPatch \<Rightarrow> block list \<Rightarrow> (string \<times> PatchHunk list) list" where
  "mapHunksToBlocks patch blocks = foldl (map_hunk blocks) [] (hunks patch)"

section \<open>Numbering\<close>

definition takes_old :: "line_kind \<Rightarrow> bool" where
  "takes_old k \<longleftrightarrow> k = Context \<or> k = Del"

definition takes_new :: "line_kind \<Rightarrow> bool" where
  "takes_new k \<longleftrightarrow> k = Context \<or> k = Add"

text \<open>The numbers a body must get: a line counts on the sides it belongs to.\<close>

fun number :: "nat \<Rightarrow> nat \<Rightarrow> (line_kind \<times> string) list \<Rightarrow> PatchLine list" where
  "number old new [] = []"
| "number old new ((k, t) # ls) =
     \<lparr>l_kind = k, l_text = t, oldLine = (if takes_old k then Some old else None),
       newLine = (if takes_new k then Some new else None)\<rparr>
     # number (if takes_old k then old + 1 else old) (if takes_new k then new + 1 else new) ls"

lemma number_snoc: "number old new (ls @ [(k, t)]) = number old new ls @
    [\<lparr>l_kind = k, l_text = t,
      oldLine = (if takes_old k then Some (old + length (filter (takes_old \<circ> fst) ls)) else None),
      newLine = (if takes_new k then Some (new + length (filter (takes_new \<circ> fst) ls)) else None)\<rparr>]"
  by (induction ls arbitrary: old new) auto

lemma number_contents: "map (\<lambda>l. (l_kind l, l_text l)) (number old new ls) = ls"
  by (induction old new ls rule: number.induct) auto

lemma upt_head: "[a..<Suc (a + n)] = a # [Suc a..<Suc (a + n)]"
  by (simp add: upt_rec)

lemma number_old: "map oldLine (filter (takes_old \<circ> l_kind) (number old new ls)) =
    map Some [old..<old + length (filter (takes_old \<circ> fst) ls)]"
  by (induction old new ls rule: number.induct) (auto simp: upt_head simp del: upt_Suc)

lemma number_new: "map newLine (filter (takes_new \<circ> l_kind) (number old new ls)) =
    map Some [new..<new + length (filter (takes_new \<circ> fst) ls)]"
  by (induction old new ls rule: number.induct) (auto simp: upt_head simp del: upt_Suc)

definition contents :: "PatchHunk \<Rightarrow> (line_kind \<times> string) list" where
  "contents h = map (\<lambda>l. (l_kind l, l_text l)) (hunk_lines h)"

definition old_lines :: "PatchHunk \<Rightarrow> nat" where
  "old_lines h = length (filter (takes_old \<circ> l_kind) (hunk_lines h))"

definition new_lines :: "PatchHunk \<Rightarrow> nat" where
  "new_lines h = length (filter (takes_new \<circ> l_kind) (hunk_lines h))"

definition hunk_ok :: "PatchHunk \<Rightarrow> bool" where
  "hunk_ok h \<longleftrightarrow> hunk_lines h = number (oldStart h) (newStart h) (contents h)"

definition patch_inv :: "parse_state \<Rightarrow> bool" where
  "patch_inv s \<longleftrightarrow> list_all hunk_ok (hunks s)
     \<and> (hunks s \<noteq> [] \<longrightarrow> oldNum s = oldStart (last (hunks s)) + old_lines (last (hunks s))
          \<and> newNum s = newStart (last (hunks s)) + new_lines (last (hunks s)))"

lemma HUNK_RE_fresh: "HUNK_RE raw = Some h \<Longrightarrow> hunk_lines h = [] \<and> header h = raw"
  unfolding HUNK_RE_def Let_def case_prod_beta bind_eq_Some_conv
  by (elim exE conjE) (auto split: if_splits)

lemma contents_counts: "length (filter (takes_old \<circ> fst) (contents h)) = old_lines h"
  "length (filter (takes_new \<circ> fst) (contents h)) = new_lines h"
  by (simp_all add: contents_def old_lines_def new_lines_def filter_map comp_def)

definition next_line :: "PatchHunk \<Rightarrow> line_kind \<Rightarrow> string \<Rightarrow> PatchLine" where
  "next_line h k t = \<lparr>l_kind = k, l_text = t,
     oldLine = (if takes_old k then Some (oldStart h + old_lines h) else None),
     newLine = (if takes_new k then Some (newStart h + new_lines h) else None)\<rparr>"

lemma contents_snoc: "contents (h\<lparr>hunk_lines := hunk_lines h @ [l]\<rparr>) = contents h @ [(l_kind l, l_text l)]"
  by (simp add: contents_def)

lemma hunk_ok_next: "hunk_ok h \<Longrightarrow> hunk_ok (h\<lparr>hunk_lines := hunk_lines h @ [next_line h k t]\<rparr>)"
  unfolding hunk_ok_def contents_snoc
  using number_snoc [of "oldStart h" "newStart h" "contents h" k t]
  by (simp add: contents_counts next_line_def)

lemma push_next:
  assumes "patch_inv s" and "hunks s \<noteq> []"
  shows "patch_inv (s\<lparr>hunks := push_line (next_line (last (hunks s)) k t) (hunks s),
     oldNum := oldNum s + (if takes_old k then 1 else 0), newNum := newNum s + (if takes_new k then 1 else 0)\<rparr>)"
proof -
  have "hunks s = butlast (hunks s) @ [last (hunks s)]" using assms(2) by simp
  then have "list_all hunk_ok (butlast (hunks s))" "hunk_ok (last (hunks s))"
    using assms(1) unfolding patch_inv_def
    by (metis list_all_append list.pred_inject(2))+
  then show ?thesis
    using assms hunk_ok_next
    by (simp add: patch_inv_def push_line_def old_lines_def new_lines_def next_line_def)
qed

definition take_line :: "line_kind \<Rightarrow> string \<Rightarrow> parse_state \<Rightarrow> parse_state" where
  "take_line k t s = s\<lparr>hunks := push_line (next_line (last (hunks s)) k t) (hunks s),
     oldNum := oldNum s + (if takes_old k then 1 else 0), newNum := newNum s + (if takes_new k then 1 else 0)\<rparr>"

lemma body_line_take:
  assumes "patch_inv s" and "hunks s \<noteq> []"
  shows "body_line s raw =
     (if startsWith raw [CHR 0x5C, CHR '' ''] then take_line Meta raw s
      else if startsWith raw ''+'' then take_line Add (drop 1 raw) s
      else if startsWith raw ''-'' then take_line Del (drop 1 raw) s
      else if startsWith raw '' '' then take_line Context (drop 1 raw) s
      else s)"
proof -
  have n: "oldStart (last (hunks s)) + old_lines (last (hunks s)) = oldNum s"
    "newStart (last (hunks s)) + new_lines (last (hunks s)) = newNum s"
    using assms by (simp_all add: patch_inv_def)
  have k: "take_line Meta raw s = s\<lparr>hunks := push_line \<lparr>l_kind = Meta, l_text = raw, oldLine = None, newLine = None\<rparr> (hunks s)\<rparr>"
    by (simp add: take_line_def next_line_def takes_old_def takes_new_def)
  show ?thesis
    unfolding body_line_def k by (simp add: take_line_def next_line_def takes_old_def takes_new_def n)
qed

lemma body_line_inv: "patch_inv s \<Longrightarrow> hunks s \<noteq> [] \<Longrightarrow> patch_inv (body_line s raw)"
  using push_next [of s] by (simp add: body_line_take take_line_def)

lemma patch_line_inv: "patch_inv s \<Longrightarrow> patch_inv (patch_line s raw)"
proof (cases "HUNK_RE raw")
  case None
  assume "patch_inv s"
  with None body_line_inv [of s raw] show ?thesis
    by (auto simp: patch_line_def patch_inv_def)
next
  case (Some h)
  assume "patch_inv s"
  with Some HUNK_RE_fresh [OF Some] show ?thesis
    by (auto simp: patch_line_def patch_inv_def hunk_ok_def contents_def old_lines_def new_lines_def)
qed

lemma parse_inv: "patch_inv (foldl patch_line parse_start lines)"
proof -
  have "patch_inv s \<Longrightarrow> patch_inv (foldl patch_line s lines)" for s
    by (induction lines arbitrary: s) (simp_all add: patch_line_inv)
  then show ?thesis by (simp add: patch_inv_def parse_start_def)
qed

lemma hunks_of_parse: "hunks (parsePatch text) = hunks (foldl patch_line parse_start (splitOn CHR 0x0A text))"
  by (simp add: parsePatch_def ParsedPatch.truncate_def)

definition numbered_hunk :: "PatchHunk \<Rightarrow> bool" where
  "numbered_hunk h \<longleftrightarrow>
     map oldLine (filter (takes_old \<circ> l_kind) (hunk_lines h)) = map Some [oldStart h..<oldStart h + old_lines h]
     \<and> map newLine (filter (takes_new \<circ> l_kind) (hunk_lines h)) = map Some [newStart h..<newStart h + new_lines h]
     \<and> list_all (\<lambda>l. (oldLine l = None) = (\<not> takes_old (l_kind l)) \<and> (newLine l = None) = (\<not> takes_new (l_kind l))) (hunk_lines h)"

lemma number_typed: "list_all (\<lambda>l. (oldLine l = None) = (\<not> takes_old (l_kind l))
    \<and> (newLine l = None) = (\<not> takes_new (l_kind l))) (number old new ls)"
  by (induction old new ls rule: number.induct) auto

lemma hunk_ok_numbered: "hunk_ok h \<Longrightarrow> numbered_hunk h"
  unfolding hunk_ok_def numbered_hunk_def
  using number_old [of "oldStart h" "newStart h" "contents h"] number_new [of "oldStart h" "newStart h" "contents h"]
    number_typed [of "oldStart h" "newStart h" "contents h"]
  by (simp add: contents_counts)

text \<open>
  Whatever the text, the lines of every parsed hunk are numbered as a diff demands: on each
  side the lines that belong to it count up without a gap from the start the hunk header
  names, and a line carries a number exactly on the sides it belongs to.
\<close>

theorem hunk_numbers: "list_all numbered_hunk (hunks (parsePatch patch))"
  using parse_inv [of "splitOn CHR 0x0A patch"] hunk_ok_numbered
  by (simp add: hunks_of_parse patch_inv_def list_all_iff)

section \<open>Reading back a rendered diff\<close>

record hunk_text =
  t_old :: nat
  t_oldCount :: "nat option"
  t_new :: nat
  t_newCount :: "nat option"
  t_section :: string
  t_body :: "(line_kind \<times> string) list"

fun render_count :: "nat option \<Rightarrow> string" where
  "render_count None = []"
| "render_count (Some n) = '','' @ showNat n"

fun render_line :: "line_kind \<times> string \<Rightarrow> string" where
  "render_line (Context, t) = '' '' @ t"
| "render_line (Add, t) = ''+'' @ t"
| "render_line (Del, t) = ''-'' @ t"
| "render_line (Meta, t) = t"

definition render_head :: "hunk_text \<Rightarrow> string" where
  "render_head h = ''@@ -'' @ showNat (t_old h) @ render_count (t_oldCount h) @ '' +'' @ showNat (t_new h)
     @ render_count (t_newCount h) @ '' @@'' @ t_section h"

definition render_hunk :: "hunk_text \<Rightarrow> string list" where
  "render_hunk h = render_head h # map render_line (t_body h)"

definition render_patch :: "string \<Rightarrow> string \<Rightarrow> hunk_text list \<Rightarrow> string" where
  "render_patch path blob hs = joinWith [CHR 0x0A]
     ([''diff --git a/'' @ path @ '' b/'' @ path, ''index '' @ blob, ''--- a/'' @ path, ''+++ b/'' @ path]
      @ concat (map render_hunk hs) @ [[]])"

definition hunk_value :: "hunk_text \<Rightarrow> PatchHunk" where
  "hunk_value h = \<lparr>header = render_head h, oldStart = t_old h, oldCount = case_option 1 id (t_oldCount h),
     newStart = t_new h, newCount = case_option 1 id (t_newCount h), hunk_lines = number (t_old h) (t_new h) (t_body h)\<rparr>"

text \<open>
  The texts the line protocol can carry: no line breaks, a no-newline marker starts with its
  backslash, and no deleted (added) text looks like the rest of a file header.
\<close>

definition plain_line :: "line_kind \<times> string \<Rightarrow> bool" where
  "plain_line l \<longleftrightarrow> CHR 0x0A \<notin> set (snd l) \<and> (fst l = Meta \<longrightarrow> startsWith (snd l) [CHR 0x5C, CHR '' ''])
     \<and> (fst l = Del \<longrightarrow> \<not> startsWith (snd l) ''-- '') \<and> (fst l = Add \<longrightarrow> \<not> startsWith (snd l) ''++ '')"

definition plain_hunk :: "hunk_text \<Rightarrow> bool" where
  "plain_hunk h \<longleftrightarrow> \<not> list_ex line_terminator (t_section h) \<and> list_all plain_line (t_body h)"

definition plain_path :: "string \<Rightarrow> bool" where
  "plain_path p \<longleftrightarrow> p \<noteq> [] \<and> \<not> is_ws (hd p) \<and> \<not> is_ws (last p) \<and> CHR 0x0A \<notin> set p"

lemma expect_append [simp]: "expect p (p @ s) = Some s"
  by (simp add: expect_def)

lemma read_digits_show:
  "r = [] \<or> \<not> is_digit (hd r) \<Longrightarrow> read_digits (showNat n @ r) = Some (n, r)"
proof -
  assume "r = [] \<or> \<not> is_digit (hd r)"
  from digits_takeWhile [OF this, of n] have "read_digits (showNat n @ r) =
      (case showNat n of [] \<Rightarrow> None | d \<Rightarrow> Some (readNat (showNat n), r))"
    by (cases "showNat n") (simp_all add: read_digits_def)
  moreover obtain c r' where "showNat n = c # r'" using showNat_ne [of n] by (cases "showNat n") simp_all
  ultimately show ?thesis using readNat_showNat [of n] by simp
qed

lemma read_count_render: "read_count (render_count c @ '' '' @ r) = (case_option 1 id c, '' '' @ r)"
  by (cases c) (simp_all add: read_count_def read_digits_show is_digit_def)

lemma render_count_head: "hd (render_count c @ '' '' @ r) = CHR '','' \<or> hd (render_count c @ '' '' @ r) = CHR '' ''"
  by (cases c) simp_all

lemma read_digits_count: "read_digits (showNat n @ render_count c @ '' '' @ r) = Some (n, render_count c @ '' '' @ r)"
  using render_count_head [of c r] by (intro read_digits_show) (auto simp: is_digit_def)

lemma HUNK_RE_render:
  assumes "plain_hunk h"
  shows "HUNK_RE (render_head h) = Some ((hunk_value h)\<lparr>hunk_lines := []\<rparr>)"
proof -
  let ?c = "render_count (t_newCount h) @ '' '' @ ''@@'' @ t_section h"
  let ?b = "render_count (t_oldCount h) @ '' '' @ ''+'' @ showNat (t_new h) @ ?c"
  have e: "render_head h = ''@@ -'' @ showNat (t_old h) @ ?b" by (simp add: render_head_def)
  have e1: "expect ''@@ -'' (render_head h) = Some (showNat (t_old h) @ ?b)"
    unfolding e by (rule expect_append)
  have e2: "expect '' +'' ('' '' @ ''+'' @ s) = Some s" "expect '' @@'' ('' '' @ ''@@'' @ s) = Some s" for s
    by (simp_all add: expect_def)
  show ?thesis
    unfolding HUNK_RE_def e1 Let_def
    by (simp only: Option.bind.simps prod.case read_digits_count read_count_render e2)
       (use assms in \<open>simp add: plain_hunk_def hunk_value_def\<close>)
qed

lemma patch_line_head:
  assumes "plain_hunk h"
  shows "patch_line s (render_head h) =
     s\<lparr>hunks := hunks s @ [(hunk_value h)\<lparr>hunk_lines := []\<rparr>], oldNum := t_old h, newNum := t_new h\<rparr>"
proof -
  obtain r where r: "render_head h = CHR ''@'' # r" by (simp add: render_head_def)
  have "\<not> is_git_header (render_head h)" "\<not> BINARY_DIFFER_RE (render_head h)"
    by (simp_all add: is_git_header_def BINARY_DIFFER_RE_def r)
  with HUNK_RE_render [OF assms] show ?thesis
    by (simp add: patch_line_def hunk_value_def) (simp add: r)
qed

lemma patch_line_body:
  assumes "plain_line (k, t)" and "patch_inv s" and "hunks s \<noteq> []"
  shows "patch_line s (render_line (k, t)) = take_line k t s"
proof -
  obtain c r where r: "render_line (k, t) = c # r" and c: "c \<in> {CHR '' '', CHR ''+'', CHR ''-'', CHR 0x5C}"
    using assms(1) by (cases k; cases t) (auto simp: plain_line_def)
  have g: "\<not> is_git_header (c # r)" "\<not> BINARY_DIFFER_RE (c # r)" "HUNK_RE (c # r) = None"
    using c by (auto simp: is_git_header_def BINARY_DIFFER_RE_def HUNK_RE_def expect_def)
  have "\<not> startsWith (c # r) ''--- ''" "\<not> startsWith (c # r) ''+++ ''"
    using assms(1) c r by (cases k; auto simp: plain_line_def)+
  with g assms have "patch_line s (c # r) = body_line s (c # r)"
    unfolding patch_line_def by (simp only: if_False option.case)
  with r assms show ?thesis by (cases k; simp add: body_line_take plain_line_def startsWith_iff) auto
qed

lemma take_line_inv: "patch_inv s \<Longrightarrow> hunks s \<noteq> [] \<Longrightarrow> patch_inv (take_line k t s) \<and> hunks (take_line k t s) \<noteq> []"
  using push_next [of s k t] by (simp add: take_line_def push_line_def)

lemma push_line_more: "push_line b (push_line a hs) = butlast hs @ [(last hs)\<lparr>hunk_lines := hunk_lines (last hs) @ [a, b]\<rparr>]"
  by (simp add: push_line_def)

definition frame :: "parse_state \<Rightarrow> string option \<times> string option \<times> string list \<times> bool" where
  "frame s = (file_from s, file_to s, p_meta s, binary s)"

text \<open>The body lines of one hunk.\<close>

lemma body_fold:
  assumes "list_all plain_line ls" and "patch_inv s" and "hunks s \<noteq> []"
  shows "let s' = foldl patch_line s (map render_line ls); h = last (hunks s) in
     patch_inv s' \<and> frame s' = frame s
     \<and> hunks s' = butlast (hunks s) @ [h\<lparr>hunk_lines := number (oldStart h) (newStart h) (contents h @ ls)\<rparr>]"
  using assms
proof (induction ls rule: rev_induct)
  case Nil
  then have "hunk_ok (last (hunks s))"
    by (metis append_butlast_last_id list_all_append list.pred_inject(2) patch_inv_def)
  then have "(last (hunks s))\<lparr>hunk_lines := number (oldStart (last (hunks s))) (newStart (last (hunks s))) (contents (last (hunks s)))\<rparr>
      = last (hunks s)" by (simp add: hunk_ok_def)
  with Nil show ?case by (simp add: Let_def)
next
  case (snoc l ls)
  obtain k t where l: "l = (k, t)" by (cases l)
  let ?s = "foldl patch_line s (map render_line ls)" and ?h = "last (hunks s)"
  let ?g = "?h\<lparr>hunk_lines := number (oldStart ?h) (newStart ?h) (contents ?h @ ls)\<rparr>"
  have IH: "patch_inv ?s" "frame ?s = frame s" "hunks ?s = butlast (hunks s) @ [?g]"
    using snoc by (simp_all add: Let_def)
  have step: "patch_line ?s (render_line l) = take_line k t ?s"
    unfolding l using snoc.prems IH by (intro patch_line_body) (simp_all add: l)
  have c: "contents ?g = contents ?h @ ls"
    by (simp add: contents_def [of ?g] number_contents)
  have n: "number (oldStart ?h) (newStart ?h) (contents ?h @ ls @ [(k, t)]) = hunk_lines ?g @ [next_line ?g k t]"
    using number_snoc [of "oldStart ?h" "newStart ?h" "contents ?h @ ls" k t] contents_counts [of ?g]
    by (simp add: next_line_def c)
  have "hunks (take_line k t ?s) = butlast (hunks s) @ [?h\<lparr>hunk_lines := number (oldStart ?h) (newStart ?h) (contents ?h @ ls @ [(k, t)])\<rparr>]"
    unfolding n by (simp add: take_line_def push_line_def IH)
  moreover have "patch_inv (take_line k t ?s)" using take_line_inv [OF IH(1), of k t] IH(3) by simp
  moreover have "frame (take_line k t ?s) = frame s" using IH(2) by (simp add: take_line_def frame_def)
  ultimately show ?case using step by (simp add: l Let_def)
qed

lemma hunk_fold:
  assumes "plain_hunk h" and "patch_inv s"
  shows "let s' = foldl patch_line s (render_hunk h) in
     patch_inv s' \<and> frame s' = frame s \<and> hunks s' = hunks s @ [hunk_value h]"
proof -
  let ?s = "patch_line s (render_head h)"
  have s: "?s = s\<lparr>hunks := hunks s @ [(hunk_value h)\<lparr>hunk_lines := []\<rparr>], oldNum := t_old h, newNum := t_new h\<rparr>"
    by (rule patch_line_head [OF assms(1)])
  have inv: "patch_inv ?s" by (rule patch_line_inv [OF assms(2)])
  have "list_all plain_line (t_body h)" using assms(1) by (simp add: plain_hunk_def)
  from body_fold [OF this inv] show ?thesis
    by (simp add: render_hunk_def s Let_def) (simp add: frame_def contents_def hunk_value_def)
qed

lemma hunks_fold:
  "list_all plain_hunk hs \<Longrightarrow> patch_inv s \<Longrightarrow>
     let s' = foldl patch_line s (concat (map render_hunk hs)) in frame s' = frame s \<and> hunks s' = hunks s @ map hunk_value hs"
proof (induction hs arbitrary: s)
  case Nil
  then show ?case by simp
next
  case (Cons h hs)
  from Cons.prems hunk_fold [of h s] Cons.IH [of "foldl patch_line s (render_hunk h)"]
  show ?case by (simp add: Let_def)
qed

lemma file_name_plain: "plain_path p \<Longrightarrow> file_name ''a/'' (''--- a/'' @ p) = Some p"
  "plain_path p \<Longrightarrow> file_name ''b/'' (''+++ b/'' @ p) = Some p"
  by (simp_all add: file_name_def plain_path_def trim_id)

lemma no_break_digits: "CHR 0x0A \<notin> set (showNat n)"
  using showNat_digits [of "CHR 0x0A" n] by (auto simp: is_digit_def)

lemma no_break_hunk: "plain_hunk h \<Longrightarrow> l \<in> set (render_hunk h) \<Longrightarrow> CHR 0x0A \<notin> set l"
proof -
  have c: "CHR 0x0A \<notin> set (render_count c)" for c by (cases c) (simp_all add: no_break_digits)
  have b: "CHR 0x0A \<notin> set (render_line l)" if "plain_line l" for l
    using that by (cases l rule: render_line.cases) (auto simp: plain_line_def)
  assume "plain_hunk h" "l \<in> set (render_hunk h)"
  then show ?thesis
    using c b no_break_digits
    by (auto simp: plain_hunk_def render_hunk_def render_head_def list_all_iff list_ex_iff line_terminator_def)
qed

text \<open>
  C29. Reading back a rendered diff: take a patch for one file, its name without space at
  either end and without line feed, with any hunks whose section texts hold no line terminator,
  whose lines hold no line feed, whose meta lines start with a backslash and a space, and in
  which no removed line's text starts with two dashes and a space and no
  added line's with two pluses and a space (such a line reads as a file header and is lost,
  \<open>dashed_line_is_dropped\<close>). It parses to those hunks with every line in place and numbered,
  the file's name on both sides, the four header lines as meta lines, and no binary mark.
\<close>

theorem parse_rendered:
  assumes "plain_path path" and "CHR 0x0A \<notin> set blob" and "list_all plain_hunk hs"
  shows "parsePatch (render_patch path blob hs) = \<lparr>file_from = Some path, file_to = Some path, hunks = map hunk_value hs,
     p_meta = [''diff --git a/'' @ path @ '' b/'' @ path, ''index '' @ blob, ''--- a/'' @ path, ''+++ b/'' @ path],
     binary = False\<rparr>"
proof -
  let ?pre = "[''diff --git a/'' @ path @ '' b/'' @ path, ''index '' @ blob, ''--- a/'' @ path, ''+++ b/'' @ path]"
  let ?s = "foldl patch_line parse_start ?pre"
  have s: "?s = parse_start\<lparr>file_from := Some path, file_to := Some path, p_meta := ?pre\<rparr>"
    using file_name_plain [OF assms(1)] by (simp add: patch_line_def is_git_header_def parse_start_def)
  have inv: "patch_inv ?s" by (rule parse_inv)
  have nb: "CHR 0x0A \<notin> set l" if "h \<in> set hs" "l \<in> set (render_hunk h)" for h l
    using that assms(3) no_break_hunk by (auto simp: list_all_iff)
  have lines: "splitOn CHR 0x0A (render_patch path blob hs) = ?pre @ concat (map render_hunk hs) @ [[]]"
    unfolding render_patch_def using assms(1,2) nb by (intro split_join) (auto simp: plain_path_def)
  have last: "patch_line s [] = s" for s
    by (simp add: patch_line_def is_git_header_def BINARY_DIFFER_RE_def HUNK_RE_def expect_def body_line_def)
  have f: "foldl patch_line parse_start (?pre @ concat (map render_hunk hs) @ [[]]) =
      foldl patch_line ?s (concat (map render_hunk hs))"
    by (simp only: foldl_append foldl_Cons foldl_Nil last)
  let ?e = "foldl patch_line ?s (concat (map render_hunk hs))"
  have e: "frame ?e = frame ?s" "hunks ?e = hunks ?s @ map hunk_value hs"
    using hunks_fold [OF assms(3) inv] unfolding Let_def by blast+
  have "frame ?s = (Some path, Some path, ?pre, False)" "hunks ?s = []"
    unfolding s by (simp_all add: frame_def parse_start_def)
  with e have "frame ?e = (Some path, Some path, ?pre, False)" "hunks ?e = map hunk_value hs" by simp_all
  then show ?thesis
    unfolding parsePatch_def lines f ParsedPatch.truncate_def frame_def prod.inject by (elim conjE) (simp only:)
qed

text \<open>A deleted line whose text starts with two dashes and a space.\<close>

definition dashes_patch :: string where
  "dashes_patch = ''@@ -1,2 +1,1 @@\<newline>--- old rule\<newline> kept''"

lemma dashed_line_is_dropped:
  "map hunk_lines (hunks (parsePatch dashes_patch)) =
     [[\<lparr>l_kind = Context, l_text = ''kept'', oldLine = Some 1, newLine = Some 1\<rparr>]]
   \<and> file_from (parsePatch dashes_patch) = Some ''old rule''"
  by code_simp

definition sample_hunk :: hunk_text where
  "sample_hunk = \<lparr>t_old = 3, t_oldCount = Some 2, t_new = 3, t_newCount = None, t_section = '' f()'',
     t_body = [(Context, ''a''), (Del, ''b'')]\<rparr>"

theorem parse_rendered_witness:
  "hunks (parsePatch (render_patch ''x.ts'' ''1..2'' [sample_hunk])) = [hunk_value sample_hunk]"
proof -
  have "plain_path ''x.ts''" "CHR 0x0A \<notin> set ''1..2''" "list_all plain_hunk [sample_hunk]"
    by (simp_all add: plain_path_def is_ws_def) (code_simp)
  from parse_rendered [OF this] show ?thesis by simp
qed

section \<open>Lines and blocks of the new file\<close>

definition context_at :: "PatchHunk \<Rightarrow> (nat \<times> nat) list" where
  "context_at h = map (\<lambda>l. (the (oldLine l), the (newLine l)))
     (filter (\<lambda>l. l_kind l = Context \<and> oldLine l \<noteq> None \<and> newLine l \<noteq> None) (hunk_lines h))"

definition distance :: "nat \<Rightarrow> nat \<Rightarrow> int" where
  "distance a b = \<bar>int a - int b\<bar>"

text \<open>The first context line at the least distance in the old file.\<close>

definition nearest :: "nat \<Rightarrow> (nat \<times> nat) list \<Rightarrow> nat \<Rightarrow> bool" where
  "nearest at cs new \<longleftrightarrow> (\<exists>i<length cs. snd (cs ! i) = new
     \<and> (\<forall>j<length cs. distance (fst (cs ! i)) at \<le> distance (fst (cs ! j)) at)
     \<and> (\<forall>j<i. distance (fst (cs ! i)) at < distance (fst (cs ! j)) at))"

definition best_of :: "nat \<Rightarrow> (nat \<times> nat) option \<Rightarrow> (nat \<times> nat) \<Rightarrow> (nat \<times> nat) option" where
  "best_of at b c = (case b of None \<Rightarrow> Some c
     | Some b' \<Rightarrow> if distance (fst c) at < distance (fst b') at then Some c else b)"

lemma context_fold: "foldl (context_step at) b ls = foldl (best_of at) b (map (\<lambda>l. (the (oldLine l), the (newLine l)))
    (filter (\<lambda>l. l_kind l = Context \<and> oldLine l \<noteq> None \<and> newLine l \<noteq> None) ls))"
proof (induction ls arbitrary: b)
  case Nil
  then show ?case by simp
next
  case (Cons l ls)
  have "context_step at b l = (if l_kind l = Context \<and> oldLine l \<noteq> None \<and> newLine l \<noteq> None
      then best_of at b (the (oldLine l), the (newLine l)) else b)"
    by (cases "l_kind l"; cases "oldLine l"; cases "newLine l"; cases b)
       (auto simp: context_step_def best_of_def distance_def)
  with Cons show ?case by (simp del: not_None_eq)
qed

definition first_best :: "nat \<Rightarrow> (nat \<times> nat) list \<Rightarrow> (nat \<times> nat) \<Rightarrow> bool" where
  "first_best at cs b \<longleftrightarrow> (\<exists>i<length cs. cs ! i = b \<and> (\<forall>j<length cs. distance (fst b) at \<le> distance (fst (cs ! j)) at)
     \<and> (\<forall>j<i. distance (fst b) at < distance (fst (cs ! j)) at))"

lemma first_best_snoc: "first_best at cs b \<Longrightarrow> \<exists>b'. best_of at (Some b) c = Some b' \<and> first_best at (cs @ [c]) b'"
proof -
  assume "first_best at cs b"
  then obtain i where i: "i < length cs" "cs ! i = b" "\<forall>j<length cs. distance (fst b) at \<le> distance (fst (cs ! j)) at"
    "\<forall>j<i. distance (fst b) at < distance (fst (cs ! j)) at" unfolding first_best_def by blast
  show ?thesis
  proof (cases "distance (fst c) at < distance (fst b) at")
    case True
    with i have "first_best at (cs @ [c]) c"
      unfolding first_best_def by (intro exI [of _ "length cs"]) (fastforce simp: nth_append less_Suc_eq)
    with True show ?thesis by (simp add: best_of_def)
  next
    case False
    with i have "first_best at (cs @ [c]) b"
      unfolding first_best_def by (intro exI [of _ i]) (auto simp: nth_append less_Suc_eq)
    with False show ?thesis by (simp add: best_of_def)
  qed
qed

lemma best_fold: "cs \<noteq> [] \<Longrightarrow> \<exists>b. foldl (best_of at) None cs = Some b \<and> first_best at cs b"
proof (induction cs rule: rev_induct)
  case Nil
  then show ?case by simp
next
  case (snoc c cs)
  show ?case
  proof (cases "cs = []")
    case True
    then show ?thesis by (simp add: best_of_def first_best_def)
  next
    case False
    with snoc.IH first_best_snoc show ?thesis by fastforce
  qed
qed

lemma nearest_unique: "nearest at cs x \<Longrightarrow> nearest at cs y \<Longrightarrow> x = y"
  unfolding nearest_def by (metis linorder_neqE_nat not_less)

lemma nearestNewContext_spec: "nearestNewContext h at = Some x \<longleftrightarrow> nearest at (context_at h) x"
proof (cases "context_at h = []")
  case True
  then show ?thesis by (simp add: nearestNewContext_def context_fold context_at_def nearest_def)
next
  case False
  from best_fold [OF this, of at] obtain b where
    b: "nearestNewContext h at = Some (snd b)" "first_best at (context_at h) b"
    by (auto simp: nearestNewContext_def context_fold context_at_def)
  then have "nearest at (context_at h) (snd b)" unfolding first_best_def nearest_def by blast
  with b(1) nearest_unique show ?thesis by auto
qed

definition marks :: "PatchHunk \<Rightarrow> PatchLine \<Rightarrow> nat \<Rightarrow> bool" where
  "marks h l x \<longleftrightarrow> (l_kind l = Add \<and> newLine l = Some x)
     \<or> (l_kind l = Del \<and> nearest (case oldLine l of None \<Rightarrow> 0 | Some n \<Rightarrow> n) (context_at h) x)"

lemma changed_line_set: "x \<in> set (changed_line h found l) \<longleftrightarrow> x \<in> set found \<or> marks h l x"
proof -
  have n: "(\<exists>y. nearestNewContext h at = Some y \<and> x = y) \<longleftrightarrow> nearest at (context_at h) x" for at
    using nearestNewContext_spec by blast
  show ?thesis
    unfolding changed_line_def marks_def n [symmetric]
    by (cases "l_kind l"; cases "newLine l"; cases "oldLine l") (auto split: option.splits)
qed

lemma addHunkLines_set: "x \<in> set (addHunkLines found h) \<longleftrightarrow> x \<in> set found \<or> (\<exists>l\<in>set (hunk_lines h). marks h l x)"
proof -
  have "x \<in> set (foldl (changed_line h) found ls) \<longleftrightarrow> x \<in> set found \<or> (\<exists>l\<in>set ls. marks h l x)" for ls
    by (induction ls arbitrary: found) (auto simp: changed_line_set)
  then show ?thesis by (simp add: addHunkLines_def)
qed

text \<open>
  The changed lines of a patch are the new numbers of its added lines and, for each deleted
  line, the new number of the context line of its hunk that is nearest in the old file, the
  first on a tie; the blocks get their hunks whole and in order, each hunk by the first block
  that overlaps it.
\<close>

theorem changed_lines:
  "(x \<in> set (changedLinesFromPatch patch)) = (\<exists>h l. h \<in> set (hunks patch) \<and> l \<in> set (hunk_lines h) \<and> marks h l x)
   \<and> map_of (mapHunksToBlocks patch blocks) key =
       (let hs = filter (\<lambda>h. map_option block_id (block_of blocks h) = Some key) (hunks patch)
        in if hs = [] then None else Some hs)"
proof
  have "x \<in> set (foldl addHunkLines found hs) \<longleftrightarrow> x \<in> set found \<or> (\<exists>h\<in>set hs. \<exists>l\<in>set (hunk_lines h). marks h l x)" for found hs
    by (induction hs arbitrary: found) (auto simp: addHunkLines_set)
  then show "(x \<in> set (changedLinesFromPatch patch)) = (\<exists>h l. h \<in> set (hunks patch) \<and> l \<in> set (hunk_lines h) \<and> marks h l x)"
    by (auto simp: changedLinesFromPatch_def)
next
  let ?P = "\<lambda>h. map_option block_id (block_of blocks h) = Some key"
  let ?v = "\<lambda>hs :: PatchHunk list. if hs = [] then None else Some hs"
  have "map_of (foldl (map_hunk blocks) [] hs) key = ?v (filter ?P hs)" for hs
  proof (induction hs rule: rev_induct)
    case Nil
    then show ?case by simp
  next
    case (snoc h hs)
    then show ?case
      by (auto simp: map_hunk_def omap_simps split: option.splits list.splits)
  qed
  then show "map_of (mapHunksToBlocks patch blocks) key =
      (let hs = filter ?P (hunks patch) in if hs = [] then None else Some hs)"
    by (simp add: mapHunksToBlocks_def Let_def)
qed

end
