(* ===== verification/Tabular.thy ===== *)
theory Tabular
  imports JsSort Complex_Main
begin

text \<open>
  The table view of CSV and TSV files: the parser and the query engine of
  \<open>content/tabular/tabularCore.ts\<close> and the size cap of \<open>tabularCap.ts\<close>.

  Text is a list of UTF-16 code units. A position in the text is the rest of the text from
  there. Three things the code takes from the JavaScript runtime's Unicode and locale data are
  parameters: lower-casing, the reading of a number (\<open>None\<close> when it is not finite) and the
  comparison of the collator.
\<close>

type_synonym units = "nat list"

datatype Delimiter = Comma | Tab

definition QUOTE :: nat where "QUOTE = 34"
definition LF :: nat where "LF = 10"
definition CR :: nat where "CR = 13"
definition BOM :: nat where "BOM = 0xFEFF"

definition delimiter_code :: "Delimiter \<Rightarrow> nat" where
  "delimiter_code d = (case d of Comma \<Rightarrow> 44 | Tab \<Rightarrow> 9)"

section \<open>Parsing\<close>

definition ends_field :: "nat \<Rightarrow> nat \<Rightarrow> bool" where
  "ends_field D c \<longleftrightarrow> c = D \<or> c = LF \<or> c = CR"

text \<open>The text of a quoted field after its opening quote, and what follows the closing one.\<close>

function quoted :: "units \<Rightarrow> units \<times> units" where
  "quoted s =
     (case indexOf s [QUOTE] of
        None \<Rightarrow> (s, [])
      | Some q \<Rightarrow>
          if startsWith (drop (q + 1) s) [QUOTE]
          then (let (out, rest) = quoted (drop (q + 2) s) in (take (q + 1) s @ out, rest))
          else (take q s, drop (q + 1) s))"
  by pat_completeness auto

termination
proof (relation "measure length", goal_cases)
  case 1
  then show ?case by simp
next
  case (2 s q)
  from indexOf_singleton [OF 2(1)] have "q < length s" by simp
  then show ?case by simp
qed

declare quoted.simps [simp del]

definition field :: "nat \<Rightarrow> units \<Rightarrow> units \<times> units" where
  "field D s =
     (if startsWith s [QUOTE] then
        (let (out, rest) = quoted (tl s)
         in (out @ takeWhile (\<lambda>c. \<not> ends_field D c) rest, dropWhile (\<lambda>c. \<not> ends_field D c) rest))
      else (takeWhile (\<lambda>c. \<not> ends_field D c) s, dropWhile (\<lambda>c. \<not> ends_field D c) s))"

lemma quoted_length: "length (snd (quoted s)) \<le> length s"
proof (induction s rule: quoted.induct)
  case (1 s)
  then show ?case
    by (subst quoted.simps) (auto split: option.splits prod.splits)
qed

lemma field_length: "length (snd (field D s)) \<le> length s"
proof -
  obtain out rest where q: "quoted (tl s) = (out, rest)" by (cases "quoted (tl s)")
  have "length rest \<le> length s" using quoted_length [of "tl s"] by (simp add: q)
  from le_trans [OF length_dropWhile_le this] show ?thesis
    by (simp add: field_def q length_dropWhile_le)
qed

function parse_row :: "nat \<Rightarrow> units \<Rightarrow> units list \<times> units" where
  "parse_row D s =
     (let (f, rest) = field D s
      in case rest of
           [] \<Rightarrow> ([f], [])
         | c # rest' \<Rightarrow>
             if c = D then
               (if rest' = [] then ([f, []], [])
                else (let (fs, r) = parse_row D rest' in (f # fs, r)))
             else ([f], if c = CR \<and> startsWith rest' [LF] then tl rest' else rest'))"
  by pat_completeness auto

termination
proof (relation "measure (\<lambda>(D, s). length s)", goal_cases)
  case 1
  then show ?case by simp
next
  case (2 D s p f rest c rest')
  then have "length (c # rest') \<le> length s" using field_length [of D s] by (metis snd_conv)
  then show ?case by simp
qed

declare parse_row.simps [simp del]

lemma parse_row_length: "s \<noteq> [] \<Longrightarrow> length (snd (parse_row D s)) < length s"
proof (induction D s rule: parse_row.induct)
  case (1 D s)
  obtain f rest where f: "field D s = (f, rest)" by (cases "field D s")
  have le: "length rest \<le> length s" using field_length [of D s] by (simp add: f)
  show ?case
  proof (cases rest)
    case Nil
    with 1(2) show ?thesis by (subst parse_row.simps) (simp add: f)
  next
    case (Cons c rest')
    have "length (snd (parse_row D rest')) < length rest'" if "c = D" "rest' \<noteq> []"
      using 1(1) [OF f [symmetric] refl Cons that] that by simp
    with Cons le show ?thesis
      by (subst parse_row.simps) (auto simp: f split: prod.splits)
  qed
qed

function parse_rows :: "nat \<Rightarrow> units \<Rightarrow> units list list" where
  "parse_rows D s =
     (if s = [] then []
      else (let (row, rest) = parse_row D s
            in if row = [[]] then parse_rows D rest else row # parse_rows D rest))"
  by pat_completeness auto

termination
proof (relation "measure (\<lambda>(D, s). length s)", goal_cases)
  case 1
  then show ?case by simp
next
  case (2 D s p row rest)
  with parse_row_length [of s D] show ?case by (metis in_measure case_prod_conv snd_conv)
next
  case (3 D s p row rest)
  with parse_row_length [of s D] show ?case by (metis in_measure case_prod_conv snd_conv)
qed

declare parse_rows.simps [simp del]

definition parseDelimited :: "units \<Rightarrow> Delimiter \<Rightarrow> units list list" where
  "parseDelimited s d = parse_rows (delimiter_code d) (if startsWith s [BOM] then tl s else s)"

section \<open>The engine\<close>

text \<open>The parameters; a number is the rational value of a finite double.\<close>

record runtime =
  toLower :: "units \<Rightarrow> units"
  toNumber :: "units \<Rightarrow> rat option"
  compare :: "units \<Rightarrow> units \<Rightarrow> int"

definition unit_ws :: "nat \<Rightarrow> bool" where
  "unit_ws c \<longleftrightarrow> (9 \<le> c \<and> c \<le> 13) \<or> (0x2000 \<le> c \<and> c \<le> 0x200A)
     \<or> c \<in> {32, 160, 0x1680, 0x2028, 0x2029, 0x202F, 0x205F, 0x3000, 0xFEFF}"

definition unit_trim :: "units \<Rightarrow> units" where
  "unit_trim s = rev (dropWhile unit_ws (rev (dropWhile unit_ws s)))"

record TabularQuery =
  sortCol :: int
  sortDesc :: bool
  filterText :: units

record TabularRow =
  row_n :: nat
  cells :: "units list"

record TabularInfo =
  info_header :: "units list"
  info_rowCount :: nat
  info_columns :: nat

text \<open>\<open>None\<close> in \<open>numericCache\<close> is the code's \<open>null\<close>, and a key \<open>None\<close> is NaN.\<close>

record TabularEngine =
  records :: "units list list"
  columns :: nat
  order :: "nat list option"
  numericCache :: "(nat \<times> rat option list option) list"

definition new_engine :: "units \<Rightarrow> Delimiter \<Rightarrow> TabularEngine" where
  "new_engine s d =
     (let recs = parseDelimited s d
      in \<lparr>records = recs, columns = foldl (\<lambda>m r. if m < length r then length r else m) 0 recs,
          order = None, numericCache = []\<rparr>)"

definition pad :: "nat \<Rightarrow> units list \<Rightarrow> units list" where
  "pad n r = r @ replicate (n - length r) []"

definition body_count :: "TabularEngine \<Rightarrow> nat" where
  "body_count e = length (records e) - 1"

definition info :: "TabularEngine \<Rightarrow> TabularInfo" where
  "info e = \<lparr>info_header = pad (columns e) (case records e of [] \<Rightarrow> [] | r # _ \<Rightarrow> r),
     info_rowCount = body_count e, info_columns = columns e\<rparr>"

definition record_at :: "TabularEngine \<Rightarrow> nat \<Rightarrow> units list" where
  "record_at e body = (if body + 1 < length (records e) then records e ! (body + 1) else [])"

definition cell :: "TabularEngine \<Rightarrow> nat \<Rightarrow> nat \<Rightarrow> units" where
  "cell e body col = (let r = record_at e body in if col < length r then r ! col else [])"

definition key_of :: "runtime \<Rightarrow> units \<Rightarrow> rat option option" where
  "key_of rt c = (let raw = unit_trim c in if raw = [] then Some None else map_option Some (toNumber rt raw))"

definition column_keys :: "runtime \<Rightarrow> TabularEngine \<Rightarrow> nat \<Rightarrow> rat option list option" where
  "column_keys rt e col = those (map (\<lambda>r. key_of rt (cell e r col)) [0..<body_count e])"

definition numericKeys :: "runtime \<Rightarrow> nat \<Rightarrow> TabularEngine \<Rightarrow> rat option list option \<times> TabularEngine" where
  "numericKeys rt col e =
     (case map_of (numericCache e) col of
        Some result \<Rightarrow> (result, e)
      | None \<Rightarrow> (let result = column_keys rt e col
                 in (result, e\<lparr>numericCache := omap_set col result (numericCache e)\<rparr>)))"

definition sign_dir :: "bool \<Rightarrow> int" where
  "sign_dir desc = (if desc then -1 else 1)"

text \<open>Only the sign of \<open>ka - kb\<close> matters to the sort.\<close>

definition numeric_order :: "rat option list \<Rightarrow> bool \<Rightarrow> nat \<Rightarrow> nat \<Rightarrow> int" where
  "numeric_order keys desc a b =
     (case (keys ! a, keys ! b) of
        (Some ka, Some kb) \<Rightarrow> (if ka < kb then -1 else if kb < ka then 1 else 0) * sign_dir desc
      | (ea, eb) \<Rightarrow> if (ea = None) = (eb = None) then 0 else if ea = None then 1 else -1)"

definition text_order :: "runtime \<Rightarrow> TabularEngine \<Rightarrow> nat \<Rightarrow> bool \<Rightarrow> nat \<Rightarrow> nat \<Rightarrow> int" where
  "text_order rt e col desc a b =
     (let sa = cell e a col; sb = cell e b col
      in if sa = [] \<or> sb = [] then (if sa = sb then 0 else if sa = [] then 1 else -1)
         else compare rt sa sb * sign_dir desc)"

definition needle_of :: "runtime \<Rightarrow> TabularQuery \<Rightarrow> units" where
  "needle_of rt q = toLower rt (unit_trim (filterText q))"

definition sorting :: "TabularQuery \<Rightarrow> TabularEngine \<Rightarrow> bool" where
  "sorting q e \<longleftrightarrow> 0 \<le> sortCol q \<and> sortCol q < int (columns e)"

definition hit :: "runtime \<Rightarrow> units \<Rightarrow> TabularEngine \<Rightarrow> nat \<Rightarrow> bool" where
  "hit rt needle e r \<longleftrightarrow> list_ex (\<lambda>c. includesStr (toLower rt c) needle) (record_at e r)"

definition query :: "runtime \<Rightarrow> TabularQuery \<Rightarrow> TabularEngine \<Rightarrow> nat \<times> TabularEngine" where
  "query rt q e =
     (let total = body_count e; needle = needle_of rt q
      in if needle = [] \<and> \<not> sorting q e then (total, e\<lparr>order := None\<rparr>)
         else
           (let ids = (if needle = [] then [0..<total] else filter (hit rt needle e) [0..<total])
            in if sorting q e then
                 (let col = nat (sortCol q); (keys, e') = numericKeys rt col e;
                      ids' = (case keys of
                          Some ks \<Rightarrow> sortBy (numeric_order ks (sortDesc q)) ids
                        | None \<Rightarrow> sortBy (text_order rt e' col (sortDesc q)) ids)
                  in (length ids', e'\<lparr>order := Some ids'\<rparr>))
               else (length ids, e\<lparr>order := Some ids\<rparr>)))"

definition rows :: "int \<Rightarrow> int \<Rightarrow> TabularEngine \<Rightarrow> TabularRow list" where
  "rows start fin e =
     (let visible = (case order e of Some ids \<Rightarrow> length ids | None \<Rightarrow> body_count e);
          lo = nat (max 0 start); hi = nat (min (int visible) fin)
      in map (\<lambda>v. let body = (case order e of Some ids \<Rightarrow> ids ! v | None \<Rightarrow> v)
                  in \<lparr>row_n = body + 1, cells = pad (columns e) (record_at e body)\<rparr>) [lo..<hi])"

section \<open>The size cap\<close>

record HeapStats =
  limit :: nat
  used :: nat

definition MiB :: nat where "MiB = 1024 * 1024"
definition TABULAR_CEILING_BYTES :: nat where "TABULAR_CEILING_BYTES = 32 * MiB"
definition TABULAR_FLOOR_BYTES :: nat where "TABULAR_FLOOR_BYTES = 1 * MiB"
definition TABULAR_FALLBACK_BYTES :: nat where "TABULAR_FALLBACK_BYTES = 8 * MiB"

text \<open>A quarter of the headroom, over eight: a division by 32, exact in doubles.\<close>

definition tabularMaxBytes :: "HeapStats option \<Rightarrow> nat" where
  "tabularMaxBytes heap =
     (case heap of
        None \<Rightarrow> TABULAR_FALLBACK_BYTES
      | Some h \<Rightarrow>
          (let headroom = limit h - used h; raw = headroom div (4 * 8)
           in min TABULAR_CEILING_BYTES (max TABULAR_FLOOR_BYTES raw)))"

section \<open>Reading back a written table\<close>

text \<open>A written field says whether it is quoted; a written row how it ends.\<close>

type_synonym written = "bool \<times> units"

datatype line_end = EndLF | EndCRLF | EndCR

fun double_quotes :: "units \<Rightarrow> units" where
  "double_quotes [] = []"
| "double_quotes (c # s) = (if c = QUOTE then [QUOTE, QUOTE] else [c]) @ double_quotes s"

fun write_field :: "written \<Rightarrow> units" where
  "write_field (q, f) = (if q then [QUOTE] @ double_quotes f @ [QUOTE] else f)"

definition write_row :: "nat \<Rightarrow> written list \<Rightarrow> units" where
  "write_row D fs = joinWith [D] (map write_field fs)"

fun end_text :: "line_end \<Rightarrow> units" where
  "end_text EndLF = [LF]"
| "end_text EndCRLF = [CR, LF]"
| "end_text EndCR = [CR]"

definition write_table :: "nat \<Rightarrow> (written list \<times> line_end) list \<Rightarrow> written list option \<Rightarrow> units" where
  "write_table D ls final = concat (map (\<lambda>(fs, e). write_row D fs @ end_text e) ls)
     @ (case final of None \<Rightarrow> [] | Some fs \<Rightarrow> write_row D fs)"

text \<open>An unquoted field needs no quotes: no delimiter, no line break, no quote in front.\<close>

fun good_field :: "nat \<Rightarrow> written \<Rightarrow> bool" where
  "good_field D (q, f) \<longleftrightarrow> q \<or> (list_all (\<lambda>c. \<not> ends_field D c) f \<and> \<not> startsWith f [QUOTE])"

definition good_row :: "nat \<Rightarrow> written list \<Rightarrow> bool" where
  "good_row D fs \<longleftrightarrow> fs \<noteq> [] \<and> list_all (good_field D) fs"

definition field_end :: "nat \<Rightarrow> units \<Rightarrow> bool" where
  "field_end D r \<longleftrightarrow> r = [] \<or> ends_field D (hd r)"

lemma quoted_char: "c \<noteq> QUOTE \<Longrightarrow> quoted (c # s) = (c # fst (quoted s), snd (quoted s))"
  by (subst quoted.simps, subst (2 3) quoted.simps)
     (auto split: option.splits prod.splits)

lemma quoted_pair: "quoted (QUOTE # QUOTE # s) = (QUOTE # fst (quoted s), snd (quoted s))"
  by (subst quoted.simps) (simp split: prod.splits)

lemma quoted_close: "\<not> startsWith r [QUOTE] \<Longrightarrow> quoted (QUOTE # r) = ([], r)"
  by (subst quoted.simps) simp

lemma quoted_doubled: "\<not> startsWith r [QUOTE] \<Longrightarrow> quoted (double_quotes f @ QUOTE # r) = (f, r)"
  by (induction f) (simp_all add: quoted_close quoted_pair quoted_char)

lemma ends_not_quote: "D \<noteq> QUOTE \<Longrightarrow> field_end D r \<Longrightarrow> \<not> startsWith r [QUOTE]"
  by (cases r) (auto simp: field_end_def ends_field_def QUOTE_def LF_def CR_def)

lemma break_off: "field_end D r \<Longrightarrow> list_all (\<lambda>c. \<not> ends_field D c) f \<Longrightarrow>
    takeWhile (\<lambda>c. \<not> ends_field D c) (f @ r) = f \<and> dropWhile (\<lambda>c. \<not> ends_field D c) (f @ r) = r"
  by (induction f) (cases r; simp add: field_end_def)+

lemma field_written:
  assumes "D \<noteq> QUOTE" and "good_field D w" and "field_end D r"
  shows "field D (write_field w @ r) = (snd w, r)"
proof (cases w)
  case (Pair q f)
  note nq = ends_not_quote [OF assms(1,3)]
  show ?thesis
  proof (cases q)
    case True
    have "quoted (double_quotes f @ QUOTE # r) = (f, r)" by (rule quoted_doubled [OF nq])
    with True Pair break_off [OF assms(3), of "[]"] show ?thesis by (simp add: field_def)
  next
    case False
    with assms(2) Pair have f: "list_all (\<lambda>c. \<not> ends_field D c) f" "\<not> startsWith f [QUOTE]" by simp_all
    then have "\<not> startsWith (f @ r) [QUOTE]" using nq by (cases f) simp_all
    with False Pair break_off [OF assms(3) f(1)] show ?thesis by (simp add: field_def)
  qed
qed

lemma parse_row_more:
  "field D s = (f, D # r) \<Longrightarrow> r \<noteq> [] \<Longrightarrow> parse_row D s = (f # fst (parse_row D r), snd (parse_row D r))"
  by (subst parse_row.simps) (simp split: prod.splits)

lemma parse_row_last:
  assumes "field D s = (f, rest)" and "rest = [] \<or> hd rest \<noteq> D"
  shows "parse_row D s = ([f], case rest of [] \<Rightarrow> [] | c # r \<Rightarrow> if c = CR \<and> startsWith r [LF] then tl r else r)"
  using assms by (subst parse_row.simps) (auto split: list.splits)

lemma parse_row_written:
  assumes "D \<noteq> QUOTE" and "fs \<noteq> []" and "list_all (good_field D) fs" and "rest = [] \<or> hd rest = LF \<or> hd rest = CR"
    and "D \<noteq> LF" and "D \<noteq> CR"
  shows "parse_row D (write_row D fs @ rest) =
    (map snd fs, case rest of [] \<Rightarrow> [] | c # r \<Rightarrow> if c = CR \<and> startsWith r [LF] then tl r else r)"
  using assms(2,3)
proof (induction fs)
  case Nil
  then show ?case by simp
next
  case (Cons w fs)
  have rest: "field_end D rest" "rest = [] \<or> hd rest \<noteq> D" using assms by (auto simp: field_end_def ends_field_def)
  show ?case
  proof (cases fs)
    case Nil
    have "field D (write_field w @ rest) = (snd w, rest)"
      using Cons.prems rest by (intro field_written assms) simp_all
    from parse_row_last [OF this rest(2)] Nil show ?thesis by (simp add: write_row_def)
  next
    case (Cons w' fs')
    let ?r = "write_row D fs @ rest"
    have e: "write_row D (w # fs) @ rest = write_field w @ D # ?r" using Cons by (simp add: write_row_def)
    have f: "field D (write_field w @ D # ?r) = (snd w, D # ?r)"
      using Cons.prems by (intro field_written assms) (simp_all add: field_end_def ends_field_def)
    show ?thesis
    proof (cases "?r = []")
      case False
      from parse_row_more [OF f False] Cons.IH Cons.prems Cons show ?thesis unfolding e by simp
    next
      case True
      then have "fs' = []" "write_field w' = []" "rest = []"
        using Cons by (cases fs'; simp add: write_row_def)+
      with Cons f True show ?thesis
        by (subst e, subst parse_row.simps) (cases w'; simp split: if_splits)
    qed
  qed
qed

lemma parse_rows_LF: "D \<noteq> LF \<Longrightarrow> parse_rows D (LF # r) = parse_rows D r"
proof -
  assume D: "D \<noteq> LF"
  have f: "field D (LF # r) = ([], LF # r)" by (simp add: field_def ends_field_def LF_def QUOTE_def)
  have "parse_row D (LF # r) = ([[]], r)"
    using parse_row_last [OF f] D by (simp add: LF_def CR_def)
  then show ?thesis by (subst parse_rows.simps) simp
qed

definition keep_row :: "units list \<Rightarrow> units list list \<Rightarrow> units list list" where
  "keep_row row rs = (if row = [[]] then rs else row # rs)"

lemma parse_rows_written:
  assumes "D \<noteq> QUOTE" and "D \<noteq> LF" and "D \<noteq> CR" and "good_row D fs"
  shows "parse_rows D (write_row D fs @ end_text e @ r) = keep_row (map snd fs) (parse_rows D r)"
    and "parse_rows D (write_row D fs) = keep_row (map snd fs) []"
proof -
  have g: "fs \<noteq> []" "list_all (good_field D) fs" using assms(4) by (simp_all add: good_row_def)
  note row = parse_row_written [OF assms(1) g _ assms(2,3)]
  have "parse_row D (write_row D fs @ end_text e @ r) = (map snd fs,
      if e = EndCR \<and> startsWith r [LF] then tl r else r)"
    using row [of "end_text e @ r"] by (cases e) (simp_all add: LF_def CR_def)
  moreover have "parse_rows D (tl r) = parse_rows D r" if "startsWith r [LF]"
    using that parse_rows_LF [OF assms(2)] by (cases r) simp_all
  moreover have "end_text e \<noteq> []" by (cases e) simp_all
  ultimately show "parse_rows D (write_row D fs @ end_text e @ r) = keep_row (map snd fs) (parse_rows D r)"
    by (subst parse_rows.simps) (simp add: keep_row_def)
  have e: "parse_rows D [] = []" by (subst parse_rows.simps) simp
  have "map snd fs = [[]]" if "write_row D fs = []"
    using that g row [of "[]"] by (cases fs; cases "tl fs") (auto simp: write_row_def split: if_splits)
  with row [of "[]"] e show "parse_rows D (write_row D fs) = keep_row (map snd fs) []"
    by (cases "write_row D fs = []") (simp add: keep_row_def, subst parse_rows.simps, simp add: keep_row_def)
qed

text \<open>
  C30. Reading back a written table, for both delimiters: fields quoted or not as long as bare ones
  need no quotes, any mixture of line endings, with or without an ending on the last line, with
  or without a byte order mark. The parser, which ends on every text, returns the rows as
  written, without those that consist of one empty field.
\<close>

theorem parse_written:
  assumes "list_all (\<lambda>l. good_row (delimiter_code d) (fst l)) ls"
    and "case final of None \<Rightarrow> True | Some fs \<Rightarrow> good_row (delimiter_code d) fs"
    and "mark = [BOM] \<or> (mark = [] \<and> \<not> startsWith (write_table (delimiter_code d) ls final) [BOM])"
  shows "parseDelimited (mark @ write_table (delimiter_code d) ls final) d =
    filter (\<lambda>r. r \<noteq> [[]]) (map (map snd) (map fst ls @ (case final of None \<Rightarrow> [] | Some fs \<Rightarrow> [fs])))"
proof -
  let ?D = "delimiter_code d"
  have D: "?D \<noteq> QUOTE" "?D \<noteq> LF" "?D \<noteq> CR"
    by (cases d; simp add: delimiter_code_def QUOTE_def LF_def CR_def)+
  note row = parse_rows_written [OF D]
  have "parse_rows ?D (write_table ?D ls final) =
      filter (\<lambda>r. r \<noteq> [[]]) (map (map snd) (map fst ls @ (case final of None \<Rightarrow> [] | Some fs \<Rightarrow> [fs])))"
    using assms(1)
  proof (induction ls)
    case Nil
    have "parse_rows ?D [] = []" by (subst parse_rows.simps) simp
    with row(2) assms(2) show ?case by (cases final) (simp_all add: write_table_def keep_row_def)
  next
    case (Cons l ls)
    obtain fs e where l: "l = (fs, e)" by (cases l)
    have "write_table ?D (l # ls) final = write_row ?D fs @ end_text e @ write_table ?D ls final"
      by (simp add: write_table_def l)
    with Cons row(1) [of fs e "write_table ?D ls final"] show ?case by (simp add: l keep_row_def)
  qed
  with assms(3) show ?thesis by (auto simp: parseDelimited_def)
qed

section \<open>What a query shows\<close>

definition matches :: "runtime \<Rightarrow> TabularQuery \<Rightarrow> TabularEngine \<Rightarrow> nat \<Rightarrow> bool" where
  "matches rt q e r \<longleftrightarrow> needle_of rt q = [] \<or> hit rt (needle_of rt q) e r"

definition row_order :: "runtime \<Rightarrow> TabularQuery \<Rightarrow> TabularEngine \<Rightarrow> nat \<Rightarrow> nat \<Rightarrow> int" where
  "row_order rt q e a b =
     (if \<not> sorting q e then 0
      else (case column_keys rt e (nat (sortCol q)) of
          Some ks \<Rightarrow> numeric_order ks (sortDesc q) a b
        | None \<Rightarrow> text_order rt e (nat (sortCol q)) (sortDesc q) a b))"

definition blank :: "runtime \<Rightarrow> TabularQuery \<Rightarrow> TabularEngine \<Rightarrow> nat \<Rightarrow> bool" where
  "blank rt q e r \<longleftrightarrow> sorting q e \<and>
     (case column_keys rt e (nat (sortCol q)) of
        Some ks \<Rightarrow> ks ! r = None
      | None \<Rightarrow> cell e r (nat (sortCol q)) = [])"

definition shown :: "TabularEngine \<Rightarrow> nat list" where
  "shown e = (case order e of Some ids \<Rightarrow> ids | None \<Rightarrow> [0..<body_count e])"

definition engine_inv :: "runtime \<Rightarrow> TabularEngine \<Rightarrow> TabularEngine \<Rightarrow> bool" where
  "engine_inv rt b e \<longleftrightarrow> records e = records b \<and> columns e = columns b
     \<and> (\<forall>col v. map_of (numericCache e) col = Some v \<longrightarrow> v = column_keys rt b col)"

lemma comparator_numeric: "comparator (numeric_order ks desc)"
  unfolding comparator_def
  by (auto simp: numeric_order_def sign_dir_def split: option.splits if_splits)

lemma comparator_text:
  assumes "comparator (compare rt)"
  shows "comparator (text_order rt e col desc)"
proof -
  have c: "compare rt x y < 0 \<longleftrightarrow> 0 < compare rt y x" for x y using assms by (simp add: comparator_def)
  have tr: "compare rt x y \<le> 0 \<Longrightarrow> compare rt y z \<le> 0 \<Longrightarrow> compare rt x z \<le> 0" for x y z
    using assms unfolding comparator_def by blast
  have sw: "0 \<le> compare rt x y \<longleftrightarrow> compare rt y x \<le> 0" for x y
    unfolding linorder_not_less [symmetric] using c [of x y] by simp
  have tr': "0 \<le> compare rt x y \<Longrightarrow> 0 \<le> compare rt y z \<Longrightarrow> 0 \<le> compare rt x z" for x y z
    using tr [of z y x] by (simp add: sw)
  show ?thesis
    unfolding comparator_def
    by (auto simp: text_order_def sign_dir_def Let_def c intro: tr tr' split: if_splits)
qed

lemma comparator_row: "comparator (compare rt) \<Longrightarrow> comparator (row_order rt q e)"
proof -
  assume "comparator (compare rt)"
  moreover have "comparator (\<lambda>_ _. 0 :: int)" by (simp add: comparator_def)
  ultimately show ?thesis
    unfolding row_order_def
    by (cases "sorting q e"; cases "column_keys rt e (nat (sortCol q))")
       (simp_all add: comparator_numeric comparator_text)
qed

lemma same_records:
  assumes "records e = records b"
  shows "body_count e = body_count b" and "record_at e = record_at b" and "cell e = cell b"
    and "column_keys rt e = column_keys rt b" and "hit rt nd e = hit rt nd b" and "text_order rt e = text_order rt b"
proof -
  show 1: "body_count e = body_count b" "record_at e = record_at b"
    using assms by (simp_all add: body_count_def record_at_def fun_eq_iff)
  then show 2: "cell e = cell b" "hit rt nd e = hit rt nd b" by (simp_all add: cell_def hit_def fun_eq_iff)
  with 1 show "column_keys rt e = column_keys rt b" "text_order rt e = text_order rt b"
    by (simp_all add: column_keys_def text_order_def fun_eq_iff)
qed

lemma numericKeys_inv:
  assumes "engine_inv rt b e" and "numericKeys rt col e = (keys, e')"
  shows "keys = column_keys rt b col" and "engine_inv rt b e'"
proof -
  note r = same_records [of e b]
  have i: "records e = records b" using assms(1) by (simp add: engine_inv_def)
  show "keys = column_keys rt b col"
    using assms r(4) [OF i, of rt] by (auto simp: numericKeys_def engine_inv_def Let_def split: option.splits)
  show "engine_inv rt b e'"
    using assms r(4) [OF i, of rt]
    by (auto simp: numericKeys_def engine_inv_def Let_def omap_simps split: option.splits if_splits)
qed

lemma engine_inv_order: "engine_inv rt b (e\<lparr>order := x\<rparr>) = engine_inv rt b e"
  by (simp add: engine_inv_def)

definition matching :: "runtime \<Rightarrow> TabularQuery \<Rightarrow> TabularEngine \<Rightarrow> nat list" where
  "matching rt q b = filter (matches rt q b) [0..<body_count b]"

lemma matching_eq: "matching rt q b =
    (if needle_of rt q = [] then [0..<body_count b] else filter (hit rt (needle_of rt q) b) [0..<body_count b])"
  by (simp add: matching_def matches_def [abs_def])

lemma unsorted_order: "\<not> sorting q b \<Longrightarrow> sortBy (row_order rt q b) xs = xs"
  by (rule sortBy_sorted) (induction xs; simp add: row_order_def)

lemma query_unsorted:
  assumes "engine_inv rt b e" and "\<not> sorting q b"
  shows "query rt q e = (length (matching rt q b),
    e\<lparr>order := if needle_of rt q = [] then None else Some (matching rt q b)\<rparr>)"
proof -
  have i: "records e = records b" "columns e = columns b" using assms(1) by (simp_all add: engine_inv_def)
  have s: "sorting q e = sorting q b" by (simp add: sorting_def i)
  show ?thesis
    using assms(2) by (simp add: query_def s matching_eq same_records(1,5) [OF i(1)] Let_def)
qed

lemma query_sorted:
  assumes "engine_inv rt b e" and "sorting q b" and "numericKeys rt (nat (sortCol q)) e = (keys, e1)"
  shows "query rt q e = (let ids = sortBy (row_order rt q b) (matching rt q b) in (length ids, e1\<lparr>order := Some ids\<rparr>))"
proof -
  have i: "records e = records b" "columns e = columns b" using assms(1) by (simp_all add: engine_inv_def)
  have s: "sorting q e = sorting q b" by (simp add: sorting_def i)
  note key = numericKeys_inv [OF assms(1,3)]
  have t: "text_order rt e1 = text_order rt b" using key(2) same_records(6) [of e1 b rt] by (simp add: engine_inv_def)
  have o: "row_order rt q b = (case keys of Some ks \<Rightarrow> numeric_order ks (sortDesc q)
      | None \<Rightarrow> text_order rt b (nat (sortCol q)) (sortDesc q))"
    using assms(2) by (simp add: row_order_def [abs_def] key(1) split: option.splits)
  have ids: "(if needle_of rt q = [] then [0..<body_count e] else filter (hit rt (needle_of rt q) e) [0..<body_count e])
      = matching rt q b"
    by (simp add: matching_eq same_records(1,5) [OF i(1)])
  show ?thesis
    unfolding query_def Let_def ids assms(3) prod.case t o using assms(2) by (cases keys) (simp_all add: s)
qed

lemma query_spec:
  assumes "engine_inv rt b e" and "query rt q e = (n, e')"
  shows "engine_inv rt b e' \<and> shown e' = sortBy (row_order rt q b) (matching rt q b) \<and> n = length (shown e')"
proof (cases "sorting q b")
  case False
  have "body_count e = body_count b" using assms(1) same_records(1) [of e b] by (simp add: engine_inv_def)
  then have "shown e' = matching rt q b" "n = length (matching rt q b)" "engine_inv rt b e'"
    using assms query_unsorted [OF assms(1) False] engine_inv_order
    by (auto simp: shown_def matching_eq body_count_def)
  then show ?thesis by (simp add: unsorted_order False)
next
  case True
  obtain keys e1 where k: "numericKeys rt (nat (sortCol q)) e = (keys, e1)"
    by (cases "numericKeys rt (nat (sortCol q)) e")
  have e': "e' = e1\<lparr>order := Some (sortBy (row_order rt q b) (matching rt q b))\<rparr>"
    "n = length (sortBy (row_order rt q b) (matching rt q b))"
    using assms(2) query_sorted [OF assms(1) True k] by (simp_all add: Let_def)
  show ?thesis unfolding e' using numericKeys_inv(2) [OF assms(1) k] by (simp add: engine_inv_order shown_def)
qed

definition run_queries :: "runtime \<Rightarrow> TabularEngine \<Rightarrow> TabularQuery list \<Rightarrow> TabularEngine" where
  "run_queries rt e qs = foldl (\<lambda>e q. snd (query rt q e)) e qs"

lemma run_queries_inv: "engine_inv rt b e \<Longrightarrow> engine_inv rt b (run_queries rt e qs)"
  unfolding run_queries_def
proof (induction qs arbitrary: e)
  case Nil
  then show ?case by simp
next
  case (Cons q qs)
  from query_spec [OF Cons.prems, of q] have "engine_inv rt b (snd (query rt q e))" by (cases "query rt q e") simp
  with Cons.IH show ?case by simp
qed

lemma rows_all: "length (shown e) = n \<Longrightarrow> rows 0 (int n) e =
    map (\<lambda>r. \<lparr>row_n = r + 1, cells = pad (columns e) (record_at e r)\<rparr>) (shown e)"
  by (rule nth_equalityI) (auto simp: rows_def shown_def Let_def split: option.splits)

lemma widest: "r \<in> set (rs :: units list list) \<Longrightarrow> length r \<le> foldl (\<lambda>m r. if m < length r then length r else m) m rs"
proof -
  have step: "(\<lambda>m r. if m < length r then length r else m) = (\<lambda>m (r :: units list). max m (length r))"
    by (simp add: fun_eq_iff max_def)
  have le: "m \<le> foldl (\<lambda>m (r :: units list). max m (length r)) m rs" for m rs
    by (induction rs arbitrary: m) (simp, metis foldl_Cons max.boundedE)
  show "r \<in> set rs \<Longrightarrow> ?thesis" unfolding step
  proof (induction rs arbitrary: m)
    case Nil
    then show ?case by simp
  next
    case (Cons x rs)
    have "max m (length x) \<le> foldl (\<lambda>m r. max m (length r)) (max m (length x)) rs"
      using Cons le by simp
    with Cons show ?case by auto
  qed
qed

lemma columns_max: "r \<in> set (records (new_engine s d)) \<Longrightarrow> length r \<le> columns (new_engine s d)"
  using widest by (simp add: new_engine_def Let_def)

lemma those_nth: "those xs = Some ys \<Longrightarrow> i < length xs \<Longrightarrow> xs ! i = Some (ys ! i)"
proof (induction xs arbitrary: ys i)
  case Nil
  then show ?case by simp
next
  case (Cons x xs)
  then show ?case by (cases i) (auto split: option.splits)
qed

lemma blank_after:
  assumes "before (row_order rt q b) (<) x y" and "blank rt q b x"
  shows "blank rt q b y"
proof (cases "column_keys rt b (nat (sortCol q))")
  case None
  with assms show ?thesis
    by (auto simp: before_def blank_def row_order_def text_order_def Let_def split: if_splits)
next
  case (Some ks)
  with assms show ?thesis
    by (auto simp: before_def blank_def row_order_def numeric_order_def split: if_splits option.splits)
qed

lemma sorting_nonempty: "sorting q (new_engine s d) \<Longrightarrow> records (new_engine s d) \<noteq> []"
  by (auto simp: sorting_def new_engine_def Let_def)

text \<open>
  What a query shows does not depend on the queries before it: after any of them, the window
  over all rows lists each matching row once, in the order of the sort column with ties in file
  order, blank cells last in both directions, every row padded to the width of the table; the
  count is the number of those rows, the records are those of the parse, and a column is sorted
  only when there is one to read.
\<close>

theorem query_shows:
  assumes "comparator (compare rt)"
  shows "let b = new_engine s d; (n, e) = query rt q (run_queries rt b qs); ids = map row_n (rows 0 (int n) e) in
    distinct ids \<and> set ids = Suc ` {r. r < body_count b \<and> matches rt q b r} \<and> n = length ids
    \<and> sorted_wrt (before (row_order rt q b) (<)) (map (\<lambda>i. i - 1) ids)
    \<and> sorted_wrt (\<lambda>i j. blank rt q b i \<le> blank rt q b j) (map (\<lambda>i. i - 1) ids)
    \<and> list_all (\<lambda>w. cells w = pad (columns b) (record_at b (row_n w - 1)) \<and> length (cells w) = columns b) (rows 0 (int n) e)
    \<and> records e = parseDelimited s d \<and> (sorting q b \<le> (records b \<noteq> []))"
proof -
  let ?b = "new_engine s d"
  obtain n e where q: "query rt q (run_queries rt ?b qs) = (n, e)" by (cases "query rt q (run_queries rt ?b qs)")
  have "engine_inv rt ?b ?b" by (simp add: engine_inv_def new_engine_def Let_def)
  from query_spec [OF run_queries_inv [OF this] q]
  have e: "engine_inv rt ?b e" "shown e = sortBy (row_order rt q ?b) (matching rt q ?b)" "n = length (shown e)" by blast+
  have i: "records e = records ?b" "columns e = columns ?b" using e(1) by (simp_all add: engine_inv_def)
  have rs: "rows 0 (int n) e = map (\<lambda>r. \<lparr>row_n = r + 1, cells = pad (columns ?b) (record_at ?b r)\<rparr>) (shown e)"
    using rows_all [of e n] e(3) same_records(2) [OF i(1)] i(2) by simp
  have ids: "map row_n (rows 0 (int n) e) = map Suc (shown e)" by (simp add: rs)
  have unsuc: "map (\<lambda>i. i - 1) (map Suc xs) = xs" for xs by (induction xs) simp_all
  have ord: "sorted_wrt (before (row_order rt q ?b) (<)) (shown e)"
    unfolding e(2) by (rule before_sortBy [OF comparator_row [OF assms]]) (simp add: matching_def sorted_wrt_filter)
  have bl: "sorted_wrt (\<lambda>i j. blank rt q ?b i \<le> blank rt q ?b j) (shown e)"
    using ord by (rule sorted_wrt_mono_rel [rotated]) (use blank_after in \<open>simp add: le_bool_def; blast\<close>)
  have dist: "distinct (map Suc (shown e))"
    unfolding e(2) distinct_map_sortBy by (simp add: matching_def distinct_map)
  have members: "set (map Suc (shown e)) = Suc ` {r. r < body_count ?b \<and> matches rt q ?b r}"
    unfolding e(2) by (auto simp: matching_def)
  have width: "length (record_at ?b r) \<le> columns ?b" for r
    unfolding record_at_def by (auto intro: columns_max)
  have cells: "list_all (\<lambda>w. cells w = pad (columns ?b) (record_at ?b (row_n w - 1)) \<and> length (cells w) = columns ?b) (rows 0 (int n) e)"
    unfolding rs using width by (auto simp: list_all_iff pad_def)
  have recs: "records e = parseDelimited s d" using i(1) by (simp add: new_engine_def Let_def)
  have ne: "sorting q ?b \<le> (records ?b \<noteq> [])" using sorting_nonempty [of q s d] by simp
  show ?thesis
    unfolding Let_def q prod.case ids unsuc
    using dist members ord bl cells recs ne e(3) by (simp only: length_map simp_thms)
qed

text \<open>
  The size cap stays between one and 32 MiB for every heap, is eight MiB when the heap is
  unknown, and never shrinks when the headroom grows.
\<close>

theorem cap_bounds:
  "1048576 \<le> tabularMaxBytes heap \<and> tabularMaxBytes heap \<le> 33554432 \<and> tabularMaxBytes None = 8388608
   \<and> tabularMaxBytes (Some \<lparr>limit = l, used = u\<rparr>) \<le> tabularMaxBytes (Some \<lparr>limit = l + a, used = u - b\<rparr>)"
proof -
  have "(l - u) div 32 \<le> (l + a - (u - b)) div 32" by (intro div_le_mono) simp
  then have "min 33554432 (max 1048576 ((l - u) div 32)) \<le> min 33554432 (max 1048576 ((l + a - (u - b)) div 32))"
    by (intro min.mono max.mono) simp_all
  moreover have some: "tabularMaxBytes (Some h) = min 33554432 (max 1048576 ((limit h - used h) div 32))" for h
    by (simp add: tabularMaxBytes_def TABULAR_CEILING_BYTES_def TABULAR_FLOOR_BYTES_def MiB_def Let_def)
  ultimately have "tabularMaxBytes (Some \<lparr>limit = l, used = u\<rparr>) \<le> tabularMaxBytes (Some \<lparr>limit = l + a, used = u - b\<rparr>)"
    unfolding some HeapStats.simps by blast
  moreover have none: "tabularMaxBytes None = 8388608"
    by (simp add: tabularMaxBytes_def TABULAR_FALLBACK_BYTES_def MiB_def)
  moreover have "1048576 \<le> tabularMaxBytes heap" "tabularMaxBytes heap \<le> 33554432"
    using none some by (cases heap; simp only: min.bounded_iff min.cobounded1 max.cobounded1; simp)+
  ultimately show ?thesis by blast
qed

text \<open>The column of a table sorted downwards, under a header.\<close>

definition sample_runtime :: runtime where
  "sample_runtime = \<lparr>toLower = id, toNumber = (\<lambda>u. if u = [57] then Some 9 else if u = [49, 48] then Some 10 else None),
     compare = (\<lambda>_ _. 0)\<rparr>"

definition sample_table :: units where
  "sample_table = [104, 10, 57, 10, 34, 34, 44, 120, 10, 49, 48]"

theorem query_shows_witness:
  "(let q = \<lparr>sortCol = 0, sortDesc = True, filterText = []\<rparr>;
        (n, e) = query sample_runtime q (run_queries sample_runtime (new_engine sample_table Comma) [q])
    in distinct (map row_n (rows 0 (int n) e)) \<and> records e = parseDelimited sample_table Comma)"
proof -
  have "comparator (compare sample_runtime)" by (simp add: sample_runtime_def comparator_def)
  from query_shows [OF this] show ?thesis by (simp add: Let_def case_prod_beta)
qed

theorem parse_written_witness:
  "parseDelimited ([BOM] @ write_table 44 [([(False, [104]), (True, [34])], EndCRLF)] (Some [(False, []), (False, [])])) Comma
    = [[[104], [34]], [[], []]]"
proof -
  have "list_all (\<lambda>l. good_row (delimiter_code Comma) (fst l)) [([(False, [104]), (True, [34])], EndCRLF)]"
    "case Some [(False, []), (False, [])] of None \<Rightarrow> True | Some fs \<Rightarrow> good_row (delimiter_code Comma) fs"
    by (simp_all add: good_row_def ends_field_def delimiter_code_def LF_def CR_def QUOTE_def)
  from parse_written [OF this, of "[BOM]"] show ?thesis by (simp add: delimiter_code_def)
qed

end
