(* ===== verification/MuxTerminal.thy ===== *)
theory MuxTerminal
  imports JsText
begin

text \<open>
  The remote terminal manager, \<open>electron/main/providers/remote/muxTerminal.ts\<close>: one terminal per
  key over the request protocol of the cockpit mux daemon, re-attached after the bridge
  reconnects.

  A terminal object is a cell of a heap, because the code compares objects by identity; the three
  maps of the manager hold references. An asynchronous function is cut at its awaits: each
  continuation is a constructor of \<open>task\<close>, pending until the answer to its request
  arrives. The answers are the daemon's, given by the events of a run. The log records what the
  manager asks, emits and returns, and marks where it takes a sequence number over from the
  daemon (\<open>SequenceSet\<close>).
\<close>

section \<open>The protocol\<close>

datatype error =
    PaneNotFound
  | SessionNotFound
  | PaneReadOnly
  | AttachedElsewhere
  | WasClosed
  | OtherError

definition isRecoveredExitedPane :: "error \<Rightarrow> bool" where
  "isRecoveredExitedPane e \<longleftrightarrow> e = PaneReadOnly"

definition isSessionNotFoundError :: "error \<Rightarrow> bool" where
  "isSessionNotFoundError e \<longleftrightarrow> e = SessionNotFound"

definition isMissingMuxPaneError :: "error \<Rightarrow> bool" where
  "isMissingMuxPaneError e \<longleftrightarrow> e = PaneNotFound \<or> e = SessionNotFound"

record ListedSession =
  ls_session :: string
  ls_pane :: string
  ls_key :: string
  ls_exited :: bool

datatype RawTopologyLayoutNode =
  RawNode (raw_pane: "string option") (raw_direction: "string option") (raw_ratio: "int option")
    (raw_first: "RawTopologyLayoutNode option") (raw_second: "RawTopologyLayoutNode option")

record TopologyPane =
  tp_session :: string
  tp_pane :: string
  tp_key :: string
  tp_exited :: bool
  tp_size :: "nat \<times> nat"
  tp_actual :: "nat option \<times> nat option"

record TopologyWindow =
  tw_window :: string
  tw_panes :: "TopologyPane list option"
  tw_active :: "string option"
  tw_zoomed :: "string option"
  tw_layout :: "RawTopologyLayoutNode option"

record TopologySession =
  ts_session :: string
  ts_order :: "string list option"
  ts_windows :: "TopologyWindow list option"
  ts_active :: "string option"

record TopologyResponse =
  tr_epoch :: "string option"
  tr_revision :: "nat option"
  tr_active :: "string option"
  tr_sessions :: "TopologySession list option"

datatype MuxTopologyLayoutNode =
  LayoutNode (l_pane: "string option") (l_direction: "string option") (l_ratio: "int option")
    (l_first: "MuxTopologyLayoutNode option") (l_second: "MuxTopologyLayoutNode option")

record PaneSnapshot =
  ps_session :: string
  ps_pane :: string
  ps_key :: string
  ps_exited :: bool
  ps_size :: "nat \<times> nat"
  ps_actual :: "nat \<times> nat"

record WindowSnapshot =
  ws_window :: string
  ws_active :: "string option"
  ws_zoomed :: "string option"
  ws_layout :: "MuxTopologyLayoutNode option"
  ws_panes :: "PaneSnapshot list"

record SessionSnapshot =
  ss_session :: string
  ss_order :: "string list"
  ss_active :: "string option"
  ss_windows :: "WindowSnapshot list"

record MuxTopologySnapshot =
  m_epoch :: string
  m_revision :: nat
  m_active :: "string option"
  m_sessions :: "SessionSnapshot list"

definition orElse :: "'a option \<Rightarrow> 'a \<Rightarrow> 'a" where
  "orElse x d = (case x of None \<Rightarrow> d | Some y \<Rightarrow> y)"

primrec layout_node :: "RawTopologyLayoutNode \<Rightarrow> MuxTopologyLayoutNode" where
  "layout_node (RawNode p d r a b) = LayoutNode p d r (map_option layout_node a) (map_option layout_node b)"

definition topologyLayout :: "RawTopologyLayoutNode option \<Rightarrow> MuxTopologyLayoutNode option" where
  "topologyLayout node = map_option layout_node node"

definition pane_snapshot :: "TopologyPane \<Rightarrow> PaneSnapshot" where
  "pane_snapshot p = \<lparr>ps_session = tp_session p, ps_pane = tp_pane p, ps_key = tp_key p, ps_exited = tp_exited p,
     ps_size = tp_size p, ps_actual = (orElse (fst (tp_actual p)) (fst (tp_size p)), orElse (snd (tp_actual p)) (snd (tp_size p)))\<rparr>"

definition window_snapshot :: "TopologyWindow \<Rightarrow> WindowSnapshot" where
  "window_snapshot w = \<lparr>ws_window = tw_window w, ws_active = tw_active w, ws_zoomed = tw_zoomed w,
     ws_layout = topologyLayout (tw_layout w), ws_panes = map pane_snapshot (orElse (tw_panes w) [])\<rparr>"

definition session_snapshot :: "TopologySession \<Rightarrow> SessionSnapshot" where
  "session_snapshot s = \<lparr>ss_session = ts_session s,
     ss_order = orElse (ts_order s) (map tw_window (orElse (ts_windows s) [])),
     ss_active = ts_active s, ss_windows = map window_snapshot (orElse (ts_windows s) [])\<rparr>"

definition topologySnapshot :: "TopologyResponse \<Rightarrow> MuxTopologySnapshot" where
  "topologySnapshot r = \<lparr>m_epoch = orElse (tr_epoch r) ''legacy'', m_revision = orElse (tr_revision r) 0,
     m_active = tr_active r, m_sessions = map session_snapshot (orElse (tr_sessions r) [])\<rparr>"

definition surviving :: "MuxTopologySnapshot \<Rightarrow> string list" where
  "surviving t = concat (map (\<lambda>s. concat (map (\<lambda>w. map ps_session (ws_panes w)) (ss_windows s))) (m_sessions t))"

type_synonym MuxSelection = "string \<times> string \<times> string"

definition activeMuxSelection :: "TopologyResponse \<Rightarrow> MuxSelection option" where
  "activeMuxSelection r =
     (case find (\<lambda>s. Some (ts_session s) = tr_active r) (orElse (tr_sessions r) []) of
        None \<Rightarrow> None
      | Some s \<Rightarrow>
          (case find (\<lambda>w. Some (tw_window w) = ts_active s) (orElse (ts_windows s) []) of
             None \<Rightarrow> None
           | Some w \<Rightarrow> map_option (\<lambda>p. (ts_session s, tw_window w, tp_pane p))
               (find (\<lambda>p. Some (tp_pane p) = tw_active w) (orElse (tw_panes w) []))))"

datatype mux_request =
    ConnOpen
  | Configure
  | ListSessions
  | Topology
  | CreateSession string string
  | PaneSelect MuxSelection
  | PaneSplit string string string
  | WindowNew string string
  | AttachSession string "nat \<times> nat"
  | ScrollbackQuery string
  | PaneOutput string nat
  | PaneWrite string string
  | PaneResize string "nat \<times> nat"
  | DestroySession string
  | DetachSession string
  | DestroyWindow string string
  | MuxShutdown

datatype answer =
    Done
  | Failed error
  | Sessions "ListedSession list"
  | Created string string
  | Attached "string option" "string option" "nat option"
  | Outputs "(nat \<times> string) list" bool
  | History string
  | TopologyAnswer TopologyResponse

section \<open>Terminals and the manager\<close>

text \<open>
  What a terminal emits: output chunks with the sequence number the daemon gave them, the seeds of
  an attachment, history, and the manager's own notices.
\<close>

datatype payload = Chunk nat string | Seed string | HistoryData string | Notice string

text \<open>An exit without a code, with code zero, and the report of a daemon crash.\<close>

datatype exit_info = ExitNull | ExitZero | DaemonCrash

record open_req =
  o_call :: nat
  o_create :: "bool option"
  o_run :: bool
  o_hydrate :: bool

text \<open>A link of the resize lane: its generation, its geometry and the call that waits for it.\<close>

type_synonym resize_link = "nat \<times> (nat \<times> nat) \<times> nat"

record mux_term =
  t_id :: string
  t_session :: string
  t_pane :: string
  t_cwd :: string
  t_size :: "nat \<times> nat"
  t_lane :: "resize_link list"
  t_resizing :: bool
  t_resizeGeneration :: nat
  t_next :: nat
  t_handlers :: "nat list"
  t_exitHandlers :: "nat list"
  t_buffered :: "payload list"
  t_pollTimer :: "nat option"
  t_finalizing :: bool
  t_finalTimer :: "nat option"
  t_pollGen :: nat
  t_closed :: bool
  t_recovered :: bool
  t_waiting :: bool
  t_stolen :: bool
  t_waiters :: "nat list"

text \<open>The code compares detached entries by identity; \<open>d_stamp\<close> tells two entries apart.\<close>

record detached_pane =
  d_stamp :: nat
  d_session :: string
  d_pane :: string
  d_next :: nat
  d_recovered :: bool

text \<open>What follows an attachment.\<close>

datatype kont =
    KOpen open_req
  | KReopen nat
  | KReattach bool "nat option"
  | KCreated nat

datatype create_at = AtSplit string | AtWindow

datatype task =
    COpenConn nat open_req
  | COpenConf nat open_req
  | COpenList nat open_req
  | COpenTopo nat open_req
  | COpenCreate nat open_req "MuxSelection option"
  | COpenSelect nat open_req
  | CReopenConn nat bool nat
  | CReopenConf nat bool nat
  | CAttach nat bool kont
  | CHistory nat "string option" "string option" kont
  | CSplitConn nat string create_at nat
  | CSplitConf nat string create_at nat
  | CSplitCreated nat string nat
  | CWrite nat nat
  | CResize nat nat
  | CPoll nat nat nat
  | CFinalConn nat
  | CFinalDestroy nat
  | CCloseConn string bool "nat option"
  | CCloseList string bool "nat option"
  | CCloseDetached string "nat option"
  | CCloseDestroy nat bool "nat option"
  | CCloseDetach "nat option"
  | CReconf "nat list"
  | CInventory "nat list"
  | CWinConn string string nat
  | CWinDestroy "(string \<times> nat) list" "(string \<times> detached_pane) list" "nat list" nat
  | CSesConn string nat
  | CSesDestroy "nat list" "string list" "nat list" nat
  | CScrollConn string "nat option" nat
  | CScrollConf string nat
  | CScrollList string nat
  | CScroll nat
  | CListConn nat
  | CListConf nat
  | CListed nat
  | CShutConn nat
  | CShutdown nat

datatype timer = TPoll nat nat | TFinal nat

datatype mux_out =
    Ask mux_request
  | Emit nat payload
  | Deliver nat nat payload
  | Exit nat exit_info
  | SequenceSet nat
  | ResizeCalled nat "nat \<times> nat"
  | Returned nat
  | Keys nat "string list"
  | Threw nat error

record mux_mgr =
  objs :: "nat \<Rightarrow> mux_term"
  nextRef :: nat
  terminals :: "(string \<times> nat) list"
  detached :: "(string \<times> detached_pane) list"
  retired :: "string list"
  tasks :: "(nat \<times> task) list"
  timers :: "(nat \<times> timer) list"
  nextTask :: nat
  mux_log :: "mux_out list"

subsection \<open>Small steps\<close>

definition upd :: "nat \<Rightarrow> (mux_term \<Rightarrow> mux_term) \<Rightarrow> mux_mgr \<Rightarrow> mux_mgr" where
  "upd r f s = s\<lparr>objs := (objs s)(r := f (objs s r))\<rparr>"

definition log_out :: "mux_out \<Rightarrow> mux_mgr \<Rightarrow> mux_mgr" where
  "log_out out s = s\<lparr>mux_log := mux_log s @ [out]\<rparr>"

text \<open>Send a request and wait for its answer.\<close>

definition ask :: "mux_request \<Rightarrow> task \<Rightarrow> mux_mgr \<Rightarrow> mux_mgr" where
  "ask req k s = s\<lparr>tasks := tasks s @ [(nextTask s, k)], nextTask := nextTask s + 1, mux_log := mux_log s @ [Ask req]\<rparr>"

definition holds :: "nat \<Rightarrow> mux_mgr \<Rightarrow> bool" where
  "holds r s \<longleftrightarrow> map_of (terminals s) (t_id (objs s r)) = Some r"

definition retire :: "string \<Rightarrow> mux_mgr \<Rightarrow> mux_mgr" where
  "retire key s = s\<lparr>retired := oset_add key (retired s)\<rparr>"

definition drop_terminal :: "string \<Rightarrow> mux_mgr \<Rightarrow> mux_mgr" where
  "drop_terminal key s = s\<lparr>terminals := omap_del key (terminals s)\<rparr>"

definition drop_detached :: "string \<Rightarrow> mux_mgr \<Rightarrow> mux_mgr" where
  "drop_detached key s = s\<lparr>detached := omap_del key (detached s)\<rparr>"

definition emitData :: "nat \<Rightarrow> payload \<Rightarrow> mux_mgr \<Rightarrow> mux_mgr" where
  "emitData r p s =
     (let s' = log_out (Emit r p) s; hs = t_handlers (objs s r)
      in if hs = [] then upd r (\<lambda>t. t\<lparr>t_buffered := t_buffered t @ [p]\<rparr>) s'
         else s'\<lparr>mux_log := mux_log s' @ map (\<lambda>h. Deliver r h p) hs\<rparr>)"

text \<open>The exit handlers registered at that moment all hear the entry.\<close>

definition emitExit :: "nat \<Rightarrow> exit_info \<Rightarrow> mux_mgr \<Rightarrow> mux_mgr" where
  "emitExit r info s = log_out (Exit r info) s"

definition clear_timer :: "nat option \<Rightarrow> mux_mgr \<Rightarrow> mux_mgr" where
  "clear_timer i s = (case i of None \<Rightarrow> s | Some i \<Rightarrow> s\<lparr>timers := omap_del i (timers s)\<rparr>)"

definition stopPolling :: "nat \<Rightarrow> mux_mgr \<Rightarrow> mux_mgr" where
  "stopPolling r s =
     upd r (\<lambda>t. t\<lparr>t_pollTimer := None, t_pollGen := t_pollGen t + 1\<rparr>) (clear_timer (t_pollTimer (objs s r)) s)"

definition canPoll :: "nat \<Rightarrow> mux_mgr \<Rightarrow> bool" where
  "canPoll r s \<longleftrightarrow> (let t = objs s r in t_session t \<noteq> [] \<and> t_pane t \<noteq> [] \<and> \<not> t_closed t \<and> \<not> t_recovered t
     \<and> \<not> t_waiting t \<and> \<not> t_stolen t)"

definition poll :: "nat \<Rightarrow> nat \<Rightarrow> mux_mgr \<Rightarrow> mux_mgr" where
  "poll r gen s =
     (let t = objs s r
      in if t_closed t \<or> t_pollGen t \<noteq> gen then s
         else ask (PaneOutput (t_pane t) (t_next t)) (CPoll r gen (t_next t)) s)"

definition startPolling :: "nat \<Rightarrow> mux_mgr \<Rightarrow> mux_mgr" where
  "startPolling r s =
     (if \<not> canPoll r s then s
      else (let s' = stopPolling r s in poll r (t_pollGen (objs s' r)) s'))"

definition pauseForReconnect :: "nat \<Rightarrow> mux_mgr \<Rightarrow> mux_mgr" where
  "pauseForReconnect r s =
     (if t_closed (objs s r) then s else stopPolling r (upd r (\<lambda>t. t\<lparr>t_waiting := True\<rparr>) s))"

text \<open>Close a terminal for good: its key is retired and it leaves both maps.\<close>

definition forget :: "nat \<Rightarrow> mux_mgr \<Rightarrow> mux_mgr" where
  "forget r s =
     (let key = t_id (objs s r)
      in drop_detached key (drop_terminal key (retire key (upd r (\<lambda>t. t\<lparr>t_closed := True\<rparr>) s))))"

definition clear_final :: "nat \<Rightarrow> mux_mgr \<Rightarrow> mux_mgr" where
  "clear_final r s =
     upd r (\<lambda>t. t\<lparr>t_finalTimer := None, t_finalizing := False\<rparr>) (clear_timer (t_finalTimer (objs s r)) s)"

definition completeExited :: "nat \<Rightarrow> mux_mgr \<Rightarrow> mux_mgr" where
  "completeExited r s =
     (if t_closed (objs s r) \<or> \<not> holds r s then s
      else emitExit r ExitNull (forget r (stopPolling r (clear_final r s))))"

definition abandonExitFinalization :: "nat \<Rightarrow> mux_mgr \<Rightarrow> mux_mgr" where
  "abandonExitFinalization r s = forget r (stopPolling r (clear_final r s))"

definition handleRequestFailure :: "nat \<Rightarrow> error \<Rightarrow> mux_mgr \<Rightarrow> mux_mgr" where
  "handleRequestFailure r e s =
     (if isMissingMuxPaneError e then completeExited r s
      else if isRecoveredExitedPane e \<and> \<not> t_recovered (objs s r) then startPolling r s
      else if e = AttachedElsewhere then
        emitData r (Notice ''attached from another terminal'')
          (stopPolling r (upd r (\<lambda>t. t\<lparr>t_stolen := True, t_waiting := True\<rparr>) s))
      else pauseForReconnect r s)"

definition reportRecoveredDaemonExit :: "nat \<Rightarrow> mux_mgr \<Rightarrow> mux_mgr" where
  "reportRecoveredDaemonExit r s =
     emitExit r DaemonCrash
       (emitData r (Notice ''exited while Cockpit mux recovered from a daemon crash'')
         (stopPolling r (upd r (\<lambda>t. t\<lparr>t_waiting := False\<rparr>) s)))"

definition finalize_ask :: "nat \<Rightarrow> mux_mgr \<Rightarrow> mux_mgr" where
  "finalize_ask r s = ask ConnOpen (CFinalConn r) s"

definition finalizeExited :: "nat \<Rightarrow> mux_mgr \<Rightarrow> mux_mgr" where
  "finalizeExited r s =
     (if t_closed (objs s r) \<or> t_finalizing (objs s r) then s
      else finalize_ask r (stopPolling r (upd r (\<lambda>t. t\<lparr>t_finalizing := True\<rparr>) s)))"

text \<open>The setTimeout of a poll or of a finalization.\<close>

definition arm :: "timer \<Rightarrow> (nat option \<Rightarrow> mux_term \<Rightarrow> mux_term) \<Rightarrow> nat \<Rightarrow> mux_mgr \<Rightarrow> mux_mgr" where
  "arm tm set_field r s =
     (let i = nextTask s
      in upd r (set_field (Some i)) (s\<lparr>timers := timers s @ [(i, tm)], nextTask := i + 1\<rparr>))"

definition attach :: "nat \<Rightarrow> bool \<Rightarrow> kont \<Rightarrow> mux_mgr \<Rightarrow> mux_mgr" where
  "attach r hydrate k s =
     (let s' = stopPolling r s; t = objs s' r
      in ask (AttachSession (t_session t) (t_size t)) (CAttach r hydrate k) s')"

definition ret :: "nat option \<Rightarrow> mux_mgr \<Rightarrow> mux_mgr" where
  "ret call s = (case call of None \<Rightarrow> s | Some c \<Rightarrow> log_out (Returned c) s)"

definition raise :: "nat option \<Rightarrow> error \<Rightarrow> mux_mgr \<Rightarrow> mux_mgr" where
  "raise call e s = (case call of None \<Rightarrow> s | Some c \<Rightarrow> log_out (Threw c e) s)"

definition reattach :: "nat \<Rightarrow> bool \<Rightarrow> nat option \<Rightarrow> mux_mgr \<Rightarrow> mux_mgr" where
  "reattach r crashed call s =
     (if t_closed (objs s r) \<or> t_stolen (objs s r) then ret call s
      else attach r False (KReattach crashed call) s)"

subsection \<open>Opening\<close>

definition new_term :: "string \<Rightarrow> string \<Rightarrow> nat \<times> nat \<Rightarrow> mux_term" where
  "new_term key dir sz = \<lparr>t_id = key, t_session = [], t_pane = [], t_cwd = dir, t_size = sz, t_lane = [],
     t_resizing = False, t_resizeGeneration = 0, t_next = 1, t_handlers = [], t_exitHandlers = [], t_buffered = [],
     t_pollTimer = None, t_finalizing = False, t_finalTimer = None, t_pollGen = 0, t_closed = False,
     t_recovered = False, t_waiting = False, t_stolen = False, t_waiters = []\<rparr>"

definition publish :: "mux_term \<Rightarrow> mux_mgr \<Rightarrow> mux_mgr" where
  "publish t s = s\<lparr>objs := (objs s)(nextRef s := t), nextRef := nextRef s + 1,
     terminals := omap_set (t_id t) (nextRef s) (terminals s)\<rparr>"

definition detach_entry :: "string \<Rightarrow> string \<Rightarrow> string \<Rightarrow> nat \<Rightarrow> bool \<Rightarrow> mux_mgr \<Rightarrow> mux_mgr" where
  "detach_entry key sid pid n rec s =
     s\<lparr>detached := omap_set key \<lparr>d_stamp = nextTask s, d_session = sid, d_pane = pid, d_next = n, d_recovered = rec\<rparr> (detached s),
       nextTask := nextTask s + 1\<rparr>"

definition hydrateDetached :: "ListedSession list \<Rightarrow> mux_mgr \<Rightarrow> mux_mgr" where
  "hydrateDetached ls s = foldl (\<lambda>s l. if ls_key l = [] then s
     else detach_entry (ls_key l) (ls_session l) (ls_pane l) 1 (ls_exited l) s) s ls"

definition opening_ok :: "nat \<Rightarrow> mux_mgr \<Rightarrow> bool" where
  "opening_ok r s \<longleftrightarrow> \<not> t_closed (objs s r) \<and> holds r s"

definition settleOpening :: "nat \<Rightarrow> bool \<Rightarrow> mux_mgr \<Rightarrow> mux_mgr" where
  "settleOpening r ok s =
     foldl (\<lambda>s c. if ok \<and> opening_ok r s then log_out (Returned c) s else log_out (Threw c OtherError) s)
       (upd r (\<lambda>t. t\<lparr>t_waiters := []\<rparr>) s) (t_waiters (objs s r))"

definition fail_open :: "nat \<Rightarrow> open_req \<Rightarrow> error \<Rightarrow> mux_mgr \<Rightarrow> mux_mgr" where
  "fail_open r q e s =
     (let s' = settleOpening r False s
      in log_out (Threw (o_call q) e) (if holds r s' then drop_terminal (t_id (objs s' r)) s' else s'))"

definition open_term :: "string \<Rightarrow> string \<Rightarrow> nat \<times> nat \<Rightarrow> open_req \<Rightarrow> mux_mgr \<Rightarrow> mux_mgr" where
  "open_term key dir sz q s =
     (if key \<in> set (retired s) \<and> o_create q \<noteq> Some True then log_out (Threw (o_call q) WasClosed) s
      else
        (let s = s\<lparr>retired := removeAll key (retired s)\<rparr>
         in case map_of (terminals s) key of
              Some r \<Rightarrow>
                if t_finalizing (objs s r) then log_out (Returned (o_call q)) s
                else if t_session (objs s r) = [] then upd r (\<lambda>t. t\<lparr>t_waiters := t_waiters t @ [o_call q]\<rparr>) s
                else ask ConnOpen (CReopenConn r (o_hydrate q) (o_call q)) (upd r (\<lambda>t. t\<lparr>t_size := sz\<rparr>) s)
            | None \<Rightarrow> ask ConnOpen (COpenConn (nextRef s) q) (publish (new_term key dir sz) s)))"

definition attach_opened :: "nat \<Rightarrow> open_req \<Rightarrow> mux_mgr \<Rightarrow> mux_mgr" where
  "attach_opened r q s =
     (if opening_ok r s then attach r (o_hydrate q) (KOpen q) s else fail_open r q WasClosed s)"

definition create_step :: "nat \<Rightarrow> open_req \<Rightarrow> MuxSelection option \<Rightarrow> mux_mgr \<Rightarrow> mux_mgr" where
  "create_step r q sel s =
     (if o_create q = Some False then fail_open r q OtherError s
      else ask (CreateSession (t_id (objs s r)) (t_cwd (objs s r))) (COpenCreate r q sel) s)"

definition on_open_conn :: "nat \<Rightarrow> open_req \<Rightarrow> answer \<Rightarrow> mux_mgr \<Rightarrow> mux_mgr" where
  "on_open_conn r q a s =
     (case a of
        Failed e \<Rightarrow> fail_open r q e s
      | _ \<Rightarrow> if opening_ok r s then ask Configure (COpenConf r q) s else fail_open r q WasClosed s)"

definition on_open_conf :: "nat \<Rightarrow> open_req \<Rightarrow> answer \<Rightarrow> mux_mgr \<Rightarrow> mux_mgr" where
  "on_open_conf r q a s =
     (case a of
        Failed e \<Rightarrow> fail_open r q e s
      | _ \<Rightarrow> if opening_ok r s then ask ListSessions (COpenList r q) s else fail_open r q WasClosed s)"

definition on_open_list :: "nat \<Rightarrow> open_req \<Rightarrow> answer \<Rightarrow> mux_mgr \<Rightarrow> mux_mgr" where
  "on_open_list r q a s =
     (case a of
        Sessions ls \<Rightarrow>
          (let s = hydrateDetached ls s
           in if \<not> opening_ok r s then fail_open r q WasClosed s
              else (case map_of (detached s) (t_id (objs s r)) of
                  Some d \<Rightarrow> attach_opened r q (log_out (SequenceSet r) (upd r (\<lambda>t. t\<lparr>t_session := d_session d,
                      t_pane := d_pane d, t_next := d_next d, t_recovered := d_recovered d\<rparr>) s))
                | None \<Rightarrow> if o_run q then ask Topology (COpenTopo r q) s else create_step r q None s))
      | Failed e \<Rightarrow> fail_open r q e s
      | _ \<Rightarrow> s)"

definition on_open_topo :: "nat \<Rightarrow> open_req \<Rightarrow> answer \<Rightarrow> mux_mgr \<Rightarrow> mux_mgr" where
  "on_open_topo r q a s =
     (case a of
        TopologyAnswer resp \<Rightarrow> create_step r q (activeMuxSelection resp) s
      | Failed e \<Rightarrow> fail_open r q e s
      | _ \<Rightarrow> s)"

definition on_open_create :: "nat \<Rightarrow> open_req \<Rightarrow> MuxSelection option \<Rightarrow> answer \<Rightarrow> mux_mgr \<Rightarrow> mux_mgr" where
  "on_open_create r q sel a s =
     (case a of
        Created sid pid \<Rightarrow>
          (let s = upd r (\<lambda>t. t\<lparr>t_session := sid, t_pane := pid\<rparr>) s
           in case sel of
                Some x \<Rightarrow> ask (PaneSelect x) (COpenSelect r q) s
              | None \<Rightarrow> attach_opened r q s)
      | Failed e \<Rightarrow> fail_open r q e s
      | _ \<Rightarrow> s)"

definition on_open_select :: "nat \<Rightarrow> open_req \<Rightarrow> answer \<Rightarrow> mux_mgr \<Rightarrow> mux_mgr" where
  "on_open_select r q a s = (case a of Failed e \<Rightarrow> fail_open r q e s | _ \<Rightarrow> attach_opened r q s)"

definition on_reopen_conn :: "nat \<Rightarrow> bool \<Rightarrow> nat \<Rightarrow> answer \<Rightarrow> mux_mgr \<Rightarrow> mux_mgr" where
  "on_reopen_conn r hyd c a s =
     (case a of Failed e \<Rightarrow> log_out (Threw c e) s | _ \<Rightarrow> ask Configure (CReopenConf r hyd c) s)"

definition on_reopen_conf :: "nat \<Rightarrow> bool \<Rightarrow> nat \<Rightarrow> answer \<Rightarrow> mux_mgr \<Rightarrow> mux_mgr" where
  "on_reopen_conf r hyd c a s =
     (case a of Failed e \<Rightarrow> log_out (Threw c e) s | _ \<Rightarrow> attach r hyd (KReopen c) s)"

subsection \<open>Attaching\<close>

definition attach_done :: "nat \<Rightarrow> kont \<Rightarrow> mux_mgr \<Rightarrow> mux_mgr" where
  "attach_done r k s =
     (case k of
        KOpen q \<Rightarrow> if opening_ok r s then log_out (Returned (o_call q)) (settleOpening r True s)
          else fail_open r q WasClosed s
      | KReopen c \<Rightarrow> log_out (Returned c) s
      | KReattach crashed c \<Rightarrow>
          ret c (if crashed \<and> \<not> t_closed (objs s r) then reportRecoveredDaemonExit r s else s)
      | KCreated c \<Rightarrow> log_out (Returned c) s)"

definition attach_failed :: "nat \<Rightarrow> kont \<Rightarrow> error \<Rightarrow> mux_mgr \<Rightarrow> mux_mgr" where
  "attach_failed r k e s =
     (case k of
        KOpen q \<Rightarrow> fail_open r q e s
      | KReopen c \<Rightarrow> log_out (Threw c e) s
      | KReattach crashed c \<Rightarrow>
          ret c (if isRecoveredExitedPane e then reportRecoveredDaemonExit r s else handleRequestFailure r e s)
      | KCreated c \<Rightarrow>
          if \<not> holds r s \<or> t_closed (objs s r) then log_out (Threw c e) s
          else reattach r False (Some c) (pauseForReconnect r s))"

definition emit_seed :: "nat \<Rightarrow> string option \<Rightarrow> mux_mgr \<Rightarrow> mux_mgr" where
  "emit_seed r seed s = (case seed of None \<Rightarrow> s | Some d \<Rightarrow> if d = [] then s else emitData r (Seed d) s)"

definition attach_rest :: "nat \<Rightarrow> string option \<Rightarrow> string option \<Rightarrow> kont \<Rightarrow> mux_mgr \<Rightarrow> mux_mgr" where
  "attach_rest r seed graphics k s =
     (let s = emit_seed r graphics (emit_seed r seed s)
      in attach_done r k (if t_recovered (objs s r) then s else startPolling r s))"

definition on_attach :: "nat \<Rightarrow> bool \<Rightarrow> kont \<Rightarrow> answer \<Rightarrow> mux_mgr \<Rightarrow> mux_mgr" where
  "on_attach r hyd k a s =
     (case a of
        Attached seed graphics resume \<Rightarrow>
          (let s = log_out (SequenceSet r) (upd r (\<lambda>t. t\<lparr>t_waiting := False, t_next := orElse resume (t_next t)\<rparr>) s)
           in if hyd then ask (ScrollbackQuery (t_pane (objs s r))) (CHistory r seed graphics k) s
              else attach_rest r seed graphics k s)
      | Failed e \<Rightarrow> attach_failed r k e s
      | _ \<Rightarrow> s)"

definition on_history :: "nat \<Rightarrow> string option \<Rightarrow> string option \<Rightarrow> kont \<Rightarrow> answer \<Rightarrow> mux_mgr \<Rightarrow> mux_mgr" where
  "on_history r seed graphics k a s =
     (case a of
        History h \<Rightarrow> attach_rest r seed graphics k (if h = [] then s else emitData r (HistoryData h) s)
      | Failed e \<Rightarrow> attach_rest r seed graphics k s
      | _ \<Rightarrow> s)"

subsection \<open>Reconnecting\<close>

definition live_refs :: "mux_mgr \<Rightarrow> nat list" where
  "live_refs s = filter (\<lambda>r. \<not> t_closed (objs s r)) (map snd (terminals s))"

definition established :: "mux_mgr \<Rightarrow> nat list" where
  "established s = filter (\<lambda>r. t_session (objs s r) \<noteq> []) (live_refs s)"

definition reconfigureAndReattach :: "mux_mgr \<Rightarrow> mux_mgr" where
  "reconfigureAndReattach s =
     (if established s = [] then s else ask Configure (CReconf (established s)) s)"

definition on_reconf :: "nat list \<Rightarrow> answer \<Rightarrow> mux_mgr \<Rightarrow> mux_mgr" where
  "on_reconf rs a s = (case a of Failed e \<Rightarrow> s | _ \<Rightarrow> ask ListSessions (CInventory rs) s)"

definition reattach_one :: "ListedSession list \<Rightarrow> mux_mgr \<Rightarrow> nat \<Rightarrow> mux_mgr" where
  "reattach_one ls s r =
     (let prev = t_session (objs s r)
      in case find (\<lambda>l. ls_pane l = t_pane (objs s r)) (rev ls) of
           None \<Rightarrow> reattach r False None s
         | Some l \<Rightarrow>
             reattach r (ls_exited l \<and> ls_session l \<noteq> prev) None
               (detach_entry (t_id (objs s r)) (ls_session l) (ls_pane l) (t_next (objs s r)) (ls_exited l)
                 (upd r (\<lambda>t. t\<lparr>t_session := ls_session l, t_pane := ls_pane l, t_recovered := ls_exited l\<rparr>) s)))"

definition on_inventory :: "nat list \<Rightarrow> answer \<Rightarrow> mux_mgr \<Rightarrow> mux_mgr" where
  "on_inventory rs a s =
     (case a of
        Sessions ls \<Rightarrow> foldl (reattach_one ls) s rs
      | Failed e \<Rightarrow> foldl (reattach_one []) s rs
      | _ \<Rightarrow> s)"

definition stolen_one :: "string \<Rightarrow> mux_mgr \<Rightarrow> nat \<Rightarrow> mux_mgr" where
  "stolen_one sid s r =
     (if t_session (objs s r) \<noteq> sid \<or> t_closed (objs s r) then s
      else emitData r (Notice ''attached from another client'')
        (stopPolling r (upd r (\<lambda>t. t\<lparr>t_stolen := True, t_waiting := True\<rparr>) s)))"

definition on_stolen :: "string \<Rightarrow> mux_mgr \<Rightarrow> mux_mgr" where
  "on_stolen sid s = foldl (stolen_one sid) s (map snd (terminals s))"

subsection \<open>Output, exit and input\<close>

definition take_output :: "nat \<Rightarrow> mux_mgr \<Rightarrow> nat \<times> string \<Rightarrow> mux_mgr" where
  "take_output r s out =
     emitData r (Chunk (fst out) (snd out)) (upd r (\<lambda>t. t\<lparr>t_next := max (t_next t) (fst out + 1)\<rparr>) s)"

definition poll_again :: "nat \<Rightarrow> nat \<Rightarrow> mux_mgr \<Rightarrow> mux_mgr" where
  "poll_again r gen s =
     (let t = objs s r
      in if \<not> t_closed t \<and> \<not> t_finalizing t \<and> \<not> t_waiting t \<and> t_pollGen t = gen
         then arm (TPoll r gen) (\<lambda>i t. t\<lparr>t_pollTimer := i\<rparr>) r s else s)"

definition poll_live :: "nat \<Rightarrow> nat \<Rightarrow> mux_mgr \<Rightarrow> bool" where
  "poll_live r gen s \<longleftrightarrow> \<not> t_closed (objs s r) \<and> t_pollGen (objs s r) = gen"

definition on_poll :: "nat \<Rightarrow> nat \<Rightarrow> answer \<Rightarrow> mux_mgr \<Rightarrow> mux_mgr" where
  "on_poll r gen a s =
     (case a of
        Outputs outs exited \<Rightarrow>
          if \<not> poll_live r gen s then poll_again r gen s
          else (let s = foldl (take_output r) s outs
                in poll_again r gen (if exited \<and> outs = [] then finalizeExited r s else s))
      | Failed e \<Rightarrow> poll_again r gen (if poll_live r gen s then handleRequestFailure r e s else s)
      | _ \<Rightarrow> s)"

definition final_failed :: "nat \<Rightarrow> error \<Rightarrow> mux_mgr \<Rightarrow> mux_mgr" where
  "final_failed r e s =
     (if isSessionNotFoundError e then completeExited r s
      else if \<not> t_closed (objs s r) \<and> holds r s then arm (TFinal r) (\<lambda>i t. t\<lparr>t_finalTimer := i\<rparr>) r s
      else s)"

definition on_final_conn :: "nat \<Rightarrow> answer \<Rightarrow> mux_mgr \<Rightarrow> mux_mgr" where
  "on_final_conn r a s =
     (case a of Failed e \<Rightarrow> final_failed r e s
      | _ \<Rightarrow> ask (DestroySession (t_session (objs s r))) (CFinalDestroy r) s)"

definition on_final_destroy :: "nat \<Rightarrow> answer \<Rightarrow> mux_mgr \<Rightarrow> mux_mgr" where
  "on_final_destroy r a s = (case a of Failed e \<Rightarrow> final_failed r e s | _ \<Rightarrow> completeExited r s)"

definition on_timer :: "timer \<Rightarrow> mux_mgr \<Rightarrow> mux_mgr" where
  "on_timer tm s = (case tm of TPoll r gen \<Rightarrow> poll r gen s | TFinal r \<Rightarrow> finalize_ask r s)"

definition on_data :: "string \<Rightarrow> nat \<Rightarrow> mux_mgr \<Rightarrow> mux_mgr" where
  "on_data key h s =
     (case map_of (terminals s) key of
        None \<Rightarrow> s
      | Some r \<Rightarrow>
          (let s' = upd r (\<lambda>t. t\<lparr>t_handlers := oset_add h (t_handlers t), t_buffered := []\<rparr>) s
           in s'\<lparr>mux_log := mux_log s' @ map (Deliver r h) (t_buffered (objs s r))\<rparr>))"

definition off_data :: "nat \<Rightarrow> nat \<Rightarrow> mux_mgr \<Rightarrow> mux_mgr" where
  "off_data r h s = upd r (\<lambda>t. t\<lparr>t_handlers := removeAll h (t_handlers t)\<rparr>) s"

definition on_exit :: "string \<Rightarrow> nat \<Rightarrow> mux_mgr \<Rightarrow> mux_mgr" where
  "on_exit key h s =
     (case map_of (terminals s) key of
        None \<Rightarrow> s
      | Some r \<Rightarrow> upd r (\<lambda>t. t\<lparr>t_exitHandlers := oset_add h (t_exitHandlers t)\<rparr>) s)"

definition off_exit :: "nat \<Rightarrow> nat \<Rightarrow> mux_mgr \<Rightarrow> mux_mgr" where
  "off_exit r h s = upd r (\<lambda>t. t\<lparr>t_exitHandlers := removeAll h (t_exitHandlers t)\<rparr>) s"

definition write_term :: "string \<Rightarrow> string \<Rightarrow> nat \<Rightarrow> mux_mgr \<Rightarrow> mux_mgr" where
  "write_term key data c s =
     (case map_of (terminals s) key of
        None \<Rightarrow> log_out (Threw c OtherError) s
      | Some r \<Rightarrow> ask (PaneWrite (t_pane (objs s r)) data) (CWrite r c) s)"

definition on_write :: "nat \<Rightarrow> nat \<Rightarrow> answer \<Rightarrow> mux_mgr \<Rightarrow> mux_mgr" where
  "on_write r c a s =
     (case a of Failed e \<Rightarrow> log_out (Threw c e) (handleRequestFailure r e s) | _ \<Rightarrow> log_out (Returned c) s)"

definition resize_term :: "string \<Rightarrow> nat \<times> nat \<Rightarrow> nat \<Rightarrow> mux_mgr \<Rightarrow> mux_mgr" where
  "resize_term key sz c s =
     (case map_of (terminals s) key of
        None \<Rightarrow> log_out (Threw c OtherError) s
      | Some r \<Rightarrow> log_out (ResizeCalled r sz)
          (upd r (\<lambda>t. t\<lparr>t_size := sz, t_resizeGeneration := t_resizeGeneration t + 1,
            t_lane := t_lane t @ [(t_resizeGeneration t + 1, sz, c)]\<rparr>) s))"

text \<open>The turn of the first link of the lane, once the link before it has settled.\<close>

definition lane_turn :: "nat \<Rightarrow> mux_mgr \<Rightarrow> mux_mgr" where
  "lane_turn r s =
     (let t = objs s r
      in if t_resizing t then s
         else (case t_lane t of
             [] \<Rightarrow> s
           | (gen, sz, c) # rest \<Rightarrow>
               if t_closed t \<or> gen \<noteq> t_resizeGeneration t
               then log_out (Returned c) (upd r (\<lambda>t. t\<lparr>t_lane := rest\<rparr>) s)
               else ask (PaneResize (t_pane t) sz) (CResize r c) (upd r (\<lambda>t. t\<lparr>t_lane := rest, t_resizing := True\<rparr>) s)))"

definition on_resize :: "nat \<Rightarrow> nat \<Rightarrow> answer \<Rightarrow> mux_mgr \<Rightarrow> mux_mgr" where
  "on_resize r c a s =
     (let s = upd r (\<lambda>t. t\<lparr>t_resizing := False\<rparr>) s
      in case a of Failed e \<Rightarrow> log_out (Threw c e) (handleRequestFailure r e s) | _ \<Rightarrow> log_out (Returned c) s)"

subsection \<open>Splitting\<close>

definition split_term :: "string \<Rightarrow> string \<Rightarrow> create_at \<Rightarrow> nat \<Rightarrow> mux_mgr \<Rightarrow> mux_mgr" where
  "split_term src key at c s =
     (case map_of (terminals s) src of
        None \<Rightarrow> log_out (Threw c OtherError) s
      | Some r \<Rightarrow> if key \<in> fst ` set (terminals s) then log_out (Threw c OtherError) s
          else ask ConnOpen (CSplitConn r key at c) s)"

definition on_split_conn :: "nat \<Rightarrow> string \<Rightarrow> create_at \<Rightarrow> nat \<Rightarrow> answer \<Rightarrow> mux_mgr \<Rightarrow> mux_mgr" where
  "on_split_conn r key at c a s =
     (case a of Failed e \<Rightarrow> log_out (Threw c e) s | _ \<Rightarrow> ask Configure (CSplitConf r key at c) s)"

definition on_split_conf :: "nat \<Rightarrow> string \<Rightarrow> create_at \<Rightarrow> nat \<Rightarrow> answer \<Rightarrow> mux_mgr \<Rightarrow> mux_mgr" where
  "on_split_conf r key at c a s =
     (case a of
        Failed e \<Rightarrow> log_out (Threw c e) s
      | _ \<Rightarrow> ask (case at of AtSplit dir \<Rightarrow> PaneSplit (t_pane (objs s r)) key dir
               | AtWindow \<Rightarrow> WindowNew (t_session (objs s r)) key) (CSplitCreated r key c) s)"

definition attachCreated :: "nat \<Rightarrow> string \<Rightarrow> string \<Rightarrow> string \<Rightarrow> nat \<Rightarrow> mux_mgr \<Rightarrow> mux_mgr" where
  "attachCreated src key sid pid c s =
     (let t = (new_term key (t_cwd (objs s src)) (t_size (objs s src)))\<lparr>t_session := sid, t_pane := pid\<rparr>
      in attach (nextRef s) False (KCreated c) (publish t s))"

definition on_split_created :: "nat \<Rightarrow> string \<Rightarrow> nat \<Rightarrow> answer \<Rightarrow> mux_mgr \<Rightarrow> mux_mgr" where
  "on_split_created src key c a s =
     (case a of
        Created sid pid \<Rightarrow> attachCreated src key sid pid c s
      | Failed e \<Rightarrow> log_out (Threw c e) s
      | _ \<Rightarrow> s)"

subsection \<open>Closing\<close>

definition shut :: "nat \<Rightarrow> mux_mgr \<Rightarrow> mux_mgr" where
  "shut r s = drop_terminal (t_id (objs s r)) (stopPolling r (upd r (\<lambda>t. t\<lparr>t_closed := True\<rparr>) s))"

definition close_detached :: "string \<Rightarrow> bool \<Rightarrow> nat option \<Rightarrow> mux_mgr \<Rightarrow> mux_mgr" where
  "close_detached key kill c s =
     (case map_of (detached s) key of
        Some d \<Rightarrow> if kill then ask (DestroySession (d_session d)) (CCloseDetached key c) s else ret c s
      | None \<Rightarrow> ret c s)"

definition close_missing :: "string \<Rightarrow> bool \<Rightarrow> nat option \<Rightarrow> mux_mgr \<Rightarrow> mux_mgr" where
  "close_missing key kill c s =
     (if key \<notin> fst ` set (detached s) then ask ConnOpen (CCloseConn key kill c) s
      else close_detached key kill c s)"

definition close_term :: "string \<Rightarrow> bool \<Rightarrow> nat option \<Rightarrow> mux_mgr \<Rightarrow> mux_mgr" where
  "close_term key kill c s =
     (case map_of (terminals s) key of
        None \<Rightarrow> close_missing key kill c s
      | Some r \<Rightarrow>
          (let t = objs s r
           in if t_finalizing t then ret c s
              else if t_session t = [] \<and> kill then close_missing key kill c (retire key (shut r s))
              else if t_session t = [] then ret c (shut r s)
              else if \<not> kill then
                ask (DetachSession (t_session t)) (CCloseDetach c)
                  (detach_entry key (t_session t) (t_pane t) (t_next t) (t_recovered t) (shut r s))
              else ask (DestroySession (t_session t)) (CCloseDestroy r (canPoll r s) c) (stopPolling r s)))"

definition on_close_conn :: "string \<Rightarrow> bool \<Rightarrow> nat option \<Rightarrow> answer \<Rightarrow> mux_mgr \<Rightarrow> mux_mgr" where
  "on_close_conn key kill c a s =
     (case a of Failed e \<Rightarrow> raise c e s | _ \<Rightarrow> ask ListSessions (CCloseList key kill c) s)"

definition on_close_list :: "string \<Rightarrow> bool \<Rightarrow> nat option \<Rightarrow> answer \<Rightarrow> mux_mgr \<Rightarrow> mux_mgr" where
  "on_close_list key kill c a s =
     (case a of
        Sessions ls \<Rightarrow> close_detached key kill c (hydrateDetached ls s)
      | Failed e \<Rightarrow> raise c e s
      | _ \<Rightarrow> s)"

definition on_close_detached :: "string \<Rightarrow> nat option \<Rightarrow> answer \<Rightarrow> mux_mgr \<Rightarrow> mux_mgr" where
  "on_close_detached key c a s =
     (case a of Failed e \<Rightarrow> raise c e s | _ \<Rightarrow> ret c (drop_detached key (retire key s)))"

definition resume_one :: "mux_mgr \<Rightarrow> nat \<Rightarrow> mux_mgr" where
  "resume_one s r = (if holds r s \<and> \<not> t_closed (objs s r) then startPolling r s else s)"

definition on_close_destroy :: "nat \<Rightarrow> bool \<Rightarrow> nat option \<Rightarrow> answer \<Rightarrow> mux_mgr \<Rightarrow> mux_mgr" where
  "on_close_destroy r resume c a s =
     (case a of
        Failed e \<Rightarrow> raise c e (if resume then resume_one s r else s)
      | _ \<Rightarrow> ret c (emitExit r ExitZero (forget r s)))"

definition on_close_detach :: "nat option \<Rightarrow> answer \<Rightarrow> mux_mgr \<Rightarrow> mux_mgr" where
  "on_close_detach c a s = ret c s"

definition stop_all :: "nat list \<Rightarrow> mux_mgr \<Rightarrow> mux_mgr" where
  "stop_all rs s = foldl (\<lambda>s r. stopPolling r s) s rs"

definition on_win_conn :: "string \<Rightarrow> string \<Rightarrow> nat \<Rightarrow> answer \<Rightarrow> mux_mgr \<Rightarrow> mux_mgr" where
  "on_win_conn sid wid c a s =
     (case a of
        Failed e \<Rightarrow> log_out (Threw c e) s
      | _ \<Rightarrow>
          (let est = filter (\<lambda>(key, r). \<not> t_closed (objs s r) \<and> t_session (objs s r) \<noteq> []) (terminals s)
           in ask (DestroyWindow sid wid)
                (CWinDestroy est (detached s) (filter (\<lambda>r. canPoll r s) (live_refs s)) c)
                (stop_all (live_refs s) s)))"

definition settle_window :: "string list \<Rightarrow> nat list \<Rightarrow> mux_mgr \<Rightarrow> string \<times> nat \<Rightarrow> mux_mgr" where
  "settle_window surv resume s e =
     (let (key, r) = e
      in if map_of (terminals s) key \<noteq> Some r then s
         else if t_session (objs s r) \<in> set surv then (if r \<in> set resume then startPolling r s else s)
         else drop_detached key (drop_terminal key (stopPolling r (upd r (\<lambda>t. t\<lparr>t_closed := True\<rparr>) (retire key s)))))"

definition settle_detached :: "string list \<Rightarrow> mux_mgr \<Rightarrow> string \<times> detached_pane \<Rightarrow> mux_mgr" where
  "settle_detached surv s e =
     (let (key, d) = e
      in if map_of (detached s) key \<noteq> Some d then s
         else if d_session d \<in> set surv then s else drop_detached key (retire key s))"

definition on_win_destroy ::
  "(string \<times> nat) list \<Rightarrow> (string \<times> detached_pane) list \<Rightarrow> nat list \<Rightarrow> nat \<Rightarrow> answer \<Rightarrow> mux_mgr \<Rightarrow> mux_mgr" where
  "on_win_destroy est det resume c a s =
     (case a of
        TopologyAnswer resp \<Rightarrow>
          (let surv = surviving (topologySnapshot resp)
           in log_out (Returned c) (foldl (settle_detached surv) (foldl (settle_window surv resume) s est) det))
      | Failed e \<Rightarrow> log_out (Threw c e) (foldl resume_one s resume)
      | _ \<Rightarrow> s)"

definition on_ses_conn :: "string \<Rightarrow> nat \<Rightarrow> answer \<Rightarrow> mux_mgr \<Rightarrow> mux_mgr" where
  "on_ses_conn sid c a s =
     (case a of
        Failed e \<Rightarrow> log_out (Threw c e) s
      | _ \<Rightarrow>
          (let live = filter (\<lambda>r. t_session (objs s r) = sid) (map snd (terminals s));
               keys = map fst (filter (\<lambda>(key, d). d_session d = sid) (detached s))
           in ask (DestroySession sid) (CSesDestroy live keys (filter (\<lambda>r. canPoll r s) live) c) (stop_all live s)))"

definition end_one :: "mux_mgr \<Rightarrow> nat \<Rightarrow> mux_mgr" where
  "end_one s r = (if \<not> holds r s then s else emitExit r ExitZero (forget r (stopPolling r s)))"

definition on_ses_destroy :: "nat list \<Rightarrow> string list \<Rightarrow> nat list \<Rightarrow> nat \<Rightarrow> answer \<Rightarrow> mux_mgr \<Rightarrow> mux_mgr" where
  "on_ses_destroy live keys resume c a s =
     (case a of
        Failed e \<Rightarrow> log_out (Threw c e) (foldl resume_one s resume)
      | _ \<Rightarrow> log_out (Returned c) (foldl (\<lambda>s key. drop_detached key (retire key s)) (foldl end_one s live) keys))"

definition close_all_one :: "mux_mgr \<Rightarrow> nat \<Rightarrow> mux_mgr" where
  "close_all_one s r =
     (if t_finalizing (objs s r) then abandonExitFinalization r s else close_term (t_id (objs s r)) False None s)"

definition closeAll :: "mux_mgr \<Rightarrow> mux_mgr" where
  "closeAll s = foldl close_all_one s (map snd (terminals s))"

definition on_shutdown :: "nat \<Rightarrow> answer \<Rightarrow> mux_mgr \<Rightarrow> mux_mgr" where
  "on_shutdown c a s =
     (case a of
        Failed e \<Rightarrow> log_out (Threw c e) s
      | _ \<Rightarrow> log_out (Returned c) ((closeAll s)\<lparr>detached := []\<rparr>))"

subsection \<open>Inventory and scrollback\<close>

definition on_list_conn :: "nat \<Rightarrow> answer \<Rightarrow> mux_mgr \<Rightarrow> mux_mgr" where
  "on_list_conn c a s = (case a of Failed e \<Rightarrow> log_out (Threw c e) s | _ \<Rightarrow> ask Configure (CListConf c) s)"

definition on_list_conf :: "nat \<Rightarrow> answer \<Rightarrow> mux_mgr \<Rightarrow> mux_mgr" where
  "on_list_conf c a s = (case a of Failed e \<Rightarrow> log_out (Threw c e) s | _ \<Rightarrow> ask ListSessions (CListed c) s)"

definition on_listed :: "nat \<Rightarrow> answer \<Rightarrow> mux_mgr \<Rightarrow> mux_mgr" where
  "on_listed c a s =
     (case a of
        Sessions ls \<Rightarrow>
          (let s = hydrateDetached ls s
           in log_out (Keys c (filter (\<lambda>k. k \<noteq> ''run'')
                (foldl (\<lambda>ks k. oset_add k ks) [] (map fst (detached s) @ map fst (terminals s))))) s)
      | Failed e \<Rightarrow> log_out (Threw c e) s
      | _ \<Rightarrow> s)"

definition scrollback :: "string \<Rightarrow> nat \<Rightarrow> mux_mgr \<Rightarrow> mux_mgr" where
  "scrollback key c s =
     ask ConnOpen (CScrollConn key (map_of (terminals s) key) c) s"

definition on_scroll_conn :: "string \<Rightarrow> nat option \<Rightarrow> nat \<Rightarrow> answer \<Rightarrow> mux_mgr \<Rightarrow> mux_mgr" where
  "on_scroll_conn key r c a s =
     (case a of
        Failed e \<Rightarrow> log_out (Threw c e) s
      | _ \<Rightarrow> (case r of
            Some r \<Rightarrow> ask (ScrollbackQuery (t_pane (objs s r))) (CScroll c) s
          | None \<Rightarrow> ask Configure (CScrollConf key c) s))"

definition on_scroll_conf :: "string \<Rightarrow> nat \<Rightarrow> answer \<Rightarrow> mux_mgr \<Rightarrow> mux_mgr" where
  "on_scroll_conf key c a s =
     (case a of Failed e \<Rightarrow> log_out (Threw c e) s | _ \<Rightarrow> ask ListSessions (CScrollList key c) s)"

definition on_scroll_list :: "string \<Rightarrow> nat \<Rightarrow> answer \<Rightarrow> mux_mgr \<Rightarrow> mux_mgr" where
  "on_scroll_list key c a s =
     (case a of
        Sessions ls \<Rightarrow>
          (let s = hydrateDetached ls s
           in case map_of (detached s) key of
                None \<Rightarrow> log_out (Returned c) s
              | Some d \<Rightarrow> ask (ScrollbackQuery (d_pane d)) (CScroll c) s)
      | Failed e \<Rightarrow> log_out (Threw c e) s
      | _ \<Rightarrow> s)"

definition on_call_end :: "nat \<Rightarrow> answer \<Rightarrow> mux_mgr \<Rightarrow> mux_mgr" where
  "on_call_end c a s = (case a of Failed e \<Rightarrow> log_out (Threw c e) s | _ \<Rightarrow> log_out (Returned c) s)"

subsection \<open>Runs\<close>

definition continue_task :: "task \<Rightarrow> answer \<Rightarrow> mux_mgr \<Rightarrow> mux_mgr" where
  "continue_task k a s =
     (case k of
        COpenConn r q \<Rightarrow> on_open_conn r q a s
      | COpenConf r q \<Rightarrow> on_open_conf r q a s
      | COpenList r q \<Rightarrow> on_open_list r q a s
      | COpenTopo r q \<Rightarrow> on_open_topo r q a s
      | COpenCreate r q sel \<Rightarrow> on_open_create r q sel a s
      | COpenSelect r q \<Rightarrow> on_open_select r q a s
      | CReopenConn r h c \<Rightarrow> on_reopen_conn r h c a s
      | CReopenConf r h c \<Rightarrow> on_reopen_conf r h c a s
      | CAttach r h k' \<Rightarrow> on_attach r h k' a s
      | CHistory r sd g k' \<Rightarrow> on_history r sd g k' a s
      | CSplitConn r key at c \<Rightarrow> on_split_conn r key at c a s
      | CSplitConf r key at c \<Rightarrow> on_split_conf r key at c a s
      | CSplitCreated r key c \<Rightarrow> on_split_created r key c a s
      | CWrite r c \<Rightarrow> on_write r c a s
      | CResize r c \<Rightarrow> on_resize r c a s
      | CPoll r g n \<Rightarrow> on_poll r g a s
      | CFinalConn r \<Rightarrow> on_final_conn r a s
      | CFinalDestroy r \<Rightarrow> on_final_destroy r a s
      | CCloseConn key kill c \<Rightarrow> on_close_conn key kill c a s
      | CCloseList key kill c \<Rightarrow> on_close_list key kill c a s
      | CCloseDetached key c \<Rightarrow> on_close_detached key c a s
      | CCloseDestroy r resume c \<Rightarrow> on_close_destroy r resume c a s
      | CCloseDetach c \<Rightarrow> on_close_detach c a s
      | CReconf rs \<Rightarrow> on_reconf rs a s
      | CInventory rs \<Rightarrow> on_inventory rs a s
      | CWinConn sid wid c \<Rightarrow> on_win_conn sid wid c a s
      | CWinDestroy est det resume c \<Rightarrow> on_win_destroy est det resume c a s
      | CSesConn sid c \<Rightarrow> on_ses_conn sid c a s
      | CSesDestroy live keys resume c \<Rightarrow> on_ses_destroy live keys resume c a s
      | CScrollConn key r c \<Rightarrow> on_scroll_conn key r c a s
      | CScrollConf key c \<Rightarrow> on_scroll_conf key c a s
      | CScrollList key c \<Rightarrow> on_scroll_list key c a s
      | CScroll c \<Rightarrow> on_call_end c a s
      | CListConn c \<Rightarrow> on_list_conn c a s
      | CListConf c \<Rightarrow> on_list_conf c a s
      | CListed c \<Rightarrow> on_listed c a s
      | CShutConn c \<Rightarrow> (case a of Failed e \<Rightarrow> log_out (Threw c e) s | _ \<Rightarrow> ask MuxShutdown (CShutdown c) s)
      | CShutdown c \<Rightarrow> on_shutdown c a s)"

text \<open>
  The shape an answer must have for a task to go on; the bridge always lets a request fail.
\<close>

definition fits :: "task \<Rightarrow> answer \<Rightarrow> bool" where
  "fits k a =
     (case a of
        Failed e \<Rightarrow> True
      | _ \<Rightarrow>
        (case k of
           COpenList r q \<Rightarrow> (case a of Sessions ls \<Rightarrow> True | _ \<Rightarrow> False)
         | CCloseList key kill c \<Rightarrow> (case a of Sessions ls \<Rightarrow> True | _ \<Rightarrow> False)
         | CInventory rs \<Rightarrow> (case a of Sessions ls \<Rightarrow> True | _ \<Rightarrow> False)
         | CScrollList key c \<Rightarrow> (case a of Sessions ls \<Rightarrow> True | _ \<Rightarrow> False)
         | CListed c \<Rightarrow> (case a of Sessions ls \<Rightarrow> True | _ \<Rightarrow> False)
         | COpenTopo r q \<Rightarrow> (case a of TopologyAnswer t \<Rightarrow> True | _ \<Rightarrow> False)
         | CWinDestroy est det resume c \<Rightarrow> (case a of TopologyAnswer t \<Rightarrow> True | _ \<Rightarrow> False)
         | COpenCreate r q sel \<Rightarrow> (case a of Created sid pid \<Rightarrow> True | _ \<Rightarrow> False)
         | CSplitCreated r key c \<Rightarrow> (case a of Created sid pid \<Rightarrow> True | _ \<Rightarrow> False)
         | CAttach r h k' \<Rightarrow> (case a of Attached seed g n \<Rightarrow> True | _ \<Rightarrow> False)
         | CHistory r sd g k' \<Rightarrow> (case a of History h \<Rightarrow> True | _ \<Rightarrow> False)
         | CScroll c \<Rightarrow> (case a of History h \<Rightarrow> True | _ \<Rightarrow> False)
         | CPoll r g n \<Rightarrow> (case a of Outputs outs x \<Rightarrow> True | _ \<Rightarrow> False)
         | _ \<Rightarrow> a = Done))"

datatype mux_event =
    OpenTerm string string "nat \<times> nat" open_req
  | SplitTerm string string create_at nat
  | WriteTerm string string nat
  | ResizeTerm string "nat \<times> nat" nat
  | LaneTurn nat
  | OnData string nat
  | OffData nat nat
  | OnExit string nat
  | OffExit nat nat
  | CloseTerm string bool nat
  | DestroyWin string string nat
  | DestroySes string nat
  | ScrollTerm string nat
  | ListKeys nat
  | Shutdown nat
  | CloseEverything
  | BridgeAttached
  | SessionStolen string
  | Answered nat answer
  | TimerFires nat

definition mux_step :: "mux_mgr \<Rightarrow> mux_event \<Rightarrow> mux_mgr" where
  "mux_step s e =
     (case e of
        OpenTerm key dir sz q \<Rightarrow> open_term key dir sz q s
      | SplitTerm src key at c \<Rightarrow> split_term src key at c s
      | WriteTerm key data c \<Rightarrow> write_term key data c s
      | ResizeTerm key sz c \<Rightarrow> resize_term key sz c s
      | LaneTurn r \<Rightarrow> if r < nextRef s then lane_turn r s else s
      | OnData key h \<Rightarrow> on_data key h s
      | OffData r h \<Rightarrow> off_data r h s
      | OnExit key h \<Rightarrow> on_exit key h s
      | OffExit r h \<Rightarrow> off_exit r h s
      | CloseTerm key kill c \<Rightarrow> close_term key kill (Some c) s
      | DestroyWin sid wid c \<Rightarrow> ask ConnOpen (CWinConn sid wid c) s
      | DestroySes sid c \<Rightarrow> ask ConnOpen (CSesConn sid c) s
      | ScrollTerm key c \<Rightarrow> scrollback key c s
      | ListKeys c \<Rightarrow> ask ConnOpen (CListConn c) s
      | Shutdown c \<Rightarrow> ask ConnOpen (CShutConn c) s
      | CloseEverything \<Rightarrow> closeAll s
      | BridgeAttached \<Rightarrow> reconfigureAndReattach s
      | SessionStolen sid \<Rightarrow> on_stolen sid s
      | Answered i a \<Rightarrow>
          (case map_of (tasks s) i of
             None \<Rightarrow> s
           | Some k \<Rightarrow> if fits k a then continue_task k a (s\<lparr>tasks := remove1 (i, k) (tasks s)\<rparr>) else s)
      | TimerFires i \<Rightarrow>
          (case map_of (timers s) i of
             None \<Rightarrow> s
           | Some tm \<Rightarrow> on_timer tm (s\<lparr>timers := omap_del i (timers s)\<rparr>)))"

definition mux_start :: mux_mgr where
  "mux_start = \<lparr>objs = (\<lambda>_. new_term [] [] (0, 0)), nextRef = 0, terminals = [], detached = [], retired = [],
     tasks = [], timers = [], nextTask = 0, mux_log = []\<rparr>"

definition mux_run :: "mux_event list \<Rightarrow> mux_mgr" where
  "mux_run es = foldl mux_step mux_start es"

section \<open>Polling\<close>

text \<open>
  The sequence numbers of the chunks a terminal emitted since its last attachment, and the polls
  under way for it: requests with the number they ask from, and armed timers.
\<close>

definition seq_step :: "nat \<Rightarrow> nat list \<Rightarrow> mux_out \<Rightarrow> nat list" where
  "seq_step r ns out =
     (case out of
        SequenceSet r' \<Rightarrow> if r' = r then [] else ns
      | Emit r' p \<Rightarrow> (case p of Chunk n d \<Rightarrow> if r' = r then ns @ [n] else ns | _ \<Rightarrow> ns)
      | _ \<Rightarrow> ns)"

definition chunks_since :: "nat \<Rightarrow> mux_out list \<Rightarrow> nat list" where
  "chunks_since r log = foldl (seq_step r) [] log"

definition poll_of :: "nat \<Rightarrow> task \<Rightarrow> (nat \<times> nat) list" where
  "poll_of r k = (case k of CPoll r' g n \<Rightarrow> if r' = r then [(g, n)] else [] | _ \<Rightarrow> [])"

definition timer_of :: "nat \<Rightarrow> timer \<Rightarrow> nat list" where
  "timer_of r tm = (case tm of TPoll r' g \<Rightarrow> if r' = r then [g] else [] | _ \<Rightarrow> [])"

definition poll_tasks :: "nat \<Rightarrow> mux_mgr \<Rightarrow> (nat \<times> nat) list" where
  "poll_tasks r s = concat (map (\<lambda>(i, k). poll_of r k) (tasks s))"

definition poll_timers :: "nat \<Rightarrow> mux_mgr \<Rightarrow> nat list" where
  "poll_timers r s = concat (map (\<lambda>(i, tm). timer_of r tm) (timers s))"

definition current_polls :: "nat \<Rightarrow> mux_mgr \<Rightarrow> nat" where
  "current_polls r s = length (filter (\<lambda>(g, n). g = t_pollGen (objs s r)) (poll_tasks r s))
     + length (filter (\<lambda>g. g = t_pollGen (objs s r)) (poll_timers r s))"

definition poll_ok :: "mux_mgr \<Rightarrow> nat \<Rightarrow> bool" where
  "poll_ok s r \<longleftrightarrow> current_polls r s \<le> 1
     \<and> (\<forall>(g, n)\<in>set (poll_tasks r s). g \<le> t_pollGen (objs s r)
          \<and> (g = t_pollGen (objs s r) \<longrightarrow> (\<forall>m\<in>set (chunks_since r (mux_log s)). m < n)))
     \<and> (\<forall>g\<in>set (poll_timers r s). g \<le> t_pollGen (objs s r))
     \<and> (\<forall>m\<in>set (chunks_since r (mux_log s)). m < t_next (objs s r))
     \<and> sorted_wrt (<) (chunks_since r (mux_log s))
     \<and> (nextRef s \<le> r \<longrightarrow> poll_tasks r s = [] \<and> poll_timers r s = [] \<and> chunks_since r (mux_log s) = [])"

definition poll_inv :: "mux_mgr \<Rightarrow> bool" where
  "poll_inv s \<longleftrightarrow> (\<forall>r. poll_ok s r)"

definition view :: "nat \<Rightarrow> mux_mgr \<Rightarrow> (nat \<times> nat) list \<times> nat list \<times> nat list \<times> nat \<times> nat \<times> bool" where
  "view r s = (poll_tasks r s, poll_timers r s, chunks_since r (mux_log s), t_pollGen (objs s r), t_next (objs s r), nextRef s \<le> r)"

lemma poll_ok_view: "view r s' = view r s \<Longrightarrow> poll_ok s' r = poll_ok s r"
  unfolding view_def poll_ok_def current_polls_def prod.inject by (elim conjE) (simp only:)

lemma poll_inv_view: "(\<And>r. view r s' = view r s) \<Longrightarrow> poll_inv s' = poll_inv s"
  unfolding poll_inv_def using poll_ok_view by blast

definition quiet_out :: "mux_out \<Rightarrow> bool" where
  "quiet_out out \<longleftrightarrow> (\<forall>r ns. seq_step r ns out = ns)"

lemma quiet_outs [simp]: "quiet_out (Ask q)" "quiet_out (Deliver r h p)" "quiet_out (Exit r i)" "quiet_out (ResizeCalled r z)"
  "quiet_out (Returned c)" "quiet_out (Keys c ks)" "quiet_out (Threw c e)" "quiet_out (Emit r (Seed d))"
  "quiet_out (Emit r (HistoryData d))" "quiet_out (Emit r (Notice d))"
  by (simp_all add: quiet_out_def seq_step_def)

lemma chunks_snoc: "chunks_since r (log @ [out]) = seq_step r (chunks_since r log) out"
  by (simp add: chunks_since_def)

lemma chunks_quiet: "\<forall>out\<in>set outs. quiet_out out \<Longrightarrow> chunks_since r (log @ outs) = chunks_since r log"
  by (induction outs arbitrary: log rule: rev_induct)
     (simp_all add: chunks_snoc quiet_out_def append_assoc [symmetric] del: append_assoc)

named_theorems mux_view "what leaves the view of the polls alone"

lemma view_upd [mux_view]:
  "(\<And>t. t_pollGen (f t) = t_pollGen t \<and> t_next (f t) = t_next t) \<Longrightarrow> poll_inv (upd x f s) = poll_inv s"
  by (rule poll_inv_view) (simp add: view_def upd_def poll_tasks_def poll_timers_def)

lemma view_log [mux_view]: "quiet_out out \<Longrightarrow> poll_inv (log_out out s) = poll_inv s"
  by (rule poll_inv_view) (simp add: view_def log_out_def poll_tasks_def poll_timers_def chunks_snoc quiet_out_def)

lemma view_ask [mux_view]: "(\<And>r. poll_of r k = []) \<Longrightarrow> poll_inv (ask req k s) = poll_inv s"
  by (rule poll_inv_view) (simp add: view_def ask_def poll_tasks_def poll_timers_def chunks_snoc seq_step_def)

lemma view_maps [mux_view]:
  "poll_inv (retire key s) = poll_inv s" "poll_inv (drop_terminal key s) = poll_inv s"
  "poll_inv (drop_detached key s) = poll_inv s" "poll_inv (detach_entry key sid pid n rec s) = poll_inv s"
  "poll_inv (s\<lparr>detached := x\<rparr>) = poll_inv s" "poll_inv (s\<lparr>retired := y\<rparr>) = poll_inv s"
  by (rule poll_inv_view; simp add: view_def retire_def drop_terminal_def drop_detached_def detach_entry_def
      poll_tasks_def poll_timers_def)+

lemma poll_of_simps [mux_view]:
  "poll_of r (COpenConn a q) = []" "poll_of r (COpenConf a q) = []" "poll_of r (COpenList a q) = []" "poll_of r (COpenTopo a q) = []"
  "poll_of r (COpenCreate a q sel) = []" "poll_of r (COpenSelect a q) = []" "poll_of r (CReopenConn a h c) = []"
  "poll_of r (CReopenConf a h c) = []" "poll_of r (CAttach a h k) = []" "poll_of r (CHistory a x g k) = []"
  "poll_of r (CSplitConn a key at c) = []" "poll_of r (CSplitConf a key at c) = []" "poll_of r (CSplitCreated a key c) = []"
  "poll_of r (CWrite a c) = []" "poll_of r (CResize a c) = []" "poll_of r (CFinalConn a) = []" "poll_of r (CFinalDestroy a) = []"
  "poll_of r (CCloseConn key kill oc) = []" "poll_of r (CCloseList key kill oc) = []" "poll_of r (CCloseDetached key oc) = []"
  "poll_of r (CCloseDestroy a kill oc) = []" "poll_of r (CCloseDetach oc) = []" "poll_of r (CReconf rs) = []"
  "poll_of r (CInventory rs) = []" "poll_of r (CWinConn sid wid c) = []" "poll_of r (CWinDestroy est det rs c) = []"
  "poll_of r (CSesConn sid c) = []" "poll_of r (CSesDestroy rs keys rs' c) = []" "poll_of r (CScrollConn key oc c) = []"
  "poll_of r (CScrollConf key c) = []" "poll_of r (CScrollList key c) = []" "poll_of r (CScroll c) = []"
  "poll_of r (CListConn c) = []" "poll_of r (CListConf c) = []" "poll_of r (CListed c) = []" "poll_of r (CShutConn c) = []"
  "poll_of r (CShutdown c) = []"
  by (simp_all add: poll_of_def)

lemma view_emit [mux_view]: "quiet_out (Emit x p) \<Longrightarrow> poll_inv (emitData x p s) = poll_inv s"
proof (rule poll_inv_view)
  fix r assume q: "quiet_out (Emit x p)"
  have "chunks_since r (mux_log s @ [Emit x p] @ map (\<lambda>h. Deliver x h p) hs) = chunks_since r (mux_log s)" for hs
    using q by (intro chunks_quiet) auto
  from this [of "t_handlers (objs s x)"] this [of "[]"] show "view r (emitData x p s) = view r s"
    by (simp add: view_def emitData_def log_out_def upd_def poll_tasks_def poll_timers_def Let_def)
qed

lemma sub_concat_length: "length (filter P (concat (map f (omap_del i ts)))) \<le> length (filter P (concat (map f ts)))"
  by (induction ts) (auto simp: omap_del_def)

lemma sub_concat_set: "x \<in> set (concat (map f (omap_del i ts))) \<Longrightarrow> x \<in> set (concat (map f ts))"
  by (auto simp: omap_del_def)

text \<open>Fewer polls, and a later generation, keep what is known of the polls.\<close>

lemma poll_ok_shrink:
  assumes "poll_ok s r"
    and "\<And>P. length (filter P (poll_tasks r s')) \<le> length (filter P (poll_tasks r s))"
    and "\<And>P. length (filter P (poll_timers r s')) \<le> length (filter P (poll_timers r s))"
    and sub: "set (poll_tasks r s') \<subseteq> set (poll_tasks r s)" "set (poll_timers r s') \<subseteq> set (poll_timers r s)"
    and same: "t_pollGen (objs s' r) = t_pollGen (objs s r)" "t_next (objs s' r) = t_next (objs s r)"
      "chunks_since r (mux_log s') = chunks_since r (mux_log s)" "nextRef s' = nextRef s"
  shows "poll_ok s' r"
proof -
  have c: "current_polls r s' \<le> current_polls r s"
    unfolding current_polls_def same by (rule add_mono [OF assms(2,3)])
  then have "current_polls r s' \<le> 1" using assms(1) unfolding poll_ok_def by (meson le_trans)
  moreover have "\<forall>(g, n)\<in>set (poll_tasks r s'). g \<le> t_pollGen (objs s r)
      \<and> (g = t_pollGen (objs s r) \<longrightarrow> (\<forall>m\<in>set (chunks_since r (mux_log s)). m < n))"
    using assms(1) sub(1) unfolding poll_ok_def by (meson subsetD)
  moreover have "\<forall>g\<in>set (poll_timers r s'). g \<le> t_pollGen (objs s r)"
    using assms(1) sub(2) unfolding poll_ok_def by (meson subsetD)
  moreover have "nextRef s \<le> r \<Longrightarrow> poll_tasks r s' = [] \<and> poll_timers r s' = []"
    using assms(1) sub unfolding poll_ok_def by simp
  ultimately show ?thesis using assms(1) unfolding poll_ok_def same by (elim conjE) (intro conjI; simp)
qed

definition no_poll :: "nat \<Rightarrow> mux_mgr \<Rightarrow> bool" where
  "no_poll r s \<longleftrightarrow> current_polls r s = 0"

lemma current_zero:
  assumes "\<forall>(g, n)\<in>set (poll_tasks r s). g < t_pollGen (objs s r)" and "\<forall>g\<in>set (poll_timers r s). g < t_pollGen (objs s r)"
  shows "current_polls r s = 0"
proof -
  have "filter (\<lambda>(g, n). g = t_pollGen (objs s r)) (poll_tasks r s) = []" using assms(1) by (fastforce simp: filter_empty_conv)
  moreover have "filter (\<lambda>g. g = t_pollGen (objs s r)) (poll_timers r s) = []" using assms(2) by (auto simp: filter_empty_conv)
  ultimately show ?thesis by (simp add: current_polls_def)
qed

lemma stop_fields [simp]:
  "objs (stopPolling x s) = (objs s)(x := (objs s x)\<lparr>t_pollTimer := None, t_pollGen := t_pollGen (objs s x) + 1\<rparr>)"
  "mux_log (stopPolling x s) = mux_log s" "nextRef (stopPolling x s) = nextRef s" "tasks (stopPolling x s) = tasks s"
  "terminals (stopPolling x s) = terminals s" "detached (stopPolling x s) = detached s" "retired (stopPolling x s) = retired s"
  by (simp_all add: stopPolling_def upd_def clear_timer_def split: option.splits)

lemma clear_timer_poll_inv: "poll_inv s \<Longrightarrow> poll_inv (clear_timer i s)"
  unfolding poll_inv_def
proof
  fix r assume "\<forall>r. poll_ok s r"
  then have "poll_ok s r" by blast
  then show "poll_ok (clear_timer i s) r"
    by (rule poll_ok_shrink)
       (auto simp: clear_timer_def poll_tasks_def poll_timers_def sub_concat_length [unfolded omap_del_def] omap_del_def
         split: option.splits)
qed

lemma bump_poll_ok:
  assumes "poll_ok s x"
  shows "poll_ok (upd x (\<lambda>t. t\<lparr>t_pollTimer := None, t_pollGen := t_pollGen t + 1\<rparr>) s) x
    \<and> no_poll x (upd x (\<lambda>t. t\<lparr>t_pollTimer := None, t_pollGen := t_pollGen t + 1\<rparr>) s)"
proof -
  let ?s = "upd x (\<lambda>t. t\<lparr>t_pollTimer := None, t_pollGen := t_pollGen t + 1\<rparr>) s"
  have g: "\<forall>(g, n)\<in>set (poll_tasks x s). g \<le> t_pollGen (objs s x)" "\<forall>g\<in>set (poll_timers x s). g \<le> t_pollGen (objs s x)"
    using assms by (auto simp: poll_ok_def)
  have same: "poll_tasks x ?s = poll_tasks x s" "poll_timers x ?s = poll_timers x s" "mux_log ?s = mux_log s"
    "t_pollGen (objs ?s x) = t_pollGen (objs s x) + 1" "t_next (objs ?s x) = t_next (objs s x)" "nextRef ?s = nextRef s"
    by (simp_all add: upd_def poll_tasks_def poll_timers_def)
  have "\<forall>(g, n)\<in>set (poll_tasks x s). g < t_pollGen (objs s x) + 1" "\<forall>g\<in>set (poll_timers x s). g < t_pollGen (objs s x) + 1"
    using g by (auto simp: less_Suc_eq_le)
  then have z: "no_poll x ?s" unfolding no_poll_def by (intro current_zero) (simp_all only: same)
  have "poll_ok ?s x" using assms g z unfolding poll_ok_def no_poll_def same by auto
  with z show ?thesis by blast
qed

lemma view_other: "r \<noteq> x \<Longrightarrow> view r (upd x f s) = view r s"
  by (simp add: view_def upd_def poll_tasks_def poll_timers_def)

lemma poll_inv_stop: "poll_inv s \<Longrightarrow> poll_inv (stopPolling x s)"
  and no_poll_stop: "poll_inv s \<Longrightarrow> no_poll x (stopPolling x s)"
proof -
  assume "poll_inv s"
  then have c: "poll_inv (clear_timer (t_pollTimer (objs s x)) s)" by (rule clear_timer_poll_inv)
  then show "no_poll x (stopPolling x s)" using bump_poll_ok by (simp add: poll_inv_def stopPolling_def)
  show "poll_inv (stopPolling x s)"
    unfolding poll_inv_def stopPolling_def
  proof
    fix r
    show "poll_ok (upd x (\<lambda>t. t\<lparr>t_pollTimer := None, t_pollGen := t_pollGen t + 1\<rparr>) (clear_timer (t_pollTimer (objs s x)) s)) r"
    proof (cases "r = x")
      case True
      with c bump_poll_ok show ?thesis by (simp add: poll_inv_def)
    next
      case False
      with c poll_ok_view [OF view_other] show ?thesis by (simp add: poll_inv_def)
    qed
  qed
qed

text \<open>A poll is asked for only when none of its generation is under way.\<close>

lemma poll_inv_poll:
  assumes "poll_inv s" and "gen = t_pollGen (objs s r) \<Longrightarrow> no_poll r s" and "r < nextRef s"
  shows "poll_inv (poll r gen s)"
proof (cases "t_closed (objs s r) \<or> t_pollGen (objs s r) \<noteq> gen")
  case True
  with assms show ?thesis by (simp add: poll_def Let_def)
next
  case False
  let ?s = "ask (PaneOutput (t_pane (objs s r)) (t_next (objs s r))) (CPoll r gen (t_next (objs s r))) s"
  have p: "poll_tasks x ?s = poll_tasks x s @ (if x = r then [(gen, t_next (objs s r))] else [])" for x
    by (simp add: poll_tasks_def ask_def poll_of_def)
  have same: "poll_timers x ?s = poll_timers x s" "chunks_since x (mux_log ?s) = chunks_since x (mux_log s)" "objs ?s = objs s"
    "nextRef ?s = nextRef s" for x
    by (simp_all add: poll_timers_def ask_def chunks_snoc seq_step_def)
  have "poll_ok ?s x" for x
  proof -
    have ok: "poll_ok s x" using assms(1) by (simp add: poll_inv_def)
    show ?thesis
    proof (cases "x = r")
      case True
      have "no_poll r s" using assms(2) False by simp
      with ok True False assms(3) show ?thesis
        unfolding poll_ok_def current_polls_def no_poll_def p same by auto
    next
      case False
      with ok show ?thesis unfolding poll_ok_def current_polls_def p same by simp
    qed
  qed
  with False show ?thesis by (simp add: poll_def poll_inv_def Let_def)
qed

lemma poll_inv_start: "poll_inv s \<Longrightarrow> r < nextRef s \<Longrightarrow> poll_inv (startPolling r s)"
  using poll_inv_poll [of "stopPolling r s" _ r] poll_inv_stop [of s r] no_poll_stop [of s r]
  by (simp add: startPolling_def Let_def)

lemma poll_inv_arm_final [mux_view]: "poll_inv (arm (TFinal x) f r s) = poll_inv s"
  if "\<And>i t. t_pollGen (f i t) = t_pollGen t \<and> t_next (f i t) = t_next t"
  by (rule poll_inv_view) (use that in \<open>simp add: view_def arm_def Let_def upd_def poll_tasks_def poll_timers_def timer_of_def\<close>)

lemma poll_inv_again:
  assumes "poll_inv s" and "gen = t_pollGen (objs s r) \<Longrightarrow> no_poll r s" and "r < nextRef s"
  shows "poll_inv (poll_again r gen s)"
proof (cases "\<not> t_closed (objs s r) \<and> \<not> t_finalizing (objs s r) \<and> \<not> t_waiting (objs s r) \<and> t_pollGen (objs s r) = gen")
  case False
  with assms show ?thesis by (auto simp: poll_again_def Let_def)
next
  case True
  let ?s = "arm (TPoll r gen) (\<lambda>i t. t\<lparr>t_pollTimer := i\<rparr>) r s"
  have p: "poll_timers x ?s = poll_timers x s @ (if x = r then [gen] else [])" for x
    by (simp add: poll_timers_def arm_def timer_of_def upd_def Let_def)
  have same: "poll_tasks x ?s = poll_tasks x s" "mux_log ?s = mux_log s" "nextRef ?s = nextRef s"
    "t_pollGen (objs ?s x) = t_pollGen (objs s x)" "t_next (objs ?s x) = t_next (objs s x)" for x
    by (simp_all add: poll_tasks_def arm_def upd_def Let_def)
  have "poll_ok ?s x" for x
  proof -
    have ok: "poll_ok s x" using assms(1) by (simp add: poll_inv_def)
    show ?thesis
    proof (cases "x = r")
      case True
      have "no_poll r s" using assms(2) \<open>_ \<and> _ \<and> _ \<and> t_pollGen (objs s r) = gen\<close> by simp
      with ok True \<open>_ \<and> _ \<and> _ \<and> t_pollGen (objs s r) = gen\<close> assms(3) show ?thesis
        unfolding poll_ok_def current_polls_def no_poll_def p same by auto
    next
      case False
      with ok show ?thesis unfolding poll_ok_def current_polls_def p same by simp
    qed
  qed
  with True show ?thesis by (simp add: poll_again_def poll_inv_def Let_def)
qed

text \<open>Accepting output: the numbers ascend from the one the poll asked from.\<close>

definition output_ok :: "nat \<Rightarrow> (nat \<times> string) list \<Rightarrow> bool" where
  "output_ok n outs \<longleftrightarrow> sorted_wrt (<) (map fst outs) \<and> (\<forall>out\<in>set outs. n \<le> fst out)"

lemma take_output_fields:
  "tasks (take_output r s out) = tasks s" "timers (take_output r s out) = timers s" "nextRef (take_output r s out) = nextRef s"
  "t_pollGen (objs (take_output r s out) x) = t_pollGen (objs s x)"
  "t_next (objs (take_output r s out) x) = (if x = r then max (t_next (objs s r)) (fst out + 1) else t_next (objs s x))"
  "t_closed (objs (take_output r s out) x) = t_closed (objs s x)"
  by (simp_all add: take_output_def emitData_def Let_def upd_def log_out_def)

lemma take_output_chunks:
  "chunks_since x (mux_log (take_output r s out)) = chunks_since x (mux_log s) @ (if x = r then [fst out] else [])"
proof -
  have "chunks_since y ((log @ [Emit r p]) @ map (\<lambda>h. Deliver r h p) hs) = chunks_since y (log @ [Emit r p])" for y log hs p
    by (rule chunks_quiet) auto
  then have q: "chunks_since y (log @ Emit r p # map (\<lambda>h. Deliver r h p) hs) = seq_step y (chunks_since y log) (Emit r p)" for y log hs p
    by (simp add: chunks_snoc)
  show ?thesis
    by (simp add: take_output_def emitData_def Let_def upd_def log_out_def q chunks_snoc) (simp add: seq_step_def)
qed

lemma poll_inv_outputs:
  assumes "poll_inv s" and "no_poll r s" and "output_ok n outs" and "\<forall>m\<in>set (chunks_since r (mux_log s)). m < n" and "r < nextRef s"
  shows "poll_inv (foldl (take_output r) s outs) \<and> no_poll r (foldl (take_output r) s outs)"
  using assms
proof (induction outs arbitrary: s n)
  case Nil
  then show ?case by simp
next
  case (Cons out outs)
  let ?s = "take_output r s out"
  have same: "poll_tasks x ?s = poll_tasks x s" "poll_timers x ?s = poll_timers x s" for x
    by (simp_all add: poll_tasks_def poll_timers_def take_output_fields)
  have cur: "current_polls x ?s = current_polls x s" for x
    by (simp add: current_polls_def same take_output_fields)
  have np: "no_poll r ?s" using Cons.prems(2) by (simp add: no_poll_def cur)
  have lt: "\<forall>m\<in>set (chunks_since r (mux_log s)). m < fst out"
    using Cons.prems(3,4) by (auto simp: output_ok_def)
  have none: "\<forall>(g, n)\<in>set (poll_tasks r s). g \<noteq> t_pollGen (objs s r)"
    using Cons.prems(2) by (fastforce simp: no_poll_def current_polls_def filter_empty_conv)
  have "poll_ok ?s x" for x
  proof (cases "x = r")
    case False
    then have "view x ?s = view x s" by (simp add: view_def same take_output_fields take_output_chunks)
    with Cons.prems(1) show ?thesis using poll_ok_view [of x ?s s] by (simp add: poll_inv_def)
  next
    case True
    have ok: "poll_ok s r" using Cons.prems(1) by (simp add: poll_inv_def)
    have "sorted_wrt (<) (chunks_since r (mux_log s) @ [fst out])"
      using ok lt by (simp add: poll_ok_def sorted_wrt_append)
    then show ?thesis
      using ok none Cons.prems(5) True unfolding poll_ok_def cur same take_output_fields take_output_chunks
      by (auto simp: less_Suc_eq_le less_imp_le dest: less_SucI)
  qed
  then have inv: "poll_inv ?s" by (simp add: poll_inv_def)
  have "output_ok (fst out + 1) outs" using Cons.prems(3) by (auto simp: output_ok_def Suc_le_eq)
  moreover have "\<forall>m\<in>set (chunks_since r (mux_log ?s)). m < fst out + 1"
    using lt by (auto simp: take_output_chunks less_SucI)
  moreover have "r < nextRef ?s" using Cons.prems(5) by (simp add: take_output_fields)
  ultimately show ?case using Cons.IH [OF inv np] by simp
qed

lemma poll_inv_mark:
  assumes "poll_inv s" and "r < nextRef s" and "\<And>t. t_pollGen (f t) = t_pollGen t"
  shows "poll_inv (log_out (SequenceSet r) (upd r f s))"
proof -
  let ?s = "log_out (SequenceSet r) (upd r f s)"
  have same: "poll_tasks x ?s = poll_tasks x s" "poll_timers x ?s = poll_timers x s" "nextRef ?s = nextRef s"
    "t_pollGen (objs ?s x) = t_pollGen (objs s x)" for x
    by (simp_all add: poll_tasks_def poll_timers_def log_out_def upd_def assms(3))
  have ch: "chunks_since x (mux_log ?s) = (if x = r then [] else chunks_since x (mux_log s))" for x
    by (simp add: log_out_def upd_def chunks_snoc seq_step_def)
  have nx: "x \<noteq> r \<Longrightarrow> t_next (objs ?s x) = t_next (objs s x)" for x
    by (simp add: log_out_def upd_def)
  have "poll_ok ?s x" for x
  proof -
    have ok: "poll_ok s x" using assms(1) by (simp add: poll_inv_def)
    then show ?thesis
      using assms(2) nx [of x] unfolding poll_ok_def current_polls_def same ch by auto
  qed
  then show ?thesis by (simp add: poll_inv_def)
qed

lemma poll_inv_publish: "poll_inv s \<Longrightarrow> poll_inv (publish t s)"
proof -
  assume inv: "poll_inv s"
  have "poll_ok (publish t s) x" for x
  proof -
    have ok: "poll_ok s x" using inv by (simp add: poll_inv_def)
    have same: "poll_tasks x (publish t s) = poll_tasks x s" "poll_timers x (publish t s) = poll_timers x s"
      "mux_log (publish t s) = mux_log s" "nextRef (publish t s) = nextRef s + 1"
      by (simp_all add: poll_tasks_def poll_timers_def publish_def)
    show ?thesis
    proof (cases "x = nextRef s")
      case True
      with ok show ?thesis unfolding poll_ok_def current_polls_def same by auto
    next
      case False
      then have "objs (publish t s) x = objs s x" by (simp add: publish_def)
      with ok show ?thesis unfolding poll_ok_def current_polls_def same by auto
    qed
  qed
  then show ?thesis by (simp add: poll_inv_def)
qed

section \<open>The shape of the maps\<close>

fun refs_of :: "task \<Rightarrow> nat list" where
  "refs_of (COpenConn r q) = [r]"
| "refs_of (COpenConf r q) = [r]"
| "refs_of (COpenList r q) = [r]"
| "refs_of (COpenTopo r q) = [r]"
| "refs_of (COpenCreate r q sel) = [r]"
| "refs_of (COpenSelect r q) = [r]"
| "refs_of (CReopenConn r h c) = [r]"
| "refs_of (CReopenConf r h c) = [r]"
| "refs_of (CAttach r h k) = [r]"
| "refs_of (CHistory r x g k) = [r]"
| "refs_of (CSplitConn r key at c) = [r]"
| "refs_of (CSplitConf r key at c) = [r]"
| "refs_of (CSplitCreated r key c) = [r]"
| "refs_of (CWrite r c) = [r]"
| "refs_of (CResize r c) = [r]"
| "refs_of (CPoll r g n) = [r]"
| "refs_of (CFinalConn r) = [r]"
| "refs_of (CFinalDestroy r) = [r]"
| "refs_of (CCloseDestroy r resume c) = [r]"
| "refs_of (CReconf rs) = rs"
| "refs_of (CInventory rs) = rs"
| "refs_of (CWinDestroy est det resume c) = map snd est @ resume"
| "refs_of (CSesDestroy live keys resume c) = live @ resume"
| "refs_of (CScrollConn key r c) = (case r of None \<Rightarrow> [] | Some r \<Rightarrow> [r])"
| "refs_of _ = []"

fun timer_ref :: "timer \<Rightarrow> nat" where
  "timer_ref (TPoll r g) = r"
| "timer_ref (TFinal r) = r"

definition terminals_ok :: "mux_mgr \<Rightarrow> bool" where
  "terminals_ok s \<longleftrightarrow> distinct (map fst (terminals s))
     \<and> (\<forall>(key, r)\<in>set (terminals s). r < nextRef s \<and> t_id (objs s r) = key \<and> \<not> t_closed (objs s r))"

definition shape :: "mux_mgr \<Rightarrow> bool" where
  "shape s \<longleftrightarrow> terminals_ok s
     \<and> (\<forall>(i, k)\<in>set (tasks s). \<forall>r\<in>set (refs_of k). r < nextRef s)
     \<and> (\<forall>(i, tm)\<in>set (timers s). timer_ref tm < nextRef s)"

definition mux_inv :: "mux_mgr \<Rightarrow> bool" where
  "mux_inv s \<longleftrightarrow> shape s \<and> poll_inv s"

named_theorems mux_simps "what leaves the invariant of the manager alone"
named_theorems mux_intro "what keeps the invariant of the manager"

lemma nextRef_prims [mux_simps]:
  "nextRef (upd r f s) = nextRef s" "nextRef (log_out out s) = nextRef s" "nextRef (ask req k s) = nextRef s"
  "nextRef (retire key s) = nextRef s" "nextRef (drop_terminal key s) = nextRef s" "nextRef (drop_detached key s) = nextRef s"
  "nextRef (emitData r p s) = nextRef s" "nextRef (emitExit r info s) = nextRef s" "nextRef (stopPolling r s) = nextRef s"
  "nextRef (clear_timer i s) = nextRef s" "nextRef (poll r g s) = nextRef s" "nextRef (startPolling r s) = nextRef s"
  "nextRef (detach_entry key sid pid n rec s) = nextRef s" "nextRef (forget r s) = nextRef s" "nextRef (clear_final r s) = nextRef s"
  "nextRef (arm tm fld r s) = nextRef s" "nextRef (publish t s) = nextRef s + 1" "nextRef (ret call s) = nextRef s"
  "nextRef (raise call e s) = nextRef s" "nextRef (shut r s) = nextRef s"
  by (simp_all add: upd_def log_out_def ask_def retire_def drop_terminal_def drop_detached_def emitData_def emitExit_def
      clear_timer_def poll_def startPolling_def detach_entry_def forget_def clear_final_def arm_def publish_def ret_def raise_def
      shut_def Let_def split: option.splits)

lemma shape_upd:
  "(\<And>t. t_id (f t) = t_id t \<and> t_closed (f t) = t_closed t) \<Longrightarrow> shape (upd r f s) = shape s"
  by (auto simp: shape_def terminals_ok_def upd_def split: if_splits)

lemma mux_inv_upd [mux_simps]:
  "(\<And>t. t_id (f t) = t_id t \<and> t_closed (f t) = t_closed t \<and> t_pollGen (f t) = t_pollGen t \<and> t_next (f t) = t_next t) \<Longrightarrow>
     mux_inv (upd r f s) = mux_inv s"
  by (simp add: mux_inv_def shape_upd mux_view)

lemma mux_inv_log [mux_simps]: "quiet_out out \<Longrightarrow> mux_inv (log_out out s) = mux_inv s"
  by (simp add: mux_inv_def mux_view) (simp add: shape_def terminals_ok_def log_out_def)

lemma mux_inv_ret [mux_simps]: "mux_inv (ret c s) = mux_inv s" "mux_inv (raise c e s) = mux_inv s"
  "mux_inv (emitExit r info s) = mux_inv s"
  by (simp_all add: ret_def raise_def emitExit_def mux_simps split: option.splits)

lemma mux_inv_maps [mux_simps]:
  "mux_inv (retire key s) = mux_inv s" "mux_inv (drop_detached key s) = mux_inv s"
  "mux_inv (detach_entry key sid pid n rec s) = mux_inv s" "mux_inv (s\<lparr>detached := x\<rparr>) = mux_inv s"
  "mux_inv (s\<lparr>retired := y\<rparr>) = mux_inv s"
  by (simp_all add: mux_inv_def mux_view)
     (simp_all add: shape_def terminals_ok_def retire_def drop_detached_def detach_entry_def)

lemma mux_inv_emit [mux_simps]: "quiet_out (Emit r p) \<Longrightarrow> mux_inv (emitData r p s) = mux_inv s"
  by (simp add: mux_inv_def mux_view)
     (auto simp: shape_def terminals_ok_def emitData_def Let_def upd_def log_out_def split: if_splits)

lemma mux_inv_ask [mux_intro]:
  "mux_inv s \<Longrightarrow> list_all (\<lambda>r. r < nextRef s) (refs_of k) \<Longrightarrow> (\<And>r. poll_of r k = []) \<Longrightarrow> mux_inv (ask req k s)"
  by (simp add: mux_inv_def mux_view) (auto simp: shape_def terminals_ok_def ask_def list_all_iff)

lemma mux_inv_drop [mux_intro]: "mux_inv s \<Longrightarrow> mux_inv (drop_terminal key s)"
  by (simp add: mux_inv_def mux_view) (auto simp: shape_def terminals_ok_def drop_terminal_def omap_distinct_del omap_del_member)

lemma mux_inv_stop [mux_intro]: "mux_inv s \<Longrightarrow> mux_inv (stopPolling r s)"
proof -
  assume "mux_inv s"
  moreover have "set (timers (stopPolling r s)) \<subseteq> set (timers s)"
    by (auto simp: stopPolling_def upd_def clear_timer_def omap_del_def split: option.splits)
  ultimately show ?thesis
    by (auto simp: mux_inv_def poll_inv_stop shape_def terminals_ok_def split: if_splits)
qed

lemma mux_inv_clear [mux_intro]: "mux_inv s \<Longrightarrow> mux_inv (clear_timer i s)"
  by (simp add: mux_inv_def clear_timer_poll_inv)
     (auto simp: shape_def terminals_ok_def clear_timer_def omap_del_def split: option.splits)

lemma shape_task: "shape s \<Longrightarrow> list_all (\<lambda>r. r < nextRef s) (refs_of k) \<Longrightarrow> shape (ask req k s)"
  by (auto simp: shape_def terminals_ok_def ask_def list_all_iff)

lemma mux_inv_poll:
  "mux_inv s \<Longrightarrow> (gen = t_pollGen (objs s r) \<Longrightarrow> no_poll r s) \<Longrightarrow> r < nextRef s \<Longrightarrow> mux_inv (poll r gen s)"
  by (simp add: mux_inv_def poll_inv_poll) (simp add: poll_def Let_def shape_task)

lemma mux_inv_start [mux_intro]: "mux_inv s \<Longrightarrow> r < nextRef s \<Longrightarrow> mux_inv (startPolling r s)"
  using mux_inv_stop [of s r] no_poll_stop [of s r] mux_inv_poll [of "stopPolling r s" _ r]
  by (simp add: startPolling_def Let_def mux_inv_def)

lemma mux_inv_arm [mux_intro]:
  "mux_inv s \<Longrightarrow> x < nextRef s \<Longrightarrow> (\<And>i t. t_id (f i t) = t_id t \<and> t_closed (f i t) = t_closed t \<and> t_pollGen (f i t) = t_pollGen t \<and> t_next (f i t) = t_next t) \<Longrightarrow>
     mux_inv (arm (TFinal x) f r s)"
  by (simp add: mux_inv_def mux_view) (auto simp: shape_def terminals_ok_def arm_def Let_def upd_def split: if_splits)

lemma mux_inv_again:
  "mux_inv s \<Longrightarrow> (gen = t_pollGen (objs s r) \<Longrightarrow> no_poll r s) \<Longrightarrow> r < nextRef s \<Longrightarrow> mux_inv (poll_again r gen s)"
  by (simp add: mux_inv_def poll_inv_again)
     (auto simp: shape_def terminals_ok_def poll_again_def arm_def Let_def upd_def split: if_splits)

text \<open>Closing a terminal keeps the invariant because its entry goes with it.\<close>

lemma shape_close:
  assumes "shape s" and "key = t_id (objs s r)"
  shows "shape (drop_terminal key (upd r (\<lambda>t. t\<lparr>t_closed := True\<rparr>) s))"
  using assms by (auto simp: shape_def terminals_ok_def drop_terminal_def upd_def omap_distinct_del omap_del_member split: if_splits)

lemma mux_inv_close:
  assumes "mux_inv s" and "key = t_id (objs s r)"
  shows "mux_inv (drop_terminal key (upd r (\<lambda>t. t\<lparr>t_closed := True\<rparr>) s))"
  using assms shape_close [of s key r] by (simp add: mux_inv_def mux_view)

lemma drop_commute:
  "drop_terminal key (retire k2 s) = retire k2 (drop_terminal key s)"
  "drop_terminal key (stopPolling r s) = stopPolling r (drop_terminal key s)"
  by (simp_all add: drop_terminal_def retire_def stopPolling_def upd_def clear_timer_def split: option.splits)

lemma mux_inv_forget [mux_intro]: "mux_inv s \<Longrightarrow> mux_inv (forget r s)"
  using mux_inv_close [of s "t_id (objs s r)" r] by (simp add: forget_def Let_def drop_commute mux_simps)

lemma mux_inv_shut [mux_intro]: "mux_inv s \<Longrightarrow> mux_inv (shut r s)"
  using mux_inv_close [of s "t_id (objs s r)" r] by (simp add: shut_def drop_commute mux_inv_stop)

lemma mux_inv_publish [mux_intro]: "mux_inv s \<Longrightarrow> \<not> t_closed t \<Longrightarrow> mux_inv (publish t s)"
  by (simp add: mux_inv_def poll_inv_publish)
     (fastforce simp: shape_def terminals_ok_def publish_def omap_distinct_set dest: omap_set_member split: if_splits)

lemma mux_inv_final [mux_intro]: "mux_inv s \<Longrightarrow> mux_inv (clear_final r s)"
  by (simp add: clear_final_def mux_simps mux_intro)

lemma mux_inv_complete [mux_intro]: "mux_inv s \<Longrightarrow> mux_inv (completeExited r s)"
  by (simp add: completeExited_def mux_simps mux_intro)

lemma mux_inv_abandon [mux_intro]: "mux_inv s \<Longrightarrow> mux_inv (abandonExitFinalization r s)"
  by (simp add: abandonExitFinalization_def mux_simps mux_intro)

lemma mux_inv_pause [mux_intro]: "mux_inv s \<Longrightarrow> mux_inv (pauseForReconnect r s)"
  by (simp add: pauseForReconnect_def mux_simps mux_intro)

lemma mux_inv_failure [mux_intro]: "mux_inv s \<Longrightarrow> r < nextRef s \<Longrightarrow> mux_inv (handleRequestFailure r e s)"
  by (simp add: handleRequestFailure_def mux_simps mux_intro)

lemma mux_inv_report [mux_intro]: "mux_inv s \<Longrightarrow> mux_inv (reportRecoveredDaemonExit r s)"
  by (simp add: reportRecoveredDaemonExit_def mux_simps mux_intro)

lemma mux_inv_finalize [mux_intro]: "mux_inv s \<Longrightarrow> r < nextRef s \<Longrightarrow> mux_inv (finalizeExited r s)"
  by (simp add: finalizeExited_def finalize_ask_def mux_simps mux_intro poll_of_simps)

lemma nextRef_more [mux_simps]:
  "nextRef (completeExited r s) = nextRef s" "nextRef (pauseForReconnect r s) = nextRef s"
  "nextRef (handleRequestFailure r e s) = nextRef s" "nextRef (reportRecoveredDaemonExit r s) = nextRef s"
  "nextRef (attach r h k s) = nextRef s" "nextRef (reattach r b c s) = nextRef s"
  "nextRef (finalizeExited r s) = nextRef s" "nextRef (abandonExitFinalization r s) = nextRef s"
  by (simp_all add: completeExited_def pauseForReconnect_def handleRequestFailure_def reportRecoveredDaemonExit_def attach_def
      reattach_def finalizeExited_def finalize_ask_def abandonExitFinalization_def Let_def mux_simps)

lemma mux_inv_attach [mux_intro]: "mux_inv s \<Longrightarrow> r < nextRef s \<Longrightarrow> mux_inv (attach r h k s)"
  by (simp add: attach_def Let_def mux_simps mux_intro poll_of_simps)

lemma mux_inv_reattach [mux_intro]: "mux_inv s \<Longrightarrow> r < nextRef s \<Longrightarrow> mux_inv (reattach r b c s)"
  by (simp add: reattach_def mux_simps mux_intro)

text \<open>A loop that keeps the invariant and the supply of references.\<close>

lemma mux_fold:
  assumes "mux_inv s" and "\<And>x s. x \<in> set xs \<Longrightarrow> mux_inv s \<Longrightarrow> n \<le> nextRef s \<Longrightarrow> mux_inv (f s x) \<and> n \<le> nextRef (f s x)" and "n \<le> nextRef s"
  shows "mux_inv (foldl f s xs) \<and> n \<le> nextRef (foldl f s xs)"
  using assms by (induction xs arbitrary: s) simp_all

lemma mux_inv_hydrate [mux_intro]: "mux_inv s \<Longrightarrow> mux_inv (hydrateDetached ls s)"
  unfolding hydrateDetached_def by (rule mux_fold [where n = 0, THEN conjunct1]) (simp_all add: mux_simps)

lemma nextRef_hydrate [mux_simps]: "nextRef (hydrateDetached ls s) = nextRef s"
  unfolding hydrateDetached_def by (induction ls arbitrary: s) (simp_all add: mux_simps)

lemma mux_inv_settle [mux_intro]: "mux_inv s \<Longrightarrow> mux_inv (settleOpening r ok s)"
  unfolding settleOpening_def by (rule mux_fold [where n = 0, THEN conjunct1]) (simp_all add: mux_simps)

lemma nextRef_settle [mux_simps]: "nextRef (settleOpening r ok s) = nextRef s"
proof -
  have "nextRef (foldl (\<lambda>s c. if ok \<and> opening_ok r s then log_out (Returned c) s else log_out (Threw c OtherError) s) s cs)
      = nextRef s" for cs s
    by (induction cs arbitrary: s) (simp_all add: mux_simps)
  then show ?thesis by (simp add: settleOpening_def mux_simps)
qed

lemma mux_inv_fail_open [mux_intro]: "mux_inv s \<Longrightarrow> mux_inv (fail_open r q e s)"
  by (simp add: fail_open_def Let_def mux_simps mux_intro)

lemma mux_inv_open_term [mux_intro]: "mux_inv s \<Longrightarrow> mux_inv (open_term key dir sz q s)"
proof -
  assume inv: "mux_inv s"
  have "r < nextRef s" if "map_of (terminals s) key = Some r" for r
    using inv map_of_SomeD [OF that] by (fastforce simp: mux_inv_def shape_def terminals_ok_def)
  moreover have "\<not> t_closed (new_term key dir sz)" by (simp add: new_term_def)
  ultimately show ?thesis
    using inv by (auto simp: open_term_def Let_def mux_simps poll_of_simps intro!: mux_intro split: option.splits)
qed

lemma mux_inv_attach_opened [mux_intro]: "mux_inv s \<Longrightarrow> r < nextRef s \<Longrightarrow> mux_inv (attach_opened r q s)"
  by (simp add: attach_opened_def mux_intro)

lemma mux_inv_create_step [mux_intro]: "mux_inv s \<Longrightarrow> r < nextRef s \<Longrightarrow> mux_inv (create_step r q sel s)"
  by (simp add: create_step_def mux_simps mux_intro poll_of_simps)

lemma mux_inv_seed [mux_intro]: "mux_inv s \<Longrightarrow> mux_inv (emit_seed r seed s)"
  by (simp add: emit_seed_def mux_simps split: option.splits)

lemma nextRef_seed [mux_simps]: "nextRef (emit_seed r seed s) = nextRef s"
  by (simp add: emit_seed_def mux_simps split: option.splits)

lemma nextRef_fail_open [mux_simps]: "nextRef (fail_open r q e s) = nextRef s"
  by (simp add: fail_open_def Let_def mux_simps)

lemma mux_inv_attach_done [mux_intro]: "mux_inv s \<Longrightarrow> mux_inv (attach_done r k s)"
  by (simp add: attach_done_def mux_simps mux_intro split: kont.splits)

lemma mux_inv_attach_failed [mux_intro]: "mux_inv s \<Longrightarrow> r < nextRef s \<Longrightarrow> mux_inv (attach_failed r k e s)"
  by (simp add: attach_failed_def mux_simps mux_intro split: kont.splits)

lemma mux_inv_attach_rest [mux_intro]: "mux_inv s \<Longrightarrow> r < nextRef s \<Longrightarrow> mux_inv (attach_rest r seed g k s)"
  by (simp add: attach_rest_def Let_def mux_simps mux_intro)

lemma mux_inv_mark [mux_intro]:
  "mux_inv s \<Longrightarrow> r < nextRef s \<Longrightarrow> (\<And>t. t_id (f t) = t_id t \<and> t_closed (f t) = t_closed t \<and> t_pollGen (f t) = t_pollGen t) \<Longrightarrow>
     mux_inv (log_out (SequenceSet r) (upd r f s))"
  by (simp add: mux_inv_def poll_inv_mark) (auto simp: shape_def terminals_ok_def log_out_def upd_def split: if_splits)

lemma mux_inv_on_attach [mux_intro]: "mux_inv s \<Longrightarrow> r < nextRef s \<Longrightarrow> mux_inv (on_attach r h k a s)"
  by (auto simp: on_attach_def Let_def mux_simps poll_of_simps intro!: mux_intro split: answer.splits)

lemma mux_inv_on_history [mux_intro]: "mux_inv s \<Longrightarrow> r < nextRef s \<Longrightarrow> mux_inv (on_history r x g k a s)"
  by (auto simp: on_history_def mux_simps intro!: mux_intro split: answer.splits)

lemmas mux_open_defs = on_open_conn_def on_open_conf_def on_open_list_def on_open_topo_def on_open_create_def on_open_select_def
  on_reopen_conn_def on_reopen_conf_def

lemma mux_inv_opens [mux_intro]:
  "mux_inv s \<Longrightarrow> r < nextRef s \<Longrightarrow> mux_inv (on_open_conn r q a s)"
  "mux_inv s \<Longrightarrow> r < nextRef s \<Longrightarrow> mux_inv (on_open_conf r q a s)"
  "mux_inv s \<Longrightarrow> r < nextRef s \<Longrightarrow> mux_inv (on_open_topo r q a s)"
  "mux_inv s \<Longrightarrow> r < nextRef s \<Longrightarrow> mux_inv (on_open_create r q sel a s)"
  "mux_inv s \<Longrightarrow> r < nextRef s \<Longrightarrow> mux_inv (on_open_select r q a s)"
  "mux_inv s \<Longrightarrow> r < nextRef s \<Longrightarrow> mux_inv (on_reopen_conn r h c a s)"
  "mux_inv s \<Longrightarrow> r < nextRef s \<Longrightarrow> mux_inv (on_reopen_conf r h c a s)"
  by (auto simp: mux_open_defs Let_def mux_simps poll_of_simps intro!: mux_intro split: answer.splits option.splits)

lemma mux_inv_open_list [mux_intro]: "mux_inv s \<Longrightarrow> r < nextRef s \<Longrightarrow> mux_inv (on_open_list r q a s)"
  by (auto simp: on_open_list_def Let_def mux_simps poll_of_simps intro!: mux_intro split: answer.splits option.splits)

lemma terminal_ref: "mux_inv s \<Longrightarrow> map_of (terminals s) key = Some r \<Longrightarrow> r < nextRef s"
  using map_of_SomeD [of "terminals s" key r] by (fastforce simp: mux_inv_def shape_def terminals_ok_def)

lemma terminal_refs: "mux_inv s \<Longrightarrow> r \<in> snd ` set (terminals s) \<Longrightarrow> r < nextRef s"
  by (fastforce simp: mux_inv_def shape_def terminals_ok_def)

lemma mux_inv_splits [mux_intro]:
  "mux_inv s \<Longrightarrow> mux_inv (split_term src key at c s)"
  "mux_inv s \<Longrightarrow> r < nextRef s \<Longrightarrow> mux_inv (on_split_conn r key at c a s)"
  "mux_inv s \<Longrightarrow> r < nextRef s \<Longrightarrow> mux_inv (on_split_conf r key at c a s)"
  by (auto simp: split_term_def on_split_conn_def on_split_conf_def mux_simps poll_of_simps dest: terminal_ref
      intro!: mux_intro split: answer.splits option.splits)

lemma mux_inv_split_created [mux_intro]: "mux_inv s \<Longrightarrow> mux_inv (on_split_created src key c a s)"
proof -
  assume inv: "mux_inv s"
  have "mux_inv (attachCreated src key sid pid c s)" for sid pid
    unfolding attachCreated_def Let_def using inv by (intro mux_intro) (simp_all add: new_term_def mux_simps)
  with inv show ?thesis by (simp add: on_split_created_def mux_simps split: answer.splits)
qed

lemma mux_inv_input [mux_intro]:
  "mux_inv s \<Longrightarrow> mux_inv (write_term key data c s)"
  "mux_inv s \<Longrightarrow> r < nextRef s \<Longrightarrow> mux_inv (on_write r c a s)"
  "mux_inv s \<Longrightarrow> mux_inv (resize_term key sz c s)"
  "mux_inv s \<Longrightarrow> r < nextRef s \<Longrightarrow> mux_inv (on_resize r c a s)"
  by (auto simp: write_term_def on_write_def resize_term_def on_resize_def Let_def mux_simps poll_of_simps dest: terminal_ref
      intro!: mux_intro split: answer.splits option.splits)

lemma mux_inv_lane [mux_intro]: "mux_inv s \<Longrightarrow> r < nextRef s \<Longrightarrow> mux_inv (lane_turn r s)"
  by (auto simp: lane_turn_def Let_def mux_simps poll_of_simps intro!: mux_intro split: list.splits)

lemma poll_inv_delivers: "poll_inv (s\<lparr>mux_log := mux_log s @ map (Deliver r h) ps\<rparr>) = poll_inv s"
  by (rule poll_inv_view) (auto simp: view_def poll_tasks_def poll_timers_def intro!: chunks_quiet)

lemma mux_inv_on_data [mux_intro]: "mux_inv s \<Longrightarrow> mux_inv (on_data key h s)"
proof -
  assume inv: "mux_inv s"
  have "mux_inv (s\<lparr>mux_log := mux_log s @ map (Deliver r h) ps\<rparr>) = mux_inv s" for r ps and s :: mux_mgr
    by (simp add: mux_inv_def poll_inv_delivers) (simp add: shape_def terminals_ok_def)
  with inv show ?thesis by (simp add: on_data_def Let_def mux_simps split: option.splits)
qed

lemma mux_inv_handlers [mux_intro]:
  "mux_inv s \<Longrightarrow> mux_inv (off_data r h s)" "mux_inv s \<Longrightarrow> mux_inv (on_exit key h s)" "mux_inv s \<Longrightarrow> mux_inv (off_exit r h s)"
  by (auto simp: off_data_def on_exit_def off_exit_def mux_simps split: option.splits)

lemma nextRef_handleds [mux_simps]:
  "nextRef (resume_one s r) = nextRef s" "nextRef (stolen_one sid s r) = nextRef s" "nextRef (end_one s r) = nextRef s"
  "nextRef (settle_window surv res s e) = nextRef s" "nextRef (settle_detached surv s d) = nextRef s"
  "nextRef (reattach_one ls s r) = nextRef s"
  by (simp_all add: resume_one_def stolen_one_def end_one_def settle_window_def settle_detached_def reattach_one_def
      Let_def mux_simps split: prod.splits option.splits)

lemma mux_inv_handled [mux_intro]:
  "mux_inv s \<Longrightarrow> r < nextRef s \<Longrightarrow> mux_inv (resume_one s r)"
  "mux_inv s \<Longrightarrow> mux_inv (stolen_one sid s r)"
  "mux_inv s \<Longrightarrow> mux_inv (end_one s r)"
  "mux_inv s \<Longrightarrow> mux_inv (settle_detached surv s d)"
  "mux_inv s \<Longrightarrow> r < nextRef s \<Longrightarrow> mux_inv (reattach_one ls s r)"
  by (auto simp: resume_one_def stolen_one_def end_one_def settle_detached_def reattach_one_def
      Let_def mux_simps intro!: mux_intro split: prod.splits option.splits)

lemma mux_inv_settle_window [mux_intro]:
  assumes inv: "mux_inv s" and r: "snd e < nextRef s"
  shows "mux_inv (settle_window surv res s e)"
proof -
  obtain key r where e: "e = (key, r)" by (cases e)
  show ?thesis
  proof (cases "map_of (terminals s) key = Some r \<and> t_session (objs s r) \<notin> set surv")
    case True
    let ?s = "upd r (\<lambda>t. t\<lparr>t_closed := True\<rparr>) (retire key s)"
    have "key = t_id (objs s r)"
      using inv True map_of_SomeD [of "terminals s" key r] by (fastforce simp: mux_inv_def shape_def terminals_ok_def)
    then have "mux_inv (drop_terminal key ?s)"
      using inv by (intro mux_inv_close) (simp_all add: mux_simps, simp add: retire_def)
    then have "mux_inv (drop_detached key (stopPolling r (drop_terminal key ?s)))" by (simp add: mux_simps mux_inv_stop)
    with True show ?thesis by (simp add: settle_window_def e drop_commute)
  next
    case False
    with inv r show ?thesis by (auto simp: settle_window_def e intro: mux_intro)
  qed
qed

lemma mux_inv_fold: "mux_inv s \<Longrightarrow> (\<And>x s'. x \<in> set xs \<Longrightarrow> mux_inv s' \<Longrightarrow> nextRef s' = nextRef s \<Longrightarrow> mux_inv (f s' x) \<and> nextRef (f s' x) = nextRef s)
   \<Longrightarrow> mux_inv (foldl f s xs) \<and> nextRef (foldl f s xs) = nextRef s"
  by (induction xs rule: rev_induct) simp_all

lemma mux_inv_stop_all [mux_intro]: "mux_inv s \<Longrightarrow> mux_inv (stop_all rs s)"
  unfolding stop_all_def by (rule mux_inv_fold [THEN conjunct1]) (simp_all add: mux_simps mux_intro)

lemma nextRef_stop_all [mux_simps]: "nextRef (stop_all rs s) = nextRef s"
  unfolding stop_all_def by (induction rs arbitrary: s) (simp_all add: mux_simps)

lemma mux_inv_loops [mux_intro]:
  "mux_inv s \<Longrightarrow> list_all (\<lambda>r. r < nextRef s) rs \<Longrightarrow> mux_inv (foldl resume_one s rs)"
  "mux_inv s \<Longrightarrow> mux_inv (foldl (stolen_one sid) s rs)"
  "mux_inv s \<Longrightarrow> mux_inv (foldl end_one s rs)"
  "mux_inv s \<Longrightarrow> mux_inv (foldl (settle_detached surv) s ds)"
  "mux_inv s \<Longrightarrow> list_all (\<lambda>r. r < nextRef s) rs \<Longrightarrow> mux_inv (foldl (reattach_one ls) s rs)"
  "mux_inv s \<Longrightarrow> list_all (\<lambda>e. snd e < nextRef s) es \<Longrightarrow> mux_inv (foldl (settle_window surv res) s es)"
  "mux_inv s \<Longrightarrow> mux_inv (foldl (\<lambda>s key. drop_detached key (retire key s)) s keys)"
  by (rule mux_inv_fold [THEN conjunct1]; simp add: mux_simps mux_intro list_all_iff)+

lemma mux_inv_closes [mux_intro]:
  "mux_inv s \<Longrightarrow> mux_inv (close_detached key kill c s)"
  "mux_inv s \<Longrightarrow> mux_inv (close_missing key kill c s)"
  "mux_inv s \<Longrightarrow> mux_inv (on_close_conn key kill c a s)"
  "mux_inv s \<Longrightarrow> mux_inv (on_close_list key kill c a s)"
  "mux_inv s \<Longrightarrow> mux_inv (on_close_detached key c a s)"
  "mux_inv s \<Longrightarrow> mux_inv (on_close_detach c a s)"
  "mux_inv s \<Longrightarrow> r < nextRef s \<Longrightarrow> mux_inv (on_close_destroy r resume c a s)"
  by (auto simp: close_detached_def close_missing_def on_close_conn_def on_close_list_def on_close_detached_def
      on_close_detach_def on_close_destroy_def mux_simps poll_of_simps intro!: mux_intro split: answer.splits option.splits)

lemma mux_inv_close_term [mux_intro]: "mux_inv s \<Longrightarrow> mux_inv (close_term key kill c s)"
  by (auto simp: close_term_def Let_def mux_simps poll_of_simps dest: terminal_ref intro!: mux_intro split: option.splits)

lemma live_refs_below: "mux_inv s \<Longrightarrow> list_all (\<lambda>r. r < nextRef s) (filter P (live_refs s))"
  "mux_inv s \<Longrightarrow> list_all (\<lambda>r. r < nextRef s) (filter P (map snd (terminals s)))"
  "mux_inv s \<Longrightarrow> list_all (\<lambda>r. r < nextRef s) (map snd (filter Q (terminals s)))"
  using terminal_refs [of s] by (auto simp: list_all_iff live_refs_def)

lemma mux_inv_structures [mux_intro]:
  "mux_inv s \<Longrightarrow> mux_inv (reconfigureAndReattach s)"
  "mux_inv s \<Longrightarrow> list_all (\<lambda>r. r < nextRef s) rs \<Longrightarrow> mux_inv (on_reconf rs a s)"
  "mux_inv s \<Longrightarrow> list_all (\<lambda>r. r < nextRef s) rs \<Longrightarrow> mux_inv (on_inventory rs a s)"
  "mux_inv s \<Longrightarrow> mux_inv (on_stolen sid s)"
  "mux_inv s \<Longrightarrow> mux_inv (on_ses_conn sid c a s)"
  "mux_inv s \<Longrightarrow> list_all (\<lambda>r. r < nextRef s) res \<Longrightarrow> mux_inv (on_ses_destroy live keys res c a s)"
  using live_refs_below [of s]
  by (auto simp: reconfigureAndReattach_def established_def on_reconf_def on_inventory_def on_stolen_def on_ses_conn_def
      on_ses_destroy_def Let_def mux_simps poll_of_simps simp del: refs_of.simps
      intro!: mux_intro split: answer.splits) (auto simp: poll_of_simps mux_simps intro: mux_intro)

lemma mux_inv_windows [mux_intro]:
  "mux_inv s \<Longrightarrow> mux_inv (on_win_conn sid wid c a s)"
  "mux_inv s \<Longrightarrow> list_all (\<lambda>r. r < nextRef s) (map snd est @ res) \<Longrightarrow> mux_inv (on_win_destroy est det res c a s)"
proof -
  show "mux_inv s \<Longrightarrow> mux_inv (on_win_conn sid wid c a s)"
    using live_refs_below [of s]
    by (auto simp: on_win_conn_def Let_def mux_simps poll_of_simps intro!: mux_intro split: answer.splits)
  show "mux_inv s \<Longrightarrow> list_all (\<lambda>r. r < nextRef s) (map snd est @ res) \<Longrightarrow> mux_inv (on_win_destroy est det res c a s)"
    by (auto simp: on_win_destroy_def Let_def mux_simps list_all_iff intro!: mux_intro split: answer.splits)
qed

lemma mux_inv_lists [mux_intro]:
  "mux_inv s \<Longrightarrow> mux_inv (on_list_conn c a s)"
  "mux_inv s \<Longrightarrow> mux_inv (on_list_conf c a s)"
  "mux_inv s \<Longrightarrow> mux_inv (on_listed c a s)"
  "mux_inv s \<Longrightarrow> mux_inv (scrollback key c s)"
  "mux_inv s \<Longrightarrow> (case r of None \<Rightarrow> True | Some r \<Rightarrow> r < nextRef s) \<Longrightarrow> mux_inv (on_scroll_conn key r c a s)"
  "mux_inv s \<Longrightarrow> mux_inv (on_scroll_conf key c a s)"
  "mux_inv s \<Longrightarrow> mux_inv (on_scroll_list key c a s)"
  "mux_inv s \<Longrightarrow> mux_inv (on_call_end c a s)"
  by (auto simp: on_list_conn_def on_list_conf_def on_listed_def scrollback_def on_scroll_conn_def on_scroll_conf_def
      on_scroll_list_def on_call_end_def Let_def mux_simps poll_of_simps dest: terminal_ref intro!: mux_intro
      split: answer.splits option.splits)

lemma mux_inv_finals [mux_intro]:
  "mux_inv s \<Longrightarrow> r < nextRef s \<Longrightarrow> mux_inv (final_failed r e s)"
  "mux_inv s \<Longrightarrow> r < nextRef s \<Longrightarrow> mux_inv (on_final_conn r a s)"
  "mux_inv s \<Longrightarrow> r < nextRef s \<Longrightarrow> mux_inv (on_final_destroy r a s)"
  by (auto simp: final_failed_def on_final_conn_def on_final_destroy_def mux_simps poll_of_simps intro!: mux_intro
      split: answer.splits)

lemma close_all_step: "mux_inv s \<Longrightarrow> mux_inv (close_all_one s r)"
  by (simp add: close_all_one_def mux_intro)

lemma mux_inv_closeAll [mux_intro]: "mux_inv s \<Longrightarrow> mux_inv (closeAll s)"
proof -
  have "mux_inv s \<Longrightarrow> mux_inv (foldl close_all_one s rs)" for rs
    by (induction rs arbitrary: s) (simp_all add: close_all_step)
  then show "mux_inv s \<Longrightarrow> ?thesis" by (simp add: closeAll_def)
qed

lemma mux_inv_shutdown [mux_intro]: "mux_inv s \<Longrightarrow> mux_inv (on_shutdown c a s)"
  by (auto simp: on_shutdown_def mux_simps intro!: mux_intro split: answer.splits)

text \<open>The answer to a poll: the poll itself is no longer under way.\<close>

lemma pollGen_prims [simp]:
  "t_pollGen (objs (log_out out s) x) = t_pollGen (objs s x)" "t_pollGen (objs (ask req k s) x) = t_pollGen (objs s x)"
  "t_pollGen (objs (retire key s) x) = t_pollGen (objs s x)" "t_pollGen (objs (drop_terminal key s) x) = t_pollGen (objs s x)"
  "t_pollGen (objs (drop_detached key s) x) = t_pollGen (objs s x)" "t_pollGen (objs (clear_timer i s) x) = t_pollGen (objs s x)"
  "t_pollGen (objs (emitData r p s) x) = t_pollGen (objs s x)" "t_pollGen (objs (poll r g s) x) = t_pollGen (objs s x)"
  "t_pollGen (objs (clear_final r s) x) = t_pollGen (objs s x)" "t_pollGen (objs (forget r s) x) = t_pollGen (objs s x)"
  by (simp_all add: log_out_def ask_def retire_def drop_terminal_def drop_detached_def clear_timer_def emitData_def poll_def
      clear_final_def forget_def upd_def Let_def split: option.splits)

lemma failure_pollGen:
  "handleRequestFailure r e s = s \<or> t_pollGen (objs (handleRequestFailure r e s) r) = t_pollGen (objs s r) + 1"
  by (simp add: handleRequestFailure_def completeExited_def emitExit_def startPolling_def pauseForReconnect_def Let_def)
     (simp add: upd_def)

lemma finalize_pollGen:
  "finalizeExited r s = s \<or> t_pollGen (objs (finalizeExited r s) r) = t_pollGen (objs s r) + 1"
  by (simp add: finalizeExited_def finalize_ask_def) (simp add: upd_def)

lemma shape_outputs: "shape (foldl (take_output r) s outs) = shape s \<and> nextRef (foldl (take_output r) s outs) = nextRef s"
proof -
  have "shape (take_output r s out) = shape s \<and> nextRef (take_output r s out) = nextRef s" for s out
    by (auto simp: take_output_def emitData_def Let_def upd_def log_out_def shape_def terminals_ok_def split: if_splits)
  then show ?thesis by (induction outs arbitrary: s) simp_all
qed

lemma mux_inv_on_poll:
  assumes "mux_inv s" and "r < nextRef s" and "gen = t_pollGen (objs s r) \<Longrightarrow> no_poll r s"
    and "gen = t_pollGen (objs s r) \<Longrightarrow> \<forall>m\<in>set (chunks_since r (mux_log s)). m < n"
    and "\<And>outs x. a = Outputs outs x \<Longrightarrow> output_ok n outs"
  shows "mux_inv (on_poll r gen a s)"
proof (cases a)
  case (Outputs outs exited)
  show ?thesis
  proof (cases "poll_live r gen s")
    case False
    with Outputs assms(1-3) show ?thesis by (simp add: on_poll_def mux_inv_again)
  next
    case True
    then have g: "gen = t_pollGen (objs s r)" by (simp add: poll_live_def)
    let ?s = "foldl (take_output r) s outs"
    have inv: "mux_inv ?s" "no_poll r ?s" "r < nextRef ?s"
      using poll_inv_outputs [of s r n outs] assms g Outputs shape_outputs [of r s outs] by (simp_all add: mux_inv_def)
    have "mux_inv (poll_again r gen (if exited \<and> outs = [] then finalizeExited r ?s else ?s))"
    proof (rule mux_inv_again)
      show "mux_inv (if exited \<and> outs = [] then finalizeExited r ?s else ?s)" using inv assms(1,2) by (simp add: mux_intro)
      show "r < nextRef (if exited \<and> outs = [] then finalizeExited r ?s else ?s)" using inv assms(2) by (simp add: mux_simps)
      assume e: "gen = t_pollGen (objs (if exited \<and> outs = [] then finalizeExited r ?s else ?s) r)"
      show "no_poll r (if exited \<and> outs = [] then finalizeExited r ?s else ?s)"
      proof (cases "exited \<and> outs = []")
        case False
        then have "(if exited \<and> outs = [] then finalizeExited r ?s else ?s) = ?s" by (rule if_not_P)
        with inv show ?thesis by (simp only:)
      next
        case t: True
        then have "?s = s" by simp
        then have "finalizeExited r ?s = ?s" using finalize_pollGen [of r ?s] e g t by auto
        then have "(if exited \<and> outs = [] then finalizeExited r ?s else ?s) = ?s" by (simp only: if_cancel)
        with inv show ?thesis by (simp only:)
      qed
    qed
    with True Outputs show ?thesis by (simp add: on_poll_def Let_def)
  qed
next
  case (Failed e)
  let ?s = "if poll_live r gen s then handleRequestFailure r e s else s"
  have "mux_inv (poll_again r gen ?s)"
  proof (rule mux_inv_again)
    show "mux_inv ?s" "r < nextRef ?s" using assms(1,2) by (simp_all add: mux_intro mux_simps)
    assume "gen = t_pollGen (objs ?s r)"
    then have "?s = s" using failure_pollGen [of r e s] by (auto simp: poll_live_def split: if_splits)
    with assms(3) \<open>gen = t_pollGen (objs ?s r)\<close> show "no_poll r ?s" by metis
  qed
  with Failed show ?thesis by (simp add: on_poll_def)
qed (use assms(1) in \<open>simp_all add: on_poll_def\<close>)

text \<open>Taking a task or a timer off the list before it runs.\<close>

lemma filter_removed:
  assumes "map_of ts i = Some k" and "\<exists>x\<in>set (f k). P x"
  shows "length (filter P (concat (map (\<lambda>(i, k). f k) (omap_del i ts)))) < length (filter P (concat (map (\<lambda>(i, k). f k) ts)))"
  using assms(1)
proof (induction ts)
  case Nil
  then show ?case by simp
next
  case (Cons t ts)
  obtain j l where t: "t = (j, l)" by (cases t)
  show ?case
  proof (cases "j = i")
    case True
    with Cons.prems t have "l = k" by simp
    then have "0 < length (filter P (f l))" using assms(2) by (simp add: filter_empty_conv)
    moreover have "length (filter P (concat (map (\<lambda>(i, k). f k) (omap_del i ts)))) \<le> length (filter P (concat (map (\<lambda>(i, k). f k) ts)))"
      by (rule sub_concat_length)
    moreover have "omap_del i (t # ts) = omap_del i ts" using True t by (simp add: omap_del_def)
    moreover have "concat (map (\<lambda>(i, k). f k) (t # ts)) = f l @ concat (map (\<lambda>(i, k). f k) ts)" using t by simp
    ultimately show ?thesis by (simp only: filter_append length_append)
  next
    case False
    with Cons t show ?thesis by (simp add: omap_del_def)
  qed
qed

lemma remove1_concat: "length (filter P (concat (map f (remove1 x ts)))) \<le> length (filter P (concat (map f ts)))"
  by (induction ts) auto

lemma remove1_filtered:
  "x \<in> set ts \<Longrightarrow> \<exists>y\<in>set (f x). P y \<Longrightarrow>
     length (filter P (concat (map f (remove1 x ts)))) < length (filter P (concat (map f ts)))"
  by (induction ts) (auto simp: filter_empty_conv)

lemma poll_inv_untask: "poll_inv s \<Longrightarrow> poll_inv (s\<lparr>tasks := remove1 x (tasks s)\<rparr>)"
  unfolding poll_inv_def
proof
  fix r assume "\<forall>r. poll_ok s r"
  then have "poll_ok s r" by blast
  then show "poll_ok (s\<lparr>tasks := remove1 x (tasks s)\<rparr>) r"
    by (rule poll_ok_shrink)
       (auto simp: poll_tasks_def poll_timers_def remove1_concat dest: notin_set_remove1 set_remove1_subset [THEN subsetD])
qed

lemma poll_inv_untimer: "poll_inv s \<Longrightarrow> poll_inv (s\<lparr>timers := omap_del i (timers s)\<rparr>)"
  unfolding poll_inv_def
proof
  fix r assume "\<forall>r. poll_ok s r"
  then have "poll_ok s r" by blast
  then show "poll_ok (s\<lparr>timers := omap_del i (timers s)\<rparr>) r"
    by (rule poll_ok_shrink) (auto simp: poll_tasks_def poll_timers_def sub_concat_length omap_del_member)
qed

lemma mux_inv_removed:
  "mux_inv s \<Longrightarrow> mux_inv (s\<lparr>tasks := remove1 x (tasks s)\<rparr>)" "mux_inv s \<Longrightarrow> mux_inv (s\<lparr>timers := omap_del i (timers s)\<rparr>)"
proof -
  assume inv: "mux_inv s"
  have "\<forall>(j, k)\<in>set (remove1 x (tasks s)). \<forall>r\<in>set (refs_of k). r < nextRef s"
    using inv set_remove1_subset [of x "tasks s"] unfolding mux_inv_def shape_def by blast
  with inv show "mux_inv (s\<lparr>tasks := remove1 x (tasks s)\<rparr>)"
    using poll_inv_untask [of s x] by (simp add: mux_inv_def shape_def terminals_ok_def)
  from inv show "mux_inv (s\<lparr>timers := omap_del i (timers s)\<rparr>)"
    using poll_inv_untimer [of s i] by (auto simp: mux_inv_def shape_def terminals_ok_def omap_del_member)
qed

lemma answered_poll:
  assumes "mux_inv s" and "map_of (tasks s) i = Some (CPoll r g n)" and "g = t_pollGen (objs s r)"
  shows "no_poll r (s\<lparr>tasks := remove1 (i, CPoll r g n) (tasks s)\<rparr>)" and "\<forall>m\<in>set (chunks_since r (mux_log s)). m < n"
proof -
  have ok: "poll_ok s r" using assms(1) by (simp add: mux_inv_def poll_inv_def)
  let ?P = "\<lambda>(h, m). h = t_pollGen (objs s r)"
  have "length (filter ?P (concat (map (\<lambda>(i, k). poll_of r k) (remove1 (i, CPoll r g n) (tasks s)))))
      < length (filter ?P (concat (map (\<lambda>(i, k). poll_of r k) (tasks s))))"
    by (rule remove1_filtered [OF map_of_SomeD [OF assms(2)]]) (simp add: poll_of_def assms(3))
  then have "current_polls r (s\<lparr>tasks := remove1 (i, CPoll r g n) (tasks s)\<rparr>) < current_polls r s"
    by (simp add: current_polls_def poll_tasks_def poll_timers_def)
  moreover have "current_polls r s \<le> 1" using ok by (simp add: poll_ok_def)
  ultimately show "no_poll r (s\<lparr>tasks := remove1 (i, CPoll r g n) (tasks s)\<rparr>)" by (simp add: no_poll_def)
  have "(g, n) \<in> set (poll_tasks r s)"
    using map_of_SomeD [OF assms(2)] by (force simp: poll_tasks_def poll_of_def)
  with ok assms(3) show "\<forall>m\<in>set (chunks_since r (mux_log s)). m < n" unfolding poll_ok_def by blast
qed

lemma fired_poll:
  assumes "mux_inv s" and "map_of (timers s) i = Some (TPoll r g)" and "g = t_pollGen (objs s r)"
  shows "no_poll r (s\<lparr>timers := omap_del i (timers s)\<rparr>)"
proof -
  have ok: "poll_ok s r" using assms(1) by (simp add: mux_inv_def poll_inv_def)
  let ?P = "\<lambda>h. h = t_pollGen (objs s r)"
  have "length (filter ?P (concat (map (\<lambda>(i, k). timer_of r k) (omap_del i (timers s)))))
      < length (filter ?P (concat (map (\<lambda>(i, k). timer_of r k) (timers s))))"
    by (rule filter_removed [OF assms(2)]) (simp add: timer_of_def assms(3))
  then have "current_polls r (s\<lparr>timers := omap_del i (timers s)\<rparr>) < current_polls r s"
    by (simp add: current_polls_def poll_tasks_def poll_timers_def)
  moreover have "current_polls r s \<le> 1" using ok by (simp add: poll_ok_def)
  ultimately show ?thesis by (simp add: no_poll_def)
qed

definition mux_event_ok :: "mux_mgr \<Rightarrow> mux_event \<Rightarrow> bool" where
  "mux_event_ok s e =
     (case e of
        Answered i a \<Rightarrow>
          (case (map_of (tasks s) i, a) of (Some (CPoll r g n), Outputs outs x) \<Rightarrow> output_ok n outs | _ \<Rightarrow> True)
      | _ \<Rightarrow> True)"

lemma mux_inv_continue:
  assumes "mux_inv s" and "list_all (\<lambda>r. r < nextRef s) (refs_of k)" and "\<nexists>r g n. k = CPoll r g n"
  shows "mux_inv (continue_task k a s)"
proof (cases k)
  case (CScrollConn key r c)
  with assms(2) have "case r of None \<Rightarrow> True | Some r \<Rightarrow> r < nextRef s" by (cases r) simp_all
  with assms(1) CScrollConn show ?thesis by (simp add: continue_task_def mux_intro)
next
  case (CShutConn c)
  with assms(1) show ?thesis
    by (auto simp: continue_task_def mux_simps poll_of_simps intro!: mux_intro split: answer.splits)
next
  case (CPoll r g n)
  with assms(3) show ?thesis by blast
qed (use assms(1,2) in \<open>simp_all add: continue_task_def mux_intro\<close>)

lemma mux_inv_step:
  assumes "mux_inv s" and "mux_event_ok s e"
  shows "mux_inv (mux_step s e)"
proof (cases e)
  case (Answered i a)
  show ?thesis
  proof (cases "map_of (tasks s) i")
    case None
    with Answered assms show ?thesis by (simp add: mux_step_def)
  next
    case (Some k)
    let ?s = "s\<lparr>tasks := remove1 (i, k) (tasks s)\<rparr>"
    have inv: "mux_inv ?s" by (rule mux_inv_removed(1) [OF assms(1)])
    have refs: "list_all (\<lambda>r. r < nextRef s) (refs_of k)"
      using assms(1) map_of_SomeD [OF Some] by (fastforce simp: mux_inv_def shape_def list_all_iff)
    have "mux_inv (continue_task k a ?s)" if "fits k a"
    proof (cases "\<exists>r g n. k = CPoll r g n")
      case False
      with inv refs show ?thesis by (intro mux_inv_continue) simp_all
    next
      case True
      then obtain r g n where k: "k = CPoll r g n" by blast
      have "mux_inv (on_poll r g a ?s)"
      proof (rule mux_inv_on_poll [OF inv])
        show "r < nextRef ?s" using refs k by simp
        show "g = t_pollGen (objs ?s r) \<Longrightarrow> no_poll r ?s" "g = t_pollGen (objs ?s r) \<Longrightarrow> \<forall>m\<in>set (chunks_since r (mux_log ?s)). m < n"
          using answered_poll [OF assms(1), of i r g n] Some k by simp_all
        show "a = Outputs outs x \<Longrightarrow> output_ok n outs" for outs x
          using assms(2) Answered Some k by (simp add: mux_event_ok_def)
      qed
      with k show ?thesis by (simp add: continue_task_def)
    qed
    with Answered Some assms(1) show ?thesis by (simp add: mux_step_def)
  qed
next
  case (TimerFires i)
  show ?thesis
  proof (cases "map_of (timers s) i")
    case None
    with TimerFires assms show ?thesis by (simp add: mux_step_def)
  next
    case (Some tm)
    let ?s = "s\<lparr>timers := omap_del i (timers s)\<rparr>"
    have inv: "mux_inv ?s" by (rule mux_inv_removed(2) [OF assms(1)])
    have ref: "timer_ref tm < nextRef s"
      using assms(1) map_of_SomeD [OF Some] by (fastforce simp: mux_inv_def shape_def)
    have "mux_inv (on_timer tm ?s)"
    proof (cases tm)
      case (TPoll r g)
      with inv ref fired_poll [OF assms(1), of i r g] Some show ?thesis
        by (auto simp: on_timer_def intro!: mux_inv_poll)
    next
      case (TFinal r)
      with inv ref show ?thesis by (auto simp: on_timer_def finalize_ask_def poll_of_simps intro!: mux_intro)
    qed
    with TimerFires Some show ?thesis by (simp add: mux_step_def)
  qed
qed (use assms(1) in \<open>auto simp: mux_step_def poll_of_simps intro!: mux_intro\<close>)

text \<open>
  What is relied on of the daemon: the chunks of an answer ascend from the number asked for.
\<close>

definition mux_run_ok :: "mux_event list \<Rightarrow> bool" where
  "mux_run_ok es \<longleftrightarrow> list_all (\<lambda>j. mux_event_ok (mux_run (take j es)) (es ! j)) [0..<length es]"

lemma mux_run_ok_iff: "mux_run_ok es \<longleftrightarrow> (\<forall>j<length es. mux_event_ok (mux_run (take j es)) (es ! j))"
  by (auto simp: mux_run_ok_def list_all_iff)

lemma mux_inv_initial: "mux_inv mux_start"
  by (simp add: mux_inv_def shape_def terminals_ok_def poll_inv_def poll_ok_def current_polls_def poll_tasks_def
      poll_timers_def mux_start_def chunks_since_def)

lemma mux_run_ok_prefix: "mux_run_ok (es @ [e]) \<Longrightarrow> mux_run_ok es"
  unfolding mux_run_ok_iff
proof (intro allI impI)
  fix j assume "\<forall>j<length (es @ [e]). mux_event_ok (mux_run (take j (es @ [e]))) ((es @ [e]) ! j)" and "j < length es"
  then show "mux_event_ok (mux_run (take j es)) (es ! j)" by (elim allE [of _ j]) (simp add: nth_append)
qed

lemma mux_inv_run: "mux_run_ok es \<Longrightarrow> mux_inv (mux_run es)"
proof (induction es rule: rev_induct)
  case Nil
  then show ?case by (simp add: mux_run_def mux_inv_initial)
next
  case (snoc e es)
  have "mux_inv (mux_run es)" by (rule snoc.IH [OF mux_run_ok_prefix [OF snoc.prems]])
  moreover have "mux_event_ok (mux_run es) e" using snoc.prems unfolding mux_run_ok_iff by (elim allE [of _ "length es"]) simp
  ultimately show ?case using mux_inv_step by (simp add: mux_run_def)
qed

text \<open>What one answered poll adds: every chunk to the log and to every handler, or to the buffer.\<close>

definition shown :: "nat \<Rightarrow> nat list \<Rightarrow> (nat \<times> string) list \<Rightarrow> mux_out list" where
  "shown r hs outs = concat (map (\<lambda>(n, d). Emit r (Chunk n d) # map (\<lambda>h. Deliver r h (Chunk n d)) hs) outs)"

lemma take_outputs:
  "mux_log (foldl (take_output r) s outs) = mux_log s @ shown r (t_handlers (objs s r)) outs
   \<and> t_buffered (objs (foldl (take_output r) s outs) r) =
       t_buffered (objs s r) @ (if t_handlers (objs s r) = [] then map (\<lambda>(n, d). Chunk n d) outs else [])
   \<and> t_handlers (objs (foldl (take_output r) s outs) r) = t_handlers (objs s r)"
proof (induction outs arbitrary: s)
  case Nil
  show ?case by (simp add: shown_def)
next
  case (Cons out outs)
  show ?case
    using Cons.IH [of "take_output r s out"]
    by (cases out) (auto simp: take_output_def emitData_def log_out_def upd_def Let_def shown_def)
qed

lemma poll_answer_shown:
  assumes "map_of (tasks s) i = Some (CPoll r g n)" and "outs \<noteq> [] \<or> \<not> exited"
  shows "let s' = mux_step s (Answered i (Outputs outs exited));
             live = (\<not> t_closed (objs s r) \<and> t_pollGen (objs s r) = g)
    in mux_log s' = mux_log s @ (if live then shown r (t_handlers (objs s r)) outs else [])
     \<and> t_buffered (objs s' r) = t_buffered (objs s r)
         @ (if live \<and> t_handlers (objs s r) = [] then map (\<lambda>(n, d). Chunk n d) outs else [])"
proof -
  let ?s = "s\<lparr>tasks := remove1 (i, CPoll r g n) (tasks s)\<rparr>"
  have step: "mux_step s (Answered i (Outputs outs exited)) = on_poll r g (Outputs outs exited) ?s"
    using assms(1) by (simp add: mux_step_def fits_def continue_task_def)
  have again: "mux_log (poll_again r g x) = mux_log x" "t_buffered (objs (poll_again r g x) r) = t_buffered (objs x r)" for x
    by (simp_all add: poll_again_def arm_def upd_def Let_def)
  have "\<not> (exited \<and> outs = [])" using assms(2) by auto
  with step again take_outputs [of r ?s outs] show ?thesis
    by (auto simp: on_poll_def poll_live_def Let_def)
qed

text \<open>
  C31. The output of a terminal is shown once and in order, whatever happens at the same time:
  reopening, splitting, closing, reconnects, thefts, failed and late answers, timers (answers
  to a poll from \<open>n\<close> being numbered upwards from \<open>n\<close>). At every moment at most one poll of a
  terminal is under way in its current polling generation; the chunks it emitted since it
  last took over a sequence number from the daemon ascend strictly; and every terminal the
  manager can address is open and stands under its own key, once. An answer to a poll of the
  current generation of a terminal that is not closed emits every chunk of it, in order, to
  every handler, or to the buffer when there is no handler yet, and nothing else; an answer to
  an older poll, or for a closed terminal, emits nothing. (An exit report without chunks,
  which starts the final round, is left out of the last two sentences.)
\<close>

theorem mux_output_once:
  assumes "mux_run_ok es"
  shows "let s = mux_run es in terminals_ok s \<and> current_polls r s \<le> 1
    \<and> sorted_wrt (<) (chunks_since r (mux_log s))
    \<and> (\<forall>i g n outs exited. map_of (tasks s) i = Some (CPoll r g n) \<and> (outs \<noteq> [] \<or> \<not> exited) \<longrightarrow>
        (let s' = mux_step s (Answered i (Outputs outs exited));
             live = (\<not> t_closed (objs s r) \<and> t_pollGen (objs s r) = g)
         in mux_log s' = mux_log s @ (if live then shown r (t_handlers (objs s r)) outs else [])
          \<and> t_buffered (objs s' r) = t_buffered (objs s r)
              @ (if live \<and> t_handlers (objs s r) = [] then map (\<lambda>(n, d). Chunk n d) outs else [])))"
  using mux_inv_run [OF assms] poll_answer_shown [of "mux_run es" _ r]
  by (simp add: mux_inv_def shape_def poll_inv_def poll_ok_def Let_def)

section \<open>The resize lane\<close>

definition newest_step :: "nat \<Rightarrow> (nat \<times> nat) option \<Rightarrow> mux_out \<Rightarrow> (nat \<times> nat) option" where
  "newest_step r z out = (case out of ResizeCalled r' z' \<Rightarrow> if r' = r then Some z' else z | _ \<Rightarrow> z)"

definition newest_size :: "nat \<Rightarrow> mux_out list \<Rightarrow> (nat \<times> nat) option" where
  "newest_size r log = foldl (newest_step r) None log"

definition is_resize :: "nat \<Rightarrow> task \<Rightarrow> bool" where
  "is_resize r k \<longleftrightarrow> (case k of CResize r' c \<Rightarrow> r' = r | _ \<Rightarrow> False)"

definition resizes :: "nat \<Rightarrow> mux_mgr \<Rightarrow> nat" where
  "resizes r s = length (filter (\<lambda>(i, k). is_resize r k) (tasks s))"

definition lane_view :: "nat \<Rightarrow> mux_mgr \<Rightarrow> resize_link list \<times> bool \<times> nat \<times> nat \<times> (nat \<times> nat) option" where
  "lane_view r s = (t_lane (objs s r), t_resizing (objs s r), t_resizeGeneration (objs s r), resizes r s, newest_size r (mux_log s))"

definition lane_ok :: "resize_link list \<times> bool \<times> nat \<times> nat \<times> (nat \<times> nat) option \<Rightarrow> bool" where
  "lane_ok v = (case v of (lane, busy, gen, n, newest) \<Rightarrow>
     n = (if busy then 1 else 0) \<and> sorted_wrt (<) (map fst lane)
     \<and> (lane \<noteq> [] \<longrightarrow> fst (last lane) = gen \<and> Some (fst (snd (last lane))) = newest))"

definition is_call :: "mux_out \<Rightarrow> bool" where
  "is_call out \<longleftrightarrow> (case out of ResizeCalled r z \<Rightarrow> True | _ \<Rightarrow> False)"

lemma newest_quiet: "\<not> is_call out \<Longrightarrow> newest_size r (log @ [out]) = newest_size r log"
  by (cases out) (simp_all add: newest_size_def newest_step_def is_call_def)

lemma newest_delivers: "newest_size r (log @ map (Deliver x h) ps) = newest_size r log"
  "newest_size r (log @ map (\<lambda>h. Deliver x h p) hs) = newest_size r log"
  by (induction ps rule: rev_induct, simp_all add: newest_size_def newest_step_def)
     (induction hs rule: rev_induct, simp_all add: newest_size_def newest_step_def)

named_theorems lane_simps "what leaves the resize lane alone"

lemma lane_upd [lane_simps]:
  "(\<And>t. t_lane (f t) = t_lane t \<and> t_resizing (f t) = t_resizing t \<and> t_resizeGeneration (f t) = t_resizeGeneration t) \<Longrightarrow>
     lane_view r (upd x f s) = lane_view r s"
  by (simp add: lane_view_def upd_def resizes_def)

lemma lane_log [lane_simps]: "\<not> is_call out \<Longrightarrow> lane_view r (log_out out s) = lane_view r s"
  by (simp add: lane_view_def log_out_def resizes_def newest_quiet)

lemma lane_ask [lane_simps]: "\<not> is_resize r k \<Longrightarrow> lane_view r (ask req k s) = lane_view r s"
  by (simp add: lane_view_def ask_def resizes_def newest_quiet is_call_def)

lemma lane_prims [lane_simps]:
  "lane_view r (retire key s) = lane_view r s" "lane_view r (drop_terminal key s) = lane_view r s"
  "lane_view r (drop_detached key s) = lane_view r s" "lane_view r (detach_entry key sid pid n rec s) = lane_view r s"
  "lane_view r (clear_timer i s) = lane_view r s" "lane_view r (s\<lparr>detached := x\<rparr>) = lane_view r s"
  "lane_view r (s\<lparr>retired := y\<rparr>) = lane_view r s" "lane_view r (s\<lparr>timers := tms\<rparr>) = lane_view r s"
  by (simp_all add: lane_view_def retire_def drop_terminal_def drop_detached_def detach_entry_def clear_timer_def resizes_def
      split: option.splits)

lemma lane_emit [lane_simps]: "lane_view r (emitData x p s) = lane_view r s"
proof -
  have "newest_size r ((mux_log s @ [Emit x p]) @ map (\<lambda>h. Deliver x h p) hs) = newest_size r (mux_log s)" for hs
    by (simp only: newest_delivers) (simp add: newest_quiet is_call_def)
  then show ?thesis by (simp add: emitData_def Let_def lane_view_def log_out_def upd_def resizes_def newest_quiet is_call_def)
qed

declare is_resize_def [lane_simps] is_call_def [lane_simps]

lemma lane_stop [lane_simps]: "lane_view r (stopPolling x s) = lane_view r s"
  by (simp add: stopPolling_def lane_simps)

lemma lane_poll [lane_simps]: "lane_view r (poll x g s) = lane_view r s"
  by (simp add: poll_def Let_def lane_simps)

lemma lane_arm [lane_simps]:
  "(\<And>i t. t_lane (f i t) = t_lane t \<and> t_resizing (f i t) = t_resizing t \<and> t_resizeGeneration (f i t) = t_resizeGeneration t) \<Longrightarrow>
     lane_view r (arm tm f x s) = lane_view r s"
  by (simp add: arm_def Let_def lane_simps) (simp add: lane_view_def resizes_def)

lemma lane_small [lane_simps]:
  "lane_view r (startPolling x s) = lane_view r s" "lane_view r (pauseForReconnect x s) = lane_view r s"
  "lane_view r (forget x s) = lane_view r s" "lane_view r (clear_final x s) = lane_view r s"
  "lane_view r (emitExit x info s) = lane_view r s" "lane_view r (ret c s) = lane_view r s"
  "lane_view r (raise c e s) = lane_view r s" "lane_view r (shut x s) = lane_view r s"
  by (simp_all add: startPolling_def pauseForReconnect_def forget_def clear_final_def emitExit_def ret_def raise_def shut_def
      Let_def lane_simps split: option.splits)

lemma lane_mid [lane_simps]:
  "lane_view r (completeExited x s) = lane_view r s" "lane_view r (abandonExitFinalization x s) = lane_view r s"
  "lane_view r (reportRecoveredDaemonExit x s) = lane_view r s" "lane_view r (attach x h k s) = lane_view r s"
  "lane_view r (finalize_ask x s) = lane_view r s"
  by (simp_all add: completeExited_def abandonExitFinalization_def reportRecoveredDaemonExit_def attach_def finalize_ask_def
      Let_def lane_simps)

lemma lane_mid2 [lane_simps]:
  "lane_view r (handleRequestFailure x e s) = lane_view r s" "lane_view r (reattach x b c s) = lane_view r s"
  "lane_view r (finalizeExited x s) = lane_view r s"
  by (simp_all add: handleRequestFailure_def reattach_def finalizeExited_def lane_simps)

lemma lane_fold: "(\<And>x s'. lane_view r (f s' x) = lane_view r s') \<Longrightarrow> lane_view r (foldl f s xs) = lane_view r s"
  by (induction xs arbitrary: s) simp_all

lemma lane_loops [lane_simps]:
  "lane_view r (hydrateDetached ls s) = lane_view r s" "lane_view r (settleOpening x ok s) = lane_view r s"
  "lane_view r (foldl resume_one s rs) = lane_view r s" "lane_view r (foldl (stolen_one sid) s rs) = lane_view r s"
  "lane_view r (foldl end_one s rs) = lane_view r s" "lane_view r (foldl (settle_detached surv) s ds) = lane_view r s"
  "lane_view r (foldl (settle_window surv res) s es) = lane_view r s" "lane_view r (foldl (reattach_one ls) s rs) = lane_view r s"
  "lane_view r (foldl (\<lambda>s key. drop_detached key (retire key s)) s keys) = lane_view r s"
  "lane_view r (stop_all rs s) = lane_view r s" "lane_view r (foldl (take_output x) s outs) = lane_view r s"
proof -
  show "lane_view r (settleOpening x ok s) = lane_view r s"
    unfolding settleOpening_def by (subst lane_fold) (simp_all add: lane_simps)
qed (auto simp: hydrateDetached_def resume_one_def stolen_one_def end_one_def settle_detached_def settle_window_def reattach_one_def
      stop_all_def take_output_def Let_def lane_simps intro!: lane_fold split: prod.splits option.splits)

lemma lane_seed [lane_simps]: "lane_view r (emit_seed x seed s) = lane_view r s" "lane_view r (fail_open x q e s) = lane_view r s"
  by (simp_all add: emit_seed_def fail_open_def Let_def lane_simps split: option.splits)

lemma lane_attached [lane_simps]:
  "lane_view r (attach_done x k s) = lane_view r s" "lane_view r (attach_failed x k e s) = lane_view r s"
  by (simp_all add: attach_done_def attach_failed_def lane_simps split: kont.splits)

lemma lane_attaching [lane_simps]:
  "lane_view r (attach_rest x seed g k s) = lane_view r s" "lane_view r (attach_opened x q s) = lane_view r s"
  "lane_view r (create_step x q sel s) = lane_view r s"
  by (simp_all add: attach_rest_def attach_opened_def create_step_def Let_def lane_simps)

lemma lane_opens [lane_simps]:
  "lane_view r (on_open_conn x q a s) = lane_view r s" "lane_view r (on_open_conf x q a s) = lane_view r s"
  "lane_view r (on_open_list x q a s) = lane_view r s" "lane_view r (on_open_topo x q a s) = lane_view r s"
  "lane_view r (on_open_create x q sel a s) = lane_view r s" "lane_view r (on_open_select x q a s) = lane_view r s"
  "lane_view r (on_reopen_conn x h c a s) = lane_view r s" "lane_view r (on_reopen_conf x h c a s) = lane_view r s"
  "lane_view r (on_attach x h k a s) = lane_view r s" "lane_view r (on_history x seed g k a s) = lane_view r s"
  by (simp_all add: mux_open_defs on_open_list_def on_attach_def on_history_def Let_def lane_simps split: answer.splits option.splits)

lemma lane_closes [lane_simps]:
  "lane_view r (close_detached key kill c s) = lane_view r s" "lane_view r (close_missing key kill c s) = lane_view r s"
  "lane_view r (on_close_conn key kill c a s) = lane_view r s" "lane_view r (on_close_list key kill c a s) = lane_view r s"
  "lane_view r (on_close_detached key c a s) = lane_view r s" "lane_view r (on_close_detach c a s) = lane_view r s"
  by (simp_all add: close_detached_def close_missing_def on_close_conn_def on_close_list_def on_close_detached_def
      on_close_detach_def lane_simps split: answer.splits option.splits)

lemma lane_resume [lane_simps]: "lane_view r (resume_one s x) = lane_view r s"
  by (simp add: resume_one_def lane_simps)

lemma lane_close_term [lane_simps]: "lane_view r (close_term key kill c s) = lane_view r s"
  "lane_view r (on_close_destroy x resume c a s) = lane_view r s"
  by (simp_all add: close_term_def on_close_destroy_def Let_def lane_simps split: option.splits answer.splits)

lemma lane_closeAll [lane_simps]: "lane_view r (closeAll s) = lane_view r s"
  unfolding closeAll_def by (rule lane_fold) (simp add: close_all_one_def lane_simps)

lemma lane_rest [lane_simps]:
  "lane_view r (on_split_conn x key at c a s) = lane_view r s" "lane_view r (on_split_conf x key at c a s) = lane_view r s"
  "lane_view r (on_write x c a s) = lane_view r s" "lane_view r (on_reconf rs a s) = lane_view r s"
  "lane_view r (on_inventory rs a s) = lane_view r s" "lane_view r (on_stolen sid s) = lane_view r s"
  "lane_view r (on_win_conn sid wid c a s) = lane_view r s" "lane_view r (on_win_destroy est det res c a s) = lane_view r s"
  "lane_view r (on_ses_conn sid c a s) = lane_view r s" "lane_view r (on_ses_destroy live keys res c a s) = lane_view r s"
  "lane_view r (on_list_conn c a s) = lane_view r s" "lane_view r (on_list_conf c a s) = lane_view r s"
  "lane_view r (on_listed c a s) = lane_view r s" "lane_view r (on_scroll_conn key oc c a s) = lane_view r s"
  "lane_view r (on_scroll_conf key c a s) = lane_view r s" "lane_view r (on_scroll_list key c a s) = lane_view r s"
  "lane_view r (on_call_end c a s) = lane_view r s" "lane_view r (final_failed x e s) = lane_view r s"
  "lane_view r (on_shutdown c a s) = lane_view r s" "lane_view r (reconfigureAndReattach s) = lane_view r s"
  by (simp_all add: on_split_conn_def on_split_conf_def on_write_def on_reconf_def on_inventory_def on_stolen_def on_win_conn_def
      on_win_destroy_def on_ses_conn_def on_ses_destroy_def on_list_conn_def on_list_conf_def on_listed_def on_scroll_conn_def
      on_scroll_conf_def on_scroll_list_def on_call_end_def final_failed_def on_shutdown_def reconfigureAndReattach_def
      Let_def lane_simps split: answer.splits option.splits)

lemma lane_finals [lane_simps]:
  "lane_view r (on_final_conn x a s) = lane_view r s" "lane_view r (on_final_destroy x a s) = lane_view r s"
  "lane_view r (poll_again x g s) = lane_view r s" "lane_view r (on_timer tm s) = lane_view r s"
  "lane_view r (write_term key data c s) = lane_view r s" "lane_view r (split_term src key at c s) = lane_view r s"
  "lane_view r (scrollback key c s) = lane_view r s"
  by (simp_all add: on_final_conn_def on_final_destroy_def poll_again_def on_timer_def write_term_def split_term_def
      scrollback_def Let_def lane_simps split: answer.splits timer.splits option.splits)

lemma lane_handlers [lane_simps]:
  "lane_view r (off_data x h s) = lane_view r s" "lane_view r (on_exit key h s) = lane_view r s"
  "lane_view r (off_exit x h s) = lane_view r s"
  by (simp_all add: off_data_def on_exit_def off_exit_def lane_simps split: option.splits)

lemma lane_on_poll [lane_simps]: "lane_view r (on_poll x g a s) = lane_view r s"
  by (simp add: on_poll_def Let_def lane_simps split: answer.splits)

lemma fresh_resizes: "mux_inv s \<Longrightarrow> nextRef s \<le> r \<Longrightarrow> resizes r s = 0"
  by (fastforce simp: mux_inv_def shape_def resizes_def is_resize_def filter_empty_conv split: task.splits)

definition lanes_ok :: "mux_mgr \<Rightarrow> bool" where
  "lanes_ok s \<longleftrightarrow> (\<forall>r. lane_ok (lane_view r s))"

lemma lanes_same: "(\<And>r. lane_view r s' = lane_view r s) \<Longrightarrow> lanes_ok s' = lanes_ok s"
  by (simp add: lanes_ok_def)

lemma lanes_publish:
  assumes "lanes_ok s" and "mux_inv s" and "t_lane t = []" and "\<not> t_resizing t"
  shows "lanes_ok (publish t s)"
proof -
  have "lane_ok (lane_view r (publish t s))" for r
  proof (cases "r = nextRef s")
    case True
    then have "lane_view r (publish t s) = (t_lane t, t_resizing t, t_resizeGeneration t, resizes r s, newest_size r (mux_log s))"
      by (simp add: lane_view_def publish_def resizes_def)
    with assms fresh_resizes [OF assms(2), of r] True show ?thesis by (simp add: lane_ok_def)
  next
    case False
    then have "lane_view r (publish t s) = lane_view r s" by (simp add: lane_view_def publish_def resizes_def)
    with assms(1) show ?thesis by (simp add: lanes_ok_def)
  qed
  then show ?thesis by (simp add: lanes_ok_def)
qed

lemma lanes_open: "lanes_ok s \<Longrightarrow> mux_inv s \<Longrightarrow> lanes_ok (open_term key dir sz q s)"
proof -
  assume s: "lanes_ok s" "mux_inv s"
  let ?s = "s\<lparr>retired := removeAll key (retired s)\<rparr>"
  have s': "lanes_ok ?s" "mux_inv ?s" using s by (simp_all add: mux_simps lanes_ok_def lane_simps)
  have p: "lanes_ok (publish (new_term key dir sz) ?s)" by (rule lanes_publish [OF s']) (simp_all add: new_term_def)
  show ?thesis
    using s(1) p by (auto simp: open_term_def Let_def lanes_ok_def lane_simps split: option.splits)
qed

lemma lanes_created: "lanes_ok s \<Longrightarrow> mux_inv s \<Longrightarrow> lanes_ok (on_split_created src key c a s)"
proof -
  assume s: "lanes_ok s" "mux_inv s"
  have "lanes_ok (attachCreated src key sid pid c s)" for sid pid
    using lanes_publish [OF s, of "(new_term key (t_cwd (objs s src)) (t_size (objs s src)))\<lparr>t_session := sid, t_pane := pid\<rparr>"]
    by (simp add: attachCreated_def Let_def lanes_ok_def lane_simps new_term_def)
  with s(1) show ?thesis by (auto simp: on_split_created_def lanes_ok_def lane_simps split: answer.splits)
qed

lemma lanes_called: "lanes_ok s \<Longrightarrow> lanes_ok (resize_term key sz c s)"
proof -
  assume ok: "lanes_ok s"
  have "lanes_ok (log_out (ResizeCalled x sz) (upd x (\<lambda>t. t\<lparr>t_size := sz, t_resizeGeneration := t_resizeGeneration t + 1,
      t_lane := t_lane t @ [(t_resizeGeneration t + 1, sz, c)]\<rparr>) s))" (is "lanes_ok ?s") for x
  proof -
    have "lane_ok (lane_view r ?s)" for r
    proof (cases "r = x")
      case False
      then have "lane_view r ?s = lane_view r s"
        by (simp add: lane_view_def log_out_def upd_def resizes_def newest_size_def newest_step_def)
      with ok show ?thesis by (simp add: lanes_ok_def)
    next
      case True
      have v: "lane_view x ?s = (t_lane (objs s x) @ [(t_resizeGeneration (objs s x) + 1, sz, c)], t_resizing (objs s x),
          t_resizeGeneration (objs s x) + 1, resizes x s, Some sz)"
        by (simp add: lane_view_def log_out_def upd_def resizes_def newest_size_def newest_step_def)
      have o: "lane_ok (lane_view x s)" using ok by (simp add: lanes_ok_def)
      then have srt: "sorted_wrt (<) (map fst (t_lane (objs s x)))" by (simp add: lane_ok_def lane_view_def)
      have "fst l \<le> t_resizeGeneration (objs s x)" if "l \<in> set (t_lane (objs s x))" for l
      proof -
        have ne: "t_lane (objs s x) \<noteq> []" using that by auto
        then have eq: "t_lane (objs s x) = butlast (t_lane (objs s x)) @ [last (t_lane (objs s x))]" by simp
        have "fst l \<le> fst (last (t_lane (objs s x)))"
          using that srt by (subst (asm) (1 2) eq) (auto simp: sorted_wrt_append)
        with o ne show ?thesis by (simp add: lane_ok_def lane_view_def)
      qed
      with o srt True v show ?thesis by (auto simp: lane_ok_def sorted_wrt_append lane_view_def less_Suc_eq_le)
    qed
    then show ?thesis by (simp add: lanes_ok_def)
  qed
  with ok show ?thesis by (auto simp: resize_term_def lanes_ok_def lane_simps split: option.splits)
qed

lemma lane_tail: "lane_ok (l # ls, b, g, n, z) \<Longrightarrow> lane_ok (ls, b, g, n, z)"
  by (auto simp: lane_ok_def split: if_splits)

lemma lanes_turn: "lanes_ok s \<Longrightarrow> lanes_ok (lane_turn x s)"
proof -
  assume ok: "lanes_ok s"
  then have o: "lane_ok (lane_view x s)" by (simp add: lanes_ok_def)
  show ?thesis
  proof (cases "t_resizing (objs s x) \<or> t_lane (objs s x) = []")
    case True
    with ok show ?thesis by (auto simp: lane_turn_def Let_def split: list.splits)
  next
    case False
    then obtain gen z c rest where l: "t_lane (objs s x) = (gen, z, c) # rest" "\<not> t_resizing (objs s x)"
      by (metis list.exhaust surj_pair)
    let ?skip = "log_out (Returned c) (upd x (\<lambda>t. t\<lparr>t_lane := rest\<rparr>) s)"
    let ?go = "ask (PaneResize (t_pane (objs s x)) z) (CResize x c) (upd x (\<lambda>t. t\<lparr>t_lane := rest, t_resizing := True\<rparr>) s)"
    have other: "lane_view r ?skip = lane_view r s \<and> lane_view r ?go = lane_view r s" if "r \<noteq> x" for r
      using that by (simp add: lane_view_def log_out_def ask_def upd_def resizes_def is_resize_def newest_quiet is_call_def)
    have own: "lane_view x s = ((gen, z, c) # rest, False, t_resizeGeneration (objs s x), resizes x s, newest_size x (mux_log s))"
      "lane_view x ?skip = (rest, False, t_resizeGeneration (objs s x), resizes x s, newest_size x (mux_log s))"
      "lane_view x ?go = (rest, True, t_resizeGeneration (objs s x), resizes x s + 1, newest_size x (mux_log s))"
      using l by (simp_all add: lane_view_def log_out_def ask_def upd_def resizes_def is_resize_def newest_quiet is_call_def)
    have "lane_ok (lane_view x ?skip)" using o unfolding own by (rule lane_tail)
    moreover from this have "lane_ok (lane_view x ?go)" unfolding own by (auto simp: lane_ok_def)
    ultimately have "lanes_ok ?skip" "lanes_ok ?go"
      using ok other unfolding lanes_ok_def by metis+
    with l show ?thesis by (simp add: lane_turn_def Let_def)
  qed
qed

lemma lanes_resized:
  assumes "lanes_ok s" and "map_of (tasks s) i = Some (CResize x c)"
  shows "lanes_ok (on_resize x c a (s\<lparr>tasks := remove1 (i, CResize x c) (tasks s)\<rparr>))"
proof -
  let ?s = "upd x (\<lambda>t. t\<lparr>t_resizing := False\<rparr>) (s\<lparr>tasks := remove1 (i, CResize x c) (tasks s)\<rparr>)"
  have m: "(i, CResize x c) \<in> set (tasks s)" using assms(2) by (rule map_of_SomeD)
  have n: "resizes r ?s = resizes r s - (if r = x then 1 else 0)" for r
    using m by (simp add: resizes_def upd_def filter_remove1 length_remove1 is_resize_def)
  have pos: "0 < resizes x s" using m by (force simp: resizes_def is_resize_def length_greater_0_conv filter_empty_conv)
  have "lane_ok (lane_view r ?s)" for r
  proof (cases "r = x")
    case False
    then have "lane_view r ?s = lane_view r s" using n [of r] by (simp add: lane_view_def upd_def)
    with assms(1) show ?thesis by (simp add: lanes_ok_def)
  next
    case True
    have "lane_view x ?s = (t_lane (objs s x), False, t_resizeGeneration (objs s x), resizes x s - 1, newest_size x (mux_log s))"
      using n [of x] by (simp add: lane_view_def) (simp add: upd_def)
    moreover have "lane_ok (lane_view x s)" using assms(1) by (simp add: lanes_ok_def)
    ultimately show ?thesis using pos True by (auto simp: lane_ok_def lane_view_def split: if_splits)
  qed
  then have "lanes_ok ?s" by (simp add: lanes_ok_def)
  then show ?thesis by (simp add: on_resize_def Let_def lanes_ok_def lane_simps split: answer.splits)
qed

lemma lanes_untask: "\<not> is_resize r k \<Longrightarrow> lane_view r (s\<lparr>tasks := remove1 (i, k) (tasks s)\<rparr>) = lane_view r s"
  by (simp add: lane_view_def resizes_def filter_remove1 remove1_idem)

lemma lanes_continue:
  assumes "lanes_ok s" and "mux_inv s" and "\<nexists>r c. k = CResize r c"
  shows "lanes_ok (continue_task k a s)"
proof (cases k)
  case (CSplitCreated r key c)
  with assms lanes_created show ?thesis by (simp add: continue_task_def)
next
  case (CResize r c)
  with assms(3) show ?thesis by blast
next
  case (CShutConn c)
  with assms(1) show ?thesis by (auto simp: continue_task_def lanes_ok_def lane_simps split: answer.splits)
qed (use assms(1) in \<open>simp_all add: continue_task_def lanes_ok_def lane_simps\<close>)

lemma lanes_step:
  assumes "lanes_ok s" and "mux_inv s"
  shows "lanes_ok (mux_step s e)"
proof (cases e)
  case (Answered i a)
  show ?thesis
  proof (cases "map_of (tasks s) i")
    case None
    with Answered assms show ?thesis by (simp add: mux_step_def)
  next
    case (Some k)
    let ?s = "s\<lparr>tasks := remove1 (i, k) (tasks s)\<rparr>"
    have "lanes_ok (continue_task k a ?s)"
    proof (cases "\<exists>r c. k = CResize r c")
      case True
      with lanes_resized [OF assms(1)] Some show ?thesis by (auto simp: continue_task_def)
    next
      case False
      then have "\<not> is_resize r k" for r by (auto simp: is_resize_def split: task.splits)
      then have "lanes_ok ?s" using assms(1) lanes_untask by (simp add: lanes_ok_def)
      with False mux_inv_removed(1) [OF assms(2)] show ?thesis by (intro lanes_continue) auto
    qed
    with Answered Some assms(1) show ?thesis by (simp add: mux_step_def)
  qed
next
  case (TimerFires i)
  with assms(1) show ?thesis by (auto simp: mux_step_def lanes_ok_def lane_simps split: option.splits)
next
  case (OpenTerm key dir sz q)
  with assms lanes_open show ?thesis by (simp add: mux_step_def)
next
  case (ResizeTerm key sz c)
  with assms lanes_called show ?thesis by (simp add: mux_step_def)
next
  case (LaneTurn r)
  with assms lanes_turn show ?thesis by (simp add: mux_step_def)
next
  case (OnData key h)
  have "lane_view r (s\<lparr>mux_log := mux_log s @ map (Deliver x h) ps\<rparr>) = lane_view r s" for r x ps and s :: mux_mgr
    by (simp add: lane_view_def resizes_def newest_delivers)
  with OnData assms(1) show ?thesis by (simp add: mux_step_def on_data_def Let_def lanes_ok_def lane_simps split: option.splits)
qed (use assms(1) in \<open>auto simp: mux_step_def lanes_ok_def lane_simps\<close>)

lemma lanes_run: "mux_run_ok es \<Longrightarrow> lanes_ok (mux_run es)"
proof (induction es rule: rev_induct)
  case Nil
  then show ?case
    by (simp add: mux_run_def mux_start_def lanes_ok_def lane_ok_def lane_view_def resizes_def new_term_def)
next
  case (snoc e es)
  have "mux_run_ok es" by (rule mux_run_ok_prefix [OF snoc.prems])
  with snoc.IH mux_inv_run lanes_step show ?case by (simp add: mux_run_def)
qed

text \<open>
  C32. The resize lane: a resize of a terminal is asked of the daemon only when no other one is
  under way for it, and only with the newest geometry any caller gave; links that a newer call
  has overtaken are passed over without a request.
\<close>

theorem newest_resize_wins:
  assumes "mux_run_ok es" and "r < nextRef (mux_run es)"
    and "mux_log (mux_step (mux_run es) (LaneTurn r)) = mux_log (mux_run es) @ [Ask (PaneResize pane z)]"
  shows "newest_size r (mux_log (mux_run es)) = Some z \<and> resizes r (mux_run es) = 0
    \<and> resizes r (mux_step (mux_run es) (LaneTurn r)) = 1"
proof -
  let ?s = "mux_run es"
  have ok: "lane_ok (lane_view r ?s)" "lane_ok (lane_view r (mux_step ?s (LaneTurn r)))"
    using lanes_run [OF assms(1)] lanes_step [OF lanes_run [OF assms(1)] mux_inv_run [OF assms(1)]]
    by (simp_all add: lanes_ok_def)
  have step: "mux_step ?s (LaneTurn r) = lane_turn r ?s" using assms(2) by (simp add: mux_step_def)
  have "\<exists>c rest. t_lane (objs ?s r) = (t_resizeGeneration (objs ?s r), z, c) # rest \<and> \<not> t_resizing (objs ?s r)
      \<and> t_resizing (objs (lane_turn r ?s) r)"
    using assms(3) unfolding step
    by (auto simp: lane_turn_def Let_def log_out_def ask_def upd_def split: list.splits if_splits)
  then obtain c rest where l: "t_lane (objs ?s r) = (t_resizeGeneration (objs ?s r), z, c) # rest" "\<not> t_resizing (objs ?s r)"
    "t_resizing (objs (lane_turn r ?s) r)" by blast
  have rest: "rest = []"
  proof (rule ccontr)
    assume ne: "rest \<noteq> []"
    with ok(1) l have "fst (last rest) = t_resizeGeneration (objs ?s r)" "sorted_wrt (<) (map fst (t_lane (objs ?s r)))"
      by (simp_all add: lane_ok_def lane_view_def)
    moreover have "last rest \<in> set rest" using ne by simp
    ultimately show False using l(1) by fastforce
  qed
  show ?thesis
    using ok l rest step by (auto simp: lane_ok_def lane_view_def)
qed

section \<open>Runs of the manager\<close>

definition some_req :: "nat \<Rightarrow> bool \<Rightarrow> open_req" where
  "some_req c run = \<lparr>o_call = c, o_create = Some True, o_run = run, o_hydrate = False\<rparr>"

text \<open>Opening a terminal that the daemon does not know yet: five answers and the attachment.\<close>

definition opened_events :: "mux_event list" where
  "opened_events =
     [OpenTerm ''k'' ''/'' (80, 24) (some_req 0 False), Answered 0 Done, Answered 1 Done, Answered 2 (Sessions []),
      Answered 3 (Created ''s'' ''p''), Answered 4 (Attached (Some ''seed'') None (Some 7))]"

theorem mux_output_once_witness:
  "(let s = mux_run (opened_events @ [Answered 5 (Outputs [(7, ''a''), (9, ''b'')] False), TimerFires 6])
    in chunks_since 0 (mux_log s) = [7, 9] \<and> current_polls 0 s \<le> 1 \<and> terminals_ok s
     \<and> mux_log (mux_step s (Answered 7 (Outputs [(10, ''c'')] False))) = mux_log s @ [Emit 0 (Chunk 10 ''c'')])"
proof -
  let ?es = "opened_events @ [Answered 5 (Outputs [(7, ''a''), (9, ''b'')] False), TimerFires 6]"
  have ok: "mux_run_ok ?es" by code_simp
  have c: "chunks_since 0 (mux_log (mux_run ?es)) = [7, 9]" by code_simp
  have t: "map_of (tasks (mux_run ?es)) 7 = Some (CPoll 0 (t_pollGen (objs (mux_run ?es) 0)) 10)" by code_simp
  have o: "\<not> t_closed (objs (mux_run ?es) 0)" "t_handlers (objs (mux_run ?es) 0) = []" by code_simp+
  note m = mux_output_once [OF ok, of 0, unfolded Let_def]
  then have "mux_log (mux_step (mux_run ?es) (Answered 7 (Outputs [(10, ''c'')] False)))
      = mux_log (mux_run ?es) @ shown 0 [] [(10, ''c'')]"
    using t o by auto
  with m c show ?thesis by (simp add: Let_def shown_def)
qed

theorem newest_resize_wins_witness:
  "newest_size 0 (mux_log (mux_run (opened_events @ [ResizeTerm ''k'' (90, 30) 1, ResizeTerm ''k'' (100, 40) 2, LaneTurn 0])))
     = Some (100, 40)"
proof -
  let ?es = "opened_events @ [ResizeTerm ''k'' (90, 30) 1, ResizeTerm ''k'' (100, 40) 2, LaneTurn 0]"
  have ok: "mux_run_ok ?es" by code_simp
  have r: "0 < nextRef (mux_run ?es)" by code_simp
  have a: "mux_log (mux_step (mux_run ?es) (LaneTurn 0)) = mux_log (mux_run ?es) @ [Ask (PaneResize ''p'' (100, 40))]"
    by code_simp
  from newest_resize_wins [OF ok r a] show ?thesis by blast
qed

text \<open>A terminal another client took, shown again after a reload of the window: it is attached again but never polled.\<close>

lemma stolen_terminal_stays_frozen:
  "(let s = mux_run (opened_events @ [SessionStolen ''s'', OpenTerm ''k'' ''/'' (80, 24) (some_req 1 False),
        Answered 6 Done, Answered 7 Done, Answered 8 (Attached (Some ''seed'') None (Some 9))])
    in mux_log s ! (length (mux_log s) - 1) = Returned 1 \<and> current_polls 0 s = 0 \<and> t_stolen (objs s 0)
      \<and> \<not> t_waiting (objs s 0))"
  by code_simp

text \<open>A resize before the daemon has named the pane: it goes out with an empty name, and the answer retires the key.\<close>

lemma early_resize_ends_opening:
  "(let s = mux_run [OpenTerm ''k'' ''/'' (80, 24) (some_req 0 False), ResizeTerm ''k'' (90, 30) 1, LaneTurn 0,
        Answered 1 (Failed PaneNotFound), Answered 0 Done]
    in mux_log s = [Ask ConnOpen, ResizeCalled 0 (90, 30), Ask (PaneResize [] (90, 30)), Exit 0 ExitNull, Threw 1 PaneNotFound, Threw 0 WasClosed]
      \<and> retired s = [''k''])"
  by code_simp

text \<open>A Run terminal closed while the selection is read: the session is created all the same.\<close>

lemma closed_run_still_created:
  "(let s = mux_run [OpenTerm ''run'' ''/'' (80, 24) (some_req 0 True), Answered 0 Done, Answered 1 Done, Answered 2 (Sessions []),
        CloseTerm ''run'' False 1, Answered 3 (TopologyAnswer \<lparr>tr_epoch = None, tr_revision = None, tr_active = None, tr_sessions = None\<rparr>)]
    in mux_log s = [Ask ConnOpen, Ask Configure, Ask ListSessions, Ask Topology, Returned 1, Ask (CreateSession ''run'' ''/'')]
      \<and> terminals s = [])"
  by code_simp

text \<open>A detached key whose pane the daemon has lost: the listing does not forget it, and every reopening fails.\<close>

lemma lost_pane_blocks_reopening:
  "(let s = mux_run (opened_events @ [CloseTerm ''k'' False 1, OpenTerm ''k'' ''/'' (80, 24) (some_req 2 False),
        Answered 8 Done, Answered 9 Done, Answered 10 (Sessions []), Answered 11 (Failed SessionNotFound)])
    in mux_log s ! (length (mux_log s) - 1) = Threw 2 SessionNotFound \<and> terminals s = [] \<and> map fst (detached s) = [''k''])"
  by code_simp

end
