(* ===== verification/ControlSession.thy ===== *)
theory ControlSession
  imports TmuxStore JsText JsSort
begin

text \<open>
  The lifecycle of the per-project tmux control sessions in the renderer,
  \<open>src/renderer/tmux/controlSession.ts\<close>: the size of the client, the reconciliation of the
  reserved windows, the synchronisation of a view with what tmux lists, and the
  re-initialisation that every fresh channel triggers.

  The maps of the module are fields of one record. An asynchronous function is split at its
  awaits: each continuation is a constructor of \<open>run_at\<close> that waits for the answer to the
  command it sent, and the settling of its promise is a step of its own. Timers and animation
  frames are outstanding tasks; the answers, the frames and the channel's announcements come in
  any order. The live size of a pane's terminal and the cell metrics, which the pane registry
  measures, are arguments.
\<close>

section \<open>The size of the client\<close>

definition REACT_SEPARATOR_PX :: nat where "REACT_SEPARATOR_PX = 3"

text \<open>Pixels of chrome, then tmux separators: width and height of each.\<close>

type_synonym chrome = "(nat \<times> nat) \<times> (nat \<times> nat)"

definition maxOf :: "nat list \<Rightarrow> nat" where "maxOf xs = foldl max 0 xs"

fun chromeForLayout :: "LayoutNode \<Rightarrow> nat \<times> nat \<Rightarrow> chrome" where
  "chromeForLayout (Leaf p w h x y) perPane = (perPane, (0, 0))"
| "chromeForLayout (Split d w h x y cs) perPane =
     (let parts = map (\<lambda>c. chromeForLayout c perPane) cs; gaps = length parts - 1
      in if d = LR then
           ((sum_list (map (fst \<circ> fst) parts) + gaps * REACT_SEPARATOR_PX, maxOf (map (snd \<circ> fst) parts)),
            (sum_list (map (fst \<circ> snd) parts) + gaps, maxOf (map (snd \<circ> snd) parts)))
         else
           ((maxOf (map (fst \<circ> fst) parts), sum_list (map (snd \<circ> fst) parts) + gaps * REACT_SEPARATOR_PX),
            (maxOf (map (fst \<circ> snd) parts), sum_list (map (snd \<circ> snd) parts) + gaps)))"

text \<open>The sizes of all parts, or nothing as soon as one is missing.\<close>

fun collect_sizes :: "('a \<Rightarrow> 'b option) \<Rightarrow> 'a list \<Rightarrow> 'b list option" where
  "collect_sizes f [] = Some []"
| "collect_sizes f (x # xs) =
     (case f x of None \<Rightarrow> None | Some v \<Rightarrow> map_option (Cons v) (collect_sizes f xs))"

lemma collect_sizes_cong [fundef_cong]:
  "xs = ys \<Longrightarrow> (\<And>x. x \<in> set ys \<Longrightarrow> f x = g x) \<Longrightarrow> collect_sizes f xs = collect_sizes g ys"
  by (induction xs arbitrary: ys) (auto split: option.splits)

fun clientCellsFromLayout :: "(string \<Rightarrow> (nat \<times> nat) option) \<Rightarrow> LayoutNode \<Rightarrow> (nat \<times> nat) option" where
  "clientCellsFromLayout term (Leaf p w h x y) = term p"
| "clientCellsFromLayout term (Split d w h x y cs) =
     (case collect_sizes (clientCellsFromLayout term) cs of
        None \<Rightarrow> None
      | Some parts \<Rightarrow>
          if d = LR then Some (sum_list (map fst parts) + (length parts - 1), maxOf (map snd parts))
          else Some (maxOf (map fst parts), sum_list (map snd parts) + (length parts - 1)))"

text \<open>
  What the registry knows of the cells and panes: the live terminal sizes of a project's panes,
  the cell's size and the chrome of a pane, in pixels.
\<close>

record registry =
  termSize :: "string \<Rightarrow> string \<Rightarrow> (nat \<times> nat) option"
  cellSize :: "(nat \<times> nat) option"
  chromeSize :: "(nat \<times> nat) option"

definition shown_layout :: "TmuxViewState \<Rightarrow> string option \<Rightarrow> LayoutNode option" where
  "shown_layout v w =
     (case Option.bind w (windows v) of
        None \<Rightarrow> None
      | Some win \<Rightarrow> (case visibleLayout win of Some l \<Rightarrow> Some l | None \<Rightarrow> layout win))"

definition clientCells :: "registry \<Rightarrow> TmuxStore \<Rightarrow> nat \<times> nat \<Rightarrow> nat \<times> nat" where
  "clientCells reg st host =
     (let view = selectActiveView st;
          l = shown_layout view (activeWindowId view);
          fromPanes = (case (activeProjectId st, l) of
             (Some p, Some n) \<Rightarrow> clientCellsFromLayout (termSize reg p) n | _ \<Rightarrow> None)
      in case fromPanes of
           Some c \<Rightarrow> c
         | None \<Rightarrow>
             let (cellW, cellH) = (case cellSize reg of None \<Rightarrow> (8, 17) | Some m \<Rightarrow> m);
                 ((pw, ph), (sc, sr)) = (case (l, chromeSize reg) of
                    (Some n, Some c) \<Rightarrow> chromeForLayout n c
                  | (None, Some c) \<Rightarrow> (c, (0, 0))
                  | (_, None) \<Rightarrow> ((0, 0), (0, 0)))
             in (max 1 ((fst host - pw) div cellW + sc), max 1 ((snd host - ph) div cellH + sr)))"

section \<open>Reserved windows\<close>

definition PERSISTENT_WINDOW :: string where "PERSISTENT_WINDOW = ''persistent''"
definition RUN_WINDOW :: string where "RUN_WINDOW = ''run-1''"

text \<open>\<open>/^run-\d+$/\<close>.\<close>

definition RUN_RE :: "string \<Rightarrow> bool" where
  "RUN_RE nm \<longleftrightarrow> startsWith nm ''run-'' \<and> drop 4 nm \<noteq> [] \<and> list_all is_digit (drop 4 nm)"

definition isHiddenWindow :: "string option \<Rightarrow> bool" where
  "isHiddenWindow nm \<longleftrightarrow> nm = Some PERSISTENT_WINDOW \<or> RUN_RE (case nm of None \<Rightarrow> [] | Some s \<Rightarrow> s)"

datatype ReconcilePlan =
    Bail
  | Plan (toCreate: "string list") (toKill: "string list") (toRename: "(string \<times> string) list")
      (createFirstTerminal: bool)

text \<open>\<open>None\<close> is infinity: a malformed identifier.\<close>

definition windowIdNum :: "string \<Rightarrow> int option" where
  "windowIdNum w = parseInt10 (if startsWith w ''@'' then drop 1 w else w)"

text \<open>
  The comparison \<open>a - b\<close>, by its sign; infinity minus infinity is \<open>NaN\<close>, which \<open>sort\<close> takes for zero.
\<close>

fun id_compare :: "int option \<Rightarrow> int option \<Rightarrow> int" where
  "id_compare (Some a) (Some b) = a - b"
| "id_compare (Some a) None = -1"
| "id_compare None (Some b) = 1"
| "id_compare None None = 0"

type_synonym win_row = "string \<times> string"

definition by_id :: "win_row list \<Rightarrow> win_row list" where
  "by_id = sortBy (\<lambda>a b. id_compare (windowIdNum (fst a)) (windowIdNum (fst b)))"

definition persistents_of :: "win_row list \<Rightarrow> win_row list" where
  "persistents_of ws = filter (\<lambda>w. snd w = PERSISTENT_WINDOW) (by_id ws)"

definition runs_of :: "win_row list \<Rightarrow> win_row list" where
  "runs_of ws = filter (\<lambda>w. RUN_RE (snd w)) (by_id ws)"

definition reconcile :: "win_row list \<Rightarrow> bool \<Rightarrow> ReconcilePlan" where
  "reconcile ws createRun =
     (if ws = [] then Bail
      else let persistents = persistents_of ws; runs = runs_of ws
        in Plan ((if persistents = [] then [PERSISTENT_WINDOW] else [])
                 @ (if runs = [] \<and> createRun then [RUN_WINDOW] else []))
             (map fst (drop 1 persistents) @ map fst (drop 1 runs))
             (case runs of [] \<Rightarrow> [] | r # _ \<Rightarrow> if snd r \<noteq> RUN_WINDOW then [(fst r, RUN_WINDOW)] else [])
             (list_all (\<lambda>w. isHiddenWindow (Some (snd w))) ws))"

section \<open>Tabs and the refresh queue\<close>

definition filterVisibleTabs :: "string list \<Rightarrow> (string \<rightharpoonup> WindowState) \<Rightarrow> string list" where
  "filterVisibleTabs order ws =
     filter (\<lambda>w. \<not> isHiddenWindow (map_option winName (ws w)) \<and> Option.bind (ws w) layout \<noteq> None) order"

definition visibleTabWindowIds :: "TmuxStore \<Rightarrow> string \<Rightarrow> string list" where
  "visibleTabWindowIds st p =
     (case byProject st p of None \<Rightarrow> filterVisibleTabs [] Map.empty
      | Some v \<Rightarrow> filterVisibleTabs (windowOrder v) (windows v))"

type_synonym pending = "string \<rightharpoonup> string list"

definition queueWindowRefresh :: "pending \<Rightarrow> string \<Rightarrow> string \<Rightarrow> pending" where
  "queueWindowRefresh q p w = q(p \<mapsto> oset_add w (case q p of None \<Rightarrow> [] | Some ws \<Rightarrow> ws))"

definition queueRefreshForOtherWindows :: "pending \<Rightarrow> string \<Rightarrow> string list \<Rightarrow> string option \<Rightarrow> pending" where
  "queueRefreshForOtherWindows q p ids except =
     foldl (\<lambda>q w. if Some w = except then q else queueWindowRefresh q p w) q ids"

definition queueRefreshForOtherVisibleTabs :: "TmuxStore \<Rightarrow> pending \<Rightarrow> string \<Rightarrow> string option \<Rightarrow> pending" where
  "queueRefreshForOtherVisibleTabs st q p except =
     queueRefreshForOtherWindows q p (visibleTabWindowIds st p) except"

definition takePendingWindowRefresh :: "pending \<Rightarrow> string \<Rightarrow> string \<Rightarrow> bool \<times> pending" where
  "takePendingWindowRefresh q p w =
     (case q p of
        None \<Rightarrow> (False, q)
      | Some ws \<Rightarrow>
          if w \<notin> set ws then (False, q)
          else let rest = filter (\<lambda>x. x \<noteq> w) ws
            in (True, if rest = [] then q(p := None) else q(p \<mapsto> rest)))"

definition queued :: "pending \<Rightarrow> string \<Rightarrow> string \<Rightarrow> bool" where
  "queued q p w \<longleftrightarrow> (case q p of None \<Rightarrow> False | Some ws \<Rightarrow> w \<in> set ws)"

section \<open>State, commands and tasks\<close>

datatype reply = Lines "string list" | Failed

text \<open>What is left to do of a plan; each entry is one or two commands.\<close>

datatype work = Kill string | Rename string string | Create string | FirstTerminal

text \<open>Where a re-initialisation waits. \<open>AtSettle\<close>: its promise has its value, the handlers have not run.\<close>

datatype run_at =
    AtNames
  | AtWork "work list"
  | AtCreated "work list"
  | AtFirst "work list"
  | AtSyncNames
  | AtSyncLayouts
  | AtRestore
  | AtSettle

record reinit =
  r_project :: string
  r_target :: nat
  r_at :: run_at

datatype frame =
    RestoreSize "string option" nat nat
  | NudgePanes string string "(string \<times> nat) list"

datatype session_out =
    Command "string option" string
  | Resize "string option" nat nat
  | OpenCall string
  | Reinited string
  | GaveUp string
  | OpenFailed string
  | Disposed string

record session =
  store :: TmuxStore
  showRunPanel :: bool
  subscribed :: bool
  channelEpoch :: "string \<rightharpoonup> nat"
  initializedEpoch :: "string \<rightharpoonup> nat"
  reinitInFlight :: "string \<rightharpoonup> nat"
  reinitPending :: "string set"
  reinitRetry :: "string \<rightharpoonup> nat"
  reinitRetryAttempts :: "string \<rightharpoonup> nat"
  inFlight :: "string \<rightharpoonup> nat"
  ready :: "string \<rightharpoonup> nat"
  lastSentSize :: "string \<rightharpoonup> nat option \<times> nat \<times> nat"
  pendingWindowRefresh :: pending
  paneNudgeInFlight :: "string set"
  nudgesSent :: "string set"
  runs :: "nat \<rightharpoonup> reinit"
  timers :: "nat \<rightharpoonup> string"
  opens :: "nat \<rightharpoonup> string"
  frames :: "frame list"
  fresh :: nat
  log :: "session_out list"

definition initSession :: "bool \<Rightarrow> session" where
  "initSession run = \<lparr>store = initStore, showRunPanel = run, subscribed = False, channelEpoch = Map.empty,
     initializedEpoch = Map.empty, reinitInFlight = Map.empty, reinitPending = {},
     reinitRetry = Map.empty, reinitRetryAttempts = Map.empty, inFlight = Map.empty,
     ready = Map.empty, lastSentSize = Map.empty, pendingWindowRefresh = Map.empty,
     paneNudgeInFlight = {}, nudgesSent = {}, runs = Map.empty, timers = Map.empty, opens = Map.empty, frames = [],
     fresh = 0, log = []\<rparr>"

definition emit :: "session_out list \<Rightarrow> session \<Rightarrow> session" where
  "emit os s = s\<lparr>log := log s @ os\<rparr>"

definition isActiveProject :: "session \<Rightarrow> string \<Rightarrow> bool" where
  "isActiveProject s p \<longleftrightarrow> activeProjectId (store s) = Some p"

definition with_store :: "(TmuxStore \<Rightarrow> TmuxStore) \<Rightarrow> session \<Rightarrow> session" where
  "with_store f s = s\<lparr>store := f (store s)\<rparr>"

definition notify :: "string \<Rightarrow> TmuxNotification \<Rightarrow> TmuxStore \<Rightarrow> TmuxStore" where
  "notify p n st = snd (applyNotification st p n)"

definition notify_all :: "string \<Rightarrow> TmuxNotification list \<Rightarrow> TmuxStore \<Rightarrow> TmuxStore" where
  "notify_all p ns st = foldl (\<lambda>st n. notify p n st) st ns"

text \<open>The rows of \<open>list-windows\<close>, split at the first space; a row that has none, or starts with it, is dropped.\<close>

definition window_row :: "string \<Rightarrow> win_row option" where
  "window_row l = (case indexOf l '' '' of
     None \<Rightarrow> None
   | Some sp \<Rightarrow> if 0 < sp then Some (take sp l, drop (sp + 1) l) else None)"

definition listWindows :: "string list \<Rightarrow> win_row list" where
  "listWindows ls = List.map_filter window_row ls"

definition NAMES :: string where "NAMES = ''list-windows -F \"#{window_id} #{window_name}\"''"
definition LAYOUTS :: string where
  "LAYOUTS = ''list-windows -F \"#{window_id} #{window_layout} #{window_visible_layout} #{window_flags}\"''"
definition CURRENT :: string where
  "CURRENT = ''display-message -p '' @ [CHR 0x27] @ ''#{session_id} #{window_id}'' @ [CHR 0x27]"
definition BASENAME :: string where
  "BASENAME = [CHR 0x27] @ ''#{b:pane_current_path}'' @ [CHR 0x27]"

text \<open>The first line of a reply, trimmed; an absent line is empty.\<close>

definition first_line :: "string list \<Rightarrow> string" where
  "first_line ls = (case ls of [] \<Rightarrow> [] | l # _ \<Rightarrow> trim l)"

section \<open>Synchronising a view\<close>

definition prune_notes :: "TmuxViewState option \<Rightarrow> win_row list \<Rightarrow> TmuxNotification list" where
  "prune_notes sl rows =
     (case sl of
        None \<Rightarrow> []
      | Some v \<Rightarrow> map WindowClose (filter (\<lambda>w. w \<notin> fst ` set rows) (windowOrder v)))"

definition name_notes :: "win_row list \<Rightarrow> TmuxNotification list" where
  "name_notes rows = concat (map (\<lambda>(w, nm). [WindowAdd w, WindowRenamed w nm]) rows)"

definition part_at :: "string list \<Rightarrow> nat \<Rightarrow> string" where
  "part_at ps i = (if i < length ps then ps ! i else [])"

definition layout_note :: "win_row \<Rightarrow> TmuxNotification option" where
  "layout_note row =
     (let ps = splitOn (CHR '' '') (snd row)
      in case tryParseLayout (part_at ps 0) of
           None \<Rightarrow> None
         | Some wl \<Rightarrow> Some (LayoutChange (fst row) wl
             (Some (case tryParseLayout (part_at ps 1) of None \<Rightarrow> wl | Some v \<Rightarrow> v))
             (if part_at ps 2 = [] then None else Some (part_at ps 2))))"

definition layout_notes :: "win_row list \<Rightarrow> TmuxNotification list" where
  "layout_notes rows = List.map_filter layout_note rows"

text \<open>Adopting the window that tmux has selected.\<close>

definition restore_active :: "string \<Rightarrow> string list \<Rightarrow> TmuxStore \<Rightarrow> TmuxStore" where
  "restore_active p ls st =
     (let ps = splitOn (CHR '' '') (first_line ls); sid = part_at ps 0; w = part_at ps 1;
          nm = (case sessionName (view_of st p) of None \<Rightarrow> [] | Some n \<Rightarrow> n);
          st1 = (if sid = [] then st else notify p (SessionChanged sid nm) st)
      in if w = [] \<or> isHiddenWindow (map_option winName (windows (view_of st1 p) w)) then st1
         else notify p (SessionWindowChanged sid w) st1)"

section \<open>Re-initialisation\<close>

definition REINIT_RETRY_MAX :: nat where "REINIT_RETRY_MAX = 15"

definition cancel_timer :: "nat option \<Rightarrow> session \<Rightarrow> session" where
  "cancel_timer t s = (case t of None \<Rightarrow> s | Some i \<Rightarrow> s\<lparr>timers := (timers s)(i := None)\<rparr>)"

definition clearReinitRetry :: "string \<Rightarrow> session \<Rightarrow> session" where
  "clearReinitRetry p s =
     (cancel_timer (reinitRetry s p) s)\<lparr>reinitRetry := (reinitRetry s)(p := None),
        reinitRetryAttempts := (reinitRetryAttempts s)(p := None)\<rparr>"

definition attempts :: "session \<Rightarrow> string \<Rightarrow> nat" where
  "attempts s p = (case reinitRetryAttempts s p of None \<Rightarrow> 0 | Some n \<Rightarrow> n)"

definition scheduleReinitRetry :: "string \<Rightarrow> session \<Rightarrow> session" where
  "scheduleReinitRetry p s =
     (let n = attempts s p + 1; s1 = cancel_timer (reinitRetry s p) s
      in if REINIT_RETRY_MAX < n then clearReinitRetry p (emit [GaveUp p] s1)
         else s1\<lparr>reinitRetryAttempts := (reinitRetryAttempts s1)(p \<mapsto> n),
                 reinitRetry := (reinitRetry s1)(p \<mapsto> fresh s1),
                 timers := (timers s1)(fresh s1 \<mapsto> p), fresh := fresh s1 + 1\<rparr>)"

definition ask :: "string \<Rightarrow> string \<Rightarrow> session \<Rightarrow> session" where
  "ask p c = emit [Command (Some p) c]"

definition start_run :: "string \<Rightarrow> nat \<Rightarrow> session \<Rightarrow> session" where
  "start_run p tgt s =
     (ask p NAMES s)\<lparr>runs := (runs s)(fresh s \<mapsto> \<lparr>r_project = p, r_target = tgt, r_at = AtNames\<rparr>),
        reinitInFlight := (reinitInFlight s)(p \<mapsto> fresh s), fresh := fresh s + 1\<rparr>"

definition maybeReinit :: "string \<Rightarrow> session \<Rightarrow> session" where
  "maybeReinit p s =
     (if \<not> isActiveProject s p then s
      else case channelEpoch s p of
        None \<Rightarrow> s
      | Some tgt \<Rightarrow>
          if initializedEpoch s p = Some tgt then s
          else if reinitInFlight s p \<noteq> None then s\<lparr>reinitPending := insert p (reinitPending s)\<rparr>
          else start_run p tgt s)"

definition onAttached :: "string \<Rightarrow> nat \<Rightarrow> session \<Rightarrow> session" where
  "onAttached p e s = maybeReinit p (s\<lparr>channelEpoch := (channelEpoch s)(p \<mapsto> e)\<rparr>)"

definition go :: "nat \<Rightarrow> run_at \<Rightarrow> session \<Rightarrow> session" where
  "go i pos s = (case runs s i of None \<Rightarrow> s
     | Some r \<Rightarrow> s\<lparr>runs := (runs s)(i \<mapsto> r\<lparr>r_at := pos\<rparr>)\<rparr>)"

text \<open>What follows \<open>ensureWindows\<close> in a run.\<close>

definition after_ensure :: "nat \<Rightarrow> string \<Rightarrow> bool \<Rightarrow> session \<Rightarrow> session" where
  "after_ensure i p synced s =
     (if synced then go i AtRestore (ask p CURRENT (clearReinitRetry p s))
      else go i AtSettle (scheduleReinitRetry p s))"

definition start_sync :: "nat \<Rightarrow> string \<Rightarrow> session \<Rightarrow> session" where
  "start_sync i p s = go i AtSyncNames (ask p NAMES s)"

definition work_of :: "ReconcilePlan \<Rightarrow> work list" where
  "work_of pl = (case pl of Bail \<Rightarrow> []
     | Plan create kill ren first \<Rightarrow>
         map Kill kill @ map (\<lambda>(w, nm). Rename w nm) ren @ map Create create
         @ (if first then [FirstTerminal] else []))"

definition next_work :: "nat \<Rightarrow> string \<Rightarrow> work list \<Rightarrow> session \<Rightarrow> session" where
  "next_work i p ws s =
     (case ws of
        [] \<Rightarrow> start_sync i p s
      | Kill w # rest \<Rightarrow> go i (AtWork rest) (ask p (''kill-window -t '' @ w) s)
      | Rename w nm # rest \<Rightarrow> go i (AtWork rest) (ask p (''rename-window -t '' @ w @ '' '' @ nm) s)
      | Create nm # rest \<Rightarrow>
          go i (AtCreated rest) (ask p (''new-window -dP -n '' @ nm @ '' -F \"#{window_id}\"'') s)
      | FirstTerminal # rest \<Rightarrow> go i (AtFirst rest) (ask p ''new-window -P -F \"#{window_id}\"'' s))"

definition on_names :: "nat \<Rightarrow> string \<Rightarrow> reply \<Rightarrow> session \<Rightarrow> session" where
  "on_names i p a s =
     (case a of
        Failed \<Rightarrow> start_sync i p s
      | Lines ls \<Rightarrow>
          if \<not> isActiveProject s p then after_ensure i p False s
          else (case reconcile (listWindows ls) (showRunPanel s) of
                  Bail \<Rightarrow> after_ensure i p False s
                | pl \<Rightarrow> next_work i p (work_of pl) s))"

definition on_work :: "nat \<Rightarrow> string \<Rightarrow> work list \<Rightarrow> reply \<Rightarrow> session \<Rightarrow> session" where
  "on_work i p rest a s = (case a of Failed \<Rightarrow> start_sync i p s | Lines _ \<Rightarrow> next_work i p rest s)"

definition on_created :: "nat \<Rightarrow> string \<Rightarrow> work list \<Rightarrow> reply \<Rightarrow> session \<Rightarrow> session" where
  "on_created i p rest a s =
     (case a of
        Failed \<Rightarrow> start_sync i p s
      | Lines ls \<Rightarrow>
          if first_line ls = [] then next_work i p rest s
          else go i (AtWork rest)
            (ask p (''set-window-option -t '' @ first_line ls @ '' automatic-rename off'') s))"

definition on_first :: "nat \<Rightarrow> string \<Rightarrow> work list \<Rightarrow> reply \<Rightarrow> session \<Rightarrow> session" where
  "on_first i p rest a s =
     (case a of
        Failed \<Rightarrow> start_sync i p s
      | Lines ls \<Rightarrow>
          if first_line ls = [] then next_work i p rest s
          else go i (AtWork rest) (ask p (''rename-window -t '' @ first_line ls @ '' '' @ BASENAME) s))"

definition on_sync_names :: "nat \<Rightarrow> string \<Rightarrow> reply \<Rightarrow> session \<Rightarrow> session" where
  "on_sync_names i p a s =
     (case a of
        Failed \<Rightarrow> after_ensure i p False s
      | Lines ls \<Rightarrow>
          let rows = listWindows ls
          in if \<not> isActiveProject s p \<or> rows = [] then after_ensure i p False s
             else go i AtSyncLayouts (ask p LAYOUTS (with_store
               (notify_all p (prune_notes (byProject (store s) p) rows @ name_notes rows)) s)))"

definition on_sync_layouts :: "nat \<Rightarrow> string \<Rightarrow> reply \<Rightarrow> session \<Rightarrow> session" where
  "on_sync_layouts i p a s =
     (case a of
        Failed \<Rightarrow> after_ensure i p False s
      | Lines ls \<Rightarrow>
          if \<not> isActiveProject s p then after_ensure i p False s
          else after_ensure i p True (with_store (notify_all p (layout_notes (listWindows ls))) s))"

definition on_restore :: "nat \<Rightarrow> reinit \<Rightarrow> reply \<Rightarrow> session \<Rightarrow> session" where
  "on_restore i r a s =
     (let p = r_project r;
          s1 = (case a of
             Failed \<Rightarrow> s
           | Lines ls \<Rightarrow> if isActiveProject s p then with_store (restore_active p ls) s else s)
      in go i AtSettle (emit [Reinited p] (s1\<lparr>initializedEpoch := (initializedEpoch s1)(p \<mapsto> r_target r)\<rparr>)))"

definition on_reply :: "nat \<Rightarrow> reply \<Rightarrow> session \<Rightarrow> session" where
  "on_reply i a s =
     (case runs s i of
        None \<Rightarrow> s
      | Some r \<Rightarrow>
          (case r_at r of
             AtNames \<Rightarrow> on_names i (r_project r) a s
           | AtWork rest \<Rightarrow> on_work i (r_project r) rest a s
           | AtCreated rest \<Rightarrow> on_created i (r_project r) rest a s
           | AtFirst rest \<Rightarrow> on_first i (r_project r) rest a s
           | AtSyncNames \<Rightarrow> on_sync_names i (r_project r) a s
           | AtSyncLayouts \<Rightarrow> on_sync_layouts i (r_project r) a s
           | AtRestore \<Rightarrow> on_restore i r a s
           | AtSettle \<Rightarrow> s))"

definition leave_run :: "nat \<Rightarrow> string \<Rightarrow> session \<Rightarrow> session" where
  "leave_run i p s =
     s\<lparr>runs := (runs s)(i := None),
       reinitInFlight := (if reinitInFlight s p = Some i then (reinitInFlight s)(p := None)
                          else reinitInFlight s),
       reinitPending := reinitPending s - {p}\<rparr>"

text \<open>The handler that runs when the promise of a run settles.\<close>

definition settle :: "nat \<Rightarrow> session \<Rightarrow> session" where
  "settle i s =
     (case runs s i of
        None \<Rightarrow> s
      | Some r \<Rightarrow>
          if r_at r \<noteq> AtSettle then s
          else let p = r_project r;
              s1 = leave_run i p s;
              requested = (p \<in> reinitPending s);
              advanced = (initializedEpoch s p \<noteq> None \<and> channelEpoch s p \<noteq> initializedEpoch s p)
            in if requested \<or> advanced then maybeReinit p s1 else s1)"

definition retry_fires :: "nat \<Rightarrow> session \<Rightarrow> session" where
  "retry_fires t s =
     (case timers s t of
        None \<Rightarrow> s
      | Some p \<Rightarrow>
          let s1 = s\<lparr>timers := (timers s)(t := None), reinitRetry := (reinitRetry s)(p := None)\<rparr>
          in if isActiveProject s1 p then maybeReinit p s1 else s1)"

section \<open>Acquiring, resetting, tearing down\<close>

definition acquireControlSession :: "bool \<Rightarrow> string \<Rightarrow> session \<Rightarrow> session" where
  "acquireControlSession bridge p s =
     (if \<not> bridge then s
      else let s1 = with_store (\<lambda>st. setActiveProject st p) (s\<lparr>subscribed := True\<rparr>)
        in case inFlight s1 p of
             Some i \<Rightarrow> s1\<lparr>ready := (ready s1)(p \<mapsto> i)\<rparr>
           | None \<Rightarrow>
               (emit [OpenCall p] (with_store (\<lambda>st. open_started st p) s1))\<lparr>
                  opens := (opens s1)(fresh s1 \<mapsto> p), inFlight := (inFlight s1)(p \<mapsto> fresh s1),
                  ready := (ready s1)(p \<mapsto> fresh s1), fresh := fresh s1 + 1\<rparr>)"

text \<open>
  The answer to the call that opens the session: a session name or an error's message. The
  reactions chained to that one promise run back to back.
\<close>

definition open_answered :: "nat \<Rightarrow> string + string \<Rightarrow> session \<Rightarrow> session" where
  "open_answered i a s =
     (case opens s i of
        None \<Rightarrow> s
      | Some p \<Rightarrow>
          let s1 = (case a of
                Inr nm \<Rightarrow> maybeReinit p (with_store (\<lambda>st. open_returned st p nm) s)
              | Inl msg \<Rightarrow> emit [OpenFailed p] (with_store (\<lambda>st. setOpenError st p (Some msg)) s))
          in s1\<lparr>opens := (opens s1)(i := None),
                inFlight := (if inFlight s1 p = Some i then (inFlight s1)(p := None) else inFlight s1)\<rparr>)"

definition resetControlSession :: "string \<Rightarrow> session \<Rightarrow> session" where
  "resetControlSession p s =
     (clearReinitRetry p s)\<lparr>initializedEpoch := (initializedEpoch s)(p := None),
        reinitInFlight := (reinitInFlight s)(p := None), reinitPending := reinitPending s - {p},
        inFlight := (inFlight s)(p := None), ready := (ready s)(p := None),
        lastSentSize := (lastSentSize s)(p := None),
        pendingWindowRefresh := (pendingWindowRefresh s)(p := None)\<rparr>"

definition resetAllSessions :: "session \<Rightarrow> session" where
  "resetAllSessions s =
     s\<lparr>subscribed := False, channelEpoch := Map.empty, initializedEpoch := Map.empty,
       reinitInFlight := Map.empty, reinitPending := {}, timers := Map.empty,
       reinitRetry := Map.empty, reinitRetryAttempts := Map.empty, inFlight := Map.empty,
       ready := Map.empty, lastSentSize := Map.empty, pendingWindowRefresh := Map.empty\<rparr>"

definition teardownControlSession :: "string \<Rightarrow> session \<Rightarrow> session" where
  "teardownControlSession p s =
     with_store (\<lambda>st. resetProject st p) (resetControlSession p (emit [Disposed p] s))"

text \<open>The one subscription: announcements of a channel drive the re-initialisation, the rest is folded.\<close>

definition on_tmux :: "string \<Rightarrow> nat + TmuxNotification \<Rightarrow> session \<Rightarrow> session" where
  "on_tmux p n s =
     (if \<not> subscribed s then s
      else case n of Inl e \<Rightarrow> onAttached p e s | Inr note \<Rightarrow> with_store (notify p note) s)"

section \<open>Sending sizes\<close>

definition sendClientSize :: "nat \<Rightarrow> nat \<Rightarrow> string option \<Rightarrow> bool \<Rightarrow> session \<Rightarrow> session" where
  "sendClientSize cols rows p force s =
     (case p of
        None \<Rightarrow> emit [Resize p cols rows] s
      | Some q \<Rightarrow>
          let entry = (channelEpoch s q, cols, rows)
          in if \<not> force \<and> lastSentSize s q = Some entry then s
             else (emit [Resize p cols rows] s)\<lparr>lastSentSize := (lastSentSize s)(q \<mapsto> entry)\<rparr>)"

definition pushClientSize :: "registry \<Rightarrow> (nat \<times> nat) option \<Rightarrow> session \<Rightarrow> session" where
  "pushClientSize reg host s =
     (case host of
        None \<Rightarrow> s
      | Some h \<Rightarrow>
          let (cols, rows) = clientCells reg (store s) h
          in if 0 < cols \<and> 0 < rows then sendClientSize cols rows (activeProjectId (store s)) False s
             else s)"

definition nudgeClientSize :: "registry \<Rightarrow> (nat \<times> nat) option \<Rightarrow> string option \<Rightarrow> session \<Rightarrow> session" where
  "nudgeClientSize reg host w s =
     (case host of
        None \<Rightarrow> s
      | Some h \<Rightarrow>
          let view = selectActiveView (store s);
              tgt = (case w of None \<Rightarrow> activeWindowId view | Some x \<Rightarrow> Some x);
              (cols, rows) = (case shown_layout view tgt of
                 Some l \<Rightarrow> (nodeW l, nodeH l) | None \<Rightarrow> clientCells reg (store s) h);
              p = activeProjectId (store s)
          in if cols = 0 \<or> rows = 0 then s
             else (sendClientSize cols (max 1 (rows - 1)) p True s)\<lparr>
                     frames := frames s @ [RestoreSize p cols rows]\<rparr>)"

fun collectLeafHeights :: "LayoutNode \<Rightarrow> (string \<times> nat) list" where
  "collectLeafHeights (Leaf p w h x y) = [(p, h)]"
| "collectLeafHeights (Split d w h x y cs) = concat (map collectLeafHeights cs)"

definition guardKey :: "string \<Rightarrow> string \<Rightarrow> string" where
  "guardKey p w = p @ '':'' @ w"

definition nudgePaneRows :: "string \<Rightarrow> string \<Rightarrow> session \<Rightarrow> session" where
  "nudgePaneRows p w s =
     (case Option.bind (byProject (store s) p) (\<lambda>v. windows v w) of
        None \<Rightarrow> s
      | Some win \<Rightarrow>
          let leaves = (case layout win of None \<Rightarrow> [] | Some l \<Rightarrow> collectLeafHeights l)
          in if isZoomed win \<or> length leaves < 2 \<or> guardKey p w \<in> paneNudgeInFlight s then s
             else s\<lparr>paneNudgeInFlight := insert (guardKey p w) (paneNudgeInFlight s),
                    frames := frames s @ [NudgePanes p w leaves]\<rparr>)"

definition resize_pane :: "string \<Rightarrow> nat \<Rightarrow> string" where
  "resize_pane pid h = ''resize-pane -t '' @ pid @ '' -y '' @ showNat h"

definition nudge_commands :: "string \<Rightarrow> string \<times> nat \<Rightarrow> session_out list" where
  "nudge_commands p leaf =
     (let (pid, h) = leaf
      in if h < 2 then []
         else [Command (Some p) (resize_pane pid (h - 1)), Command (Some p) ''run-shell -d 0.05'',
               Command (Some p) (resize_pane pid h)])"

definition run_frame :: "frame \<Rightarrow> session \<Rightarrow> session" where
  "run_frame f s =
     (case f of
        RestoreSize p cols rows \<Rightarrow>
          if activeProjectId (store s) \<noteq> p then s else sendClientSize cols rows p True s
      | NudgePanes p w leaves \<Rightarrow>
          if \<not> isActiveProject s p
          then s\<lparr>paneNudgeInFlight := paneNudgeInFlight s - {guardKey p w}\<rparr>
          else (emit (concat (map (nudge_commands p) leaves)) s)\<lparr>
                  nudgesSent := insert (guardKey p w) (nudgesSent s)\<rparr>)"

definition next_frame :: "session \<Rightarrow> session" where
  "next_frame s = (case frames s of [] \<Rightarrow> s | f # fs \<Rightarrow> run_frame f (s\<lparr>frames := fs\<rparr>))"

definition nudges_settled :: "string \<Rightarrow> session \<Rightarrow> session" where
  "nudges_settled k s =
     (if k \<in> nudgesSent s
      then s\<lparr>paneNudgeInFlight := paneNudgeInFlight s - {k}, nudgesSent := nudgesSent s - {k}\<rparr> else s)"

section \<open>Runs\<close>

datatype session_event =
    EvTmux string "nat + TmuxNotification"
  | EvAcquire bool string
  | EvOpened nat "string + string"
  | EvReply nat reply
  | EvSettle nat
  | EvTimer nat
  | EvTeardown string
  | EvResetAll
  | EvSetting bool
  | EvPush registry "(nat \<times> nat) option"
  | EvNudge registry "(nat \<times> nat) option" "string option"
  | EvNudgePanes string string
  | EvFrame
  | EvNudged string
  | EvQueueOthers string "string option"
  | EvTake string string

fun session_step :: "session \<Rightarrow> session_event \<Rightarrow> session" where
  "session_step s (EvTmux p n) = on_tmux p n s"
| "session_step s (EvAcquire bridge p) = acquireControlSession bridge p s"
| "session_step s (EvOpened i a) = open_answered i a s"
| "session_step s (EvReply i a) = on_reply i a s"
| "session_step s (EvSettle i) = settle i s"
| "session_step s (EvTimer t) = retry_fires t s"
| "session_step s (EvTeardown p) = teardownControlSession p s"
| "session_step s EvResetAll = resetAllSessions s"
| "session_step s (EvSetting b) = s\<lparr>showRunPanel := b\<rparr>"
| "session_step s (EvPush reg host) = pushClientSize reg host s"
| "session_step s (EvNudge reg host w) = nudgeClientSize reg host w s"
| "session_step s (EvNudgePanes p w) = nudgePaneRows p w s"
| "session_step s EvFrame = next_frame s"
| "session_step s (EvNudged k) = nudges_settled k s"
| "session_step s (EvQueueOthers p except) =
     s\<lparr>pendingWindowRefresh := queueRefreshForOtherVisibleTabs (store s) (pendingWindowRefresh s) p except\<rparr>"
| "session_step s (EvTake p w) =
     s\<lparr>pendingWindowRefresh := snd (takePendingWindowRefresh (pendingWindowRefresh s) p w)\<rparr>"

section \<open>The client's size is the layout's\<close>

text \<open>
  How tmux lays cells out: the children of a left-right split stand side by side with one
  column between neighbours, and share the height; those of a top-bottom split likewise.
\<close>

fun tiled :: "LayoutNode \<Rightarrow> bool" where
  "tiled (Leaf p w h x y) \<longleftrightarrow> True"
| "tiled (Split d w h x y cs) \<longleftrightarrow> cs \<noteq> [] \<and> (\<forall>c\<in>set cs. tiled c)
     \<and> (if d = LR then w = sum_list (map nodeW cs) + (length cs - 1) \<and> (\<forall>c\<in>set cs. nodeH c = h)
        else h = sum_list (map nodeH cs) + (length cs - 1) \<and> (\<forall>c\<in>set cs. nodeW c = w))"

fun leaf_sizes :: "LayoutNode \<Rightarrow> (string \<times> nat \<times> nat) list" where
  "leaf_sizes (Leaf p w h x y) = [(p, w, h)]"
| "leaf_sizes (Split d w h x y cs) = concat (map leaf_sizes cs)"

lemma collect_sizes_all: "(\<And>x. x \<in> set xs \<Longrightarrow> f x = Some (g x)) \<Longrightarrow> collect_sizes f xs = Some (map g xs)"
  by (induction xs) auto

lemma maxOf_same: "xs \<noteq> [] \<Longrightarrow> (\<And>x. x \<in> set xs \<Longrightarrow> x = (h::nat)) \<Longrightarrow> maxOf xs = h"
proof -
  assume "xs \<noteq> []" and same: "\<And>x. x \<in> set xs \<Longrightarrow> x = h"
  then have "xs = replicate (length xs) h" by (metis replicate_eqI)
  moreover have "foldl max m (replicate (Suc k) h) = max m h" for m k by (induction k arbitrary: m) auto
  ultimately show ?thesis using \<open>xs \<noteq> []\<close> by (cases "length xs") (simp_all add: maxOf_def, metis max_0L)
qed

lemma cells_of_tiled:
  "tiled n \<Longrightarrow> (\<And>p w h. (p, w, h) \<in> set (leaf_sizes n) \<Longrightarrow> term p = Some (w, h)) \<Longrightarrow>
     clientCellsFromLayout term n = Some (nodeW n, nodeH n)"
proof (induction n)
  case (Leaf p w h x y)
  then show ?case by simp
next
  case (Split d w h x y cs)
  have parts: "collect_sizes (clientCellsFromLayout term) cs = Some (map (\<lambda>c. (nodeW c, nodeH c)) cs)"
  proof (rule collect_sizes_all)
    fix c assume c: "c \<in> set cs"
    show "clientCellsFromLayout term c = Some (nodeW c, nodeH c)"
      by (rule Split.IH [OF c]) (use c Split.prems in \<open>force+\<close>)
  qed
  show ?case
  proof (cases "d = LR")
    case True
    have "maxOf (map (snd \<circ> (\<lambda>c. (nodeW c, nodeH c))) cs) = h"
      by (rule maxOf_same) (use True Split.prems in auto)
    with True Split.prems parts show ?thesis by (simp add: comp_def)
  next
    case False
    have "maxOf (map (fst \<circ> (\<lambda>c. (nodeW c, nodeH c))) cs) = w"
      by (rule maxOf_same) (use False Split.prems in auto)
    with False Split.prems parts show ?thesis by (simp add: comp_def)
  qed
qed

section \<open>Reconciliation converges\<close>

text \<open>
  The server is a parameter: any state with its windows, any effect of the commands. What the
  plan relies on is what tmux documents of kill-window, rename-window and new-window, up to the
  order in which it lists windows; a new terminal ends up under the name of its directory,
  which \<open>base\<close> stands for.
\<close>

definition documented :: "('t \<Rightarrow> work \<Rightarrow> 't) \<Rightarrow> ('t \<Rightarrow> win_row list) \<Rightarrow> string \<Rightarrow> bool" where
  "documented tmux wins base \<longleftrightarrow> (\<forall>t w nm.
     mset (wins (tmux t (Kill w))) = mset (filter (\<lambda>x. fst x \<noteq> w) (wins t))
   \<and> mset (wins (tmux t (Rename w nm))) = mset (map (\<lambda>(x, old). if x = w then (x, nm) else (x, old)) (wins t))
   \<and> (\<exists>i. mset (wins (tmux t (Create nm))) = mset (wins t @ [(i, nm)]))
   \<and> (\<exists>i. mset (wins (tmux t FirstTerminal)) = mset (wins t @ [(i, base)])))"

text \<open>The commands of a plan, carried out in the order in which the code issues them.\<close>

definition carried_out :: "('t \<Rightarrow> work \<Rightarrow> 't) \<Rightarrow> ('t \<Rightarrow> win_row list) \<Rightarrow> 't \<Rightarrow> bool \<Rightarrow> win_row list" where
  "carried_out tmux wins t createRun = wins (foldl tmux t (work_of (reconcile (wins t) createRun)))"

definition is_persistent :: "win_row \<Rightarrow> bool" where "is_persistent w \<longleftrightarrow> snd w = PERSISTENT_WINDOW"
definition is_run :: "win_row \<Rightarrow> bool" where "is_run w \<longleftrightarrow> RUN_RE (snd w)"
definition is_real :: "win_row \<Rightarrow> bool" where "is_real w \<longleftrightarrow> \<not> isHiddenWindow (Some (snd w))"

lemma is_real_iff: "is_real w \<longleftrightarrow> \<not> is_persistent w \<and> \<not> is_run w"
  by (simp add: is_real_def is_persistent_def is_run_def isHiddenWindow_def)

lemma run_name [simp]: "RUN_RE RUN_WINDOW"
  by (simp add: RUN_RE_def RUN_WINDOW_def startsWith_def is_digit_def)

lemma persistent_name [simp]: "\<not> RUN_RE PERSISTENT_WINDOW" "PERSISTENT_WINDOW \<noteq> RUN_WINDOW"
  by (simp_all add: RUN_RE_def PERSISTENT_WINDOW_def RUN_WINDOW_def startsWith_def)

lemma not_both: "is_persistent w \<Longrightarrow> \<not> is_run w"
  by (simp add: is_persistent_def is_run_def)

lemma by_id_filter: "mset (filter P (by_id ws)) = mset (filter P ws)"
  by (simp add: by_id_def)

lemma mset_single_list: "mset xs = {#a#} \<Longrightarrow> xs = [a]"
  by (cases xs) auto

lemma short_mset: "mset xs = mset ys \<Longrightarrow> length ys \<le> 1 \<Longrightarrow> xs = ys"
  by (cases ys) (auto simp: mset_single_list)

lemma filtered_mset: "mset xs = mset ys \<Longrightarrow> mset (filter P xs) = mset (filter P ys)"
  by simp

text \<open>Of the windows of one class, those that stay when all but the first are dropped.\<close>

lemma class_survivors:
  assumes "distinct (map fst ws)"
    and K: "\<And>w. w \<in> set ws \<Longrightarrow> P w \<Longrightarrow> fst w \<in> K \<longleftrightarrow> fst w \<in> fst ` set (drop 1 (filter P (by_id ws)))"
  shows "filter P (filter (\<lambda>w. fst w \<notin> K) ws) = take 1 (filter P (by_id ws))"
proof (cases "filter P (by_id ws)")
  case Nil
  have "mset (filter P ws) = {#}" using by_id_filter [of P ws] Nil by simp
  then have "filter P ws = []" by (metis mset_zero_iff)
  then have "\<forall>w\<in>set ws. \<not> P w" by (simp add: filter_empty_conv)
  with Nil show ?thesis by (simp add: filter_empty_conv)
next
  case (Cons a rest)
  have d: "distinct (map fst (filter P ws))" using assms(1) by (simp add: distinct_map_filter)
  have m: "mset (filter P ws) = mset (a # rest)" using by_id_filter [of P ws] Cons by simp
  then have "mset (map fst (filter P ws)) = mset (map fst (a # rest))" by simp
  with d have d2: "distinct (map fst (a # rest))" by (metis mset_eq_imp_distinct_iff)
  have "filter P (filter (\<lambda>w. fst w \<notin> K) ws) = filter (\<lambda>w. fst w \<notin> fst ` set rest) (filter P ws)"
    using K Cons by (auto simp: conj_commute intro!: filter_cong)
  moreover have "mset (filter (\<lambda>w. fst w \<notin> fst ` set rest) (filter P ws)) = {#a#}"
  proof -
    have "filter (\<lambda>w. fst w \<notin> fst ` set rest) rest = []" by (auto simp: filter_empty_conv)
    then have "filter (\<lambda>w. fst w \<notin> fst ` set rest) (a # rest) = [a]" using d2 by simp
    then have "mset (filter (\<lambda>w. fst w \<notin> fst ` set rest) (a # rest)) = {#a#}" by simp
    then show ?thesis using m by (metis mset_filter)
  qed
  ultimately have "filter P (filter (\<lambda>w. fst w \<notin> K) ws) = [a]" by (metis mset_single_list)
  with Cons show ?thesis by simp
qed

lemma persistents_filter: "persistents_of ws = filter is_persistent (by_id ws)"
  unfolding persistents_of_def by (rule filter_cong) (simp_all add: is_persistent_def)

lemma runs_filter: "runs_of ws = filter is_run (by_id ws)"
  unfolding runs_of_def by (rule filter_cong) (simp_all add: is_run_def)

lemmas class_filters = persistents_filter runs_filter

lemma set_by_id [simp]: "set (by_id ws) = set ws"
  by (simp add: by_id_def)

lemma kill_works:
  assumes "documented tmux wins base"
  shows "mset (wins (foldl tmux t (map Kill ks))) = mset (filter (\<lambda>w. fst w \<notin> set ks) (wins t))"
proof (induction ks arbitrary: t)
  case (Cons k ks)
  have "mset (wins (tmux t (Kill k))) = mset (filter (\<lambda>x. fst x \<noteq> k) (wins t))"
    using assms by (simp add: documented_def)
  then have "filter_mset (\<lambda>w. fst w \<notin> set ks) (mset (wins (tmux t (Kill k)))) =
      filter_mset (\<lambda>w. fst w \<notin> set (k # ks)) (mset (wins t))"
    by (auto simp: filter_filter_mset intro: filter_mset_cong)
  then show ?case using Cons.IH [of "tmux t (Kill k)"] by simp
qed simp

lemma filter_rename:
  assumes "\<And>w. w \<in> set A \<Longrightarrow> fst w = r \<Longrightarrow> is_run w"
  defines "f \<equiv> \<lambda>(x, old). if x = r then (x, RUN_WINDOW) else (x, old)"
  shows "filter is_persistent (map f A) = filter is_persistent A"
    and "filter is_real (map f A) = filter is_real A"
    and "filter is_run (map f A) = map f (filter is_run A)"
proof -
  have run: "is_run (f w) \<longleftrightarrow> is_run w" if "w \<in> set A" for w
    using assms(1) [OF that] by (auto simp: f_def is_run_def split: prod.splits)
  have same: "f w = w" if "w \<in> set A" "\<not> is_run w" for w
    using assms(1) [OF that(1)] that(2) by (auto simp: f_def split: prod.splits)
  have p: "is_persistent (f w) \<longleftrightarrow> is_persistent w" if "w \<in> set A" for w
    using same [OF that] run [OF that] not_both by (metis)
  have other: "filter Q (map f A) = filter Q A"
    if Q: "\<And>w. w \<in> set A \<Longrightarrow> Q (f w) = Q w" "\<And>w. Q w \<Longrightarrow> \<not> is_run w" for Q
  proof -
    have "filter Q (map f A) = map f (filter Q A)"
      unfolding filter_map comp_def using Q(1) by (metis (mono_tags, lifting) filter_cong)
    also have "\<dots> = filter Q A" using same Q(2) by (intro map_idI) auto
    finally show ?thesis .
  qed
  show "filter is_persistent (map f A) = filter is_persistent A" by (rule other) (use p not_both in auto)
  show "filter is_real (map f A) = filter is_real A"
    by (rule other) (use p run in \<open>auto simp: is_real_iff\<close>)
  show "filter is_run (map f A) = map f (filter is_run A)"
    unfolding filter_map comp_def using run by (metis (mono_tags, lifting) filter_cong)
qed

text \<open>Windows that need no work.\<close>

definition settled :: "win_row list \<Rightarrow> bool \<Rightarrow> bool" where
  "settled ws createRun \<longleftrightarrow> length (filter is_persistent ws) = 1
     \<and> map snd (filter is_run ws) \<in> {[], [RUN_WINDOW]}
     \<and> (createRun \<longrightarrow> filter is_run ws \<noteq> []) \<and> filter is_real ws \<noteq> []"

lemma settled_no_work:
  assumes "settled ws c"
  shows "work_of (reconcile ws c) = []"
proof -
  have len: "length (filter is_persistent (by_id ws)) = 1"
    using assms by (metis settled_def by_id_filter size_mset)
  then obtain a where p: "filter is_persistent (by_id ws) = [a]" by (metis One_nat_def length_0_conv length_Suc_conv)
  have r: "filter is_run (by_id ws) = filter is_run ws"
  proof (cases "filter is_run ws")
    case Nil
    then have "mset (filter is_run (by_id ws)) = {#}" using by_id_filter [of is_run ws] by simp
    with Nil show ?thesis by (metis mset_zero_iff)
  next
    case (Cons b rest)
    with assms have "filter is_run ws = [b]" by (auto simp: settled_def)
    moreover from this have "mset (filter is_run (by_id ws)) = {#b#}" using by_id_filter [of is_run ws] by simp
    ultimately show ?thesis by (metis mset_single_list)
  qed
  have ne: "ws \<noteq> []" and vis: "\<not> list_all (\<lambda>w. isHiddenWindow (Some (snd w))) ws"
    using assms by (auto simp: settled_def is_real_def list_all_iff filter_empty_conv)
  have runs: "filter is_run ws = [] \<and> \<not> c \<or> (\<exists>b. filter is_run ws = [b] \<and> snd b = RUN_WINDOW)"
    using assms by (auto simp: settled_def)
  show ?thesis
    using ne vis p r runs unfolding reconcile_def work_of_def class_filters Let_def
    by (auto split: list.splits)
qed

lemma kill_one_class:
  assumes d: "distinct (map fst ws)" and "w \<in> set ws" "P w"
    and disjoint: "\<And>v. P v \<Longrightarrow> \<not> Q v"
  shows "fst w \<notin> fst ` set (drop n (filter Q (by_id ws)))"
proof
  assume "fst w \<in> fst ` set (drop n (filter Q (by_id ws)))"
  then obtain v where v: "v \<in> set ws" "Q v" "fst v = fst w"
    by (auto dest!: in_set_dropD)
  with d assms(2) have "v = w" by (metis distinct_map inj_onD)
  with v assms(3) disjoint show False by blast
qed

lemma reconciled:
  assumes d: "distinct (map fst ws)" and ne: "ws \<noteq> []"
  defines "K \<equiv> set (map fst (drop 1 (persistents_of ws)) @ map fst (drop 1 (runs_of ws)))"
  defines "A \<equiv> filter (\<lambda>w. fst w \<notin> K) ws"
  shows "filter is_persistent A = take 1 (persistents_of ws)"
    and "filter is_run A = take 1 (runs_of ws)" and "filter is_real A = filter is_real ws"
proof -
  have K: "K = fst ` set (drop 1 (filter is_persistent (by_id ws)))
      \<union> fst ` set (drop 1 (filter is_run (by_id ws)))"
    by (simp add: K_def class_filters)
  note one = kill_one_class [OF d]
  show "filter is_persistent A = take 1 (persistents_of ws)"
    unfolding A_def persistents_filter
    by (rule class_survivors [OF d]) (use one [of _ is_persistent is_run] not_both K in blast)
  show "filter is_run A = take 1 (runs_of ws)"
    unfolding A_def runs_filter
    by (rule class_survivors [OF d]) (use one [of _ is_run is_persistent] not_both K in blast)
  have "fst w \<notin> K" if "w \<in> set ws" "is_real w" for w
    using one [of w is_real is_run 1, OF that] one [of w is_real is_persistent 1, OF that] K
    by (auto simp: is_real_iff)
  then show "filter is_real A = filter is_real ws"
    unfolding A_def by (auto intro: filter_cong)
qed

definition ren_survivor :: "win_row list \<Rightarrow> win_row list \<Rightarrow> win_row list" where
  "ren_survivor rs A =
     (case rs of [] \<Rightarrow> A
      | r # _ \<Rightarrow> if snd r \<noteq> RUN_WINDOW
          then map (\<lambda>(x, old). if x = fst r then (x, RUN_WINDOW) else (x, old)) A else A)"

lemma survivor_filters:
  assumes d: "distinct (map fst A)" and r: "filter is_run A = take 1 rs"
  shows "filter is_persistent (ren_survivor rs A) = filter is_persistent A"
    and "filter is_real (ren_survivor rs A) = filter is_real A"
    and "map snd (filter is_run (ren_survivor rs A)) = (if rs = [] then [] else [RUN_WINDOW])"
    and "rs = [] \<Longrightarrow> filter is_run (ren_survivor rs A) = []"
proof -
  have key: "is_run w" if "rs = a # rest" "w \<in> set A" "fst w = fst a" for w a rest
  proof -
    have "a \<in> set (filter is_run A)" using r that(1) by simp
    then have "a \<in> set A" "is_run a" by auto
    with d that show ?thesis by (metis distinct_map inj_onD)
  qed
  show "filter is_persistent (ren_survivor rs A) = filter is_persistent A"
    by (cases rs) (use filter_rename(1) key in \<open>auto simp: ren_survivor_def\<close>)
  show "filter is_real (ren_survivor rs A) = filter is_real A"
    by (cases rs) (use filter_rename(2) key in \<open>auto simp: ren_survivor_def\<close>)
  show "map snd (filter is_run (ren_survivor rs A)) = (if rs = [] then [] else [RUN_WINDOW])"
  proof (cases rs)
    case Nil
    with r show ?thesis by (simp add: ren_survivor_def)
  next
    case (Cons a rest)
    have "filter is_run (map (\<lambda>(x, old). if x = fst a then (x, RUN_WINDOW) else (x, old)) A) =
        map (\<lambda>(x, old). if x = fst a then (x, RUN_WINDOW) else (x, old)) (filter is_run A)"
      by (rule filter_rename(3)) (use key Cons in blast)
    with Cons r show ?thesis by (auto simp: ren_survivor_def split: prod.splits)
  qed
  show "rs = [] \<Longrightarrow> filter is_run (ren_survivor rs A) = []"
    using r by (simp add: ren_survivor_def)
qed

lemma rename_work:
  assumes "documented tmux wins base" and "mset (wins t) = mset A"
    and "rs = r # rest"
  shows "mset (wins (foldl tmux t (if snd r \<noteq> RUN_WINDOW then [Rename (fst r) RUN_WINDOW] else [])))
    = mset (ren_survivor rs A)"
proof -
  have "mset (wins (tmux t (Rename (fst r) RUN_WINDOW))) =
      image_mset (\<lambda>(x, old). if x = fst r then (x, RUN_WINDOW) else (x, old)) (mset (wins t))"
    using assms(1) by (simp add: documented_def)
  then show ?thesis using assms(2,3) by (simp add: ren_survivor_def)
qed

lemma create_works:
  assumes "documented tmux wins base" and "mset (wins t) = mset A"
  shows "\<exists>i. mset (wins (foldl tmux t (if b then [Create nm] else []))) = mset (A @ (if b then [(i, nm)] else []))"
    and "\<exists>i. mset (wins (foldl tmux t (if b then [FirstTerminal] else []))) = mset (A @ (if b then [(i, base)] else []))"
proof -
  obtain i j where "mset (wins (tmux t (Create nm))) = mset (wins t @ [(i, nm)])"
    "mset (wins (tmux t FirstTerminal)) = mset (wins t @ [(j, base)])"
    using assms(1) unfolding documented_def by blast
  with assms(2) show "\<exists>i. mset (wins (foldl tmux t (if b then [Create nm] else []))) = mset (A @ (if b then [(i, nm)] else []))"
    and "\<exists>i. mset (wins (foldl tmux t (if b then [FirstTerminal] else []))) = mset (A @ (if b then [(i, base)] else []))"
    by auto
qed

lemma plan_result:
  assumes tm: "documented tmux wins base" and ne: "wins t \<noteq> []"
  defines "K \<equiv> set (map fst (drop 1 (persistents_of (wins t))) @ map fst (drop 1 (runs_of (wins t))))"
  shows "\<exists>i j k. mset (carried_out tmux wins t c) =
     mset (ren_survivor (runs_of (wins t)) (filter (\<lambda>w. fst w \<notin> K) (wins t))
     @ (if persistents_of (wins t) = [] then [(i, PERSISTENT_WINDOW)] else [])
     @ (if runs_of (wins t) = [] \<and> c then [(j, RUN_WINDOW)] else [])
     @ (if filter is_real (wins t) = [] then [(k, base)] else []))"
proof -
  define ws where "ws = wins t"
  define ks where "ks = map fst (drop 1 (persistents_of ws)) @ map fst (drop 1 (runs_of ws))"
  define rename where "rename = (case runs_of ws of [] \<Rightarrow> []
    | r # _ \<Rightarrow> if snd r \<noteq> RUN_WINDOW then [Rename (fst r) RUN_WINDOW] else [])"
  have first: "list_all (\<lambda>w. isHiddenWindow (Some (snd w))) ws \<longleftrightarrow> filter is_real ws = []"
    by (auto simp: is_real_def list_all_iff filter_empty_conv)
  have works: "work_of (reconcile ws c) = map Kill ks @ rename
      @ (if persistents_of ws = [] then [Create PERSISTENT_WINDOW] else [])
      @ (if runs_of ws = [] \<and> c then [Create RUN_WINDOW] else [])
      @ (if filter is_real ws = [] then [FirstTerminal] else [])"
    using ne [folded ws_def] unfolding reconcile_def work_of_def Let_def rename_def ks_def first
    by (simp split: list.splits)
  define t1 where "t1 = foldl tmux t (map Kill ks)"
  have t1: "mset (wins t1) = mset (filter (\<lambda>w. fst w \<notin> K) ws)"
    using kill_works [OF tm, of t ks] by (simp add: t1_def ws_def ks_def K_def)
  define t2 where "t2 = foldl tmux t1 rename"
  have t2: "mset (wins t2) = mset (ren_survivor (runs_of ws) (filter (\<lambda>w. fst w \<notin> K) ws))"
  proof (cases "runs_of ws")
    case Nil
    with t1 show ?thesis by (simp add: t2_def rename_def ren_survivor_def)
  next
    case (Cons r rest)
    from rename_work [OF tm t1 Cons] Cons show ?thesis by (simp add: t2_def rename_def)
  qed
  define t3 where "t3 = foldl tmux t2 (if persistents_of ws = [] then [Create PERSISTENT_WINDOW] else [])"
  define t4 where "t4 = foldl tmux t3 (if runs_of ws = [] \<and> c then [Create RUN_WINDOW] else [])"
  obtain i where t3: "mset (wins t3) = mset (ren_survivor (runs_of ws) (filter (\<lambda>w. fst w \<notin> K) ws)
      @ (if persistents_of ws = [] then [(i, PERSISTENT_WINDOW)] else []))"
    using create_works(1) [OF tm t2] unfolding t3_def by blast
  obtain j where t4: "mset (wins t4) = mset ((ren_survivor (runs_of ws) (filter (\<lambda>w. fst w \<notin> K) ws)
      @ (if persistents_of ws = [] then [(i, PERSISTENT_WINDOW)] else []))
      @ (if runs_of ws = [] \<and> c then [(j, RUN_WINDOW)] else []))"
    using create_works(1) [OF tm t3] unfolding t4_def by blast
  have "carried_out tmux wins t c = wins (foldl tmux t4 (if filter is_real ws = [] then [FirstTerminal] else []))"
    unfolding carried_out_def ws_def [symmetric] works by (simp only: foldl_append t1_def t2_def t3_def t4_def)
  then show ?thesis
    using create_works(2) [OF tm t4, of "filter is_real ws = []"] unfolding ws_def [symmetric]
    by (metis append_assoc)
qed

section \<open>A synchronised view is what tmux listed\<close>

text \<open>A window as tmux has it, and the two lines it prints for it.\<close>

record served_window =
  sw_id :: string
  sw_name :: string
  sw_full :: WindowLayout
  sw_vis :: WindowLayout
  sw_flags :: string

definition name_line :: "served_window \<Rightarrow> string" where
  "name_line w = sw_id w @ CHR '' '' # sw_name w"

definition layout_line :: "served_window \<Rightarrow> string" where
  "layout_line w = sw_id w @ CHR '' '' # showLayout (sw_full w) @ CHR '' '' # showLayout (sw_vis w)
     @ CHR '' '' # sw_flags w"

definition served_ok :: "served_window \<Rightarrow> bool" where
  "served_ok w \<longleftrightarrow> sw_id w \<noteq> [] \<and> CHR '' '' \<notin> set (sw_id w) \<and> CHR '' '' \<notin> set (sw_flags w)
     \<and> layout_ok (sw_full w) \<and> layout_ok (sw_vis w)
     \<and> CHR '' '' \<notin> set (checksum (sw_full w)) \<and> CHR '' '' \<notin> set (checksum (sw_vis w))"

definition served :: "served_window \<Rightarrow> string \<times> window_row" where
  "served w = (sw_id w, sw_name w, Some (root (sw_full w)), includesStr (sw_flags w) ''Z'',
     Some (root (sw_vis w)))"

lemma digits_no_space: "CHR '' '' \<notin> set (showNat n)"
  using showNat_digits [of "CHR '' ''" n] by (auto simp: is_digit_def)

lemma joinWith_chars: "set (joinWith sep ps) \<subseteq> set sep \<union> \<Union> (set ` set ps)"
  by (induction sep ps rule: joinWith.induct) auto

lemma cell_no_space: "node_ok n \<Longrightarrow> CHR '' '' \<notin> set (showCell n)"
proof (induction n)
  case (Leaf p w h x y)
  then show ?case using digits_no_space by (auto simp: showGeometry_def)
next
  case (Split d w h x y cs)
  have "CHR '' '' \<notin> set (joinWith '','' (map showCell cs))"
    using joinWith_chars [of "'',''" "map showCell cs"] Split by auto
  then show ?case using digits_no_space by (cases d) (simp_all add: showGeometry_def)
qed

lemma layout_no_space: "layout_ok l \<Longrightarrow> CHR '' '' \<notin> set (checksum l) \<Longrightarrow> CHR '' '' \<notin> set (showLayout l)"
  using cell_no_space by (simp add: showLayout_def layout_ok_def)

lemma window_row_split: "a \<noteq> [] \<Longrightarrow> CHR '' '' \<notin> set a \<Longrightarrow> window_row (a @ CHR '' '' # b) = Some (a, b)"
  by (simp add: window_row_def)

lemma map_filter_all: "(\<And>x. x \<in> set xs \<Longrightarrow> f (g x) = Some (h x)) \<Longrightarrow> List.map_filter f (map g xs) = map h xs"
  by (induction xs) auto

lemma listed_names:
  "list_all served_ok ws \<Longrightarrow> listWindows (map name_line ws) = map (\<lambda>w. (sw_id w, sw_name w)) ws"
  unfolding listWindows_def
  by (rule map_filter_all) (auto simp: list_all_iff served_ok_def name_line_def window_row_split)

definition served_note :: "served_window \<Rightarrow> TmuxNotification" where
  "served_note w = LayoutChange (sw_id w) (sw_full w) (Some (sw_vis w))
     (if sw_flags w = [] then None else Some (sw_flags w))"

lemma listed_layouts:
  assumes "list_all served_ok ws"
  shows "layout_notes (listWindows (map layout_line ws)) = map served_note ws"
proof -
  have "listWindows (map layout_line ws) = map (\<lambda>w. (sw_id w,
      showLayout (sw_full w) @ CHR '' '' # showLayout (sw_vis w) @ CHR '' '' # sw_flags w)) ws"
    unfolding listWindows_def
    by (rule map_filter_all) (use assms in \<open>auto simp: list_all_iff served_ok_def layout_line_def window_row_split\<close>)
  moreover have "layout_note (sw_id w, showLayout (sw_full w) @ CHR '' '' # showLayout (sw_vis w)
      @ CHR '' '' # sw_flags w) = Some (served_note w)" if "w \<in> set ws" for w
  proof -
    have ok: "served_ok w" using assms that by (simp add: list_all_iff)
    have "splitOn (CHR '' '') (showLayout (sw_full w) @ CHR '' '' # showLayout (sw_vis w) @ CHR '' '' # sw_flags w)
        = [showLayout (sw_full w), showLayout (sw_vis w), sw_flags w]"
      using ok by (simp add: served_ok_def splitOn_append splitOn_id layout_no_space)
    with ok show ?thesis
      by (simp add: layout_note_def served_note_def served_ok_def part_at_def Let_def
          tryParseLayout_def parse_printed)
  qed
  ultimately show ?thesis
    unfolding layout_notes_def by (simp add: map_filter_all)
qed

lemma server_closes:
  "foldl list_step sv (map WindowClose ks) = filter (\<lambda>(k, _). k \<notin> set ks) sv"
  by (induction ks arbitrary: sv) (auto simp: omap_del_def intro!: filter_cong)

lemma map_of_filter_key: "map_of (filter (\<lambda>(k, _). P k) m) k = (if P k then map_of m k else None)"
  by (induction m) auto

lemma server_names:
  "distinct (map fst rows) \<Longrightarrow> \<exists>rest. map_of (foldl list_step sv (name_notes rows)) k =
     (case map_of rows k of None \<Rightarrow> map_of sv k | Some nm \<Rightarrow> Some (nm, rest))"
proof (induction rows arbitrary: sv)
  case Nil
  then show ?case by (simp add: name_notes_def)
next
  case (Cons row rows)
  obtain w nm where row: "row = (w, nm)" by (cases row)
  let ?sv = "list_step (list_step sv (WindowAdd w)) (WindowRenamed w nm)"
  have rename: "map_of (map (\<lambda>(x, n, r). if x = w then (x, nm, r) else (x, n, r)) m) j =
      (if j = w then map_option (\<lambda>(_, r). (nm, r)) (map_of m j) else map_of m j)" for m :: window_list and j
    by (induction m) auto
  have here: "\<exists>rest. map_of ?sv w = Some (nm, rest)"
  proof (cases "w \<in> fst ` set sv")
    case True
    then obtain x where "map_of sv w = Some x" by (metis not_None_eq map_of_eq_None_iff)
    with True show ?thesis by (cases x) (simp add: rename)
  next
    case False
    then have "map_of sv w = None" by (simp add: map_of_eq_None_iff)
    with False have "map_of ?sv w = Some (nm, None, False, None)" by (simp add: rename map_add_def)
    then show ?thesis by blast
  qed
  have other: "map_of ?sv j = map_of sv j" if "j \<noteq> w" for j
    using that by (auto simp: rename map_add_def split: option.splits)
  have fold: "foldl list_step sv (name_notes (row # rows)) = foldl list_step ?sv (name_notes rows)"
    by (simp add: name_notes_def row)
  have "distinct (map fst rows)" using Cons.prems by simp
  from Cons.IH [OF this, of ?sv] obtain rest where IH: "map_of (foldl list_step ?sv (name_notes rows)) k =
      (case map_of rows k of None \<Rightarrow> map_of ?sv k | Some nm \<Rightarrow> Some (nm, rest))"
    by blast
  show ?case
  proof (cases "k = w")
    case True
    then have "map_of rows k = None" using Cons.prems row by (simp add: map_of_eq_None_iff)
    with IH True here row fold show ?thesis by auto
  next
    case False
    with IH other have "map_of (foldl list_step sv (name_notes (row # rows))) k =
        (case map_of (row # rows) k of None \<Rightarrow> map_of sv k | Some nm \<Rightarrow> Some (nm, rest))"
      using row fold by (simp del: list_step.simps split: option.splits)
    then show ?thesis by blast
  qed
qed

lemma server_layouts:
  assumes "distinct (map sw_id ws)"
    and "\<And>w. w \<in> set ws \<Longrightarrow> \<exists>r. map_of sv (sw_id w) = Some (sw_name w, r)"
  shows "map_of (foldl list_step sv (map served_note ws)) k =
     (case map_of (map served ws) k of None \<Rightarrow> map_of sv k | Some x \<Rightarrow> Some x)"
  using assms
proof (induction ws arbitrary: sv)
  case Nil
  then show ?case by simp
next
  case (Cons w ws)
  let ?sv = "list_step sv (served_note w)"
  obtain r where r: "map_of sv (sw_id w) = Some (sw_name w, r)" using Cons.prems(2) [of w] by (metis list.set_intros(1))
  have step: "map_of ?sv = (map_of sv)(sw_id w \<mapsto> snd (served w))"
    using r by (auto simp: served_note_def served_def omap_get_set zoom_flag_def includesStr_def split: prod.splits)
  have "map_of (foldl list_step ?sv (map served_note ws)) k =
      (case map_of (map served ws) k of None \<Rightarrow> map_of ?sv k | Some x \<Rightarrow> Some x)"
  proof (rule Cons.IH)
    fix x assume x: "x \<in> set ws"
    then have "sw_id x \<noteq> sw_id w" using Cons.prems(1) by (metis distinct.simps(2) image_eqI list.simps(9) set_map)
    with x Cons.prems(2) [of x] step show "\<exists>r. map_of ?sv (sw_id x) = Some (sw_name x, r)" by simp
  qed (use Cons.prems in simp)
  moreover have "map_of (map served ws) (sw_id w) = None"
    using Cons.prems(1) by (auto simp: map_of_eq_None_iff served_def)
  moreover obtain b where "served w = (sw_id w, b)" by (simp add: served_def)
  ultimately show ?case by (cases "k = sw_id w") (simp_all add: step split: option.splits)
qed

lemma view_of_notify:
  "\<not> (\<exists>pid bs. n = Output pid bs) \<Longrightarrow> view_of (notify p n st) q = (if q = p then reduce (view_of st p) n else view_of st q)"
proof -
  assume "\<not> (\<exists>pid bs. n = Output pid bs)"
  then have "notify p n st = (let v = reduce (view_of st p) n
      in if v = view_of st p then st else st\<lparr>byProject := (byProject st)(p \<mapsto> v)\<rparr>)"
    by (cases n) (simp_all add: notify_def applyNotification_def Let_def del: reduce.simps)
  then show ?thesis by (simp add: Let_def view_of_def)
qed

lemma notify_active [simp]: "activeProjectId (notify p n st) = activeProjectId st"
  by (cases n) (simp_all add: notify_def applyNotification_def Let_def)

lemma notify_all_active [simp]: "activeProjectId (notify_all p ns st) = activeProjectId st"
  unfolding notify_all_def by (induction ns arbitrary: st) simp_all

definition no_output :: "TmuxNotification list \<Rightarrow> bool" where
  "no_output ns \<longleftrightarrow> (\<forall>pid bs. Output pid bs \<notin> set ns)"

lemma view_of_notify_all:
  "no_output ns \<Longrightarrow> view_of (notify_all p ns st) q =
     (if q = p then foldl reduce (view_of st p) ns else view_of st q)"
proof (induction ns arbitrary: st)
  case Nil
  then show ?case by (simp add: notify_all_def)
next
  case (Cons n ns)
  from Cons.prems have "\<not> (\<exists>pid bs. n = Output pid bs)" "no_output ns" by (auto simp: no_output_def)
  from view_of_notify [OF this(1)] Cons.IH [OF this(2), of "notify p n st"] show ?case
    by (simp add: notify_all_def)
qed

lemma prune_notes_view: "prune_notes (byProject st p) rows = prune_notes (Some (view_of st p)) rows"
  by (auto simp: prune_notes_def view_of_def emptyView_def split: option.splits)

lemma no_output_notes:
  "no_output (prune_notes sl rows @ name_notes rows)" "no_output (map served_note ws)"
  by (auto simp: no_output_def prune_notes_def name_notes_def served_note_def split: option.splits)

lemma sync_mirror:
  assumes inv: "view_inv v" and d: "distinct (map sw_id ws)"
  defines "rows \<equiv> map (\<lambda>w. (sw_id w, sw_name w)) ws"
  defines "v' \<equiv> foldl reduce (foldl reduce v (prune_notes (Some v) rows @ name_notes rows)) (map served_note ws)"
  shows "map_of (mirror v') = map_of (map served ws)" and "view_inv v'"
proof -
  define ns where "ns = prune_notes (Some v) rows @ name_notes rows"
  have i1: "view_inv (foldl reduce v ns)" by (rule view.run_inv [OF inv])
  then show "view_inv v'" unfolding v'_def ns_def [symmetric] by (rule view.run_inv)
  define sv where "sv = filter (\<lambda>(k, _). k \<in> fst ` set rows) (mirror v)"
  have "foldl list_step (mirror v) (prune_notes (Some v) rows) = sv"
    using mirror_key_set [of v]
    by (auto simp: prune_notes_def server_closes sv_def intro!: filter_cong) force
  then have "foldl list_step (mirror v) ns = foldl list_step sv (name_notes rows)" by (simp add: ns_def)
  then have m: "mirror v' = foldl list_step (foldl list_step sv (name_notes rows)) (map served_note ws)"
    unfolding v'_def ns_def [symmetric] by (simp only: mirror_run [OF i1] mirror_run [OF inv])
  have dr: "distinct (map fst rows)" using d by (simp add: rows_def comp_def)
  have row: "map_of rows (sw_id w) = Some (sw_name w)" if "w \<in> set ws" for w
    using dr that by (intro map_of_is_SomeI) (auto simp: rows_def)
  have none: "map_of rows k = None \<longleftrightarrow> k \<notin> sw_id ` set ws" for k
    by (auto simp: map_of_eq_None_iff rows_def image_iff)
  have none2: "map_of (map served ws) k = None \<longleftrightarrow> k \<notin> sw_id ` set ws" for k
    by (auto simp: map_of_eq_None_iff served_def image_iff)
  show "map_of (mirror v') = map_of (map served ws)"
  proof
    fix k
    have "map_of (mirror v') k = (case map_of (map served ws) k of
        None \<Rightarrow> map_of (foldl list_step sv (name_notes rows)) k | Some x \<Rightarrow> Some x)"
      unfolding m
    proof (rule server_layouts [OF d])
      fix w assume "w \<in> set ws"
      with server_names [OF dr, of sv "sw_id w"] row
      show "\<exists>r. map_of (foldl list_step sv (name_notes rows)) (sw_id w) = Some (sw_name w, r)" by auto
    qed
    moreover have "map_of (foldl list_step sv (name_notes rows)) k = None" if "k \<notin> sw_id ` set ws"
    proof -
      have "map_of sv k = None" using that none map_of_filter_key [of "\<lambda>k. k \<in> fst ` set rows" "mirror v" k]
        by (auto simp: sv_def rows_def)
      moreover have "map_of rows k = None" using none that by blast
      ultimately show ?thesis using server_names [OF dr, of sv k] by simp
    qed
    ultimately show "map_of (mirror v') k = map_of (map served ws) k"
      using none2 [of k] by (auto split: option.splits)
  qed
qed

section \<open>The lifecycle's invariant\<close>

text \<open>The place of run \<open>i\<close> if it is a run of project \<open>p\<close>.\<close>

definition prun :: "session \<Rightarrow> string \<Rightarrow> nat \<Rightarrow> run_at option" where
  "prun s p i = (case runs s i of None \<Rightarrow> None | Some r \<Rightarrow> if r_project r = p then Some (r_at r) else None)"

text \<open>A project that is shown while its view is of an older channel than the live one.\<close>

definition behind :: "session \<Rightarrow> string \<Rightarrow> bool" where
  "behind s p \<longleftrightarrow> isActiveProject s p \<and> channelEpoch s p \<noteq> None \<and> initializedEpoch s p \<noteq> channelEpoch s p"

text \<open>What is under way to bring it up to date.\<close>

definition reg_run :: "session \<Rightarrow> string \<Rightarrow> bool" where
  "reg_run s p \<longleftrightarrow> (\<exists>i a. reinitInFlight s p = Some i \<and> prun s p i = Some a
     \<and> (a \<noteq> AtSettle \<or> p \<in> reinitPending s \<or> initializedEpoch s p \<noteq> None))"

definition late_run :: "session \<Rightarrow> string \<Rightarrow> bool" where
  "late_run s p \<longleftrightarrow> (\<exists>i. prun s p i = Some AtRestore)
     \<or> (\<exists>i. prun s p i = Some AtSettle) \<and> initializedEpoch s p \<noteq> None"

definition working :: "session \<Rightarrow> string \<Rightarrow> bool" where
  "working s p \<longleftrightarrow> reg_run s p \<or> late_run s p \<or> reinitRetry s p \<noteq> None \<or> inFlight s p \<noteq> None"

definition given_up :: "session \<Rightarrow> string \<Rightarrow> bool" where
  "given_up s p \<longleftrightarrow> GaveUp p \<in> set (log s) \<or> OpenFailed p \<in> set (log s)"

definition progress :: "session \<Rightarrow> string \<Rightarrow> bool" where
  "progress s p \<longleftrightarrow> (behind s p \<longrightarrow> working s p \<or> given_up s p)"

definition inv_runs :: "session \<Rightarrow> bool" where
  "inv_runs s \<longleftrightarrow> (\<forall>p i. reinitInFlight s p = Some i \<longrightarrow> prun s p i \<noteq> None)"

definition inv_timers :: "session \<Rightarrow> bool" where
  "inv_timers s \<longleftrightarrow> (\<forall>t p. timers s t = Some p \<longleftrightarrow> reinitRetry s p = Some t)
     \<and> (\<forall>p. attempts s p \<le> REINIT_RETRY_MAX)
     \<and> (\<forall>p. reinitRetry s p \<noteq> None \<longrightarrow> 0 < attempts s p)"

definition inv_opens :: "session \<Rightarrow> bool" where
  "inv_opens s \<longleftrightarrow> (\<forall>p i. inFlight s p = Some i \<longrightarrow> opens s i = Some p)"

definition inv_active :: "session \<Rightarrow> bool" where
  "inv_active s \<longleftrightarrow> (\<forall>p. isActiveProject s p \<longrightarrow> byProject (store s) p \<noteq> None)"

definition inv_fresh :: "session \<Rightarrow> bool" where
  "inv_fresh s \<longleftrightarrow> (\<forall>i\<ge>fresh s. runs s i = None \<and> timers s i = None \<and> opens s i = None)"

definition inv_base :: "session \<Rightarrow> bool" where
  "inv_base s \<longleftrightarrow> inv_runs s \<and> inv_timers s \<and> inv_opens s \<and> inv_active s \<and> inv_fresh s"

definition lifecycle_inv :: "session \<Rightarrow> bool" where
  "lifecycle_inv s \<longleftrightarrow> inv_base s \<and> (\<forall>p. progress s p)"

lemmas inv_defs = inv_runs_def inv_timers_def inv_opens_def inv_active_def inv_fresh_def

text \<open>The part of the state that the invariant reads, the log and the store's slices apart.\<close>

definition ctl where
  "ctl s = (channelEpoch s, initializedEpoch s, reinitInFlight s, reinitPending s, reinitRetry s,
     reinitRetryAttempts s, inFlight s, runs s, timers s, opens s, fresh s, activeProjectId (store s))"

definition keeps_slices :: "TmuxStore \<Rightarrow> TmuxStore \<Rightarrow> bool" where
  "keeps_slices st st' \<longleftrightarrow> (\<forall>p. byProject st p \<noteq> None \<longrightarrow> byProject st' p \<noteq> None)"

lemma keeps_refl [simp]: "keeps_slices st st" by (simp add: keeps_slices_def)

lemma keeps_trans: "keeps_slices a b \<Longrightarrow> keeps_slices b c \<Longrightarrow> keeps_slices a c"
  by (simp add: keeps_slices_def)

lemma ctl_same_inv:
  assumes "ctl s' = ctl s" and log: "set (log s) \<subseteq> set (log s')" and "keeps_slices (store s) (store s')"
    and "lifecycle_inv s"
  shows "lifecycle_inv s'"
proof -
  have eq: "channelEpoch s' = channelEpoch s" "initializedEpoch s' = initializedEpoch s"
    "reinitInFlight s' = reinitInFlight s" "reinitPending s' = reinitPending s"
    "reinitRetry s' = reinitRetry s" "reinitRetryAttempts s' = reinitRetryAttempts s"
    "inFlight s' = inFlight s" "runs s' = runs s" "timers s' = timers s" "opens s' = opens s"
    "fresh s' = fresh s" "activeProjectId (store s') = activeProjectId (store s)"
    using assms(1) by (simp_all add: ctl_def)
  have base: "inv_base s'"
    using assms(3,4) by (simp add: lifecycle_inv_def inv_base_def inv_defs prun_def attempts_def
        isActiveProject_def keeps_slices_def eq)
  have "progress s' p" if "progress s p" for p
    using that log by (auto simp: progress_def behind_def working_def reg_run_def late_run_def prun_def
        given_up_def isActiveProject_def eq)
  with base assms(4) show ?thesis by (simp add: lifecycle_inv_def)
qed

lemma progress_local:
  assumes "progress s p"
    and "isActiveProject s' p \<longrightarrow> isActiveProject s p"
    and "channelEpoch s' p = channelEpoch s p" "initializedEpoch s' p = initializedEpoch s p"
    and "reinitInFlight s' p = reinitInFlight s p" "p \<in> reinitPending s' \<longleftrightarrow> p \<in> reinitPending s"
    and "reinitRetry s' p = reinitRetry s p" "inFlight s' p = inFlight s p"
    and "prun s' p = prun s p" "set (log s) \<subseteq> set (log s')"
  shows "progress s' p"
  using assms by (auto simp: progress_def behind_def working_def reg_run_def late_run_def given_up_def)

subsection \<open>Primitive steps\<close>

lemma emit_fields [simp]:
  "store (emit os s) = store s" "channelEpoch (emit os s) = channelEpoch s"
  "initializedEpoch (emit os s) = initializedEpoch s" "reinitInFlight (emit os s) = reinitInFlight s"
  "reinitPending (emit os s) = reinitPending s" "reinitRetry (emit os s) = reinitRetry s"
  "reinitRetryAttempts (emit os s) = reinitRetryAttempts s" "inFlight (emit os s) = inFlight s"
  "runs (emit os s) = runs s" "timers (emit os s) = timers s" "opens (emit os s) = opens s"
  "fresh (emit os s) = fresh s" "log (emit os s) = log s @ os" "ctl (emit os s) = ctl s"
  by (simp_all add: emit_def ctl_def)

lemma with_store_fields [simp]:
  "store (with_store f s) = f (store s)" "channelEpoch (with_store f s) = channelEpoch s"
  "initializedEpoch (with_store f s) = initializedEpoch s" "reinitInFlight (with_store f s) = reinitInFlight s"
  "reinitPending (with_store f s) = reinitPending s" "reinitRetry (with_store f s) = reinitRetry s"
  "reinitRetryAttempts (with_store f s) = reinitRetryAttempts s" "inFlight (with_store f s) = inFlight s"
  "runs (with_store f s) = runs s" "timers (with_store f s) = timers s" "opens (with_store f s) = opens s"
  "fresh (with_store f s) = fresh s" "log (with_store f s) = log s"
  by (simp_all add: with_store_def)

lemma emit_inv: "lifecycle_inv s \<Longrightarrow> lifecycle_inv (emit os s)"
  by (rule ctl_same_inv [of "emit os s" s]) simp_all

lemma store_inv_step:
  "activeProjectId (f (store s)) = activeProjectId (store s) \<Longrightarrow> keeps_slices (store s) (f (store s)) \<Longrightarrow>
     lifecycle_inv s \<Longrightarrow> lifecycle_inv (with_store f s)"
  by (rule ctl_same_inv [of "with_store f s" s]) (simp_all add: ctl_def)

lemma notify_keeps: "keeps_slices st (notify p n st)"
  by (cases n) (simp_all add: notify_def applyNotification_def keeps_slices_def Let_def del: reduce.simps)

lemma notify_all_keeps: "keeps_slices st (notify_all p ns st)"
  unfolding notify_all_def by (induction ns arbitrary: st) (auto intro: keeps_trans notify_keeps)

lemma restore_active_same [simp]: "activeProjectId (restore_active p ls st) = activeProjectId st"
  by (simp add: restore_active_def Let_def)

lemma restore_keeps: "keeps_slices st (restore_active p ls st)"
  by (auto simp: restore_active_def Let_def intro: keeps_trans notify_keeps)

lemma open_keeps:
  "keeps_slices st (open_started st p)" "keeps_slices st (open_returned st p nm)"
  "keeps_slices st (setOpenError st p e)"
  "activeProjectId (open_started st p) = activeProjectId st"
  "activeProjectId (open_returned st p nm) = activeProjectId st"
  "activeProjectId (setOpenError st p e) = activeProjectId st"
  by (auto simp: keeps_slices_def open_started_def open_returned_def setOpenError_def Let_def)

lemma go_emit: "go i pos (emit os s) = emit os (go i pos s)"
  by (simp add: go_def emit_def split: option.splits)

lemma go_fields [simp]:
  "store (go i pos s) = store s" "channelEpoch (go i pos s) = channelEpoch s"
  "initializedEpoch (go i pos s) = initializedEpoch s" "reinitInFlight (go i pos s) = reinitInFlight s"
  "reinitPending (go i pos s) = reinitPending s" "reinitRetry (go i pos s) = reinitRetry s"
  "reinitRetryAttempts (go i pos s) = reinitRetryAttempts s" "inFlight (go i pos s) = inFlight s"
  "timers (go i pos s) = timers s" "opens (go i pos s) = opens s" "fresh (go i pos s) = fresh s"
  "log (go i pos s) = log s"
  by (simp_all add: go_def split: option.splits)

lemma prun_go: "prun (go i pos s) p = (if prun s p i = None then prun s p else (prun s p)(i \<mapsto> pos))"
  by (auto simp: go_def prun_def fun_eq_iff split: option.splits)

lemma runs_go_None [simp]: "runs (go i pos s) j = None \<longleftrightarrow> runs s j = None"
  by (auto simp: go_def split: option.splits)

lemma active_cong [simp]: "isActiveProject (go i pos s) p = isActiveProject s p"
  "isActiveProject (emit os s) p = isActiveProject s p"
  by (simp_all add: isActiveProject_def)

lemma prun_emit [simp]: "prun (emit os s) p = prun s p"
  by (simp add: prun_def fun_eq_iff)

lemma go_base: "inv_base s \<Longrightarrow> inv_base (go i pos s)"
  by (auto simp: inv_base_def inv_defs prun_go attempts_def)

lemma prun_one: "prun s p i = Some a \<Longrightarrow> q \<noteq> p \<Longrightarrow> prun s q i = None"
  by (auto simp: prun_def split: option.splits if_splits)

lemma go_other: "prun s p i = Some a \<Longrightarrow> q \<noteq> p \<Longrightarrow> progress s q \<Longrightarrow> progress (go i pos s) q"
  by (rule progress_local [of s]) (simp_all add: prun_go prun_one)

lemma advance:
  assumes "lifecycle_inv s" "prun s p i = Some a" "a \<noteq> AtSettle" "a \<noteq> AtRestore" "pos \<noteq> AtSettle"
  shows "lifecycle_inv (go i pos s)"
proof -
  have p: "progress (go i pos s) p"
  proof -
    have old: "progress s p" using assms(1) by (simp add: lifecycle_inv_def)
    have "reg_run (go i pos s) p" if "reg_run s p"
      using that assms(2,3,5) by (auto simp: reg_run_def prun_go)
    moreover have "late_run (go i pos s) p" if "late_run s p"
    proof -
      from that obtain j b where j: "prun s p j = Some b" "b = AtRestore \<or> b = AtSettle \<and> initializedEpoch s p \<noteq> None"
        unfolding late_run_def by blast
      with assms(2-4) have "j \<noteq> i" by auto
      with j show ?thesis by (auto simp: late_run_def prun_go)
    qed
    ultimately show ?thesis using old by (auto simp: progress_def behind_def working_def given_up_def)
  qed
  show ?thesis
    using assms(1) p go_base go_other [OF assms(2)] unfolding lifecycle_inv_def by metis
qed

subsection \<open>Retries\<close>

lemma cancel_fields [simp]:
  "store (cancel_timer t s) = store s" "channelEpoch (cancel_timer t s) = channelEpoch s"
  "initializedEpoch (cancel_timer t s) = initializedEpoch s" "reinitInFlight (cancel_timer t s) = reinitInFlight s"
  "reinitPending (cancel_timer t s) = reinitPending s" "reinitRetry (cancel_timer t s) = reinitRetry s"
  "reinitRetryAttempts (cancel_timer t s) = reinitRetryAttempts s" "inFlight (cancel_timer t s) = inFlight s"
  "runs (cancel_timer t s) = runs s" "opens (cancel_timer t s) = opens s" "fresh (cancel_timer t s) = fresh s"
  "log (cancel_timer t s) = log s"
  by (simp_all add: cancel_timer_def split: option.splits)

lemma timers_cancel: "timers (cancel_timer t s) i = (if t = Some i then None else timers s i)"
  by (simp add: cancel_timer_def split: option.splits)

lemma clear_fields [simp]:
  "store (clearReinitRetry p s) = store s" "channelEpoch (clearReinitRetry p s) = channelEpoch s"
  "initializedEpoch (clearReinitRetry p s) = initializedEpoch s"
  "reinitInFlight (clearReinitRetry p s) = reinitInFlight s"
  "reinitPending (clearReinitRetry p s) = reinitPending s"
  "reinitRetry (clearReinitRetry p s) = (reinitRetry s)(p := None)"
  "inFlight (clearReinitRetry p s) = inFlight s" "runs (clearReinitRetry p s) = runs s"
  "opens (clearReinitRetry p s) = opens s" "fresh (clearReinitRetry p s) = fresh s"
  "log (clearReinitRetry p s) = log s"
  by (simp_all add: clearReinitRetry_def)

lemma attempts_clear: "attempts (clearReinitRetry p s) q = (if q = p then 0 else attempts s q)"
  by (simp add: attempts_def clearReinitRetry_def)

lemma timers_clear: "timers (clearReinitRetry p s) i = (if reinitRetry s p = Some i then None else timers s i)"
  by (simp add: clearReinitRetry_def timers_cancel)

lemma attempts_same [simp]: "attempts (emit os s) = attempts s" "attempts (cancel_timer t s) = attempts s"
  "attempts (go i pos s) = attempts s"
  by (simp_all add: attempts_def fun_eq_iff)

lemma prun_clear [simp]: "prun (clearReinitRetry p s) q = prun s q"
  by (simp add: prun_def fun_eq_iff)

lemma inv_timers_unique: "inv_timers s \<Longrightarrow> reinitRetry s p = Some t \<Longrightarrow> reinitRetry s q = Some t \<Longrightarrow> p = q"
  unfolding inv_timers_def by (metis option.inject)

lemma clear_base: "inv_base s \<Longrightarrow> inv_base (clearReinitRetry p s)"
proof -
  assume b: "inv_base s"
  then have t: "inv_timers s" by (simp add: inv_base_def)
  have "inv_timers (clearReinitRetry p s)"
    using t inv_timers_unique [OF t, of p] unfolding inv_timers_def
    by (simp add: timers_clear attempts_clear) (metis)
  then show ?thesis
    using b by (auto simp: inv_base_def inv_runs_def inv_opens_def inv_active_def inv_fresh_def
        isActiveProject_def timers_clear)
qed

lemma clear_other: "q \<noteq> p \<Longrightarrow> progress s q \<Longrightarrow> progress (clearReinitRetry p s) q"
  by (rule progress_local [of s]) (simp_all add: isActiveProject_def)

lemma to_restore:
  assumes "lifecycle_inv s" "prun s p i = Some a"
  shows "lifecycle_inv (go i AtRestore (clearReinitRetry p s))"
proof -
  have "late_run (go i AtRestore (clearReinitRetry p s)) p"
    using assms(2) by (auto simp: late_run_def prun_go)
  then have "progress (go i AtRestore (clearReinitRetry p s)) p"
    by (simp add: progress_def working_def)
  moreover have "progress (go i AtRestore (clearReinitRetry p s)) q" if "q \<noteq> p" for q
    by (rule go_other [of _ p _ a]) (use that assms clear_other in \<open>auto simp: lifecycle_inv_def\<close>)
  ultimately show ?thesis
    using assms(1) go_base clear_base unfolding lifecycle_inv_def by metis
qed

lemma schedule_base: "inv_base s \<Longrightarrow> inv_base (scheduleReinitRetry p s)"
proof -
  assume b: "inv_base s"
  show ?thesis
  proof (cases "REINIT_RETRY_MAX < attempts s p + 1")
    case True
    have "inv_base (clearReinitRetry p (emit [GaveUp p] (cancel_timer (reinitRetry s p) s))) \<longleftrightarrow>
        inv_base (clearReinitRetry p s)"
      by (auto simp: inv_base_def inv_defs isActiveProject_def timers_clear timers_cancel attempts_clear
          prun_def)
    with True clear_base [OF b] show ?thesis by (simp add: scheduleReinitRetry_def Let_def)
  next
    case False
    then have s': "scheduleReinitRetry p s = (let s1 = cancel_timer (reinitRetry s p) s in
        s1\<lparr>reinitRetryAttempts := (reinitRetryAttempts s1)(p \<mapsto> attempts s p + 1),
          reinitRetry := (reinitRetry s1)(p \<mapsto> fresh s1), timers := (timers s1)(fresh s1 \<mapsto> p), fresh := fresh s1 + 1\<rparr>)"
      by (simp add: scheduleReinitRetry_def Let_def)
    have t: "inv_timers s" and f: "inv_fresh s" using b by (simp_all add: inv_base_def)
    have tp: "timers s i = Some q \<longleftrightarrow> reinitRetry s q = Some i" for i q using t by (simp add: inv_timers_def)
    have fr: "reinitRetry s q \<noteq> Some (fresh s)" for q
      using f unfolding tp [symmetric] by (simp add: inv_fresh_def)
    have uniq: "q = p" if "reinitRetry s p = Some i" "reinitRetry s q = Some i" for i q
      using inv_timers_unique [OF t that(2,1)] .
    have "timers (scheduleReinitRetry p s) i = Some q \<longleftrightarrow> reinitRetry (scheduleReinitRetry p s) q = Some i" for i q
      using tp fr uniq by (auto simp: s' Let_def timers_cancel)
    moreover have "attempts (scheduleReinitRetry p s) q = (if q = p then attempts s p + 1 else attempts s q)" for q
      by (simp add: s' Let_def attempts_def)
    moreover have "reinitRetry (scheduleReinitRetry p s) q = (if q = p then Some (fresh s) else reinitRetry s q)" for q
      by (simp add: s' Let_def)
    ultimately have "inv_timers (scheduleReinitRetry p s)"
      using t False by (simp add: inv_timers_def)
    then show ?thesis
      using b by (auto simp: s' Let_def inv_base_def inv_runs_def inv_opens_def inv_active_def inv_fresh_def
          isActiveProject_def timers_cancel prun_def)
  qed
qed

lemma schedule_fields [simp]:
  "store (scheduleReinitRetry p s) = store s" "channelEpoch (scheduleReinitRetry p s) = channelEpoch s"
  "initializedEpoch (scheduleReinitRetry p s) = initializedEpoch s"
  "reinitInFlight (scheduleReinitRetry p s) = reinitInFlight s"
  "reinitPending (scheduleReinitRetry p s) = reinitPending s"
  "inFlight (scheduleReinitRetry p s) = inFlight s" "runs (scheduleReinitRetry p s) = runs s"
  "isActiveProject (scheduleReinitRetry p s) q = isActiveProject s q"
  "prun (scheduleReinitRetry p s) q = prun s q"
  by (simp_all add: scheduleReinitRetry_def Let_def prun_def isActiveProject_def fun_eq_iff)

lemma schedule_log: "set (log s) \<subseteq> set (log (scheduleReinitRetry p s))"
  by (auto simp: scheduleReinitRetry_def Let_def)

lemma schedule_other: "q \<noteq> p \<Longrightarrow> reinitRetry (scheduleReinitRetry p s) q = reinitRetry s q"
  by (simp add: scheduleReinitRetry_def Let_def)

lemma schedule_works:
  "reinitRetry (scheduleReinitRetry p s) p \<noteq> None \<or> GaveUp p \<in> set (log (scheduleReinitRetry p s))"
  by (simp add: scheduleReinitRetry_def Let_def)

lemma to_retry:
  assumes "lifecycle_inv s" "prun s p i = Some a"
  shows "lifecycle_inv (go i AtSettle (scheduleReinitRetry p s))"
proof -
  have "progress (go i AtSettle (scheduleReinitRetry p s)) p"
    using schedule_works [of p s] by (auto simp: progress_def working_def given_up_def)
  moreover have "progress (go i AtSettle (scheduleReinitRetry p s)) q" if "q \<noteq> p" for q
  proof (rule go_other [of _ p _ a])
    show "progress (scheduleReinitRetry p s) q"
      by (rule progress_local [of s])
         (use that assms schedule_other schedule_log in \<open>auto simp: lifecycle_inv_def\<close>)
  qed (use that assms in simp_all)
  ultimately show ?thesis
    using assms(1) go_base schedule_base unfolding lifecycle_inv_def by metis
qed

subsection \<open>Starting and settling\<close>

lemma maybeReinit_inv_other:
  assumes "inv_base s"
  shows "inv_base (maybeReinit p s)" and "q \<noteq> p \<Longrightarrow> progress s q \<Longrightarrow> progress (maybeReinit p s) q"
proof -
  have free: "prun s q (fresh s) = None" for q
    using assms by (simp add: inv_base_def inv_fresh_def prun_def)
  have "reinitInFlight s q \<noteq> Some (fresh s)" for q
    using assms free [of q] unfolding inv_base_def inv_runs_def by blast
  then have "inv_base (start_run p e s)" for e
    using assms by (auto simp: start_run_def ask_def inv_base_def inv_defs prun_def
        isActiveProject_def attempts_def)
  moreover have "inv_base (s\<lparr>reinitPending := x\<rparr>)" for x
    using assms by (simp add: inv_base_def inv_defs prun_def isActiveProject_def attempts_def)
  ultimately show "inv_base (maybeReinit p s)"
    using assms by (simp add: maybeReinit_def split: option.splits)
  have nf: "runs s (fresh s) = None" using assms by (simp add: inv_base_def inv_fresh_def)
  assume "q \<noteq> p" and old: "progress s q"
  then have "progress (start_run p e s) q" for e
    by (intro progress_local [OF old]) (use nf in \<open>auto simp: start_run_def ask_def isActiveProject_def prun_def fun_eq_iff\<close>)
  moreover have "progress (s\<lparr>reinitPending := insert p (reinitPending s)\<rparr>) q"
    by (rule progress_local [OF old]) (use \<open>q \<noteq> p\<close> in \<open>simp_all add: isActiveProject_def prun_def fun_eq_iff\<close>)
  ultimately show "progress (maybeReinit p s) q"
    using old by (simp add: maybeReinit_def split: option.splits)
qed

text \<open>Whatever the state, asking for a re-initialisation makes a project that is behind work.\<close>

lemma maybeReinit_registers:
  assumes "inv_runs s" and "behind (maybeReinit p s) p"
  shows "reg_run (maybeReinit p s) p"
proof (cases "behind s p")
  case False
  then have "maybeReinit p s = s" by (auto simp: maybeReinit_def behind_def split: option.splits)
  with False assms show ?thesis by simp
next
  case True
  then obtain e where e: "channelEpoch s p = Some e" "initializedEpoch s p \<noteq> Some e" "isActiveProject s p"
    by (auto simp: behind_def)
  show ?thesis
  proof (cases "reinitInFlight s p")
    case None
    with e have "maybeReinit p s = start_run p e s" by (simp add: maybeReinit_def)
    then show ?thesis by (simp add: reg_run_def start_run_def ask_def prun_def)
  next
    case (Some i)
    with e have m: "maybeReinit p s = s\<lparr>reinitPending := insert p (reinitPending s)\<rparr>" by (simp add: maybeReinit_def)
    obtain a where "prun s p i = Some a" using assms Some by (auto simp: inv_runs_def)
    with Some show ?thesis by (simp add: m reg_run_def prun_def)
  qed
qed

lemma maybeReinit_works: "inv_runs s \<Longrightarrow> progress (maybeReinit p s) p"
  using maybeReinit_registers by (auto simp: progress_def working_def)

lemma maybeReinit_inv:
  assumes "inv_base s" "\<And>q. q \<noteq> p \<Longrightarrow> progress s q"
  shows "lifecycle_inv (maybeReinit p s)"
proof -
  have "inv_runs s" using assms(1) by (simp add: inv_base_def)
  then have "progress (maybeReinit p s) q" for q
    using maybeReinit_works maybeReinit_inv_other(2) assms by metis
  then show ?thesis using maybeReinit_inv_other(1) assms(1) by (simp add: lifecycle_inv_def)
qed

lemma onAttached_inv: "lifecycle_inv s \<Longrightarrow> lifecycle_inv (onAttached p e s)"
  unfolding onAttached_def
proof (rule maybeReinit_inv)
  let ?s = "s\<lparr>channelEpoch := (channelEpoch s)(p \<mapsto> e)\<rparr>"
  assume inv: "lifecycle_inv s"
  then show "inv_base ?s"
    by (simp add: lifecycle_inv_def inv_base_def inv_defs prun_def isActiveProject_def attempts_def)
  show "progress ?s q" if "q \<noteq> p" for q
    by (rule progress_local [of s])
       (use inv that in \<open>simp_all add: lifecycle_inv_def isActiveProject_def prun_def fun_eq_iff\<close>)
qed

lemma settle_inv:
  assumes inv: "lifecycle_inv s"
  shows "lifecycle_inv (settle i s)"
proof (cases "runs s i")
  case None
  with inv show ?thesis by (simp add: settle_def)
next
  case (Some r)
  define p where "p = r_project r"
  show ?thesis
  proof (cases "r_at r = AtSettle")
    case False
    with Some inv show ?thesis by (simp add: settle_def)
  next
    case True
    define s1 where "s1 = s\<lparr>runs := (runs s)(i := None),
        reinitInFlight := (if reinitInFlight s p = Some i then (reinitInFlight s)(p := None) else reinitInFlight s),
        reinitPending := reinitPending s - {p}\<rparr>"
    define again where "again \<longleftrightarrow> p \<in> reinitPending s
        \<or> (initializedEpoch s p \<noteq> None \<and> channelEpoch s p \<noteq> initializedEpoch s p)"
    have s': "settle i s = (if again then maybeReinit p s1 else s1)"
      using Some True by (auto simp: settle_def leave_run_def s1_def again_def p_def Let_def)
    have prun1: "prun s1 q = (prun s q)(i := None)" for q
      by (simp add: s1_def prun_def fun_eq_iff)
    have mine: "prun s p i = Some AtSettle" using Some True by (simp add: prun_def p_def)
    have none: "prun s q i = None" if "q \<noteq> p" for q using prun_one [OF mine that] .
    have reg: "reinitInFlight s q \<noteq> Some i" if "q \<noteq> p" for q
      using inv none [OF that] unfolding lifecycle_inv_def inv_base_def inv_runs_def by blast
    have runs1: "inv_runs s1"
      unfolding inv_runs_def
    proof (intro allI impI)
      fix q j assume "reinitInFlight s1 q = Some j"
      then have "reinitInFlight s q = Some j" "j \<noteq> i"
        using reg [of q] by (cases "q = p", auto simp: s1_def split: if_splits)
      then show "prun s1 q j \<noteq> None"
        using inv by (auto simp: prun1 lifecycle_inv_def inv_base_def inv_runs_def)
    qed
    have base1: "inv_base s1"
      using inv runs1 by (auto simp: lifecycle_inv_def inv_base_def inv_timers_def inv_opens_def
          inv_active_def inv_fresh_def s1_def isActiveProject_def attempts_def)
    have other: "progress s1 q" if "q \<noteq> p" for q
    proof (rule progress_local [of s])
      show "progress s q" using inv by (simp add: lifecycle_inv_def)
      show "prun s1 q = prun s q" using none [OF that] by (simp add: prun1 fun_upd_idem)
    qed (use that in \<open>simp_all add: s1_def isActiveProject_def\<close>)
    show ?thesis
    proof (cases again)
      case True
      then show ?thesis using maybeReinit_inv [OF base1 other] by (simp add: s')
    next
      case False
      have old: "progress s p" using inv by (simp add: lifecycle_inv_def)
      have f: "isActiveProject s1 p = isActiveProject s p" "channelEpoch s1 = channelEpoch s"
        "initializedEpoch s1 = initializedEpoch s" "reinitRetry s1 = reinitRetry s" "inFlight s1 = inFlight s"
        "given_up s1 p = given_up s p"
        by (simp_all add: s1_def isActiveProject_def given_up_def)
      have "progress s1 p"
        unfolding progress_def
      proof
        assume "behind s1 p"
        then have "behind s p" and i0: "initializedEpoch s p = None" "p \<notin> reinitPending s"
          using False by (auto simp: behind_def f again_def)
        with old have "working s p \<or> given_up s p" by (simp add: progress_def)
        moreover have "reg_run s1 p" if "reg_run s p"
        proof -
          from that i0 obtain j b where j: "reinitInFlight s p = Some j" "prun s p j = Some b" "b \<noteq> AtSettle"
            by (auto simp: reg_run_def)
          with mine have "j \<noteq> i" by auto
          moreover from this j have "reinitInFlight s1 p = Some j" by (simp add: s1_def)
          ultimately show ?thesis using j by (auto simp: reg_run_def prun1)
        qed
        moreover have "late_run s1 p" if "late_run s p"
        proof -
          from that i0 obtain j where j: "prun s p j = Some AtRestore" by (auto simp: late_run_def)
          with mine have "j \<noteq> i" by auto
          with j show ?thesis by (auto simp: late_run_def prun1)
        qed
        ultimately show "working s1 p \<or> given_up s1 p" by (auto simp: working_def f)
      qed
      with other have "progress s1 q" for q by (cases "q = p") simp_all
      then show ?thesis using False base1 by (simp add: s' lifecycle_inv_def)
    qed
  qed
qed

lemma retry_fires_inv:
  assumes inv: "lifecycle_inv s"
  shows "lifecycle_inv (retry_fires t s)"
proof (cases "timers s t")
  case None
  with inv show ?thesis by (simp add: retry_fires_def)
next
  case (Some p)
  define s1 where "s1 = s\<lparr>timers := (timers s)(t := None), reinitRetry := (reinitRetry s)(p := None)\<rparr>"
  have it: "inv_timers s" using inv by (simp add: lifecycle_inv_def inv_base_def)
  then have reg: "reinitRetry s p = Some t" using Some by (simp add: inv_timers_def)
  have tp: "timers s i = Some q \<longleftrightarrow> reinitRetry s q = Some i" for i q using it by (simp add: inv_timers_def)
  have "timers s1 i = Some q \<longleftrightarrow> reinitRetry s1 q = Some i" for i q
    using tp [of i q] tp [of i p] tp [of t q] Some by (auto simp: s1_def)
  moreover have "attempts s1 = attempts s" by (simp add: s1_def attempts_def fun_eq_iff)
  moreover have "reinitRetry s1 q \<noteq> None \<Longrightarrow> reinitRetry s q \<noteq> None" for q by (simp add: s1_def split: if_splits)
  ultimately have "inv_timers s1" using it by (simp add: inv_timers_def)
  then have base1: "inv_base s1"
    using inv by (auto simp: lifecycle_inv_def inv_base_def inv_runs_def inv_opens_def
          inv_active_def inv_fresh_def s1_def isActiveProject_def prun_def)
  have other: "progress s1 q" if "q \<noteq> p" for q
    by (rule progress_local [of s])
       (use inv that in \<open>simp_all add: lifecycle_inv_def s1_def isActiveProject_def prun_def fun_eq_iff\<close>)
  show ?thesis
  proof (cases "isActiveProject s1 p")
    case True
    then show ?thesis using maybeReinit_inv [OF base1 other] Some by (simp add: retry_fires_def s1_def Let_def)
  next
    case False
    then have "progress s1 p" by (simp add: progress_def behind_def)
    with other have "progress s1 q" for q by (cases "q = p") simp_all
    with False Some base1 show ?thesis
      by (simp add: retry_fires_def s1_def [symmetric] Let_def lifecycle_inv_def)
  qed
qed

subsection \<open>The steps of a run\<close>

lemma after_ensure_inv:
  "lifecycle_inv s \<Longrightarrow> prun s p i = Some a \<Longrightarrow> lifecycle_inv (after_ensure i p b s)"
  by (simp add: after_ensure_def ask_def go_emit to_restore to_retry emit_inv)

lemma ask_go_inv:
  "lifecycle_inv s \<Longrightarrow> prun s p i = Some a \<Longrightarrow> a \<noteq> AtSettle \<Longrightarrow> a \<noteq> AtRestore \<Longrightarrow> pos \<noteq> AtSettle \<Longrightarrow>
     lifecycle_inv (go i pos (ask p c s))"
  by (simp add: ask_def go_emit emit_inv advance)

lemma next_work_inv:
  "lifecycle_inv s \<Longrightarrow> prun s p i = Some a \<Longrightarrow> a \<noteq> AtSettle \<Longrightarrow> a \<noteq> AtRestore \<Longrightarrow>
     lifecycle_inv (next_work i p ws s)"
  by (auto simp: next_work_def start_sync_def intro!: ask_go_inv split: list.splits work.splits)

lemma prun_with_store [simp]: "prun (with_store f s) p = prun s p"
  by (simp add: prun_def fun_eq_iff)

lemma notify_all_inv: "lifecycle_inv s \<Longrightarrow> lifecycle_inv (with_store (notify_all p ns) s)"
  by (rule store_inv_step) (simp_all add: notify_all_keeps)

lemma on_restore_inv:
  assumes inv: "lifecycle_inv s" and r: "runs s i = Some r"
  shows "lifecycle_inv (on_restore i r a s)"
proof -
  define p where "p = r_project r"
  define s1 where "s1 = (case a of Failed \<Rightarrow> s
     | Lines ls \<Rightarrow> if isActiveProject s p then with_store (restore_active p ls) s else s)"
  have inv1: "lifecycle_inv s1"
    using inv by (auto simp: s1_def intro!: store_inv_step restore_keeps split: reply.splits)
  define s2 where "s2 = s1\<lparr>initializedEpoch := (initializedEpoch s1)(p \<mapsto> r_target r)\<rparr>"
  have s': "on_restore i r a s = emit [Reinited p] (go i AtSettle s2)"
    by (simp only: on_restore_def s2_def s1_def p_def Let_def go_emit)
  have run1: "prun s2 p i = Some (r_at r)"
    using r by (simp add: s2_def s1_def prun_def p_def split: reply.splits)
  have base2: "inv_base s2"
    using inv1 by (simp add: lifecycle_inv_def s2_def inv_base_def inv_defs prun_def isActiveProject_def attempts_def)
  have "late_run (go i AtSettle s2) p"
    using run1 by (auto simp: late_run_def prun_go s2_def)
  then have "progress (go i AtSettle s2) p" by (simp add: progress_def working_def)
  moreover have "progress (go i AtSettle s2) q" if "q \<noteq> p" for q
  proof (rule go_other [OF run1 that])
    show "progress s2 q"
      by (rule progress_local [of s1])
         (use inv1 that in \<open>simp_all add: lifecycle_inv_def s2_def isActiveProject_def prun_def fun_eq_iff\<close>)
  qed
  ultimately have "lifecycle_inv (go i AtSettle s2)"
    using go_base [OF base2] unfolding lifecycle_inv_def by metis
  then show ?thesis by (simp add: s' emit_inv)
qed

lemma on_reply_inv:
  assumes inv: "lifecycle_inv s"
  shows "lifecycle_inv (on_reply i a s)"
proof (cases "runs s i")
  case None
  with inv show ?thesis by (simp add: on_reply_def)
next
  case (Some r)
  then have pr: "prun s (r_project r) i = Some (r_at r)" by (simp add: prun_def)
  note steps = next_work_inv [OF inv pr] after_ensure_inv [OF inv pr] ask_go_inv [OF inv pr]
  show ?thesis
  proof (cases "r_at r")
    case AtNames
    then show ?thesis using Some steps
      by (auto simp: on_reply_def on_names_def start_sync_def split: reply.splits ReconcilePlan.splits)
  next
    case (AtWork rest)
    then show ?thesis using Some steps
      by (auto simp: on_reply_def on_work_def start_sync_def split: reply.splits)
  next
    case (AtCreated rest)
    then show ?thesis using Some steps
      by (auto simp: on_reply_def on_created_def start_sync_def split: reply.splits)
  next
    case (AtFirst rest)
    then show ?thesis using Some steps
      by (auto simp: on_reply_def on_first_def start_sync_def split: reply.splits)
  next
    case AtSyncNames
    have "lifecycle_inv (go i AtSyncLayouts (ask (r_project r) LAYOUTS (with_store (notify_all (r_project r) ns) s)))" for ns
      using ask_go_inv [OF notify_all_inv [OF inv]] pr AtSyncNames by simp
    then show ?thesis using Some steps AtSyncNames
      by (auto simp: on_reply_def on_sync_names_def Let_def split: reply.splits)
  next
    case AtSyncLayouts
    have "lifecycle_inv (after_ensure i (r_project r) True (with_store (notify_all (r_project r) ns) s))" for ns
      using after_ensure_inv [OF notify_all_inv [OF inv]] pr AtSyncLayouts by simp
    then show ?thesis using Some steps AtSyncLayouts
      by (auto simp: on_reply_def on_sync_layouts_def split: reply.splits)
  next
    case AtRestore
    then show ?thesis using Some on_restore_inv [OF inv Some] by (simp add: on_reply_def)
  next
    case AtSettle
    then show ?thesis using Some inv by (simp add: on_reply_def)
  qed
qed

subsection \<open>Acquiring, opening, resetting\<close>

lemma setActive_facts:
  "activeProjectId (setActiveProject st p) = Some p" "keeps_slices st (setActiveProject st p)"
  "byProject (setActiveProject st p) p \<noteq> None"
  by (auto simp: setActiveProject_def keeps_slices_def)

lemma acquire_inv:
  assumes inv: "lifecycle_inv s"
  shows "lifecycle_inv (acquireControlSession bridge p s)"
proof (cases bridge)
  case False
  with inv show ?thesis by (simp add: acquireControlSession_def)
next
  case True
  define s1 where "s1 = with_store (\<lambda>st. setActiveProject st p) (s\<lparr>subscribed := True\<rparr>)"
  define s2 where "s2 = (emit [OpenCall p] (with_store (\<lambda>st. open_started st p) s1))\<lparr>
     opens := (opens s1)(fresh s1 \<mapsto> p), inFlight := (inFlight s1)(p \<mapsto> fresh s1),
     ready := (ready s1)(p \<mapsto> fresh s1), fresh := fresh s1 + 1\<rparr>"
  define s3 where "s3 i = s1\<lparr>ready := (ready s1)(p \<mapsto> i)\<rparr>" for i
  have s': "acquireControlSession bridge p s = (case inFlight s p of Some i \<Rightarrow> s3 i | None \<Rightarrow> s2)"
    using True by (simp add: acquireControlSession_def s2_def s3_def s1_def Let_def split: option.split)
  have act: "isActiveProject s1 q \<longleftrightarrow> q = p" for q
    by (auto simp: s1_def isActiveProject_def setActive_facts with_store_def)
  have keep: "keeps_slices (store s) (store s1)"
    by (simp add: s1_def with_store_def setActive_facts)
  have slice: "byProject (store s1) p \<noteq> None"
    using setActive_facts(3) by (simp add: s1_def with_store_def)
  have f: "runs s1 = runs s" "timers s1 = timers s" "opens s1 = opens s" "fresh s1 = fresh s"
    "reinitInFlight s1 = reinitInFlight s" "reinitRetry s1 = reinitRetry s" "inFlight s1 = inFlight s"
    "reinitRetryAttempts s1 = reinitRetryAttempts s"
    by (simp_all add: s1_def with_store_def)
  have base1: "inv_base s1"
    using inv act slice by (simp add: lifecycle_inv_def inv_base_def inv_defs f prun_def attempts_def)
  have quiet: "progress t q" if "isActiveProject t = isActiveProject s1" "q \<noteq> p" for t q
    using that act by (simp add: progress_def behind_def)
  show ?thesis
  proof (cases "inFlight s p")
    case None
    have "inv_base s2"
      using base1 open_keeps(1) [of "store s1" p] slice
      by (auto simp: inv_base_def inv_defs s2_def prun_def attempts_def isActiveProject_def keeps_slices_def open_keeps)
    moreover have "progress s2 p" by (simp add: s2_def progress_def working_def)
    moreover have "progress s2 q" if "q \<noteq> p" for q
      by (rule quiet) (use that in \<open>simp_all add: s2_def isActiveProject_def open_keeps fun_eq_iff\<close>)
    ultimately show ?thesis unfolding s' None lifecycle_inv_def option.case by metis
  next
    case (Some i)
    have "inv_base (s3 i)"
      using base1 by (simp add: inv_base_def inv_defs s3_def prun_def attempts_def isActiveProject_def)
    moreover have "progress (s3 i) p" using Some f by (simp add: s3_def progress_def working_def)
    moreover have "progress (s3 i) q" if "q \<noteq> p" for q
      by (rule quiet) (use that in \<open>simp_all add: s3_def isActiveProject_def fun_eq_iff\<close>)
    ultimately show ?thesis unfolding s' Some lifecycle_inv_def option.case by metis
  qed
qed

lemma opened_inv:
  assumes inv: "lifecycle_inv s"
  shows "lifecycle_inv (open_answered i a s)"
proof (cases "opens s i")
  case None
  with inv show ?thesis by (simp add: open_answered_def)
next
  case (Some p)
  define close where "close t = t\<lparr>opens := (opens t)(i := None),
     inFlight := (if inFlight t p = Some i then (inFlight t)(p := None) else inFlight t)\<rparr>" for t :: session
  define t where "t = (case a of
      Inr nm \<Rightarrow> maybeReinit p (with_store (\<lambda>st. open_returned st p nm) s)
    | Inl msg \<Rightarrow> emit [OpenFailed p] (with_store (\<lambda>st. setOpenError st p (Some msg)) s))"
  have s': "open_answered i a s = close t"
    using Some by (simp add: open_answered_def close_def t_def Let_def)
  have st: "lifecycle_inv (with_store (\<lambda>st. open_returned st p nm) s)"
    "lifecycle_inv (with_store (\<lambda>st. setOpenError st p e) s)" for nm e
    by (rule store_inv_step [OF _ _ inv]; simp add: open_keeps)+
  have base: "inv_base (with_store (\<lambda>st. open_returned st p nm) s)" for nm
    using st(1) by (simp add: lifecycle_inv_def)
  have all: "progress (with_store (\<lambda>st. open_returned st p nm) s) q" for nm q
    using st(1) by (simp add: lifecycle_inv_def)
  have inv_t: "lifecycle_inv t"
    using st(2) maybeReinit_inv [OF base all] by (cases a) (simp_all add: t_def emit_inv)
  have opens_t: "opens t i = Some p"
    using Some by (simp add: t_def maybeReinit_def start_run_def ask_def split: sum.splits option.splits)
  have other: "inFlight t q \<noteq> Some i" if "q \<noteq> p" for q
    using inv_t opens_t that by (auto simp: lifecycle_inv_def inv_base_def inv_opens_def)
  have opens_close: "opens (close t) j = (if j = i then None else opens t j)" for j by (simp add: close_def)
  have "inFlight (close t) q \<noteq> Some i" for q
    using other [of q] by (cases "q = p") (simp_all add: close_def)
  moreover have "inFlight t q = Some j" if "inFlight (close t) q = Some j" for q j
    using that by (simp add: close_def split: if_splits)
  ultimately have "inv_opens (close t)"
    using inv_t unfolding lifecycle_inv_def inv_base_def inv_opens_def
    by (auto simp: opens_close)
  then have base_c: "inv_base (close t)"
    using inv_t by (simp add: lifecycle_inv_def inv_base_def inv_runs_def inv_timers_def inv_active_def
        inv_fresh_def close_def prun_def attempts_def isActiveProject_def)
  have "progress (close t) q" if "q \<noteq> p" for q
    by (rule progress_local [of t])
       (use inv_t that in \<open>simp_all add: lifecycle_inv_def close_def isActiveProject_def prun_def fun_eq_iff\<close>)
  moreover have "progress (close t) p"
  proof (cases a)
    case (Inl msg)
    then show ?thesis by (simp add: progress_def given_up_def close_def t_def)
  next
    case (Inr nm)
    have "inv_runs (with_store (\<lambda>st. open_returned st p nm) s)" using base by (simp add: inv_base_def)
    then have "behind t p \<longrightarrow> reg_run t p" by (simp add: t_def Inr maybeReinit_registers)
    then show ?thesis
      by (auto simp: progress_def behind_def working_def reg_run_def close_def isActiveProject_def prun_def)
  qed
  ultimately show ?thesis using base_c unfolding s' lifecycle_inv_def by metis
qed

lemma reset_inv:
  assumes inv: "lifecycle_inv s" and gone: "\<not> isActiveProject (with_store f (resetControlSession p s)) p"
    and act: "\<And>q. isActiveProject (with_store f (resetControlSession p s)) q \<Longrightarrow> isActiveProject s q
      \<and> byProject (f (store s)) q \<noteq> None"
  shows "lifecycle_inv (with_store f (resetControlSession p s))"
proof -
  define t where "t = with_store f (resetControlSession p s)"
  have c: "inv_base (clearReinitRetry p s)" using inv clear_base by (simp add: lifecycle_inv_def)
  have base: "inv_base t"
    using c act by (auto simp: t_def resetControlSession_def inv_base_def inv_runs_def inv_timers_def inv_opens_def
        inv_active_def inv_fresh_def prun_def attempts_def isActiveProject_def with_store_def split: if_splits)
  have "progress t q" for q
  proof (cases "q = p")
    case True
    with gone show ?thesis by (simp add: t_def progress_def behind_def)
  next
    case False
    show ?thesis
      by (rule progress_local [of s])
         (use inv False act [of q] in \<open>simp_all add: lifecycle_inv_def t_def resetControlSession_def prun_def fun_eq_iff\<close>)
  qed
  with base show ?thesis by (simp add: lifecycle_inv_def t_def)
qed

lemma teardown_inv:
  assumes inv: "lifecycle_inv s"
  shows "lifecycle_inv (teardownControlSession p s)"
  unfolding teardownControlSession_def
proof (rule reset_inv)
  let ?s = "emit [Disposed p] s"
  show "lifecycle_inv ?s" using inv by (rule emit_inv)
  have act: "isActiveProject ?s q \<longrightarrow> byProject (store s) q \<noteq> None" for q
    using inv by (simp add: lifecycle_inv_def inv_base_def inv_active_def)
  have st: "store (resetControlSession p ?s) = store s" by (simp add: resetControlSession_def)
  show "\<not> isActiveProject (with_store (\<lambda>st. resetProject st p) (resetControlSession p ?s)) p"
    using act [of p] by (auto simp: isActiveProject_def st resetProject_def Let_def)
  show "isActiveProject ?s q \<and> byProject (resetProject (store ?s) p) q \<noteq> None"
    if "isActiveProject (with_store (\<lambda>st. resetProject st p) (resetControlSession p ?s)) q" for q
    using that act [of q] act [of p] by (auto simp: isActiveProject_def st resetProject_def Let_def split: if_splits)
qed

lemma reset_all_inv: "lifecycle_inv s \<Longrightarrow> lifecycle_inv (resetAllSessions s)"
  by (simp add: lifecycle_inv_def resetAllSessions_def inv_base_def inv_defs prun_def attempts_def
      isActiveProject_def progress_def behind_def)

subsection \<open>Sizes\<close>

lemma send_ctl [simp]: "ctl (sendClientSize c r p force s) = ctl s" "store (sendClientSize c r p force s) = store s"
  "set (log s) \<subseteq> set (log (sendClientSize c r p force s))"
  by (auto simp: sendClientSize_def Let_def ctl_def split: option.splits)

lemma quiet_inv:
  "ctl s' = ctl s \<Longrightarrow> store s' = store s \<Longrightarrow> set (log s) \<subseteq> set (log s') \<Longrightarrow> lifecycle_inv s \<Longrightarrow> lifecycle_inv s'"
  by (rule ctl_same_inv) simp_all

lemma ctl_simps:
  "ctl (s\<lparr>frames := x\<rparr>) = ctl s" "ctl (s\<lparr>paneNudgeInFlight := y\<rparr>) = ctl s" "ctl (s\<lparr>nudgesSent := y\<rparr>) = ctl s"
  "ctl (s\<lparr>paneNudgeInFlight := y, nudgesSent := y'\<rparr>) = ctl s"
  "ctl (s\<lparr>paneNudgeInFlight := y, frames := x\<rparr>) = ctl s"
  "ctl (s\<lparr>pendingWindowRefresh := q\<rparr>) = ctl s" "ctl (s\<lparr>showRunPanel := b\<rparr>) = ctl s"
  "ctl (s\<lparr>lastSentSize := l\<rparr>) = ctl s"
  by (simp_all add: ctl_def)

lemma push_inv: "lifecycle_inv s \<Longrightarrow> lifecycle_inv (pushClientSize reg host s)"
  by (rule quiet_inv) (auto simp: pushClientSize_def split: option.splits prod.splits)

lemma nudge_inv: "lifecycle_inv s \<Longrightarrow> lifecycle_inv (nudgeClientSize reg host w s)"
proof (rule quiet_inv)
  have l: "set (log s) \<subseteq> set (log (sendClientSize c r p force s))" for c r p force by simp
  show "ctl (nudgeClientSize reg host w s) = ctl s"
    by (auto simp: nudgeClientSize_def Let_def ctl_simps split: option.splits prod.splits)
  show "store (nudgeClientSize reg host w s) = store s"
    by (auto simp: nudgeClientSize_def Let_def split: option.splits prod.splits)
  show "set (log s) \<subseteq> set (log (nudgeClientSize reg host w s))"
    using l by (auto simp: nudgeClientSize_def Let_def split: option.splits prod.splits)
qed

lemma nudge_panes_inv: "lifecycle_inv s \<Longrightarrow> lifecycle_inv (nudgePaneRows p w s)"
  by (rule quiet_inv) (auto simp: nudgePaneRows_def Let_def ctl_simps split: option.splits bind_splits)

lemma frame_inv: "lifecycle_inv s \<Longrightarrow> lifecycle_inv (next_frame s)"
proof (rule quiet_inv)
  have l: "set (log s) \<subseteq> set (log (sendClientSize c r p force (s\<lparr>frames := fs\<rparr>)))" for c r p force fs
    using send_ctl(3) [of "s\<lparr>frames := fs\<rparr>"] by simp
  show "ctl (next_frame s) = ctl s"
    by (auto simp: next_frame_def run_frame_def ctl_simps split: list.splits frame.splits)
  show "store (next_frame s) = store s"
    by (auto simp: next_frame_def run_frame_def split: list.splits frame.splits)
  show "set (log s) \<subseteq> set (log (next_frame s))"
    using l by (auto simp: next_frame_def run_frame_def split: list.splits frame.splits)
qed

lemma step_lifecycle: "lifecycle_inv s \<Longrightarrow> lifecycle_inv (session_step s e)"
proof (cases e)
  case (EvTmux p n)
  assume inv: "lifecycle_inv s"
  have "lifecycle_inv (with_store (notify p x) s)" for x
    by (rule store_inv_step [OF _ _ inv]) (simp_all add: notify_keeps)
  with EvTmux inv show ?thesis by (simp add: on_tmux_def onAttached_inv split: sum.splits)
next
  case (EvSetting b)
  assume "lifecycle_inv s"
  then show ?thesis unfolding EvSetting session_step.simps by (rule quiet_inv [rotated 3]) (simp_all add: ctl_simps)
next
  case (EvNudged k)
  assume "lifecycle_inv s"
  then show ?thesis unfolding EvNudged session_step.simps
    by (rule quiet_inv [rotated 3]) (simp_all add: nudges_settled_def ctl_simps)
next
  case (EvQueueOthers p w)
  assume "lifecycle_inv s"
  then show ?thesis unfolding EvQueueOthers session_step.simps by (rule quiet_inv [rotated 3]) (simp_all add: ctl_simps)
next
  case (EvTake p w)
  assume "lifecycle_inv s"
  then show ?thesis unfolding EvTake session_step.simps by (rule quiet_inv [rotated 3]) (simp_all add: ctl_simps)
qed (simp_all add: acquire_inv opened_inv on_reply_inv settle_inv retry_fires_inv teardown_inv reset_all_inv
    push_inv nudge_inv nudge_panes_inv frame_inv)

lemma init_lifecycle: "lifecycle_inv (initSession run)"
  by (simp add: lifecycle_inv_def inv_base_def inv_defs initSession_def initStore_def prun_def attempts_def
      isActiveProject_def progress_def behind_def)

interpretation lifecycle: stepping session_step lifecycle_inv
  by unfold_locales (rule step_lifecycle)

subsection \<open>What was announced and what was read\<close>

text \<open>
  Read off the events alone: whether announcements are heard, and the newest channel announced
  for each project. Nothing is heard before the first acquire with a bridge, nor after everything
  is reset until the next one.
\<close>

definition hear :: "bool \<times> (string \<rightharpoonup> nat) \<Rightarrow> session_event \<Rightarrow> bool \<times> (string \<rightharpoonup> nat)" where
  "hear h e = (case e of
     EvAcquire bridge p \<Rightarrow> (fst h \<or> bridge, snd h)
   | EvResetAll \<Rightarrow> (False, Map.empty)
   | EvTmux p (Inl n) \<Rightarrow> (fst h, if fst h then (snd h)(p \<mapsto> n) else snd h)
   | _ \<Rightarrow> h)"

definition announced :: "session_event list \<Rightarrow> string \<Rightarrow> nat option" where
  "announced es = snd (foldl hear (False, Map.empty) es)"

text \<open>
  The readings that took place: a project and a channel for every answer that lists the layouts
  of the project's windows, to a run started for that channel, while the project is shown. The
  bookkeeping of what is up to date is not looked at.
\<close>

definition read_by :: "session \<Rightarrow> session_event \<Rightarrow> (string \<times> nat) list" where
  "read_by s e = (case e of
     EvReply i (Lines ls) \<Rightarrow>
       (case runs s i of
          None \<Rightarrow> []
        | Some r \<Rightarrow> if r_at r = AtSyncLayouts \<and> isActiveProject s (r_project r)
                    then [(r_project r, r_target r)] else [])
   | _ \<Rightarrow> [])"

fun readings :: "session \<Rightarrow> session_event list \<Rightarrow> (string \<times> nat) list" where
  "readings s [] = []"
| "readings s (e # es) = read_by s e @ readings (session_step s e) es"

lemma readings_snoc: "readings s (es @ [e]) = readings s es @ read_by (foldl session_step s es) e"
  by (induction es arbitrary: s) simp_all

definition hears :: "session \<Rightarrow> bool \<times> (string \<rightharpoonup> nat)" where
  "hears s = (subscribed s, channelEpoch s)"

lemma hears_parts [simp]:
  "hears (emit os s) = hears s" "hears (with_store f s) = hears s" "hears (cancel_timer t s) = hears s"
  "hears (clearReinitRetry p s) = hears s" "hears (scheduleReinitRetry p s) = hears s"
  "hears (start_run p n s) = hears s" "hears (go i pos s) = hears s" "hears (ask p c s) = hears s"
  by (auto simp: hears_def emit_def with_store_def cancel_timer_def clearReinitRetry_def
      scheduleReinitRetry_def start_run_def ask_def go_def Let_def split: option.splits)

lemma hears_maybe [simp]: "hears (maybeReinit p s) = hears s"
  by (simp add: maybeReinit_def split: option.splits) (simp add: hears_def)

lemma hears_reply [simp]: "hears (on_reply i a s) = hears s"
proof -
  have work: "hears (next_work i p ws t) = hears t" for p ws t
    by (simp add: next_work_def start_sync_def split: list.splits work.splits)
  have done_with: "hears (after_ensure i p b t) = hears t" for p b t by (simp add: after_ensure_def)
  have "hears (on_restore i r a t) = hears t" for r t
    by (simp add: on_restore_def Let_def split: reply.splits) (simp add: hears_def with_store_def)
  moreover have "hears (on_names i p a t) = hears t" "hears (on_work i p ws a t) = hears t"
    "hears (on_created i p ws a t) = hears t" "hears (on_first i p ws a t) = hears t"
    "hears (on_sync_names i p a t) = hears t" "hears (on_sync_layouts i p a t) = hears t" for p ws t
    by (simp_all add: on_names_def on_work_def on_created_def on_first_def on_sync_names_def
        on_sync_layouts_def start_sync_def work done_with Let_def split: reply.splits ReconcilePlan.splits)
  ultimately show ?thesis by (simp add: on_reply_def split: option.splits run_at.splits)
qed

lemma hears_send [simp]: "hears (sendClientSize c r p force s) = hears s"
  by (auto simp: sendClientSize_def hears_def emit_def Let_def split: option.splits)

lemma hears_upd:
  "hears (s\<lparr>frames := x\<rparr>) = hears s" "hears (s\<lparr>paneNudgeInFlight := y\<rparr>) = hears s"
  "hears (s\<lparr>paneNudgeInFlight := y, nudgesSent := y'\<rparr>) = hears s" "hears (s\<lparr>nudgesSent := y\<rparr>) = hears s"
  "hears (s\<lparr>paneNudgeInFlight := y, frames := x\<rparr>) = hears s"
  by (simp_all add: hears_def)

lemma hears_sizes [simp]:
  "hears (pushClientSize reg host s) = hears s" "hears (nudgeClientSize reg host w s) = hears s"
  "hears (nudgePaneRows p v s) = hears s" "hears (next_frame s) = hears s"
  by (auto simp: pushClientSize_def nudgeClientSize_def nudgePaneRows_def next_frame_def run_frame_def Let_def
      hears_upd split: option.splits prod.splits bind_splits list.splits frame.splits)

lemma hears_ends [simp]:
  "hears (teardownControlSession p s) = hears s" "hears (resetAllSessions s) = (False, Map.empty)"
  "hears (nudges_settled k s) = hears s"
  by (simp_all add: teardownControlSession_def resetControlSession_def resetAllSessions_def nudges_settled_def
      hears_def with_store_def emit_def clearReinitRetry_def cancel_timer_def split: option.splits)

lemma hears_step: "hears (session_step s e) = hear (hears s) e"
proof (cases e)
  case (EvTmux p n)
  then show ?thesis
    by (cases n) (simp_all add: hear_def on_tmux_def onAttached_def, simp add: hears_def)
next
  case (EvAcquire bridge p)
  then show ?thesis
    by (simp add: hear_def acquireControlSession_def Let_def split: option.splits)
      (simp add: hears_def with_store_def emit_def)
next
  case (EvOpened i a)
  moreover have "hears (t\<lparr>opens := x, inFlight := y\<rparr>) = hears t" for t x y by (simp add: hears_def)
  ultimately show ?thesis
    by (simp add: hear_def open_answered_def Let_def split: option.splits sum.splits)
next
  case (EvSettle i)
  then show ?thesis by (simp add: hear_def settle_def Let_def split: option.splits)
      (simp add: hears_def leave_run_def)
next
  case (EvTimer t)
  then show ?thesis by (simp add: hear_def retry_fires_def Let_def split: option.splits)
      (simp add: hears_def)
next
  case (EvSetting b)
  then show ?thesis by (simp add: hear_def hears_def)
next
  case (EvQueueOthers p w)
  then show ?thesis by (simp add: hear_def hears_def)
next
  case (EvTake p w)
  then show ?thesis by (simp add: hear_def hears_def)
qed (simp_all add: hear_def)


lemma hears_run: "hears (foldl session_step (initSession run) es) = foldl hear (False, Map.empty) es"
proof (induction es rule: rev_induct)
  case Nil
  show ?case by (simp add: hears_def initSession_def)
qed (simp add: hears_step)

lemma announced_live: "channelEpoch (foldl session_step (initSession run) es) p = announced es p"
  using hears_run [of run es] by (simp add: announced_def hears_def) (metis snd_conv)

text \<open>A project counts as up to date with a channel, or a run is about to say so, only after such a reading.\<close>

definition marks_read :: "(string \<times> nat) set \<Rightarrow> session \<Rightarrow> bool" where
  "marks_read R s \<longleftrightarrow>
     (\<forall>i r. runs s i = Some r \<longrightarrow> r_at r = AtRestore \<longrightarrow> (r_project r, r_target r) \<in> R)
     \<and> (\<forall>p e. initializedEpoch s p = Some e \<longrightarrow> (p, e) \<in> R)"

lemma marks_mono: "marks_read R s \<Longrightarrow> R \<subseteq> R' \<Longrightarrow> marks_read R' s" by (auto simp: marks_read_def)

lemma marks_parts [simp]:
  "marks_read R (emit os s) = marks_read R s" "marks_read R (with_store f s) = marks_read R s"
  "marks_read R (cancel_timer t s) = marks_read R s" "marks_read R (clearReinitRetry p s) = marks_read R s"
  "marks_read R (scheduleReinitRetry p s) = marks_read R s" "marks_read R (ask p c s) = marks_read R s"
  by (auto simp: marks_read_def emit_def with_store_def cancel_timer_def clearReinitRetry_def
      scheduleReinitRetry_def ask_def Let_def split: option.splits)

lemma marks_go: "marks_read R s \<Longrightarrow> pos \<noteq> AtRestore \<Longrightarrow> marks_read R (go i pos s)"
  by (auto simp: marks_read_def go_def split: option.splits)

lemma marks_restore:
  "marks_read R s \<Longrightarrow> runs s i = Some r \<Longrightarrow> (r_project r, r_target r) \<in> R \<Longrightarrow> marks_read R (go i AtRestore s)"
  by (auto simp: marks_read_def go_def split: option.splits)

lemma marks_maybe: "marks_read R s \<Longrightarrow> marks_read R (maybeReinit p s)"
  by (auto simp: maybeReinit_def start_run_def marks_read_def ask_def emit_def split: option.splits)

lemma marks_work: "marks_read R s \<Longrightarrow> marks_read R (next_work i p ws s)"
  by (auto simp: next_work_def start_sync_def marks_go split: list.splits work.splits)

lemma marks_unsynced: "marks_read R s \<Longrightarrow> marks_read R (after_ensure i p False s)"
  by (simp add: after_ensure_def marks_go)

lemma marks_reply:
  fixes i :: nat and a :: reply
  assumes inv: "marks_read R s"
  defines "R' \<equiv> R \<union> set (read_by s (EvReply i a))"
  shows "marks_read R' (on_reply i a s)"
proof (cases "runs s i")
  case None
  then show ?thesis using inv by (auto simp: on_reply_def marks_read_def R'_def)
next
  case (Some r)
  have inv': "marks_read R' s" using inv by (rule marks_mono) (simp add: R'_def)
  note quiet = marks_go marks_work marks_unsynced inv'
  show ?thesis
  proof (cases "r_at r")
    case AtNames
    with Some show ?thesis by (simp add: on_reply_def on_names_def start_sync_def quiet
          split: reply.splits ReconcilePlan.splits)
  next
    case (AtWork ws)
    with Some show ?thesis by (auto simp: on_reply_def on_work_def start_sync_def quiet split: reply.splits)
  next
    case (AtCreated ws)
    with Some show ?thesis by (auto simp: on_reply_def on_created_def start_sync_def quiet split: reply.splits)
  next
    case (AtFirst ws)
    with Some show ?thesis by (auto simp: on_reply_def on_first_def start_sync_def quiet split: reply.splits)
  next
    case AtSyncNames
    with Some show ?thesis by (auto simp: on_reply_def on_sync_names_def Let_def quiet split: reply.splits)
  next
    case AtSyncLayouts
    note here = Some AtSyncLayouts
    show ?thesis
    proof (cases "a = Failed \<or> \<not> isActiveProject s (r_project r)")
      case True
      with here show ?thesis by (auto simp: on_reply_def on_sync_layouts_def quiet split: reply.splits)
    next
      case False
      then obtain ls where a: "a = Lines ls" and act: "isActiveProject s (r_project r)" by (cases a) auto
      define t where "t = ask (r_project r) CURRENT (clearReinitRetry (r_project r)
        (with_store (notify_all (r_project r) (layout_notes (listWindows ls))) s))"
      have "runs t i = Some r" using here
        by (simp add: t_def ask_def emit_def clearReinitRetry_def cancel_timer_def with_store_def split: option.splits)
      moreover have "marks_read R' t" using inv' by (simp add: t_def)
      moreover have "(r_project r, r_target r) \<in> R'" using here act by (simp add: a read_by_def R'_def)
      ultimately have "marks_read R' (go i AtRestore t)" by (metis marks_restore)
      then show ?thesis using here act
        by (simp add: on_reply_def on_sync_layouts_def after_ensure_def a t_def)
    qed
  next
    case AtRestore
    then have "(r_project r, r_target r) \<in> R'" using inv' Some by (simp add: marks_read_def)
    with AtRestore Some show ?thesis using inv'
      by (auto simp: on_reply_def on_restore_def Let_def go_def emit_def with_store_def marks_read_def
          split: reply.splits option.splits)
  next
    case AtSettle
    with Some show ?thesis by (simp add: on_reply_def inv')
  qed
qed

lemma marks_quiet: "runs s' = runs s \<Longrightarrow> initializedEpoch s' = initializedEpoch s \<Longrightarrow> marks_read R s' = marks_read R s"
  by (simp add: marks_read_def)

lemma marks_ctl: "ctl s' = ctl s \<Longrightarrow> marks_read R s' = marks_read R s"
  by (rule marks_quiet) (simp_all add: ctl_def)

lemma ctl_sizes:
  "ctl (pushClientSize reg host s) = ctl s" "ctl (nudgeClientSize reg host w s) = ctl s"
  "ctl (nudgePaneRows p v s) = ctl s" "ctl (next_frame s) = ctl s"
  by (auto simp: pushClientSize_def nudgeClientSize_def nudgePaneRows_def next_frame_def run_frame_def Let_def
      ctl_simps split: option.splits prod.splits bind_splits list.splits frame.splits)

lemma marks_step: "marks_read R s \<Longrightarrow> marks_read (R \<union> set (read_by s e)) (session_step s e)"
proof (cases e)
  case (EvTmux p n)
  assume "marks_read R s"
  moreover have "marks_read R (s\<lparr>channelEpoch := x\<rparr>) = marks_read R s" for x by (rule marks_quiet) simp_all
  ultimately show ?thesis using EvTmux
    by (auto simp: read_by_def on_tmux_def onAttached_def marks_maybe split: sum.splits)
next
  case (EvAcquire b p)
  assume "marks_read R s"
  then show ?thesis using EvAcquire
    by (simp add: read_by_def acquireControlSession_def Let_def marks_read_def with_store_def emit_def split: option.splits)
next
  case (EvOpened i a)
  assume "marks_read R s"
  moreover have "marks_read R (t\<lparr>opens := x, inFlight := y\<rparr>) = marks_read R t" for t x y
    by (rule marks_quiet) simp_all
  ultimately show ?thesis using EvOpened
    by (auto simp: read_by_def open_answered_def Let_def marks_maybe split: option.splits sum.splits)
next
  case (EvReply i a)
  assume "marks_read R s"
  then show ?thesis using EvReply marks_reply by simp
next
  case (EvSettle i)
  assume "marks_read R s"
  moreover from this have "marks_read R (leave_run i p s)" for p by (auto simp: marks_read_def leave_run_def)
  ultimately show ?thesis using EvSettle
    by (auto simp: read_by_def settle_def Let_def marks_maybe split: option.splits)
next
  case (EvTimer t)
  assume "marks_read R s"
  moreover have "marks_read R (s\<lparr>timers := x, reinitRetry := y\<rparr>) = marks_read R s" for x y
    by (rule marks_quiet) simp_all
  ultimately show ?thesis using EvTimer
    by (auto simp: read_by_def retry_fires_def Let_def marks_maybe split: option.splits)
next
  case (EvTeardown p)
  assume "marks_read R s"
  then have "marks_read R (clearReinitRetry p (emit [Disposed p] s))" by simp
  then have "marks_read R (resetControlSession p (emit [Disposed p] s))"
    by (simp add: resetControlSession_def marks_read_def emit_def)
  then show ?thesis using EvTeardown by (simp add: read_by_def teardownControlSession_def)
next
  case EvResetAll
  assume "marks_read R s"
  then show ?thesis using EvResetAll by (auto simp: read_by_def resetAllSessions_def marks_read_def)
next
  case (EvSetting b)
  assume "marks_read R s"
  then show ?thesis using EvSetting by (simp add: read_by_def marks_read_def)
next
  case (EvQueueOthers p w)
  assume "marks_read R s"
  then show ?thesis using EvQueueOthers by (simp add: read_by_def marks_read_def)
next
  case (EvTake p w)
  assume "marks_read R s"
  then show ?thesis using EvTake by (simp add: read_by_def marks_read_def)
next
  case (EvNudged k)
  assume "marks_read R s"
  then show ?thesis using EvNudged by (simp add: read_by_def marks_read_def nudges_settled_def)
qed (simp_all add: read_by_def marks_ctl [OF ctl_sizes(1)] marks_ctl [OF ctl_sizes(2)]
    marks_ctl [OF ctl_sizes(3)] marks_ctl [OF ctl_sizes(4)])

lemma marks_run:
  "marks_read (set (readings (initSession run) es)) (foldl session_step (initSession run) es)"
proof (induction es rule: rev_induct)
  case Nil
  show ?case by (simp add: marks_read_def initSession_def)
next
  case (snoc e es)
  then show ?case using marks_step [OF snoc.IH, of e] by (simp add: readings_snoc)
qed


subsection \<open>One run at a time\<close>

definition only_registered :: "session \<Rightarrow> string \<Rightarrow> bool" where
  "only_registered s p \<longleftrightarrow> (\<forall>i. prun s p i \<noteq> None \<longrightarrow> reinitInFlight s p = Some i)"

definition run_view :: "session \<Rightarrow> string \<Rightarrow> (nat \<Rightarrow> bool) \<times> nat option" where
  "run_view s p = (\<lambda>i. prun s p i \<noteq> None, reinitInFlight s p)"

lemma only_registered_view: "run_view s' p = run_view s p \<Longrightarrow> only_registered s p \<Longrightarrow> only_registered s' p"
  by (auto simp: only_registered_def run_view_def fun_eq_iff)

lemma run_view_simps [simp]:
  "run_view (emit os s) p = run_view s p" "run_view (with_store f s) p = run_view s p"
  "run_view (go i pos s) p = run_view s p" "run_view (clearReinitRetry q s) p = run_view s p"
  "run_view (scheduleReinitRetry q s) p = run_view s p" "run_view (ask q c s) p = run_view s p"
  by (auto simp: run_view_def prun_go ask_def fun_eq_iff)

lemma run_view_ctl: "ctl s' = ctl s \<Longrightarrow> run_view s' p = run_view s p"
  by (simp add: ctl_def run_view_def prun_def fun_eq_iff)

lemma run_view_reply: "run_view (on_reply i a s) p = run_view s p"
proof -
  have nw: "run_view (next_work i q ws s) p = run_view s p" for q ws
    by (auto simp: next_work_def start_sync_def split: list.splits work.splits)
  have after: "run_view (after_ensure i q b s') p = run_view s' p" for q b s'
    by (simp add: after_ensure_def)
  have init: "run_view (s'\<lparr>initializedEpoch := x\<rparr>) p = run_view s' p" for s' x
    by (simp add: run_view_def prun_def)
  show ?thesis
    by (auto simp: on_reply_def on_names_def on_work_def on_created_def on_first_def on_sync_names_def
        on_sync_layouts_def on_restore_def start_sync_def nw after init Let_def
        split: option.splits run_at.splits reply.splits ReconcilePlan.splits)
qed

lemma only_maybe:
  assumes o: "only_registered s p"
  shows "only_registered (maybeReinit q s) p"
proof -
  have "only_registered (start_run q e s) p" if "reinitInFlight s q = None" for e
  proof (cases "q = p")
    case True
    with o that have "prun s p i = None" for i by (auto simp: only_registered_def)
    then have "prun (start_run q e s) p i = None \<or> i = fresh s" for i
      by (simp add: start_run_def ask_def prun_def)
    moreover have "reinitInFlight (start_run q e s) p = Some (fresh s)" using True by (simp add: start_run_def)
    ultimately show ?thesis unfolding only_registered_def by metis
  next
    case False
    then have "prun (start_run q e s) p i \<noteq> None \<Longrightarrow> prun s p i \<noteq> None" for i
      by (simp add: start_run_def ask_def prun_def split: if_splits)
    with o False show ?thesis by (simp add: only_registered_def start_run_def)
  qed
  moreover have "only_registered (s\<lparr>reinitPending := x\<rparr>) p" for x
    using o by (simp add: only_registered_def prun_def)
  ultimately show ?thesis using o by (simp add: maybeReinit_def split: option.splits)
qed

lemma only_settle:
  assumes o: "only_registered s p"
  shows "only_registered (settle i s) p"
proof -
  have "reinitInFlight (leave_run i q s) p = Some j" if "prun (leave_run i q s) p j \<noteq> None" for j q
  proof -
    from that have j: "j \<noteq> i" "prun s p j \<noteq> None"
      by (auto simp: leave_run_def prun_def split: option.splits if_splits)
    with o have "reinitInFlight s p = Some j" by (simp add: only_registered_def)
    with j show ?thesis by (auto simp: leave_run_def)
  qed
  then have "only_registered (leave_run i q s) p" for q by (simp add: only_registered_def)
  then show ?thesis using o by (simp add: settle_def Let_def only_maybe split: option.splits)
qed

lemma only_step:
  assumes "only_registered s p" and "e \<noteq> EvTeardown p" "e \<noteq> EvResetAll"
  shows "only_registered (session_step s e) p"
proof (cases e)
  case (EvTmux q n)
  have "only_registered (s\<lparr>channelEpoch := x\<rparr>) p" for x
    using assms(1) by (simp add: only_registered_def prun_def)
  then show ?thesis
    using EvTmux assms(1) only_registered_view [OF run_view_simps(2)]
    by (auto simp: on_tmux_def onAttached_def only_maybe split: sum.splits)
next
  case (EvAcquire b q)
  have "run_view (acquireControlSession b q s) p = run_view s p"
    by (auto simp: acquireControlSession_def Let_def run_view_def prun_def with_store_def emit_def split: option.splits)
  with EvAcquire assms(1) show ?thesis by (auto intro: only_registered_view)
next
  case (EvOpened i a)
  have "only_registered (t\<lparr>opens := x, inFlight := y\<rparr>) p \<longleftrightarrow> only_registered t p" for t :: session and x y
    by (simp add: only_registered_def prun_def)
  then show ?thesis
    using EvOpened assms(1) only_registered_view [OF run_view_simps(1)] only_registered_view [OF run_view_simps(2)]
    by (auto simp: open_answered_def Let_def only_maybe split: option.splits sum.splits)
next
  case (EvReply i a)
  with assms(1) show ?thesis using run_view_reply by (auto intro: only_registered_view)
next
  case (EvSettle i)
  with assms(1) show ?thesis by (simp add: only_settle)
next
  case (EvTimer t)
  have "only_registered (s\<lparr>timers := x, reinitRetry := y\<rparr>) p" for x y
    using assms(1) by (simp add: only_registered_def prun_def)
  with EvTimer assms(1) show ?thesis by (auto simp: retry_fires_def Let_def only_maybe split: option.splits)
next
  case (EvTeardown q)
  with assms(2) have "q \<noteq> p" by simp
  then have "run_view (teardownControlSession q s) p = run_view s p"
    by (auto simp: teardownControlSession_def resetControlSession_def run_view_def prun_def)
  with EvTeardown assms(1) show ?thesis by (auto intro: only_registered_view)
next
  case EvResetAll
  with assms(3) show ?thesis by simp
next
  case (EvPush reg host)
  have "ctl (pushClientSize reg host s) = ctl s"
    by (auto simp: pushClientSize_def split: option.splits prod.splits)
  with EvPush assms(1) show ?thesis using run_view_ctl by (auto intro: only_registered_view)
next
  case (EvNudge reg host w)
  have "ctl (nudgeClientSize reg host w s) = ctl s"
    by (auto simp: nudgeClientSize_def Let_def ctl_simps split: option.splits prod.splits)
  with EvNudge assms(1) show ?thesis using run_view_ctl by (auto intro: only_registered_view)
next
  case (EvNudgePanes q w)
  have "ctl (nudgePaneRows q w s) = ctl s"
    by (auto simp: nudgePaneRows_def Let_def ctl_simps split: option.splits bind_splits)
  with EvNudgePanes assms(1) show ?thesis using run_view_ctl by (auto intro: only_registered_view)
next
  case EvFrame
  have "ctl (next_frame s) = ctl s"
    by (auto simp: next_frame_def run_frame_def ctl_simps split: list.splits frame.splits)
  with EvFrame assms(1) show ?thesis using run_view_ctl by (auto intro: only_registered_view)
qed (use assms(1) in \<open>auto simp: nudges_settled_def only_registered_def prun_def\<close>)

lemma only_run:
  "only_registered s p \<Longrightarrow> EvTeardown p \<notin> set es \<Longrightarrow> EvResetAll \<notin> set es \<Longrightarrow>
     only_registered (foldl session_step s es) p"
proof (induction es arbitrary: s)
  case Nil
  then show ?case by simp
next
  case (Cons e es)
  then have "only_registered (session_step s e) p" by (intro only_step) auto
  with Cons show ?case by simp
qed

section \<open>Properties\<close>

text \<open>
  C36. Reconciliation reaches its goal in one pass and then rests. The server is any that does
  what tmux documents of the commands; it holds at least one window and their identifiers
  differ; every command of the plan succeeds; and the directory a first terminal opens in is not
  called persistent or run- and digits. Then, after the plan, there is exactly one persistent
  window, at most one run window and that one is named run-1 (exactly one if the run panel is
  on), the real terminals are the ones that were there, or a single one named after the directory
  if there was none, and reconciling again asks for nothing.
\<close>

theorem reconcile_converges:
  fixes createRun :: bool
  assumes "documented tmux wins base" and "wins t \<noteq> []" and "distinct (map fst (wins t))"
    and "\<not> isHiddenWindow (Some base)"
  defines "after \<equiv> carried_out tmux wins t createRun"
  shows "work_of (reconcile after createRun) = [] \<and> settled after createRun
    \<and> (if filter is_real (wins t) = [] then map snd (filter is_real after) = [base]
       else mset (filter is_real after) = mset (filter is_real (wins t)))"
proof -
  define ws where "ws = wins t"
  define K where "K = set (map fst (drop 1 (persistents_of ws)) @ map fst (drop 1 (runs_of ws)))"
  define A where "A = filter (\<lambda>w. fst w \<notin> K) ws"
  obtain i j k where D: "mset after = mset (ren_survivor (runs_of ws) A
     @ (if persistents_of ws = [] then [(i, PERSISTENT_WINDOW)] else [])
     @ (if runs_of ws = [] \<and> createRun then [(j, RUN_WINDOW)] else [])
     @ (if filter is_real ws = [] then [(k, base)] else []))"
    using plan_result [OF assms(1,2)] unfolding after_def A_def K_def ws_def by blast
  have dws: "distinct (map fst ws)" "ws \<noteq> []" using assms(2,3) by (simp_all add: ws_def)
  note A = reconciled [OF dws, folded K_def, folded A_def]
  have dA: "distinct (map fst A)" using dws(1) by (simp add: A_def distinct_map_filter)
  note B = survivor_filters [OF dA A(2)]
  have names: "is_persistent (x, PERSISTENT_WINDOW)" "\<not> is_run (x, PERSISTENT_WINDOW)"
    "is_run (x, RUN_WINDOW)" "\<not> is_persistent (x, RUN_WINDOW)" "is_real (x, base)"
    "\<not> is_persistent (x, base)" "\<not> is_run (x, base)" "\<not> is_real (x, PERSISTENT_WINDOW)"
    "\<not> is_real (x, RUN_WINDOW)" for x
    using assms(4) persistent_name persistent_name(2) [symmetric]
    by (auto simp: is_persistent_def is_run_def is_real_def isHiddenWindow_def)
  note parts = filtered_mset [OF D]
  have pers: "length (filter is_persistent after) = 1"
    using parts [of is_persistent, THEN mset_eq_length]
    by (cases "persistents_of ws") (simp_all add: A B names)
  define L where "L = ren_survivor (runs_of ws) A
     @ (if persistents_of ws = [] then [(i, PERSISTENT_WINDOW)] else [])
     @ (if runs_of ws = [] \<and> createRun then [(j, RUN_WINDOW)] else [])
     @ (if filter is_real ws = [] then [(k, base)] else [])"
  have "mset (map snd (filter is_run after)) = mset (map snd (filter is_run L))"
    using parts [of is_run, folded L_def] by (simp only: mset_map)
  moreover have "map snd (filter is_run L) = (if runs_of ws = [] \<and> \<not> createRun then [] else [RUN_WINDOW])"
    by (simp add: L_def B names)
  ultimately have runs: "map snd (filter is_run after) = (if runs_of ws = [] \<and> \<not> createRun then [] else [RUN_WINDOW])"
    by (intro short_mset) simp_all
  have real: "mset (filter is_real after) = mset (filter is_real ws @ (if filter is_real ws = [] then [(k, base)] else []))"
    using parts [of is_real] by (simp add: A B names)
  then have one: "filter is_real after = [(k, base)]" if "filter is_real ws = []"
    using that by (simp add: mset_single_list)
  moreover have "filter is_real after \<noteq> []"
    using mset_eq_length [OF real] by (cases "filter is_real ws") auto
  ultimately have "settled after createRun"
    using pers runs by (auto simp: settled_def split: if_splits)
  with real one show ?thesis by (simp add: settled_no_work ws_def)
qed

text \<open>A server that numbers its windows from a counter.\<close>

fun counting :: "nat \<times> win_row list \<Rightarrow> work \<Rightarrow> nat \<times> win_row list" where
  "counting (n, ws) (Kill w) = (n, filter (\<lambda>x. fst x \<noteq> w) ws)"
| "counting (n, ws) (Rename w nm) = (n, map (\<lambda>(x, old). if x = w then (x, nm) else (x, old)) ws)"
| "counting (n, ws) (Create nm) = (Suc n, ws @ [(CHR ''@'' # showNat n, nm)])"
| "counting (n, ws) FirstTerminal = (Suc n, ws @ [(CHR ''@'' # showNat n, ''src'')])"

theorem reconcile_converges_witness:
  "let ws = [(''@4'', ''run-3''), (''@2'', ''zsh''), (''@9'', ''run-1''), (''@7'', ''persistent''), (''@1'', ''persistent'')]
   in carried_out counting snd (10, ws) True = [(''@4'', ''run-1''), (''@2'', ''zsh''), (''@1'', ''persistent'')]
      \<and> settled (carried_out counting snd (10, ws) True) True"
proof -
  let ?ws = "[(''@4'', ''run-3''), (''@2'', ''zsh''), (''@9'', ''run-1''), (''@7'', ''persistent''), (''@1'', ''persistent'')]"
  have "documented counting snd ''src''" by (auto simp: documented_def)
  then have "settled (carried_out counting snd (10, ?ws) True) True"
    using reconcile_converges [of counting snd "''src''" "(10, ?ws)" True]
    by (simp add: isHiddenWindow_def PERSISTENT_WINDOW_def RUN_RE_def startsWith_def)
  moreover have "carried_out counting snd (10, ?ws) True = [(''@4'', ''run-1''), (''@2'', ''zsh''), (''@1'', ''persistent'')]"
    by code_simp
  ultimately show ?thesis by (simp add: Let_def)
qed

text \<open>
  The condition on the directory is needed: a terminal named run-7 after its directory, beside
  the run window, is hidden, and the next pass kills it and opens another.
\<close>

lemma terminal_in_reserved_directory_is_killed:
  "work_of (reconcile [(''@0'', ''persistent''), (''@1'', ''run-1'')] True) = [FirstTerminal]
   \<and> work_of (reconcile [(''@0'', ''persistent''), (''@1'', ''run-1''), (''@2'', ''run-7'')] True)
     = [Kill ''@2'', FirstTerminal]"
  by code_simp

text \<open>
  C35. A re-initialisation leaves the view equal to what tmux holds: when the two listings that
  tmux prints for its windows arrive, the view of the project shows exactly these windows,
  each once, with the names, layouts, visible layouts and zoom states they have there - whatever
  the view showed before, windows that closed while the channel was down included. No other
  project's view changes, and the run goes on to ask for the selected window.
\<close>

theorem sync_reads_server:
  fixes i :: nat
  assumes run: "runs s i = Some r" "r_at r = AtSyncNames" "r_project r = p"
    and active: "isActiveProject s p" and inv: "view_inv (view_of (store s) p)"
    and ws: "ws \<noteq> []" "distinct (map sw_id ws)" "list_all served_ok ws"
  defines "s1 \<equiv> on_reply i (Lines (map name_line ws)) s"
  defines "s2 \<equiv> on_reply i (Lines (map layout_line ws)) s1"
  shows "map_of (mirror (view_of (store s2) p)) = map_of (map served ws)
    \<and> distinct (windowOrder (view_of (store s2) p))
    \<and> set (windowOrder (view_of (store s2) p)) = sw_id ` set ws
    \<and> map_option r_at (runs s2 i) = Some AtRestore
    \<and> (q = p \<or> view_of (store s2) q = view_of (store s) q)"
proof -
  define rows where "rows = map (\<lambda>w. (sw_id w, sw_name w)) ws"
  define ns where "ns = prune_notes (byProject (store s) p) rows @ name_notes rows"
  have "listWindows (map name_line ws) = rows" unfolding rows_def by (rule listed_names [OF ws(3)])
  moreover have "rows \<noteq> []" using ws by (simp add: rows_def)
  ultimately have s1: "s1 = go i AtSyncLayouts (ask p LAYOUTS (with_store (notify_all p ns) s))"
    using run active by (simp add: s1_def on_reply_def on_sync_names_def Let_def ns_def)
  have run1: "runs s1 i = Some (r\<lparr>r_at := AtSyncLayouts\<rparr>)"
    using run by (simp add: s1 go_def ask_def emit_def with_store_def)
  have st1: "store s1 = notify_all p ns (store s)"
    using run by (simp add: s1 go_def ask_def emit_def with_store_def)
  have "isActiveProject s1 p" using active st1 by (simp add: isActiveProject_def)
  then have s2: "s2 = go i AtRestore (ask p CURRENT (clearReinitRetry p
      (with_store (notify_all p (map served_note ws)) s1)))"
    using run run1 by (simp add: s2_def on_reply_def on_sync_layouts_def after_ensure_def listed_layouts [OF ws(3)])
  have st2: "store s2 = notify_all p (map served_note ws) (store s1)"
    using run1 by (simp add: s2 go_def ask_def emit_def with_store_def clearReinitRetry_def cancel_timer_def
        split: option.splits)
  have at: "map_option r_at (runs s2 i) = Some AtRestore"
    using run1 by (simp add: s2 go_def ask_def emit_def with_store_def clearReinitRetry_def cancel_timer_def
        split: option.splits)
  note views = view_of_notify_all [OF no_output_notes(1)] view_of_notify_all [OF no_output_notes(2)]
  have v: "view_of (store s2) p = foldl reduce (foldl reduce (view_of (store s) p)
      (prune_notes (Some (view_of (store s) p)) rows @ name_notes rows)) (map served_note ws)"
    unfolding st2 st1 ns_def views by (simp only: if_True simp_thms prune_notes_view)
  note m = sync_mirror [OF inv ws(2), folded rows_def, folded v]
  have "fst ` set (mirror (view_of (store s2) p)) = fst ` set (map served ws)"
    using m(1) by (metis dom_map_of_conv_image_fst)
  then have "set (windowOrder (view_of (store s2) p)) = sw_id ` set ws"
    by (simp add: mirror_key_set image_image served_def)
  moreover have "view_of (store s2) q = view_of (store s) q" if "q \<noteq> p"
    unfolding st2 st1 ns_def views using that by simp
  ultimately show ?thesis using m at by (auto simp: view_inv_def)
qed

text \<open>
  C33. No channel is forgotten. Take any run from the start in which the project is not torn
  down - announcements, answers, failures, timers, switches and sizes in any order. If the
  project is shown at its end and a channel was announced for it, the listing of its windows
  has been read over the newest announced channel, or that is under way: a re-initialisation
  is going on, a retry timer is armed, or the session is being opened. Excepted are projects
  whose retries ran out or one of whose openings failed, which is logged. Retries never exceed
  15, and the armed timers are exactly the registered ones.
\<close>

theorem channel_catches_up:
  assumes "EvTeardown p \<notin> set es" and "s = foldl session_step (initSession run) es"
    and "isActiveProject s p" and "announced es p = Some e"
    and "GaveUp p \<notin> set (log s)" and "OpenFailed p \<notin> set (log s)"
  shows "((p, e) \<in> set (readings (initSession run) es)
      \<or> reg_run s p \<or> late_run s p \<or> reinitRetry s p \<noteq> None \<or> inFlight s p \<noteq> None)
    \<and> attempts s q \<le> 15 \<and> (timers s t = Some q) = (reinitRetry s q = Some t)"
proof -
  have "lifecycle_inv s" unfolding assms(2) by (rule lifecycle.run_inv [OF init_lifecycle])
  then have inv: "progress s p" "inv_timers s" by (simp_all add: lifecycle_inv_def inv_base_def)
  have live: "channelEpoch s p = Some e" using assms(2,4) announced_live by simp
  have "(p, e) \<in> set (readings (initSession run) es)" if "\<not> behind s p"
    using that live assms(2,3) marks_run [of run es] by (auto simp: behind_def marks_read_def)
  with inv assms show ?thesis
    by (auto simp: progress_def working_def given_up_def inv_timers_def REINIT_RETRY_MAX_def)
qed

definition demo_start :: "session_event list" where
  "demo_start = [EvAcquire True ''p'', EvTmux ''p'' (Inl 1), EvOpened 0 (Inr ''cockpit-p'')]"

lemmas demo_defs = initSession_def acquireControlSession_def with_store_def emit_def ask_def on_tmux_def
  onAttached_def maybeReinit_def start_run_def isActiveProject_def initStore_def setActiveProject_def
  open_started_def open_answered_def open_returned_def on_reply_def on_names_def
  after_ensure_def scheduleReinitRetry_def attempts_def cancel_timer_def REINIT_RETRY_MAX_def
  go_def behind_def prun_def

lemma demo_run: "let es = demo_start @ [EvReply 1 (Lines [])]; s = foldl session_step (initSession True) es
  in isActiveProject s ''p'' \<and> announced es ''p'' = Some 1 \<and> readings (initSession True) es = []
    \<and> GaveUp ''p'' \<notin> set (log s) \<and> OpenFailed ''p'' \<notin> set (log s) \<and> reinitRetry s ''p'' = Some 2"
  by (simp add: demo_start_def demo_defs Let_def announced_def hear_def read_by_def listWindows_def reconcile_def)

theorem channel_catches_up_witness:
  "let es = demo_start @ [EvReply 1 (Lines [])]; s = foldl session_step (initSession True) es
   in announced es ''p'' = Some 1 \<and> readings (initSession True) es = []
     \<and> (reg_run s ''p'' \<or> late_run s ''p'' \<or> reinitRetry s ''p'' \<noteq> None \<or> inFlight s ''p'' \<noteq> None)"
proof -
  let ?es = "demo_start @ [EvReply 1 (Lines [])]"
  have "EvTeardown ''p'' \<notin> set ?es" by (simp add: demo_start_def)
  then show ?thesis
    using channel_catches_up [of "''p''" ?es "foldl session_step (initSession True) ?es" True 1] demo_run
    unfolding Let_def by auto
qed

text \<open>A run that goes through: both listings arrive and the reading counts.\<close>

lemma demo_rows:
  "listWindows [''@1 persistent'', ''@2 run-1'', ''@3 zsh'']
     = [(''@1'', ''persistent''), (''@2'', ''run-1''), (''@3'', ''zsh'')]"
  "reconcile [(''@1'', ''persistent''), (''@2'', ''run-1''), (''@3'', ''zsh'')] True = Plan [] [] [] False"
  by code_simp+

lemma demo_reading:
  "let es = demo_start @ [EvReply 1 (Lines [''@1 persistent'', ''@2 run-1'', ''@3 zsh'']),
      EvReply 1 (Lines [''@1 persistent'', ''@2 run-1'', ''@3 zsh'']), EvReply 1 (Lines [])]
   in readings (initSession True) es = [(''p'', 1)]"
  by (simp add: demo_start_def demo_defs Let_def read_by_def next_work_def work_of_def start_sync_def
      on_sync_names_def demo_rows)

text \<open>
  C34. Single flight: while a project is not torn down, however many announcements, acquires
  and retries ask for it, at most one re-initialisation of it is under way, and it is the
  registered one.
\<close>

theorem reinit_single_flight:
  assumes "EvTeardown p \<notin> set es" and "EvResetAll \<notin> set es"
    and "s = foldl session_step (initSession run) es" and "prun s p i \<noteq> None"
  shows "reinitInFlight s p = Some i \<and> (\<forall>j. prun s p j = None \<or> j = i)"
proof -
  have "only_registered (initSession run) p" by (simp add: only_registered_def initSession_def prun_def)
  then have "only_registered s p" using only_run assms by blast
  with assms(4) show ?thesis unfolding only_registered_def by (metis option.inject)
qed

theorem reinit_single_flight_witness:
  "let s = foldl session_step (initSession True) demo_start
   in reinitInFlight s ''p'' = Some 1 \<and> ''p'' \<in> reinitPending s"
proof -
  let ?s = "foldl session_step (initSession True) demo_start"
  have "prun ?s ''p'' 1 \<noteq> None \<and> ''p'' \<in> reinitPending ?s"
    by (simp add: demo_start_def demo_defs Let_def)
  moreover have "EvTeardown ''p'' \<notin> set demo_start" "EvResetAll \<notin> set demo_start" by (simp_all add: demo_start_def)
  ultimately show ?thesis using reinit_single_flight [of "''p''" demo_start ?s True 1] by (simp add: Let_def)
qed

text \<open>
  A project torn down while a run waits for the selected window is marked up to date when the
  answer arrives. Acquired again on the same channel, it never reads its windows: nothing is
  under way and the view stays empty.
\<close>

lemma stale_run_strands_the_view:
  fixes nm :: string and a :: reply
  assumes run: "runs s i = Some r" "r_at r = AtRestore" "r_project r = p" "channelEpoch s p = Some (r_target r)"
    and shown: "isActiveProject s p" "byProject (store s) p \<noteq> None"
  defines "s' \<equiv> foldl session_step s
     [EvTeardown p, EvReply i a, EvSettle i, EvAcquire True p, EvOpened (fresh s) (Inr nm)]"
  shows "isActiveProject s' p \<and> \<not> behind s' p \<and> reinitInFlight s' p = None \<and> reinitRetry s' p = None
    \<and> inFlight s' p = None \<and> isOpen (view_of (store s') p) \<and> windowOrder (view_of (store s') p) = []"
proof -
  define s1 where "s1 = teardownControlSession p s"
  have reset: "store s1 = resetProject (store s) p"
    by (simp add: s1_def teardownControlSession_def resetControlSession_def)
  have f1: "reinitInFlight s1 p = None" "inFlight s1 p = None" "reinitRetry s1 p = None" "p \<notin> reinitPending s1"
    "runs s1 = runs s" "channelEpoch s1 = channelEpoch s" "fresh s1 = fresh s" "opens s1 = opens s"
    by (simp_all add: s1_def teardownControlSession_def resetControlSession_def)
  have st1: "byProject (store s1) p = None" "activeProjectId (store s1) = None"
    using shown by (simp_all add: reset resetProject_def Let_def isActiveProject_def)
  define s2 where "s2 = on_reply i a s1"
  have s2: "s2 = go i AtSettle (emit [Reinited p] (s1\<lparr>initializedEpoch := (initializedEpoch s1)(p \<mapsto> r_target r)\<rparr>))"
    using run st1 by (simp add: s2_def on_reply_def f1 on_restore_def isActiveProject_def Let_def split: reply.splits)
  define s3 where "s3 = settle i s2"
  have at2: "runs s2 i = Some (r\<lparr>r_at := AtSettle\<rparr>)" using run by (simp add: s2 go_def f1)
  have s3: "s3 = leave_run i p s2"
    using at2 run f1 by (simp add: s3_def settle_def s2 Let_def)
  have f3: "reinitInFlight s3 p = None" "inFlight s3 p = None" "reinitRetry s3 p = None" "fresh s3 = fresh s"
    "store s3 = store s1" "initializedEpoch s3 p = Some (r_target r)" "channelEpoch s3 p = Some (r_target r)"
    using run f1 by (auto simp: s3 leave_run_def s2)
  define s4 where "s4 = acquireControlSession True p s3"
  have s4: "s4 = (emit [OpenCall p] (with_store (\<lambda>st. open_started (setActiveProject st p) p) (s3\<lparr>subscribed := True\<rparr>)))\<lparr>
      opens := (opens s3)(fresh s \<mapsto> p), inFlight := (inFlight s3)(p \<mapsto> fresh s),
      ready := (ready s3)(p \<mapsto> fresh s), fresh := fresh s + 1\<rparr>"
    using f3 by (simp add: s4_def acquireControlSession_def Let_def with_store_def emit_def)
  have st4: "activeProjectId (store s4) = Some p" "windowOrder (view_of (store s4) p) = []"
    using st1 by (simp_all add: s4 f3 open_started_def setActiveProject_def view_of_def emptyView_def)
  have s': "s' = open_answered (fresh s) (Inr nm) s4"
    by (simp add: s'_def s4_def s3_def s2_def s1_def)
  have quiet: "maybeReinit p (with_store f s4) = with_store f s4" for f
    using f3 by (simp add: maybeReinit_def s4)
  have "s' = (with_store (\<lambda>st. open_returned st p nm) s4)\<lparr>opens := (opens s4)(fresh s := None),
      inFlight := (inFlight s4)(p := None)\<rparr>"
    unfolding s' open_answered_def using quiet by (simp add: s4 Let_def)
  then show ?thesis
    using st4 f3 by (simp add: s4 isActiveProject_def behind_def open_returned_def view_of_def)
qed

definition demo_window :: "string \<Rightarrow> string \<Rightarrow> string \<Rightarrow> served_window" where
  "demo_window i nm flags = \<lparr>sw_id = i, sw_name = nm,
     sw_full = \<lparr>checksum = ''b25f'', root = Leaf ''%0'' 80 24 0 0\<rparr>,
     sw_vis = \<lparr>checksum = ''b25f'', root = Leaf ''%0'' 80 24 0 0\<rparr>, sw_flags = flags\<rparr>"

definition demo_state :: session where
  "demo_state = (initSession True)\<lparr>store := setActiveProject initStore ''p'',
     runs := Map.empty(1 \<mapsto> \<lparr>r_project = ''p'', r_target = 1, r_at = AtSyncNames\<rparr>)\<rparr>"

theorem sync_reads_server_witness:
  "let ws = [demo_window ''@0'' ''persistent'' [], demo_window ''@3'' ''my shell'' ''*Z''];
       s2 = on_reply 1 (Lines (map layout_line ws)) (on_reply 1 (Lines (map name_line ws)) demo_state)
   in set (windowOrder (view_of (store s2) ''p'')) = {''@0'', ''@3''}
      \<and> map_of (mirror (view_of (store s2) ''p'')) ''@3''
        = Some (''my shell'', Some (Leaf ''%0'' 80 24 0 0), True, Some (Leaf ''%0'' 80 24 0 0))"
proof -
  let ?ws = "[demo_window ''@0'' ''persistent'' [], demo_window ''@3'' ''my shell'' ''*Z'']"
  have "''0'' = showNat 0" by code_simp
  then have pane: "\<exists>n. ''0'' = showNat n" by blast
  have ok: "list_all served_ok ?ws"
    using pane by (simp add: served_ok_def demo_window_def layout_ok_def)
  have z: "includesStr ''*Z'' ''Z''" by code_simp
  have run: "runs demo_state 1 = Some \<lparr>r_project = ''p'', r_target = 1, r_at = AtSyncNames\<rparr>"
    by (simp add: demo_state_def)
  have shown: "isActiveProject demo_state ''p''" "view_inv (view_of (store demo_state) ''p'')"
    by (simp_all add: demo_state_def initSession_def isActiveProject_def setActiveProject_def initStore_def view_of_def)
  have "map_of (map served ?ws) ''@3'' = Some (''my shell'', Some (Leaf ''%0'' 80 24 0 0), True, Some (Leaf ''%0'' 80 24 0 0))"
    using z by (simp add: served_def demo_window_def)
  moreover have "sw_id ` set ?ws = {''@0'', ''@3''}" by (simp add: demo_window_def)
  moreover have "distinct (map sw_id ?ws)" by (simp add: demo_window_def)
  ultimately show ?thesis
    using sync_reads_server [OF run _ _ shown _ _ ok, of "''p''"] by (simp add: Let_def del: map_of.simps)
qed

text \<open>
  A settled layout is a fixed point of the size exchange: when every pane's terminal has
  the size that tmux gave it, the size computed for the whole client is exactly the size of
  tmux's window, however the splits nest; and pushing it again sends nothing.
\<close>

theorem client_size_exact:
  assumes "activeProjectId (store s) = Some p"
    and "shown_layout (selectActiveView (store s)) (activeWindowId (selectActiveView (store s))) = Some l"
    and "tiled l" and "\<And>q w h. (q, w, h) \<in> set (leaf_sizes l) \<Longrightarrow> termSize reg p q = Some (w, h)"
  shows "clientCells reg (store s) host = (nodeW l, nodeH l)
    \<and> pushClientSize reg (Some host) (pushClientSize reg (Some host) s) = pushClientSize reg (Some host) s"
proof -
  have cells: "clientCells reg (store s) host = (nodeW l, nodeH l)"
    using cells_of_tiled [OF assms(3), of "termSize reg p"] assms by (simp add: clientCells_def Let_def)
  let ?t = "pushClientSize reg (Some host) s"
  have st: "store ?t = store s" by (auto simp: pushClientSize_def split: prod.splits)
  have "sendClientSize c r (Some p) False (sendClientSize c r (Some p) False s) = sendClientSize c r (Some p) False s"
    for c r
    by (simp add: sendClientSize_def Let_def)
  then have "pushClientSize reg (Some host) ?t = ?t"
    unfolding pushClientSize_def [of reg "Some host" ?t]
    using assms(1) cells st by (simp add: pushClientSize_def)
  with cells show ?thesis by simp
qed

definition demo_layout :: LayoutNode where
  "demo_layout = Split LR 81 24 0 0 [Leaf ''%0'' 40 24 0 0,
     Split TB 40 24 41 0 [Leaf ''%1'' 40 12 41 0, Leaf ''%2'' 40 11 41 13]]"

definition demo_registry :: registry where
  "demo_registry = \<lparr>termSize = (\<lambda>p q. map_of (leaf_sizes demo_layout) q), cellSize = None, chromeSize = None\<rparr>"

definition demo_view :: TmuxViewState where
  "demo_view = emptyView\<lparr>windowOrder := [''@1''], activeWindowId := Some ''@1'',
     windows := Map.empty(''@1'' \<mapsto> (new_window ''@1'')\<lparr>layout := Some demo_layout\<rparr>)\<rparr>"

theorem client_size_exact_witness:
  "clientCells demo_registry (initStore\<lparr>activeProjectId := Some ''p'', byProject := Map.empty(''p'' \<mapsto> demo_view)\<rparr>) (0, 0)
     = (81, 24)"
proof -
  let ?st = "initStore\<lparr>activeProjectId := Some ''p'', byProject := Map.empty(''p'' \<mapsto> demo_view)\<rparr>"
  let ?s = "(initSession True)\<lparr>store := ?st\<rparr>"
  have "shown_layout (selectActiveView ?st) (activeWindowId (selectActiveView ?st)) = Some demo_layout"
    by (simp add: selectActiveView_def view_of_def demo_view_def shown_layout_def new_window_def)
  moreover have "tiled demo_layout" by (simp add: demo_layout_def)
  moreover have "termSize demo_registry ''p'' q = Some (w, h)" if "(q, w, h) \<in> set (leaf_sizes demo_layout)" for q w h
    using that by (auto simp: demo_registry_def demo_layout_def)
  ultimately show ?thesis
    using client_size_exact [of ?s "''p''" demo_layout demo_registry "(0, 0)"] by (simp add: demo_layout_def)
qed

end
