(* ===== verification/PanelStores.thy ===== *)
theory PanelStores
  imports JsText
begin

text \<open>
  The per-project panel stores of the renderer and their orchestration:
  \<open>src/renderer/worktree/worktreeStore.ts\<close>, \<open>src/renderer/changes/changesStore.ts\<close>,
  \<open>src/renderer/beads/beadsStore.ts\<close>, \<open>src/renderer/workspace/focusMemory.ts\<close> and
  \<open>src/renderer/workspace/panelDataSync.ts\<close>.

  The stores are fields of one record, because the orchestrator reacts to every change of the
  worktree store before the change returns. Each await is a task that waits for its answer; the
  answers of all projects arrive in any order. A worktree is represented by its path, a
  changeset by the fields the stores read and an opaque rest. The local storage may be
  unavailable (\<open>storageOk\<close>); then it remembers nothing. The error of a failed call is the text
  the caller makes of it. A write reports its result as soon as it is known: the reload it then
  awaits cannot throw.
\<close>

section \<open>Data\<close>

datatype DiffTarget = Head | BranchPoint

record Changeset =
  cs_worktree :: string
  cs_files :: "string list"
  cs_rest :: nat

record WorktreeSlice =
  worktrees :: "string list"
  activeWorktree :: "string option"
  wtLoading :: bool

text \<open>\<open>branchPoint\<close>: undefined, null, or a merge base.\<close>

record ChangesSlice =
  baseline :: "string option"
  changeset :: "Changeset option"
  loading :: bool
  selectedPath :: "string option"
  diffTarget :: DiffTarget
  branchPoint :: "string option option"

definition emptyWorktrees :: WorktreeSlice where
  "emptyWorktrees = \<lparr>worktrees = [], activeWorktree = None, wtLoading = False\<rparr>"

definition emptyChanges :: ChangesSlice where
  "emptyChanges = \<lparr>baseline = None, changeset = None, loading = False, selectedPath = None,
     diffTarget = Head, branchPoint = None\<rparr>"

record RefreshCoordinator =
  lifecycle :: nat
  requestGeneration :: nat
  pendingRun :: bool
  drain :: "nat option"

definition newCoordinator :: RefreshCoordinator where
  "newCoordinator = \<lparr>lifecycle = 0, requestGeneration = 0, pendingRun = False, drain = None\<rparr>"

record RefreshRun =
  run_lifecycle :: nat
  run_generation :: nat
  run_worktree :: "string option"
  run_target :: DiffTarget

record BeadsIssue =
  i_id :: string
  i_status :: string
  i_title :: string
  i_priority :: nat
  i_type :: string
  i_updated :: string
  i_rest :: nat

record BeadsDep =
  d_from :: string
  d_to :: string
  d_type :: string

record BeadsTaskGraph =
  issues :: "BeadsIssue list"
  deps :: "BeadsDep list"

datatype WorkgraphView = Flat | Graph | TreeView | Columns

record BeadsSlice =
  graph :: "BeadsTaskGraph option"
  bLoading :: bool
  bError :: "string option"
  selectedId :: "string option"
  focusId :: "string option"
  focusEpicIds :: "string list"
  bView :: WorkgraphView

datatype ConnectionState = Connected | Disconnected | Failed | OtherState

datatype category = WorkingTree | GitState | Beads

datatype answer =
    AWorktrees "string list"
  | ABranch "string option"
  | AChanges Changeset
  | APresent bool
  | AGraph BeadsTaskGraph
  | ADone
  | AError string

datatype task =
    TWorktrees string bool
  | TFollow string
  | TResolve string nat RefreshRun
  | TChanges string nat RefreshRun "string option" "string option option"
  | TEnd string nat RefreshRun
  | TDetect string
  | TGraph string
  | TWrite string bool

datatype panel_out =
    ListWorktrees string
  | SetActiveWorktree string "string option"
  | ResolveBranchPoint string string
  | GetChangeset string string "string option"
  | DetectBeads string
  | GetTaskGraph string
  | BeadsWrite string
  | WriteResult string "string option"
  | TeardownSession string

record panels =
  worktreeStore :: "(string \<times> WorktreeSlice) list"
  prevWorktree :: "string \<rightharpoonup> string option"
  changesStore :: "string \<rightharpoonup> ChangesSlice"
  coordinators :: "string \<rightharpoonup> RefreshCoordinator"
  beadsStore :: "string \<rightharpoonup> BeadsSlice"
  prevState :: "string \<rightharpoonup> ConnectionState"
  knownIds :: "string list"
  storageOk :: bool
  storage :: "string \<rightharpoonup> string"
  tasks :: "nat \<rightharpoonup> task"
  fresh :: nat
  outs :: "panel_out list"

definition initPanels :: "bool \<Rightarrow> (string \<rightharpoonup> string) \<Rightarrow> string list \<Rightarrow> panels" where
  "initPanels ok mem ids = \<lparr>worktreeStore = [], prevWorktree = Map.empty, changesStore = Map.empty,
     coordinators = Map.empty, beadsStore = Map.empty, prevState = Map.empty, knownIds = ids,
     storageOk = ok, storage = mem, tasks = Map.empty, fresh = 0, outs = []\<rparr>"

definition emit :: "panel_out \<Rightarrow> panels \<Rightarrow> panels" where
  "emit a s = s\<lparr>outs := outs s @ [a]\<rparr>"

definition await :: "task \<Rightarrow> panels \<Rightarrow> panels" where
  "await t s = s\<lparr>tasks := (tasks s)(fresh s \<mapsto> t), fresh := Suc (fresh s)\<rparr>"

section \<open>Focus memory\<close>

definition focusKey :: "string \<Rightarrow> string \<Rightarrow> string" where
  "focusKey ns p = ''agent-cockpit:focus:'' @ ns @ '':v1:'' @ p"

text \<open>An absent or empty project remembers nothing.\<close>

definition readFocus :: "panels \<Rightarrow> string \<Rightarrow> string option \<Rightarrow> string option" where
  "readFocus s ns p = (case p of None \<Rightarrow> None
     | Some q \<Rightarrow> if q = [] \<or> \<not> storageOk s then None else storage s (focusKey ns q))"

definition writeFocus :: "string \<Rightarrow> string option \<Rightarrow> string option \<Rightarrow> panels \<Rightarrow> panels" where
  "writeFocus ns p v s = (case p of None \<Rightarrow> s
     | Some q \<Rightarrow> if q = [] \<or> \<not> storageOk s then s
         else s\<lparr>storage := (storage s)(focusKey ns q := v)\<rparr>)"

section \<open>The changes store\<close>

definition worktree_of :: "panels \<Rightarrow> string \<Rightarrow> string option" where
  "worktree_of s p = (case map_of (worktreeStore s) p of None \<Rightarrow> None | Some sl \<Rightarrow> activeWorktree sl)"

definition coordinatorFor :: "panels \<Rightarrow> string \<Rightarrow> RefreshCoordinator" where
  "coordinatorFor s p = (case coordinators s p of None \<Rightarrow> newCoordinator | Some c \<Rightarrow> c)"

definition coord :: "string \<Rightarrow> (RefreshCoordinator \<Rightarrow> RefreshCoordinator) \<Rightarrow> panels \<Rightarrow> panels" where
  "coord p f s = s\<lparr>coordinators := (coordinators s)(p \<mapsto> f (coordinatorFor s p))\<rparr>"

definition changes_of :: "panels \<Rightarrow> string \<Rightarrow> ChangesSlice" where
  "changes_of s p = (case changesStore s p of None \<Rightarrow> emptyChanges | Some c \<Rightarrow> c)"

definition patch :: "string \<Rightarrow> (ChangesSlice \<Rightarrow> ChangesSlice) \<Rightarrow> panels \<Rightarrow> panels" where
  "patch p f s = s\<lparr>changesStore := (changesStore s)(p \<mapsto> f (changes_of s p))\<rparr>"

definition invalidateRefresh :: "string \<Rightarrow> panels \<Rightarrow> panels" where
  "invalidateRefresh p = coord p (\<lambda>c. c\<lparr>lifecycle := lifecycle c + 1,
     requestGeneration := requestGeneration c + 1, pendingRun := False\<rparr>)"

definition isCurrentRun :: "panels \<Rightarrow> string \<Rightarrow> RefreshRun \<Rightarrow> bool" where
  "isCurrentRun s p r \<longleftrightarrow>
     lifecycle (coordinatorFor s p) = run_lifecycle r
     \<and> requestGeneration (coordinatorFor s p) = run_generation r
     \<and> worktree_of s p = run_worktree r \<and> diffTarget (changes_of s p) = run_target r"

definition if_current :: "string \<Rightarrow> RefreshRun \<Rightarrow> (panels \<Rightarrow> panels) \<Rightarrow> panels \<Rightarrow> panels" where
  "if_current p r f s = (if isCurrentRun s p r then f s else s)"

text \<open>One turn of the drain's loop up to the first await of its run.\<close>

definition start_run :: "string \<Rightarrow> nat \<Rightarrow> panels \<Rightarrow> panels" where
  "start_run p d s0 =
     (let s = coord p (\<lambda>c. c\<lparr>pendingRun := False\<rparr>) s0;
          sl = changesStore s p;
          r = \<lparr>run_lifecycle = lifecycle (coordinatorFor s p),
               run_generation = requestGeneration (coordinatorFor s p),
               run_worktree = worktree_of s p, run_target = diffTarget (changes_of s p)\<rparr>
      in case worktree_of s p of
           None \<Rightarrow> await (TEnd p d r) (if_current p r (patch p (\<lambda>c. c\<lparr>changeset := None\<rparr>)) s)
         | Some w \<Rightarrow>
             let stale = (case Option.bind sl changeset of None \<Rightarrow> False | Some cs \<Rightarrow> cs_worktree cs \<noteq> w);
                 s1 = (if stale then if_current p r (patch p (\<lambda>c. c\<lparr>changeset := None, selectedPath := None\<rparr>)) s
                       else s);
                 s2 = if_current p r (patch p (\<lambda>c. c\<lparr>loading := True\<rparr>)) s1
             in if run_target r = BranchPoint
                then await (TResolve p d r) (emit (ResolveBranchPoint p w) s2)
                else await (TChanges p d r None None) (emit (GetChangeset p w None) s2))"

definition scheduleRefresh :: "string \<Rightarrow> panels \<Rightarrow> panels" where
  "scheduleRefresh p s =
     (let s1 = coord p (\<lambda>c. c\<lparr>requestGeneration := requestGeneration c + 1\<rparr>) s
      in if drain (coordinatorFor s1 p) \<noteq> None then coord p (\<lambda>c. c\<lparr>pendingRun := True\<rparr>) s1
         else if worktree_of s1 p = None
         then patch p (\<lambda>c. c\<lparr>changeset := None, loading := False\<rparr>) s1
         else start_run p (fresh s1)
           (coord p (\<lambda>c. c\<lparr>drain := Some (fresh s1)\<rparr>) (s1\<lparr>fresh := Suc (fresh s1)\<rparr>)))"

definition on_resolved :: "string \<Rightarrow> nat \<Rightarrow> RefreshRun \<Rightarrow> answer \<Rightarrow> panels \<Rightarrow> panels" where
  "on_resolved p d r a s =
     (case a of
        ABranch b \<Rightarrow>
          if \<not> isCurrentRun s p r then await (TEnd p d r) s
          else (case run_worktree r of
                  None \<Rightarrow> await (TEnd p d r) s
                | Some w \<Rightarrow> await (TChanges p d r b (Some b))
                    (emit (GetChangeset p w b) (patch p (\<lambda>c. c\<lparr>branchPoint := Some b\<rparr>) s)))
      | _ \<Rightarrow> await (TEnd p d r) s)"

definition restore_selection :: "string \<Rightarrow> RefreshRun \<Rightarrow> Changeset \<Rightarrow> panels \<Rightarrow> panels" where
  "restore_selection p r cs s =
     (if selectedPath (changes_of s p) \<noteq> None then s
      else case readFocus s ''ch-sel'' (Some p) of
        None \<Rightarrow> s
      | Some saved \<Rightarrow>
          if saved \<noteq> [] \<and> saved \<in> set (cs_files cs) \<and> isCurrentRun s p r
          then patch p (\<lambda>c. c\<lparr>selectedPath := Some saved\<rparr>) s else s)"

definition on_changes :: "string \<Rightarrow> nat \<Rightarrow> RefreshRun \<Rightarrow> string option \<Rightarrow> string option option \<Rightarrow> answer
    \<Rightarrow> panels \<Rightarrow> panels" where
  "on_changes p d r b bp a s =
     (case a of
        AChanges cs \<Rightarrow>
          if \<not> isCurrentRun s p r then await (TEnd p d r) s
          else await (TEnd p d r) (restore_selection p r cs
            (patch p (\<lambda>c. c\<lparr>changeset := Some cs, baseline := b, branchPoint := bp\<rparr>) s))
      | _ \<Rightarrow> await (TEnd p d r) s)"

definition on_end :: "string \<Rightarrow> nat \<Rightarrow> RefreshRun \<Rightarrow> panels \<Rightarrow> panels" where
  "on_end p d r s =
     (let c = coordinatorFor s p
      in if pendingRun c then start_run p d s
         else if drain c \<noteq> Some d then s
         else let s1 = coord p (\<lambda>c. c\<lparr>drain := None\<rparr>) s
           in if changesStore s1 p \<noteq> None \<and> isCurrentRun s1 p r
              then patch p (\<lambda>c. c\<lparr>loading := False\<rparr>) s1 else s1)"

definition selectFile :: "string \<Rightarrow> string \<Rightarrow> panels \<Rightarrow> panels" where
  "selectFile p path s =
     patch p (\<lambda>c. c\<lparr>selectedPath := Some path\<rparr>) (writeFocus ''ch-sel'' (Some p) (Some path) s)"

definition setTarget :: "string \<Rightarrow> DiffTarget \<Rightarrow> panels \<Rightarrow> panels" where
  "setTarget p t s =
     scheduleRefresh p (patch p (\<lambda>c. c\<lparr>diffTarget := t, changeset := None, selectedPath := None\<rparr>) s)"

definition clearChanges :: "string \<Rightarrow> panels \<Rightarrow> panels" where
  "clearChanges p s =
     (invalidateRefresh p s)\<lparr>changesStore := (changesStore s)(p \<mapsto> emptyChanges)\<rparr>"

definition evictChanges :: "string \<Rightarrow> panels \<Rightarrow> panels" where
  "evictChanges p s = (invalidateRefresh p s)\<lparr>changesStore := (changesStore s)(p := None)\<rparr>"

section \<open>The worktree store and its observer\<close>

definition prev_of :: "panels \<Rightarrow> string \<Rightarrow> string option" where
  "prev_of s p = (case prevWorktree s p of None \<Rightarrow> None | Some w \<Rightarrow> w)"

text \<open>The observer of the worktree store: a selection that changed refreshes the changes.\<close>

definition observe_one :: "panels \<Rightarrow> string \<times> WorktreeSlice \<Rightarrow> panels" where
  "observe_one s entry =
     (let (p, sl) = entry
      in if prev_of s p = activeWorktree sl then s
         else emit (SetActiveWorktree p (activeWorktree sl))
           (scheduleRefresh p (s\<lparr>prevWorktree := (prevWorktree s)(p \<mapsto> activeWorktree sl)\<rparr>)))"

definition observe :: "panels \<Rightarrow> panels" where
  "observe s =
     (let s1 = foldl observe_one s (worktreeStore s)
      in s1\<lparr>prevWorktree := (\<lambda>p. if p \<in> fst ` set (worktreeStore s) then prevWorktree s1 p else None)\<rparr>)"

definition set_worktrees :: "(string \<times> WorktreeSlice) list \<Rightarrow> panels \<Rightarrow> panels" where
  "set_worktrees m s = observe (s\<lparr>worktreeStore := m\<rparr>)"

definition wt_patch :: "string \<Rightarrow> (WorktreeSlice \<Rightarrow> WorktreeSlice) \<Rightarrow> panels \<Rightarrow> panels" where
  "wt_patch p f s =
     set_worktrees (omap_set p (f (case map_of (worktreeStore s) p of None \<Rightarrow> emptyWorktrees | Some sl \<Rightarrow> sl))
       (worktreeStore s)) s"

text \<open>\<open>follow\<close>: a refresh of the changes is chained to the call.\<close>

definition loadWorktrees :: "bool \<Rightarrow> string \<Rightarrow> panels \<Rightarrow> panels" where
  "loadWorktrees follow p s =
     await (TWorktrees p follow) (emit (ListWorktrees p) (wt_patch p (\<lambda>sl. sl\<lparr>wtLoading := True\<rparr>) s))"

definition choose_worktree :: "string option \<Rightarrow> string list \<Rightarrow> string option" where
  "choose_worktree active ws =
     (case active of
        Some w \<Rightarrow> if w \<in> set ws then Some w else (case ws of [] \<Rightarrow> None | x # _ \<Rightarrow> Some x)
      | None \<Rightarrow> (case ws of [] \<Rightarrow> None | x # _ \<Rightarrow> Some x))"

definition on_worktrees :: "string \<Rightarrow> bool \<Rightarrow> answer \<Rightarrow> panels \<Rightarrow> panels" where
  "on_worktrees p follow a s =
     (let s1 = (case map_of (worktreeStore s) p of
           None \<Rightarrow> s
         | Some sl \<Rightarrow>
             (case a of
                AWorktrees ws \<Rightarrow> wt_patch p (\<lambda>sl. sl\<lparr>worktrees := ws,
                   activeWorktree := choose_worktree (activeWorktree sl) ws, wtLoading := False\<rparr>) s
              | _ \<Rightarrow> wt_patch p (\<lambda>sl. sl\<lparr>worktrees := [], activeWorktree := None, wtLoading := False\<rparr>) s))
      in if follow then await (TFollow p) s1 else s1)"

definition setWorktree :: "string \<Rightarrow> string \<Rightarrow> panels \<Rightarrow> panels" where
  "setWorktree p path = wt_patch p (\<lambda>sl. sl\<lparr>activeWorktree := Some path\<rparr>)"

definition clearWorktrees :: "string \<Rightarrow> panels \<Rightarrow> panels" where
  "clearWorktrees p s = set_worktrees (omap_set p emptyWorktrees (worktreeStore s)) s"

definition evictWorktrees :: "string \<Rightarrow> panels \<Rightarrow> panels" where
  "evictWorktrees p s =
     (if map_of (worktreeStore s) p = None then s else set_worktrees (omap_del p (worktreeStore s)) s)"

section \<open>The work graph store\<close>

definition same_issue :: "BeadsIssue \<Rightarrow> BeadsIssue \<Rightarrow> bool" where
  "same_issue x y \<longleftrightarrow> i_id x = i_id y \<and> i_status x = i_status y \<and> i_title x = i_title y
     \<and> i_priority x = i_priority y \<and> i_type x = i_type y \<and> i_updated x = i_updated y"

definition sameGraph :: "BeadsTaskGraph \<Rightarrow> BeadsTaskGraph \<Rightarrow> bool" where
  "sameGraph a b \<longleftrightarrow> list_all2 same_issue (issues a) (issues b) \<and> list_all2 (=) (deps a) (deps b)"

text \<open>\<open>/^Error invoking remote method '[^']*':\s*/\<close>, then \<open>/^(Error:\s*)+/\<close>, then trimmed.\<close>

definition strip_invoke :: "string \<Rightarrow> string" where
  "strip_invoke s =
     (let prefix = ''Error invoking remote method '' @ [CHR 0x27];
          rest = dropWhile (\<lambda>c. c \<noteq> CHR 0x27) (drop (length prefix) s)
      in if startsWith s prefix \<and> startsWith rest (CHR 0x27 # '':'')
         then dropWhile is_ws (drop 2 rest) else s)"

lemma length_dropWhile_drop: "startsWith s ''Error:'' \<Longrightarrow> length (dropWhile is_ws (drop 6 s)) < length s"
proof -
  assume "startsWith s ''Error:''"
  then have "s \<noteq> []" by (auto simp: startsWith_def)
  have "length (dropWhile is_ws (drop 6 s)) \<le> length (drop 6 s)" by (rule length_dropWhile_le)
  also have "\<dots> < length s" using \<open>s \<noteq> []\<close> by (cases s) simp_all
  finally show ?thesis .
qed

function strip_errors :: "string \<Rightarrow> string" where
  "strip_errors s = (if startsWith s ''Error:'' then strip_errors (dropWhile is_ws (drop 6 s)) else s)"
  by auto
termination
  by (relation "measure length") (simp_all add: length_dropWhile_drop)

declare strip_errors.simps [simp del]

definition writeError :: "string \<Rightarrow> string" where
  "writeError msg = trim (strip_errors (strip_invoke msg))"

definition viewKey :: "string \<Rightarrow> string" where
  "viewKey p = ''agent-cockpit:workgraph-view:v1:'' @ p"

definition view_name :: "WorkgraphView \<Rightarrow> string" where
  "view_name v = (case v of Flat \<Rightarrow> ''flat'' | Graph \<Rightarrow> ''graph'' | TreeView \<Rightarrow> ''tree'' | Columns \<Rightarrow> ''columns'')"

definition parse_view :: "string \<Rightarrow> WorkgraphView option" where
  "parse_view s = find (\<lambda>v. view_name v = s) [Flat, Graph, TreeView, Columns]"

definition readView :: "panels \<Rightarrow> string option \<Rightarrow> WorkgraphView" where
  "readView s p = (case p of None \<Rightarrow> Flat
     | Some q \<Rightarrow> if q = [] \<or> \<not> storageOk s then Flat
         else (case Option.bind (storage s (viewKey q)) parse_view of None \<Rightarrow> Flat | Some v \<Rightarrow> v))"

definition writeView :: "string \<Rightarrow> WorkgraphView \<Rightarrow> panels \<Rightarrow> panels" where
  "writeView p v s =
     (if p = [] \<or> \<not> storageOk s then s else s\<lparr>storage := (storage s)(viewKey p \<mapsto> view_name v)\<rparr>)"

definition readFocusSet :: "panels \<Rightarrow> string option \<Rightarrow> string list" where
  "readFocusSet s p = (case readFocus s ''wg-focus-set'' p of None \<Rightarrow> []
     | Some raw \<Rightarrow> if raw = [] then [] else filter (\<lambda>x. x \<noteq> []) (splitOn (CHR '','') raw))"

definition writeFocusSet :: "string option \<Rightarrow> string list \<Rightarrow> panels \<Rightarrow> panels" where
  "writeFocusSet p ids = writeFocus ''wg-focus-set'' p (if ids = [] then None else Some (joinWith '','' ids))"

definition emptyBeads :: "panels \<Rightarrow> string option \<Rightarrow> BeadsSlice" where
  "emptyBeads s p = \<lparr>graph = None, bLoading = False, bError = None, selectedId = None,
     focusId = readFocus s ''wg-focus'' p, focusEpicIds = readFocusSet s p, bView = readView s p\<rparr>"

definition b_patch :: "string \<Rightarrow> (BeadsSlice \<Rightarrow> BeadsSlice) \<Rightarrow> panels \<Rightarrow> panels" where
  "b_patch p f s = s\<lparr>beadsStore := (beadsStore s)(p \<mapsto>
     f (case beadsStore s p of None \<Rightarrow> emptyBeads s (Some p) | Some b \<Rightarrow> b))\<rparr>"

definition loadBeads :: "string \<Rightarrow> panels \<Rightarrow> panels" where
  "loadBeads p s =
     (let v = readView s (Some p)
      in await (TDetect p) (emit (DetectBeads p)
           (b_patch p (\<lambda>b. b\<lparr>bView := v, bLoading := True, bError := None\<rparr>) s)))"

definition load_failed :: "string \<Rightarrow> string \<Rightarrow> panels \<Rightarrow> panels" where
  "load_failed p e s =
     (case beadsStore s p of
        None \<Rightarrow> s
      | Some b \<Rightarrow> b_patch p (\<lambda>b. b\<lparr>bLoading := False,
          bError := (if graph b \<noteq> None then None else Some e)\<rparr>) s)"

definition on_detected :: "string \<Rightarrow> answer \<Rightarrow> panels \<Rightarrow> panels" where
  "on_detected p a s =
     (case a of
        APresent present \<Rightarrow>
          if beadsStore s p = None then s
          else if \<not> present
          then b_patch p (\<lambda>b. b\<lparr>graph := None, bLoading := False, bError := None, selectedId := None\<rparr>) s
          else await (TGraph p) (emit (GetTaskGraph p) s)
      | AError e \<Rightarrow> load_failed p e s
      | _ \<Rightarrow> s)"

text \<open>A remembered identifier that still names an issue of the graph.\<close>

definition known_issue :: "BeadsTaskGraph \<Rightarrow> string option \<Rightarrow> string option" where
  "known_issue g saved = (case saved of None \<Rightarrow> None
     | Some i \<Rightarrow> if i \<noteq> [] \<and> i \<in> i_id ` set (issues g) then Some i else None)"

definition epics :: "BeadsTaskGraph \<Rightarrow> string list" where
  "epics g = map i_id (filter (\<lambda>i. i_type i = ''epic'') (issues g))"

definition show_graph :: "string \<Rightarrow> BeadsTaskGraph \<Rightarrow> panels \<Rightarrow> panels" where
  "show_graph p g s =
     (let sel = known_issue g (readFocus s ''wg-sel'' (Some p));
          foc = known_issue g (readFocus s ''wg-focus'' (Some p));
          pins = filter (\<lambda>i. i \<in> set (epics g)) (readFocusSet s (Some p))
      in b_patch p (\<lambda>b. b\<lparr>graph := Some g, bLoading := False, bError := None, selectedId := sel,
           focusId := foc, focusEpicIds := pins\<rparr>) (writeFocusSet (Some p) pins s))"

definition on_graph :: "string \<Rightarrow> answer \<Rightarrow> panels \<Rightarrow> panels" where
  "on_graph p a s =
     (case a of
        AGraph g \<Rightarrow>
          (case beadsStore s p of
             None \<Rightarrow> s
           | Some b \<Rightarrow>
               if (case graph b of None \<Rightarrow> False | Some old \<Rightarrow> sameGraph old g)
               then b_patch p (\<lambda>b. b\<lparr>bLoading := False, bError := None\<rparr>) s
               else show_graph p g s)
      | AError e \<Rightarrow> load_failed p e s
      | _ \<Rightarrow> s)"

definition selectIssue :: "string \<Rightarrow> string option \<Rightarrow> panels \<Rightarrow> panels" where
  "selectIssue p i s = b_patch p (\<lambda>b. b\<lparr>selectedId := i\<rparr>) (writeFocus ''wg-sel'' (Some p) i s)"

definition setFocus :: "string \<Rightarrow> string option \<Rightarrow> panels \<Rightarrow> panels" where
  "setFocus p i s = b_patch p (\<lambda>b. b\<lparr>focusId := i\<rparr>) (writeFocus ''wg-focus'' (Some p) i s)"

definition pins_of :: "panels \<Rightarrow> string \<Rightarrow> string list" where
  "pins_of s p = (case beadsStore s p of None \<Rightarrow> readFocusSet s (Some p) | Some b \<Rightarrow> focusEpicIds b)"

definition set_pins :: "string \<Rightarrow> string list \<Rightarrow> panels \<Rightarrow> panels" where
  "set_pins p ids s = b_patch p (\<lambda>b. b\<lparr>focusEpicIds := ids\<rparr>) (writeFocusSet (Some p) ids s)"

definition pinEpic :: "string \<Rightarrow> string \<Rightarrow> panels \<Rightarrow> panels" where
  "pinEpic p i s = (if i \<in> set (pins_of s p) then s else set_pins p (pins_of s p @ [i]) s)"

definition unpinEpic :: "string \<Rightarrow> string \<Rightarrow> panels \<Rightarrow> panels" where
  "unpinEpic p i s = set_pins p (filter (\<lambda>x. x \<noteq> i) (pins_of s p)) s"

definition clearFocusSet :: "string \<Rightarrow> panels \<Rightarrow> panels" where
  "clearFocusSet p = set_pins p []"

definition setView :: "string \<Rightarrow> WorkgraphView \<Rightarrow> panels \<Rightarrow> panels" where
  "setView p v s = b_patch p (\<lambda>b. b\<lparr>bView := v\<rparr>) (writeView p v s)"

text \<open>The writes: close, reopen and create reload the graph, a comment does not.\<close>

definition beadsWrite :: "bool \<Rightarrow> string \<Rightarrow> panels \<Rightarrow> panels" where
  "beadsWrite reload p s = await (TWrite p reload) (emit (BeadsWrite p) s)"

definition on_written :: "string \<Rightarrow> bool \<Rightarrow> answer \<Rightarrow> panels \<Rightarrow> panels" where
  "on_written p reload a s =
     (case a of
        AError e \<Rightarrow> emit (WriteResult p (Some (writeError e))) s
      | _ \<Rightarrow> emit (WriteResult p None) (if reload then loadBeads p s else s))"

definition clearBeads :: "string \<Rightarrow> panels \<Rightarrow> panels" where
  "clearBeads p s = s\<lparr>beadsStore := (beadsStore s)(p \<mapsto> emptyBeads s (Some p))\<rparr>"

definition evictBeads :: "string \<Rightarrow> panels \<Rightarrow> panels" where
  "evictBeads p s = s\<lparr>beadsStore := (beadsStore s)(p := None)\<rparr>"

section \<open>Orchestration\<close>

definition loadProject :: "string \<Rightarrow> panels \<Rightarrow> panels" where
  "loadProject p s = loadBeads p (loadWorktrees False p s)"

definition clearProject :: "string \<Rightarrow> panels \<Rightarrow> panels" where
  "clearProject p s = emit (TeardownSession p) (clearBeads p (clearChanges p (clearWorktrees p s)))"

definition evictProject :: "string \<Rightarrow> panels \<Rightarrow> panels" where
  "evictProject p s = evictBeads p (evictChanges p (evictWorktrees p s))"

definition on_status :: "string \<Rightarrow> ConnectionState \<Rightarrow> panels \<Rightarrow> panels" where
  "on_status p st s =
     (if prevState s p = Some st then s
      else let s1 = s\<lparr>prevState := (prevState s)(p \<mapsto> st)\<rparr>
        in case st of
             Connected \<Rightarrow> loadProject p s1
           | OtherState \<Rightarrow> s1
           | _ \<Rightarrow> clearProject p s1)"

definition on_watch :: "string \<Rightarrow> category list \<Rightarrow> panels \<Rightarrow> panels" where
  "on_watch p cats s =
     (if p = [] then s
      else let s1 = (if GitState \<in> set cats then loadWorktrees True p s
                     else if WorkingTree \<in> set cats then scheduleRefresh p s else s)
        in if Beads \<in> set cats then loadBeads p s1 else s1)"

definition on_projects :: "string list \<Rightarrow> panels \<Rightarrow> panels" where
  "on_projects ids s =
     (let gone = filter (\<lambda>p. p \<notin> set ids) (knownIds s);
          s1 = foldl (\<lambda>s p. (evictProject p s)\<lparr>prevState := (prevState s)(p := None)\<rparr>) s gone
      in s1\<lparr>knownIds := ids\<rparr>)"

definition on_answer :: "nat \<Rightarrow> answer \<Rightarrow> panels \<Rightarrow> panels" where
  "on_answer i a s0 =
     (case tasks s0 i of
        None \<Rightarrow> s0
      | Some t \<Rightarrow>
          let s = s0\<lparr>tasks := (tasks s0)(i := None)\<rparr>
          in (case t of
                TWorktrees p follow \<Rightarrow> on_worktrees p follow a s
              | TFollow p \<Rightarrow> scheduleRefresh p s
              | TResolve p d r \<Rightarrow> on_resolved p d r a s
              | TChanges p d r b bp \<Rightarrow> on_changes p d r b bp a s
              | TEnd p d r \<Rightarrow> on_end p d r s
              | TDetect p \<Rightarrow> on_detected p a s
              | TGraph p \<Rightarrow> on_graph p a s
              | TWrite p reload \<Rightarrow> on_written p reload a s))"

datatype panel_event =
    EvAnswer nat answer
  | EvStatus string ConnectionState
  | EvWatch string "category list"
  | EvProjects "string list"
  | EvSetWorktree string string
  | EvSelectFile string string
  | EvSetTarget string DiffTarget
  | EvSelectIssue string "string option"
  | EvSetFocus string "string option"
  | EvPin string string
  | EvUnpin string string
  | EvClearPins string
  | EvSetView string WorkgraphView
  | EvWrite bool string

fun panel_step :: "panels \<Rightarrow> panel_event \<Rightarrow> panels" where
  "panel_step s (EvAnswer i a) = on_answer i a s"
| "panel_step s (EvStatus p st) = on_status p st s"
| "panel_step s (EvWatch p cats) = on_watch p cats s"
| "panel_step s (EvProjects ids) = on_projects ids s"
| "panel_step s (EvSetWorktree p w) = setWorktree p w s"
| "panel_step s (EvSelectFile p path) = selectFile p path s"
| "panel_step s (EvSetTarget p t) = setTarget p t s"
| "panel_step s (EvSelectIssue p i) = selectIssue p i s"
| "panel_step s (EvSetFocus p i) = setFocus p i s"
| "panel_step s (EvPin p i) = pinEpic p i s"
| "panel_step s (EvUnpin p i) = unpinEpic p i s"
| "panel_step s (EvClearPins p) = clearFocusSet p s"
| "panel_step s (EvSetView p v) = setView p v s"
| "panel_step s (EvWrite reload p) = beadsWrite reload p s"

section \<open>The refresh of a project, as its invariant sees it\<close>

text \<open>A task of the drain of project \<open>p\<close>: the drain it belongs to and the run.\<close>

fun drain_task :: "string \<Rightarrow> task \<Rightarrow> (nat \<times> RefreshRun) option" where
  "drain_task p (TResolve q d r) = (if q = p then Some (d, r) else None)"
| "drain_task p (TChanges q d r b bp) = (if q = p then Some (d, r) else None)"
| "drain_task p (TEnd q d r) = (if q = p then Some (d, r) else None)"
| "drain_task p _ = None"

definition flight :: "panels \<Rightarrow> string \<Rightarrow> nat \<Rightarrow> (nat \<times> RefreshRun) option" where
  "flight s p i = Option.bind (tasks s i) (drain_task p)"

definition matching :: "string option \<Rightarrow> ChangesSlice \<Rightarrow> bool" where
  "matching w ch \<longleftrightarrow> (case changeset ch of None \<Rightarrow> True | Some x \<Rightarrow> w = Some (cs_worktree x))"

definition current :: "RefreshCoordinator \<Rightarrow> ChangesSlice \<Rightarrow> string option \<Rightarrow> RefreshRun \<Rightarrow> bool" where
  "current c ch w r \<longleftrightarrow> lifecycle c = run_lifecycle r \<and> requestGeneration c = run_generation r
     \<and> w = run_worktree r \<and> diffTarget ch = run_target r"

lemma isCurrentRun_current:
  "isCurrentRun s p r = current (coordinatorFor s p) (changes_of s p) (worktree_of s p) r"
  by (simp add: isCurrentRun_def current_def)

text \<open>A run under way serves the latest request, or another is queued, or the project was reset.\<close>

definition flying :: "RefreshCoordinator \<Rightarrow> ChangesSlice \<Rightarrow> string option \<Rightarrow> RefreshRun \<Rightarrow> bool" where
  "flying c ch w r \<longleftrightarrow> pendingRun c \<or> (current c ch w r \<and> matching w ch)
     \<or> (run_lifecycle r < lifecycle c \<and> \<not> loading ch \<and> changeset ch = None)"

definition resting :: "RefreshCoordinator \<Rightarrow> ChangesSlice \<Rightarrow> string option \<Rightarrow> bool" where
  "resting c ch w \<longleftrightarrow> \<not> loading ch \<and> matching w ch"

text \<open>The bookkeeping alone: one task per drain, none without one.\<close>

definition tracked :: "panels \<Rightarrow> string \<Rightarrow> bool" where
  "tracked s p \<longleftrightarrow>
     (\<forall>i d r. flight s p i = Some (d, r) \<longrightarrow>
        drain (coordinatorFor s p) = Some d \<and> run_lifecycle r \<le> lifecycle (coordinatorFor s p)
        \<and> run_generation r \<le> requestGeneration (coordinatorFor s p)
        \<and> (pendingRun (coordinatorFor s p) \<longrightarrow> run_generation r \<noteq> requestGeneration (coordinatorFor s p)))
     \<and> (\<forall>i j. flight s p i \<noteq> None \<longrightarrow> flight s p j \<noteq> None \<longrightarrow> i = j)
     \<and> (drain (coordinatorFor s p) \<noteq> None \<longrightarrow> (\<exists>i. flight s p i \<noteq> None))
     \<and> (drain (coordinatorFor s p) = None \<longrightarrow> \<not> pendingRun (coordinatorFor s p))"

definition fits :: "panels \<Rightarrow> string \<Rightarrow> bool" where
  "fits s p \<longleftrightarrow>
     (\<forall>i d r. flight s p i = Some (d, r) \<longrightarrow>
        flying (coordinatorFor s p) (changes_of s p) (worktree_of s p) r)
     \<and> (drain (coordinatorFor s p) = None \<longrightarrow>
        resting (coordinatorFor s p) (changes_of s p) (worktree_of s p))"

definition fresh_ok :: "panels \<Rightarrow> bool" where
  "fresh_ok s \<longleftrightarrow> (\<forall>i\<ge>fresh s. tasks s i = None)"

definition observed :: "panels \<Rightarrow> bool" where
  "observed s \<longleftrightarrow> distinct (map fst (worktreeStore s)) \<and> (\<forall>p. prev_of s p = worktree_of s p)"

definition panels_inv :: "panels \<Rightarrow> bool" where
  "panels_inv s \<longleftrightarrow> fresh_ok s \<and> observed s \<and> (\<forall>p. tracked s p \<and> fits s p)"

definition same_view :: "string \<Rightarrow> panels \<Rightarrow> panels \<Rightarrow> bool" where
  "same_view p s s' \<longleftrightarrow> worktree_of s' p = worktree_of s p \<and> coordinatorFor s' p = coordinatorFor s p
     \<and> changes_of s' p = changes_of s p \<and> flight s' p = flight s p"

lemma same_view_tracked: "same_view p s s' \<Longrightarrow> tracked s' p = tracked s p"
  by (simp add: same_view_def tracked_def)

lemma same_view_fits: "same_view p s s' \<Longrightarrow> fits s' p = fits s p"
  by (simp add: same_view_def fits_def)

lemmas same_views = same_view_tracked same_view_fits

lemma same_view_refl [simp]: "same_view p s s" by (simp add: same_view_def)

lemma same_view_trans: "same_view p a b \<Longrightarrow> same_view p b c \<Longrightarrow> same_view p a c"
  by (simp add: same_view_def)

named_theorems panel_simps "fields that an operation leaves alone"

lemma panel_emit_fields [simp]:
  "worktreeStore (emit a s) = worktreeStore s" "coordinators (emit a s) = coordinators s"
  "changesStore (emit a s) = changesStore s" "tasks (emit a s) = tasks s" "fresh (emit a s) = fresh s"
  "prevWorktree (emit a s) = prevWorktree s"
  by (simp_all add: emit_def)

lemma emit_view [simp]: "coordinatorFor (emit a s) = coordinatorFor s" "changes_of (emit a s) = changes_of s"
  "worktree_of (emit a s) = worktree_of s" "flight (emit a s) = flight s" "prev_of (emit a s) = prev_of s"
  "same_view p s (emit a s)" "isCurrentRun (emit a s) = isCurrentRun s"
  by (simp_all add: coordinatorFor_def changes_of_def worktree_of_def flight_def prev_of_def fun_eq_iff
      same_view_def isCurrentRun_def)

lemma coord_fields [simp]:
  "worktreeStore (coord p f s) = worktreeStore s" "changesStore (coord p f s) = changesStore s"
  "tasks (coord p f s) = tasks s" "fresh (coord p f s) = fresh s" "prevWorktree (coord p f s) = prevWorktree s"
  by (simp_all add: coord_def)

lemma coord_view [simp]:
  "coordinatorFor (coord p f s) q = (if q = p then f (coordinatorFor s p) else coordinatorFor s q)"
  "changes_of (coord p f s) = changes_of s" "worktree_of (coord p f s) = worktree_of s"
  "flight (coord p f s) = flight s" "prev_of (coord p f s) = prev_of s"
  by (simp_all add: coord_def coordinatorFor_def changes_of_def worktree_of_def flight_def prev_of_def fun_eq_iff)

lemma patch_fields [simp]:
  "worktreeStore (patch p f s) = worktreeStore s" "coordinators (patch p f s) = coordinators s"
  "tasks (patch p f s) = tasks s" "fresh (patch p f s) = fresh s" "prevWorktree (patch p f s) = prevWorktree s"
  by (simp_all add: patch_def)

lemma patch_view [simp]:
  "changes_of (patch p f s) q = (if q = p then f (changes_of s p) else changes_of s q)"
  "coordinatorFor (patch p f s) = coordinatorFor s" "worktree_of (patch p f s) = worktree_of s"
  "flight (patch p f s) = flight s" "prev_of (patch p f s) = prev_of s"
  by (simp_all add: patch_def coordinatorFor_def changes_of_def worktree_of_def flight_def prev_of_def fun_eq_iff)

lemma if_current_fields [simp]:
  "worktreeStore (if_current p r (patch p' f) s) = worktreeStore s"
  "coordinatorFor (if_current p r (patch p' f) s) = coordinatorFor s"
  "tasks (if_current p r (patch p' f) s) = tasks s" "fresh (if_current p r (patch p' f) s) = fresh s"
  "worktree_of (if_current p r (patch p' f) s) = worktree_of s"
  "flight (if_current p r (patch p' f) s) = flight s" "prev_of (if_current p r (patch p' f) s) = prev_of s"
  "prevWorktree (if_current p r (patch p' f) s) = prevWorktree s"
  by (simp_all add: if_current_def)

lemma await_view [simp]:
  "coordinatorFor (await t s) = coordinatorFor s" "changes_of (await t s) = changes_of s"
  "worktree_of (await t s) = worktree_of s" "prev_of (await t s) = prev_of s"
  "worktreeStore (await t s) = worktreeStore s" "prevWorktree (await t s) = prevWorktree s"
  "fresh (await t s) = Suc (fresh s)" "isCurrentRun (await t s) = isCurrentRun s"
  by (simp_all add: await_def coordinatorFor_def changes_of_def worktree_of_def prev_of_def fun_eq_iff isCurrentRun_def)

lemma flight_await: "flight (await t s) p i = (if i = fresh s then drain_task p t else flight s p i)"
  by (simp add: await_def flight_def)

lemma fresh_await [simp]: "fresh_ok s \<Longrightarrow> fresh_ok (await t s)"
  by (simp add: fresh_ok_def await_def)

lemma flight_fresh: "fresh_ok s \<Longrightarrow> flight s p (fresh s) = None"
  by (simp add: fresh_ok_def flight_def)

lemma await_same_view: "fresh_ok s \<Longrightarrow> drain_task p t = None \<Longrightarrow> same_view p s (await t s)"
  by (auto simp: same_view_def flight_await flight_fresh fun_eq_iff)

subsection \<open>Starting a run\<close>

text \<open>The run that a turn of the loop starts.\<close>

definition run_now :: "panels \<Rightarrow> string \<Rightarrow> RefreshRun" where
  "run_now s p = \<lparr>run_lifecycle = lifecycle (coordinatorFor s p),
     run_generation = requestGeneration (coordinatorFor s p),
     run_worktree = worktree_of s p, run_target = diffTarget (changes_of s p)\<rparr>"

lemma start_run_cases:
  obtains f a t where
    "start_run p d s = await t (a (patch p f (coord p (\<lambda>c. c\<lparr>pendingRun := False\<rparr>) s)))"
    "\<forall>c. diffTarget (f c) = diffTarget c" "matching (worktree_of s p) (f (changes_of s p))"
    "drain_task p t = Some (d, run_now s p)" "\<forall>q. q \<noteq> p \<longrightarrow> drain_task q t = None"
    "a = id \<or> (\<exists>out. a = emit out)"
    "run_target (run_now s p) = Head \<or> run_target (run_now s p) = BranchPoint"
proof -
  let ?s = "coord p (\<lambda>c. c\<lparr>pendingRun := False\<rparr>) s"
  let ?r = "run_now s p"
  have r: "\<lparr>run_lifecycle = lifecycle (coordinatorFor ?s p), run_generation = requestGeneration (coordinatorFor ?s p),
      run_worktree = worktree_of ?s p, run_target = diffTarget (changes_of ?s p)\<rparr> = ?r"
    by (simp add: run_now_def)
  have tgt: "run_target ?r = Head \<or> run_target ?r = BranchPoint" by (cases "run_target ?r") simp_all
  have cur: "isCurrentRun (patch p f ?s) p ?r" if "\<forall>c. diffTarget (f c) = diffTarget c" for f
    using that by (simp add: isCurrentRun_def run_now_def)
  have cur0: "isCurrentRun ?s p ?r" by (simp add: isCurrentRun_def run_now_def)
  show thesis
  proof (cases "worktree_of s p")
    case None
    then have "start_run p d s = await (TEnd p d ?r) (id (patch p (\<lambda>c. c\<lparr>changeset := None\<rparr>) ?s))"
      unfolding start_run_def Let_def r using cur0 by (simp add: if_current_def)
    then show thesis by (rule that) (use tgt in \<open>simp_all add: matching_def id_def\<close>)
  next
    case (Some w)
    define stale where "stale = (case Option.bind (changesStore ?s p) changeset of None \<Rightarrow> False | Some cs \<Rightarrow> cs_worktree cs \<noteq> w)"
    define f :: "ChangesSlice \<Rightarrow> ChangesSlice" where "f = (\<lambda>c. if stale then c\<lparr>changeset := None, selectedPath := None, loading := True\<rparr> else c\<lparr>loading := True\<rparr>)"
    have tf: "\<forall>c. diffTarget (f c) = diffTarget c" by (simp add: f_def)
    have m: "matching (worktree_of s p) (f (changes_of s p))"
      using Some by (auto simp: f_def stale_def matching_def changes_of_def emptyChanges_def split: option.splits)
    have pp: "patch p g (patch p h x) = patch p (g \<circ> h) x" for g h x
      by (simp add: patch_def changes_of_def)
    have s2: "(if_current p ?r (patch p (\<lambda>c. c\<lparr>loading := True\<rparr>))
        (if stale then if_current p ?r (patch p (\<lambda>c. c\<lparr>changeset := None, selectedPath := None\<rparr>)) ?s else ?s)) = patch p f ?s"
      using cur0 cur [of "\<lambda>c. c\<lparr>changeset := None, selectedPath := None\<rparr>"]
      by (simp add: if_current_def pp f_def comp_def cong: if_cong)
    have "start_run p d s = (if run_target ?r = BranchPoint
        then await (TResolve p d ?r) (emit (ResolveBranchPoint p w) (patch p f ?s))
        else await (TChanges p d ?r None None) (emit (GetChangeset p w None) (patch p f ?s)))"
      unfolding start_run_def Let_def r using Some s2 unfolding stale_def by simp
    then show thesis
      using that [OF _ tf m, of "TResolve p d ?r" "emit (ResolveBranchPoint p w)"]
        that [OF _ tf m, of "TChanges p d ?r None None" "emit (GetChangeset p w None)"] tgt
      by (cases "run_target ?r = BranchPoint") auto
  qed
qed

lemma start_run_ok:
  assumes "fresh_ok s" "\<forall>i. flight s p i = None" "drain (coordinatorFor s p) = Some d"
  shows "fresh_ok (start_run p d s)" "tracked (start_run p d s) p" "fits (start_run p d s) p"
    "q \<noteq> p \<Longrightarrow> same_view q s (start_run p d s)"
    "worktreeStore (start_run p d s) = worktreeStore s" "prevWorktree (start_run p d s) = prevWorktree s"
proof -
  obtain f a t where S: "start_run p d s = await t (a (patch p f (coord p (\<lambda>c. c\<lparr>pendingRun := False\<rparr>) s)))"
    and tf: "\<forall>c. diffTarget (f c) = diffTarget c" and m: "matching (worktree_of s p) (f (changes_of s p))"
    and t: "drain_task p t = Some (d, run_now s p)" "\<forall>q. q \<noteq> p \<longrightarrow> drain_task q t = None"
    and a: "a = id \<or> (\<exists>out. a = emit out)"
    by (rule start_run_cases [of p d s])
  let ?s = "a (patch p f (coord p (\<lambda>c. c\<lparr>pendingRun := False\<rparr>) s))"
  have v: "coordinatorFor ?s q = (if q = p then (coordinatorFor s p)\<lparr>pendingRun := False\<rparr> else coordinatorFor s q)"
    "changes_of ?s q = (if q = p then f (changes_of s p) else changes_of s q)" "worktree_of ?s = worktree_of s"
    "flight ?s = flight s" "tasks ?s = tasks s" "fresh ?s = fresh s" "worktreeStore ?s = worktreeStore s"
    "prevWorktree ?s = prevWorktree s" for q
    using a by auto
  have fr: "fresh_ok ?s" using assms(1) by (simp add: fresh_ok_def v)
  have fl: "flight (start_run p d s) q i = (if i = fresh s then drain_task q t else flight s q i)" for q i
    by (simp add: S flight_await v)
  show "fresh_ok (start_run p d s)" unfolding S by (rule fresh_await [OF fr])
  have one: "flight (start_run p d s) p i = (if i = fresh s then Some (d, run_now s p) else None)" for i
    using assms(2) t(1) by (simp add: fl)
  have cf: "coordinatorFor (start_run p d s) p = (coordinatorFor s p)\<lparr>pendingRun := False\<rparr>"
    "changes_of (start_run p d s) p = f (changes_of s p)" "worktree_of (start_run p d s) = worktree_of s"
    by (simp_all add: S v)
  show "tracked (start_run p d s) p"
    using assms(3) by (simp add: tracked_def one cf run_now_def)
  have "current (coordinatorFor ?s p) (changes_of ?s p) (worktree_of s p) (run_now s p)"
    using tf by (simp add: current_def v run_now_def)
  then show "fits (start_run p d s) p"
    using assms(3) m by (simp add: fits_def one cf v flying_def)
  show "same_view q s (start_run p d s)" if "q \<noteq> p"
  proof -
    have "flight (start_run p d s) q = flight s q"
      using that t(2) flight_fresh [OF assms(1)] by (auto simp: fl fun_eq_iff)
    then show ?thesis using that by (simp add: same_view_def) (simp add: S v)
  qed
  show "worktreeStore (start_run p d s) = worktreeStore s" "prevWorktree (start_run p d s) = prevWorktree s"
    by (simp_all add: S v)
qed

lemma schedule_ok:
  assumes fr: "fresh_ok s" and tr: "tracked s p"
  shows "fresh_ok (scheduleRefresh p s)" "tracked (scheduleRefresh p s) p" "fits (scheduleRefresh p s) p"
    "q \<noteq> p \<Longrightarrow> same_view q s (scheduleRefresh p s)"
    "worktreeStore (scheduleRefresh p s) = worktreeStore s"
    "prevWorktree (scheduleRefresh p s) = prevWorktree s"
proof -
  define s1 where "s1 = coord p (\<lambda>c. c\<lparr>requestGeneration := requestGeneration c + 1\<rparr>) s"
  define s2 where "s2 = coord p (\<lambda>c. c\<lparr>drain := Some (fresh s1)\<rparr>) (s1\<lparr>fresh := Suc (fresh s1)\<rparr>)"
  have S: "scheduleRefresh p s = (if drain (coordinatorFor s p) \<noteq> None then coord p (\<lambda>c. c\<lparr>pendingRun := True\<rparr>) s1
     else if worktree_of s p = None then patch p (\<lambda>c. c\<lparr>changeset := None, loading := False\<rparr>) s1
     else start_run p (fresh s) s2)"
    by (simp add: scheduleRefresh_def s1_def s2_def Let_def)
  have up: "coordinatorFor (x\<lparr>fresh := n\<rparr>) = coordinatorFor x" "changes_of (x\<lparr>fresh := n\<rparr>) = changes_of x"
    "worktree_of (x\<lparr>fresh := n\<rparr>) = worktree_of x" "flight (x\<lparr>fresh := n\<rparr>) = flight x" for x n
    by (simp_all add: coordinatorFor_def changes_of_def worktree_of_def flight_def fun_eq_iff)
  have goal: "fresh_ok (scheduleRefresh p s) \<and> tracked (scheduleRefresh p s) p \<and> fits (scheduleRefresh p s) p
    \<and> (q \<noteq> p \<longrightarrow> same_view q s (scheduleRefresh p s))
    \<and> worktreeStore (scheduleRefresh p s) = worktreeStore s \<and> prevWorktree (scheduleRefresh p s) = prevWorktree s"
  proof (cases "drain (coordinatorFor s p)")
    case (Some d)
    then have S': "scheduleRefresh p s = coord p (\<lambda>c. c\<lparr>pendingRun := True\<rparr>) s1" by (simp add: S)
    show ?thesis
      unfolding S' using fr tr Some
      by (auto simp: s1_def fresh_ok_def tracked_def fits_def flying_def same_view_def le_Suc_eq)
        (metis Suc_n_not_le_n)
  next
    case None
    then have free: "flight s p i = None" for i
      using tr unfolding tracked_def by (metis option.distinct(1) option.exhaust surj_pair)
    show ?thesis
    proof (cases "worktree_of s p")
      assume w: "worktree_of s p = None"
      have S': "scheduleRefresh p s = patch p (\<lambda>c. c\<lparr>changeset := None, loading := False\<rparr>) s1"
        using None w by (simp add: S)
      show ?thesis
        unfolding S' using fr tr None free
        by (auto simp: s1_def fresh_ok_def tracked_def fits_def resting_def matching_def same_view_def)
    next
      fix w assume w: "worktree_of s p = Some w"
      have S': "scheduleRefresh p s = start_run p (fresh s) s2" using None w by (simp add: S)
      have "fresh_ok s2" using fr by (simp add: s2_def s1_def fresh_ok_def)
      moreover have "\<forall>i. flight s2 p i = None" using free by (simp add: s2_def s1_def up)
      moreover have "drain (coordinatorFor s2 p) = Some (fresh s)" by (simp add: s2_def s1_def)
      moreover have "q \<noteq> p \<longrightarrow> same_view q s s2" by (simp add: same_view_def s2_def s1_def up)
      moreover have "worktreeStore s2 = worktreeStore s" "prevWorktree s2 = prevWorktree s"
        by (simp_all add: s2_def s1_def)
      moreover note run = start_run_ok(1-3) [of s2 p "fresh s"] start_run_ok(4) [of s2 p "fresh s" q]
        start_run_ok(5,6) [of s2 p "fresh s"]
      ultimately show ?thesis unfolding S' using same_view_trans [of q s s2] by simp
    qed
  qed
  from goal show "fresh_ok (scheduleRefresh p s)" "tracked (scheduleRefresh p s) p" "fits (scheduleRefresh p s) p"
    "q \<noteq> p \<Longrightarrow> same_view q s (scheduleRefresh p s)"
    "worktreeStore (scheduleRefresh p s) = worktreeStore s" "prevWorktree (scheduleRefresh p s) = prevWorktree s"
    by blast+
qed

subsection \<open>The observer\<close>

lemma worktree_store_view:
  "coordinatorFor (s\<lparr>worktreeStore := m\<rparr>) = coordinatorFor s" "changes_of (s\<lparr>worktreeStore := m\<rparr>) = changes_of s"
  "flight (s\<lparr>worktreeStore := m\<rparr>) = flight s" "prev_of (s\<lparr>worktreeStore := m\<rparr>) = prev_of s"
  "fresh_ok (s\<lparr>worktreeStore := m\<rparr>) = fresh_ok s"
  "worktree_of (s\<lparr>worktreeStore := m\<rparr>) q = (case map_of m q of None \<Rightarrow> None | Some sl \<Rightarrow> activeWorktree sl)"
  by (simp_all add: coordinatorFor_def changes_of_def flight_def prev_of_def fresh_ok_def worktree_of_def fun_eq_iff)

lemma prev_store_view:
  "coordinatorFor (s\<lparr>prevWorktree := m\<rparr>) = coordinatorFor s" "changes_of (s\<lparr>prevWorktree := m\<rparr>) = changes_of s"
  "flight (s\<lparr>prevWorktree := m\<rparr>) = flight s" "worktree_of (s\<lparr>prevWorktree := m\<rparr>) = worktree_of s"
  "fresh_ok (s\<lparr>prevWorktree := m\<rparr>) = fresh_ok s"
  by (simp_all add: coordinatorFor_def changes_of_def flight_def fresh_ok_def worktree_of_def fun_eq_iff)

lemma tracked_prev [simp]: "tracked (s\<lparr>prevWorktree := m\<rparr>) q = tracked s q"
  by (simp add: tracked_def prev_store_view)

lemma tracked_worktrees [simp]: "tracked (s\<lparr>worktreeStore := m\<rparr>) q = tracked s q"
  by (simp add: tracked_def worktree_store_view)

lemma fits_prev [simp]: "fits (s\<lparr>prevWorktree := m\<rparr>) q = fits s q"
  by (simp add: fits_def prev_store_view)

lemma emit_tracked [simp]: "tracked (emit a s) q = tracked s q" "fits (emit a s) q = fits s q"
  "fresh_ok (emit a s) = fresh_ok s"
  by (simp_all add: tracked_def fits_def fresh_ok_def)

definition loop_inv :: "(string \<times> WorktreeSlice) list \<Rightarrow> string set \<Rightarrow> string set \<Rightarrow> panels \<Rightarrow> bool" where
  "loop_inv m todo P s \<longleftrightarrow> fresh_ok s \<and> worktreeStore s = m \<and> (\<forall>q. tracked s q)
     \<and> (\<forall>q. q \<notin> todo \<longrightarrow> q \<in> fst ` set m \<longrightarrow> prev_of s q = worktree_of s q \<and> fits s q)
     \<and> (\<forall>q\<in>todo. prev_of s q = worktree_of s q \<longrightarrow> fits s q)
     \<and> (\<forall>q\<in>P. fits s q)"

lemma observe_one_ok:
  assumes inv: "loop_inv m (insert p todo) P s" and p: "map_of m p = Some sl" "p \<notin> todo"
    and P: "P \<inter> fst ` set m = {}"
  shows "loop_inv m todo P (observe_one s (p, sl))"
proof -
  have fr: "fresh_ok s" and st: "worktreeStore s = m" and tr: "\<And>q. tracked s q" using inv by (auto simp: loop_inv_def)
  have w: "worktree_of s p = activeWorktree sl" using st p by (simp add: worktree_of_def)
  have pm: "p \<in> fst ` set m" using p(1) by (metis domI dom_map_of_conv_image_fst)
  show ?thesis
  proof (cases "prev_of s p = activeWorktree sl")
    case True
    then have "fits s p" using inv w by (simp add: loop_inv_def)
    moreover have "observe_one s (p, sl) = s" using True by (simp add: observe_one_def)
    ultimately show ?thesis using inv True w unfolding loop_inv_def by (metis insert_iff)
  next
    case False
    define s0 where "s0 = s\<lparr>prevWorktree := (prevWorktree s)(p \<mapsto> activeWorktree sl)\<rparr>"
    define s1 where "s1 = scheduleRefresh p s0"
    have s': "observe_one s (p, sl) = emit (SetActiveWorktree p (activeWorktree sl)) s1"
      using False by (simp add: observe_one_def s1_def s0_def)
    have f0: "fresh_ok s0" "tracked s0 q" "worktreeStore s0 = m" "worktree_of s0 = worktree_of s" for q
      using fr tr st by (simp_all add: s0_def prev_store_view)
    note sched = schedule_ok [OF f0(1,2), of p]
    have view: "same_view q s0 s1" if "q \<noteq> p" for q
      unfolding s1_def by (rule schedule_ok(4) [OF f0(1,2) that])
    have s1: "fresh_ok s1" "tracked s1 p" "fits s1 p" "worktreeStore s1 = m"
      "prevWorktree s1 = prevWorktree s0"
      using schedule_ok(1-3) [OF f0(1,2), of p] schedule_ok(5,6) [OF f0(1,2), of p] f0(3) by (simp_all add: s1_def)
    have prev: "prev_of s1 q = (if q = p then activeWorktree sl else prev_of s q)" for q
      using s1(5) by (simp add: prev_of_def s0_def)
    have wt: "worktree_of s1 q = worktree_of s q" for q
      using s1(4) st by (simp add: worktree_of_def)
    have tr1: "tracked s1 q" for q
      using s1(2) same_view_tracked [OF view] f0(2) by (cases "q = p") simp_all
    have fit1: "fits s1 q = fits s q" if "q \<noteq> p" for q
      using same_view_fits [OF view [OF that]] by (simp add: s0_def)
    have "p \<notin> P" using P pm by blast
    then have PP: "fits s1 q" if "q \<in> P" for q using inv that fit1 by (metis loop_inv_def)
    have rest: "fits s1 q" if "q \<in> todo" "prev_of s1 q = worktree_of s1 q" for q
    proof -
      have "q \<noteq> p" using p(2) that(1) by blast
      with that inv show ?thesis by (simp add: loop_inv_def prev wt fit1)
    qed
    have past: "prev_of s1 q = worktree_of s1 q \<and> fits s1 q" if "q \<notin> todo" "q \<in> fst ` set m" for q
      using that inv s1(3) by (cases "q = p") (simp_all add: loop_inv_def prev wt w fit1)
    have "loop_inv m todo P s1"
      using s1 tr1 PP rest past by (simp add: loop_inv_def)
    then show ?thesis by (simp add: s' loop_inv_def)
  qed
qed

lemma observe_loop:
  assumes "loop_inv m (fst ` set es) P s" "distinct (map fst es)" "\<forall>(p, sl)\<in>set es. map_of m p = Some sl"
    and "P \<inter> fst ` set m = {}"
  shows "loop_inv m {} P (foldl observe_one s es)"
  using assms
proof (induction es arbitrary: s)
  case Nil
  then show ?case by simp
next
  case (Cons e es)
  obtain p sl where e: "e = (p, sl)" by (cases e)
  have "loop_inv m (fst ` set es) P (observe_one s (p, sl))"
    by (rule observe_one_ok) (use Cons.prems e in auto)
  then show ?case using Cons e by simp
qed

lemma set_worktrees_ok:
  assumes fr: "fresh_ok s" and obs: "\<And>q. prev_of s q = worktree_of s q" and d: "distinct (map fst m)"
    and ok: "\<And>q. tracked s q" "\<And>q. fits s q"
  shows "fresh_ok (set_worktrees m s)" "observed (set_worktrees m s)" "tracked (set_worktrees m s) q"
    "q \<in> fst ` set m \<or> worktree_of s q = None \<Longrightarrow> fits (set_worktrees m s) q"
proof -
  define s0 where "s0 = s\<lparr>worktreeStore := m\<rparr>"
  define P where "P = {q. q \<notin> fst ` set m \<and> worktree_of s q = None}"
  have keep: "fits s0 q" if "worktree_of s0 q = worktree_of s q" for q
    using ok(2) [of q] that by (simp add: s0_def fits_def worktree_store_view)
  have none: "worktree_of s0 q = None" if "q \<notin> fst ` set m" for q
  proof -
    have "map_of m q = None" using that by (simp add: map_of_eq_None_iff)
    then show ?thesis by (simp add: s0_def worktree_store_view)
  qed
  have prev0: "prev_of s0 = prev_of s" by (simp add: s0_def worktree_store_view)
  have "loop_inv m (fst ` set m) P s0"
    unfolding loop_inv_def
  proof (intro conjI allI ballI impI)
    show "fresh_ok s0" "worktreeStore s0 = m" using fr by (simp_all add: s0_def worktree_store_view)
    show "tracked s0 q" for q using ok(1) by (simp add: s0_def)
    show "fits s0 q" if "prev_of s0 q = worktree_of s0 q" for q
      by (rule keep) (use that obs prev0 in simp)
    show "fits s0 q" if "q \<in> P" for q by (rule keep) (use that none in \<open>simp add: P_def\<close>)
  qed auto
  then have L: "loop_inv m {} P (foldl observe_one s0 m)"
    by (rule observe_loop) (use d in \<open>auto simp: P_def intro: map_of_is_SomeI\<close>)
  define s1 where "s1 = foldl observe_one s0 m"
  have worktreeStore_simp: "worktreeStore (s\<lparr>worktreeStore := m\<rparr>) = m" by simp
  have s': "set_worktrees m s = s1\<lparr>prevWorktree := (\<lambda>p. if p \<in> fst ` set m then prevWorktree s1 p else None)\<rparr>"
    by (simp only: set_worktrees_def observe_def Let_def s0_def s1_def panels.select_convs panels.update_convs worktreeStore_simp)
  have st1: "worktreeStore s1 = m" using L by (simp add: loop_inv_def s1_def)
  show "fresh_ok (set_worktrees m s)" "tracked (set_worktrees m s) q"
    using L by (simp_all add: s' loop_inv_def s1_def prev_store_view)
  have "prev_of (set_worktrees m s) q = worktree_of (set_worktrees m s) q" for q
  proof (cases "q \<in> fst ` set m")
    case True
    then have "prev_of s1 q = worktree_of s1 q" using L by (simp add: loop_inv_def s1_def)
    with True show ?thesis by (simp add: s' prev_of_def worktree_of_def)
  next
    case False
    then have "map_of m q = None" by (simp add: map_of_eq_None_iff)
    with False st1 show ?thesis by (simp add: s' prev_of_def worktree_of_def)
  qed
  then show "observed (set_worktrees m s)"
    using d st1 by (simp add: observed_def s')
  show "fits (set_worktrees m s) q" if "q \<in> fst ` set m \<or> worktree_of s q = None"
    using that L unfolding s' s1_def fits_prev
    by (cases "q \<in> fst ` set m") (auto simp: loop_inv_def P_def)
qed

subsection \<open>The operations\<close>

lemma inv_parts:
  assumes "panels_inv s"
  shows "fresh_ok s" "\<And>q. prev_of s q = worktree_of s q" "\<And>q. tracked s q" "\<And>q. fits s q"
    "distinct (map fst (worktreeStore s))"
  using assms by (simp_all add: panels_inv_def observed_def)

lemma set_worktrees_inv:
  assumes inv: "panels_inv s" and d: "distinct (map fst m)" and keys: "fst ` set (worktreeStore s) \<subseteq> fst ` set m"
  shows "panels_inv (set_worktrees m s)"
proof -
  note ok = set_worktrees_ok [OF inv_parts(1,2) [OF inv] d inv_parts(3,4) [OF inv]]
  have "worktree_of s q = None" if "q \<notin> fst ` set m" for q
  proof -
    have "map_of (worktreeStore s) q = None" using that keys by (auto simp: map_of_eq_None_iff)
    then show ?thesis by (simp add: worktree_of_def)
  qed
  then show ?thesis using ok unfolding panels_inv_def by blast
qed

lemma wt_patch_inv: "panels_inv s \<Longrightarrow> panels_inv (wt_patch p f s)"
  unfolding wt_patch_def
  by (rule set_worktrees_inv) (auto simp: omap_simps dest: inv_parts(5))

lemma same_views_inv:
  assumes "panels_inv s" "\<And>q. same_view q s s'" "fresh_ok s'" "worktreeStore s' = worktreeStore s"
    "prevWorktree s' = prevWorktree s"
  shows "panels_inv s'"
proof -
  have "prev_of s' = prev_of s" using assms(5) by (simp add: prev_of_def fun_eq_iff)
  with assms show ?thesis
    using same_views [OF assms(2)] by (simp add: panels_inv_def observed_def same_view_def)
qed

lemma panel_emit_inv [simp]: "panels_inv (emit a s) = panels_inv s"
  by (simp add: panels_inv_def observed_def)

lemma await_inv: "panels_inv s \<Longrightarrow> (\<And>p. drain_task p t = None) \<Longrightarrow> panels_inv (await t s)"
  by (rule same_views_inv [of s]) (auto intro: await_same_view dest: inv_parts(1))

lemma loadWorktrees_inv: "panels_inv s \<Longrightarrow> panels_inv (loadWorktrees b p s)"
  by (simp add: loadWorktrees_def await_inv wt_patch_inv)

lemma schedule_inv:
  assumes inv: "panels_inv s"
  shows "panels_inv (scheduleRefresh p s)"
proof -
  note parts = inv_parts [OF inv]
  note sched = schedule_ok [OF parts(1) parts(3) [of p]]
  have "tracked (scheduleRefresh p s) q \<and> fits (scheduleRefresh p s) q" for q
    using sched(2,3) same_views [OF schedule_ok(4) [OF parts(1) parts(3) [of p], of q]] parts(3,4)
    by (cases "q = p") simp_all
  moreover have "observed (scheduleRefresh p s)"
    using sched(5,6) parts(2,5) by (simp add: observed_def prev_of_def worktree_of_def)
  ultimately show ?thesis using sched(1) by (simp add: panels_inv_def)
qed

lemma on_worktrees_inv: "panels_inv s \<Longrightarrow> panels_inv (on_worktrees p b a s)"
  by (auto simp: on_worktrees_def Let_def wt_patch_inv intro!: await_inv split: option.splits answer.splits)

text \<open>Patches that touch neither the flag nor the changeset.\<close>

lemma patch_tracked [simp]: "tracked (patch p f s) q = tracked s q"
  by (simp add: tracked_def)

lemma patch_inv:
  assumes inv: "panels_inv s"
    and f: "\<And>c. loading (f c) = loading c" "\<And>c. changeset (f c) = changeset c" "\<And>c. diffTarget (f c) = diffTarget c"
  shows "panels_inv (patch p f s)"
proof -
  have "fits (patch p f s) q" for q
    using inv_parts(4) [OF inv, of q] f
    by (auto simp: fits_def flying_def resting_def current_def matching_def)
  moreover have "fresh_ok (patch p f s)" "observed (patch p f s)"
    using inv by (simp_all add: panels_inv_def fresh_ok_def observed_def)
  ultimately show ?thesis using inv_parts(3) [OF inv] by (simp add: panels_inv_def)
qed

lemma storage_view: "same_view q s (s\<lparr>storage := m\<rparr>)" "fresh_ok (s\<lparr>storage := m\<rparr>) = fresh_ok s"
  by (simp_all add: same_view_def worktree_of_def coordinatorFor_def changes_of_def flight_def fresh_ok_def fun_eq_iff)

lemma storage_inv: "panels_inv s \<Longrightarrow> panels_inv (s\<lparr>storage := m\<rparr>)"
  by (rule same_views_inv [of s]) (auto simp: storage_view dest: inv_parts(1))

lemma writeFocus_inv: "panels_inv s \<Longrightarrow> panels_inv (writeFocus ns p v s)"
  by (simp add: writeFocus_def storage_inv split: option.splits)

lemma selectFile_inv: "panels_inv s \<Longrightarrow> panels_inv (selectFile p path s)"
  by (simp add: selectFile_def patch_inv writeFocus_inv)

lemma setTarget_inv:
  assumes inv: "panels_inv s"
  shows "panels_inv (setTarget p t s)"
proof -
  define s0 where "s0 = patch p (\<lambda>c. c\<lparr>diffTarget := t, changeset := None, selectedPath := None\<rparr>) s"
  note parts = inv_parts [OF inv]
  have f0: "fresh_ok s0" "tracked s0 q" for q using parts by (simp_all add: s0_def fresh_ok_def)
  have v0: "q \<noteq> p \<Longrightarrow> same_view q s s0" for q by (simp add: s0_def same_view_def)
  note sched = schedule_ok [OF f0, of p]
  have "tracked (scheduleRefresh p s0) q \<and> fits (scheduleRefresh p s0) q" for q
  proof (cases "q = p")
    case True
    then show ?thesis using schedule_ok(2,3) [OF f0, of p] by simp
  next
    case False
    have "same_view q s (scheduleRefresh p s0)"
      by (rule same_view_trans [OF v0 [OF False] schedule_ok(4) [OF f0 False]])
    then show ?thesis using same_views parts(3,4) by simp
  qed
  moreover have "observed (scheduleRefresh p s0)"
    using schedule_ok(5,6) [OF f0, of p] parts(2,5) by (simp add: observed_def prev_of_def worktree_of_def s0_def)
  ultimately show ?thesis using schedule_ok(1) [OF f0, of p] by (simp add: panels_inv_def setTarget_def s0_def)
qed

text \<open>Resetting the changes of a project needs only the bookkeeping of its old state.\<close>

lemma invalidate_ok:
  assumes fr: "fresh_ok s" and tr: "tracked s p" and s': "s' = (invalidateRefresh p s)\<lparr>changesStore := m\<rparr>"
    and m: "m = (changesStore s)(p := v)" "v = None \<or> v = Some emptyChanges"
  shows "fresh_ok s'" "tracked s' p" "fits s' p" "q \<noteq> p \<Longrightarrow> same_view q s s'"
    "worktreeStore s' = worktreeStore s" "prevWorktree s' = prevWorktree s"
proof -
  have v: "coordinatorFor s' q = (if q = p then (coordinatorFor s p)\<lparr>lifecycle := lifecycle (coordinatorFor s p) + 1,
      requestGeneration := requestGeneration (coordinatorFor s p) + 1, pendingRun := False\<rparr> else coordinatorFor s q)"
    "flight s' = flight s" "worktree_of s' = worktree_of s" "worktreeStore s' = worktreeStore s"
    "prevWorktree s' = prevWorktree s" "tasks s' = tasks s" "fresh s' = fresh s" for q
    by (simp_all add: s' invalidateRefresh_def coord_def coordinatorFor_def flight_def worktree_of_def fun_eq_iff)
  have ch: "changes_of s' q = (if q = p then emptyChanges else changes_of s q)" for q
    using m by (auto simp: s' changes_of_def invalidateRefresh_def)
  show "fresh_ok s'" using fr by (simp add: fresh_ok_def v)
  show "tracked s' p" using tr by (fastforce simp: tracked_def v intro: le_SucI)
  show "fits s' p"
    using tr by (force simp: fits_def tracked_def v ch flying_def resting_def matching_def emptyChanges_def)
  show "q \<noteq> p \<Longrightarrow> same_view q s s'" by (simp add: same_view_def v ch)
  show "worktreeStore s' = worktreeStore s" "prevWorktree s' = prevWorktree s" by (simp_all add: v)
qed

lemma clear_ok:
  assumes "fresh_ok s" "observed s" "\<And>q. tracked s q" "\<And>q. q \<noteq> p \<Longrightarrow> fits s q"
  shows "panels_inv (clearChanges p s)" "panels_inv (evictChanges p s)"
proof -
  have gen: "panels_inv s'" if s': "s' = (invalidateRefresh p s)\<lparr>changesStore := (changesStore s)(p := v)\<rparr>"
    and v: "v = None \<or> v = Some emptyChanges" for s' v
  proof -
    note ok = invalidate_ok(1-3,5,6) [OF assms(1) assms(3) [of p] s' refl v]
    note view = invalidate_ok(4) [OF assms(1) assms(3) [of p] s' refl v]
    have "tracked s' q \<and> fits s' q" for q
      using ok(2,3) same_views [OF view, of q] assms(3,4) by (cases "q = p") simp_all
    moreover have "observed s'"
      using assms(2) ok(4,5) by (simp add: observed_def prev_of_def worktree_of_def)
    ultimately show ?thesis using ok(1) by (simp add: panels_inv_def)
  qed
  show "panels_inv (clearChanges p s)" by (rule gen [of _ "Some emptyChanges"]) (simp_all add: clearChanges_def)
  show "panels_inv (evictChanges p s)" by (rule gen [of _ None]) (simp_all add: evictChanges_def)
qed

lemma clearProject_worktrees: "panels_inv s \<Longrightarrow> panels_inv (clearWorktrees p s)"
  unfolding clearWorktrees_def
  by (rule set_worktrees_inv) (auto simp: omap_simps dest: inv_parts(5))

lemma evict_ok:
  assumes inv: "panels_inv s"
  shows "panels_inv (evictChanges p (evictWorktrees p s))"
proof (cases "map_of (worktreeStore s) p = None")
  case True
  then show ?thesis
    using clear_ok(2) [of s p] inv by (simp add: evictWorktrees_def panels_inv_def)
next
  case False
  define m where "m = omap_del p (worktreeStore s)"
  have e: "evictWorktrees p s = set_worktrees m s" by (simp only: evictWorktrees_def m_def False if_False)
  have d: "distinct (map fst m)" using inv_parts(5) [OF inv] by (simp add: m_def omap_simps)
  note ok = set_worktrees_ok [OF inv_parts(1,2) [OF inv] d inv_parts(3,4) [OF inv]]
  show ?thesis
    unfolding e
  proof (rule clear_ok(2) [OF ok(1,2,3)])
    fix q assume "q \<noteq> p"
    show "fits (set_worktrees m s) q"
    proof (rule ok(4))
      show "q \<in> fst ` set m \<or> worktree_of s q = None"
      proof (cases "map_of (worktreeStore s) q")
        case None
        then show ?thesis by (simp add: worktree_of_def)
      next
        case (Some sl)
        then have "q \<in> fst ` set (worktreeStore s)" by (metis domI dom_map_of_conv_image_fst)
        with \<open>q \<noteq> p\<close> show ?thesis by (simp add: m_def omap_simps)
      qed
    qed
  qed
qed

subsection \<open>The tasks of a drain\<close>

text \<open>The state in which the answer to a drain's task is handled: the task itself is gone.\<close>

definition landed :: "panels \<Rightarrow> string \<Rightarrow> nat \<Rightarrow> RefreshRun \<Rightarrow> bool" where
  "landed s p d r \<longleftrightarrow> fresh_ok s \<and> observed s \<and> (\<forall>i. flight s p i = None)
     \<and> drain (coordinatorFor s p) = Some d \<and> run_lifecycle r \<le> lifecycle (coordinatorFor s p)
     \<and> run_generation r \<le> requestGeneration (coordinatorFor s p)
     \<and> (pendingRun (coordinatorFor s p) \<longrightarrow> run_generation r \<noteq> requestGeneration (coordinatorFor s p))
     \<and> flying (coordinatorFor s p) (changes_of s p) (worktree_of s p) r
     \<and> (\<forall>q. q \<noteq> p \<longrightarrow> tracked s q \<and> fits s q)"

lemma drain_task_project: "drain_task p t = Some x \<Longrightarrow> q \<noteq> p \<Longrightarrow> drain_task q t = None"
  by (cases t) (auto split: if_splits)

lemma take_view:
  "coordinatorFor (s\<lparr>tasks := m\<rparr>) = coordinatorFor s" "changes_of (s\<lparr>tasks := m\<rparr>) = changes_of s"
  "worktree_of (s\<lparr>tasks := m\<rparr>) = worktree_of s" "prev_of (s\<lparr>tasks := m\<rparr>) = prev_of s"
  "isCurrentRun (s\<lparr>tasks := m\<rparr>) = isCurrentRun s"
  by (simp_all add: coordinatorFor_def changes_of_def worktree_of_def prev_of_def isCurrentRun_def fun_eq_iff)

lemma flight_take: "flight (s\<lparr>tasks := (tasks s)(i := None)\<rparr>) p = (flight s p)(i := None)"
  by (simp add: flight_def fun_eq_iff)

lemma take_landed:
  assumes inv: "panels_inv s" and t: "tasks s i = Some t" "drain_task p t = Some (d, r)"
  shows "landed (s\<lparr>tasks := (tasks s)(i := None)\<rparr>) p d r"
proof -
  have fl: "flight s p i = Some (d, r)" using t by (simp add: flight_def)
  have tr: "tracked s p" "fits s p" using inv_parts(3,4) [OF inv] by simp_all
  have other: "same_view q s (s\<lparr>tasks := (tasks s)(i := None)\<rparr>)" if "q \<noteq> p" for q
    using drain_task_project [OF t(2) that] t(1)
    by (auto simp: same_view_def take_view flight_take flight_def fun_eq_iff)
  have free: "flight (s\<lparr>tasks := (tasks s)(i := None)\<rparr>) p j = None" for j
    using tr(1) fl unfolding tracked_def flight_take by (metis fun_upd_apply option.distinct(1))
  have "drain (coordinatorFor s p) = Some d" "run_lifecycle r \<le> lifecycle (coordinatorFor s p)"
    "run_generation r \<le> requestGeneration (coordinatorFor s p)"
    "pendingRun (coordinatorFor s p) \<longrightarrow> run_generation r \<noteq> requestGeneration (coordinatorFor s p)"
    using tr(1) fl unfolding tracked_def by blast+
  moreover have "flying (coordinatorFor s p) (changes_of s p) (worktree_of s p) r"
    using tr(2) fl unfolding fits_def by blast
  moreover have "fresh_ok (s\<lparr>tasks := (tasks s)(i := None)\<rparr>)" "observed (s\<lparr>tasks := (tasks s)(i := None)\<rparr>)"
    using inv by (simp_all add: panels_inv_def fresh_ok_def observed_def take_view)
  ultimately show ?thesis
    using free same_views [OF other] inv_parts(3,4) [OF inv] by (simp add: landed_def take_view)
qed

lemma take_inv:
  assumes inv: "panels_inv s" and t: "tasks s i = Some t" "\<And>p. drain_task p t = None"
  shows "panels_inv (s\<lparr>tasks := (tasks s)(i := None)\<rparr>)"
proof (rule same_views_inv [OF inv])
  have "flight s q i = None" for q using t by (simp add: flight_def)
  then show "same_view q s (s\<lparr>tasks := (tasks s)(i := None)\<rparr>)" for q
    by (simp add: same_view_def take_view flight_take fun_upd_idem)
  show "fresh_ok (s\<lparr>tasks := (tasks s)(i := None)\<rparr>)"
    using inv_parts(1) [OF inv] by (simp add: fresh_ok_def)
qed simp_all

lemma relaunch:
  assumes l: "landed s p d r" and t: "drain_task p t = Some (d, r)"
  shows "panels_inv (await t s)"
proof -
  have fr: "fresh_ok s" and ob: "observed s" using l by (simp_all add: landed_def)
  have "flight (await t s) p i = (if i = fresh s then Some (d, r) else None)" for i
    using l t by (simp add: flight_await landed_def)
  then have "tracked (await t s) p \<and> fits (await t s) p"
    using l by (auto simp: landed_def tracked_def fits_def)
  moreover have "tracked (await t s) q \<and> fits (await t s) q" if "q \<noteq> p" for q
    using same_views [OF await_same_view [OF fr drain_task_project [OF t that]]] l that by (simp add: landed_def)
  moreover have "observed (await t s)" using ob by (simp add: observed_def)
  ultimately show ?thesis using fr unfolding panels_inv_def by (metis fresh_await)
qed

lemma landed_patch:
  assumes l: "landed s p d r" and f: "\<And>c. diffTarget (f c) = diffTarget c"
    and m: "flying (coordinatorFor s p) (f (changes_of s p)) (worktree_of s p) r"
  shows "landed (patch p f s) p d r"
proof -
  have "same_view q s (patch p f s)" if "q \<noteq> p" for q using that by (simp add: same_view_def)
  from same_views [OF this] show ?thesis
    using l m by (simp add: landed_def fresh_ok_def observed_def)
qed

lemma landed_emit [simp]: "landed (emit a s) p d r = landed s p d r"
  by (simp add: landed_def observed_def)

lemma flying_same:
  "loading ch' = loading ch \<Longrightarrow> changeset ch' = changeset ch \<Longrightarrow> diffTarget ch' = diffTarget ch \<Longrightarrow>
     flying c ch' w r = flying c ch w r"
  by (simp add: flying_def current_def matching_def)

lemma on_resolved_inv:
  assumes l: "landed s p d r"
  shows "panels_inv (on_resolved p d r a s)"
proof -
  have e: "panels_inv (await (TEnd p d r) s)" by (rule relaunch [OF l]) simp
  have "landed (patch p (\<lambda>c. c\<lparr>branchPoint := x\<rparr>) s) p d r" for x
  proof (rule landed_patch [OF l])
    show "flying (coordinatorFor s p) ((changes_of s p)\<lparr>branchPoint := x\<rparr>) (worktree_of s p) r"
      using l flying_same [of "(changes_of s p)\<lparr>branchPoint := x\<rparr>" "changes_of s p"] by (simp add: landed_def)
  qed simp
  then have "panels_inv (await (TChanges p d r b bp) (emit out (patch p (\<lambda>c. c\<lparr>branchPoint := x\<rparr>) s)))" for b bp out x
    by (intro relaunch [of _ p d r]) simp_all
  with e show ?thesis by (auto simp: on_resolved_def split: answer.splits option.splits)
qed

lemma on_changes_inv:
  assumes l: "landed s p d r" and honest: "\<And>cs. a = AChanges cs \<Longrightarrow> Some (cs_worktree cs) = run_worktree r"
  shows "panels_inv (on_changes p d r b bp a s)"
proof -
  have e: "panels_inv (await (TEnd p d r) s)" by (rule relaunch [OF l]) simp
  have "panels_inv (await (TEnd p d r) (restore_selection p r cs
      (patch p (\<lambda>c. c\<lparr>changeset := Some cs, baseline := b, branchPoint := bp\<rparr>) s)))"
    if a: "a = AChanges cs" and cur: "isCurrentRun s p r" for cs
  proof -
    let ?s = "patch p (\<lambda>c. c\<lparr>changeset := Some cs, baseline := b, branchPoint := bp\<rparr>) s"
    have "flying (coordinatorFor s p) ((changes_of s p)\<lparr>changeset := Some cs, baseline := b, branchPoint := bp\<rparr>) (worktree_of s p) r"
      using cur honest [OF a] by (simp add: isCurrentRun_current flying_def current_def matching_def)
    then have l1: "landed ?s p d r" by (intro landed_patch [OF l]) simp_all
    have "landed (patch p (\<lambda>c. c\<lparr>selectedPath := Some x\<rparr>) ?s) p d r" for x
    proof (rule landed_patch [OF l1])
      show "flying (coordinatorFor ?s p) ((changes_of ?s p)\<lparr>selectedPath := Some x\<rparr>) (worktree_of ?s p) r"
        using l1 flying_same [of "(changes_of ?s p)\<lparr>selectedPath := Some x\<rparr>" "changes_of ?s p"]
        unfolding landed_def by simp
    qed simp
    with l1 have "landed (restore_selection p r cs ?s) p d r"
      unfolding restore_selection_def by (simp split: option.split)
    then show ?thesis by (rule relaunch) simp
  qed
  with e show ?thesis by (auto simp: on_changes_def split: answer.splits)
qed

text \<open>The turn that ends a drain: nothing is queued, and the run was the latest, or the project was reset.\<close>

lemma on_end_inv:
  assumes l: "landed s p d r"
  shows "panels_inv (on_end p d r s)"
    and "drain (coordinatorFor (on_end p d r s) p) = None \<Longrightarrow>
      isCurrentRun s p r \<or> run_lifecycle r < lifecycle (coordinatorFor s p)"
proof -
  have parts: "fresh_ok s" "observed s" "\<And>i. flight s p i = None" "drain (coordinatorFor s p) = Some d"
    "flying (coordinatorFor s p) (changes_of s p) (worktree_of s p) r"
    "\<And>q. q \<noteq> p \<Longrightarrow> tracked s q \<and> fits s q"
    using l by (simp_all add: landed_def)
  have "panels_inv (on_end p d r s) \<and> (drain (coordinatorFor (on_end p d r s) p) = None \<longrightarrow>
      isCurrentRun s p r \<or> run_lifecycle r < lifecycle (coordinatorFor s p))"
  proof (cases "pendingRun (coordinatorFor s p)")
    case True
    then have s': "on_end p d r s = start_run p d s" by (simp add: on_end_def)
    note run = start_run_ok(1-3) [OF parts(1) _ parts(4)] start_run_ok(5,6) [OF parts(1) _ parts(4)]
    have view: "q \<noteq> p \<Longrightarrow> same_view q s (start_run p d s)" for q
      using start_run_ok(4) [OF parts(1) _ parts(4)] parts(3) by blast
    have "tracked (start_run p d s) q \<and> fits (start_run p d s) q" for q
      using run(2,3) parts(3) same_views [OF view, of q] parts(6) by (cases "q = p") simp_all
    moreover have "observed (start_run p d s)"
      using run(4,5) parts(2,3) by (simp add: observed_def prev_of_def worktree_of_def)
    moreover have "drain (coordinatorFor (start_run p d s) p) \<noteq> None"
    proof -
      have "fits (start_run p d s) p" "tracked (start_run p d s) p" using run parts(3) by simp_all
      obtain f a t where "start_run p d s = await t (a (patch p f (coord p (\<lambda>c. c\<lparr>pendingRun := False\<rparr>) s)))"
        and "a = id \<or> (\<exists>out. a = emit out)" by (rule start_run_cases [of p d s])
      then show ?thesis using parts(4) by auto
    qed
    ultimately show ?thesis using run(1) parts(3) by (auto simp: s' panels_inv_def)
  next
    case False
    define s1 where "s1 = coord p (\<lambda>c. c\<lparr>drain := None\<rparr>) s"
    have s': "on_end p d r s = (if changesStore s p \<noteq> None \<and> isCurrentRun s1 p r
        then patch p (\<lambda>c. c\<lparr>loading := False\<rparr>) s1 else s1)"
      using False parts(4) by (simp add: on_end_def s1_def Let_def)
    have cur: "isCurrentRun s1 p r = isCurrentRun s p r"
      by (simp add: isCurrentRun_def s1_def)
    have fly: "(isCurrentRun s p r \<and> matching (worktree_of s p) (changes_of s p))
        \<or> (run_lifecycle r < lifecycle (coordinatorFor s p) \<and> \<not> loading (changes_of s p) \<and> changeset (changes_of s p) = None)"
      using parts(5) False by (simp add: flying_def isCurrentRun_current)
    have empty: "\<not> loading (changes_of s p)" if "changesStore s p = None"
      using that by (simp add: changes_of_def emptyChanges_def)
    have c1: "changes_of s1 = changes_of s" by (simp add: s1_def)
    have ch: "changes_of (on_end p d r s) p = changes_of s p \<or> changes_of (on_end p d r s) p = (changes_of s p)\<lparr>loading := False\<rparr>"
      "\<not> loading (changes_of (on_end p d r s) p)"
      using fly empty c1 by (auto simp: s' cur)
    have v: "coordinatorFor (on_end p d r s) p = (coordinatorFor s p)\<lparr>drain := None\<rparr>"
      "worktree_of (on_end p d r s) = worktree_of s" "flight (on_end p d r s) = flight s"
      "fresh_ok (on_end p d r s) = fresh_ok s" "observed (on_end p d r s) = observed s"
      by (simp_all add: s' s1_def fresh_ok_def observed_def)
    have "matching (worktree_of s p) (changes_of (on_end p d r s) p)"
      using ch(1) fly by (auto simp: matching_def)
    then have "tracked (on_end p d r s) p \<and> fits (on_end p d r s) p"
      using parts(3) False ch(2) by (simp add: tracked_def fits_def resting_def v)
    moreover have "tracked (on_end p d r s) q \<and> fits (on_end p d r s) q" if "q \<noteq> p" for q
    proof -
      have "same_view q s (on_end p d r s)" using that by (simp add: s' s1_def same_view_def)
      from same_views [OF this] parts(6) [OF that] show ?thesis by simp
    qed
    ultimately have "tracked (on_end p d r s) q \<and> fits (on_end p d r s) q" for q
      by (cases "q = p") simp_all
    then show ?thesis using parts(1,2) v fly by (auto simp: panels_inv_def)
  qed
  then show "panels_inv (on_end p d r s)"
    "drain (coordinatorFor (on_end p d r s) p) = None \<Longrightarrow>
      isCurrentRun s p r \<or> run_lifecycle r < lifecycle (coordinatorFor s p)" by blast+
qed

subsection \<open>The other stores, and the whole\<close>

lemma b_patch_inv: "panels_inv s \<Longrightarrow> panels_inv (b_patch p f s)"
  by (rule same_views_inv [of s])
     (auto simp: b_patch_def same_view_def worktree_of_def coordinatorFor_def changes_of_def flight_def
       fresh_ok_def panels_inv_def fun_eq_iff)

lemma loadBeads_inv: "panels_inv s \<Longrightarrow> panels_inv (loadBeads p s)"
  by (simp add: loadBeads_def Let_def await_inv b_patch_inv)

lemma beads_inv:
  "panels_inv s \<Longrightarrow> panels_inv (on_detected p a s)" "panels_inv s \<Longrightarrow> panels_inv (on_graph p a s)"
  "panels_inv s \<Longrightarrow> panels_inv (on_written p b a s)"
  by (auto simp: on_detected_def on_graph_def load_failed_def show_graph_def writeFocusSet_def on_written_def Let_def
      b_patch_inv writeFocus_inv loadBeads_inv intro!: await_inv split: answer.splits option.splits)

lemma pins_inv:
  "panels_inv s \<Longrightarrow> panels_inv (set_pins p ids s)" "panels_inv s \<Longrightarrow> panels_inv (setView p v s)"
  "panels_inv s \<Longrightarrow> panels_inv (selectIssue p i s)" "panels_inv s \<Longrightarrow> panels_inv (setFocus p i s)"
  by (auto simp: set_pins_def writeFocusSet_def setView_def writeView_def selectIssue_def setFocus_def
      intro!: b_patch_inv writeFocus_inv storage_inv)

lemma beads_store_inv: "panels_inv s \<Longrightarrow> panels_inv (s\<lparr>beadsStore := m\<rparr>)"
  by (rule same_views_inv [of s])
     (auto simp: same_view_def worktree_of_def coordinatorFor_def changes_of_def flight_def fresh_ok_def
       panels_inv_def fun_eq_iff)

lemma prev_state_inv: "panels_inv s \<Longrightarrow> panels_inv (s\<lparr>prevState := m\<rparr>)"
  by (rule same_views_inv [of s])
     (auto simp: same_view_def worktree_of_def coordinatorFor_def changes_of_def flight_def fresh_ok_def
       panels_inv_def fun_eq_iff)

lemma known_ids_inv: "panels_inv s \<Longrightarrow> panels_inv (s\<lparr>knownIds := ids\<rparr>)"
  by (rule same_views_inv [of s])
     (auto simp: same_view_def worktree_of_def coordinatorFor_def changes_of_def flight_def fresh_ok_def
       panels_inv_def fun_eq_iff)

lemmas bookkeeping_inv = prev_state_inv known_ids_inv

lemma clearProject_inv: "panels_inv s \<Longrightarrow> panels_inv (clearProject p s)"
proof -
  assume "panels_inv s"
  then have "panels_inv (clearWorktrees p s)" by (rule clearProject_worktrees)
  then have "panels_inv (clearChanges p (clearWorktrees p s))" by (intro clear_ok(1)) (simp_all add: panels_inv_def)
  then show ?thesis by (simp add: clearProject_def clearBeads_def beads_store_inv)
qed

lemma evictProject_inv: "panels_inv s \<Longrightarrow> panels_inv (evictProject p s)"
  by (simp add: evictProject_def evictBeads_def beads_store_inv evict_ok)

lemma on_projects_inv: "panels_inv s \<Longrightarrow> panels_inv (on_projects ids s)"
proof -
  assume inv: "panels_inv s"
  have "panels_inv (foldl (\<lambda>s p. (evictProject p s)\<lparr>prevState := (prevState s)(p := None)\<rparr>) s ps)" for ps
    using inv by (induction ps arbitrary: s) (simp_all add: bookkeeping_inv evictProject_inv)
  then show ?thesis by (simp add: on_projects_def Let_def bookkeeping_inv)
qed

text \<open>A provider answers a read of a worktree with the changeset of that worktree.\<close>

definition honest :: "panels \<Rightarrow> panel_event \<Rightarrow> bool" where
  "honest s e = (case e of
     EvAnswer i (AChanges cs) \<Rightarrow>
       (case tasks s i of Some (TChanges p d r b bp) \<Rightarrow> Some (cs_worktree cs) = run_worktree r | _ \<Rightarrow> True)
   | _ \<Rightarrow> True)"

lemma on_answer_inv:
  assumes inv: "panels_inv s" and h: "honest s (EvAnswer i a)"
  shows "panels_inv (on_answer i a s)"
proof (cases "tasks s i")
  case None
  with inv show ?thesis by (simp add: on_answer_def)
next
  case (Some t)
  show ?thesis
  proof (cases t)
    case (TResolve p d r)
    then have "landed (s\<lparr>tasks := (tasks s)(i := None)\<rparr>) p d r" using take_landed [OF inv Some] by simp
    then show ?thesis using Some TResolve on_resolved_inv by (simp add: on_answer_def Let_def)
  next
    case (TChanges p d r b bp)
    then have l: "landed (s\<lparr>tasks := (tasks s)(i := None)\<rparr>) p d r" using take_landed [OF inv Some] by simp
    have "Some (cs_worktree cs) = run_worktree r" if "a = AChanges cs" for cs
      using h Some TChanges that by (simp add: honest_def)
    then show ?thesis using Some TChanges on_changes_inv [OF l] by (simp add: on_answer_def Let_def)
  next
    case (TEnd p d r)
    then have "landed (s\<lparr>tasks := (tasks s)(i := None)\<rparr>) p d r" using take_landed [OF inv Some] by simp
    then show ?thesis using Some TEnd on_end_inv(1) by (simp add: on_answer_def Let_def)
  qed (use Some take_inv [OF inv Some] in
      \<open>simp_all add: on_answer_def Let_def on_worktrees_inv schedule_inv beads_inv\<close>)
qed

lemma step_panels_inv: "panels_inv s \<Longrightarrow> honest s e \<Longrightarrow> panels_inv (panel_step s e)"
  by (cases e) (auto simp: on_answer_inv on_status_def on_watch_def on_projects_inv setWorktree_def wt_patch_inv
      selectFile_inv setTarget_inv pins_inv pinEpic_def unpinEpic_def clearFocusSet_def beadsWrite_def
      loadProject_def loadBeads_inv loadWorktrees_inv schedule_inv bookkeeping_inv clearProject_inv Let_def
      intro!: await_inv split: ConnectionState.splits)

text \<open>The states that the stores reach while providers answer with what was asked for.\<close>

inductive reached :: "panels \<Rightarrow> bool" where
  start: "reached (initPanels ok mem ids)"
| step: "reached s \<Longrightarrow> honest s e \<Longrightarrow> reached (panel_step s e)"

lemma init_panels_inv: "panels_inv (initPanels ok mem ids)"
  by (simp add: panels_inv_def initPanels_def fresh_ok_def observed_def prev_of_def worktree_of_def tracked_def
      fits_def flight_def coordinatorFor_def newCoordinator_def resting_def changes_of_def emptyChanges_def matching_def)

lemma reached_inv: "reached s \<Longrightarrow> panels_inv s"
  by (induction rule: reached.induct) (simp_all add: init_panels_inv step_panels_inv)

text \<open>A run of honest steps.\<close>

fun honest_run :: "panels \<Rightarrow> panel_event list \<Rightarrow> bool" where
  "honest_run s [] = True"
| "honest_run s (e # es) = (honest s e \<and> honest_run (panel_step s e) es)"

lemma reached_run: "reached s \<Longrightarrow> honest_run s es \<Longrightarrow> reached (foldl panel_step s es)"
  by (induction es arbitrary: s) (simp_all add: reached.step)

definition demo_start :: panels where
  "demo_start = initPanels True Map.empty [''p'']"

text \<open>A project connects, its worktrees arrive, and its changes are read.\<close>

definition demo_events :: "panel_event list" where
  "demo_events = [EvStatus ''p'' Connected, EvAnswer 0 (AWorktrees [''/w'', ''/v'']),
     EvAnswer 3 (AChanges \<lparr>cs_worktree = ''/w'', cs_files = [''a''], cs_rest = 0\<rparr>)]"

lemma demo_reached: "reached (foldl panel_step demo_start demo_events)"
  by (rule reached_run) (simp add: demo_start_def reached.start, code_simp)

section \<open>What happens beside a refresh under way\<close>

definition fetch_of :: "string \<Rightarrow> panel_out \<Rightarrow> bool" where
  "fetch_of p a = (case a of ResolveBranchPoint q _ \<Rightarrow> q = p | GetChangeset q _ _ \<Rightarrow> q = p | _ \<Rightarrow> False)"

text \<open>The reads of a project's changes that were asked of the provider.\<close>

definition fetches :: "string \<Rightarrow> panel_out list \<Rightarrow> nat" where
  "fetches p os = length (filter (fetch_of p) os)"

lemma fetches_snoc [simp]: "fetches p (os @ [a]) = fetches p os + (if fetch_of p a then 1 else 0)"
  by (simp add: fetches_def)

text \<open>A step that leaves a refresh of \<open>p\<close> that is under way alone: same task, no read.\<close>

definition quiet :: "string \<Rightarrow> panels \<Rightarrow> panels \<Rightarrow> bool" where
  "quiet p s s' \<longleftrightarrow> (fresh_ok s \<longrightarrow> drain (coordinatorFor s p) \<noteq> None \<longrightarrow>
     fresh_ok s' \<and> drain (coordinatorFor s' p) \<noteq> None \<and> flight s' p = flight s p
     \<and> fetches p (outs s') = fetches p (outs s))"

lemma quiet_refl [simp]: "quiet p s s" by (simp add: quiet_def)

lemma quiet_trans: "quiet p s t \<Longrightarrow> quiet p t u \<Longrightarrow> quiet p s u" by (simp add: quiet_def)

lemma quiet_same:
  "tasks s' = tasks s \<Longrightarrow> fresh s' = fresh s \<Longrightarrow> coordinators s' = coordinators s \<Longrightarrow> outs s' = outs s \<Longrightarrow> quiet p s s'"
  by (simp add: quiet_def fresh_ok_def flight_def coordinatorFor_def fun_eq_iff)

lemma quiet_emit: "\<not> fetch_of p a \<Longrightarrow> quiet p s (emit a s)"
  by (simp add: quiet_def emit_def fresh_ok_def flight_def coordinatorFor_def fun_eq_iff)

lemma quiet_await: "drain_task p t = None \<Longrightarrow> quiet p s (await t s)"
  using flight_fresh [of s p] by (auto simp: quiet_def fun_eq_iff flight_await) (simp add: await_def)

lemma quiet_coord: "q \<noteq> p \<or> (\<forall>c. drain (f c) = drain c) \<Longrightarrow> quiet p s (coord q f s)"
  by (auto simp: quiet_def fresh_ok_def) (auto simp: coord_def)

lemma quiet_patch: "quiet p s (patch q f s)" by (rule quiet_same) (simp_all add: patch_def)

lemma quiet_take: "flight s p i = None \<Longrightarrow> quiet p s (s\<lparr>tasks := (tasks s)(i := None)\<rparr>)"
  by (auto simp: quiet_def fresh_ok_def take_view flight_take)

lemma quiet_if: "(P \<Longrightarrow> quiet p s a) \<Longrightarrow> (\<not> P \<Longrightarrow> quiet p s b) \<Longrightarrow> quiet p s (if P then a else b)" by simp

lemma quiet_current: "quiet p s (if_current q r (patch q f) s)"
  by (simp add: if_current_def quiet_patch)

lemmas quiet_post = quiet_trans [OF _ quiet_await] quiet_trans [OF _ quiet_emit] quiet_trans [OF _ quiet_coord]
  quiet_trans [OF _ quiet_patch] quiet_trans [OF _ quiet_current]

lemma quiet_start:
  assumes "q \<noteq> p"
  shows "quiet p s (start_run q d s)"
proof -
  have "quiet p s (coord q f s)" for f using assms by (simp add: quiet_coord)
  then show ?thesis using assms unfolding start_run_def Let_def
    by (auto simp: fetch_of_def intro!: quiet_post split: option.split)
qed

lemma quiet_schedule: "quiet p s (scheduleRefresh q s)"
proof (cases "q = p")
  case True
  show ?thesis
  proof (cases "drain (coordinatorFor s p)")
    case None
    then show ?thesis by (simp add: quiet_def)
  next
    case (Some d)
    then have "scheduleRefresh p s = coord p (\<lambda>c. c\<lparr>pendingRun := True\<rparr>)
        (coord p (\<lambda>c. c\<lparr>requestGeneration := requestGeneration c + 1\<rparr>) s)"
      by (simp add: scheduleRefresh_def)
    with True show ?thesis by (auto intro!: quiet_post)
  qed
next
  case False
  then have up: "quiet p s (coord q f s\<lparr>fresh := Suc (fresh s)\<rparr>)" for f
    by (auto simp: quiet_def fresh_ok_def flight_def coordinatorFor_def fun_eq_iff coord_def)
  from False show ?thesis unfolding scheduleRefresh_def Let_def
    by (auto intro!: quiet_post quiet_trans [OF _ quiet_start] up)
qed

lemmas quiet_more = quiet_post quiet_trans [OF _ quiet_schedule]

lemma quiet_invalidate: "quiet p s (invalidateRefresh q s)"
  unfolding invalidateRefresh_def by (rule quiet_coord) simp

lemma quiet_worktrees: "quiet p s (set_worktrees m s)"
proof -
  have one: "quiet p x (observe_one x e)" for x e
  proof -
    have "quiet p x (x\<lparr>prevWorktree := y\<rparr>)" for y by (rule quiet_same) simp_all
    then show ?thesis by (auto simp: observe_one_def Let_def fetch_of_def split: prod.split intro!: quiet_more)
  qed
  have loop: "quiet p x (foldl observe_one x es)" for x es
    by (induction es arbitrary: x) (auto intro: quiet_trans [OF one])
  have "quiet p s (s\<lparr>worktreeStore := m\<rparr>)" by (rule quiet_same) simp_all
  moreover have "quiet p x (x\<lparr>prevWorktree := y\<rparr>)" for x y by (rule quiet_same) simp_all
  ultimately show ?thesis unfolding set_worktrees_def observe_def Let_def using loop quiet_trans by blast
qed

lemma quiet_wt_patch: "quiet p s (wt_patch q f s)" by (simp add: wt_patch_def quiet_worktrees)

lemma quiet_b_patch: "quiet p s (b_patch q f s)" by (rule quiet_same) (simp_all add: b_patch_def)

lemma quiet_focus: "quiet p s (writeFocus ns q v s)" "quiet p s (writeFocusSet q ids s)" "quiet p s (writeView w x s)"
  by (auto simp: writeFocus_def writeFocusSet_def writeView_def intro!: quiet_same split: option.split)

lemmas quiet_stores = quiet_more quiet_trans [OF _ quiet_wt_patch] quiet_trans [OF _ quiet_b_patch]
  quiet_trans [OF _ quiet_worktrees] quiet_trans [OF _ quiet_focus(1)] quiet_trans [OF _ quiet_focus(2)]
  quiet_trans [OF _ quiet_focus(3)] quiet_trans [OF _ quiet_invalidate]

lemma quiet_load_worktrees: "quiet p s (loadWorktrees b q s)"
  by (auto simp: loadWorktrees_def fetch_of_def intro!: quiet_stores)

lemma quiet_beads: "quiet p s (loadBeads q s)" "quiet p s (load_failed q e s)" "quiet p s (show_graph q g s)"
  by (auto simp: loadBeads_def load_failed_def show_graph_def Let_def fetch_of_def intro!: quiet_stores split: option.split)

lemma quiet_answers:
  "quiet p s (on_worktrees q b a s)" "quiet p s (on_detected q a s)" "quiet p s (on_graph q a s)"
  "quiet p s (on_written q b a s)"
  by (auto simp: on_worktrees_def on_detected_def on_graph_def on_written_def Let_def fetch_of_def quiet_beads
      intro!: quiet_stores quiet_trans [OF _ quiet_beads(1)] split: option.split answer.split)

lemma quiet_drain_answers:
  assumes "q \<noteq> p"
  shows "quiet p s (on_resolved q d r a s)" "quiet p s (on_changes q d r b bp a s)" "quiet p s (on_end q d r s)"
  using assms by (auto simp: on_resolved_def on_changes_def on_end_def restore_selection_def Let_def fetch_of_def quiet_start
      intro!: quiet_stores split: option.split answer.split)

lemma quiet_clear: "quiet p s (clearChanges q s)" "quiet p s (evictChanges q s)"
proof -
  have "quiet p x (x\<lparr>changesStore := m\<rparr>)" for x m by (rule quiet_same) simp_all
  then show "quiet p s (clearChanges q s)" "quiet p s (evictChanges q s)"
    unfolding clearChanges_def evictChanges_def using quiet_invalidate quiet_trans by blast+
qed

lemma quiet_project: "quiet p s (clearProject q s)" "quiet p s (evictProject q s)" "quiet p s (loadProject q s)"
proof -
  have b: "quiet p x (clearBeads q x)" "quiet p x (evictBeads q x)" for x
    by (auto simp: clearBeads_def evictBeads_def intro!: quiet_same)
  have w: "quiet p x (clearWorktrees q x)" "quiet p x (evictWorktrees q x)" for x
    by (auto simp: clearWorktrees_def evictWorktrees_def quiet_worktrees)
  show "quiet p s (clearProject q s)" unfolding clearProject_def
    by (rule quiet_trans [OF _ quiet_emit], rule quiet_trans [OF _ b(1)], rule quiet_trans [OF _ quiet_clear(1)], rule w)
      (simp add: fetch_of_def)
  show "quiet p s (evictProject q s)" unfolding evictProject_def
    by (rule quiet_trans [OF _ b(2)], rule quiet_trans [OF _ quiet_clear(2)], rule w)
  show "quiet p s (loadProject q s)" unfolding loadProject_def
    by (rule quiet_trans [OF quiet_load_worktrees quiet_beads(1)])
qed

lemma quiet_projects: "quiet p s (on_projects ids s)"
proof -
  have one: "quiet p x ((evictProject q x)\<lparr>prevState := m\<rparr>)" for x q m
    by (rule quiet_trans [OF quiet_project(2)]) (rule quiet_same, simp_all)
  have "quiet p x (foldl (\<lambda>s p. (evictProject p s)\<lparr>prevState := (prevState s)(p := None)\<rparr>) x gone)" for x gone
    by (induction gone arbitrary: x) (auto intro: quiet_trans [OF one])
  moreover have "quiet p x (x\<lparr>knownIds := ids\<rparr>)" for x by (rule quiet_same) simp_all
  ultimately show ?thesis unfolding on_projects_def Let_def using quiet_trans by blast
qed

lemma quiet_answer:
  assumes "flight s p i = None"
  shows "quiet p s (on_answer i a s)"
proof (cases "tasks s i")
  case None
  then show ?thesis by (simp add: on_answer_def)
next
  case (Some t)
  define s1 where "s1 = s\<lparr>tasks := (tasks s)(i := None)\<rparr>"
  have "quiet p s s1" unfolding s1_def by (rule quiet_take [OF assms])
  moreover have "drain_task p t = None" using assms Some by (simp add: flight_def)
  then have "quiet p s1 (on_answer i a s)" using Some
    by (cases t) (auto simp: on_answer_def s1_def [symmetric] quiet_answers quiet_drain_answers quiet_schedule
        split: if_splits)
  ultimately show ?thesis by (rule quiet_trans)
qed

lemma quiet_step:
  assumes "\<And>i a. e = EvAnswer i a \<Longrightarrow> flight s p i = None"
  shows "quiet p s (panel_step s e)"
proof (cases e)
  case (EvAnswer i a)
  with assms show ?thesis by (simp add: quiet_answer)
next
  case (EvStatus q st)
  have "quiet p s (s\<lparr>prevState := m\<rparr>)" for m by (rule quiet_same) simp_all
  with EvStatus show ?thesis
    by (auto simp: on_status_def Let_def intro: quiet_trans quiet_project split: ConnectionState.split)
next
  case (EvWatch q cats)
  then show ?thesis
    by (auto simp: on_watch_def Let_def quiet_beads intro!: quiet_trans [OF _ quiet_beads(1)] quiet_load_worktrees
        quiet_schedule)
next
  case (EvProjects ids)
  then show ?thesis by (simp add: quiet_projects)
qed (auto simp: setWorktree_def selectFile_def setTarget_def selectIssue_def setFocus_def pinEpic_def unpinEpic_def
    set_pins_def clearFocusSet_def setView_def beadsWrite_def fetch_of_def quiet_wt_patch intro!: quiet_stores)

lemma quiet_run:
  assumes "fresh_ok s" "drain (coordinatorFor s p) \<noteq> None" "\<forall>j. flight s p j \<noteq> None \<longrightarrow> j = i"
    and "\<forall>a. EvAnswer i a \<notin> set es"
  shows "quiet p s (foldl panel_step s es)"
  using assms
proof (induction es arbitrary: s)
  case (Cons e es)
  have "quiet p s (panel_step s e)"
  proof (rule quiet_step)
    fix j a assume "e = EvAnswer j a"
    with Cons.prems(4) have "j \<noteq> i" by auto
    with Cons.prems(3) show "flight s p j = None" by blast
  qed
  moreover from this Cons.prems have "quiet p (panel_step s e) (foldl panel_step (panel_step s e) es)"
    by (intro Cons.IH) (auto simp: quiet_def)
  ultimately show ?case by (simp) (rule quiet_trans)
qed simp

lemma start_run_result:
  assumes "\<forall>i. flight s p i = None"
  shows "flight (start_run p d s) p = [fresh s \<mapsto> (d, run_now s p)]"
    and "isCurrentRun (start_run p d s) p (run_now s p)"
    and "fetches p (outs (start_run p d s)) \<le> fetches p (outs s) + 1"
proof -
  obtain f a t where S: "start_run p d s = await t (a (patch p f (coord p (\<lambda>c. c\<lparr>pendingRun := False\<rparr>) s)))"
    and tf: "\<forall>c. diffTarget (f c) = diffTarget c" and t: "drain_task p t = Some (d, run_now s p)"
    and a: "a = id \<or> (\<exists>out. a = emit out)"
    by (rule start_run_cases [of p d s])
  show "flight (start_run p d s) p = [fresh s \<mapsto> (d, run_now s p)]"
    using assms a t by (auto simp: S flight_await fun_eq_iff)
  show "isCurrentRun (start_run p d s) p (run_now s p)"
    using a tf by (auto simp: S isCurrentRun_def run_now_def)
  show "fetches p (outs (start_run p d s)) \<le> fetches p (outs s) + 1"
    using a by (auto simp: S await_def emit_def patch_def coord_def)
qed

lemma await_fetches [simp]: "outs (await t s) = outs s" by (simp add: await_def)
lemma patch_outs [simp]: "outs (patch p f s) = outs s" by (simp add: patch_def)
lemma coord_outs [simp]: "outs (coord p f s) = outs s" by (simp add: coord_def)
lemma emit_outs [simp]: "outs (emit a s) = outs s @ [a]" by (simp add: emit_def)

lemma next_task:
  assumes "\<forall>i. flight s p i = None"
  shows "(\<exists>j. flight (on_resolved p d r a s) p = [j \<mapsto> (d, r)])
      \<and> fetches p (outs (on_resolved p d r a s)) \<le> fetches p (outs s) + 1"
    and "(\<exists>j. flight (on_changes p d r b bp a s) p = [j \<mapsto> (d, r)])
      \<and> fetches p (outs (on_changes p d r b bp a s)) = fetches p (outs s)"
proof -
  have fl: "flight (await t x) p = [fresh x \<mapsto> (d, r)]" if "flight x = flight s" "drain_task p t = Some (d, r)" for t x
    using that assms by (simp add: flight_await fun_eq_iff)
  show "(\<exists>j. flight (on_resolved p d r a s) p = [j \<mapsto> (d, r)])
      \<and> fetches p (outs (on_resolved p d r a s)) \<le> fetches p (outs s) + 1"
    by (auto simp: on_resolved_def fl split: answer.split option.split)
  show "(\<exists>j. flight (on_changes p d r b bp a s) p = [j \<mapsto> (d, r)])
      \<and> fetches p (outs (on_changes p d r b bp a s)) = fetches p (outs s)"
    by (auto simp: on_changes_def restore_selection_def fl split: answer.split option.split)
qed

section \<open>Properties\<close>

text \<open>
  C37. The changes panel never rests on something stale: whenever no refresh of a project is
  under way, its spinner is off and the diff it shows, if any, is of the worktree that is
  selected, under every interleaving of answers, watch events, selections, target switches,
  disconnects and removals; and at most one read of a project's changes is under way at a time.
\<close>

theorem changes_rest_fresh:
  assumes "reached s" and "drain (coordinatorFor s p) = None"
  shows "\<not> loading (changes_of s p)
    \<and> (case changeset (changes_of s p) of None \<Rightarrow> True | Some cs \<Rightarrow> worktree_of s p = Some (cs_worktree cs))
    \<and> flight s p = (\<lambda>_. None)"
proof -
  have inv: "panels_inv s" using assms(1) by (rule reached_inv)
  have "flight s p i = None" for i
    using inv_parts(3) [OF inv, of p] assms(2) unfolding tracked_def by (metis option.distinct(1) option.exhaust surj_pair)
  then show ?thesis
    using inv_parts(4) [OF inv, of p] assms(2) by (simp add: fits_def resting_def matching_def fun_eq_iff)
qed

theorem changes_rest_fresh_witness:
  "let s = panel_step (foldl panel_step demo_start demo_events) (EvAnswer 4 ADone)
   in (\<not> loading (changes_of s ''p'')
        \<and> (case changeset (changes_of s ''p'') of None \<Rightarrow> True
             | Some cs \<Rightarrow> worktree_of s ''p'' = Some (cs_worktree cs))
        \<and> flight s ''p'' = (\<lambda>_. None))
      \<and> map_option cs_worktree (changeset (changes_of s ''p'')) = Some ''/w''"
proof -
  define s where "s = panel_step (foldl panel_step demo_start demo_events) (EvAnswer 4 ADone)"
  have "reached s" unfolding s_def by (rule reached.step [OF demo_reached]) (simp add: honest_def)
  moreover have "drain (coordinatorFor s ''p'') = None" unfolding s_def by code_simp
  ultimately have "\<not> loading (changes_of s ''p'')
    \<and> (case changeset (changes_of s ''p'') of None \<Rightarrow> True | Some cs \<Rightarrow> worktree_of s ''p'' = Some (cs_worktree cs))
    \<and> flight s ''p'' = (\<lambda>_. None)" by (rule changes_rest_fresh)
  moreover have "map_option cs_worktree (changeset (changes_of s ''p'')) = Some ''/w''" unfolding s_def by code_simp
  ultimately show ?thesis unfolding Let_def s_def [symmetric] by (rule conjI)
qed

text \<open>
  C38. Bursts of refresh requests cost one read at a time and one more afterwards. While a
  refresh of a project's changes waits for an answer, nothing that happens beside it - requests
  and switches in any number, disconnects, answers to other calls - asks the provider for these
  changes, and it stays the only task. Its own answer asks for at most one read, and again leaves
  at most one task. When the answer ends a run, either the work is over, no read is asked, and that
  run was for the latest request and for the worktree and target selected now (unless the
  project was disconnected or removed meanwhile); or the run has become out of date, and
  exactly one more is started, for the latest request, however many there were.
\<close>

theorem refreshes_coalesce:
  fixes a :: answer
  assumes "reached s" and "flight s p i = Some (d, r)"
    and "honest_run s es" and "\<forall>b. EvAnswer i b \<notin> set es"
  defines "s1 \<equiv> foldl panel_step s es"
  defines "s2 \<equiv> panel_step s1 (EvAnswer i a)"
  shows "flight s1 p = [i \<mapsto> (d, r)] \<and> fetches p (outs s1) = fetches p (outs s)
    \<and> fetches p (outs s2) \<le> fetches p (outs s) + 1
    \<and> (if tasks s1 i = Some (TEnd p d r)
       then flight s2 p = Map.empty \<and> fetches p (outs s2) = fetches p (outs s)
              \<and> (isCurrentRun s1 p r \<or> run_lifecycle r < lifecycle (coordinatorFor s1 p))
          \<or> (\<exists>j r'. flight s2 p = [j \<mapsto> (d, r')] \<and> isCurrentRun s2 p r' \<and> \<not> isCurrentRun s1 p r)
       else \<exists>j. flight s2 p = [j \<mapsto> (d, r)])"
proof -
  have inv: "panels_inv s" using assms(1) by (rule reached_inv)
  have tr: "tracked s p" "fresh_ok s" using inv_parts [OF inv] by simp_all
  have d: "drain (coordinatorFor s p) \<noteq> None" and one: "\<forall>j. flight s p j \<noteq> None \<longrightarrow> j = i"
    using tr(1) assms(2) unfolding tracked_def by (metis option.distinct(1))+
  have "quiet p s s1" unfolding s1_def by (rule quiet_run [OF tr(2) d one assms(4)])
  then have same: "flight s1 p = flight s p" "fetches p (outs s1) = fetches p (outs s)"
    using tr(2) d by (simp_all add: quiet_def)
  have alone: "flight s1 p = [i \<mapsto> (d, r)]"
  proof
    have "flight s p j = None" if "j \<noteq> i" for j using one that by blast
    then show "flight s1 p j = [i \<mapsto> (d, r)] j" for j using same(1) assms(2) by (cases "j = i") auto
  qed
  have inv1: "panels_inv s1" unfolding s1_def by (rule reached_inv [OF reached_run [OF assms(1,3)]])
  obtain t where t: "tasks s1 i = Some t" "drain_task p t = Some (d, r)"
    using alone by (auto simp: flight_def fun_eq_iff bind_eq_Some_conv split: if_splits)
  define s0 where "s0 = s1\<lparr>tasks := (tasks s1)(i := None)\<rparr>"
  have l: "landed s0 p d r" unfolding s0_def by (rule take_landed [OF inv1 t])
  then have free: "\<forall>j. flight s0 p j = None" by (simp add: landed_def)
  have s2: "s2 = (case t of
      TResolve q d r \<Rightarrow> on_resolved q d r a s0 | TChanges q d r b bp \<Rightarrow> on_changes q d r b bp a s0
    | TEnd q d r \<Rightarrow> on_end q d r s0 | _ \<Rightarrow> s2)"
    using t(1) by (auto simp: s2_def on_answer_def s0_def Let_def split: task.split)
  have outs0: "outs s0 = outs s1" and cur0: "isCurrentRun s0 = isCurrentRun s1"
    and c0: "coordinatorFor s0 = coordinatorFor s1"
    by (simp_all add: s0_def take_view)
  show ?thesis
  proof (cases "t = TEnd p d r")
    case False
    then have "(\<exists>j. flight s2 p = [j \<mapsto> (d, r)]) \<and> fetches p (outs s2) \<le> fetches p (outs s) + 1"
      using t(2) s2 next_task [OF free] same(2) by (cases t) (auto simp: outs0 split: if_splits)
    with False alone same(2) t(1) show ?thesis by simp
  next
    case True
    then have e: "s2 = on_end p d r s0" using s2 by simp
    show ?thesis
    proof (cases "pendingRun (coordinatorFor s0 p)")
      case True
      then have "s2 = start_run p d s0" by (simp add: e on_end_def)
      moreover have "\<not> isCurrentRun s1 p r" using True l by (auto simp: landed_def isCurrentRun_def c0)
      ultimately show ?thesis
        using start_run_result [OF free, of d] alone same(2) t(1) \<open>t = TEnd p d r\<close> by (auto simp: outs0)
    next
      case False
      have "drain (coordinatorFor s0 p) = Some d" using l by (simp add: landed_def)
      with False have "drain (coordinatorFor s2 p) = None" "flight s2 p = flight s0 p" "outs s2 = outs s0"
        by (auto simp: e on_end_def Let_def)
      moreover from this have "isCurrentRun s1 p r \<or> run_lifecycle r < lifecycle (coordinatorFor s1 p)"
        using on_end_inv(2) [OF l] by (simp add: e [symmetric] cur0 c0)
      ultimately show ?thesis
        using free alone same(2) t(1) \<open>t = TEnd p d r\<close> by (auto simp: outs0 fun_eq_iff)
    qed
  qed
qed

theorem refreshes_coalesce_witness:
  "let s1 = foldl panel_step demo_start (demo_events @ [EvWatch ''p'' [WorkingTree], EvWatch ''p'' [WorkingTree]]);
       s2 = panel_step s1 (EvAnswer 4 ADone)
   in fetches ''p'' (outs s1) = 1 \<and> fetches ''p'' (outs s2) = 2
      \<and> (\<exists>j r'. flight s2 ''p'' = [j \<mapsto> (2, r')] \<and> isCurrentRun s2 ''p'' r')"
proof -
  define s where "s = foldl panel_step demo_start demo_events"
  define es where "es = [EvWatch ''p'' [WorkingTree], EvWatch ''p'' [WorkingTree]]"
  define r where "r = \<lparr>run_lifecycle = 0, run_generation = 1, run_worktree = Some ''/w'', run_target = Head\<rparr>"
  define s1 where "s1 = foldl panel_step s es"
  have 1: "reached s" unfolding s_def by (rule demo_reached)
  have 2: "flight s ''p'' 4 = Some (2, r)" unfolding s_def r_def flight_def by code_simp
  have 3: "honest_run s es" unfolding s_def es_def by code_simp
  have 4: "\<forall>b. EvAnswer 4 b \<notin> set es" by (simp add: es_def)
  have t: "tasks s1 4 = Some (TEnd ''p'' 2 r)" unfolding s1_def s_def es_def r_def by code_simp
  have f: "fetches ''p'' (outs s1) = 1" "fetches ''p'' (outs (panel_step s1 (EvAnswer 4 ADone))) = 2"
    unfolding s1_def s_def es_def by code_simp+
  have "fetches ''p'' (outs s) = 1" unfolding s_def by code_simp
  then have "\<exists>j r'. flight (panel_step s1 (EvAnswer 4 ADone)) ''p'' = [j \<mapsto> (2, r')]
      \<and> isCurrentRun (panel_step s1 (EvAnswer 4 ADone)) ''p'' r'"
    using refreshes_coalesce [OF 1 2 3 4, of ADone] t f unfolding s1_def by auto
  moreover have "s1 = foldl panel_step demo_start (demo_events @ [EvWatch ''p'' [WorkingTree], EvWatch ''p'' [WorkingTree]])"
    by (simp add: s1_def s_def es_def)
  ultimately show ?thesis using f unfolding Let_def by metis
qed

section \<open>What the guards do not cover\<close>

text \<open>
  The load of the work graph has no generation: of two loads under way, the one that is answered
  last wins, even when it was asked first, so the older graph replaces the newer one.
\<close>

definition one_issue :: "string \<Rightarrow> BeadsTaskGraph" where
  "one_issue st = \<lparr>issues = [\<lparr>i_id = ''x'', i_status = st, i_title = ''t'', i_priority = 1, i_type = ''task'',
     i_updated = st, i_rest = 0\<rparr>], deps = []\<rparr>"

lemma older_load_wins:
  "let s = foldl panel_step demo_start
     [EvStatus ''p'' Connected, EvWatch ''p'' [Beads], EvAnswer 1 (APresent True), EvAnswer 2 (APresent True),
      EvAnswer 4 (AGraph (one_issue ''closed'')), EvAnswer 3 (AGraph (one_issue ''open''))]
   in map_option (\<lambda>b. map_option (\<lambda>g. map i_status (issues g)) (graph b)) (beadsStore s ''p'')
      = Some (Some [''open''])"
  by code_simp

text \<open>
  An answer that arrives after the disconnect puts worktrees into the cleared slice, and the
  selection it makes starts a read of the disconnected project.
\<close>

lemma answer_after_disconnect_repopulates:
  "let s = foldl panel_step demo_start
     [EvStatus ''p'' Connected, EvStatus ''p'' Disconnected, EvAnswer 0 (AWorktrees [''/w''])]
   in worktree_of s ''p'' = Some ''/w'' \<and> GetChangeset ''p'' ''/w'' None \<in> set (outs s)"
  by code_simp

text \<open>
  While a read is under way, another selection leaves the diff of the old worktree on show: the
  slice is emptied only when the next run starts.
\<close>

lemma selection_keeps_old_diff:
  "let s = foldl panel_step demo_start
     (demo_events @ [EvAnswer 4 ADone, EvWatch ''p'' [WorkingTree], EvSetWorktree ''p'' ''/v''])
   in worktree_of s ''p'' = Some ''/v''
      \<and> map_option cs_worktree (changeset (changes_of s ''p'')) = Some ''/w''"
  by code_simp

text \<open>Without local storage, a graph that changed drops the selection, the anchor and the pins.\<close>

lemma no_storage_forgets_selection:
  assumes "\<not> storageOk s"
  shows "map_option (\<lambda>b. (selectedId b, focusId b, focusEpicIds b)) (beadsStore (show_graph p g s) p)
    = Some (None, None, [])"
  using assms by (simp add: show_graph_def b_patch_def known_issue_def readFocus_def readFocusSet_def
      writeFocusSet_def writeFocus_def Let_def)

end
