(* ===== verification/MarkdownDiff.thy ===== *)
theory MarkdownDiff
  imports WordDiff JsText
begin

text \<open>
  The block-level diff behind the rendered-markdown view,
  \<open>src/renderer/content/markdownItemDiff.ts\<close>: the units that are extracted from a parsed
  document, their buckets, the alignment of an old and a new document, the classification of
  the new units and the anchors at which removed units are shown.

  The markdown parser (\<open>unified\<close> with \<open>remark\<close>) is the argument \<open>parse\<close>, which returns the
  syntax tree. The generic functions of the source work on any unit with at least the fields
  they read; here they work on every extension of the record \<open>md_unit\<close>. Units are compared by
  object identity in the source, so a pairing refers to a unit by its position in the array it
  was extracted into, and a bucket key is a function of that position, one for each side.
\<close>

section \<open>The syntax tree and the units\<close>

text \<open>A node: its type, its first and last line, \<open>value\<close>, \<open>alt\<close>, \<open>lang\<close>, heading depth and children.\<close>

datatype mdast = Mdast (n_type: string) (n_position: "(nat \<times> nat) option") (n_value: "string option")
    (n_alt: "string option") (n_lang: "string option") (n_depth: nat) (n_children: "mdast list")

record md_unit =
  startLine :: nat
  endLine :: nat
  text_of :: string

record MdListItem = md_unit +
  listStartLine :: nat
  depth :: nat

record MdProseUnit = md_unit +
  kind :: string

type_synonym MdCodeUnit = md_unit

record MdTableRow = md_unit +
  tableStartLine :: nat
  isHeader :: bool
  cells :: "string list"

record MdBlockquoteChild = md_unit +
  blockquoteStartLine :: nat

datatype ItemClassification = Unchanged | Added | Edited

section \<open>Extraction\<close>

definition start_line :: "mdast \<Rightarrow> nat" where
  "start_line n = (case n_position n of None \<Rightarrow> 0 | Some (s, e) \<Rightarrow> s)"

definition end_line :: "mdast \<Rightarrow> nat" where
  "end_line n = (case n_position n of None \<Rightarrow> start_line n | Some (s, e) \<Rightarrow> e)"

fun collectOwnText :: "mdast \<Rightarrow> string list" where
  "collectOwnText (Mdast t p v a l d cs) =
     (if t = ''list'' then []
      else (case v of None \<Rightarrow> [] | Some x \<Rightarrow> [x]) @ (case a of None \<Rightarrow> [] | Some x \<Rightarrow> [x])
        @ concat (map collectOwnText cs))"

text \<open>\<open>text.replace(/\s+/g, ' ').trim()\<close>\<close>

fun collapse_ws :: "string \<Rightarrow> string" where
  "collapse_ws [] = []"
| "collapse_ws (c # s) = (if is_ws c then CHR '' '' # collapse_ws (dropWhile is_ws s) else c # collapse_ws s)"

definition normalizeText :: "string \<Rightarrow> string" where
  "normalizeText s = trim (collapse_ws s)"

definition text_parts :: "mdast list \<Rightarrow> string" where
  "text_parts ns = normalizeText (joinWith '' '' (concat (map collectOwnText ns)))"

definition ownContentEndLine :: "mdast \<Rightarrow> nat \<Rightarrow> nat" where
  "ownContentEndLine item fallback =
     (let e = foldl (\<lambda>e c. if n_type c = ''list'' then e
           else (case n_position c of None \<Rightarrow> e | Some (s, ce) \<Rightarrow> if ce \<noteq> 0 \<and> e < ce then ce else e))
         0 (n_children item)
      in if e = 0 then fallback else e)"

definition list_item :: "nat \<Rightarrow> nat \<Rightarrow> mdast \<Rightarrow> MdListItem" where
  "list_item ls d item = \<lparr>startLine = start_line item, endLine = ownContentEndLine item (start_line item),
     text_of = text_parts (n_children item), listStartLine = ls, depth = d\<rparr>"

text \<open>The nodes below a node are smaller, so the walk through nested lists ends.\<close>

lemma child_smaller: "c \<in> set (n_children n) \<Longrightarrow> size c < size n"
  by (cases n) (auto dest: size_list_estimation' [where f = size, OF _ order_refl])

function collectListItems :: "mdast \<Rightarrow> nat \<Rightarrow> MdListItem list" where
  "collectListItems l d =
     concat (map (\<lambda>item. list_item (start_line l) d item
       # concat (map (\<lambda>c. if n_type c = ''list'' then collectListItems c (d + 1) else []) (n_children item)))
     (n_children l))"
  by pat_completeness auto
termination
  by (relation "measure (size \<circ> fst)") (auto dest!: child_smaller)

declare collectListItems.simps [simp del]

definition extractListItems :: "(string \<Rightarrow> mdast) \<Rightarrow> string \<Rightarrow> MdListItem list" where
  "extractListItems parse source =
     concat (map (\<lambda>n. if n_type n = ''list'' then collectListItems n 0 else []) (n_children (parse source)))"

definition extractProseUnits :: "(string \<Rightarrow> mdast) \<Rightarrow> string \<Rightarrow> MdProseUnit list" where
  "extractProseUnits parse source =
     map (\<lambda>n. \<lparr>startLine = start_line n, endLine = end_line n, text_of = text_parts (n_children n),
         kind = (if n_type n = ''heading'' then CHR ''h'' # showNat (n_depth n) else ''p'')\<rparr>)
       (filter (\<lambda>n. n_type n = ''paragraph'' \<or> n_type n = ''heading'') (n_children (parse source)))"

definition proseKeyOf :: "MdProseUnit \<Rightarrow> string" where
  "proseKeyOf u = kind u"

definition NON_DIFFABLE_CODE_LANGS :: "string list" where
  "NON_DIFFABLE_CODE_LANGS = [''mermaid'', ''dot'', ''graphviz'']"

definition extractCodeUnits :: "(string \<Rightarrow> mdast) \<Rightarrow> string \<Rightarrow> MdCodeUnit list" where
  "extractCodeUnits parse source =
     map (\<lambda>n. \<lparr>startLine = start_line n, endLine = end_line n,
         text_of = normalizeText (case n_value n of None \<Rightarrow> [] | Some v \<Rightarrow> v)\<rparr>)
       (filter (\<lambda>n. n_type n = ''code''
           \<and> (case n_lang n of None \<Rightarrow> True | Some l \<Rightarrow> l \<notin> set NON_DIFFABLE_CODE_LANGS))
         (n_children (parse source)))"

definition codeKeyOf :: "MdCodeUnit \<Rightarrow> string" where
  "codeKeyOf u = ''code''"

definition table_row :: "nat \<Rightarrow> bool \<Rightarrow> mdast \<Rightarrow> MdTableRow" where
  "table_row ts header row =
     (let cs = map (\<lambda>cell. text_parts (n_children cell)) (n_children row)
      in \<lparr>startLine = start_line row, endLine = end_line row, text_of = joinWith [CHR 0x00] cs,
          tableStartLine = ts, isHeader = header, cells = cs\<rparr>)"

definition extractTableRows :: "(string \<Rightarrow> mdast) \<Rightarrow> string \<Rightarrow> MdTableRow list" where
  "extractTableRows parse source =
     concat (map (\<lambda>t. map (\<lambda>(i, row). table_row (start_line t) (i = (0::nat)) row)
         (zip [0..<length (n_children t)] (n_children t)))
       (filter (\<lambda>n. n_type n = ''table'') (n_children (parse source))))"

definition extractBlockquoteChildren :: "(string \<Rightarrow> mdast) \<Rightarrow> string \<Rightarrow> MdBlockquoteChild list" where
  "extractBlockquoteChildren parse source =
     concat (map (\<lambda>b. map (\<lambda>c. \<lparr>startLine = start_line c, endLine = end_line c, text_of = text_parts [c],
           blockquoteStartLine = start_line b\<rparr>)
         (filter (\<lambda>c. n_type c = ''paragraph'' \<or> n_type c = ''heading'') (n_children b)))
       (filter (\<lambda>n. n_type n = ''blockquote'') (n_children (parse source))))"

section \<open>Buckets\<close>

definition bucket_push :: "('x \<Rightarrow> 'k) \<Rightarrow> ('k \<times> 'x list) list \<Rightarrow> 'x \<Rightarrow> ('k \<times> 'x list) list" where
  "bucket_push keyOf bs x =
     omap_set (keyOf x) ((case map_of bs (keyOf x) of None \<Rightarrow> [] | Some b \<Rightarrow> b) @ [x]) bs"

definition bucketByKey :: "'x list \<Rightarrow> ('x \<Rightarrow> 'k) \<Rightarrow> ('k \<times> 'x list) list" where
  "bucketByKey xs keyOf = foldl (bucket_push keyOf) [] xs"

definition bucket :: "('k \<times> 'x list) list \<Rightarrow> 'k \<Rightarrow> 'x list" where
  "bucket bs k = (case map_of bs k of None \<Rightarrow> [] | Some b \<Rightarrow> b)"

definition ordinalsByFirstAppearance :: "'x list \<Rightarrow> ('x \<Rightarrow> 'g) \<Rightarrow> ('g \<times> nat) list" where
  "ordinalsByFirstAppearance items groupOf =
     foldl (\<lambda>m x. if map_of m (groupOf x) = None then omap_set (groupOf x) (length m) m else m) [] items"

definition ordinal_key :: "'x list \<Rightarrow> ('x \<Rightarrow> nat) \<Rightarrow> nat \<Rightarrow> nat" where
  "ordinal_key items groupOf i = the (map_of (ordinalsByFirstAppearance items groupOf) (groupOf (items ! i)))"

definition listKeyOf :: "MdListItem list \<Rightarrow> nat \<Rightarrow> nat" where
  "listKeyOf items = ordinal_key items listStartLine"

definition tableRowKeyOf :: "MdTableRow list \<Rightarrow> nat \<Rightarrow> string" where
  "tableRowKeyOf rows i = showNat (ordinal_key rows tableStartLine i) @ (if isHeader (rows ! i) then '':h'' else '':b'')"

definition blockquoteChildKeyOf :: "MdBlockquoteChild list \<Rightarrow> nat \<Rightarrow> nat" where
  "blockquoteChildKeyOf cs = ordinal_key cs blockquoteStartLine"

section \<open>Alignment\<close>

definition substituteGap :: "nat \<Rightarrow> nat \<Rightarrow> nat \<Rightarrow> nat \<Rightarrow> (nat \<times> nat) list" where
  "substituteGap oc nc oldEnd newEnd = map (\<lambda>k. (oc + k, nc + k)) [0..<min (oldEnd - oc) (newEnd - nc)]"

fun align_loop :: "nat \<Rightarrow> nat \<Rightarrow> (nat \<times> nat) list \<Rightarrow> nat \<Rightarrow> nat \<Rightarrow> (nat \<times> nat) list" where
  "align_loop n m [] oc nc = substituteGap oc nc n m"
| "align_loop n m ((oi, ni) # anchors) oc nc =
     substituteGap oc nc oi ni @ (oi, ni) # align_loop n m anchors (Suc oi) (Suc ni)"

text \<open>
  The pairs that \<open>onMatch\<close> is called with, as positions in the two arrays. The file has a
  \<open>longestCommonSubsequence\<close> of its own (lines 762 to 788), which is that of \<open>wordDiff.ts\<close> with
  the comparison made on the texts of the units; so it is the definition of that name applied to
  the texts.
\<close>

definition alignBucket :: "('a md_unit_scheme) list \<Rightarrow> 'a md_unit_scheme list \<Rightarrow> nat list \<Rightarrow> nat list
    \<Rightarrow> (nat \<times> nat) list" where
  "alignBucket olds news ob nb =
     map (\<lambda>(x, y). (ob ! x, nb ! y))
       (align_loop (length ob) (length nb)
         (longestCommonSubsequence (map (\<lambda>u. text_of (olds ! u)) ob) (map (\<lambda>n. text_of (news ! n)) nb)) 0 0)"

record pairing =
  matches :: "nat option list"
  unmatchedOld :: "nat list"

definition onMatch :: "pairing \<Rightarrow> nat \<times> nat \<Rightarrow> pairing" where
  "onMatch p x = (case x of (u, n) \<Rightarrow>
     \<lparr>matches = (matches p)[n := Some u], unmatchedOld = removeAll u (unmatchedOld p)\<rparr>)"

definition pairUnits :: "'a md_unit_scheme list \<Rightarrow> 'a md_unit_scheme list \<Rightarrow> (nat \<Rightarrow> 'k) \<Rightarrow> (nat \<Rightarrow> 'k) \<Rightarrow> pairing" where
  "pairUnits olds news oldKey newKey =
     (let oldBuckets = bucketByKey [0..<length olds] oldKey;
          newBuckets = bucketByKey [0..<length news] newKey;
          keys = foldl (\<lambda>ks k. oset_add k ks) [] (map fst oldBuckets @ map fst newBuckets)
      in foldl (\<lambda>p k. foldl onMatch p (alignBucket olds news (bucket oldBuckets k) (bucket newBuckets k)))
           \<lparr>matches = replicate (length news) None, unmatchedOld = [0..<length olds]\<rparr> keys)"

definition pairListItems :: "MdListItem list \<Rightarrow> MdListItem list \<Rightarrow> pairing" where
  "pairListItems olds news = pairUnits olds news (listKeyOf olds) (listKeyOf news)"

section \<open>Classification\<close>

definition itemOverlaps :: "nat set \<Rightarrow> nat \<Rightarrow> nat \<Rightarrow> bool" where
  "itemOverlaps changed s e \<longleftrightarrow> s \<noteq> 0 \<and> (\<exists>line\<in>set [s..<Suc e]. line \<in> changed)"

definition classifyUnits :: "'a md_unit_scheme list \<Rightarrow> 'a md_unit_scheme list \<Rightarrow> nat set option
    \<Rightarrow> (nat \<Rightarrow> 'k) \<Rightarrow> (nat \<Rightarrow> 'k) \<Rightarrow> ItemClassification list" where
  "classifyUnits news olds changed oldKey newKey =
     (let p = pairUnits olds news oldKey newKey
      in map (\<lambda>i. case changed of None \<Rightarrow> Unchanged
           | Some ls \<Rightarrow> if \<not> itemOverlaps ls (startLine (news ! i)) (endLine (news ! i)) then Unchanged
               else if matches p ! i \<noteq> None then Edited else Added) [0..<length news])"

definition classifyItems :: "MdListItem list \<Rightarrow> MdListItem list \<Rightarrow> nat set option \<Rightarrow> ItemClassification list" where
  "classifyItems news olds changed = classifyUnits news olds changed (listKeyOf olds) (listKeyOf news)"

section \<open>Ghosts\<close>

record UnitGhostAnchor =
  ghost :: nat
  hostStartLine :: nat
  insertAfterStartLine :: "nat option"

text \<open>The start line of the new unit that an old unit is matched with; the last one written wins.\<close>

definition survivorNewStartLine :: "'a md_unit_scheme list \<Rightarrow> pairing \<Rightarrow> (nat \<times> nat) list" where
  "survivorNewStartLine news p =
     foldl (\<lambda>m i. case matches p ! i of None \<Rightarrow> m | Some u \<Rightarrow> omap_set u (startLine (news ! i)) m)
       [] [0..<length news]"

definition ghost_step :: "(nat \<times> nat) list \<Rightarrow> nat \<Rightarrow> UnitGhostAnchor list \<times> nat option \<Rightarrow> nat
    \<Rightarrow> UnitGhostAnchor list \<times> nat option" where
  "ghost_step surv host w u = (case w of (anchors, preceding) \<Rightarrow>
     (case map_of surv u of
        Some line \<Rightarrow> (anchors, Some line)
      | None \<Rightarrow> (anchors @ [\<lparr>ghost = u, hostStartLine = host, insertAfterStartLine = preceding\<rparr>], preceding)))"

definition bucket_ghosts :: "(nat \<times> nat) list \<Rightarrow> nat list \<Rightarrow> UnitGhostAnchor list" where
  "bucket_ghosts surv b =
     (case List.map_filter (map_of surv) b of
        [] \<Rightarrow> []
      | host # _ \<Rightarrow> fst (foldl (ghost_step surv host) ([], None) b))"

definition resolveGhostAnchorsForUnits :: "'a md_unit_scheme list \<Rightarrow> 'a md_unit_scheme list \<Rightarrow> pairing
    \<Rightarrow> (nat \<Rightarrow> 'k) \<Rightarrow> UnitGhostAnchor list" where
  "resolveGhostAnchorsForUnits olds news p bucketOf =
     (if unmatchedOld p = [] then []
      else concat (map (\<lambda>(k, b). bucket_ghosts (survivorNewStartLine news p) b)
        (bucketByKey [0..<length olds] bucketOf)))"

definition resolveGhostAnchors :: "MdListItem list \<Rightarrow> MdListItem list \<Rightarrow> pairing
    \<Rightarrow> (string \<times> nat \<times> nat option) list" where
  "resolveGhostAnchors olds news p =
     map (\<lambda>a. (text_of (olds ! ghost a), hostStartLine a, insertAfterStartLine a))
       (resolveGhostAnchorsForUnits olds news p (\<lambda>u. listStartLine (olds ! u)))"

section \<open>Bucket lemmas\<close>

lemma bucket_snoc: "bucketByKey (xs @ [x]) f = bucket_push f (bucketByKey xs f) x"
  by (simp add: bucketByKey_def)

lemma bucket_map: "map_of (bucketByKey xs f) k = (let b = filter (\<lambda>x. f x = k) xs in if b = [] then None else Some b)"
proof (induction xs rule: rev_induct)
  case Nil
  then show ?case by (simp add: bucketByKey_def)
next
  case (snoc x xs)
  then show ?case by (auto simp: bucket_snoc bucket_push_def omap_simps Let_def split: option.splits if_splits)
qed

lemma bucket_filter [simp]: "bucket (bucketByKey xs f) k = filter (\<lambda>x. f x = k) xs"
  by (simp add: bucket_def bucket_map Let_def)

lemma bucket_keys: "fst ` set (bucketByKey xs f) = f ` set xs"
proof (induction xs rule: rev_induct)
  case Nil
  then show ?case by (simp add: bucketByKey_def)
qed (auto simp: bucket_snoc bucket_push_def omap_simps)

lemma bucket_distinct: "distinct (map fst (bucketByKey xs f))"
proof (induction xs rule: rev_induct)
  case Nil
  then show ?case by (simp add: bucketByKey_def)
qed (simp add: bucket_snoc bucket_push_def omap_simps)

lemma bucket_member: "(k, b) \<in> set (bucketByKey xs f) \<Longrightarrow> b = filter (\<lambda>x. f x = k) xs \<and> b \<noteq> []"
  using bucket_map [of xs f k] map_of_is_SomeI [OF bucket_distinct] by (fastforce simp: Let_def split: if_splits)

lemma oset_fold: "set (foldl (\<lambda>ks k. oset_add k ks) ks0 xs) = set ks0 \<union> set xs
    \<and> (distinct ks0 \<longrightarrow> distinct (foldl (\<lambda>ks k. oset_add k ks) ks0 xs))"
  by (induction xs arbitrary: ks0) auto

section \<open>Alignment lemmas\<close>

text \<open>Pairs that ascend on both sides.\<close>

definition ascending :: "(nat \<times> nat) list \<Rightarrow> bool" where
  "ascending ps \<longleftrightarrow> sorted_wrt (\<lambda>x y. fst x < fst y \<and> snd x < snd y) ps"

lemma gap_member: "(x, y) \<in> set (substituteGap oc nc oe ne) \<Longrightarrow> oc \<le> x \<and> x < oe \<and> nc \<le> y \<and> y < ne"
  by (auto simp: substituteGap_def)

lemma gap_ascending: "ascending (substituteGap oc nc oe ne)"
  by (auto simp: ascending_def substituteGap_def sorted_wrt_iff_nth_less)

lemma align_range:
  "anchors_ok a b oc nc anchors \<Longrightarrow> (x, y) \<in> set (align_loop (length a) (length b) anchors oc nc)
     \<Longrightarrow> oc \<le> x \<and> x < length a \<and> nc \<le> y \<and> y < length b"
proof (induction anchors arbitrary: oc nc)
  case (Cons p anchors)
  then show ?case by (cases p) (fastforce dest: gap_member)
qed (auto dest: gap_member)

lemma align_ascending:
  "anchors_ok a b oc nc anchors \<Longrightarrow> ascending (align_loop (length a) (length b) anchors oc nc)"
proof (induction anchors arbitrary: oc nc)
  case Nil
  then show ?case by (simp add: gap_ascending)
next
  case (Cons p anchors)
  obtain oi ni where p: "p = (oi, ni)" by (cases p)
  with Cons.prems have ok: "anchors_ok a b (Suc oi) (Suc ni) anchors" by simp
  have "ascending (align_loop (length a) (length b) anchors (Suc oi) (Suc ni))" using Cons.IH [OF ok] .
  moreover have "oi < x \<and> ni < y" if "(x, y) \<in> set (align_loop (length a) (length b) anchors (Suc oi) (Suc ni))" for x y
    using align_range [OF ok that] by simp
  moreover have "ascending (substituteGap oc nc oi ni)" by (rule gap_ascending)
  ultimately show ?case unfolding p ascending_def
    by (fastforce simp: sorted_wrt_append dest: gap_member)
qed

lemma anchors_in_align: "set anchors \<subseteq> set (align_loop n m anchors oc nc)"
  by (induction n m anchors oc nc rule: align_loop.induct) auto

lemma subseq_positions: "sorted_wrt (<) xs \<Longrightarrow> list_all (\<lambda>x. x < n) xs \<Longrightarrow> n \<le> length a
    \<Longrightarrow> subseq (map (nth a) xs) (take n a)"
proof (induction xs arbitrary: n rule: rev_induct)
  case (snoc x xs)
  then have "list_all (\<lambda>y. y < x) xs" by (auto simp: sorted_wrt_append list_all_iff)
  with snoc have "subseq (map (nth a) xs) (take x a)" by (simp add: sorted_wrt_append)
  then have "subseq (map (nth a) xs @ [a ! x]) (take (Suc x) a)"
    using snoc.prems by (simp add: take_Suc_conv_app_nth)
  moreover have "subseq (take (Suc x) a) (take n a)"
  proof -
    have "take n a = take (Suc x) a @ drop (Suc x) (take n a)"
      using snoc.prems by (metis append_take_drop_id list_all_append list.pred_inject(2) min.absorb1 Suc_leI take_take)
    then show ?thesis by (metis subseq_rev_drop_many subseq_order.refl)
  qed
  ultimately show ?case by (metis (no_types, lifting) list.simps(8,9) map_append subseq_order.trans)
qed simp

definition lcs_pairs :: "'t list \<Rightarrow> 't list \<Rightarrow> (nat \<times> nat) list" where
  "lcs_pairs a b = align_loop (length a) (length b) (longestCommonSubsequence a b) 0 0"

lemma lcs_anchors: "anchors_ok a b 0 0 (longestCommonSubsequence a b)"
  unfolding longestCommonSubsequence_def by (rule backtrack_ok)

lemmas lcs_pairs_range = align_range [OF lcs_anchors, folded lcs_pairs_def]
lemmas lcs_pairs_ascending = align_ascending [OF lcs_anchors, folded lcs_pairs_def]

lemma ascending_sides: "ascending ps \<Longrightarrow> sorted_wrt (<) (map fst ps) \<and> sorted_wrt (<) (map snd ps)"
  unfolding ascending_def sorted_wrt_map by (auto elim: sorted_wrt_mono_rel [rotated])

lemma ascending_filter: "ascending ps \<Longrightarrow> ascending (filter P ps)"
  unfolding ascending_def by (rule sorted_wrt_filter)

lemma ascending_distinct: "ascending ps \<Longrightarrow> distinct ps"
  using ascending_sides [of ps] by (metis distinct_map strict_sorted_iff)

lemma anchors_equal_texts: "anchors_ok a b i j ps \<Longrightarrow> (x, y) \<in> set ps \<Longrightarrow> a ! x = b ! y"
proof (induction ps arbitrary: i j)
  case (Cons p ps)
  then show ?case by (cases p) auto
qed simp

lemma anchors_ascending: "anchors_ok a b i j ps \<Longrightarrow> ascending ps \<and> (\<forall>(x, y)\<in>set ps. i \<le> x \<and> j \<le> y)"
proof (induction ps arbitrary: i j)
  case (Cons p ps)
  then show ?case by (cases p) (fastforce simp: ascending_def)
qed (simp add: ascending_def)

text \<open>The pairs with equal texts are as many as a longest common subsequence has.\<close>

lemma equal_pairs_count: "length (filter (\<lambda>(x, y). a ! x = b ! y) (lcs_pairs a b)) = lcs a b"
proof (rule antisym)
  define ps where "ps = filter (\<lambda>(x, y). a ! x = b ! y) (lcs_pairs a b)"
  have asc: "ascending ps" unfolding ps_def by (rule ascending_filter [OF lcs_pairs_ascending])
  have r: "x < length a \<and> y < length b \<and> a ! x = b ! y" if "(x, y) \<in> set ps" for x y
    using that lcs_pairs_range [of x y a b] by (auto simp: ps_def)
  have 1: "subseq (map (nth a) (map fst ps)) (take (length a) a)"
    by (rule subseq_positions) (use ascending_sides [OF asc] r in \<open>auto simp: list_all_iff\<close>)
  have 2: "subseq (map (nth b) (map snd ps)) (take (length b) b)"
    by (rule subseq_positions) (use ascending_sides [OF asc] r in \<open>auto simp: list_all_iff\<close>)
  have eq: "map (nth b) (map snd ps) = map (nth a) (map fst ps)" using r by auto
  have "length (map (nth a) (map fst ps)) \<le> lcs a b"
    by (rule lcs_max) (use 1 2 in \<open>simp_all only: eq take_all order_refl\<close>)
  then show "length ps \<le> lcs a b" by simp
next
  have len: "length (longestCommonSubsequence a b) = lcs a b"
    using backtrack_length [of 0 a 0 b] by (simp add: longestCommonSubsequence_def)
  have "set (longestCommonSubsequence a b) \<subseteq> set (filter (\<lambda>(x, y). a ! x = b ! y) (lcs_pairs a b))"
    using anchors_in_align [of "longestCommonSubsequence a b" "length a" "length b" 0 0]
      anchors_equal_texts [OF lcs_anchors] by (auto simp: lcs_pairs_def)
  moreover have "distinct (longestCommonSubsequence a b)"
    using anchors_ascending [OF lcs_anchors] ascending_distinct by blast
  ultimately show "lcs a b \<le> length (filter (\<lambda>(x, y). a ! x = b ! y) (lcs_pairs a b))"
    by (metis len card_mono distinct_card card_length finite_set order.trans)
qed

text \<open>Between leftovers of both sides there is an anchor.\<close>

lemma gap_full:
  assumes "oc \<le> x" "x < oe" "nc \<le> y" "y < ne"
  shows "x \<in> fst ` set (substituteGap oc nc oe ne) \<or> y \<in> snd ` set (substituteGap oc nc oe ne)"
proof -
  have f: "fst ` set (substituteGap oc nc oe ne) = (\<lambda>k. oc + k) ` {0..<min (oe - oc) (ne - nc)}"
    "snd ` set (substituteGap oc nc oe ne) = (\<lambda>k. nc + k) ` {0..<min (oe - oc) (ne - nc)}"
    by (auto simp: substituteGap_def image_image)
  have "x - oc < min (oe - oc) (ne - nc) \<or> y - nc < min (oe - oc) (ne - nc)" using assms by linarith
  then show ?thesis unfolding f using assms by (auto simp: image_iff intro: bexI [of _ "x - oc"] bexI [of _ "y - nc"])
qed

lemma leftovers_separated:
  assumes "oc \<le> x" "x < n" "nc \<le> y" "y < m"
    and "x \<notin> fst ` set (align_loop n m anchors oc nc)" and "y \<notin> snd ` set (align_loop n m anchors oc nc)"
  shows "\<exists>(oi, ni)\<in>set anchors. (x < oi \<and> ni < y) \<or> (oi < x \<and> y < ni)"
  using assms
proof (induction anchors arbitrary: oc nc)
  case Nil
  then show ?case using gap_full [of oc x n nc y m] by auto
next
  case (Cons p anchors)
  obtain oi ni where p: "p = (oi, ni)" by (cases p)
  have out: "x \<noteq> oi" "y \<noteq> ni" using Cons.prems(5,6) by (auto simp: p)
  have gap: "\<not> (x < oi \<and> y < ni)"
    using gap_full [of oc x oi nc y ni] Cons.prems by (auto simp: p)
  consider "x < oi \<and> ni < y" | "oi < x \<and> y < ni" | "oi < x \<and> ni < y" using out gap by linarith
  then show ?case
  proof cases
    case 3
    have "\<exists>(oi, ni)\<in>set anchors. (x < oi \<and> ni < y) \<or> (oi < x \<and> y < ni)"
      by (rule Cons.IH [of "Suc oi" "Suc ni"]) (use 3 Cons.prems in \<open>auto simp: p\<close>)
    then show ?thesis by auto
  qed (auto simp: p)
qed

section \<open>Pairing lemmas\<close>

definition old_of :: "'a list \<Rightarrow> (nat \<Rightarrow> 'k) \<Rightarrow> 'k \<Rightarrow> nat list" where
  "old_of us key k = filter (\<lambda>u. key u = k) [0..<length us]"

lemma old_of_member: "u \<in> set (old_of us key k) \<longleftrightarrow> u < length us \<and> key u = k"
  by (auto simp: old_of_def)

lemma old_of_sorted: "sorted_wrt (<) (old_of us key k)"
  by (simp add: old_of_def sorted_wrt_filter)

definition texts :: "'a md_unit_scheme list \<Rightarrow> nat list \<Rightarrow> string list" where
  "texts us is = map (\<lambda>i. text_of (us ! i)) is"

definition bucket_pairs where
  "bucket_pairs olds news ok nk k = alignBucket olds news (old_of olds ok k) (old_of news nk k)"

lemma bucket_pairs_lcs: "bucket_pairs olds news ok nk k =
    map (\<lambda>(x, y). (old_of olds ok k ! x, old_of news nk k ! y))
      (lcs_pairs (texts olds (old_of olds ok k)) (texts news (old_of news nk k)))"
  by (simp add: bucket_pairs_def alignBucket_def lcs_pairs_def texts_def)

lemma bucket_pairs_range: "(u, i) \<in> set (bucket_pairs olds news ok nk k) \<Longrightarrow>
    u < length olds \<and> ok u = k \<and> i < length news \<and> nk i = k"
proof -
  assume "(u, i) \<in> set (bucket_pairs olds news ok nk k)"
  then obtain x y where "u = old_of olds ok k ! x" "i = old_of news nk k ! y"
    "x < length (old_of olds ok k)" "y < length (old_of news nk k)"
    by (auto simp: bucket_pairs_lcs texts_def dest!: lcs_pairs_range)
  then have "u \<in> set (old_of olds ok k)" "i \<in> set (old_of news nk k)" by (simp_all only: nth_mem)
  then show ?thesis by (simp add: old_of_member)
qed

lemma bucket_pairs_ascending: "ascending (bucket_pairs olds news ok nk k)"
proof -
  let ?a = "texts olds (old_of olds ok k)" and ?b = "texts news (old_of news nk k)"
  have r: "x < length (old_of olds ok k) \<and> y < length (old_of news nk k)" if "(x, y) \<in> set (lcs_pairs ?a ?b)" for x y
    using lcs_pairs_range [OF that] by (simp add: texts_def)
  show ?thesis
    unfolding bucket_pairs_lcs ascending_def sorted_wrt_map
    by (rule sorted_wrt_mono_rel [OF _ lcs_pairs_ascending [unfolded ascending_def]])
      (auto dest!: r intro!: sorted_wrt_nth_less [OF old_of_sorted])
qed

lemma fold_nested: "foldl (\<lambda>p k. foldl g p (f k)) z ks = foldl g z (concat (map f ks))"
  by (induction ks arbitrary: z) simp_all

lemma on_match_fold:
  fixes xs :: "nat list" and n :: nat
  assumes "distinct (map snd ps)" and "\<forall>(u, i)\<in>set ps. i < n"
  defines "p \<equiv> foldl onMatch \<lparr>matches = replicate n None, unmatchedOld = xs\<rparr> ps"
  shows "length (matches p) = n" and "i < n \<Longrightarrow> matches p ! i = Some u \<longleftrightarrow> (u, i) \<in> set ps"
    and "unmatchedOld p = filter (\<lambda>u. u \<notin> fst ` set ps) xs"
  using assms(1,2) unfolding p_def
proof (induction ps arbitrary: i u rule: rev_induct)
  case (snoc x ps)
  obtain v j where x: "x = (v, j)" by (cases x)
  { case 1 with snoc show ?case by (simp add: x onMatch_def) }
  { case 2 with snoc show ?case by (auto simp: x onMatch_def nth_list_update) (force)+ }
  { case 3 with snoc show ?case by (auto simp: x onMatch_def removeAll_filter_not_eq intro!: filter_cong) }
qed simp_all

lemma pairUnits_facts:
  fixes olds news :: "'a md_unit_scheme list" and ok nk :: "nat \<Rightarrow> 'k"
  defines "p \<equiv> pairUnits olds news ok nk"
  shows "length (matches p) = length news"
    and "i < length news \<Longrightarrow> matches p ! i = Some u \<longleftrightarrow> (u, i) \<in> set (bucket_pairs olds news ok nk (nk i))"
    and "unmatchedOld p = filter (\<lambda>u. u \<notin> fst ` set (bucket_pairs olds news ok nk (ok u))) [0..<length olds]"
proof -
  define keys where "keys = foldl (\<lambda>ks k. oset_add k ks) []
    (map fst (bucketByKey [0..<length olds] ok) @ map fst (bucketByKey [0..<length news] nk))"
  define ps where "ps = concat (map (bucket_pairs olds news ok nk) keys)"
  have keys: "set keys = ok ` {0..<length olds} \<union> nk ` {0..<length news}" "distinct keys"
    using oset_fold [of "[]" "map fst (bucketByKey [0..<length olds] ok) @ map fst (bucketByKey [0..<length news] nk)"]
    by (simp_all add: keys_def bucket_keys)
  have p: "p = foldl onMatch \<lparr>matches = replicate (length news) None, unmatchedOld = [0..<length olds]\<rparr> ps"
    unfolding p_def pairUnits_def Let_def bucket_filter fold_nested ps_def keys_def bucket_pairs_def old_of_def ..
  have mem: "(u, i) \<in> set ps \<longleftrightarrow> (u, i) \<in> set (bucket_pairs olds news ok nk (nk i))" for u i
    using bucket_pairs_range [of u i olds news ok nk] keys(1) by (auto simp: ps_def)
  have snds: "map snd ps = concat (map (\<lambda>k. map snd (bucket_pairs olds news ok nk k)) keys)"
    by (simp add: ps_def map_concat comp_def)
  have d: "distinct (map snd ps)" unfolding snds
  proof (rule distinct_concat_map [OF keys(2)])
    show "distinct (map snd (bucket_pairs olds news ok nk k))" for k
      using ascending_sides [OF bucket_pairs_ascending, of olds news ok nk k] by (simp add: strict_sorted_iff)
    show "set (map snd (bucket_pairs olds news ok nk j)) \<inter> set (map snd (bucket_pairs olds news ok nk k)) = {}"
      if "j \<noteq> k" for j k
    proof -
      have "nk i = k" if m: "i \<in> set (map snd (bucket_pairs olds news ok nk k))" for i k
      proof -
        obtain u where "(u, i) \<in> set (bucket_pairs olds news ok nk k)" using m by auto
        from bucket_pairs_range [OF this] show ?thesis by simp
      qed
      then show ?thesis using that by blast
    qed
  qed
  have r: "\<forall>(u, i)\<in>set ps. i < length news"
  proof clarify
    fix u i assume "(u, i) \<in> set ps"
    from bucket_pairs_range [OF this [unfolded mem]] show "i < length news" by simp
  qed
  note f = on_match_fold [OF d r, where xs = "[0..<length olds]", folded p]
  show "length (matches p) = length news" by (rule f(1))
  show "i < length news \<Longrightarrow> matches p ! i = Some u \<longleftrightarrow> (u, i) \<in> set (bucket_pairs olds news ok nk (nk i))"
    using f(2) mem by simp
  have "u \<in> fst ` set ps \<longleftrightarrow> u \<in> fst ` set (bucket_pairs olds news ok nk (ok u))" for u
  proof
    assume "u \<in> fst ` set ps"
    then obtain i where i: "(u, i) \<in> set (bucket_pairs olds news ok nk (nk i))" using mem by force
    then have "nk i = ok u" using bucket_pairs_range [OF i] by simp
    with i show "u \<in> fst ` set (bucket_pairs olds news ok nk (ok u))" by force
  next
    assume "u \<in> fst ` set (bucket_pairs olds news ok nk (ok u))"
    then obtain i where i: "(u, i) \<in> set (bucket_pairs olds news ok nk (ok u))" by force
    then have "nk i = ok u" using bucket_pairs_range [OF i] by simp
    with i have "(u, i) \<in> set ps" unfolding mem by simp
    then show "u \<in> fst ` set ps" by force
  qed
  then show "unmatchedOld p = filter (\<lambda>u. u \<notin> fst ` set (bucket_pairs olds news ok nk (ok u))) [0..<length olds]"
    by (simp add: f(3))
qed

lemma matched_pair:
  "i < length news \<Longrightarrow> matches (pairUnits olds news ok nk) ! i = Some u \<longleftrightarrow>
     (u, i) \<in> set (bucket_pairs olds news ok nk (nk i))"
  by (rule pairUnits_facts(2))

lemma pair_matched:
  assumes "(u, i) \<in> set (bucket_pairs olds news ok nk k)"
  shows "i < length news \<and> nk i = k \<and> matches (pairUnits olds news ok nk) ! i = Some u"
proof -
  have i: "i < length news" "nk i = k" using bucket_pairs_range [OF assms] by simp_all
  show ?thesis using matched_pair [OF i(1), of olds ok nk u] assms i by simp
qed

lemma matched_range:
  assumes "i < length news" "matches (pairUnits olds news ok nk) ! i = Some u"
  shows "u < length olds \<and> ok u = nk i"
proof -
  have "(u, i) \<in> set (bucket_pairs olds news ok nk (nk i))"
    using assms(2) matched_pair [OF assms(1), of olds ok nk u] by simp
  from bucket_pairs_range [OF this] show ?thesis by simp
qed

lemma matched_order:
  assumes "i < j" "j < length news" "nk i = nk j"
    and "matches (pairUnits olds news ok nk) ! i = Some u" "matches (pairUnits olds news ok nk) ! j = Some v"
  shows "u < v"
proof -
  let ?ps = "bucket_pairs olds news ok nk (nk j)"
  have i: "i < length news" using assms(1,2) by simp
  have m: "(u, i) \<in> set ?ps" using assms(4) unfolding matched_pair [OF i] assms(3) .
  have n: "(v, j) \<in> set ?ps" using assms(5) unfolding matched_pair [OF assms(2)] .
  from m n obtain a b where ab: "a < length ?ps" "?ps ! a = (u, i)" "b < length ?ps" "?ps ! b = (v, j)"
    by (metis in_set_conv_nth)
  note s = bucket_pairs_ascending [of olds news ok nk "nk j", unfolded ascending_def]
  have "\<not> b < a" "a \<noteq> b"
    using sorted_wrt_nth_less [OF s, of b a] ab assms(1) by auto
  then show ?thesis using sorted_wrt_nth_less [OF s, of a b] ab by simp
qed

lemma matched_unique:
  assumes "i < length news" "j < length news"
    and "matches (pairUnits olds news ok nk) ! i = Some u" "matches (pairUnits olds news ok nk) ! j = Some u"
  shows "i = j"
proof (rule ccontr)
  assume "i \<noteq> j"
  moreover have "nk i = nk j" using matched_range [OF assms(1,3)] matched_range [OF assms(2,4)] by simp
  ultimately show False
    using matched_order [of i j news nk olds ok u u] matched_order [of j i news nk olds ok u u] assms by fastforce
qed

lemma unmatched_left:
  "unmatchedOld (pairUnits olds news ok nk) =
     filter (\<lambda>u. Some u \<notin> set (matches (pairUnits olds news ok nk))) [0..<length olds]"
proof -
  have "u \<in> fst ` set (bucket_pairs olds news ok nk (ok u)) \<longleftrightarrow> Some u \<in> set (matches (pairUnits olds news ok nk))" for u
  proof
    assume "u \<in> fst ` set (bucket_pairs olds news ok nk (ok u))"
    then obtain i where "(u, i) \<in> set (bucket_pairs olds news ok nk (ok u))" by force
    from pair_matched [OF this] show "Some u \<in> set (matches (pairUnits olds news ok nk))"
      by (metis nth_mem pairUnits_facts(1))
  next
    assume "Some u \<in> set (matches (pairUnits olds news ok nk))"
    then obtain i where i: "i < length news" "matches (pairUnits olds news ok nk) ! i = Some u"
      by (metis in_set_conv_nth pairUnits_facts(1))
    then have "(u, i) \<in> set (bucket_pairs olds news ok nk (ok u))"
      using matched_pair [OF i(1)] matched_range [OF i] by metis
    then show "u \<in> fst ` set (bucket_pairs olds news ok nk (ok u))" by force
  qed
  then show ?thesis by (simp add: pairUnits_facts(3))
qed

text \<open>The units of a container that keep their text.\<close>

definition kept :: "'a md_unit_scheme list \<Rightarrow> 'a md_unit_scheme list \<Rightarrow> pairing \<Rightarrow> nat \<Rightarrow> bool" where
  "kept olds news p i = (case matches p ! i of None \<Rightarrow> False | Some u \<Rightarrow> text_of (olds ! u) = text_of (news ! i))"

lemma kept_count:
  "length (filter (kept olds news (pairUnits olds news ok nk)) (old_of news nk k))
    = lcs (texts olds (old_of olds ok k)) (texts news (old_of news nk k))"
proof -
  let ?a = "texts olds (old_of olds ok k)" and ?b = "texts news (old_of news nk k)"
  let ?ps = "bucket_pairs olds news ok nk k"
  define eq where "eq = (\<lambda>(u, i). text_of (olds ! u) = text_of (news ! i))"
  have "kept olds news (pairUnits olds news ok nk) i \<longleftrightarrow> i \<in> snd ` set (filter eq ?ps)"
    if "i \<in> set (old_of news nk k)" for i
  proof -
    have i: "i < length news" "nk i = k" using that by (simp_all add: old_of_member)
    have m: "(u, i) \<in> set ?ps \<longleftrightarrow> matches (pairUnits olds news ok nk) ! i = Some u" for u
      using matched_pair [OF i(1), of olds ok nk, unfolded i(2)] by simp
    have "i \<in> snd ` set (filter eq ?ps) \<longleftrightarrow> (\<exists>u. (u, i) \<in> set ?ps \<and> eq (u, i))" by force
    then show ?thesis unfolding m by (simp add: kept_def eq_def split: option.splits)
  qed
  moreover have "snd ` set (filter eq ?ps) \<subseteq> set (old_of news nk k)"
    by (clarsimp simp: old_of_member) (drule bucket_pairs_range, simp)
  ultimately have "set (filter (kept olds news (pairUnits olds news ok nk)) (old_of news nk k)) = snd ` set (filter eq ?ps)"
    unfolding set_filter [of _ "old_of news nk k"] by blast
  moreover have "distinct (filter (kept olds news (pairUnits olds news ok nk)) (old_of news nk k))"
    by (simp add: old_of_def)
  moreover have "distinct (map snd (filter eq ?ps))"
    using ascending_sides [OF ascending_filter [OF bucket_pairs_ascending [of olds news ok nk k], of eq]]
    by (simp add: strict_sorted_iff)
  ultimately have "length (filter (kept olds news (pairUnits olds news ok nk)) (old_of news nk k)) = length (filter eq ?ps)"
    by (metis distinct_card length_map set_map)
  also have "filter eq ?ps = map (\<lambda>(x, y). (old_of olds ok k ! x, old_of news nk k ! y))
      (filter (\<lambda>(x, y). ?a ! x = ?b ! y) (lcs_pairs ?a ?b))"
    unfolding bucket_pairs_lcs filter_map comp_def
    by (rule arg_cong [of _ _ "map _"], rule filter_cong [OF refl]) (auto simp: eq_def texts_def dest!: lcs_pairs_range)
  finally show ?thesis by (simp add: equal_pairs_count)
qed

lemma leftovers_apart:
  assumes u: "u < length olds" "ok u = nk i" "Some u \<notin> set (matches (pairUnits olds news ok nk))"
    and i: "i < length news" "matches (pairUnits olds news ok nk) ! i = None"
  shows "\<exists>v j. j < length news \<and> nk j = nk i \<and> matches (pairUnits olds news ok nk) ! j = Some v
    \<and> text_of (olds ! v) = text_of (news ! j) \<and> (u < v \<and> j < i \<or> v < u \<and> i < j)"
proof -
  let ?k = "nk i"
  let ?ob = "old_of olds ok ?k" and ?nb = "old_of news nk ?k"
  let ?a = "texts olds ?ob" and ?b = "texts news ?nb"
  obtain x where x: "x < length ?ob" "?ob ! x = u" using u(1,2) old_of_member [of u olds ok ?k] by (metis in_set_conv_nth)
  obtain y where y: "y < length ?nb" "?nb ! y = i" using i(1) old_of_member [of i news nk ?k] by (metis in_set_conv_nth)
  have bp: "(?ob ! a, ?nb ! b) \<in> set (bucket_pairs olds news ok nk ?k)" if "(a, b) \<in> set (lcs_pairs ?a ?b)" for a b
    using that by (force simp: bucket_pairs_lcs)
  have "x \<notin> fst ` set (lcs_pairs ?a ?b)"
  proof
    assume "x \<in> fst ` set (lcs_pairs ?a ?b)"
    then obtain b where "(x, b) \<in> set (lcs_pairs ?a ?b)" by force
    from pair_matched [OF bp [OF this]] show False using u(3) x(2) by (metis nth_mem pairUnits_facts(1))
  qed
  moreover have "y \<notin> snd ` set (lcs_pairs ?a ?b)"
  proof
    assume "y \<in> snd ` set (lcs_pairs ?a ?b)"
    then obtain a where "(a, y) \<in> set (lcs_pairs ?a ?b)" by force
    from pair_matched [OF bp [OF this]] show False using i(2) y(2) by simp
  qed
  ultimately obtain oi ni where an: "(oi, ni) \<in> set (longestCommonSubsequence ?a ?b)"
    "x < oi \<and> ni < y \<or> oi < x \<and> y < ni"
    using leftovers_separated [of 0 x "length ?a" 0 y "length ?b" "longestCommonSubsequence ?a ?b"] x(1) y(1)
    by (auto simp: lcs_pairs_def texts_def)
  have l: "(oi, ni) \<in> set (lcs_pairs ?a ?b)" using an(1) anchors_in_align by (fastforce simp: lcs_pairs_def)
  have r: "oi < length ?ob" "ni < length ?nb" using lcs_pairs_range [OF l] by (simp_all add: texts_def)
  have "?a ! oi = ?b ! ni" using anchors_equal_texts [OF lcs_anchors an(1)] .
  then have "text_of (olds ! (?ob ! oi)) = text_of (news ! (?nb ! ni))" using r by (simp add: texts_def)
  moreover have "u < ?ob ! oi \<and> ?nb ! ni < i \<or> ?ob ! oi < u \<and> i < ?nb ! ni"
    using an(2) r x y sorted_wrt_nth_less [OF old_of_sorted] by metis
  ultimately show ?thesis using pair_matched [OF bp [OF l]] by blast
qed

section \<open>Ghost lemmas\<close>

lemma survivor_line:
  fixes news :: "'a md_unit_scheme list"
  assumes unique: "\<And>i j u. i < length news \<Longrightarrow> j < length news \<Longrightarrow> matches p ! i = Some u \<Longrightarrow> matches p ! j = Some u \<Longrightarrow> i = j"
  shows "map_of (survivorNewStartLine news p) u = Some l \<longleftrightarrow>
    (\<exists>i<length news. matches p ! i = Some u \<and> l = startLine (news ! i))"
proof -
  have "map_of (foldl (\<lambda>m i. case matches p ! i of None \<Rightarrow> m | Some u \<Rightarrow> omap_set u (startLine (news ! i)) m) [] [0..<n]) u = Some l
      \<longleftrightarrow> (\<exists>i<n. matches p ! i = Some u \<and> l = startLine (news ! i))" if "n \<le> length news" for n
    using that
  proof (induction n)
    case (Suc n)
    have fresh: "\<not> (\<exists>i<n. matches p ! i = Some v)" if v: "matches p ! n = Some v" for v
    proof clarify
      fix i assume "i < n" "matches p ! i = Some v"
      then show False using unique [of i n v] v Suc.prems by simp
    qed
    show ?case
    proof (cases "matches p ! n")
      case None
      with Suc show ?thesis by (auto simp: less_Suc_eq)
    next
      case (Some v)
      with Suc fresh [OF Some] show ?thesis by (auto simp: less_Suc_eq omap_simps)
    qed
  qed simp
  then show ?thesis by (simp add: survivorNewStartLine_def)
qed

fun ghosts_from :: "(nat \<times> nat) list \<Rightarrow> nat \<Rightarrow> nat option \<Rightarrow> nat list \<Rightarrow> UnitGhostAnchor list" where
  "ghosts_from surv host pre [] = []"
| "ghosts_from surv host pre (u # us) = (case map_of surv u of
     Some line \<Rightarrow> ghosts_from surv host (Some line) us
   | None \<Rightarrow> \<lparr>ghost = u, hostStartLine = host, insertAfterStartLine = pre\<rparr> # ghosts_from surv host pre us)"

lemma ghost_fold: "fst (foldl (ghost_step surv host) (acc, pre) us) = acc @ ghosts_from surv host pre us"
  by (induction us arbitrary: acc pre) (simp_all add: ghost_step_def split: option.splits)

text \<open>The removed units that are shown right after a start line, or at the head of the container.\<close>

definition shown_after :: "UnitGhostAnchor list \<Rightarrow> nat option \<Rightarrow> nat list" where
  "shown_after gs line = map ghost (filter (\<lambda>a. insertAfterStartLine a = line) gs)"

text \<open>
  The old units that a reader of the rendered container sees, top down: removed units where
  their anchors put them, and each new unit for the old one it is paired with.
\<close>

definition old_seen :: "UnitGhostAnchor list \<Rightarrow> (nat \<times> nat option) list \<Rightarrow> nat list" where
  "old_seen gs ns = shown_after gs None
     @ concat (map (\<lambda>(line, m). (case m of None \<Rightarrow> [] | Some u \<Rightarrow> [u]) @ shown_after gs (Some line)) ns)"

lemma shown_after_Nil [simp]: "shown_after [] l = []"
  by (simp add: shown_after_def)

lemma shown_after_other: "l \<noteq> pre \<Longrightarrow> (\<And>u line. u \<in> set us \<Longrightarrow> map_of surv u = Some line \<Longrightarrow> l \<noteq> Some line)
    \<Longrightarrow> shown_after (ghosts_from surv host pre us) l = []"
proof (induction us arbitrary: pre)
  case (Cons u us)
  show ?case
  proof (cases "map_of surv u")
    case None
    have "shown_after (ghosts_from surv host pre us) l = []" by (rule Cons.IH) (use Cons.prems in auto)
    then show ?thesis using None Cons.prems(1) by (simp add: shown_after_def)
  next
    case (Some line)
    have "shown_after (ghosts_from surv host (Some line) us) l = []" by (rule Cons.IH) (use Cons.prems Some in auto)
    then show ?thesis using Some by simp
  qed
qed simp

lemma map_filter_split:
  "List.map_filter f ns = u # us \<Longrightarrow>
     \<exists>n1 x n2. ns = n1 @ x # n2 \<and> (\<forall>y\<in>set n1. f y = None) \<and> f x = Some u \<and> List.map_filter f n2 = us"
proof (induction ns)
  case (Cons n ns)
  show ?case
  proof (cases "f n")
    case None
    with Cons obtain n1 x n2 where "ns = n1 @ x # n2" "\<forall>y\<in>set n1. f y = None" "f x = Some u" "List.map_filter f n2 = us"
      by auto
    with None have "n # ns = (n # n1) @ x # n2 \<and> (\<forall>y\<in>set (n # n1). f y = None) \<and> f x = Some u \<and> List.map_filter f n2 = us"
      by simp
    then show ?thesis by blast
  next
    case (Some v)
    with Cons.prems have "n # ns = [] @ n # ns \<and> (\<forall>y\<in>set []. f y = None) \<and> f n = Some u \<and> List.map_filter f ns = us"
      by simp
    then show ?thesis by blast
  qed
qed simp

lemma old_seen_loop:
  assumes "distinct (map fst ns)" and "pre \<notin> Some ` fst ` set ns"
    and "List.map_filter snd ns = filter (\<lambda>u. map_of surv u \<noteq> None) us"
    and "\<forall>(line, m)\<in>set ns. \<forall>u. m = Some u \<longrightarrow> map_of surv u = Some line"
  shows "shown_after (ghosts_from surv host pre us) pre
    @ concat (map (\<lambda>(line, m). (case m of None \<Rightarrow> [] | Some u \<Rightarrow> [u])
        @ shown_after (ghosts_from surv host pre us) (Some line)) ns) = us"
  using assms
proof (induction us arbitrary: pre ns)
  case Nil
  then show ?case by (auto simp: map_filter_def filter_empty_conv split: option.splits)
next
  case (Cons u us)
  show ?case
  proof (cases "map_of surv u")
    case None
    have A: "shown_after (ghosts_from surv host pre us) pre
        @ concat (map (\<lambda>(line, m). (case m of None \<Rightarrow> [] | Some u \<Rightarrow> [u])
            @ shown_after (ghosts_from surv host pre us) (Some line)) ns) = us"
      by (rule Cons.IH) (use Cons.prems None in auto)
    have "shown_after (ghosts_from surv host pre (u # us)) (Some line)
        = shown_after (ghosts_from surv host pre us) (Some line)" if "line \<in> fst ` set ns" for line
      using that Cons.prems(2) None by (auto simp: shown_after_def)
    then have B: "map (\<lambda>(line, m). (case m of None \<Rightarrow> [] | Some u \<Rightarrow> [u])
            @ shown_after (ghosts_from surv host pre (u # us)) (Some line)) ns
        = map (\<lambda>(line, m). (case m of None \<Rightarrow> [] | Some u \<Rightarrow> [u])
            @ shown_after (ghosts_from surv host pre us) (Some line)) ns"
      by (intro map_cong) force+
    have C: "shown_after (ghosts_from surv host pre (u # us)) pre = u # shown_after (ghosts_from surv host pre us) pre"
      using None by (simp add: shown_after_def)
    show ?thesis unfolding B C using A by (simp del: ghosts_from.simps)
  next
    case (Some line)
    let ?g = "ghosts_from surv host (Some line) us"
    have g: "ghosts_from surv host pre (u # us) = ?g" using Some by simp
    have "List.map_filter snd ns = u # filter (\<lambda>u. map_of surv u \<noteq> None) us" using Cons.prems(3) Some by simp
    then obtain n1 n2 l where ns: "ns = n1 @ (l, Some u) # n2" and n1: "\<forall>x\<in>set n1. snd x = None"
      and n2: "List.map_filter snd n2 = filter (\<lambda>u. map_of surv u \<noteq> None) us"
      using map_filter_split [of snd ns] by (metis prod.collapse)
    have l: "l = line" using Cons.prems(4) Some ns by auto
    have lines: "x \<in> Some ` fst ` set n2" if "v \<in> set us" "map_of surv v = x" "x \<noteq> None" for v x
    proof -
      have "v \<in> set (List.map_filter snd n2)" unfolding n2 using that by auto
      then obtain k where "(k, Some v) \<in> set n2" by (auto simp: map_filter_def)
      then show ?thesis using Cons.prems(4) that ns by force
    qed
    have 1: "shown_after ?g pre = []"
    proof (rule shown_after_other)
      show "pre \<noteq> Some line" using Cons.prems(2) l ns by auto
      show "pre \<noteq> Some x" if "v \<in> set us" "map_of surv v = Some x" for v x
        using lines [OF that] Cons.prems(2) ns by auto
    qed
    have 2: "shown_after ?g (Some k) = []" if k: "k \<in> fst ` set n1" for k
    proof (rule shown_after_other)
      have d: "k \<noteq> line" "k \<notin> fst ` set n2" using Cons.prems(1) k l ns by auto
      then show "Some k \<noteq> Some line" by simp
      show "Some k \<noteq> Some x" if "v \<in> set us" "map_of surv v = Some x" for v x
        using lines [OF that] d(2) by auto
    qed
    have 3: "shown_after ?g (Some line)
        @ concat (map (\<lambda>(line, m). (case m of None \<Rightarrow> [] | Some u \<Rightarrow> [u]) @ shown_after ?g (Some line)) n2) = us"
      by (rule Cons.IH) (use Cons.prems n2 l ns in \<open>auto simp: image_iff\<close>)
    have "concat (map (\<lambda>(line, m). (case m of None \<Rightarrow> [] | Some u \<Rightarrow> [u]) @ shown_after ?g (Some line)) n1) = []"
      using n1 2 by force
    then show ?thesis unfolding g 1 using 3 by (simp add: ns l)
  qed
qed

lemma concat_one:
  assumes "distinct (map fst bs)" "(k0, b0) \<in> set bs" "\<And>k b. (k, b) \<in> set bs \<Longrightarrow> k \<noteq> k0 \<Longrightarrow> F b = []"
  shows "concat (map (\<lambda>(k, b). F b) bs) = F b0"
proof -
  obtain xs ys where bs: "bs = xs @ (k0, b0) # ys" using assms(2) by (meson split_list)
  have none: "concat (map (\<lambda>(k, b). F b) zs) = []" if "set zs \<subseteq> set bs" "k0 \<notin> fst ` set zs" for zs
  proof -
    have "F b = []" if m: "(k, b) \<in> set zs" for k b
    proof (rule assms(3))
      show "(k, b) \<in> set bs" using m \<open>set zs \<subseteq> set bs\<close> by blast
      show "k \<noteq> k0" using m \<open>k0 \<notin> fst ` set zs\<close> by force
    qed
    then show ?thesis by auto
  qed
  have "k0 \<notin> fst ` set xs" "k0 \<notin> fst ` set ys" using assms(1) bs by auto
  moreover have "set xs \<subseteq> set bs" "set ys \<subseteq> set bs" by (auto simp: bs)
  ultimately have "concat (map (\<lambda>(k, b). F b) xs) = []" and "concat (map (\<lambda>(k, b). F b) ys) = []"
    using none [of xs] none [of ys] by blast+
  then show ?thesis by (simp add: bs del: concat_eq_Nil_conv)
qed

lemma sorted_map_filter:
  "sorted_wrt (<) is \<Longrightarrow> (\<And>i j u v. i \<in> set is \<Longrightarrow> j \<in> set is \<Longrightarrow> i < j \<Longrightarrow> f i = Some u \<Longrightarrow> f j = Some v \<Longrightarrow> u < v)
     \<Longrightarrow> sorted_wrt (<) (List.map_filter f (is :: nat list) :: nat list)"
proof (induction "is")
  case (Cons i js)
  have "sorted_wrt (<) (List.map_filter f js)" by (rule Cons.IH) (use Cons.prems in auto)
  moreover have "u < v" if a: "f i = Some u" "v \<in> set (List.map_filter f js)" for u v
  proof -
    obtain j where "j \<in> set js" "f j = Some v" using a(2) by (auto simp: map_filter_def)
    then show ?thesis using Cons.prems(1) Cons.prems(2) [of i j u v] a(1) by simp
  qed
  ultimately show ?case by (simp split: option.splits)
qed (simp add: map_filter_def)

lemma ghosts_from_members: "a \<in> set (ghosts_from surv host pre us) \<Longrightarrow> ghost a \<in> set us \<and> map_of surv (ghost a) = None"
  by (induction us arbitrary: pre) (auto split: option.splits)

lemma bucket_ghosts_from: "bucket_ghosts surv b =
    (if \<forall>u\<in>set b. map_of surv u = None then [] else ghosts_from surv (hd (List.map_filter (map_of surv) b)) None b)"
proof (cases "List.map_filter (map_of surv) b")
  case Nil
  then show ?thesis by (auto simp: bucket_ghosts_def map_filter_def filter_empty_conv)
next
  case (Cons host ls)
  then have "\<not> (\<forall>u\<in>set b. map_of surv u = None)"
    using map_filter_split [OF Cons] by auto
  then show ?thesis using Cons ghost_fold [of surv host "[]" None b] by (simp only: bucket_ghosts_def) simp
qed

lemma bucket_ghosts_members: "a \<in> set (bucket_ghosts surv b) \<Longrightarrow> ghost a \<in> set b \<and> map_of surv (ghost a) = None"
  using ghosts_from_members by (auto simp: bucket_ghosts_from split: if_splits)

text \<open>The survivors of a pairing.\<close>

lemma pairing_survivor:
  "map_of (survivorNewStartLine news (pairUnits olds news ok nk)) u = Some l \<longleftrightarrow>
     (\<exists>i<length news. matches (pairUnits olds news ok nk) ! i = Some u \<and> l = startLine (news ! i))"
  by (rule survivor_line) (rule matched_unique)

lemma pairing_survives:
  "map_of (survivorNewStartLine news (pairUnits olds news ok nk)) u \<noteq> None \<longleftrightarrow>
     (\<exists>i<length news. matches (pairUnits olds news ok nk) ! i = Some u)"
  using pairing_survivor [of news olds ok nk u] by auto

lemma all_ghosts: "resolveGhostAnchorsForUnits olds news (pairUnits olds news ok nk) bucketOf =
    concat (map (\<lambda>(k, b). bucket_ghosts (survivorNewStartLine news (pairUnits olds news ok nk)) b)
      (bucketByKey [0..<length olds] bucketOf))"
proof (cases "unmatchedOld (pairUnits olds news ok nk) = []")
  case True
  have "bucket_ghosts (survivorNewStartLine news (pairUnits olds news ok nk)) b = []"
    if "(k, b) \<in> set (bucketByKey [0..<length olds] bucketOf)" for k b
  proof (rule ccontr)
    assume "\<not> ?thesis"
    then obtain a where a: "a \<in> set (bucket_ghosts (survivorNewStartLine news (pairUnits olds news ok nk)) b)"
      by (meson last_in_set)
    have "ghost a < length olds" using bucket_member [OF that] bucket_ghosts_members [OF a] by auto
    moreover have "Some (ghost a) \<notin> set (matches (pairUnits olds news ok nk))"
      using bucket_ghosts_members [OF a] pairing_survives [of news olds ok nk "ghost a"]
      by (metis in_set_conv_nth pairUnits_facts(1))
    ultimately have "ghost a \<in> set (unmatchedOld (pairUnits olds news ok nk))" unfolding unmatched_left by simp
    then show False using True by simp
  qed
  then have "concat (map (\<lambda>(k, b). bucket_ghosts (survivorNewStartLine news (pairUnits olds news ok nk)) b)
      (bucketByKey [0..<length olds] bucketOf)) = []" by auto
  then show ?thesis using True by (simp add: resolveGhostAnchorsForUnits_def)
qed (simp add: resolveGhostAnchorsForUnits_def)

text \<open>The ghosts of one container.\<close>

lemma container_ghosts:
  assumes same: "\<And>u v. u < length olds \<Longrightarrow> v < length olds \<Longrightarrow> bucketOf u = bucketOf v \<longleftrightarrow> ok u = ok v"
  shows "filter (\<lambda>a. ok (ghost a) = k) (resolveGhostAnchorsForUnits olds news (pairUnits olds news ok nk) bucketOf)
    = bucket_ghosts (survivorNewStartLine news (pairUnits olds news ok nk)) (old_of olds ok k)"
proof -
  let ?s = "survivorNewStartLine news (pairUnits olds news ok nk)"
  let ?bs = "bucketByKey [0..<length olds] bucketOf"
  define F where "F = (\<lambda>b. filter (\<lambda>a. ok (ghost a) = k) (bucket_ghosts ?s b))"
  have all: "filter (\<lambda>a. ok (ghost a) = k) (resolveGhostAnchorsForUnits olds news (pairUnits olds news ok nk) bucketOf)
    = concat (map (\<lambda>(k, b). F b) ?bs)"
    unfolding all_ghosts filter_concat by (simp add: F_def comp_def case_prod_unfold)
  have none: "F b = []" if b: "b = filter (\<lambda>u. bucketOf u = c) [0..<length olds]" and "\<forall>u\<in>set b. ok u \<noteq> k" for b c
    using that bucket_ghosts_members unfolding F_def filter_empty_conv by blast
  show ?thesis
  proof (cases "old_of olds ok k = []")
    case True
    then have no: "ok u \<noteq> k" if "u < length olds" for u using that by (auto simp: old_of_def filter_empty_conv)
    have "concat (map (\<lambda>(k, b). F b) ?bs) = []"
      using none bucket_member no by fastforce
    then show ?thesis unfolding all True by (simp add: bucket_ghosts_from)
  next
    case False
    then obtain u0 where u0: "u0 < length olds" "ok u0 = k" using old_of_member [of _ olds ok k] by (metis last_in_set)
    have ob: "old_of olds ok k = filter (\<lambda>u. bucketOf u = bucketOf u0) [0..<length olds]"
      unfolding old_of_def by (rule filter_cong) (use same u0 in auto)
    have mem: "(bucketOf u0, old_of olds ok k) \<in> set ?bs"
      unfolding ob by (rule map_of_SomeD) (use u0 in \<open>auto simp: bucket_map Let_def filter_empty_conv\<close>)
    have "concat (map (\<lambda>(k, b). F b) ?bs) = F (old_of olds ok k)"
    proof (rule concat_one [OF bucket_distinct mem])
      fix c b assume c: "(c, b) \<in> set ?bs" "c \<noteq> bucketOf u0"
      have b: "b = filter (\<lambda>u. bucketOf u = c) [0..<length olds]" using bucket_member [OF c(1)] by simp
      then have "\<forall>u\<in>set b. ok u \<noteq> k" using same [OF _ u0(1)] u0(2) c(2) by auto
      with b show "F b = []" by (rule none)
    qed
    moreover have "F (old_of olds ok k) = bucket_ghosts ?s (old_of olds ok k)"
      unfolding F_def by (rule filter_True) (use bucket_ghosts_members old_of_member [of _ olds ok k] in blast)
    ultimately show ?thesis unfolding all by simp
  qed
qed

section \<open>What an item owns\<close>

text \<open>A document with the contents of its nested lists erased.\<close>

fun erase_lists :: "mdast \<Rightarrow> mdast" where
  "erase_lists (Mdast t p v a l d cs) =
     (if t = ''list'' then Mdast ''list'' None None None None 0 [] else Mdast t p v a l d (map erase_lists cs))"

lemma own_text_erase: "collectOwnText (erase_lists n) = collectOwnText n"
proof (induction n)
  case (Mdast t p v a l d cs)
  then have "map (collectOwnText \<circ> erase_lists) cs = map collectOwnText cs" by simp
  then show ?case by (simp only: erase_lists.simps collectOwnText.simps if_distrib list.map_comp) simp
qed

lemma erase_shape: "n_type (erase_lists n) = n_type n \<and> (n_type n \<noteq> ''list'' \<longrightarrow> n_position (erase_lists n) = n_position n)"
  by (cases n) simp

lemma own_end_erase:
  "foldl (\<lambda>e c. if n_type c = ''list'' then e
      else (case n_position c of None \<Rightarrow> e | Some (s, ce) \<Rightarrow> if ce \<noteq> 0 \<and> e < ce then ce else e)) e0 (map erase_lists cs)
   = foldl (\<lambda>e c. if n_type c = ''list'' then e
      else (case n_position c of None \<Rightarrow> e | Some (s, ce) \<Rightarrow> if ce \<noteq> 0 \<and> e < ce then ce else e)) e0 cs"
  by (induction cs arbitrary: e0) (simp_all add: erase_shape)

section \<open>Properties\<close>

text \<open>
  C39. The pairing of two documents is an alignment: each new unit is paired with at most one
  old unit, of the same container, and within a container the pairs run in document order; the
  removed units are exactly the old ones without a partner. As many units keep their text as a
  longest common subsequence of the container has, so no alignment could show fewer changes,
  and an old and a new unit of a container are both left over only when an unchanged unit
  stands between them.
\<close>

theorem pairing_is_an_alignment:
  fixes olds news :: "'a md_unit_scheme list" and oldKey newKey :: "nat \<Rightarrow> 'k"
  defines "p \<equiv> pairUnits olds news oldKey newKey"
  shows "length (matches p) = length news
    \<and> (\<forall>i u. i < length news \<and> matches p ! i = Some u \<longrightarrow> u < length olds \<and> oldKey u = newKey i)
    \<and> (\<forall>i j u v. i < j \<and> j < length news \<and> newKey i = newKey j \<and> matches p ! i = Some u \<and> matches p ! j = Some v
         \<longrightarrow> u < v)
    \<and> unmatchedOld p = filter (\<lambda>u. Some u \<notin> set (matches p)) [0..<length olds]
    \<and> (\<forall>k. length (filter (kept olds news p) (old_of news newKey k))
         = lcs (texts olds (old_of olds oldKey k)) (texts news (old_of news newKey k)))
    \<and> (\<forall>u i. u \<in> set (unmatchedOld p) \<and> i < length news \<and> matches p ! i = None \<and> oldKey u = newKey i
         \<longrightarrow> (\<exists>v j. j < length news \<and> newKey j = newKey i \<and> matches p ! j = Some v
               \<and> text_of (olds ! v) = text_of (news ! j) \<and> (u < v \<and> j < i \<or> v < u \<and> i < j)))"
  unfolding p_def
proof (intro conjI allI impI, goal_cases)
  case 1
  show ?case by (rule pairUnits_facts(1))
next
  case (2 i u)
  then show ?case using matched_range by blast
next
  case (3 i u)
  then show ?case using matched_range by blast
next
  case (4 i j u v)
  then show ?case using matched_order [of i j news newKey olds oldKey u v] by blast
next
  case 5
  show ?case by (rule unmatched_left)
next
  case (6 k)
  show ?case by (rule kept_count)
next
  case (7 u i)
  then show ?case using leftovers_apart [of u olds oldKey newKey i news] by (simp add: unmatched_left)
qed

text \<open>
  C40. The rendered diff keeps the old document readable. Take a container of the new document
  in which no two units start on the same line, and let the bucket of an old unit tell containers
  apart exactly as the old keys do. If a unit of it survives, the removed units at their anchors
  and the new units read as their old partners are the old units of the container, complete and in
  their order; if none survives, no ghost is shown for it. Two units that start on one line, as the
  items of \<open>- - a\<close>, are excluded: see \<open>ghost_shown_twice\<close>.
\<close>

theorem ghosts_restore_the_old:
  fixes olds news :: "'a md_unit_scheme list" and oldKey newKey :: "nat \<Rightarrow> 'k"
  assumes same: "\<And>u v. u < length olds \<Longrightarrow> v < length olds \<Longrightarrow> bucketOf u = bucketOf v \<longleftrightarrow> oldKey u = oldKey v"
    and lines: "distinct (map (\<lambda>i. startLine (news ! i)) (old_of news newKey k))"
  defines "p \<equiv> pairUnits olds news oldKey newKey"
  defines "ghosts \<equiv> filter (\<lambda>a. oldKey (ghost a) = k) (resolveGhostAnchorsForUnits olds news p bucketOf)"
  shows "if \<exists>i\<in>set (old_of news newKey k). matches p ! i \<noteq> None
    then old_seen ghosts (map (\<lambda>i. (startLine (news ! i), matches p ! i)) (old_of news newKey k)) = old_of olds oldKey k
    else ghosts = []"
proof -
  define surv where "surv = survivorNewStartLine news p"
  define ns where "ns = map (\<lambda>i. (startLine (news ! i), matches p ! i)) (old_of news newKey k)"
  let ?ob = "old_of olds oldKey k" and ?nb = "old_of news newKey k"
  have g: "ghosts = bucket_ghosts surv ?ob"
    unfolding ghosts_def p_def surv_def by (rule container_ghosts [OF same])
  have in_ob: "u \<in> set ?ob" if i: "i \<in> set ?nb" "matches p ! i = Some u" for i u
  proof -
    have l: "i < length news" "newKey i = k" using i(1) by (simp_all add: old_of_member)
    from matched_range [OF l(1) i(2) [unfolded p_def]] show ?thesis using l(2) by (simp add: old_of_member)
  qed
  have survives: "map_of surv u \<noteq> None \<longleftrightarrow> (\<exists>i\<in>set ?nb. matches p ! i = Some u)" if u: "u \<in> set ?ob" for u
  proof -
    have "newKey i = k" if i: "i < length news" "matches p ! i = Some u" for i
      using matched_range [OF i(1) i(2) [unfolded p_def]] u by (simp add: old_of_member)
    then have "(\<exists>i\<in>set ?nb. matches p ! i = Some u) \<longleftrightarrow> (\<exists>i<length news. matches p ! i = Some u)"
      unfolding Bex_def old_of_member by blast
    then show ?thesis unfolding surv_def p_def pairing_survives by simp
  qed
  show ?thesis
  proof (cases "\<exists>i\<in>set ?nb. matches p ! i \<noteq> None")
    case False
    then have "\<forall>u\<in>set ?ob. map_of surv u = None" using survives by fastforce
    then show ?thesis using False g by (simp add: bucket_ghosts_from)
  next
    case True
    then obtain i u where iu: "i \<in> set ?nb" "matches p ! i = Some u" by auto
    then have "\<not> (\<forall>u\<in>set ?ob. map_of surv u = None)" using survives in_ob by blast
    then have gs: "ghosts = ghosts_from surv (hd (List.map_filter (map_of surv) ?ob)) None ?ob"
      using g unfolding bucket_ghosts_from by (simp only: if_False)
    have mf: "List.map_filter snd ns = List.map_filter (\<lambda>i. matches p ! i) ?nb"
      by (simp add: ns_def map_filter_def filter_map comp_def)
    have "sorted_wrt (<) (List.map_filter (\<lambda>i. matches p ! i) ?nb)"
    proof (rule sorted_map_filter [OF old_of_sorted])
      fix i j u v assume "i \<in> set ?nb" "j \<in> set ?nb" "i < j" "matches p ! i = Some u" "matches p ! j = Some v"
      then show "u < v" using matched_order [of i j news newKey olds oldKey u v] by (simp add: old_of_member p_def)
    qed
    moreover have "sorted_wrt (<) (filter (\<lambda>u. map_of surv u \<noteq> None) ?ob)"
      by (rule sorted_wrt_filter [OF old_of_sorted])
    moreover have "set (List.map_filter (\<lambda>i. matches p ! i) ?nb) = set (filter (\<lambda>u. map_of surv u \<noteq> None) ?ob)"
    proof (rule set_eqI)
      fix u
      have "u \<in> set (List.map_filter (\<lambda>i. matches p ! i) ?nb) \<longleftrightarrow> (\<exists>i\<in>set ?nb. matches p ! i = Some u)"
        by (force simp: map_filter_def)
      also have "\<dots> \<longleftrightarrow> u \<in> set ?ob \<and> map_of surv u \<noteq> None" using survives in_ob by blast
      finally show "u \<in> set (List.map_filter (\<lambda>i. matches p ! i) ?nb)
          \<longleftrightarrow> u \<in> set (filter (\<lambda>u. map_of surv u \<noteq> None) ?ob)" by simp
    qed
    ultimately have order: "List.map_filter snd ns = filter (\<lambda>u. map_of surv u \<noteq> None) ?ob"
      unfolding mf by (metis strict_sorted_equal)
    have at: "\<forall>(line, m)\<in>set ns. \<forall>u. m = Some u \<longrightarrow> map_of surv u = Some line"
      unfolding ns_def surv_def p_def pairing_survivor by (auto simp: old_of_member)
    have "map fst ns = map (\<lambda>i. startLine (news ! i)) ?nb" by (simp add: ns_def)
    then have d: "distinct (map fst ns)" using lines by simp
    have "old_seen ghosts ns = ?ob"
      unfolding old_seen_def gs by (rule old_seen_loop [OF d _ order at]) auto
    then show ?thesis using True by (simp add: ns_def)
  qed
qed

text \<open>
  A change inside a nested list never marks the item around it: what is extracted for a
  list item - its lines, its text, its list and its depth - depends only on the item with the
  contents of its nested lists erased.
\<close>

theorem items_own_their_text:
  assumes "map erase_lists (n_children a) = map erase_lists (n_children b)" and "n_position a = n_position b"
  shows "list_item line d a = list_item line d b"
proof -
  have "map collectOwnText (n_children a) = map collectOwnText (n_children b)"
    using arg_cong [OF assms(1), of "map collectOwnText"] by (simp add: comp_def own_text_erase)
  then have "text_parts (n_children a) = text_parts (n_children b)" by (simp add: text_parts_def)
  moreover have "ownContentEndLine a f = ownContentEndLine b f" for f
    using own_end_erase [of 0 "n_children a"] own_end_erase [of 0 "n_children b"] assms(1)
    by (simp only: ownContentEndLine_def)
  ultimately show ?thesis using assms(2) by (simp add: list_item_def start_line_def)
qed

section \<open>Lists and rows\<close>

text \<open>The ordinals tell lists apart exactly as their start lines do.\<close>

lemma ordinals_facts:
  "let m = ordinalsByFirstAppearance xs f
   in fst ` set m = f ` set xs \<and> map snd m = [0..<length m] \<and> distinct (map fst m)"
proof (induction xs rule: rev_induct)
  case Nil
  then show ?case by (simp add: ordinalsByFirstAppearance_def)
next
  case (snoc x xs)
  define m where "m = ordinalsByFirstAppearance xs f"
  have m: "fst ` set m = f ` set xs" "map snd m = [0..<length m]" "distinct (map fst m)"
    using snoc by (simp_all add: m_def Let_def)
  have s: "ordinalsByFirstAppearance (xs @ [x]) f = (if map_of m (f x) = None then omap_set (f x) (length m) m else m)"
    by (simp add: ordinalsByFirstAppearance_def m_def)
  show ?case
  proof (cases "map_of m (f x)")
    case None
    then have "f x \<notin> fst ` set m" by (simp add: map_of_eq_None_iff)
    then show ?thesis using m None by (simp add: s omap_set_def Let_def)
  next
    case (Some v)
    then have "f x \<in> fst ` set m" by (metis map_of_eq_None_iff option.distinct(1))
    then show ?thesis using m Some by (auto simp: s Let_def)
  qed
qed

lemma ordinal_partition:
  assumes "u < length xs" "v < length xs"
  shows "ordinal_key xs f u = ordinal_key xs f v \<longleftrightarrow> f (xs ! u) = f (xs ! v)"
proof -
  define m where "m = ordinalsByFirstAppearance xs f"
  have m: "fst ` set m = f ` set xs" "map snd m = [0..<length m]" "distinct (map fst m)"
    using ordinals_facts [of xs f] by (simp_all add: m_def Let_def)
  have i: "\<exists>i<length m. map_of m (f (xs ! u)) = Some i \<and> fst (m ! i) = f (xs ! u)" if "u < length xs" for u
  proof -
    have "f (xs ! u) \<in> set (map fst m)" using that m(1) by simp
    then obtain i where i: "i < length m" "fst (m ! i) = f (xs ! u)"
      unfolding in_set_conv_nth by auto
    have "snd (m ! i) = i" using m(2) i(1) by (metis add_0 length_map nth_map nth_upt)
    then have "(f (xs ! u), i) \<in> set m" using i by (metis nth_mem prod.collapse)
    then show ?thesis using i m(3) by auto
  qed
  obtain a where a: "map_of m (f (xs ! u)) = Some a" "fst (m ! a) = f (xs ! u)" using i [OF assms(1)] by blast
  obtain b where b: "map_of m (f (xs ! v)) = Some b" "fst (m ! b) = f (xs ! v)" using i [OF assms(2)] by blast
  show ?thesis using a b unfolding ordinal_key_def m_def [symmetric] by auto
qed

lemma list_keys_partition: "u < length items \<Longrightarrow> v < length items \<Longrightarrow>
    (\<lambda>u. listStartLine (items ! u)) u = (\<lambda>u. listStartLine (items ! u)) v \<longleftrightarrow> listKeyOf items u = listKeyOf items v"
  by (simp add: listKeyOf_def ordinal_partition)

text \<open>The identity text of a row tells rows apart exactly as their cells do.\<close>

lemma row_text_identifies:
  assumes "\<forall>c\<in>set (cells r) \<union> set (cells s). CHR 0x00 \<notin> set c" and "cells r \<noteq> []" "cells s \<noteq> []"
  shows "joinWith [CHR 0x00] (cells r) = joinWith [CHR 0x00] (cells s) \<longleftrightarrow> cells r = cells s"
  using assms split_join [of "cells r" "CHR 0x00"] split_join [of "cells s" "CHR 0x00"] by (metis UnCI)

section \<open>Witnesses\<close>

definition item :: "nat \<Rightarrow> nat \<Rightarrow> nat \<Rightarrow> string \<Rightarrow> MdListItem" where
  "item line ls d s = \<lparr>startLine = line, endLine = line, text_of = s, listStartLine = ls, depth = d\<rparr>"

definition demo_old :: "MdListItem list" where
  "demo_old = [item 3 3 0 ''gone'', item 4 3 0 ''kept'', item 5 3 0 ''gone too'', item 6 3 0 ''last'']"

definition demo_new :: "MdListItem list" where
  "demo_new = [item 8 8 0 ''kept'', item 9 8 0 ''last'', item 10 8 0 ''new'']"

theorem pairing_is_an_alignment_witness:
  "let p = pairUnits demo_old demo_new (listKeyOf demo_old) (listKeyOf demo_new)
   in matches p = [Some 1, Some 3, None] \<and> unmatchedOld p = [0, 2]
      \<and> listKeyOf demo_old 1 = listKeyOf demo_new 0
      \<and> length (filter (kept demo_old demo_new p) (old_of demo_new (listKeyOf demo_new) 0))
        = lcs (texts demo_old (old_of demo_old (listKeyOf demo_old) 0)) (texts demo_new (old_of demo_new (listKeyOf demo_new) 0))"
proof -
  let ?p = "pairUnits demo_old demo_new (listKeyOf demo_old) (listKeyOf demo_new)"
  note t = pairing_is_an_alignment [of demo_old demo_new "listKeyOf demo_old" "listKeyOf demo_new"]
  have m: "matches ?p = [Some 1, Some 3, None]" and "unmatchedOld ?p = [0, 2]" by code_simp+
  moreover have "listKeyOf demo_old 1 = listKeyOf demo_new 0"
    using t [THEN conjunct2, THEN conjunct1, THEN spec [of _ 0], THEN spec [of _ 1]] m
    by (simp add: demo_new_def)
  moreover have "length (filter (kept demo_old demo_new ?p) (old_of demo_new (listKeyOf demo_new) 0))
      = lcs (texts demo_old (old_of demo_old (listKeyOf demo_old) 0)) (texts demo_new (old_of demo_new (listKeyOf demo_new) 0))"
    using t by blast
  ultimately show ?thesis unfolding Let_def by (intro conjI)
qed

theorem ghosts_restore_the_old_witness:
  "let p = pairUnits demo_old demo_new (listKeyOf demo_old) (listKeyOf demo_new);
       ghosts = filter (\<lambda>a. listKeyOf demo_old (ghost a) = 0)
         (resolveGhostAnchorsForUnits demo_old demo_new p (\<lambda>u. listStartLine (demo_old ! u)));
       ns = map (\<lambda>i. (startLine (demo_new ! i), matches p ! i)) (old_of demo_new (listKeyOf demo_new) 0)
   in old_seen ghosts ns = [0, 1, 2, 3] \<and> map insertAfterStartLine ghosts = [None, Some 8]"
proof -
  let ?p = "pairUnits demo_old demo_new (listKeyOf demo_old) (listKeyOf demo_new)"
  let ?nb = "old_of demo_new (listKeyOf demo_new) 0"
  let ?g = "filter (\<lambda>a. listKeyOf demo_old (ghost a) = 0)
     (resolveGhostAnchorsForUnits demo_old demo_new ?p (\<lambda>u. listStartLine (demo_old ! u)))"
  have d: "distinct (map (\<lambda>i. startLine (demo_new ! i)) ?nb)" by code_simp
  have s: "\<exists>i\<in>set ?nb. matches ?p ! i \<noteq> None" by code_simp
  have "old_seen ?g (map (\<lambda>i. (startLine (demo_new ! i), matches ?p ! i)) ?nb) = old_of demo_old (listKeyOf demo_old) 0"
    using ghosts_restore_the_old [where olds = demo_old and news = demo_new and oldKey = "listKeyOf demo_old"
        and newKey = "listKeyOf demo_new" and k = 0 and bucketOf = "\<lambda>u. listStartLine (demo_old ! u)",
        OF list_keys_partition d] s by (simp only: if_True)
  moreover have "old_of demo_old (listKeyOf demo_old) 0 = [0, 1, 2, 3]" by code_simp
  moreover have "map insertAfterStartLine ?g = [None, Some 8]" by code_simp
  ultimately show ?thesis unfolding Let_def by (simp only: simp_thms)
qed

definition text_node :: "string \<Rightarrow> mdast" where
  "text_node s = Mdast ''paragraph'' (Some (1, 1)) None None None 0 [Mdast ''text'' (Some (1, 1)) (Some s) None None 0 []]"

definition nested_item :: "nat \<Rightarrow> string \<Rightarrow> mdast" where
  "nested_item line s = Mdast ''listItem'' (Some (1, 2)) None None None 0 [text_node ''outer'',
     Mdast ''list'' (Some (line, line)) None None None 0
       [Mdast ''listItem'' (Some (line, line)) None None None 0 [text_node s]]]"

theorem items_own_their_text_witness:
  "list_item 1 0 (nested_item 2 ''a'') = list_item 1 0 (nested_item 2 ''b'') \<and> nested_item 2 ''a'' \<noteq> nested_item 2 ''b''"
  using items_own_their_text [of "nested_item 2 ''a''" "nested_item 2 ''b''" 1 0]
  by (simp add: nested_item_def text_node_def)

section \<open>Two remarks on the comments\<close>

text \<open>A list nested in the first line of an item starts on the line of the outer list: they share a bucket.\<close>

lemma nested_list_shares_its_line:
  "map (\<lambda>i. (listStartLine i, startLine i, depth i))
     (extractListItems (\<lambda>s. Mdast ''root'' None None None None 0
        [Mdast ''list'' (Some (1, 1)) None None None 0 [nested_item 1 ''a'']]) ''- - a'')
   = [(1, 1, 0), (1, 1, 1)]"
  by (simp add: extractListItems_def collectListItems.simps list_item_def start_line_def nested_item_def text_node_def)

text \<open>
  The two items of \<open>- - a\<close> share a container and a line, so an item removed below them is shown
  after both: the old list reads 0, 2, 1, 2.
\<close>

lemma ghost_shown_twice:
  "let olds = [item 1 1 0 ''o'', item 1 1 1 ''a'', item 2 1 1 ''b'']; news = [item 1 1 0 ''o'', item 1 1 1 ''a''];
       p = pairUnits olds news (listKeyOf olds) (listKeyOf news);
       ghosts = resolveGhostAnchorsForUnits olds news p (\<lambda>u. listStartLine (olds ! u))
   in old_seen ghosts (map (\<lambda>i. (startLine (news ! i), matches p ! i)) (old_of news (listKeyOf news) 0)) = [0, 2, 1, 2]"
  by code_simp

text \<open>Anchors come container by container, not in the order of the old document.\<close>

lemma anchors_by_container:
  "let olds = [item 1 1 0 ''a'', item 2 2 1 ''b'', item 3 2 1 ''c'', item 4 1 0 ''d''];
       news = [item 1 1 0 ''a'', item 2 2 1 ''b'']
   in map (\<lambda>(s, h, l). s) (resolveGhostAnchors olds news (pairListItems olds news)) = [''d'', ''c'']"
  by code_simp

end
