(* ===== verification/Spec2Isabelle.thy ===== *)
theory Spec2Isabelle
  imports WireFrame TmuxCodec TmuxLayout TmuxParser TmuxCommands TmuxStore ControlManager CallbackBroker Watch Sessions RpcClient SshTransport WordDiff ContentTabs GraphLayout Folding Patch Tabular MuxTerminal ControlSession PanelStores MarkdownDiff
begin

text \<open>
  A verification development for the core logic of agent_cockpit, a desktop cockpit for coding
  agents: an Electron main process (\<open>src/electron/main\<close>) that owns projects, their local or
  remote providers, terminals, watches and the callback socket; a renderer
  (\<open>src/src/renderer\<close>) that shows tmux panes, changes, files and the work graph; and shared
  protocol code (\<open>src/src/shared\<close>).

  Every definition translates TypeScript named in the theory's own header. State is a record
  that operations return updated; what an operation does to the world is a list of outputs it
  returns; an exception is a value; an \<open>async\<close> function is split at its \<open>await\<close>s into
  steps, and the steps of several calls interleave freely in the runs the theorems speak of.
  Code that is not part of the repository (JSON coding, ssh2, tmux itself, the file system, the
  locale's collation) is an argument or an oracle of the definitions that use it.

  \<^bold>\<open>Shared wire and protocol code.\<close>
  \<^item> \<open>Prelude\<close>, \<open>JsText\<close>: strings, decimal numbers, UTF-8, insertion-ordered maps and sets,
    Node's posix paths; the locales \<open>stepping\<close> (a machine that keeps an invariant) and
    \<open>chunk_consumer\<close> (a chunked reader that refines a function on the whole input). Both are
    interpreted on the decoders and stores below.
  \<^item> \<open>WireFrame\<close> (\<open>shared/wire/frame.ts\<close>): length-prefixed frames. What each \<open>push\<close>
    returns or throws is read off the concatenated bytes, frames round trip, the buffer is
    bounded and errors stick.
  \<^item> \<open>TmuxCodec\<close>, \<open>TmuxLayout\<close>, \<open>TmuxParser\<close>, \<open>TmuxCommands\<close> (\<open>shared/tmux\<close>): the control
    mode protocol. Octal output decodes to the bytes that were sent, layouts and notifications
    round trip through what tmux prints (under the conditions stated there on escape sequences and
    reply bodies), the parser is indifferent to chunking and answers every block, and the
    commands that send input carry exactly its bytes.
  \<^item> \<open>CallbackProtocol\<close> (\<open>shared/callback\<close>): the envelope that the \<open>cockpit\<close> command sends.

  \<^bold>\<open>Main process.\<close>
  \<^item> \<open>ControlManager\<close> (\<open>providers/local/tmuxControl.ts\<close>): the command queue of a control
    channel; it uses the parser. Each command settles once and with its own reply.
  \<^item> \<open>CallbackBroker\<close> (\<open>callback/broker.ts\<close>, \<open>classify.ts\<close>, \<open>limiter.ts\<close>): rate limit, exact
    acceptance conditions, where an opened path lands, one listener per project.
  \<^item> \<open>Watch\<close> (\<open>shared/watch\<close>, \<open>watch/ingest.ts\<close>, \<open>renderer/watch/hub.ts\<close>,
    \<open>providers/diffCache.ts\<close>): path policy, batching, fan-out and cache invalidation, with an
    end-to-end theorem from the watcher to the subscribers.
  \<^item> \<open>Connection\<close>, \<open>Sessions\<close> (\<open>providers/connectionMachine.ts\<close>, \<open>sessionManager.ts\<close>,
    \<open>sessionReaper.ts\<close>): the connection state machine as a step relation, and the sessions
    with their asynchronous opens, reconnects, watches and evictions.
  \<^item> \<open>RpcClient\<close> (\<open>providers/remote/rpcClient.ts\<close>): the client of the remote helper, over
    \<open>WireFrame\<close>: every promise settles once, and answers reach the calls that asked however
    the bytes arrive.
  \<^item> \<open>SshHost\<close>, \<open>SshTransport\<close> (\<open>providers/remote/sshConfigResolve.ts\<close>, \<open>transport.ts\<close>): host
    resolution, host keys, the connection lifecycle and the replacement of the helper binary.
  \<^item> \<open>MuxTerminal\<close> (\<open>providers/remote/muxTerminal.ts\<close>): the remote terminals that survive the
    app. Each \<open>await\<close> of the class is a task with a continuation, and answers arrive in any
    order: a terminal is polled once at a time and shows each chunk once and in order, and its
    newest size is the one sent.

  \<^bold>\<open>Renderer.\<close>
  \<^item> \<open>TmuxStore\<close> (\<open>tmux/tmuxStore.ts\<close>): the view shows the last that tmux said of every
    window, and projects never see each other's panes.
  \<^item> \<open>ControlSession\<close> (\<open>tmux/controlSession.ts\<close>): the life of the control sessions over
    that store. A fresh channel is read or being caught up with, one re-initialisation runs at a
    time and leaves the view equal to what tmux listed, reconciliation of the reserved windows
    rests after one pass on every server that does what tmux documents (a parameter), and a
    settled layout is a fixed point of the size exchange.
  \<^item> \<open>PanelStores\<close> (\<open>worktree/worktreeStore.ts\<close>, \<open>changes/changesStore.ts\<close>,
    \<open>beads/beadsStore.ts\<close>, \<open>workspace/focusMemory.ts\<close>, \<open>panelDataSync.ts\<close>): the slices of
    each project and their orchestration. The changes never rest on another worktree's diff,
    and a burst of refreshes costs one read at a time and one more after it.
  \<^item> \<open>WordDiff\<close> (\<open>content/wordDiff.ts\<close>), \<open>ContentTabs\<close> (\<open>content/tabState.ts\<close>,
    \<open>selectionStore.ts\<close>, \<open>files/rowMenu.ts\<close>): intraline diffs, the persistent tabs.
  \<^item> \<open>MarkdownDiff\<close> (\<open>content/markdownItemDiff.ts\<close>): the units of two rendered documents,
    their alignment over the table of \<open>WordDiff\<close>, and the ghosts of removed units. The
    alignment is minimal and, where units start on different lines, the rendered diff restores
    the old document.
  \<^item> \<open>Workgraph\<close>, \<open>GraphLayout\<close> (\<open>beads/graphSelectors.ts\<close>, \<open>graphLayout.ts\<close>): derived states,
    the parent-child forest, the focused subgraph and its grid.
  \<^item> \<open>Folding\<close> (\<open>content/foldModel.ts\<close>, \<open>jsonFold.ts\<close>, \<open>foldingRows.ts\<close>), \<open>Patch\<close>
    (\<open>content/parsePatch.ts\<close>, \<open>hunkMap.ts\<close>), \<open>Tabular\<close> (\<open>content/tabularCore.ts\<close>,
    \<open>tabularCap.ts\<close>): the file viewers. Fold regions nest and the rows of a fold are characterised exactly, a
    rendered patch parses back, a written table parses back and a query shows what it selects.
    \<open>JsSort\<close> is the stable sort they share.

  \<^bold>\<open>Bounds and fuel.\<close> The frame decoder's loop has one turn per buffered byte plus one
  (\<open>push_total\<close>); the graph walk one turn per dependency endpoint plus one (\<open>walk_ends\<close>); the
  forest and the ancestor chain recurse with a measure on the issues outside the path, so they
  end on every graph. Other loops are structural. Times are natural or rational numbers;
  the words of the wire are 8-bit words, and lengths are written out modulo \<open>2^32\<close>.

  \<^bold>\<open>Interfaces.\<close> A component that relies on another imports its theory and uses its lemmas:
  the RPC client rests on the decoder's lemmas, the control manager on the parser's, the session
  manager on \<open>edge\<close>, the focused graph on the derived states.

  \<^bold>\<open>Not modelled.\<close> React components and hooks, CSS and DOM code; Electron windows, menus and
  preload; IPC registration; the Go helper and mux daemon; thin wrappers around git, SQLite,
  ssh2, node-pty and the file system, whose results the models take as arguments; the remote
  control manager, which repeats the local one over ssh; the stores of settings, notes, projects
  and explorer; the rendering of Markdown; test doubles, scripts and screenshots.
\<close>

end
